(* ===== verification/Prelude.thy ===== *)
theory Prelude
  imports Main "HOL-Library.Word" "HOL-Library.Sublist"
begin

text \<open>
  Shared vocabulary of the development: the machine-integer types of the C++ core, byte strings,
  the \<open>DecodingError\<close> / \<open>std::expected\<close> results, and the arithmetic of big- and little-endian
  byte strings on which every encoder, decoder and trie component rests.
\<close>

unbundle bit_operations_syntax

named_theorems codec_laws \<open>characterisations of successful decoding, one per decoder\<close>
named_theorems length_laws \<open>the length functions agree with the encoders\<close>

section \<open>Types\<close>

text \<open>
  \<open>uint8_t\<close> \<dots> \<open>uint64_t\<close> and the fixed-width \<open>intx\<close> integers are words, so \<open>+\<close>, \<open>-\<close> and \<open>*\<close>
  wrap around as they do in the source. \<open>Bytes\<close>, \<open>ByteView\<close> and byte arrays are lists of bytes.
\<close>

type_synonym byte = "8 word"
type_synonym u16 = "16 word"
type_synonym u32 = "32 word"
type_synonym u64 = "64 word"
type_synonym u128 = "128 word"
type_synonym u256 = "256 word"
type_synonym u512 = "512 word"
type_synonym bytes = "byte list"

text \<open>\<open>evmc::address\<close> (20 bytes) and \<open>evmc::bytes32\<close> (32 bytes).\<close>

type_synonym address = bytes
type_synonym bytes32 = bytes

text \<open>\<open>enum class DecodingError\<close> (common/decoding_result.hpp).\<close>

datatype decoding_error =
    KOverflow
  | KLeadingZero
  | KInputTooShort
  | KInputTooLong
  | KNonCanonicalSize
  | KUnexpectedLength
  | KUnexpectedString
  | KUnexpectedList
  | KUnexpectedListElements
  | KInvalidVInSignature
  | KUnsupportedTransactionType
  | KInvalidFieldset
  | KUnexpectedEip2718Serialization
  | KInvalidHashesLength
  | KInvalidMasksSubsets

text \<open>
  \<open>std::expected<T, DecodingError>\<close>. A decoder that advances its \<open>ByteView& from\<close> returns the
  value together with what is left of the view; on the error path every caller returns the error
  at once, so neither the view nor the half-written target is observed again.
\<close>

type_synonym 'a result = "decoding_error + 'a"
type_synonym 'a decoded = "('a \<times> bytes) result"

definition rbind :: "'a result \<Rightarrow> ('a \<Rightarrow> 'b result) \<Rightarrow> 'b result" where
  "rbind m f = (case m of Inl e \<Rightarrow> Inl e | Inr x \<Rightarrow> f x)"

lemma rbind_Inl [simp]: "rbind (Inl e) f = Inl e"
  by (simp add: rbind_def)

lemma rbind_Inr [simp]: "rbind (Inr x) f = f x"
  by (simp add: rbind_def)

lemma rbind_eq_Inr_iff: "rbind m f = Inr y \<longleftrightarrow> (\<exists>x. m = Inr x \<and> f x = Inr y)"
  by (cases m) (auto simp: rbind_def)

lemma rbind_eq_Inl_iff: "rbind m f = Inl e \<longleftrightarrow> m = Inl e \<or> (\<exists>x. m = Inr x \<and> f x = Inl e)"
  by (cases m) (auto simp: rbind_def)

lemma if_Inl_eq_Inr [simp]:
  "((if b then Inl e else r) = Inr y) \<longleftrightarrow> \<not> b \<and> r = Inr y"
  by simp

section \<open>Byte strings as numbers\<close>

text \<open>The value of a big-endian byte string, and the \<open>k\<close> low bytes of a number, most significant first.\<close>

definition be_nat :: "bytes \<Rightarrow> nat" where
  "be_nat bs = foldl (\<lambda>a b. a * 256 + unat b) 0 bs"

fun be_bytes :: "nat \<Rightarrow> nat \<Rightarrow> bytes" where
  "be_bytes 0 n = []"
| "be_bytes (Suc k) n = be_bytes k (n div 256) @ [of_nat (n mod 256)]"

text \<open>Little-endian, as \<open>memcpy\<close> into an integer reads it on the (little-endian) targets.\<close>

fun le_nat :: "bytes \<Rightarrow> nat" where
  "le_nat [] = 0"
| "le_nat (b # bs) = unat b + 256 * le_nat bs"

lemma unat_byte_less [simp]: "unat (b :: byte) < 256"
  using unsigned_less [of b] by simp

lemma unat_drop_bit_div: "unat (drop_bit k w) = unat w div 2 ^ k"
proof -
  have "unat (drop_bit k w) = drop_bit k (unat w)"
    by (rule unat_drop_bit_eq)
  then show ?thesis
    by (simp only: drop_bit_eq_div [where 'a = nat])
qed

lemma unat_ucast_up:
  assumes "LENGTH('a) \<le> LENGTH('b)"
  shows "unat (ucast (w :: 'a::len word) :: 'b::len word) = unat w"
proof -
  have "unat w < 2 ^ LENGTH('b)"
    using unsigned_less [of w] assms by (meson less_le_trans one_le_numeral power_increasing)
  then show ?thesis
    by (simp add: unsigned_ucast_eq take_bit_nat_eq_self)
qed

lemma unat_of_nat_byte [simp]: "unat (of_nat n :: byte) = n mod 256"
  by (simp add: unat_of_nat)

lemma be_nat_Nil [simp]: "be_nat [] = 0"
  by (simp add: be_nat_def)

lemma be_nat_snoc [simp]: "be_nat (bs @ [b]) = be_nat bs * 256 + unat b"
  by (simp add: be_nat_def)

lemma be_nat_append: "be_nat (xs @ ys) = be_nat xs * 256 ^ length ys + be_nat ys"
  by (induction ys rule: rev_induct)
     (auto simp: algebra_simps simp flip: append_assoc)

lemma be_nat_single [simp]: "be_nat [b] = unat b"
  using be_nat_snoc [of "[]" b] by simp

lemma be_nat_Cons: "be_nat (b # bs) = unat b * 256 ^ length bs + be_nat bs"
  using be_nat_append [of "[b]" bs] by simp

lemma be_nat_bound: "be_nat bs < 256 ^ length bs"
proof (induction bs rule: rev_induct)
  case (snoc b bs)
  then have "be_nat bs * 256 + unat b < (be_nat bs + 1) * 256"
    by simp
  also have "\<dots> \<le> 256 ^ length bs * 256"
    using snoc by (intro mult_right_mono) auto
  finally show ?case by simp
qed simp

lemma be_nat_replicate_0 [simp]: "be_nat (replicate k 0) = 0"
  by (induction k) (simp_all add: be_nat_Cons)

lemma be_nat_pad [simp]: "be_nat (replicate k 0 @ bs) = be_nat bs"
  by (simp add: be_nat_append)

lemma be_nat_0_Cons [simp]: "be_nat (0 # bs) = be_nat bs"
  by (simp add: be_nat_Cons)

lemma be_nat_eq_0_iff: "be_nat bs = 0 \<longleftrightarrow> (\<forall>b \<in> set bs. b = 0)"
proof (induction bs)
  case (Cons b bs)
  then show ?case by (auto simp: be_nat_Cons unat_eq_0)
qed simp

lemma be_bytes_numeral:
  "be_bytes (numeral k) n = be_bytes (pred_numeral k) (n div 256) @ [of_nat (n mod 256)]"
  by (subst numeral_eq_Suc [of k]) (rule be_bytes.simps(2))

lemma length_be_bytes [simp]: "length (be_bytes k n) = k"
  by (induction k arbitrary: n) auto

lemma be_nat_be_bytes: "be_nat (be_bytes k n) = n mod 256 ^ k"
proof (induction k arbitrary: n)
  case (Suc k)
  have "n mod 256 ^ Suc k = (n div 256) mod 256 ^ k * 256 + n mod 256"
    by (metis (no_types, lifting) add.commute mod_mult2_eq mult.commute power_Suc)
  with Suc show ?case by simp
qed simp

lemma be_bytes_be_nat [simp]: "be_bytes (length bs) (be_nat bs) = bs"
proof (induction bs rule: rev_induct)
  case (snoc b bs)
  have d: "(be_nat bs * 256 + unat b) div 256 = be_nat bs"
    and m: "(be_nat bs * 256 + unat b) mod 256 = unat b"
    by simp_all
  have l: "length (bs @ [b]) = Suc (length bs)"
    by simp
  show ?case
    unfolding l be_bytes.simps be_nat_snoc d m using snoc by simp
qed simp

lemma be_bytes_unique:
  "length bs = k \<Longrightarrow> be_nat bs = n \<Longrightarrow> be_bytes k n = bs"
  by auto

lemma be_nat_inject:
  "length xs = length ys \<Longrightarrow> be_nat xs = be_nat ys \<Longrightarrow> xs = ys"
  by (metis be_bytes_be_nat)

lemma le_nat_eq_be_nat_rev: "le_nat bs = be_nat (rev bs)"
  by (induction bs) auto

lemma le_nat_bound: "le_nat bs < 256 ^ length bs"
  using be_nat_bound [of "rev bs"] by (simp add: le_nat_eq_be_nat_rev)

lemma le_nat_append: "le_nat (xs @ ys) = le_nat xs + 256 ^ length xs * le_nat ys"
  by (simp add: le_nat_eq_be_nat_rev be_nat_append)

lemma le_nat_eq_0_iff: "le_nat bs = 0 \<longleftrightarrow> (\<forall>b \<in> set bs. b = 0)"
  by (simp add: le_nat_eq_be_nat_rev be_nat_eq_0_iff)

lemma le_nat_mod_take: "le_nat bs mod 256 ^ k = le_nat (take k bs)"
proof (cases "k \<le> length bs")
  case True
  then have "le_nat bs = le_nat (take k bs) + 256 ^ k * le_nat (drop k bs)"
    using le_nat_append [of "take k bs" "drop k bs"] by simp
  moreover have "le_nat (take k bs) < 256 ^ k"
    using le_nat_bound [of "take k bs"] True by simp
  ultimately show ?thesis by simp
next
  case False
  then have "(256::nat) ^ length bs \<le> 256 ^ k"
    by (intro power_increasing) auto
  with le_nat_bound [of bs] have "le_nat bs < 256 ^ k"
    by linarith
  then show ?thesis using False by simp
qed

end
