(* ===== verification/Endian.thy ===== *)
theory Endian
  imports Prelude
begin

text \<open>
  Byte order (common/endian.hpp, common/endian.cpp) and \<open>zeroless_view\<close> (common/util.hpp): compact
  big-endian integers, which RLP and the trie use everywhere. The word-at-a-time loop of
  \<open>zeroless_view\<close> and the two rv32 paths of \<open>from_big_compact\<close> are modelled as written and proved
  equal to their byte-by-byte meaning.
\<close>

section \<open>Definitions\<close>

text \<open>\<open>intx::be::unsafe::store<T>\<close> and \<open>load<T>\<close>: all \<open>sizeof(T)\<close> bytes.\<close>

definition store_big :: "'a::len word \<Rightarrow> bytes" where
  "store_big w = be_bytes (LENGTH('a) div 8) (unat w)"

definition load_big :: "bytes \<Rightarrow> 'a::len word" where
  "load_big bs = of_nat (be_nat (take (LENGTH('a) div 8) bs))"

definition load_little :: "bytes \<Rightarrow> 'a::len word" where
  "load_little bs = of_nat (le_nat (take (LENGTH('a) div 8) bs))"

text \<open>\<open>intx::count_significant_bytes\<close>: the bytes up to the most significant non-zero one.\<close>

fun sig_bytes :: "nat \<Rightarrow> nat" where
  "sig_bytes n = (if n = 0 then 0 else Suc (sig_bytes (n div 256)))"

declare sig_bytes.simps [simp del]

definition count_significant_bytes :: "'a::len word \<Rightarrow> nat" where
  "count_significant_bytes w = sig_bytes (unat w)"

text \<open>The compact big-endian form of a number: no leading zero byte, nothing for zero.\<close>

definition be_compact :: "nat \<Rightarrow> bytes" where
  "be_compact n = be_bytes (sig_bytes n) n"

text \<open>
  The seven mask tests of \<open>zeroless_view\<close> on a non-zero 64-bit word whose low byte is the first
  byte of the buffer.
\<close>

definition zeroless_advance :: "u64 \<Rightarrow> nat" where
  "zeroless_advance w =
     of_bool (w AND 0xFF = 0) + of_bool (w AND 0xFFFF = 0) + of_bool (w AND 0xFFFFFF = 0) +
     of_bool (w AND 0xFFFFFFFF = 0) + of_bool (w AND 0xFFFFFFFFFF = 0) +
     of_bool (w AND 0xFFFFFFFFFFFF = 0) + of_bool (w AND 0xFFFFFFFFFFFFFF = 0)"

function zeroless_skip :: "bytes \<Rightarrow> nat \<Rightarrow> nat" where
  "zeroless_skip data skip =
     (if skip + 8 \<le> length data
      then (let w = load_little (drop skip data) :: u64
            in if w \<noteq> 0 then skip + zeroless_advance w else zeroless_skip data (skip + 8))
      else skip)"
  by pat_completeness auto
termination
  by (relation "measure (\<lambda>(data, skip). length data - skip)") auto

declare zeroless_skip.simps [simp del]

definition zeroless_view :: "bytes \<Rightarrow> bytes" where
  "zeroless_view data = drop (zeroless_skip data 0) data"

text \<open>\<open>to_big_compact(uint64_t)\<close> and \<open>to_big_compact(const intx::uint256&)\<close>.\<close>

definition to_big_compact :: "'a::len word \<Rightarrow> bytes" where
  "to_big_compact value = (if value = 0 then [] else zeroless_view (store_big value))"

text \<open>
  \<open>from_big_compact\<close>, the generic path: the bytes are copied right-aligned into a zeroed integer
  and the byte order is swapped.
\<close>

definition from_big_compact :: "bytes \<Rightarrow> 'a::len word result" where
  "from_big_compact data =
     (if length data > LENGTH('a) div 8 then Inl KOverflow
      else if data = [] then Inr 0
      else if hd data = 0 then Inl KLeadingZero
      else Inr (of_nat (be_nat (replicate (LENGTH('a) div 8 - length data) 0 @ data))))"

text \<open>The rv32 path for integers of at most 8 bytes: \<open>val = (val << 8) | data[i]\<close>.\<close>

definition shift_in :: "'a::len word \<Rightarrow> byte \<Rightarrow> 'a word" where
  "shift_in val b = push_bit 8 val OR ucast b"

definition from_big_compact_rv32 :: "bytes \<Rightarrow> 'a::len word result" where
  "from_big_compact_rv32 data =
     (if length data > LENGTH('a) div 8 then Inl KOverflow
      else if data = [] then Inr 0
      else if hd data = 0 then Inl KLeadingZero
      else Inr (foldl shift_in 0 data))"

text \<open>
  The rv32 path for \<open>uint256\<close>: \<open>words\<close> are the 64-bit words of the integer, least significant
  first; whole 8-byte chunks are taken from the end of the data, then what remains at its start.
\<close>

function fill_words :: "bytes \<Rightarrow> u64 list \<Rightarrow> nat \<Rightarrow> u64 list" where
  "fill_words data words word_idx =
     (if length data \<ge> 8
      then fill_words (take (length data - 8) data)
             (words[word_idx := foldl shift_in 0 (drop (length data - 8) data)]) (Suc word_idx)
      else if data \<noteq> [] then words[word_idx := foldl shift_in 0 data]
      else words)"
  by pat_completeness auto
termination
  by (relation "measure (\<lambda>(data, words, word_idx). length data)") auto

declare fill_words.simps [simp del]

fun words_nat :: "u64 list \<Rightarrow> nat" where
  "words_nat [] = 0"
| "words_nat (w # ws) = unat w + 2 ^ 64 * words_nat ws"

definition from_big_compact_rv32_u256 :: "bytes \<Rightarrow> u256 result" where
  "from_big_compact_rv32_u256 data =
     (if length data > 32 then Inl KOverflow
      else if data = [] then Inr 0
      else if hd data = 0 then Inl KLeadingZero
      else Inr (of_nat (words_nat (fill_words data (replicate 4 0) 0))))"

section \<open>Compact numbers\<close>

lemma sig_bytes_0 [simp]: "sig_bytes 0 = 0"
  by (simp add: sig_bytes.simps)

lemma sig_bytes_pos: "0 < n \<Longrightarrow> sig_bytes n = Suc (sig_bytes (n div 256))"
  by (simp add: sig_bytes.simps)

lemma sig_bytes_numeral [simp]: "sig_bytes (numeral k) = Suc (sig_bytes (numeral k div 256))"
  by (rule sig_bytes_pos) simp

lemma sig_bytes_1 [simp]: "sig_bytes 1 = 1" "sig_bytes (Suc 0) = 1"
  by (simp_all add: sig_bytes_pos)

lemma sig_bytes_eq_0_iff [simp]: "sig_bytes n = 0 \<longleftrightarrow> n = 0"
  by (cases "n = 0") (simp_all add: sig_bytes_pos)

lemma sig_bytes_le_iff: "sig_bytes n \<le> k \<longleftrightarrow> n < 256 ^ k"
proof (induction k arbitrary: n)
  case (Suc k)
  show ?case
  proof (cases "n = 0")
    case False
    then have "sig_bytes n \<le> Suc k \<longleftrightarrow> n div 256 < 256 ^ k"
      using Suc by (simp add: sig_bytes_pos)
    also have "\<dots> \<longleftrightarrow> n < 256 ^ Suc k"
      by (simp add: div_less_iff_less_mult mult.commute)
    finally show ?thesis .
  qed simp
qed simp

lemma less_power_sig_bytes: "n < 256 ^ sig_bytes n"
  using sig_bytes_le_iff [of n "sig_bytes n"] by simp

lemma length_be_compact [simp]: "length (be_compact n) = sig_bytes n"
  by (simp add: be_compact_def)

lemma be_compact_0 [simp]: "be_compact 0 = []"
  by (simp add: be_compact_def)

lemma be_nat_be_compact [simp]: "be_nat (be_compact n) = n"
  using less_power_sig_bytes [of n] by (simp add: be_compact_def be_nat_be_bytes)

lemma be_compact_eq_Nil_iff [simp]: "be_compact n = [] \<longleftrightarrow> n = 0"
  by (metis be_compact_0 be_nat_Nil be_nat_be_compact)

lemma sig_bytes_be_nat:
  assumes "bs = [] \<or> hd bs \<noteq> 0"
  shows "sig_bytes (be_nat bs) = length bs"
proof (cases bs)
  case (Cons b cs)
  with assms have "0 < unat b"
    by (simp add: unat_gt_0)
  then have "256 ^ length cs \<le> be_nat bs"
    using Cons by (simp add: be_nat_Cons trans_le_add1)
  then have "\<not> sig_bytes (be_nat bs) \<le> length cs"
    by (simp add: sig_bytes_le_iff)
  moreover have "sig_bytes (be_nat bs) \<le> length bs"
    by (simp add: sig_bytes_le_iff be_nat_bound)
  ultimately show ?thesis using Cons by simp
qed simp

text \<open>A byte string without a leading zero is the compact form of its value, and of nothing else.\<close>

lemma be_compact_be_nat:
  "bs = [] \<or> hd bs \<noteq> 0 \<Longrightarrow> be_compact (be_nat bs) = bs"
  by (simp add: be_compact_def sig_bytes_be_nat)

lemma hd_be_compact: "0 < n \<Longrightarrow> hd (be_compact n) \<noteq> 0"
proof
  assume n: "0 < n" and hd0: "hd (be_compact n) = 0"
  then obtain cs where cs: "be_compact n = 0 # cs"
    by (cases "be_compact n") auto
  then have "n = be_nat cs"
    by (metis be_nat_0_Cons be_nat_be_compact)
  then have "n < 256 ^ length cs"
    by (simp add: be_nat_bound)
  then have "sig_bytes n \<le> length cs"
    by (simp add: sig_bytes_le_iff)
  moreover have "sig_bytes n = Suc (length cs)"
    using cs by (metis length_Cons length_be_compact)
  ultimately show False by simp
qed

lemma be_compact_eq_iff:
  "be_compact n = bs \<longleftrightarrow> n = be_nat bs \<and> (bs = [] \<or> hd bs \<noteq> 0)"
  using be_compact_be_nat hd_be_compact by (metis be_compact_0 be_nat_be_compact gr0I)

lemma be_compact_inject [simp]: "be_compact m = be_compact n \<longleftrightarrow> m = n"
  by (metis be_nat_be_compact)

lemma hd_dropWhile_zero: "dropWhile (\<lambda>b. b = 0) bs \<noteq> [] \<Longrightarrow> hd (dropWhile (\<lambda>b. b = 0) bs) \<noteq> (0 :: byte)"
  by (drule hd_dropWhile)

lemma be_nat_dropWhile_zero [simp]: "be_nat (dropWhile (\<lambda>b. b = 0) bs) = be_nat bs"
  by (induction bs) auto

lemma dropWhile_zero_be_bytes:
  "n < 256 ^ k \<Longrightarrow> dropWhile (\<lambda>b. b = 0) (be_bytes k n) = be_compact n"
proof -
  assume "n < 256 ^ k"
  moreover have "be_compact (be_nat (dropWhile (\<lambda>b. b = 0) (be_bytes k n))) = dropWhile (\<lambda>b. b = 0) (be_bytes k n)"
    using hd_dropWhile_zero by (intro be_compact_be_nat) blast
  ultimately show ?thesis by (simp add: be_nat_be_bytes)
qed

section \<open>The word-at-a-time leading-zero scan\<close>

lemma and_ones_eq_0_iff:
  fixes w :: "'a::len word"
  assumes "unat w = le_nat bs" "n = 8 * k" "k \<le> length bs" "8 * k \<le> LENGTH('a)"
  shows "w AND mask n = 0 \<longleftrightarrow> (\<forall>b \<in> set (take k bs). b = 0)"
proof -
  have "w AND mask n = 0 \<longleftrightarrow> unat (take_bit n w) = 0"
    by (simp add: take_bit_eq_mask unat_eq_0)
  also have "unat (take_bit n w) = take_bit n (unat w)"
    by (simp add: unsigned_take_bit_eq)
  also have "\<dots> = le_nat (take k bs)"
    unfolding assms(1,2) using le_nat_mod_take [of bs k] by (simp add: take_bit_eq_mod power_mult)
  finally show ?thesis by (simp add: le_nat_eq_0_iff)
qed

lemma unat_load_little_u64:
  assumes "8 \<le> length bs"
  shows "unat (load_little bs :: u64) = le_nat (take 8 bs)"
proof -
  have "le_nat (take 8 bs) < 256 ^ 8"
    using le_nat_bound [of "take 8 bs"] assms by (simp add: min_absorb2)
  then show ?thesis
    by (simp add: load_little_def unat_of_nat)
qed

lemma list_of_length_8:
  "length xs = 8 \<Longrightarrow> \<exists>b0 b1 b2 b3 b4 b5 b6 b7. xs = [b0, b1, b2, b3, b4, b5, b6, b7]"
  by (auto simp: length_Suc_conv numeral_eq_Suc)

lemma zeroless_advance_eq:
  assumes "8 \<le> length bs" "w = (load_little bs :: u64)" "w \<noteq> 0"
  shows "zeroless_advance w = length (takeWhile (\<lambda>b. b = 0) (take 8 bs))"
proof -
  obtain b0 b1 b2 b3 b4 b5 b6 b7 where t8: "take 8 bs = [b0, b1, b2, b3, b4, b5, b6, b7]"
    using list_of_length_8 [of "take 8 bs"] assms(1) by auto
  have u: "unat w = le_nat (take 8 bs)"
    using assms(1,2) unat_load_little_u64 by simp
  have m: "w AND mask (8 * k) = 0 \<longleftrightarrow> (\<forall>b \<in> set (take k (take 8 bs)). b = 0)" if "k \<le> 8" for k
    using and_ones_eq_0_iff [OF u refl, of k] that assms(1) by simp
  have z1: "w AND 0xFF = 0 \<longleftrightarrow> b0 = 0"
    using m [of 1] by (simp add: t8 mask_eq_exp_minus_1)
  have z2: "w AND 0xFFFF = 0 \<longleftrightarrow> b0 = 0 \<and> b1 = 0"
    using m [of 2] by (simp add: t8 mask_eq_exp_minus_1)
  have z3: "w AND 0xFFFFFF = 0 \<longleftrightarrow> b0 = 0 \<and> b1 = 0 \<and> b2 = 0"
    using m [of 3] by (simp add: t8 mask_eq_exp_minus_1)
  have z4: "w AND 0xFFFFFFFF = 0 \<longleftrightarrow> b0 = 0 \<and> b1 = 0 \<and> b2 = 0 \<and> b3 = 0"
    using m [of 4] by (simp add: t8 mask_eq_exp_minus_1)
  have z5: "w AND 0xFFFFFFFFFF = 0 \<longleftrightarrow> b0 = 0 \<and> b1 = 0 \<and> b2 = 0 \<and> b3 = 0 \<and> b4 = 0"
    using m [of 5] by (simp add: t8 mask_eq_exp_minus_1)
  have z6: "w AND 0xFFFFFFFFFFFF = 0 \<longleftrightarrow> b0 = 0 \<and> b1 = 0 \<and> b2 = 0 \<and> b3 = 0 \<and> b4 = 0 \<and> b5 = 0"
    using m [of 6] by (simp add: t8 mask_eq_exp_minus_1)
  have z7: "w AND 0xFFFFFFFFFFFFFF = 0 \<longleftrightarrow> b0 = 0 \<and> b1 = 0 \<and> b2 = 0 \<and> b3 = 0 \<and> b4 = 0 \<and> b5 = 0 \<and> b6 = 0"
    using m [of 7] by (simp add: t8 mask_eq_exp_minus_1)
  have nz: "\<not> (\<forall>b \<in> set (take 8 bs). b = 0)"
    using assms(3) u by (metis le_nat_eq_0_iff unat_eq_0)
  show ?thesis
    unfolding zeroless_advance_def z1 z2 z3 z4 z5 z6 z7 t8
    using nz unfolding t8 by auto
qed

lemma zeroless_skip_eq:
  assumes "8 dvd length data" "8 dvd skip" "skip \<le> length data"
  shows "zeroless_skip data skip = skip + length (takeWhile (\<lambda>b. b = 0) (drop skip data))"
  using assms
proof (induction data skip rule: zeroless_skip.induct)
  case (1 data skip)
  show ?case
  proof (cases "skip + 8 \<le> length data")
    case True
    let ?rest = "drop skip data"
    let ?w = "load_little ?rest :: u64"
    have l8: "8 \<le> length ?rest"
      using True by simp
    have "?rest = take 8 ?rest @ drop (skip + 8) data"
      by (metis add.commute append_take_drop_id drop_drop)
    then have split: "takeWhile (\<lambda>b. b = 0) ?rest = takeWhile (\<lambda>b. b = 0) (take 8 ?rest @ drop (skip + 8) data)"
      by (rule arg_cong)
    show ?thesis
    proof (cases "?w = 0")
      case False
      then obtain b where "b \<in> set (take 8 ?rest)" "b \<noteq> 0"
        using unat_load_little_u64 [OF l8] by (metis le_nat_eq_0_iff unat_eq_0)
      then have "takeWhile (\<lambda>b. b = 0) ?rest = takeWhile (\<lambda>b. b = 0) (take 8 ?rest)"
        unfolding split by (intro takeWhile_append1) auto
      then show ?thesis
        using True False zeroless_advance_eq [OF l8 refl False]
        by (simp add: zeroless_skip.simps [of data skip] Let_def)
    next
      case w0: True
      then have "\<forall>b \<in> set (take 8 ?rest). b = 0"
        using unat_load_little_u64 [OF l8] by (metis le_nat_eq_0_iff unat_eq_0)
      then have "takeWhile (\<lambda>b. b = 0) ?rest = take 8 ?rest @ takeWhile (\<lambda>b. b = 0) (drop (skip + 8) data)"
        unfolding split by (subst takeWhile_append2) auto
      then show ?thesis
        using True w0 l8 1 by (simp add: zeroless_skip.simps [of data skip] Let_def)
    qed
  next
    case False
    with 1(2-4) have "skip = length data"
      by (auto elim!: dvdE)
    then show ?thesis by (simp add: zeroless_skip.simps)
  qed
qed

text \<open>On a buffer of whole 8-byte words the scan strips exactly the leading zero bytes.\<close>

lemma zeroless_view_eq_dropWhile:
  "8 dvd length data \<Longrightarrow> zeroless_view data = dropWhile (\<lambda>b. b = 0) data"
  by (simp add: zeroless_view_def zeroless_skip_eq dropWhile_eq_drop)

section \<open>Laws of the compact integer codec\<close>

lemma be_nat_store_big:
  fixes w :: "'a::len word"
  shows "8 dvd LENGTH('a) \<Longrightarrow> be_nat (store_big w) = unat w"
proof (elim dvdE)
  fix k assume "LENGTH('a) = 8 * k"
  moreover have "unat w < 2 ^ LENGTH('a)"
    by (rule unsigned_less)
  ultimately show ?thesis
    by (simp add: store_big_def be_nat_be_bytes power_mult)
qed

lemma length_store_big [simp]: "length (store_big (w :: 'a::len word)) = LENGTH('a) div 8"
  by (simp add: store_big_def)

lemma to_big_compact_eq:
  fixes w :: "'a::len word"
  assumes "64 dvd LENGTH('a)"
  shows "to_big_compact w = be_compact (unat w)"
proof -
  obtain k where k: "LENGTH('a) = 8 * (8 * k)"
    using assms by (auto elim!: dvdE)
  have "unat w < 2 ^ LENGTH('a)"
    by (rule unsigned_less)
  also have "\<dots> = 256 ^ (LENGTH('a) div 8)"
    unfolding k by (simp add: power_mult)
  finally have "unat w < 256 ^ (LENGTH('a) div 8)" .
  then have "dropWhile (\<lambda>b. b = 0) (store_big w) = be_compact (unat w)"
    by (simp add: store_big_def dropWhile_zero_be_bytes)
  moreover have "8 dvd length (store_big w)"
    using k by simp
  ultimately show ?thesis
    by (simp add: to_big_compact_def zeroless_view_eq_dropWhile)
qed

lemma from_big_compact_iff:
  fixes w :: "'a::len word"
  assumes "8 dvd LENGTH('a)"
  shows "from_big_compact data = Inr w \<longleftrightarrow>
           length data \<le> LENGTH('a) div 8 \<and> data = be_compact (unat w)"
proof -
  obtain k where k: "LENGTH('a) = 8 * k"
    using assms by (auto elim!: dvdE)
  have small: "unat (of_nat (be_nat data) :: 'a word) = be_nat data" if "length data \<le> LENGTH('a) div 8"
  proof -
    have "be_nat data < 256 ^ length data"
      by (rule be_nat_bound)
    also have "\<dots> \<le> 256 ^ k"
      using that k by (intro power_increasing) auto
    finally have "be_nat data < 2 ^ LENGTH('a)"
      unfolding k by (simp add: power_mult)
    then show ?thesis by (simp add: unat_of_nat)
  qed
  show ?thesis
  proof (cases "length data \<le> LENGTH('a) div 8 \<and> (data = [] \<or> hd data \<noteq> 0)")
    case True
    then have eq: "be_compact (unat w) = data \<longleftrightarrow> unat w = be_nat data"
      by (simp add: be_compact_eq_iff)
    have "unat w = be_nat data \<longleftrightarrow> w = of_nat (be_nat data)"
      using small True by (simp add: word_unat_eq_iff)
    then show ?thesis
      using True eq by (auto simp: from_big_compact_def)
  next
    case False
    then show ?thesis
      by (auto simp: from_big_compact_def dest: hd_be_compact)
  qed
qed

lemma count_significant_bytes_le:
  fixes w :: "'a::len word"
  assumes "8 dvd LENGTH('a)"
  shows "count_significant_bytes w \<le> LENGTH('a) div 8"
proof -
  obtain k where k: "LENGTH('a) = 8 * k"
    using assms by (auto elim!: dvdE)
  have "unat w < 2 ^ LENGTH('a)"
    by (rule unsigned_less)
  then have "unat w < 256 ^ k"
    unfolding k by (simp add: power_mult)
  then show ?thesis
    using k by (simp add: count_significant_bytes_def sig_bytes_le_iff)
qed

lemma shift_in_of_nat:
  "shift_in (of_nat n :: 'a::len word) b = of_nat (n * 256 + unat b)"
proof -
  have "push_bit 8 (of_nat n :: 'a word) OR ucast b = push_bit 8 (of_nat n) + ucast b"
    by (rule disjunctive_add [symmetric]) (auto simp: bit_simps dest: bit_imp_le_length)
  also have "\<dots> = of_nat n * 256 + of_nat (unat b)"
    by (simp add: push_bit_eq_mult)
  finally show ?thesis by (simp add: shift_in_def)
qed

lemma foldl_shift_in: "foldl shift_in 0 data = (of_nat (be_nat data) :: 'a::len word)"
proof (induction data rule: rev_induct)
  case (snoc b data)
  then show ?case by (simp only: foldl_append foldl_Cons foldl_Nil shift_in_of_nat be_nat_snoc)
qed simp

lemma from_big_compact_rv32_eq: "from_big_compact_rv32 data = from_big_compact data"
  by (simp add: from_big_compact_rv32_def from_big_compact_def foldl_shift_in)

lemma words_nat_replicate_0 [simp]: "words_nat (replicate k 0) = 0"
  by (induction k) auto

lemma words_nat_update:
  assumes "i < length ws" "ws ! i = 0"
  shows "words_nat (ws[i := w]) = words_nat ws + 2 ^ (64 * i) * unat w"
  using assms
proof (induction ws arbitrary: i)
  case (Cons v ws)
  then show ?case
    by (cases i) (auto simp: power_add algebra_simps)
qed simp

lemma fill_words_nat:
  assumes "length data \<le> 8 * (length ws - i)" "i \<le> length ws" "\<forall>j. i \<le> j \<longrightarrow> j < length ws \<longrightarrow> ws ! j = 0"
  shows "words_nat (fill_words data ws i) = words_nat ws + 2 ^ (64 * i) * be_nat data"
  using assms
proof (induction data ws i rule: fill_words.induct)
  case (1 data ws i)
  let ?front = "take (length data - 8) data" and ?chunk = "drop (length data - 8) data"
  have unat_chunk: "unat (foldl shift_in 0 bs :: u64) = be_nat bs" if "length bs \<le> 8" for bs
  proof -
    have "be_nat bs < 256 ^ length bs"
      by (rule be_nat_bound)
    also have "\<dots> \<le> 256 ^ 8"
      using that by (intro power_increasing) auto
    finally show ?thesis
      by (simp add: foldl_shift_in unat_of_nat)
  qed
  show ?case
  proof (cases "8 \<le> length data")
    case True
    then have i: "i < length ws"
      using 1(2,3) by auto
    have l: "length ?chunk = 8"
      using True by simp
    have "be_nat data = be_nat (?front @ ?chunk)"
      by simp
    then have split: "be_nat data = be_nat ?front * 2 ^ 64 + be_nat ?chunk"
      unfolding be_nat_append l by simp
    have "words_nat (fill_words data ws i) =
        words_nat (ws[i := foldl shift_in 0 ?chunk]) + 2 ^ (64 * Suc i) * be_nat ?front"
      using 1 True i by (simp add: fill_words.simps [of data])
    also have "\<dots> = words_nat ws + 2 ^ (64 * i) * be_nat data"
      using 1(4) i l unat_chunk [of ?chunk] split
      by (simp add: words_nat_update power_add algebra_simps)
    finally show ?thesis .
  next
    case False
    show ?thesis
    proof (cases "data = []")
      case True
      then show ?thesis by (simp add: fill_words.simps)
    next
      case ne: False
      then have "i < length ws"
        using 1(2,3) by (cases "length ws - i") auto
      then show ?thesis
        using 1(4) False ne unat_chunk [of data]
        by (simp add: fill_words.simps [of data] words_nat_update)
    qed
  qed
qed

lemma from_big_compact_rv32_u256_eq: "from_big_compact_rv32_u256 data = from_big_compact data"
proof (cases "length data \<le> 32")
  case True
  then have "words_nat (fill_words data (replicate 4 0) 0) = be_nat data"
    using fill_words_nat [of data "replicate 4 0" 0] by (simp add: nth_replicate)
  then show ?thesis
    by (simp add: from_big_compact_rv32_u256_def from_big_compact_def)
qed (simp add: from_big_compact_rv32_u256_def from_big_compact_def)

section \<open>Properties\<close>

text \<open>
  the compact big-endian codec of 64-bit and 256-bit integers is exact in both directions:
  decoding accepts a byte string if and only if it is what \<open>to_big_compact\<close> writes for the value
  returned, so there is one encoding per value and nothing else is accepted; this holds for the
  generic path and for both rv32 paths of \<open>from_big_compact\<close>.
\<close>

theorem compact_codec_exact:
  fixes v :: u64 and w :: u256
  shows "(from_big_compact data = Inr v \<longleftrightarrow> data = to_big_compact v) \<and>
         (from_big_compact data = Inr w \<longleftrightarrow> data = to_big_compact w) \<and>
         (from_big_compact_rv32 data = Inr v \<longleftrightarrow> data = to_big_compact v) \<and>
         (from_big_compact_rv32_u256 data = Inr w \<longleftrightarrow> data = to_big_compact w)"
proof -
  have "length (be_compact (unat v)) \<le> 8" and "length (be_compact (unat w)) \<le> 32"
    using count_significant_bytes_le [of v] count_significant_bytes_le [of w]
    by (simp_all add: count_significant_bytes_def)
  then have "from_big_compact data = Inr v \<longleftrightarrow> data = to_big_compact v"
    and "from_big_compact data = Inr w \<longleftrightarrow> data = to_big_compact w"
    by (auto simp: from_big_compact_iff to_big_compact_eq)
  then show ?thesis
    by (simp add: from_big_compact_rv32_eq from_big_compact_rv32_u256_eq)
qed

text \<open>
  \<open>zeroless_view\<close>, which scans 8 bytes at a time with mask tests, strips exactly the leading
  zero bytes of any buffer that meets its precondition (a whole number of 8-byte words).
\<close>

theorem zeroless_view_correct:
  assumes "8 dvd length data"
  shows "zeroless_view data = dropWhile (\<lambda>b. b = 0) data"
  using assms by (rule zeroless_view_eq_dropWhile)

theorem zeroless_view_correct_witness:
  "zeroless_view [0, 0, 0, 0, 0, 0, 0, 0, 0, 0, 0, 7, 0, 1, 0, 0] = [7, 0, 1, 0, 0]"
proof -
  have "8 dvd length [0, 0, 0, 0, 0, 0, 0, 0, 0, 0, 0, 7, 0, 1, 0, 0 :: byte]"
    by code_simp
  from zeroless_view_correct [OF this] show ?thesis by simp
qed

end
