(* ===== verification/Rlp_Encode.thy ===== *)
theory Rlp_Encode
  imports Endian
begin

text \<open>
  RLP encoding (rlp/encode.hpp, rlp/encode.cpp, rlp/encode_vector.hpp). Every encoder of the source
  appends to \<open>Bytes& to\<close>; the model returns the bytes appended. The \<open>*_into\<close> variants write into a
  caller-provided buffer: the model returns the bytes written from \<open>dst\<close> on, whose number is the
  value the source returns. Sizes (\<open>size_t\<close>) are naturals; the places where the source goes through
  a 64-bit integer do so here.
\<close>

section \<open>Definitions\<close>

record rlp_header =
  is_list :: bool
  payload_length :: nat

definition kEmptyStringCode :: byte where
  "kEmptyStringCode = 0x80"

definition kEmptyListCode :: byte where
  "kEmptyListCode = 0xC0"

definition encode_header :: "rlp_header \<Rightarrow> bytes" where
  "encode_header h =
     (if payload_length h < 56
      then [(if is_list h then kEmptyListCode else kEmptyStringCode) + of_nat (payload_length h)]
      else let len_be = to_big_compact (of_nat (payload_length h) :: u64)
           in ((if is_list h then 0xF7 else 0xB7) + of_nat (length len_be)) # len_be)"

definition length_of_length :: "nat \<Rightarrow> nat" where
  "length_of_length n =
     (if n < 56 then 1 else 1 + count_significant_bytes (of_nat n :: u64))"

text \<open>\<open>encode(Bytes&, ByteView)\<close> and \<open>length(ByteView)\<close>.\<close>

definition encode_bytes :: "bytes \<Rightarrow> bytes" where
  "encode_bytes s =
     (if length s \<noteq> 1 \<or> hd s \<ge> kEmptyStringCode
      then encode_header \<lparr>is_list = False, payload_length = length s\<rparr> else []) @ s"

definition length_bytes :: "bytes \<Rightarrow> nat" where
  "length_bytes s =
     length s + (if length s \<noteq> 1 \<or> hd s \<ge> kEmptyStringCode then length_of_length (length s) else 0)"

text \<open>\<open>encode_into\<close> and \<open>encode_into_small\<close> (the latter assumes fewer than 56 bytes).\<close>

definition encode_into :: "bytes \<Rightarrow> bytes" where
  "encode_into s =
     (if length s \<noteq> 1 \<or> hd s \<ge> kEmptyStringCode
      then (if length s < 56 then [kEmptyStringCode + of_nat (length s)]
            else let len_be = to_big_compact (of_nat (length s) :: u64)
                 in (0xB7 + of_nat (length len_be)) # len_be)
      else []) @ (if s = [] then [] else s)"

definition encode_into_small :: "bytes \<Rightarrow> bytes" where
  "encode_into_small s =
     (if length s = 1 \<and> hd s < kEmptyStringCode then [hd s]
      else (kEmptyStringCode + of_nat (length s)) # (if s = [] then [] else s))"

text \<open>\<open>encode(Bytes&, const T&)\<close>, \<open>encode_uint_into\<close> and \<open>length(const T&)\<close> for unsigned integers.\<close>

definition encode_uint :: "'a::len word \<Rightarrow> bytes" where
  "encode_uint n =
     (if n = 0 then [kEmptyStringCode]
      else if n < 0x80 then [ucast n]
      else let be = to_big_compact n
           in encode_header \<lparr>is_list = False, payload_length = length be\<rparr> @ be)"

definition encode_uint_into :: "'a::len word \<Rightarrow> bytes" where
  "encode_uint_into n =
     (if n = 0 then [kEmptyStringCode]
      else if n < 0x80 then [ucast n]
      else let be = to_big_compact n in (kEmptyStringCode + of_nat (length be)) # be)"

definition length_uint :: "'a::len word \<Rightarrow> nat" where
  "length_uint n =
     (if n < 0x80 then 1
      else let n_bytes = count_significant_bytes n in n_bytes + length_of_length n_bytes)"

text \<open>
  For \<open>uint8_t\<close> and \<open>unsigned\<close> arguments the overload of \<open>to_big_compact\<close> chosen is the one for
  \<open>uint64_t\<close>, after an integral conversion.
\<close>

definition encode_u8 :: "byte \<Rightarrow> bytes" where
  "encode_u8 n = encode_uint (ucast n :: u64)"

definition length_u8 :: "byte \<Rightarrow> nat" where
  "length_u8 n = length_uint (ucast n :: u64)"

definition encode_bool :: "bool \<Rightarrow> bytes" where
  "encode_bool x = [if x then 1 else kEmptyStringCode]"

definition length_bool :: "bool \<Rightarrow> nat" where
  "length_bool x = 1"

text \<open>\<open>std::span\<close> and \<open>std::vector\<close> overloads, for any item type with an encoder and a length.\<close>

definition length_items :: "('a \<Rightarrow> nat) \<Rightarrow> 'a list \<Rightarrow> nat" where
  "length_items len v = foldl (\<lambda>sum x. sum + len x) 0 v"

definition length_vector :: "('a \<Rightarrow> nat) \<Rightarrow> 'a list \<Rightarrow> nat" where
  "length_vector len v =
     (let payload = length_items len v in length_of_length payload + payload)"

primrec encode_items :: "('a \<Rightarrow> bytes) \<Rightarrow> 'a list \<Rightarrow> bytes" where
  "encode_items enc [] = []"
| "encode_items enc (x # v) = enc x @ encode_items enc v"

definition encode_vector :: "('a \<Rightarrow> bytes) \<Rightarrow> ('a \<Rightarrow> nat) \<Rightarrow> 'a list \<Rightarrow> bytes" where
  "encode_vector enc len v =
     encode_header \<lparr>is_list = True, payload_length = length_items len v\<rparr> @ encode_items enc v"

text \<open>Lists of already encoded items (\<open>RlpByteView\<close>).\<close>

definition encode_rlp_views :: "bytes list \<Rightarrow> bytes" where
  "encode_rlp_views v =
     encode_header \<lparr>is_list = True, payload_length = foldl (\<lambda>n item. n + length item) 0 v\<rparr>
       @ foldl (\<lambda>to item. to @ item) [] v"

section \<open>Headers\<close>

lemmas rlp_codes = kEmptyStringCode_def kEmptyListCode_def

lemma length_of_length_pos [simp]: "0 < length_of_length n"
  by (simp add: length_of_length_def)

lemma unat_of_nat_u64: "n < 2 ^ 64 \<Longrightarrow> unat (of_nat n :: u64) = n"
  by (simp add: unat_of_nat)

lemma encode_header_length [length_laws]:
  "length (encode_header h) = length_of_length (payload_length h)"
  by (simp add: encode_header_def length_of_length_def to_big_compact_eq Let_def
      count_significant_bytes_def)

lemma encode_header_nonempty [simp]: "encode_header h \<noteq> []"
  by (simp add: encode_header_def Let_def)

text \<open>The long form, with the length bytes as the compact form of the length itself.\<close>

lemma encode_header_long:
  "56 \<le> n \<Longrightarrow> n < 2 ^ 64 \<Longrightarrow>
   encode_header \<lparr>is_list = l, payload_length = n\<rparr> =
     ((if l then 0xF7 else 0xB7) + of_nat (sig_bytes n)) # be_compact n"
  by (simp add: encode_header_def to_big_compact_eq unat_of_nat_u64 Let_def)

lemma encode_header_short:
  "n < 56 \<Longrightarrow> encode_header \<lparr>is_list = l, payload_length = n\<rparr> =
     [(if l then 0xC0 else 0x80) + of_nat n]"
  by (simp add: encode_header_def rlp_codes)

section \<open>Lengths agree with encodings\<close>

lemma length_items_eq: "length_items len v = sum_list (map len v)"
proof -
  have "foldl (\<lambda>sum x. sum + len x) k v = k + sum_list (map len v)" for k
    by (induction v arbitrary: k) auto
  then show ?thesis by (simp add: length_items_def)
qed

lemma encode_items_eq_concat: "encode_items enc v = concat (map enc v)"
  by (induction v) auto

lemma encode_bytes_length [length_laws]: "length (encode_bytes s) = length_bytes s"
  by (simp add: encode_bytes_def length_bytes_def encode_header_length)

lemma encode_bool_length [length_laws]: "length (encode_bool x) = length_bool x"
  by (simp add: encode_bool_def length_bool_def)

lemma word64_literals:
  assumes "64 dvd LENGTH('a::len)"
  shows "unat (0x80 :: 'a word) = 128" "(0x80 :: 'a word) \<noteq> 0" "8 dvd LENGTH('a)"
proof -
  have "64 \<le> LENGTH('a)"
    using assms by (intro dvd_imp_le) auto
  then have "(2 :: nat) ^ 64 \<le> 2 ^ LENGTH('a)"
    by (intro power_increasing) auto
  then show "unat (0x80 :: 'a word) = 128"
    by (simp add: take_bit_nat_eq_self)
  then show "(0x80 :: 'a word) \<noteq> 0"
    by (metis unat_0 zero_neq_numeral)
  show "8 dvd LENGTH('a)"
    using assms by (rule dvd_trans [rotated]) simp
qed

lemma encode_uint_length [length_laws]:
  fixes n :: "'a::len word"
  assumes "64 dvd LENGTH('a)"
  shows "length (encode_uint n) = length_uint n"
  using assms word64_literals [OF assms]
  by (auto simp: encode_uint_def length_uint_def to_big_compact_eq count_significant_bytes_def
      encode_header_length Let_def word_neq_0_conv)

lemma length_uint_le:
  fixes n :: "'a::len word"
  assumes "8 dvd LENGTH('a)" "LENGTH('a) div 8 < 56"
  shows "length_uint n \<le> Suc (LENGTH('a) div 8)"
  using count_significant_bytes_le [OF assms(1), of n] assms(2)
  by (simp add: length_uint_def length_of_length_def Let_def)

lemma length_uint_u64_le: "length_uint (n :: u64) \<le> 9"
  using length_uint_le [of n] by simp

lemma length_uint_u256_le: "length_uint (n :: u256) \<le> 33"
  using length_uint_le [of n] by simp

lemma length_u8_le: "length_u8 n \<le> 9"
  by (simp add: length_u8_def length_uint_u64_le)

lemma length_bytes_short: "1 < length s \<Longrightarrow> length s < 56 \<Longrightarrow> length_bytes s = Suc (length s)"
  by (simp add: length_bytes_def length_of_length_def)

lemma length_bytes_bounds: "length s \<le> length_bytes s"
  by (simp add: length_bytes_def)

lemma encode_u8_length [length_laws]: "length (encode_u8 n) = length_u8 n"
  by (simp add: encode_u8_def length_u8_def encode_uint_length)

lemma encode_items_length [length_laws]:
  "(\<And>x. x \<in> set v \<Longrightarrow> len x = length (enc x)) \<Longrightarrow> length (encode_items enc v) = length_items len v"
  by (induction v) (auto simp: length_items_eq)

lemma encode_vector_length [length_laws]:
  "(\<And>x. x \<in> set v \<Longrightarrow> len x = length (enc x)) \<Longrightarrow>
   length (encode_vector enc len v) = length_vector len v"
  using encode_items_length [of v len enc]
  by (simp add: encode_vector_def length_vector_def encode_header_length Let_def)

section \<open>The in-place encoders\<close>

lemma encode_into_eq: "encode_into s = encode_bytes s"
  by (simp add: encode_into_def encode_bytes_def encode_header_def)

lemma encode_into_small_eq: "length s < 56 \<Longrightarrow> encode_into_small s = encode_bytes s"
  by (auto simp: encode_into_small_def encode_bytes_def encode_header_def length_Suc_conv)

lemma encode_uint_into_eq:
  fixes n :: "'a::len word"
  assumes "64 dvd LENGTH('a)" "LENGTH('a) \<le> 256"
  shows "encode_uint_into n = encode_uint n"
proof -
  have "sig_bytes (unat n) \<le> LENGTH('a) div 8"
    using count_significant_bytes_le [of n] word64_literals [OF assms(1)]
    by (simp add: count_significant_bytes_def)
  then have "sig_bytes (unat n) < 56"
    using assms(2) by linarith
  then show ?thesis
    using assms(1)
    by (simp add: encode_uint_def encode_uint_into_def to_big_compact_eq encode_header_def Let_def)
qed

lemma encode_rlp_views_eq_vector: "encode_rlp_views v = encode_vector id length v"
proof -
  have "foldl (\<lambda>to item. to @ item) xs v = xs @ concat v" for xs
    by (induction v arbitrary: xs) auto
  then show ?thesis
    by (simp add: encode_rlp_views_def encode_vector_def encode_items_eq_concat length_items_def)
qed

section \<open>Properties\<close>

text \<open>
  the in-place encoders write the bytes of the appending ones: \<open>encode_into\<close> on every string,
  \<open>encode_into_small\<close> under its documented size bound, \<open>encode_uint_into\<close> on 64- and 256-bit
  integers; in each case the returned count is the length of that encoding.
\<close>

theorem in_place_encoders_agree:
  fixes n :: u64 and m :: u256
  assumes "length small < 56"
  shows "encode_into s = encode_bytes s \<and> length (encode_into s) = length_bytes s \<and>
         encode_into_small small = encode_bytes small \<and>
         encode_uint_into n = encode_uint n \<and> length (encode_uint_into n) = length_uint n \<and>
         encode_uint_into m = encode_uint m \<and> length (encode_uint_into m) = length_uint m"
  using assms
  by (simp add: encode_into_eq encode_into_small_eq encode_uint_into_eq length_laws)

theorem in_place_encoders_agree_witness:
  "encode_into_small [0x80, 0x01] = encode_bytes [0x80, 0x01] \<and> encode_uint_into (0x1234 :: u64) = [0x82, 0x12, 0x34]"
proof -
  have "length [0x80, 0x01 :: byte] < 56"
    by simp
  note a = in_place_encoders_agree [OF this, where s = "[]" and n = "0x1234" and m = 0]
  have "encode_uint (0x1234 :: u64) = [0x82, 0x12, 0x34]"
    by (simp add: encode_uint_def to_big_compact_eq encode_header_def be_compact_def be_bytes_numeral
        rlp_codes)
  then show ?thesis
    using a by simp
qed

end
