(* ===== verification/Rlp_Decode.thy ===== *)
theory Rlp_Decode
  imports Rlp_Encode
begin

text \<open>
  RLP decoding (rlp/decode.hpp, rlp/decode.cpp, rlp/decode_vector.hpp). A decoder takes the view
  and the \<open>Leftover\<close> mode and returns the value with the rest of the view. The interface every
  decoder offers to its clients is the locale \<open>rlp_codec\<close>: decoding succeeds exactly on the bytes the
  encoder writes. Its instances here are strings, integers, booleans, byte arrays and vectors.
\<close>

section \<open>Definitions\<close>

datatype leftover = KProhibit | KAllow

text \<open>The final bound check of \<open>decode_header\<close>.\<close>

definition finish_header :: "bool \<Rightarrow> nat \<Rightarrow> bytes \<Rightarrow> rlp_header decoded" where
  "finish_header l n from =
     (if length from < n then Inl KInputTooShort
      else Inr (\<lparr>is_list = l, payload_length = n\<rparr>, from))"

text \<open>The branch of \<open>decode_header\<close> for a length of length, shared by strings and lists.\<close>

definition decode_long_header :: "bool \<Rightarrow> nat \<Rightarrow> bytes \<Rightarrow> rlp_header decoded" where
  "decode_long_header l len_of_len from =
     (if length from < len_of_len then Inl KInputTooShort
      else rbind (from_big_compact (take len_of_len from) :: u64 result) (\<lambda>len.
        let from = drop len_of_len from
        in if len < 56 then Inl KNonCanonicalSize
           else if unat len > length from then Inl KInputTooShort
           else finish_header l (unat len) from))"

definition decode_header :: "bytes \<Rightarrow> rlp_header decoded" where
  "decode_header from =
     (case from of
        [] \<Rightarrow> Inl KInputTooShort
      | b # rest \<Rightarrow>
          if b < 0x80 then finish_header False 1 from
          else if b < 0xB8 then
            (let n = unat b - 0x80
             in if n = 1 \<and> rest = [] then Inl KInputTooShort
                else if n = 1 \<and> hd rest < 0x80 then Inl KNonCanonicalSize
                else finish_header False n rest)
          else if b < 0xC0 then decode_long_header False (unat b - 0xB7) rest
          else if b < 0xF8 then finish_header True (unat b - 0xC0) rest
          else decode_long_header True (unat b - 0xF7) rest)"

text \<open>\<open>if (mode != Leftover::kAllow && !from.empty()) return kInputTooLong\<close>.\<close>

definition check_leftover :: "leftover \<Rightarrow> 'a \<Rightarrow> bytes \<Rightarrow> 'a decoded" where
  "check_leftover mode x from =
     (if mode \<noteq> KAllow \<and> from \<noteq> [] then Inl KInputTooLong else Inr (x, from))"

definition decode_bytes :: "bytes \<Rightarrow> leftover \<Rightarrow> bytes decoded" where
  "decode_bytes from mode =
     rbind (decode_header from) (\<lambda>(h, from).
       if is_list h then Inl KUnexpectedList
       else check_leftover mode (take (payload_length h) from) (drop (payload_length h) from))"

definition decode_uint :: "bytes \<Rightarrow> leftover \<Rightarrow> 'a::len word decoded" where
  "decode_uint from mode =
     rbind (decode_header from) (\<lambda>(h, from).
       if is_list h then Inl KUnexpectedList
       else rbind (from_big_compact (take (payload_length h) from)) (\<lambda>x.
         check_leftover mode x (drop (payload_length h) from)))"

definition decode_bool :: "bytes \<Rightarrow> leftover \<Rightarrow> bool decoded" where
  "decode_bool from mode =
     rbind (decode_uint from mode :: u64 decoded) (\<lambda>(i, from).
       if i > 1 then Inl KOverflow else Inr (i \<noteq> 0, from))"

definition decode_array :: "nat \<Rightarrow> bytes \<Rightarrow> leftover \<Rightarrow> bytes decoded" where
  "decode_array n from mode =
     rbind (decode_header from) (\<lambda>(h, from).
       if is_list h then Inl KUnexpectedList
       else if payload_length h \<noteq> n then Inl KUnexpectedLength
       else check_leftover mode (take n from) (drop n from))"

text \<open>
  The item loop of \<open>decode(ByteView&, std::vector<T>&)\<close>: items are decoded until the payload view
  is empty. The guard on the length only makes the recursion total for an arbitrary item decoder;
  for the decoders of the source, all of which consume at least one byte, the loop satisfies the
  source's equation without it (\<open>decode_loop_unguarded\<close> below).
\<close>

function decode_loop :: "(bytes \<Rightarrow> 'a decoded) \<Rightarrow> bytes \<Rightarrow> 'a list result" where
  "decode_loop item view =
     (if view = [] then Inr []
      else rbind (item view) (\<lambda>(x, rest).
        if length rest < length view then rbind (decode_loop item rest) (\<lambda>xs. Inr (x # xs))
        else Inl KUnexpectedListElements))"
  by pat_completeness auto
termination
  by (relation "measure (\<lambda>(item, view). length view)") auto

declare decode_loop.simps [simp del]

definition decode_vector :: "(bytes \<Rightarrow> leftover \<Rightarrow> 'a decoded) \<Rightarrow> bytes \<Rightarrow> leftover \<Rightarrow> 'a list decoded" where
  "decode_vector dec from mode =
     rbind (decode_header from) (\<lambda>(h, from).
       if \<not> is_list h then Inl KUnexpectedString
       else rbind (decode_loop (\<lambda>view. dec view KAllow) (take (payload_length h) from)) (\<lambda>xs.
         check_leftover mode xs (drop (payload_length h) from)))"

text \<open>
  Lists of raw items (\<open>std::vector<RlpByteView>\<close>). When an item's header does not decode, the source
  returns \<open>header.error()\<close> of the outer header, which holds a value and no error: the value read there
  is undefined, and is the parameter \<open>undef\<close> of the model.
\<close>

definition decode_raw_item :: "decoding_error \<Rightarrow> bytes \<Rightarrow> bytes decoded" where
  "decode_raw_item undef view =
     (case decode_header view of
        Inl e \<Rightarrow> Inl undef
      | Inr (h, rest) \<Rightarrow>
          Inr (take (length view - length rest + payload_length h) view, drop (payload_length h) rest))"

definition decode_rlp_views :: "decoding_error \<Rightarrow> bytes \<Rightarrow> leftover \<Rightarrow> bytes list decoded" where
  "decode_rlp_views undef from mode =
     rbind (decode_header from) (\<lambda>(h, from).
       if \<not> is_list h then Inl KUnexpectedString
       else rbind (decode_loop (decode_raw_item undef) (take (payload_length h) from)) (\<lambda>xs.
         check_leftover mode xs (drop (payload_length h) from)))"

text \<open>
  The list with a fixed number of items, \<open>decode(ByteView&, Leftover, Arg1&, \<dots>)\<close>, and the same
  frame around the hand-written item lists of block.cpp: the item decoder gets the number of bytes
  after the list (\<open>leftover\<close>) and the view from the first item on, which the payload does not bound;
  the bytes consumed are compared with the payload afterwards.
\<close>

definition decode_list_with :: "(nat \<Rightarrow> bytes \<Rightarrow> 'a decoded) \<Rightarrow> bytes \<Rightarrow> leftover \<Rightarrow> 'a decoded" where
  "decode_list_with items from mode =
     rbind (decode_header from) (\<lambda>(h, from).
       if \<not> is_list h then Inl KUnexpectedString
       else let leftover = length from - payload_length h
            in if mode \<noteq> KAllow \<and> leftover \<noteq> 0 then Inl KInputTooLong
               else rbind (items leftover from) (\<lambda>(x, from).
                 if length from \<noteq> leftover then Inl KUnexpectedListElements else Inr (x, from)))"

section \<open>Headers\<close>

lemma finish_header_iff:
  "finish_header l n from = Inr (h, rest) \<longleftrightarrow>
     n \<le> length from \<and> h = \<lparr>is_list = l, payload_length = n\<rparr> \<and> rest = from"
  by (auto simp: finish_header_def)

lemma decode_long_header_iff:
  "decode_long_header l k from = Inr (h, rest) \<longleftrightarrow>
     (\<exists>n. h = \<lparr>is_list = l, payload_length = n\<rparr> \<and> from = be_compact n @ rest \<and> sig_bytes n = k \<and>
          56 \<le> n \<and> n < 2 ^ 64 \<and> n \<le> length rest)" (is "?lhs \<longleftrightarrow> ?rhs")
proof
  assume ?lhs
  then obtain len :: u64 where len: "length from \<ge> k" "from_big_compact (take k from) = Inr len"
    "56 \<le> len" "unat len \<le> length rest" "rest = drop k from"
    "h = \<lparr>is_list = l, payload_length = unat len\<rparr>"
    by (auto simp: decode_long_header_def rbind_eq_Inr_iff finish_header_iff Let_def
        split: if_splits)
  have "take k from = be_compact (unat len)"
    using len(2) by (simp add: from_big_compact_iff)
  then have "from = be_compact (unat len) @ rest" "sig_bytes (unat len) = k"
    using len(1,5) by (metis append_take_drop_id, metis length_be_compact length_take min.absorb2)
  moreover have "unat len < 2 ^ 64"
    using unsigned_less [of len] by simp
  moreover have "56 \<le> unat len"
    using len(3) by (simp add: word_le_nat_alt)
  ultimately show ?rhs using len(4,6) by blast
next
  assume ?rhs
  then obtain n where n: "h = \<lparr>is_list = l, payload_length = n\<rparr>" "from = be_compact n @ rest"
    "sig_bytes n = k" "56 \<le> n" "n < 2 ^ 64" "n \<le> length rest"
    by blast
  have u: "unat (of_nat n :: u64) = n"
    using n(5) by (rule unat_of_nat_u64)
  have "sig_bytes n \<le> 8"
    using n(5) by (simp add: sig_bytes_le_iff)
  then have "from_big_compact (be_compact n) = Inr (of_nat n :: u64)"
    by (simp add: from_big_compact_iff u)
  moreover have "\<not> (of_nat n :: u64) < 56"
    using n(4) u by (simp add: word_less_nat_alt)
  ultimately show ?lhs
    using n u by (simp add: decode_long_header_def finish_header_iff Let_def)
qed

lemma byte_less_numeral_iff:
  "(b :: byte) < numeral w \<longleftrightarrow> unat b < unat (numeral w :: byte)"
  by (simp add: word_less_nat_alt)

lemma byte_plus_of_nat:
  "(c :: byte) + of_nat n = b \<longleftrightarrow> unat b = (unat c + n) mod 256"
  by (auto simp: word_unat_eq_iff unat_word_ariths mod_simps)

text \<open>A canonical header: what \<open>encode_header\<close> writes, in front of the payload \<open>rest\<close> begins with.\<close>

definition canonical_header :: "rlp_header \<Rightarrow> bytes \<Rightarrow> bool" where
  "canonical_header h rest \<longleftrightarrow>
     payload_length h \<le> length rest \<and> payload_length h < 2 ^ 64 \<and>
     (\<not> is_list h \<and> payload_length h = 1 \<longrightarrow> hd rest \<ge> 0x80)"

lemma sig_bytes_long_range: "56 \<le> n \<Longrightarrow> n < 2 ^ 64 \<Longrightarrow> 1 \<le> sig_bytes n \<and> sig_bytes n \<le> 8"
  using sig_bytes_le_iff [of n 8] sig_bytes_pos [of n] by (auto simp: Suc_le_eq)

lemma decode_header_encode:
  assumes "canonical_header h rest"
  shows "decode_header (encode_header h @ rest) = Inr (h, rest)"
proof -
  obtain l n where h: "h = \<lparr>is_list = l, payload_length = n\<rparr>"
    by (cases h) auto
  have n: "n \<le> length rest" "n < 2 ^ 64" "\<not> l \<and> n = 1 \<longrightarrow> hd rest \<ge> 0x80"
    using assms by (auto simp: canonical_header_def h)
  show ?thesis
  proof (cases "n < 56")
    case True
    have u: "unat ((if l then 0xC0 else 0x80 :: byte) + of_nat n) = (if l then 0xC0 else 0x80) + n"
      using True by (simp add: unat_word_ariths)
    show ?thesis
      using True n u
      by (auto simp: h encode_header_short decode_header_def byte_less_numeral_iff
          finish_header_iff Let_def not_less word_le_nat_alt split: if_splits)
  next
    case False
    then have s: "1 \<le> sig_bytes n" "sig_bytes n \<le> 8"
      using sig_bytes_long_range [of n] n(2) by auto
    have u: "unat ((if l then 0xF7 else 0xB7 :: byte) + of_nat (sig_bytes n)) =
      (if l then 0xF7 else 0xB7) + sig_bytes n"
      using s by (simp add: unat_word_ariths)
    have "decode_long_header l (sig_bytes n) (be_compact n @ rest) = Inr (h, rest)"
      using False n(1,2) by (auto simp: decode_long_header_iff h)
    then show ?thesis
      using False n(2) u s
      by (auto simp: h encode_header_long decode_header_def byte_less_numeral_iff split: if_splits)
  qed
qed

lemma decode_header_cases:
  assumes "decode_header from = Inr (h, rest)"
  shows "h = \<lparr>is_list = False, payload_length = 1\<rparr> \<and> rest = from \<and> from \<noteq> [] \<and> hd from < 0x80 \<or>
         from = encode_header h @ rest \<and> canonical_header h rest"
proof -
  obtain b tl where f: "from = b # tl"
    using assms by (cases "from") (auto simp: decode_header_def)
  have short: "b # tl = encode_header h @ rest"
    if "h = \<lparr>is_list = l, payload_length = n\<rparr>" "n < 56" "tl = rest"
      "unat b = (if l then 0xC0 else 0x80) + n" for l n
    using that by (simp add: encode_header_short byte_plus_of_nat [symmetric] eq_commute [of b]
        byte_plus_of_nat)
  have long: "b # tl = encode_header h @ rest"
    if "h = \<lparr>is_list = l, payload_length = n\<rparr>" "56 \<le> n" "n < 2 ^ 64" "tl = be_compact n @ rest"
      "unat b = (if l then 0xF7 else 0xB7) + sig_bytes n" for l n
    using that sig_bytes_long_range [of n]
    by (simp add: encode_header_long eq_commute [of b] byte_plus_of_nat)
  have b: "unat b < 256" by simp
  consider "unat b < 0x80" | "0x80 \<le> unat b" "unat b < 0xB8" | "0xB8 \<le> unat b" "unat b < 0xC0"
    | "0xC0 \<le> unat b" "unat b < 0xF8" | "0xF8 \<le> unat b"
    by linarith
  then show ?thesis
  proof cases
    case 1
    then show ?thesis
      using assms by (simp add: f decode_header_def byte_less_numeral_iff finish_header_iff)
  next
    case 2
    then show ?thesis
      using assms short [of False "unat b - 0x80"]
      by (auto simp: f decode_header_def byte_less_numeral_iff finish_header_iff Let_def
          canonical_header_def not_less word_le_nat_alt split: if_splits)
  next
    case 3
    then show ?thesis
      using assms long [of False]
      by (auto simp: f decode_header_def byte_less_numeral_iff decode_long_header_iff
          canonical_header_def)
  next
    case 4
    then show ?thesis
      using assms short [of True "unat b - 0xC0"]
      by (auto simp: f decode_header_def byte_less_numeral_iff finish_header_iff
          canonical_header_def)
  next
    case 5
    then show ?thesis
      using assms long [of True] b
      by (auto simp: f decode_header_def byte_less_numeral_iff decode_long_header_iff
          canonical_header_def)
  qed
qed

lemma decode_header_iff:
  "decode_header from = Inr (h, rest) \<longleftrightarrow>
     h = \<lparr>is_list = False, payload_length = 1\<rparr> \<and> rest = from \<and> from \<noteq> [] \<and> hd from < 0x80 \<or>
     from = encode_header h @ rest \<and> canonical_header h rest"
proof
  assume "h = \<lparr>is_list = False, payload_length = 1\<rparr> \<and> rest = from \<and> from \<noteq> [] \<and> hd from < 0x80 \<or>
     from = encode_header h @ rest \<and> canonical_header h rest"
  then show "decode_header from = Inr (h, rest)"
    by (auto simp: decode_header_encode)
       (auto simp: decode_header_def finish_header_iff neq_Nil_conv)
qed (rule decode_header_cases)

lemma decode_header_payload:
  "decode_header from = Inr (h, rest) \<Longrightarrow> payload_length h \<le> length rest \<and> length rest \<le> length from"
  by (auto simp: decode_header_iff canonical_header_def Suc_le_eq)

section \<open>The codec interfaces\<close>

text \<open>
  The item of a list: it is decoded in front of whatever follows it. The decoder accepts exactly
  the encodings of valid values (so encodings are canonical and none is a proper prefix of
  another), the length function announces the encoded size, and at least one byte is consumed.
\<close>

locale rlp_item =
  fixes enc :: "'a \<Rightarrow> bytes"
    and len :: "'a \<Rightarrow> nat"
    and item :: "bytes \<Rightarrow> 'a decoded"
    and valid :: "'a \<Rightarrow> bool"
  assumes item_iff: "item view = Inr (x, rest) \<longleftrightarrow> valid x \<and> view = enc x @ rest"
    and len_enc: "valid x \<Longrightarrow> len x = length (enc x)"
    and enc_nonempty: "valid x \<Longrightarrow> enc x \<noteq> []"
begin

lemma item_enc: "valid x \<Longrightarrow> item (enc x @ rest) = Inr (x, rest)"
  by (simp add: item_iff)

lemma prefix_free:
  "valid x \<Longrightarrow> valid y \<Longrightarrow> enc x @ r = enc y @ s \<Longrightarrow> x = y \<and> r = s"
  using item_enc [of x r] item_enc [of y s] by (metis Inr_inject prod.inject)

lemma item_consumes: "item view = Inr (x, rest) \<Longrightarrow> length rest < length view"
  using enc_nonempty [of x] by (auto simp: item_iff)

lemma length_items_enc:
  "(\<And>x. x \<in> set v \<Longrightarrow> valid x) \<Longrightarrow> length_items len v = length (encode_items enc v)"
  using encode_items_length [of v len enc] len_enc by simp

text \<open>The item loop satisfies the equation of the source, in which nothing bounds the recursion.\<close>

lemma decode_loop_unguarded:
  "decode_loop item view =
     (if view = [] then Inr []
      else rbind (item view) (\<lambda>(x, rest). rbind (decode_loop item rest) (\<lambda>xs. Inr (x # xs))))"
  using item_consumes [of view]
  by (subst decode_loop.simps) (cases "item view"; auto)

lemma decode_loop_iff:
  "decode_loop item view = Inr xs \<longleftrightarrow> (\<forall>x \<in> set xs. valid x) \<and> view = encode_items enc xs"
proof (induction xs arbitrary: view)
  case Nil
  show ?case
    by (subst decode_loop_unguarded) (auto simp: rbind_eq_Inr_iff)
next
  case (Cons x xs)
  show ?case
    using enc_nonempty [of x]
    by (subst decode_loop_unguarded) (auto simp: rbind_eq_Inr_iff item_iff Cons.IH)
qed

end

text \<open>
  A value with its own \<open>decode\<close>: an item whose decoder also takes the \<open>Leftover\<close> mode, which decides
  whether bytes may follow.
\<close>

locale rlp_codec = rlp_item enc len "\<lambda>view. dec view KAllow" valid
  for enc :: "'a \<Rightarrow> bytes"
    and len :: "'a \<Rightarrow> nat"
    and dec :: "bytes \<Rightarrow> leftover \<Rightarrow> 'a decoded"
    and valid :: "'a \<Rightarrow> bool" +
  assumes prohibit_iff:
    "dec from KProhibit = Inr (x, rest) \<longleftrightarrow> rest = [] \<and> dec from KAllow = Inr (x, rest)"
begin

lemma dec_iff:
  "dec from mode = Inr (x, rest) \<longleftrightarrow>
     valid x \<and> from = enc x @ rest \<and> (mode = KAllow \<or> rest = [])"
  using item_iff [of "from" x rest] by (cases mode) (auto simp: prohibit_iff)

lemma round_trip: "valid x \<Longrightarrow> dec (enc x) mode = Inr (x, [])"
  by (simp add: dec_iff)

lemma canonical: "dec from KProhibit = Inr (x, rest) \<Longrightarrow> from = enc x \<and> rest = []"
  by (simp add: dec_iff)

end

lemma rlp_codecI:
  assumes "\<And>from mode x rest. dec from mode = Inr (x, rest) \<longleftrightarrow>
             valid x \<and> from = enc x @ rest \<and> (mode = KAllow \<or> rest = [])"
    and "\<And>x. valid x \<Longrightarrow> len x = length (enc x)"
    and "\<And>x. valid x \<Longrightarrow> enc x \<noteq> []"
  shows "rlp_codec enc len dec valid"
  by unfold_locales (auto simp: assms)

definition valid_vector :: "('a \<Rightarrow> bool) \<Rightarrow> ('a \<Rightarrow> nat) \<Rightarrow> 'a list \<Rightarrow> bool" where
  "valid_vector valid len v \<longleftrightarrow> (\<forall>x \<in> set v. valid x) \<and> length_items len v < 2 ^ 64"

text \<open>
  The frame of a list: its header announces exactly the bytes of its items. The items of the frame
  are decoded by \<open>items\<close>, which is told how many bytes follow the list.
\<close>

locale rlp_items =
  fixes enc_items :: "'a \<Rightarrow> bytes"
    and len_items :: "'a \<Rightarrow> nat"
    and items :: "nat \<Rightarrow> bytes \<Rightarrow> 'a decoded"
    and valid :: "'a \<Rightarrow> bool"
  assumes items_iff:
      "length rest = after \<Longrightarrow> items after view = Inr (x, rest) \<longleftrightarrow>
         valid x \<and> view = enc_items x @ rest"
    and len_items: "valid x \<Longrightarrow> len_items x = length (enc_items x)"

definition encode_list_of :: "('a \<Rightarrow> bytes) \<Rightarrow> ('a \<Rightarrow> nat) \<Rightarrow> 'a \<Rightarrow> bytes" where
  "encode_list_of enc_items len_items x =
     encode_header \<lparr>is_list = True, payload_length = len_items x\<rparr> @ enc_items x"

definition length_list_of :: "('a \<Rightarrow> nat) \<Rightarrow> 'a \<Rightarrow> nat" where
  "length_list_of len_items x = length_of_length (len_items x) + len_items x"

definition valid_list_of :: "('a \<Rightarrow> bool) \<Rightarrow> ('a \<Rightarrow> nat) \<Rightarrow> 'a \<Rightarrow> bool" where
  "valid_list_of valid len_items x \<longleftrightarrow> valid x \<and> len_items x < 2 ^ 64"

lemma decode_list_header_iff:
  "decode_header from = Inr (h, rest) \<and> is_list h \<longleftrightarrow>
     is_list h \<and> from = encode_header h @ rest \<and> payload_length h \<le> length rest \<and>
     payload_length h < 2 ^ 64"
  by (auto simp: decode_header_iff canonical_header_def)

context rlp_items
begin

lemma decode_list_with_iff:
  "decode_list_with items from mode = Inr (x, rest) \<longleftrightarrow>
     valid_list_of valid len_items x \<and> from = encode_list_of enc_items len_items x @ rest \<and>
     (mode = KAllow \<or> rest = [])" (is "?lhs \<longleftrightarrow> ?rhs")
proof
  assume ?lhs
  then obtain h view where h: "decode_header from = Inr (h, view)" "is_list h"
    "mode = KAllow \<or> length view - payload_length h = 0"
    "items (length view - payload_length h) view = Inr (x, rest)"
    "length rest = length view - payload_length h"
    by (auto simp: decode_list_with_def rbind_eq_Inr_iff Let_def split: if_splits)
  then have f: "from = encode_header h @ view" "payload_length h \<le> length view"
    "payload_length h < 2 ^ 64"
    using decode_list_header_iff by blast+
  have m: "mode = KAllow \<or> rest = []"
    using h(3,5) by auto
  have x: "valid x" "view = enc_items x @ rest"
    using items_iff h(4,5) by auto
  moreover from x(2) have "length view = length (enc_items x) + length rest"
    by simp
  ultimately have "payload_length h = len_items x"
    using len_items [of x] f(2) h(5) by linarith
  moreover obtain n where "h = \<lparr>is_list = True, payload_length = n\<rparr>"
    using h(2) by (cases h) auto
  ultimately show ?rhs
    using x f m by (simp add: valid_list_of_def encode_list_of_def)
next
  assume r: ?rhs
  let ?h = "\<lparr>is_list = True, payload_length = len_items x\<rparr>"
  have v: "valid x" "len_items x < 2 ^ 64" "len_items x = length (enc_items x)"
    using r len_items by (auto simp: valid_list_of_def)
  have "decode_header from = Inr (?h, enc_items x @ rest)"
    using r v by (simp add: decode_header_iff encode_list_of_def canonical_header_def)
  moreover have "items (length rest) (enc_items x @ rest) = Inr (x, rest)"
    using items_iff v(1) by simp
  ultimately show ?lhs
    using r v(3) by (auto simp: decode_list_with_def)
qed

lemma list_codec:
  "rlp_codec (encode_list_of enc_items len_items) (length_list_of len_items)
     (decode_list_with items) (valid_list_of valid len_items)"
proof (rule rlp_codecI)
  fix x
  assume "valid_list_of valid len_items x"
  then show "length_list_of len_items x = length (encode_list_of enc_items len_items x)"
    by (simp add: length_list_of_def encode_list_of_def encode_header_length valid_list_of_def
        len_items)
qed (simp_all add: decode_list_with_iff encode_list_of_def)

end

text \<open>The list header around an item loop, for both kinds of vector.\<close>

definition decode_vector_with :: "(bytes \<Rightarrow> 'a decoded) \<Rightarrow> bytes \<Rightarrow> leftover \<Rightarrow> 'a list decoded" where
  "decode_vector_with item from mode =
     rbind (decode_header from) (\<lambda>(h, from).
       if \<not> is_list h then Inl KUnexpectedString
       else rbind (decode_loop item (take (payload_length h) from)) (\<lambda>xs.
         check_leftover mode xs (drop (payload_length h) from)))"

lemma decode_vector_eq: "decode_vector dec = decode_vector_with (\<lambda>view. dec view KAllow)"
  by (intro ext) (simp add: decode_vector_def decode_vector_with_def)

lemma decode_rlp_views_eq: "decode_rlp_views undef = decode_vector_with (decode_raw_item undef)"
  by (intro ext) (simp add: decode_rlp_views_def decode_vector_with_def)

context rlp_item
begin

lemma decode_vector_with_iff:
  "decode_vector_with item from mode = Inr (v, rest) \<longleftrightarrow>
     valid_vector valid len v \<and> from = encode_vector enc len v @ rest \<and>
     (mode = KAllow \<or> rest = [])" (is "?lhs \<longleftrightarrow> ?rhs")
proof
  assume ?lhs
  then obtain h view where h: "decode_header from = Inr (h, view)" "is_list h"
    "decode_loop item (take (payload_length h) view) = Inr v"
    "rest = drop (payload_length h) view" "mode = KAllow \<or> rest = []"
    by (auto simp: decode_vector_with_def rbind_eq_Inr_iff check_leftover_def split: if_splits)
  then have f: "from = encode_header h @ view" "payload_length h \<le> length view"
    "payload_length h < 2 ^ 64"
    using decode_list_header_iff by blast+
  have v: "\<forall>x \<in> set v. valid x" "take (payload_length h) view = encode_items enc v"
    using h(3) by (auto simp: decode_loop_iff)
  then have n: "payload_length h = length_items len v"
    using length_items_enc [of v] f(2) by (metis length_take min.absorb2)
  moreover have "view = encode_items enc v @ rest"
    using v(2) h(4) by (metis append_take_drop_id)
  moreover obtain n where "h = \<lparr>is_list = True, payload_length = n\<rparr>"
    using h(2) by (cases h) auto
  ultimately show ?rhs
    using v(1) f h(5) by (auto simp: valid_vector_def encode_vector_def)
next
  assume r: ?rhs
  let ?h = "\<lparr>is_list = True, payload_length = length_items len v\<rparr>"
  have v: "\<forall>x \<in> set v. valid x" "length_items len v < 2 ^ 64"
    "length_items len v = length (encode_items enc v)"
    using r length_items_enc [of v] by (auto simp: valid_vector_def)
  have "decode_header from = Inr (?h, encode_items enc v @ rest)"
    using r v by (simp add: decode_header_iff encode_vector_def canonical_header_def)
  moreover have "decode_loop item (encode_items enc v) = Inr v"
    using v(1) by (simp add: decode_loop_iff)
  ultimately show ?lhs
    using r v(3) by (simp add: decode_vector_with_def check_leftover_def)
qed

lemma vector_with_codec:
  "rlp_codec (encode_vector enc len) (length_vector len) (decode_vector_with item)
     (valid_vector valid len)"
proof (rule rlp_codecI)
  fix v
  assume "valid_vector valid len v"
  then show "length_vector len v = length (encode_vector enc len v)"
    using encode_vector_length [of v len enc] len_enc by (simp add: valid_vector_def)
qed (simp_all add: decode_vector_with_iff encode_vector_def)

end

context rlp_codec
begin

lemma vector_codec:
  "rlp_codec (encode_vector enc len) (length_vector len) (decode_vector dec)
     (valid_vector valid len)"
  unfolding decode_vector_eq by (rule vector_with_codec)

end

section \<open>Strings and integers\<close>

lemma hd_single: "length s = 1 \<Longrightarrow> s = [hd s]"
  by (cases s) auto

text \<open>A string header together with its payload is the encoding of that payload.\<close>

lemma string_header_iff:
  "(\<exists>h view. decode_header from = Inr (h, view) \<and> \<not> is_list h \<and>
      s = take (payload_length h) view \<and> rest = drop (payload_length h) view) \<longleftrightarrow>
   length s < 2 ^ 64 \<and> from = encode_bytes s @ rest" (is "?lhs \<longleftrightarrow> ?rhs")
proof
  assume ?lhs
  then obtain h view where h: "decode_header from = Inr (h, view)" "\<not> is_list h"
    "s = take (payload_length h) view" "rest = drop (payload_length h) view"
    by blast
  have hh: "h = \<lparr>is_list = False, payload_length = length s\<rparr>"
    using decode_header_payload [OF h(1)] h(2,3) by (cases h) auto
  have v: "view = s @ rest"
    using h(3,4) by simp
  from h(1) show ?rhs
    unfolding decode_header_iff
  proof
    assume "h = \<lparr>is_list = False, payload_length = 1\<rparr> \<and> view = from \<and> from \<noteq> [] \<and> hd from < 0x80"
    then show ?rhs
      using hd_single [of s] v hh by (cases s) (auto simp: encode_bytes_def rlp_codes)
  next
    assume a: "from = encode_header h @ view \<and> canonical_header h view"
    then have "length s \<noteq> 1 \<or> kEmptyStringCode \<le> hd s"
      using v hh by (cases s) (auto simp: canonical_header_def rlp_codes)
    then show ?rhs
      using a v hh by (simp add: encode_bytes_def canonical_header_def)
  qed
next
  assume r: ?rhs
  show ?lhs
  proof (cases "length s \<noteq> 1 \<or> kEmptyStringCode \<le> hd s")
    case True
    let ?h = "\<lparr>is_list = False, payload_length = length s\<rparr>"
    have "canonical_header ?h (s @ rest)"
      using r True by (cases s) (auto simp: canonical_header_def rlp_codes)
    then have "decode_header from = Inr (?h, s @ rest)"
      using r True by (simp add: decode_header_iff encode_bytes_def)
    then show ?lhs by (intro exI [of _ ?h] exI [of _ "s @ rest"]) simp
  next
    case False
    let ?h = "\<lparr>is_list = False, payload_length = 1\<rparr>"
    have "decode_header from = Inr (?h, s @ rest)"
      using r False by (cases s) (auto simp: decode_header_iff encode_bytes_def rlp_codes not_le)
    then show ?lhs
      using False by (intro exI [of _ ?h] exI [of _ "s @ rest"]) simp
  qed
qed

lemma check_leftover_iff:
  "check_leftover mode x from = Inr (y, rest) \<longleftrightarrow>
     y = x \<and> rest = from \<and> (mode = KAllow \<or> rest = [])"
  by (auto simp: check_leftover_def)

lemma decode_bytes_iff [codec_laws]:
  "decode_bytes from mode = Inr (s, rest) \<longleftrightarrow>
     length s < 2 ^ 64 \<and> from = encode_bytes s @ rest \<and> (mode = KAllow \<or> rest = [])"
proof -
  have "decode_bytes from mode = Inr (s, rest) \<longleftrightarrow>
    (\<exists>h view. decode_header from = Inr (h, view) \<and> \<not> is_list h \<and>
      s = take (payload_length h) view \<and> rest = drop (payload_length h) view) \<and>
    (mode = KAllow \<or> rest = [])"
    by (auto simp: decode_bytes_def rbind_eq_Inr_iff check_leftover_iff split: if_splits)
  then show ?thesis
    by (simp only: string_header_iff conj_assoc)
qed

text \<open>Unsigned integers and arrays are strings with a further condition.\<close>

lemma decode_uint_via_bytes:
  "decode_uint from mode = Inr (n, rest) \<longleftrightarrow>
     (\<exists>s. decode_bytes from mode = Inr (s, rest) \<and> from_big_compact s = Inr n)"
  by (auto simp: decode_uint_def decode_bytes_def rbind_eq_Inr_iff check_leftover_iff
      split: if_splits)

lemma decode_array_via_bytes:
  "decode_array n from mode = Inr (x, rest) \<longleftrightarrow>
     decode_bytes from mode = Inr (x, rest) \<and> length x = n"
proof -
  have "length (take (payload_length h) view) = payload_length h"
    if "decode_header from = Inr (h, view)" for h view
    using decode_header_payload [OF that] by simp
  then show ?thesis
    by (auto simp: decode_array_def decode_bytes_def rbind_eq_Inr_iff check_leftover_iff
        split: if_splits)
qed

lemma encode_uint_via_bytes:
  fixes n :: "'a::len word"
  assumes w: "64 dvd LENGTH('a)"
  shows "encode_uint n = encode_bytes (be_compact (unat n))"
proof -
  note lit = word64_literals [OF w]
  consider "n = 0" | "n \<noteq> 0" "n < 0x80" | "\<not> n < 0x80" by blast
  then show ?thesis
  proof cases
    case 1
    then show ?thesis
      by (simp add: encode_uint_def encode_bytes_def encode_header_def be_compact_def rlp_codes)
  next
    case 2
    then have u: "0 < unat n" "unat n < 128"
      using lit(1) by (auto simp: word_less_nat_alt unat_gt_0)
    then have b: "be_compact (unat n) = [of_nat (unat n)]"
      by (simp add: be_compact_def sig_bytes_pos)
    have "ucast n = (of_nat (unat n) :: byte)"
      by simp
    then show ?thesis
      using 2 u b by (simp add: encode_uint_def encode_bytes_def rlp_codes word_le_nat_alt
          unsigned_ucast_eq take_bit_nat_eq_self)
  next
    case 3
    then have u: "128 \<le> unat n" and "n \<noteq> 0"
      using lit by (auto simp: word_less_nat_alt)
    have "length (be_compact (unat n)) \<noteq> 1 \<or> kEmptyStringCode \<le> hd (be_compact (unat n))"
    proof (cases "unat n < 256")
      case True
      then show ?thesis
        using u by (simp add: be_compact_def sig_bytes_pos rlp_codes word_le_nat_alt
            unsigned_ucast_eq take_bit_nat_eq_self)
    next
      case False
      then show ?thesis
        using sig_bytes_le_iff [of "unat n" 1] by simp
    qed
    then show ?thesis
      using 3 \<open>n \<noteq> 0\<close> w by (simp add: encode_uint_def encode_bytes_def to_big_compact_eq)
  qed
qed

lemma sig_bytes_unat_le:
  fixes n :: "'a::len word"
  assumes "8 dvd LENGTH('a)"
  shows "sig_bytes (unat n) \<le> LENGTH('a) div 8"
  using count_significant_bytes_le [OF assms, of n] by (simp add: count_significant_bytes_def)

lemma decode_uint_iff:
  fixes n :: "'a::len word"
  assumes "64 dvd LENGTH('a)" "LENGTH('a) < 2 ^ 64"
  shows "decode_uint from mode = Inr (n, rest) \<longleftrightarrow>
           from = encode_uint n @ rest \<and> (mode = KAllow \<or> rest = [])"
proof -
  have d: "8 dvd LENGTH('a)"
    using word64_literals [OF assms(1)] by blast
  have "sig_bytes (unat n) \<le> LENGTH('a) div 8"
    by (rule sig_bytes_unat_le [OF d])
  then show ?thesis
    using assms(2)
    by (auto simp: decode_uint_via_bytes decode_bytes_iff from_big_compact_iff [OF d]
        encode_uint_via_bytes [OF assms(1)])
qed

text \<open>\<open>uint8_t\<close>: encoded through the 64-bit overload, decoded at 8 bits.\<close>

lemma encode_u8_via_bytes: "encode_u8 n = encode_bytes (be_compact (unat n))"
proof -
  have "unat (ucast n :: u64) = unat n"
    using less_trans [OF unat_byte_less [of n], of "2 ^ 64"]
    by (simp add: unsigned_ucast_eq take_bit_nat_eq_self)
  then show ?thesis
    by (simp add: encode_u8_def encode_uint_via_bytes)
qed

lemma decode_u8_iff:
  "decode_uint from mode = Inr (n :: byte, rest) \<longleftrightarrow>
     from = encode_u8 n @ rest \<and> (mode = KAllow \<or> rest = [])"
  using sig_bytes_unat_le [of n]
  by (auto simp: decode_uint_via_bytes decode_bytes_iff from_big_compact_iff encode_u8_via_bytes)

lemma decode_bool_iff [codec_laws]:
  "decode_bool from mode = Inr (b, rest) \<longleftrightarrow>
     from = encode_bool b @ rest \<and> (mode = KAllow \<or> rest = [])"
proof -
  have one: "encode_uint (if b then 1 else 0 :: u64) = encode_bool b"
    by (simp add: encode_uint_def encode_bool_def)
  have small: "\<not> 1 < i \<and> (b \<longleftrightarrow> i \<noteq> 0) \<longleftrightarrow> i = (if b then 1 else 0)" for i :: u64
  proof -
    have "i = 0 \<longleftrightarrow> unat i = 0" "i = 1 \<longleftrightarrow> unat i = 1" "1 < i \<longleftrightarrow> 1 < unat i"
      by (simp_all add: unat_eq_0 word_unat_eq_iff [of i 1] word_less_nat_alt)
    then show ?thesis by (cases b) (simp_all, linarith+)
  qed
  have "decode_bool from mode = Inr (b, rest) \<longleftrightarrow>
    (\<exists>i :: u64. decode_uint from mode = Inr (i, rest) \<and> \<not> 1 < i \<and> (b \<longleftrightarrow> i \<noteq> 0))"
    by (auto simp: decode_bool_def rbind_eq_Inr_iff split: if_splits)
  also have "\<dots> \<longleftrightarrow> decode_uint from mode = Inr (if b then 1 else 0 :: u64, rest)"
    by (simp add: small)
  finally show ?thesis
    by (simp add: decode_uint_iff one)
qed

lemma encode_bytes_nonempty [simp]: "encode_bytes s \<noteq> []"
  by (auto simp: encode_bytes_def)

lemma encode_uint_nonempty [simp]: "encode_uint n \<noteq> []"
  by (simp add: encode_uint_def Let_def)

lemma encode_u8_nonempty [simp]: "encode_u8 n \<noteq> []"
  by (simp add: encode_u8_def)

section \<open>Instances of the interface\<close>

interpretation rlp_bytes: rlp_codec encode_bytes length_bytes decode_bytes "\<lambda>s. length s < 2 ^ 64"
  by (rule rlp_codecI) (simp_all add: decode_bytes_iff encode_bytes_length)

interpretation rlp_u64: rlp_codec encode_uint length_uint decode_uint "\<lambda>n :: u64. True"
  by (rule rlp_codecI) (simp_all add: decode_uint_iff encode_uint_length)

interpretation rlp_u256: rlp_codec encode_uint length_uint decode_uint "\<lambda>n :: u256. True"
  by (rule rlp_codecI) (simp_all add: decode_uint_iff encode_uint_length)

interpretation rlp_u8: rlp_codec encode_u8 length_u8 decode_uint "\<lambda>n :: byte. True"
  by (rule rlp_codecI) (simp_all add: decode_u8_iff encode_u8_length)

interpretation rlp_bool: rlp_codec encode_bool length_bool decode_bool "\<lambda>b. True"
  by (rule rlp_codecI) (simp_all add: decode_bool_iff encode_bool_length, simp add: encode_bool_def)

lemma array_codec:
  "n < 2 ^ 64 \<Longrightarrow> rlp_codec encode_bytes length_bytes (decode_array n) (\<lambda>x. length x = n)"
  by (rule rlp_codecI) (auto simp: decode_array_via_bytes decode_bytes_iff encode_bytes_length)

interpretation rlp_address: rlp_codec encode_bytes length_bytes "decode_array 20" "\<lambda>x. length x = 20"
  by (rule array_codec) simp

interpretation rlp_bytes32: rlp_codec encode_bytes length_bytes "decode_array 32" "\<lambda>x. length x = 32"
  by (rule array_codec) simp

interpretation rlp_hashes: rlp_codec "encode_vector encode_bytes length_bytes"
  "length_vector length_bytes" "decode_vector (decode_array 32)"
  "valid_vector (\<lambda>x. length x = 32) length_bytes"
  by (rule rlp_bytes32.vector_codec)

lemmas basic_codec_laws = rlp_bytes.dec_iff rlp_u64.dec_iff rlp_u256.dec_iff rlp_u8.dec_iff
  rlp_bool.dec_iff rlp_address.dec_iff rlp_bytes32.dec_iff rlp_hashes.dec_iff

section \<open>Raw items\<close>

text \<open>One complete RLP item: a header and exactly its payload.\<close>

definition well_formed_item :: "bytes \<Rightarrow> bool" where
  "well_formed_item s =
     (case decode_header s of Inl e \<Rightarrow> False | Inr (h, p) \<Rightarrow> payload_length h = length p)"

lemma decode_header_extend:
  assumes "decode_header from = Inr (h, view)"
  shows "decode_header (take (length from - length view + payload_length h) from @ r) =
           Inr (h, take (payload_length h) view @ r)"
proof -
  have p: "payload_length h \<le> length view"
    using decode_header_payload [OF assms] by blast
  show ?thesis
    using assms unfolding decode_header_iff
  proof
    assume "h = \<lparr>is_list = False, payload_length = 1\<rparr> \<and> view = from \<and> from \<noteq> [] \<and> hd from < 0x80"
    then show "h = \<lparr>is_list = False, payload_length = 1\<rparr> \<and>
        take (payload_length h) view @ r =
          take (length from - length view + payload_length h) from @ r \<and>
        take (length from - length view + payload_length h) from @ r \<noteq> [] \<and>
        hd (take (length from - length view + payload_length h) from @ r) < 0x80 \<or>
        take (length from - length view + payload_length h) from @ r =
          encode_header h @ take (payload_length h) view @ r \<and>
        canonical_header h (take (payload_length h) view @ r)"
      by (cases "from") auto
  next
    assume a: "from = encode_header h @ view \<and> canonical_header h view"
    then have "canonical_header h (take (payload_length h) view @ r)"
      using p by (cases view) (auto simp: canonical_header_def hd_append)
    then show "h = \<lparr>is_list = False, payload_length = 1\<rparr> \<and>
        take (payload_length h) view @ r =
          take (length from - length view + payload_length h) from @ r \<and>
        take (length from - length view + payload_length h) from @ r \<noteq> [] \<and>
        hd (take (length from - length view + payload_length h) from @ r) < 0x80 \<or>
        take (length from - length view + payload_length h) from @ r =
          encode_header h @ take (payload_length h) view @ r \<and>
        canonical_header h (take (payload_length h) view @ r)"
      using a by simp
  qed
qed

lemma decode_raw_item_iff:
  "decode_raw_item undef view = Inr (x, rest) \<longleftrightarrow> well_formed_item x \<and> view = x @ rest"
proof
  assume "decode_raw_item undef view = Inr (x, rest)"
  then obtain h p where h: "decode_header view = Inr (h, p)"
    "x = take (length view - length p + payload_length h) view" "rest = drop (payload_length h) p"
    by (auto simp: decode_raw_item_def split: sum.splits)
  have "p = drop (length view - length p) view"
    using h(1) unfolding decode_header_iff by auto
  then have "view = x @ rest"
    using h(2,3) by (metis add.commute append_take_drop_id drop_drop)
  moreover have "well_formed_item x"
    using decode_header_extend [OF h(1), of "[]"] h(2) decode_header_payload [OF h(1)]
    by (simp add: well_formed_item_def)
  ultimately show "well_formed_item x \<and> view = x @ rest" by simp
next
  assume a: "well_formed_item x \<and> view = x @ rest"
  then obtain h p where h: "decode_header x = Inr (h, p)" "payload_length h = length p"
    by (auto simp: well_formed_item_def split: sum.splits)
  have "decode_header view = Inr (h, p @ rest)"
    using decode_header_extend [OF h(1), of rest] a h(2) decode_header_payload [OF h(1)] by simp
  then show "decode_raw_item undef view = Inr (x, rest)"
    using a h decode_header_payload [OF h(1)] by (simp add: decode_raw_item_def)
qed

lemma well_formed_item_nonempty: "well_formed_item x \<Longrightarrow> x \<noteq> []"
  by (auto simp: well_formed_item_def decode_header_def)

interpretation rlp_raw: rlp_item "\<lambda>s. s" length "decode_raw_item undef" well_formed_item
  by unfold_locales (simp_all add: decode_raw_item_iff well_formed_item_nonempty)

lemma decode_rlp_views_iff [codec_laws]:
  "decode_rlp_views undef from mode = Inr (v, rest) \<longleftrightarrow>
     valid_vector well_formed_item length v \<and> from = encode_rlp_views v @ rest \<and>
     (mode = KAllow \<or> rest = [])"
  unfolding decode_rlp_views_eq encode_rlp_views_eq_vector id_def
  by (rule rlp_raw.decode_vector_with_iff)

section \<open>Properties\<close>

text \<open>
  scalar decoding is exact. For byte strings, 64- and 256-bit integers, \<open>uint8_t\<close>, booleans and
  fixed-size arrays, \<open>decode\<close> returns a value precisely when the view starts with that value's
  encoding (and, unless leftovers are allowed, ends there). So every value round trips, and
  non-minimal sizes, leading zeros, single bytes behind a header and trailing bytes are rejected.
\<close>

theorem rlp_scalars_exact:
  fixes n :: u64 and m :: u256 and k :: byte
  shows "(decode_bytes from mode = Inr (s, rest) \<longleftrightarrow>
            length s < 2 ^ 64 \<and> from = encode_bytes s @ rest \<and> (mode = KAllow \<or> rest = [])) \<and>
         (decode_array (length s) from mode = Inr (s, rest) \<longleftrightarrow>
            length s < 2 ^ 64 \<and> from = encode_bytes s @ rest \<and> (mode = KAllow \<or> rest = [])) \<and>
         (decode_uint from mode = Inr (n, rest) \<longleftrightarrow>
            from = encode_uint n @ rest \<and> (mode = KAllow \<or> rest = [])) \<and>
         (decode_uint from mode = Inr (m, rest) \<longleftrightarrow>
            from = encode_uint m @ rest \<and> (mode = KAllow \<or> rest = [])) \<and>
         (decode_uint from mode = Inr (k, rest) \<longleftrightarrow>
            from = encode_u8 k @ rest \<and> (mode = KAllow \<or> rest = [])) \<and>
         (decode_bool from mode = Inr (b, rest) \<longleftrightarrow>
            from = encode_bool b @ rest \<and> (mode = KAllow \<or> rest = []))"
  by (simp add: basic_codec_laws decode_array_via_bytes)

text \<open>
  C32: list decoding is exact. A vector of hashes, and a vector of raw items of any kind, decode
  precisely from their own list encoding, with every item well formed; the raw form also shows that
  splitting a list into its items and reassembling them is lossless.
\<close>

theorem rlp_lists_exact:
  "(decode_vector (decode_array 32) from mode = Inr (v, rest) \<longleftrightarrow>
      valid_vector (\<lambda>x. length x = 32) length_bytes v \<and>
      from = encode_vector encode_bytes length_bytes v @ rest \<and> (mode = KAllow \<or> rest = [])) \<and>
   (decode_rlp_views undef from mode = Inr (w, rest) \<longleftrightarrow>
      valid_vector well_formed_item length w \<and> from = encode_rlp_views w @ rest \<and>
      (mode = KAllow \<or> rest = []))"
  by (simp only: rlp_hashes.dec_iff decode_rlp_views_iff)

text \<open>
  memory safety of \<open>decode_header\<close>: when it succeeds, the view left is a suffix of the input, at
  most 9 bytes were consumed, and the announced payload lies inside that view, so the \<open>substr\<close>,
  \<open>memcpy\<close> and \<open>remove_prefix\<close> of its callers stay in bounds.
\<close>

theorem decode_header_in_bounds:
  assumes "decode_header from = Inr (h, rest)"
  shows "payload_length h \<le> length rest \<and> (\<exists>p. from = p @ rest \<and> length p \<le> 9)"
proof -
  have "length (encode_header h) \<le> 9" if "payload_length h < 2 ^ 64"
    using that sig_bytes_long_range [of "payload_length h"]
    by (simp add: encode_header_length length_of_length_def count_significant_bytes_def
        unat_of_nat_u64)
  then have "\<exists>p. from = p @ rest \<and> length p \<le> 9"
    using decode_header_cases [OF assms] by (auto simp: canonical_header_def)
  then show ?thesis
    using decode_header_payload [OF assms] by blast
qed

theorem decode_header_in_bounds_witness:
  "decode_header [0xC2, 0x01, 0x80, 0xFF] =
     Inr (\<lparr>is_list = True, payload_length = 2\<rparr>, [0x01, 0x80, 0xFF]) \<and>
   payload_length \<lparr>is_list = True, payload_length = 2\<rparr> \<le> length [0x01, 0x80, 0xFF :: byte]"
proof -
  have "decode_header [0xC2, 0x01, 0x80, 0xFF] =
     Inr (\<lparr>is_list = True, payload_length = 2\<rparr>, [0x01, 0x80, 0xFF])"
    by (simp add: decode_header_def finish_header_def)
  from this decode_header_in_bounds [OF this] show ?thesis
    by blast
qed

end
