(* ===== verification/Types_Basic.thy ===== *)
theory Types_Basic
  imports Rlp_Decode
begin

text \<open>
  The small value types: addresses (types/address.cpp), 32-byte values (types/evmc_bytes32.cpp),
  withdrawals (types/withdrawal.cpp) and the signature arithmetic shared by transactions
  (types/y_parity_and_chain_id.cpp, crypto/secp256k1n.cpp). The Keccak permutation is a parameter.
\<close>

section \<open>Definitions\<close>

definition kAddressLength :: nat where
  "kAddressLength = 20"

definition kHashLength :: nat where
  "kHashLength = 32"

definition create_address :: "(bytes \<Rightarrow> bytes32) \<Rightarrow> address \<Rightarrow> u64 \<Rightarrow> address" where
  "create_address keccak256 caller nonce =
     (let h = \<lparr>is_list = True, payload_length = 1 + kAddressLength + length_uint nonce\<rparr>;
          rlp = encode_header h @ encode_bytes caller @ encode_uint nonce
      in take kAddressLength (drop 12 (keccak256 rlp)))"

definition create2_address :: "(bytes \<Rightarrow> bytes32) \<Rightarrow> address \<Rightarrow> bytes32 \<Rightarrow> bytes32 \<Rightarrow> address" where
  "create2_address keccak256 caller salt code_hash =
     take kAddressLength (drop 12 (keccak256 ([0xFF] @ caller @ salt @ code_hash)))"

definition bytes_to_address :: "bytes \<Rightarrow> address" where
  "bytes_to_address bs =
     (let n = min (length bs) kAddressLength in replicate (kAddressLength - n) 0 @ take n bs)"

definition to_bytes32 :: "bytes \<Rightarrow> bytes32" where
  "to_bytes32 bs =
     (let n = min (length bs) kHashLength in replicate (kHashLength - n) 0 @ take n bs)"

record withdrawal =
  wd_index :: u64
  wd_validator_index :: u64
  wd_address :: address
  wd_amount :: u64

definition withdrawal_header :: "withdrawal \<Rightarrow> rlp_header" where
  "withdrawal_header w =
     \<lparr>is_list = True,
      payload_length = length_uint (wd_index w) + length_uint (wd_validator_index w)
        + length_bytes (wd_address w) + length_uint (wd_amount w)\<rparr>"

definition length_withdrawal :: "withdrawal \<Rightarrow> nat" where
  "length_withdrawal w =
     length_of_length (payload_length (withdrawal_header w)) + payload_length (withdrawal_header w)"

definition encode_withdrawal :: "withdrawal \<Rightarrow> bytes" where
  "encode_withdrawal w =
     encode_header (withdrawal_header w) @ encode_uint (wd_index w)
       @ encode_uint (wd_validator_index w) @ encode_bytes (wd_address w)
       @ encode_uint (wd_amount w)"

definition decode_withdrawal_items :: "bytes \<Rightarrow> withdrawal decoded" where
  "decode_withdrawal_items from =
     rbind (decode_uint from KAllow) (\<lambda>(index, from).
     rbind (decode_uint from KAllow) (\<lambda>(validator_index, from).
     rbind (decode_array 20 from KAllow) (\<lambda>(address, from).
     rbind (decode_uint from KAllow) (\<lambda>(amount, from).
       Inr (\<lparr>wd_index = index, wd_validator_index = validator_index, wd_address = address,
             wd_amount = amount\<rparr>, from)))))"

definition decode_withdrawal :: "bytes \<Rightarrow> leftover \<Rightarrow> withdrawal decoded" where
  "decode_withdrawal = decode_list_with (\<lambda>leftover. decode_withdrawal_items)"

text \<open>The \<open>v\<close> of a legacy signature (EIP-155).\<close>

definition y_parity_and_chain_id_to_v :: "bool \<Rightarrow> u256 option \<Rightarrow> u256" where
  "y_parity_and_chain_id_to_v odd_y chain_id =
     (case chain_id of
        Some c \<Rightarrow> c * 2 + 35 + of_bool odd_y
      | None \<Rightarrow> if odd_y then 28 else 27)"

definition v_to_y_parity_and_chain_id :: "u256 \<Rightarrow> (bool \<times> u256 option) option" where
  "v_to_y_parity_and_chain_id v =
     (if v = 27 \<or> v = 28 then Some (v = 28, None)
      else if v < 35 then None
      else let w = v - 35 in Some ((ucast w :: u64) mod 2 \<noteq> 0, Some (drop_bit 1 w)))"

definition kSecp256k1n :: u256 where
  "kSecp256k1n = 0xfffffffffffffffffffffffffffffffebaaedce6af48a03bbfd25e8cd0364141"

definition kSecp256k1Halfn :: u256 where
  "kSecp256k1Halfn = drop_bit 1 kSecp256k1n"

definition is_valid_signature :: "u256 \<Rightarrow> u256 \<Rightarrow> bool \<Rightarrow> bool" where
  "is_valid_signature r s homestead =
     (if r = 0 \<or> s = 0 then False
      else if r \<ge> kSecp256k1n \<or> s \<ge> kSecp256k1n then False
      else if homestead \<and> s > kSecp256k1Halfn then False
      else True)"

section \<open>Withdrawals\<close>

definition withdrawal_items :: "withdrawal \<Rightarrow> bytes" where
  "withdrawal_items w =
     encode_uint (wd_index w) @ encode_uint (wd_validator_index w) @ encode_bytes (wd_address w)
       @ encode_uint (wd_amount w)"

definition valid_withdrawal :: "withdrawal \<Rightarrow> bool" where
  "valid_withdrawal w \<longleftrightarrow> length (wd_address w) = 20"

lemma decode_withdrawal_items_iff:
  "decode_withdrawal_items from = Inr (w, rest) \<longleftrightarrow>
     valid_withdrawal w \<and> from = withdrawal_items w @ rest"
  by (cases w)
     (auto simp: decode_withdrawal_items_def rbind_eq_Inr_iff basic_codec_laws
       withdrawal_items_def valid_withdrawal_def)

lemma withdrawal_header_eq:
  "payload_length (withdrawal_header w) = length (withdrawal_items w)" "is_list (withdrawal_header w)"
  by (simp_all add: withdrawal_header_def withdrawal_items_def length_laws)

lemma withdrawal_items_small:
  "valid_withdrawal w \<Longrightarrow> length (withdrawal_items w) < 2 ^ 64"
  using length_uint_u64_le [of "wd_index w"] length_uint_u64_le [of "wd_validator_index w"]
    length_uint_u64_le [of "wd_amount w"]
  by (simp add: withdrawal_items_def length_laws valid_withdrawal_def length_bytes_short)

interpretation withdrawal_list: rlp_items withdrawal_items "\<lambda>w. length (withdrawal_items w)"
  "\<lambda>leftover. decode_withdrawal_items" valid_withdrawal
  by unfold_locales (simp_all add: decode_withdrawal_items_iff)

interpretation rlp_withdrawal: rlp_codec encode_withdrawal length_withdrawal decode_withdrawal
  valid_withdrawal
proof (rule rlp_codecI)
  have e: "encode_withdrawal w = encode_list_of withdrawal_items (\<lambda>w. length (withdrawal_items w)) w"
    for w
    using withdrawal_header_eq [of w]
    by (cases "withdrawal_header w") (simp add: encode_withdrawal_def encode_list_of_def withdrawal_items_def)
  show "decode_withdrawal from mode = Inr (w, rest) \<longleftrightarrow>
      valid_withdrawal w \<and> from = encode_withdrawal w @ rest \<and> (mode = KAllow \<or> rest = [])"
    for "from" mode w rest
    using withdrawal_items_small [of w]
    by (auto simp: decode_withdrawal_def withdrawal_list.decode_list_with_iff e valid_list_of_def)
qed (simp_all add: length_withdrawal_def encode_withdrawal_def withdrawal_header_eq length_laws,
    simp add: withdrawal_items_def length_laws)

interpretation rlp_withdrawals: rlp_codec "encode_vector encode_withdrawal length_withdrawal"
  "length_vector length_withdrawal" "decode_vector decode_withdrawal"
  "valid_vector valid_withdrawal length_withdrawal"
  by (rule rlp_withdrawal.vector_codec)

section \<open>Signatures\<close>

text \<open>The chain ids that can be folded into a 256-bit \<open>v\<close> without wrapping.\<close>

definition chain_id_fits :: "bool \<Rightarrow> u256 option \<Rightarrow> bool" where
  "chain_id_fits odd_y chain_id =
     (case chain_id of None \<Rightarrow> True | Some c \<Rightarrow> unat c * 2 + 35 + of_bool odd_y < 2 ^ 256)"

lemma unat_v_Some:
  "chain_id_fits odd_y (Some c) \<Longrightarrow>
   unat (y_parity_and_chain_id_to_v odd_y (Some c)) = unat c * 2 + 35 + of_bool odd_y"
  by (cases odd_y) (simp_all add: y_parity_and_chain_id_to_v_def chain_id_fits_def unat_word_ariths)

lemma word_odd_iff: "(ucast (w :: u256) :: u64) mod 2 \<noteq> 0 \<longleftrightarrow> odd (unat w)"
proof -
  have "(ucast w :: u64) mod 2 \<noteq> 0 \<longleftrightarrow> bit (ucast w :: u64) 0"
    by (simp add: bit_0 odd_iff_mod_2_eq_one)
  also have "\<dots> \<longleftrightarrow> bit (unat w) 0"
    by (simp add: bit_unsigned_iff del: bit_0)
  finally show ?thesis by (simp add: bit_0)
qed

lemma unat_half: "unat (drop_bit 1 (w :: u256)) = unat w div 2"
  using unat_drop_bit_div [of 1 w] by (simp only: power_one_right)

lemma unat_less_u256: "unat (w :: u256) < 2 ^ 256"
  using unsigned_less [of w, where 'a = nat] by simp

lemma v_to_high:
  assumes "35 \<le> unat v"
  shows "v_to_y_parity_and_chain_id v = Some (odd_y, Some c) \<longleftrightarrow>
           unat v = unat c * 2 + 35 + of_bool odd_y"
proof -
  have le: "35 \<le> v"
    using assms by (simp add: word_le_nat_alt)
  then have u: "unat (v - 35) = unat v - 35"
    by (simp add: unat_sub)
  have n: "v \<noteq> 27" "v \<noteq> 28" "\<not> v < 35"
    using assms le by auto
  have d: "drop_bit 1 (v - 35) = c \<longleftrightarrow> (unat v - 35) div 2 = unat c"
    unfolding word_unat_eq_iff unat_half u ..
  have "v_to_y_parity_and_chain_id v = Some (odd_y, Some c) \<longleftrightarrow>
      ((ucast (v - 35) :: u64) mod 2 \<noteq> 0) = odd_y \<and> drop_bit 1 (v - 35) = c"
    by (simp only: v_to_y_parity_and_chain_id_def n if_False simp_thms Let_def option.inject
        prod.inject)
  also have "\<dots> \<longleftrightarrow> odd (unat v - 35) = odd_y \<and> (unat v - 35) div 2 = unat c"
    unfolding word_odd_iff d u ..
  also have "\<dots> \<longleftrightarrow> unat v = unat c * 2 + 35 + of_bool odd_y"
    using assms by (cases odd_y) (simp_all, presburger+)
  finally show ?thesis .
qed

text \<open>Reading \<open>v\<close> inverts writing it, and nothing else is read.\<close>

lemma v_to_iff:
  "v_to_y_parity_and_chain_id v = Some (odd_y, chain_id) \<longleftrightarrow>
     chain_id_fits odd_y chain_id \<and> v = y_parity_and_chain_id_to_v odd_y chain_id"
proof (cases chain_id)
  case None
  then show ?thesis
    by (auto simp: v_to_y_parity_and_chain_id_def y_parity_and_chain_id_to_v_def chain_id_fits_def
        Let_def split: if_splits)
next
  case (Some c)
  have fits: "v = y_parity_and_chain_id_to_v odd_y (Some c) \<longleftrightarrow> unat v = unat c * 2 + 35 + of_bool odd_y"
    if "chain_id_fits odd_y (Some c)"
    using unat_v_Some [OF that] by (simp add: word_unat_eq_iff)
  show ?thesis
  proof (cases "35 \<le> unat v")
    case True
    have "chain_id_fits odd_y (Some c)" if "unat v = unat c * 2 + 35 + of_bool odd_y"
      using that unat_less_u256 [of v] by (simp add: chain_id_fits_def)
    then show ?thesis
      using v_to_high [OF True] fits Some by auto
  next
    case False
    then have "v < 35" by (simp add: word_less_nat_alt)
    then have "v_to_y_parity_and_chain_id v \<noteq> Some (odd_y, Some c)"
      by (simp add: v_to_y_parity_and_chain_id_def)
    moreover have "unat v \<noteq> unat c * 2 + 35 + of_bool odd_y"
      using False by linarith
    ultimately show ?thesis
      using fits Some by auto
  qed
qed

lemma v_to_None_iff: "v_to_y_parity_and_chain_id v = None \<longleftrightarrow> v < 35 \<and> v \<noteq> 27 \<and> v \<noteq> 28"
  by (simp add: v_to_y_parity_and_chain_id_def Let_def)

lemma bytes_to_address_length [simp]: "length (bytes_to_address bs) = 20"
  by (simp add: bytes_to_address_def kAddressLength_def Let_def)

lemma to_bytes32_length [simp]: "length (to_bytes32 bs) = 32"
  by (simp add: to_bytes32_def kHashLength_def Let_def)

section \<open>Properties\<close>

text \<open>
  the \<open>v\<close> of a legacy signature and the pair of parity and chain id determine one another:
  reading \<open>v\<close> yields a pair precisely when writing that pair yields \<open>v\<close> without wrapping, and \<open>v\<close> is
  rejected precisely for the values below 35 other than 27 and 28.
\<close>

theorem signature_v_exact:
  "(v_to_y_parity_and_chain_id v = Some (odd_y, chain_id) \<longleftrightarrow>
      chain_id_fits odd_y chain_id \<and> v = y_parity_and_chain_id_to_v odd_y chain_id) \<and>
   (v_to_y_parity_and_chain_id v = None \<longleftrightarrow> v < 35 \<and> v \<noteq> 27 \<and> v \<noteq> 28)"
  by (simp only: v_to_iff v_to_None_iff)

text \<open>
  \<open>is_valid_signature\<close> accepts precisely the signatures with \<open>r\<close> and \<open>s\<close> between 1 and the group
  order, and from Homestead on \<open>s\<close> at most half of it: of \<open>s\<close> and its negation modulo the order, which
  sign the same message, exactly one is then accepted.
\<close>

theorem signature_malleability:
  "is_valid_signature r s False \<Longrightarrow>
   is_valid_signature r s True \<longleftrightarrow> \<not> is_valid_signature r (kSecp256k1n - s) True"
proof -
  assume a: "is_valid_signature r s False"
  let ?n = "unat kSecp256k1n"
  have n: "?n = 0xfffffffffffffffffffffffffffffffebaaedce6af48a03bbfd25e8cd0364141"
    by (simp add: kSecp256k1n_def)
  have h: "unat kSecp256k1Halfn = ?n div 2"
    unfolding kSecp256k1Halfn_def by (rule unat_half)
  have s: "s \<noteq> 0" "s < kSecp256k1n" "0 < unat s" "unat s < ?n"
    using a by (auto simp: is_valid_signature_def word_le_nat_alt word_less_nat_alt unat_gt_0
        split: if_splits)
  then have d: "unat (kSecp256k1n - s) = ?n - unat s"
    by (simp add: unat_sub less_imp_le)
  have 1: "is_valid_signature r s True \<longleftrightarrow> unat s \<le> ?n div 2"
    using a h by (auto simp: is_valid_signature_def word_less_nat_alt split: if_splits)
  have "kSecp256k1n - s \<noteq> 0"
    using s(2) by auto
  then have "is_valid_signature r (kSecp256k1n - s) True \<longleftrightarrow> ?n - unat s \<le> ?n div 2"
    using a h d s(3,4) by (auto simp: is_valid_signature_def word_le_nat_alt word_less_nat_alt split: if_splits)
  moreover have "unat s \<le> ?n div 2 \<longleftrightarrow> \<not> ?n - unat s \<le> ?n div 2"
    using s(3,4) unfolding n by auto
  ultimately show ?thesis
    using 1 by simp
qed

theorem signature_malleability_witness:
  "is_valid_signature 1 1 True \<and> \<not> is_valid_signature 1 (kSecp256k1n - 1) True"
proof -
  have "is_valid_signature 1 1 False" "is_valid_signature 1 1 True"
    unfolding is_valid_signature_def kSecp256k1Halfn_def word_le_nat_alt word_less_nat_alt unat_half
    by (simp_all add: kSecp256k1n_def)
  then show ?thesis
    using signature_malleability [of 1 1] by simp
qed

end
