(* ===== verification/Account.thy ===== *)
theory Account
  imports Types_Basic
begin

text \<open>
  The account record of the witness (types_zz/account.hpp, types_zz/account.cpp): its fields, the
  encoder of the account leaf in its generic form and in the word-at-a-time form of the 32-bit guests,
  the cached encoding with its patched storage root, and the decoder of a leaf.
\<close>

section \<open>The record\<close>

text \<open>
  \<open>Slot\<close> and \<open>Account\<close>. The balance is the native-endian integer. The slots of a record lie in memory
  right after it; here they are a field of it, of which \<open>slot_count\<close> are in use (\<open>slots_for\<close>).
\<close>

record slot =
  slot_key :: bytes32
  slot_initial :: bytes32
  slot_current :: bytes32

record account =
  acc_addr :: address
  acc_deleted :: bool
  acc_rlp_len :: byte
  acc_rlp_sroot_off :: byte
  acc_modified :: bool
  acc_nonce :: u64
  acc_balance :: u256
  acc_code_hash :: bytes32
  acc_storage_root :: bytes32
  acc_code_store_offset :: u32
  acc_code_store_len :: u32
  acc_slot_count :: u32
  acc_rlp_buf :: bytes
  acc_absent_reads :: u32
  acc_slots :: "slot list"

definition kAccRlpBufSize :: nat where "kAccRlpBufSize = 112"

section \<open>Encoding\<close>

text \<open>
  \<open>encode_account_into\<close>: the bytes written from \<open>dst\<close> on, whose number is \<open>len\<close>, and \<open>sroot_off\<close>.
\<close>

definition encode_account_into :: "account \<Rightarrow> bytes32 \<Rightarrow> bytes \<times> byte" where
  "encode_account_into a storage_root =
     (let payload_len = length_uint (acc_nonce a) + length_uint (acc_balance a) + (32 + 1) + (32 + 1);
          len_be = to_big_compact (of_nat payload_len :: u64);
          before_root = (0xF7 + of_nat (length len_be)) # len_be
            @ encode_uint_into (acc_nonce a) @ encode_uint_into (acc_balance a);
          sroot_off = of_nat (length before_root)
      in (before_root @ 0xA0 # storage_root @ 0xA0 # acc_code_hash a, sroot_off))"

text \<open>The 32-bit guests: the little-endian words of an integer or of a hash.\<close>

definition words_of :: "nat \<Rightarrow> 'a::len word \<Rightarrow> u32 list" where
  "words_of k n = map (\<lambda>i. ucast (drop_bit (32 * i) n)) [0..<k]"

fun hash_words :: "bytes \<Rightarrow> u32 list" where
  "hash_words (b0 # b1 # b2 # b3 # bs) = load_little [b0, b1, b2, b3] # hash_words bs"
| "hash_words bs = []"

definition word_be :: "u32 \<Rightarrow> bytes" where
  "word_be w = [ucast (drop_bit 24 w), ucast (drop_bit 16 w), ucast (drop_bit 8 w), ucast w]"

definition word_le :: "u32 \<Rightarrow> bytes" where
  "word_le w = [ucast w, ucast (drop_bit 8 w), ucast (drop_bit 16 w), ucast (drop_bit 24 w)]"

text \<open>\<open>while (t >= 0 && w[t] == 0) --t\<close>, counting \<open>t + 1\<close> words.\<close>

fun used_words :: "u32 list \<Rightarrow> nat \<Rightarrow> nat" where
  "used_words w 0 = 0"
| "used_words w (Suc t) = (if w ! t = 0 then used_words w t else Suc t)"

definition put_uint_words :: "u32 list \<Rightarrow> bytes" where
  "put_uint_words w =
     (let start = if length w > 2 \<and> foldl (OR) 0 (drop 2 w) = 0 then 2 else length w;
          n = used_words w start
      in if n = 0 then [0x80]
         else let t = n - 1; hi = w ! t
              in if t = 0 \<and> hi < 0x80 then [ucast hi]
                 else let top_bytes = if hi \<ge> 0x10000 then (if hi \<ge> 0x1000000 then 4 else 3)
                                      else (if hi \<ge> 0x100 then 2 else 1 :: nat)
                      in (0x80 + of_nat (4 * t + top_bytes)) # drop (4 - top_bytes) (word_be hi)
                           @ concat (map word_be (rev (take t w))))"

fun shift_words :: "nat \<Rightarrow> u32 \<Rightarrow> u32 list \<Rightarrow> u32 list \<times> u32" where
  "shift_words rs v [] = ([], v)"
| "shift_words rs v (w # ws) =
     (let (out, v') = shift_words rs (drop_bit rs w) ws in ((v OR push_bit (32 - rs) w) # out, v'))"

text \<open>\<open>put_hash_words\<close>, for a destination that is \<open>off\<close> bytes past a word boundary after the tag.\<close>

definition put_hash_words :: "nat \<Rightarrow> u32 list \<Rightarrow> bytes" where
  "put_hash_words off s =
     0xA0 # (if off = 0 then concat (map word_le s)
             else let lead = 4 - off;
                      (words, v) = shift_words (8 * lead) (drop_bit (8 * lead) (hd s)) (tl s)
                  in take lead (word_le (hd s)) @ concat (map word_le words) @ take off (word_le v))"

text \<open>
  The encoder of the 32-bit guests, for a buffer at an address of remainder \<open>base\<close> modulo 4 and a
  storage root that is or is not word-aligned.
\<close>

definition encode_account_into_words :: "nat \<Rightarrow> bool \<Rightarrow> account \<Rightarrow> bytes32 \<Rightarrow> bytes \<times> byte" where
  "encode_account_into_words base aligned a storage_root =
     (let ints = put_uint_words (words_of 2 (acc_nonce a)) @ put_uint_words (words_of 8 (acc_balance a));
          sroot_off = 2 + length ints;
          root = if aligned then put_hash_words ((base + sroot_off + 1) mod 4) (hash_words storage_root)
                 else 0xA0 # storage_root;
          code = put_hash_words ((base + sroot_off + 33 + 1) mod 4) (hash_words (acc_code_hash a));
          len = of_nat (sroot_off + length root + length code) :: byte
      in (0xF8 # (len - 2) # ints @ root @ code, of_nat sroot_off))"

section \<open>The cached encoding\<close>

definition rlp_into :: "account \<Rightarrow> bytes32 \<Rightarrow> bytes" where
  "rlp_into a storage_root_arg =
     (if acc_rlp_sroot_off a \<noteq> 0 \<and> acc_rlp_len a \<noteq> 0 \<and> unat (acc_rlp_len a) \<le> kAccRlpBufSize \<and>
         unat (acc_rlp_sroot_off a) + 1 + 32 \<le> unat (acc_rlp_len a)
      then let off = unat (acc_rlp_sroot_off a) + 1; buf = take (unat (acc_rlp_len a)) (acc_rlp_buf a)
           in take off buf @ storage_root_arg @ drop (off + 32) buf
      else fst (encode_account_into a storage_root_arg))"

definition account_rlp :: "account \<Rightarrow> bytes32 \<Rightarrow> bytes" where
  "account_rlp a storage_root_arg =
     (let out = replicate kAccRlpBufSize 0; written = rlp_into a storage_root_arg; n = length written
      in take n (written @ drop n out))"

definition rlp_into_cache :: "account \<Rightarrow> bytes32 \<Rightarrow> account" where
  "rlp_into_cache a storage_root_arg =
     (let (enc, sroot_off) = encode_account_into a storage_root_arg
      in a\<lparr>acc_rlp_buf := enc @ drop (length enc) (acc_rlp_buf a), acc_rlp_len := of_nat (length enc),
           acc_rlp_sroot_off := sroot_off\<rparr>)"

definition rlp_into_own_cache :: "account \<Rightarrow> account" where
  "rlp_into_own_cache a = rlp_into_cache a (acc_storage_root a)"

section \<open>Decoding a leaf\<close>

definition decode_trie_account :: "bytes \<Rightarrow> account \<Rightarrow> account option" where
  "decode_trie_account leaf_value a =
     (case rbind (decode_header leaf_value) (\<lambda>(outer, rest).
             if \<not> is_list outer then Inl KUnexpectedString
             else rbind (decode_uint (take (payload_length outer) rest) KAllow) (\<lambda>(nonce, body).
                  rbind (decode_uint body KAllow) (\<lambda>(balance_v, body).
                  rbind (decode_array 32 body KAllow) (\<lambda>(storage_root_v, body).
                  rbind (decode_array 32 body KAllow) (\<lambda>(code_hash_v, body).
                    Inr (a\<lparr>acc_nonce := nonce, acc_balance := balance_v, acc_storage_root := storage_root_v,
                           acc_code_hash := code_hash_v\<rparr>)))))) of
        Inl _ \<Rightarrow> None
      | Inr a \<Rightarrow> Some a)"


section \<open>The generic encoder writes the RLP list of the leaf\<close>

definition account_items :: "account \<Rightarrow> bytes32 \<Rightarrow> bytes" where
  "account_items a root =
     encode_uint (acc_nonce a) @ encode_uint (acc_balance a) @ encode_bytes root @ encode_bytes (acc_code_hash a)"

definition hashes_sized :: "account \<Rightarrow> bytes32 \<Rightarrow> bool" where
  "hashes_sized a root \<longleftrightarrow> length root = 32 \<and> length (acc_code_hash a) = 32"

definition account_leaf :: "account \<Rightarrow> bytes32 \<Rightarrow> bytes" where
  "account_leaf a root = encode_header \<lparr>is_list = True, payload_length = length (account_items a root)\<rparr>
     @ account_items a root"

lemma encode_bytes_hash: "length h = 32 \<Longrightarrow> encode_bytes h = 0xA0 # h"
  by (simp add: encode_bytes_def encode_header_def rlp_codes)

lemma encode_uint_into_u64: "encode_uint_into (n :: u64) = encode_uint n"
  by (rule encode_uint_into_eq) simp_all

lemma encode_uint_into_u256: "encode_uint_into (n :: u256) = encode_uint n"
  by (rule encode_uint_into_eq) simp_all

lemma encode_uint_sizes:
  "length (encode_uint (n :: u64)) \<le> 9" "length (encode_uint (m :: u256)) \<le> 33"
  "0 < length (encode_uint (n :: u64))" "0 < length (encode_uint (m :: u256))"
  using length_uint_u64_le [of n] length_uint_u256_le [of m]
  by (simp_all add: length_laws) (simp_all add: length_uint_def Let_def)

lemma account_items_length:
  assumes "hashes_sized a root"
  shows "length (account_items a root) = length_uint (acc_nonce a) + length_uint (acc_balance a) + 33 + 33"
    and "length (account_items a root) \<le> 108" "68 \<le> length (account_items a root)"
  using assms encode_uint_sizes(1,3) [of "acc_nonce a"] encode_uint_sizes(2,4) [of "acc_balance a"]
  by (simp_all add: account_items_def hashes_sized_def encode_bytes_hash length_laws length_bytes_short)

lemma encode_account_into_eq:
  assumes "hashes_sized a root"
  shows "encode_account_into a root =
    (account_leaf a root,
     of_nat (length (encode_header \<lparr>is_list = True, payload_length = length (account_items a root)\<rparr>)
       + length (encode_uint (acc_nonce a)) + length (encode_uint (acc_balance a))))"
proof -
  let ?n = "length (account_items a root)"
  have n: "length_uint (acc_nonce a) + length_uint (acc_balance a) + (32 + 1) + (32 + 1) = ?n" "\<not> ?n < 56"
    using account_items_length [OF assms] by simp_all
  have h: "encode_header \<lparr>is_list = True, payload_length = ?n\<rparr> =
      (0xF7 + of_nat (length (to_big_compact (of_nat ?n :: u64)))) # to_big_compact (of_nat ?n :: u64)"
    using n(2) by (simp add: encode_header_def Let_def)
  have i: "account_items a root = encode_uint (acc_nonce a) @ encode_uint (acc_balance a)
      @ 0xA0 # root @ 0xA0 # acc_code_hash a"
    using assms by (simp add: account_items_def hashes_sized_def encode_bytes_hash)
  show ?thesis
    unfolding encode_account_into_def account_leaf_def n(1) h Let_def encode_uint_into_u64 encode_uint_into_u256
    by (subst (5) i) simp
qed

lemma account_header:
  assumes "hashes_sized a root"
  shows "encode_header \<lparr>is_list = True, payload_length = length (account_items a root)\<rparr>
    = [0xF8, of_nat (length (account_items a root))]"
proof -
  let ?n = "length (account_items a root)"
  have n: "56 \<le> ?n" "0 < ?n" "?n < 2 ^ 64" "?n div 256 = 0" "?n < 256"
    using account_items_length [OF assms] by auto
  have s: "sig_bytes ?n = Suc 0"
    unfolding sig_bytes_pos [OF n(2)] n(4) by simp
  then have "be_compact ?n = [of_nat ?n]"
    unfolding be_compact_eq_iff using n by (auto simp: unat_of_nat word_unat_eq_iff)
  then show ?thesis
    unfolding encode_header_long [OF n(1,3)] s by simp
qed

definition sroot_off :: "account \<Rightarrow> nat" where
  "sroot_off a = 2 + length (encode_uint (acc_nonce a)) + length (encode_uint (acc_balance a))"

lemma encode_account_into_off:
  "hashes_sized a root \<Longrightarrow> encode_account_into a root = (account_leaf a root, of_nat (sroot_off a))"
  by (simp add: encode_account_into_eq account_header sroot_off_def)

lemma account_leaf_split:
  assumes "hashes_sized a root"
  shows "account_leaf a root = 0xF8 # of_nat (length (account_items a root)) # encode_uint (acc_nonce a)
    @ encode_uint (acc_balance a) @ 0xA0 # root @ 0xA0 # acc_code_hash a"
  using assms unfolding account_leaf_def account_header [OF assms]
  by (simp add: account_items_def hashes_sized_def encode_bytes_hash)

lemma sroot_off_bounds: "sroot_off a \<le> 44" "4 \<le> sroot_off a"
  using encode_uint_sizes(1,3) [of "acc_nonce a"] encode_uint_sizes(2,4) [of "acc_balance a"]
  unfolding sroot_off_def by linarith+

lemma account_leaf_length:
  assumes "hashes_sized a root"
  shows "length (account_leaf a root) = sroot_off a + 66" "length (account_leaf a root) \<le> 110"
  using assms sroot_off_bounds [of a] by (simp_all add: account_leaf_split sroot_off_def hashes_sized_def)

lemma account_items_length_root:
  "length r = 32 \<Longrightarrow> length r' = 32 \<Longrightarrow> length (account_items a r) = length (account_items a r')"
  by (simp add: account_items_def encode_bytes_hash)

section \<open>The cache\<close>

text \<open>A stamped cache holds the leaf of the account with some storage root.\<close>

definition cache_ok :: "account \<Rightarrow> bool" where
  "cache_ok a \<longleftrightarrow>
     acc_rlp_sroot_off a = 0 \<or>
     (\<exists>root. length root = 32 \<and> unat (acc_rlp_len a) = length (account_leaf a root) \<and>
             unat (acc_rlp_sroot_off a) = sroot_off a \<and>
             take (unat (acc_rlp_len a)) (acc_rlp_buf a) = account_leaf a root)"

lemma patch_root:
  assumes "hashes_sized a r" "hashes_sized a r'" "off = sroot_off a + 1"
  shows "take off (account_leaf a r) @ r' @ drop (off + 32) (account_leaf a r) = account_leaf a r'"
proof -
  define pre where "pre = 0xF8 # of_nat (length (account_items a r)) # encode_uint (acc_nonce a)
    @ encode_uint (acc_balance a) @ [0xA0]"
  have r: "account_leaf a r = pre @ r @ 0xA0 # acc_code_hash a"
    using account_leaf_split [OF assms(1)] by (simp add: pre_def)
  have r': "account_leaf a r' = pre @ r' @ 0xA0 # acc_code_hash a"
    using account_leaf_split [OF assms(2)] account_items_length_root [of r r' a] assms(1,2)
    by (simp add: pre_def hashes_sized_def)
  have "length pre = off" "length r = 32"
    using assms by (simp_all add: pre_def sroot_off_def hashes_sized_def)
  then show ?thesis
    unfolding r r' by simp
qed

lemma rlp_into_eq:
  assumes "hashes_sized a root" "cache_ok a"
  shows "rlp_into a root = account_leaf a root"
proof (cases "acc_rlp_sroot_off a = 0")
  case True
  then show ?thesis
    using assms by (simp add: rlp_into_def encode_account_into_off)
next
  case False
  then obtain old where old: "length old = 32" "unat (acc_rlp_len a) = length (account_leaf a old)"
    "unat (acc_rlp_sroot_off a) = sroot_off a" "take (unat (acc_rlp_len a)) (acc_rlp_buf a) = account_leaf a old"
    using assms(2) by (auto simp: cache_ok_def)
  have h: "hashes_sized a old"
    using assms(1) old(1) by (simp add: hashes_sized_def)
  note l = account_leaf_length [OF h] sroot_off_bounds [of a]
  have "acc_rlp_len a \<noteq> 0"
    using old(2) l(1) by (auto simp: unat_eq_0)
  then show ?thesis
    unfolding rlp_into_def Let_def old(4)
    using False old(2,3) l patch_root [OF h assms(1) refl] by (simp add: kAccRlpBufSize_def)
qed

lemma rlp_into_cache_fields:
  assumes "hashes_sized a root"
  defines "c \<equiv> rlp_into_cache a root"
  shows "account_leaf c = account_leaf a" "sroot_off c = sroot_off a"
    "unat (acc_rlp_len c) = length (account_leaf a root)" "unat (acc_rlp_sroot_off c) = sroot_off a"
    "take (length (account_leaf a root)) (acc_rlp_buf c) = account_leaf a root"
proof -
  have s: "unat (of_nat n :: byte) = n" if "n \<le> 110" for n
    using that by (simp add: unat_of_nat)
  have c: "c = a\<lparr>acc_rlp_buf := account_leaf a root @ drop (length (account_leaf a root)) (acc_rlp_buf a),
      acc_rlp_len := of_nat (length (account_leaf a root)), acc_rlp_sroot_off := of_nat (sroot_off a)\<rparr>"
    by (simp only: c_def rlp_into_cache_def encode_account_into_off [OF assms(1)] Let_def prod.case)
  show "account_leaf c = account_leaf a" "sroot_off c = sroot_off a"
    by (simp_all add: c fun_eq_iff account_leaf_def account_items_def sroot_off_def)
  show "unat (acc_rlp_len c) = length (account_leaf a root)"
    unfolding c using s [OF account_leaf_length(2) [OF assms(1)]] by (simp del: unat_of_nat_byte)
  show "unat (acc_rlp_sroot_off c) = sroot_off a"
    unfolding c using s [of "sroot_off a"] sroot_off_bounds [of a] by (simp del: unat_of_nat_byte)
  show "take (length (account_leaf a root)) (acc_rlp_buf c) = account_leaf a root"
    by (simp add: c)
qed

lemma rlp_into_cache_ok:
  assumes "hashes_sized a root"
  shows "cache_ok (rlp_into_cache a root)"
  using rlp_into_cache_fields [OF assms] assms unfolding cache_ok_def hashes_sized_def by metis

lemma account_rlp_eq: "account_rlp a root = rlp_into a root"
  by (simp add: account_rlp_def Let_def)

section \<open>Decoding\<close>

lemma decode_trie_account_leaf:
  assumes "hashes_sized a root"
  shows "decode_trie_account (account_leaf a root @ rest) b =
    Some (b\<lparr>acc_nonce := acc_nonce a, acc_balance := acc_balance a, acc_storage_root := root,
            acc_code_hash := acc_code_hash a\<rparr>)"
proof -
  let ?h = "\<lparr>is_list = True, payload_length = length (account_items a root)\<rparr>"
  have d: "decode_header (account_leaf a root @ rest) = Inr (?h, account_items a root @ rest)"
    using account_items_length [OF assms] unfolding account_leaf_def
    by (simp add: decode_header_iff canonical_header_def)
  have items: "decode_uint (account_items a root) KAllow =
      Inr (acc_nonce a, encode_uint (acc_balance a) @ encode_bytes root @ encode_bytes (acc_code_hash a))"
    "decode_uint (encode_uint (acc_balance a) @ encode_bytes root @ encode_bytes (acc_code_hash a)) KAllow =
      Inr (acc_balance a, encode_bytes root @ encode_bytes (acc_code_hash a))"
    "decode_array 32 (encode_bytes root @ encode_bytes (acc_code_hash a)) KAllow =
      Inr (root, encode_bytes (acc_code_hash a))"
    "decode_array 32 (encode_bytes (acc_code_hash a)) KAllow = Inr (acc_code_hash a, [])"
    using assms by (simp_all add: account_items_def basic_codec_laws hashes_sized_def)
  show ?thesis
    by (simp add: decode_trie_account_def d items)
qed


section \<open>The word encoder\<close>

fun words_val :: "u32 list \<Rightarrow> nat" where
  "words_val [] = 0"
| "words_val (w # ws) = unat w + 2 ^ 32 * words_val ws"

lemma words_val_append: "words_val (xs @ ys) = words_val xs + 2 ^ (32 * length xs) * words_val ys"
  by (induction xs) (auto simp: algebra_simps power_add)

lemma words_val_replicate_0 [simp]: "words_val (replicate k 0) = 0"
  by (induction k) auto

lemma words_val_words_of:
  fixes n :: "'a::len word"
  assumes "LENGTH('a) \<le> 32 * k"
  shows "words_val (words_of k n) = unat n"
proof -
  have "words_val (map (\<lambda>i. ucast (drop_bit (32 * i) n)) [0..<k]) = unat n mod 2 ^ (32 * k)" for k
  proof (induction k)
    case (Suc k)
    have "unat (ucast (drop_bit (32 * k) n) :: u32) = (unat n div 2 ^ (32 * k)) mod 2 ^ 32"
      by (simp add: unsigned_ucast_eq take_bit_eq_mod unat_drop_bit_div del: unsigned_drop_bit_eq)
    moreover have "unat n mod 2 ^ (32 * Suc k) = unat n mod 2 ^ (32 * k) + 2 ^ (32 * k) * (unat n div 2 ^ (32 * k) mod 2 ^ 32)"
      by (metis add.commute mod_mult2_eq mult_Suc_right power_add)
    ultimately show ?case
      using Suc by (simp add: words_val_append)
  qed simp
  moreover have "unat n < 2 ^ (32 * k)"
    using unsigned_less [of n] assms by (meson less_le_trans one_le_numeral power_increasing)
  ultimately show ?thesis
    by (simp add: words_of_def)
qed

lemma ucast_byte_of_nat: "(ucast (w :: u32) :: byte) = of_nat (unat w)"
  by (simp add: word_unat_eq_iff unsigned_ucast_eq take_bit_eq_mod unat_of_nat)

lemma of_nat_mod_256: "(of_nat (n mod 256) :: byte) = of_nat n"
  by (simp add: word_unat_eq_iff)

lemma word_be_be_bytes: "word_be w = be_bytes 4 (unat w)"
proof -
  have "be_bytes 4 (unat w) = map of_nat [unat w div 256 div 256 div 256, unat w div 256 div 256, unat w div 256, unat w]"
    by (simp add: be_bytes_numeral of_nat_mod_256)
  moreover have "word_be w = map of_nat [unat w div 2 ^ 24, unat w div 2 ^ 16, unat w div 2 ^ 8, unat w]"
    by (simp only: word_be_def ucast_byte_of_nat unat_drop_bit_div list.map)
  ultimately show ?thesis
    by (simp add: div_mult2_eq [symmetric])
qed

lemma be_nat_word_be: "be_nat (word_be w) = unat w"
proof -
  have "unat w < 256 ^ 4"
    using unsigned_less [of w] by simp
  then show ?thesis
    by (simp only: word_be_be_bytes be_nat_be_bytes mod_less)
qed

lemma nat_bytes:
  fixes n :: nat
  shows "n div 65536 * 65536 + (n div 256 mod 256 * 256 + n mod 256) = n"
    "n div 16777216 * 16777216 + (n div 65536 mod 256 * 65536 + (n div 256 mod 256 * 256 + n mod 256)) = n"
proof -
  have d: "n div 65536 = n div 256 div 256" "n div 16777216 = n div 256 div 256 div 256"
    by (simp_all add: div_mult2_eq [symmetric])
  have "n = n div 256 * 256 + n mod 256" "n div 256 = n div 256 div 256 * 256 + n div 256 mod 256"
    "n div 256 div 256 = n div 256 div 256 div 256 * 256 + n div 256 div 256 mod 256"
    by (simp_all only: div_mult_mod_eq)
  then show "n div 65536 * 65536 + (n div 256 mod 256 * 256 + n mod 256) = n"
    "n div 16777216 * 16777216 + (n div 65536 mod 256 * 65536 + (n div 256 mod 256 * 256 + n mod 256)) = n"
    unfolding d by linarith+
qed

lemma length_word_be [simp]: "length (word_be w) = 4" "length (word_le w) = 4"
  by (simp_all add: word_be_def word_le_def)

lemma be_nat_words: "be_nat (concat (map word_be (rev ws))) = words_val ws"
  by (induction ws) (auto simp: be_nat_append be_nat_word_be)

lemma length_concat_words: "length (concat (map word_be ws)) = 4 * length ws"
  by (induction ws) auto

lemma used_words_le: "used_words w n \<le> n"
  by (induction n) auto

lemma used_words_top: "0 < used_words w n \<Longrightarrow> w ! (used_words w n - 1) \<noteq> 0"
  by (induction n) auto

lemma words_val_used:
  "n \<le> length w \<Longrightarrow> words_val (take (used_words w n) w) = words_val (take n w)"
proof (induction n)
  case (Suc n)
  then have "take (Suc n) w = take n w @ [w ! n]"
    by (simp add: take_Suc_conv_app_nth)
  with Suc show ?case
    by (auto simp: words_val_append)
qed simp

lemma foldl_or_eq_0: "foldl (OR) (v :: u32) ws = 0 \<longleftrightarrow> v = 0 \<and> (\<forall>w \<in> set ws. w = 0)"
proof (induction ws arbitrary: v)
  case (Cons w ws)
  have "v OR w = 0 \<longleftrightarrow> v = 0 \<and> w = 0"
    by (auto simp: bit_eq_iff bit_simps)
  with Cons show ?case by auto
qed simp

lemma words_val_low:
  assumes "2 < length w" "foldl (OR) 0 (drop 2 w) = 0"
  shows "words_val (take 2 w) = words_val w"
proof -
  have "drop 2 w = replicate (length (drop 2 w)) 0"
    using assms(2) foldl_or_eq_0 by (metis replicate_length_same)
  then have "words_val (drop 2 w) = 0"
    by (metis words_val_replicate_0)
  then show ?thesis
    using words_val_append [of "take 2 w" "drop 2 w"] by simp
qed


text \<open>The bytes kept of the hi word: as many as it needs.\<close>

definition top_bytes :: "u32 \<Rightarrow> nat" where
  "top_bytes hi = (if hi \<ge> 0x10000 then (if hi \<ge> 0x1000000 then 4 else 3) else (if hi \<ge> 0x100 then 2 else 1))"

lemma top_word_bytes:
  assumes "hi \<noteq> 0"
  shows "be_nat (drop (4 - top_bytes hi) (word_be hi)) = unat hi"
    "hd (drop (4 - top_bytes hi) (word_be hi)) \<noteq> 0" "top_bytes hi \<in> {1, 2, 3, 4}"
proof -
  define n where "n = unat hi"
  have n: "n < 2 ^ 32" "0 < n"
    using assms unsigned_less [of hi] by (simp_all add: n_def unat_gt_0)
  have cmp: "hi \<ge> 0x10000 \<longleftrightarrow> n \<ge> 0x10000" "hi \<ge> 0x1000000 \<longleftrightarrow> n \<ge> 0x1000000" "hi \<ge> 0x100 \<longleftrightarrow> n \<ge> 0x100"
    by (simp_all add: n_def word_le_nat_alt)
  have w: "word_be hi = [of_nat (n div 2 ^ 24), of_nat (n div 2 ^ 16), of_nat (n div 2 ^ 8), of_nat n]"
    by (simp add: word_be_def n_def word_unat_eq_iff unsigned_ucast_eq take_bit_eq_mod unat_drop_bit_div
        del: unsigned_drop_bit_eq)
  show "top_bytes hi \<in> {1, 2, 3, 4}"
    by (simp add: top_bytes_def)
  show "be_nat (drop (4 - top_bytes hi) (word_be hi)) = unat hi"
    unfolding w top_bytes_def cmp n_def [symmetric] using n by (auto simp: be_nat_Cons nat_bytes)
  show "hd (drop (4 - top_bytes hi) (word_be hi)) \<noteq> 0"
    unfolding w top_bytes_def cmp using n by (auto simp: word_unat_eq_iff)
qed

lemma put_uint_words_eq:
  fixes n :: "'a::len word"
  assumes "64 dvd LENGTH('a)" "LENGTH('a) = 32 * k" "k \<le> 8"
  shows "put_uint_words (words_of k n) = encode_uint_into n"
proof -
  define w where "w = words_of k n"
  define start where "start = (if length w > 2 \<and> foldl (OR) 0 (drop 2 w) = 0 then 2 else length w)"
  define m where "m = used_words w start"
  have len: "length w = k" and val: "words_val w = unat n"
    using words_val_words_of [of k n] assms(2) by (simp_all add: w_def words_of_def)
  have st: "start \<le> length w" "words_val (take start w) = unat n"
    using words_val_low [of w] val by (auto simp: start_def)
  have m: "m \<le> length w" "words_val (take m w) = unat n"
    using used_words_le [of w start] words_val_used [of start w] st by (auto simp: m_def)
  show ?thesis
  proof (cases "m = 0")
    case True
    then have "n = 0"
      using m(2) by (simp add: unat_eq_0)
    then show ?thesis
      using True unfolding put_uint_words_def w_def [symmetric] start_def [symmetric] m_def [symmetric] Let_def
      by (simp add: encode_uint_into_def rlp_codes)
  next
    case False
    define hi where "hi = w ! (m - 1)"
    define low where "low = take (m - 1) w"
    have hi: "hi \<noteq> 0"
      using used_words_top [of w start] False by (simp add: m_def hi_def)
    have tm: "take m w = low @ [hi]"
      using take_Suc_conv_app_nth [of "m - 1" w] m(1) False by (simp add: low_def hi_def)
    have ll: "length low = m - 1"
      using m(1) by (simp add: low_def)
    define be where "be = drop (4 - top_bytes hi) (word_be hi) @ concat (map word_be (rev low))"
    note tb = top_word_bytes [OF hi]
    have ne: "drop (4 - top_bytes hi) (word_be hi) \<noteq> []"
      using tb(3) by auto
    have un: "unat n = words_val low + 2 ^ (32 * (m - 1)) * unat hi"
      using m(2) by (simp add: tm words_val_append ll)
    have "be_nat be = unat n"
      unfolding be_def be_nat_append be_nat_words tb(1) length_concat_words
      by (simp add: un ll power_mult [of 2 32] power_mult [of 256 4] flip: power_mult)
    moreover have "hd be \<noteq> 0" "length be = 4 * (m - 1) + top_bytes hi"
      using tb(2,3) ne by (auto simp: be_def length_concat_words ll)
    ultimately have be: "to_big_compact n = be" "length be = 4 * (m - 1) + top_bytes hi"
      using to_big_compact_eq [OF assms(1), of n] be_compact_be_nat [of be] by auto
    have small: "n < 0x80 \<longleftrightarrow> m - 1 = 0 \<and> hi < 0x80"
    proof (cases "m - 1 = 0")
      case True
      then have "unat n = unat hi"
        using un ll by simp
      then show ?thesis
        using True word64_literals [OF assms(1)] by (simp add: word_less_nat_alt)
    next
      case m: False
      have "(2 :: nat) ^ 32 \<le> 2 ^ (32 * (m - 1))"
        using m by (intro power_increasing) auto
      moreover have "1 \<le> unat hi"
        using hi by (simp add: Suc_le_eq unat_gt_0)
      ultimately have "2 ^ 32 \<le> (2 :: nat) ^ (32 * (m - 1)) * unat hi"
        using mult_le_mono by fastforce
      then show ?thesis
        using m un word64_literals [OF assms(1)] by (simp add: word_less_nat_alt)
    qed
    have one: "(ucast hi :: byte) = ucast n" if "m - 1 = 0"
      using that un ll by (simp add: word_unat_eq_iff unsigned_ucast_eq)
    have "n \<noteq> 0"
      using un hi by (auto simp: unat_eq_0)
    then show ?thesis
      unfolding put_uint_words_def w_def [symmetric] start_def [symmetric] m_def [symmetric]
        hi_def [symmetric] low_def [symmetric] top_bytes_def [symmetric] Let_def encode_uint_into_def small be
      using False one by (simp add: be_def rlp_codes)
  qed
qed


lemma word_le_load_little: "word_le (load_little [b0, b1, b2, b3]) = [b0, b1, b2, b3]"
proof -
  have "le_nat [b0, b1, b2, b3] < 256 ^ length [b0, b1, b2, b3]"
    by (rule le_nat_bound)
  then have "unat (load_little [b0, b1, b2, b3] :: u32) = be_nat [b3, b2, b1, b0]"
    by (simp add: load_little_def unat_of_nat le_nat_eq_be_nat_rev)
  then have "word_be (load_little [b0, b1, b2, b3]) = [b3, b2, b1, b0]"
    unfolding word_be_be_bytes by (intro be_bytes_unique) simp_all
  then show ?thesis
    by (simp add: word_le_def word_be_def)
qed

lemma word_le_hash_words:
  "length h = 4 * k \<Longrightarrow> concat (map word_le (hash_words h)) = h \<and> length (hash_words h) = k"
proof (induction h arbitrary: k rule: hash_words.induct)
  case (1 b0 b1 b2 b3 bs)
  moreover obtain j where "k = Suc j" "length bs = 4 * j"
    using 1(2) by (cases k) auto
  ultimately show ?case
    by (auto simp: word_le_load_little)
qed (auto, presburger+)

lemma word_le_shift:
  assumes "lead \<in> {1, 2, 3}"
  shows "word_le (drop_bit (8 * lead) p OR push_bit (32 - 8 * lead) w) = drop lead (word_le p) @ take lead (word_le w)"
proof -
  have "lead = 1 \<or> lead = 2 \<or> lead = 3"
    using assms by auto
  then show ?thesis
    by (elim disjE) (auto simp: word_le_def bit_simps intro!: bit_word_eqI)
qed

lemma take_word_le_drop:
  assumes "off \<in> {1, 2, 3}" "lead = 4 - off"
  shows "take off (word_le (drop_bit (8 * lead) p)) = drop lead (word_le p)"
proof -
  have "off = 1 \<or> off = 2 \<or> off = 3"
    using assms by auto
  then show ?thesis
    unfolding assms(2) by (elim disjE) (auto simp: word_le_def bit_simps intro!: bit_word_eqI)
qed

lemma shift_words_bytes:
  assumes "lead \<in> {1, 2, 3}" "shift_words (8 * lead) (drop_bit (8 * lead) p) ws = (out, v)"
  shows "concat (map word_le out) @ take (4 - lead) (word_le v) = drop lead (word_le p) @ concat (map word_le ws)"
  using assms(2)
proof (induction ws arbitrary: p out)
  case Nil
  have "take (4 - lead) (word_le (drop_bit (8 * (4 - (4 - lead))) p)) = drop (4 - (4 - lead)) (word_le p)"
    using assms(1) by (intro take_word_le_drop) auto
  moreover have "4 - (4 - lead) = lead"
    using assms(1) by auto
  ultimately show ?case
    using Nil by simp
next
  case (Cons w ws)
  then obtain out' where out: "shift_words (8 * lead) (drop_bit (8 * lead) w) ws = (out', v)"
    "out = (drop_bit (8 * lead) p OR push_bit (32 - 8 * lead) w) # out'"
    by (auto split: prod.splits)
  show ?case
    using Cons.IH [OF out(1)] by (simp add: out(2) word_le_shift [OF assms(1)])
qed

lemma put_hash_words_eq:
  assumes "length h = 32" "off < 4"
  shows "put_hash_words off (hash_words h) = 0xA0 # h"
proof (cases "off = 0")
  case True
  then show ?thesis
    using word_le_hash_words [of h 8] assms(1) by (simp add: put_hash_words_def)
next
  case False
  define lead where "lead = 4 - off"
  have l: "lead \<in> {1, 2, 3}" "4 - lead = off"
    using False assms(2) by (auto simp: lead_def)
  obtain w ws where w: "hash_words h = w # ws" "concat (map word_le (w # ws)) = h"
    using word_le_hash_words [of h 8] assms(1) by (cases "hash_words h") auto
  obtain out v where sw: "shift_words (8 * lead) (drop_bit (8 * lead) w) ws = (out, v)"
    by fastforce
  have "concat (map word_le out) @ take off (word_le v) = drop lead (word_le w) @ concat (map word_le ws)"
    using shift_words_bytes [OF l(1) sw] by (simp only: l(2))
  then show ?thesis
    using False w
    by (simp add: put_hash_words_def lead_def [symmetric] sw Let_def)
      (metis append_assoc append_take_drop_id)
qed

lemma encode_account_into_words_eq:
  assumes "hashes_sized a root"
  shows "encode_account_into_words base aligned a root = encode_account_into a root"
proof -
  have ints: "put_uint_words (words_of 2 (acc_nonce a)) = encode_uint (acc_nonce a)"
    "put_uint_words (words_of 8 (acc_balance a)) = encode_uint (acc_balance a)"
    using put_uint_words_eq [of 2 "acc_nonce a"] put_uint_words_eq [of 8 "acc_balance a"]
    by (simp_all add: encode_uint_into_u64 encode_uint_into_u256)
  have h: "length root = 32" "length (acc_code_hash a) = 32"
    using assms by (simp_all add: hashes_sized_def)
  have len: "length (account_items a root) = length (encode_uint (acc_nonce a)) + length (encode_uint (acc_balance a)) + 66"
    using account_items_length(1) [OF assms] by (simp add: length_laws)
  show ?thesis
    unfolding encode_account_into_off [OF assms] account_leaf_split [OF assms] len
    by (simp add: encode_account_into_words_def ints put_hash_words_eq h Let_def sroot_off_def)
qed

text \<open>
  C24: Account leaves. For an account and a storage root whose hashes have 32 bytes, the encoder writes the RLP list
  of nonce, balance, storage root and code hash, at most 110 of the 112 bytes of the cache; the encoder of the 32-bit
  guests writes the same bytes wherever its buffer lies and whether or not the root is aligned; stamping the
  cache and then patching in another storage root gives the leaf with that root; and decoding a leaf, whatever
  follows it, restores exactly these four fields.
\<close>

theorem account_leaf_exact:
  assumes "hashes_sized a root" "length root' = 32"
  shows "fst (encode_account_into a root) =
      encode_vector id length [encode_uint (acc_nonce a), encode_uint (acc_balance a), encode_bytes root,
        encode_bytes (acc_code_hash a)] \<and>
    length (fst (encode_account_into a root)) \<le> kAccRlpBufSize - 2 \<and>
    encode_account_into_words base aligned a root = encode_account_into a root \<and>
    account_rlp (rlp_into_cache a root) root' = fst (encode_account_into a root') \<and>
    (cache_ok a \<longrightarrow> account_rlp a root = fst (encode_account_into a root)) \<and>
    decode_trie_account (fst (encode_account_into a root) @ rest) b =
      Some (b\<lparr>acc_nonce := acc_nonce a, acc_balance := acc_balance a, acc_storage_root := root,
              acc_code_hash := acc_code_hash a\<rparr>)"
proof -
  have a': "hashes_sized a root'" "hashes_sized (rlp_into_cache a root) root'"
    using assms by (simp_all add: hashes_sized_def rlp_into_cache_def Let_def split_def)
  show ?thesis
  proof (intro conjI impI)
    show "fst (encode_account_into a root) =
        encode_vector id length [encode_uint (acc_nonce a), encode_uint (acc_balance a), encode_bytes root,
          encode_bytes (acc_code_hash a)]"
      by (simp add: encode_account_into_off [OF assms(1)] account_leaf_def account_items_def encode_vector_def
          length_items_eq add.assoc)
    show "length (fst (encode_account_into a root)) \<le> kAccRlpBufSize - 2"
      using account_leaf_length [OF assms(1)] by (simp add: encode_account_into_off [OF assms(1)] kAccRlpBufSize_def)
    show "encode_account_into_words base aligned a root = encode_account_into a root"
      by (rule encode_account_into_words_eq [OF assms(1)])
    show "account_rlp (rlp_into_cache a root) root' = fst (encode_account_into a root')"
      by (simp add: account_rlp_eq rlp_into_eq [OF a'(2) rlp_into_cache_ok [OF assms(1)]]
          rlp_into_cache_fields(1) [OF assms(1)] encode_account_into_off [OF a'(1)])
    show "account_rlp a root = fst (encode_account_into a root)" if "cache_ok a"
      using that by (simp add: account_rlp_eq rlp_into_eq [OF assms(1)] encode_account_into_off [OF assms(1)])
    show "decode_trie_account (fst (encode_account_into a root) @ rest) b =
        Some (b\<lparr>acc_nonce := acc_nonce a, acc_balance := acc_balance a, acc_storage_root := root,
                acc_code_hash := acc_code_hash a\<rparr>)"
      by (simp add: encode_account_into_off [OF assms(1)] decode_trie_account_leaf [OF assms(1)])
  qed
qed

definition sample_account :: account where
  "sample_account =
     \<lparr>acc_addr = replicate 20 1, acc_deleted = False, acc_rlp_len = 0, acc_rlp_sroot_off = 0, acc_modified = False,
      acc_nonce = 7, acc_balance = 10 ^ 18, acc_code_hash = replicate 32 2, acc_storage_root = replicate 32 3,
      acc_code_store_offset = 0, acc_code_store_len = 0, acc_slot_count = 0, acc_rlp_buf = replicate 112 0,
      acc_absent_reads = 0, acc_slots = []\<rparr>"

theorem account_leaf_exact_witness:
  "encode_account_into_words 1 True sample_account (replicate 32 5) =
     encode_account_into sample_account (replicate 32 5)
   \<and> account_rlp (rlp_into_cache sample_account (replicate 32 5)) (replicate 32 6) =
       fst (encode_account_into sample_account (replicate 32 6))"
  using account_leaf_exact [of sample_account "replicate 32 5" "replicate 32 6"]
  by (simp add: hashes_sized_def sample_account_def)

end
