(* ===== verification/Slot_Search.thy ===== *)
theory Slot_Search
  imports Account
begin

text \<open>
  The search for a storage slot of a record (\<open>find_slot\<close> of state_zz/direct_state.cpp) and the comparisons it rests on: \<open>memcmp\<close>,
  and the word-at-a-time comparisons of the 32-bit guests (common_zz/bytes_cmp.hpp).
\<close>

section \<open>Comparisons\<close>

text \<open>\<open>memcmp\<close>, with the sign of its result.\<close>

fun memcmp :: "bytes \<Rightarrow> bytes \<Rightarrow> int" where
  "memcmp (x # xs) (y # ys) = (if x < y then - 1 else if y < x then 1 else memcmp xs ys)"
| "memcmp _ _ = 0"

text \<open>The mask up to the end of the first differing byte of two little-endian words.\<close>

definition first_difference_mask :: "u32 \<Rightarrow> u32" where
  "first_difference_mask d =
     (if d AND 0xff \<noteq> 0 then 0xff else if d AND 0xffff \<noteq> 0 then 0xffff
      else if d AND 0xffffff \<noteq> 0 then 0xffffff else 0xffffffff)"

fun compare_words :: "u32 list \<Rightarrow> u32 list \<Rightarrow> int" where
  "compare_words (x # xs) (y # ys) =
     (if x = y then compare_words xs ys
      else let m = first_difference_mask (x XOR y) in if x AND m < y AND m then - 1 else 1)"
| "compare_words _ _ = 0"

definition lt_bytes32 :: "bytes \<Rightarrow> bytes \<Rightarrow> bool" where
  "lt_bytes32 a b \<longleftrightarrow> memcmp a b < 0"

definition lt_bytes32_words :: "bytes \<Rightarrow> bytes \<Rightarrow> bool" where
  "lt_bytes32_words a b \<longleftrightarrow> compare_words (hash_words a) (hash_words b) < 0"

section \<open>The search\<close>

text \<open>
  The loop of \<open>find_slot\<close>: \<open>lst\<close> is the comparison at the last probe that moved left, and \<open>cmp\<close> compares the key at
  a position with the key sought.
\<close>

function search_slot :: "(nat \<Rightarrow> int) \<Rightarrow> nat \<Rightarrow> nat \<Rightarrow> int \<Rightarrow> nat option" where
  "search_slot cmp first len lst =
     (if len = 0 then if lst = 0 then Some first else None
      else let half = len div 2; mid = first + half; c = cmp mid
           in if c < 0 then search_slot cmp (mid + 1) (len - half - 1) lst
              else search_slot cmp first half c)"
  by pat_completeness auto
termination
  by (relation "measure (\<lambda>(cmp, first, len, lst). len)") auto

declare search_slot.simps [simp del]

definition find_slot :: "slot list \<Rightarrow> bytes32 \<Rightarrow> nat option" where
  "find_slot slots key = search_slot (\<lambda>i. memcmp (slot_key (slots ! i)) key) 0 (length slots) 1"

definition find_slot_words :: "slot list \<Rightarrow> bytes32 \<Rightarrow> nat option" where
  "find_slot_words slots key =
     search_slot (\<lambda>i. compare_words (hash_words (slot_key (slots ! i))) (hash_words key)) 0 (length slots) 1"

section \<open>The order of the comparisons\<close>

definition order_sign :: "nat \<Rightarrow> nat \<Rightarrow> int" where
  "order_sign m n = (if m < n then - 1 else if n < m then 1 else 0)"

lemma memcmp_be_nat:
  "length xs = length ys \<Longrightarrow> memcmp xs ys = order_sign (be_nat xs) (be_nat ys)"
proof (induction xs ys rule: memcmp.induct)
  case (1 x xs y ys)
  let ?p = "256 ^ length ys :: nat"
  have b: "be_nat xs < ?p" "be_nat ys < ?p"
    using be_nat_bound [of xs] be_nat_bound [of ys] 1(2) by simp_all
  have lt: "unat u * ?p + m < unat v * ?p + n" if "u < v" "m < ?p" for u v :: byte and m n
  proof -
    have "(unat u + 1) * ?p \<le> unat v * ?p"
      using that(1) by (intro mult_right_mono) (simp_all add: word_less_nat_alt)
    then show ?thesis
      using that(2) by simp
  qed
  consider "x < y" | "y < x" | "x = y"
    by fastforce
  then show ?case
  proof cases
    case 1
    then show ?thesis
      using lt [OF 1 b(1), of "be_nat ys"] \<open>length (x # xs) = length (y # ys)\<close> by (simp add: be_nat_Cons order_sign_def)
  next
    case 2
    then show ?thesis
      using lt [OF 2 b(2), of "be_nat xs"] \<open>length (x # xs) = length (y # ys)\<close> by (simp add: be_nat_Cons order_sign_def)
  next
    case 3
    then show ?thesis
      using 1 by (simp add: be_nat_Cons order_sign_def)
  qed
qed (simp_all add: order_sign_def)

section \<open>The search is exact\<close>

text \<open>The outcome of the search in the positions from \<open>lo\<close> to \<open>hi\<close>, the keys being \<open>K\<close>.\<close>

definition search_outcome :: "(nat \<Rightarrow> nat) \<Rightarrow> nat \<Rightarrow> nat \<Rightarrow> nat \<Rightarrow> int \<Rightarrow> nat option \<Rightarrow> bool" where
  "search_outcome K k lo hi lst r \<longleftrightarrow>
     (\<forall>i. lo \<le> i \<and> i < hi \<and> K i = k \<longrightarrow> r = Some i) \<and>
     ((\<forall>i. lo \<le> i \<and> i < hi \<longrightarrow> K i \<noteq> k) \<and> lst \<noteq> 0 \<longrightarrow> r = None) \<and>
     ((\<forall>i. lo \<le> i \<and> i < hi \<longrightarrow> K i < k) \<and> lst = 0 \<longrightarrow> r = Some hi)"

lemma search_outcome_below:
  assumes "search_outcome K k m hi lst r" "lo \<le> m" "\<And>i. lo \<le> i \<Longrightarrow> i < m \<Longrightarrow> K i < k"
  shows "search_outcome K k lo hi lst r"
proof -
  have "m \<le> i" if "lo \<le> i" "K i = k" for i
    using assms(3) [of i] that by (cases "i < m") auto
  then have "\<forall>i. lo \<le> i \<and> i < hi \<and> K i = k \<longrightarrow> r = Some i"
    using assms(1) unfolding search_outcome_def by blast
  moreover have "r = None" if "\<forall>i. lo \<le> i \<and> i < hi \<longrightarrow> K i \<noteq> k" "lst \<noteq> 0"
  proof -
    have "\<forall>i. m \<le> i \<and> i < hi \<longrightarrow> K i \<noteq> k"
      using that(1) assms(2) by auto
    then show ?thesis
      using assms(1) that(2) unfolding search_outcome_def by blast
  qed
  moreover have "r = Some hi" if "\<forall>i. lo \<le> i \<and> i < hi \<longrightarrow> K i < k" "lst = 0"
  proof -
    have "\<forall>i. m \<le> i \<and> i < hi \<longrightarrow> K i < k"
      using that(1) assms(2) by auto
    then show ?thesis
      using assms(1) that(2) unfolding search_outcome_def by blast
  qed
  ultimately show ?thesis
    unfolding search_outcome_def by blast
qed

lemma search_outcome_above:
  assumes "search_outcome K k lo m c r" "m < hi" "lo \<le> m" "k \<le> K m" "c = 0 \<longleftrightarrow> K m = k"
    "\<And>i. lo \<le> i \<Longrightarrow> i < m \<Longrightarrow> K i < K m" "\<And>i. m < i \<Longrightarrow> i < hi \<Longrightarrow> K m < K i"
  shows "search_outcome K k lo hi lst r"
proof -
  have above: "i \<le> m" if "i < hi" "K i = k" for i
    using assms(4,7) that by (cases "m < i") fastforce+
  have "r = Some i" if "lo \<le> i" "i < hi" "K i = k" for i
  proof (cases "i = m")
    case True
    then have "c = 0" "\<forall>j. lo \<le> j \<and> j < m \<longrightarrow> K j < k"
      using assms(5,6) that(3) by auto
    then show ?thesis
      using assms(1) True unfolding search_outcome_def by blast
  next
    case False
    then show ?thesis
      using assms(1) above [of i] that unfolding search_outcome_def by (metis le_neq_implies_less)
  qed
  moreover have "r = None" if "\<forall>i. lo \<le> i \<and> i < hi \<longrightarrow> K i \<noteq> k"
  proof -
    have "\<forall>i. lo \<le> i \<and> i < m \<longrightarrow> K i \<noteq> k" "c \<noteq> 0"
      using that assms(2,3,5) by auto
    then show ?thesis
      using assms(1) unfolding search_outcome_def by blast
  qed
  moreover have "\<not> (\<forall>i. lo \<le> i \<and> i < hi \<longrightarrow> K i < k)"
    using assms(2,3,4) by (meson not_less)
  ultimately show ?thesis
    unfolding search_outcome_def by blast
qed

lemma search_slot_exact:
  fixes K :: "nat \<Rightarrow> nat"
  assumes "\<And>i j. first \<le> i \<Longrightarrow> i < j \<Longrightarrow> j < first + len \<Longrightarrow> K i < K j"
    "\<And>i. first \<le> i \<Longrightarrow> i < first + len \<Longrightarrow> cmp i = order_sign (K i) k"
  shows "search_outcome K k first (first + len) lst (search_slot cmp first len lst)"
  using assms
proof (induction cmp first len lst rule: search_slot.induct)
  case (1 cmp first len lst)
  show ?case
  proof (cases "len = 0")
    case True
    then show ?thesis
      by (simp add: search_slot.simps search_outcome_def)
  next
    case False
    let ?half = "len div 2" and ?mid = "first + len div 2"
    have h: "?half < len" and r: "?mid + 1 + (len - ?half - 1) = first + len"
      using False by simp_all
    have c: "cmp ?mid = order_sign (K ?mid) k"
      using 1(4) h by simp
    show ?thesis
    proof (cases "K ?mid < k")
      case True
      then have neg: "cmp ?mid < 0"
        using c by (simp add: order_sign_def)
      have "search_outcome K k (?mid + 1) (first + len) lst (search_slot cmp (?mid + 1) (len - ?half - 1) lst)"
        by (rule 1(1) [OF False refl refl refl neg, unfolded r]) (use 1(3,4) in auto)
      moreover have "K i < k" if "first \<le> i" "i < ?mid + 1" for i
        using that 1(3) [of i ?mid] True h by (cases "i = ?mid") auto
      ultimately show ?thesis
        using False neg by (subst search_slot.simps) (simp add: Let_def search_outcome_below)
    next
      case ge: False
      then have pos: "\<not> cmp ?mid < 0"
        using c by (simp add: order_sign_def)
      have "search_outcome K k first ?mid (cmp ?mid) (search_slot cmp first ?half (cmp ?mid))"
        by (rule 1(2) [OF False refl refl refl pos]) (use 1(3,4) h in auto)
      then have "search_outcome K k first (first + len) lst (search_slot cmp first ?half (cmp ?mid))"
        by (rule search_outcome_above) (use 1(3) h ge c in \<open>auto simp: order_sign_def\<close>)
      then show ?thesis
        using False pos by (subst search_slot.simps) (simp add: Let_def)
    qed
  qed
qed

text \<open>Slots whose 32-byte keys ascend strictly.\<close>

definition slots_sorted :: "slot list \<Rightarrow> bool" where
  "slots_sorted slots \<longleftrightarrow> (\<forall>s \<in> set slots. length (slot_key s) = 32) \<and>
     sorted_wrt (\<lambda>a b. be_nat (slot_key a) < be_nat (slot_key b)) slots"

lemma search_slot_sorted:
  assumes "slots_sorted slots" "length key = 32"
    "\<And>i. i < length slots \<Longrightarrow> cmp i = order_sign (be_nat (slot_key (slots ! i))) (be_nat key)"
  shows "search_slot cmp 0 (length slots) 1 = Some i \<longleftrightarrow> i < length slots \<and> slot_key (slots ! i) = key"
proof -
  define K where "K i = be_nat (slot_key (slots ! i))" for i
  have "search_outcome K (be_nat key) 0 (0 + length slots) 1 (search_slot cmp 0 (length slots) 1)"
    by (rule search_slot_exact) (use assms in \<open>auto simp: K_def slots_sorted_def sorted_wrt_iff_nth_less\<close>)
  note o = this [unfolded search_outcome_def, simplified]
  have k: "K i = be_nat key \<longleftrightarrow> slot_key (slots ! i) = key" if "i < length slots" for i
    using assms(1,2) be_nat_inject [of "slot_key (slots ! i)" key] that by (auto simp: K_def slots_sorted_def)
  show ?thesis
  proof
    assume s: "search_slot cmp 0 (length slots) 1 = Some i"
    then obtain j where "j < length slots" "K j = be_nat key"
      using o by fastforce
    with o s have "j = i"
      by auto
    with \<open>j < length slots\<close> \<open>K j = be_nat key\<close> show "i < length slots \<and> slot_key (slots ! i) = key"
      using k by simp
  qed (use o k in auto)
qed

lemma find_slot_exact:
  assumes "slots_sorted slots" "length key = 32"
  shows "find_slot slots key = Some i \<longleftrightarrow> i < length slots \<and> slot_key (slots ! i) = key"
  unfolding find_slot_def
  by (rule search_slot_sorted [OF assms]) (use assms in \<open>auto simp: slots_sorted_def intro!: memcmp_be_nat\<close>)

section \<open>The comparison by words\<close>

lemma unat_load_little4:
  "unat (load_little [b0, b1, b2, b3] :: u32) = unat b0 + 256 * (unat b1 + 256 * (unat b2 + 256 * unat b3))"
proof -
  have "le_nat [b0, b1, b2, b3] < 2 ^ 32"
    using le_nat_bound [of "[b0, b1, b2, b3]"] by simp
  then have "unat (of_nat (le_nat [b0, b1, b2, b3]) :: u32) = le_nat [b0, b1, b2, b3]"
    unfolding unat_of_nat by simp
  moreover have "load_little [b0, b1, b2, b3] = (of_nat (le_nat [b0, b1, b2, b3]) :: u32)"
    unfolding load_little_def by simp
  ultimately show ?thesis
    by (simp only:) simp
qed

lemma mask_u32: "(0xff :: u32) = mask 8" "(0xffff :: u32) = mask 16" "(0xffffff :: u32) = mask 24" "(0xffffffff :: u32) = mask 32"
  by (simp_all add: mask_eq_exp_minus_1)

lemma unat_and_mask: "unat (x AND mask n) = unat x mod 2 ^ n" for x :: u32
  unfolding take_bit_eq_mask [symmetric] unsigned_take_bit_eq by (simp add: take_bit_eq_mod)

lemma xor_and_mask_0: "(x XOR y) AND mask n = 0 \<longleftrightarrow> unat x mod 2 ^ n = unat y mod 2 ^ n" for x y :: u32
proof -
  have "(x XOR y) AND mask n = 0 \<longleftrightarrow> x AND mask n = y AND mask n"
    by (auto simp: bit_eq_iff bit_simps)
  then show ?thesis
    by (simp add: word_unat_eq_iff unat_and_mask)
qed

lemma digits_eq: "(a :: nat) + 256 * m = b + 256 * n \<longleftrightarrow> a = b \<and> m = n" if "a < 256" "b < 256"
proof
  assume e: "a + 256 * m = b + 256 * n"
  then have "(a + 256 * m) mod 256 = (b + 256 * n) mod 256"
    by simp
  then have "a = b"
    using that by simp
  with e show "a = b \<and> m = n"
    by simp
qed simp

text \<open>Bytes of a little-endian word are read off by the masks.\<close>

lemma word_digits:
  fixes a0 a1 a2 a3 :: nat
  assumes "a0 < 256" "a1 < 256" "a2 < 256" "a3 < 256"
  defines "x \<equiv> a0 + 256 * (a1 + 256 * (a2 + 256 * a3))"
  shows "x mod 2 ^ 8 = a0" "x mod 2 ^ 16 = a0 + 256 * a1" "x mod 2 ^ 24 = a0 + 256 * (a1 + 256 * a2)" "x mod 2 ^ 32 = x"
proof -
  have x: "x = a0 + 256 * (a1 + 256 * a2) + 2 ^ 24 * a3" "x = a0 + 256 * a1 + 2 ^ 16 * (a2 + 256 * a3)"
    by (simp_all add: x_def)
  show "x mod 2 ^ 24 = a0 + 256 * (a1 + 256 * a2)"
    unfolding x(1) mod_mult_self2 using assms(1-3) by simp
  show "x mod 2 ^ 16 = a0 + 256 * a1"
    unfolding x(2) mod_mult_self2 using assms(1,2) by simp
  have "x mod 2 ^ 8 = (a0 + 2 ^ 8 * (a1 + 256 * (a2 + 256 * a3))) mod 2 ^ 8"
    by (simp add: x_def)
  then show "x mod 2 ^ 8 = a0"
    unfolding mod_mult_self2 using assms(1) by simp
  show "x mod 2 ^ 32 = x"
    using assms by simp
qed

lemma compare_word:
  fixes a0 a1 a2 a3 b0 b1 b2 b3 :: byte
  defines "x \<equiv> load_little [a0, a1, a2, a3] :: u32" and "y \<equiv> load_little [b0, b1, b2, b3] :: u32"
  shows "x = y \<longleftrightarrow> [a0, a1, a2, a3] = [b0, b1, b2, b3]"
    and "x \<noteq> y \<Longrightarrow> (let m = first_difference_mask (x XOR y) in if x AND m < y AND m then - 1 else 1) =
      memcmp [a0, a1, a2, a3] [b0, b1, b2, b3]"
proof -
  have u: "unat b < 256" for b :: byte
    using unsigned_less [of b] by simp
  note dx = word_digits [OF u u u u, of a0 a1 a2 a3, folded unat_load_little4, folded x_def]
  note dy = word_digits [OF u u u u, of b0 b1 b2 b3, folded unat_load_little4, folded y_def]
  note d = dx(1-3) dy(1-3)
  have x: "unat x = unat a0 + 256 * (unat a1 + 256 * (unat a2 + 256 * unat a3))"
    "unat y = unat b0 + 256 * (unat b1 + 256 * (unat b2 + 256 * unat b3))"
    by (simp_all add: x_def y_def unat_load_little4)
  show eq: "x = y \<longleftrightarrow> [a0, a1, a2, a3] = [b0, b1, b2, b3]"
    using d x by (auto simp: word_unat_eq_iff)
  show "(let m = first_difference_mask (x XOR y) in if x AND m < y AND m then - 1 else 1) =
      memcmp [a0, a1, a2, a3] [b0, b1, b2, b3]" if "x \<noteq> y"
  proof -
    have m: "x AND mask n < y AND mask n \<longleftrightarrow> unat x mod 2 ^ n < unat y mod 2 ^ n" for n
      by (simp add: word_less_nat_alt unat_and_mask)
    have lt: "v < w \<longleftrightarrow> unat v < unat w" for v w :: byte
      by (rule word_less_nat_alt)
    have e: "unat x mod 2 ^ 8 = unat y mod 2 ^ 8 \<longleftrightarrow> a0 = b0"
      "unat x mod 2 ^ 16 = unat y mod 2 ^ 16 \<longleftrightarrow> a0 = b0 \<and> a1 = b1"
      "unat x mod 2 ^ 24 = unat y mod 2 ^ 24 \<longleftrightarrow> a0 = b0 \<and> a1 = b1 \<and> a2 = b2"
      unfolding d digits_eq [OF u u] by (simp_all add: word_unat_eq_iff)
    have mask: "first_difference_mask (x XOR y) = (if a0 \<noteq> b0 then mask 8 else if a1 \<noteq> b1 then mask 16
        else if a2 \<noteq> b2 then mask 24 else mask 32)"
      unfolding first_difference_mask_def mask_u32 xor_and_mask_0 e by auto
    consider "a0 \<noteq> b0" | "a0 = b0" "a1 \<noteq> b1" | "a0 = b0" "a1 = b1" "a2 \<noteq> b2" | "a0 = b0" "a1 = b1" "a2 = b2" "a3 \<noteq> b3"
      using \<open>x \<noteq> y\<close> eq by auto
    then show ?thesis
      unfolding mask Let_def if_distrib [of "\<lambda>m. x AND m < y AND m"] m d dx(4) dy(4) unfolding x
      by cases (auto simp: lt word_unat_eq_iff)
  qed
qed

lemma compare_words_memcmp:
  "length a = 4 * k \<Longrightarrow> length b = 4 * k \<Longrightarrow> compare_words (hash_words a) (hash_words b) = memcmp a b"
proof (induction a arbitrary: b k rule: hash_words.induct)
  case (1 a0 a1 a2 a3 as)
  have "Suc (Suc (Suc (Suc 0))) \<le> length b"
    using 1(2,3) by simp
  then obtain b0 b1 b2 b3 bs where b: "b = b0 # b1 # b2 # b3 # bs"
    by (auto simp: Suc_le_length_iff)
  obtain j where j: "length as = 4 * j" "length bs = 4 * j"
    using 1(2,3) b by (cases k) auto
  show ?case
  proof (cases "[a0, a1, a2, a3] = [b0, b1, b2, b3]")
    case True
    then show ?thesis
      using 1(1) [OF j] by (simp add: b)
  next
    case False
    then have "load_little [a0, a1, a2, a3] \<noteq> (load_little [b0, b1, b2, b3] :: u32)"
      using compare_word(1) by blast
    moreover have "memcmp [a0, a1, a2, a3] [b0, b1, b2, b3] = memcmp (a0 # a1 # a2 # a3 # as) b"
      using False by (auto simp: b)
    ultimately show ?thesis
      using compare_word(2) [of a0 a1 a2 a3 b0 b1 b2 b3] by (simp add: b)
  qed
qed (auto, presburger+)

lemma lt_bytes32_words_eq: "length a = 32 \<Longrightarrow> length b = 32 \<Longrightarrow> lt_bytes32_words a b = lt_bytes32 a b"
  using compare_words_memcmp [of a 8 b] by (simp add: lt_bytes32_words_def lt_bytes32_def)

lemma find_slot_words_eq:
  assumes "slots_sorted slots" "length key = 32"
  shows "find_slot_words slots key = find_slot slots key"
proof -
  have w: "search_slot (\<lambda>i. compare_words (hash_words (slot_key (slots ! i))) (hash_words key)) 0 (length slots) 1 = Some i \<longleftrightarrow>
      i < length slots \<and> slot_key (slots ! i) = key" for i
  proof (rule search_slot_sorted [OF assms])
    fix j
    assume "j < length slots"
    then have l: "length (slot_key (slots ! j)) = 32"
      using assms(1) by (simp add: slots_sorted_def)
    then show "compare_words (hash_words (slot_key (slots ! j))) (hash_words key) =
        order_sign (be_nat (slot_key (slots ! j))) (be_nat key)"
      using compare_words_memcmp [of "slot_key (slots ! j)" 8 key] memcmp_be_nat [of "slot_key (slots ! j)" key] assms(2)
      by simp
  qed
  show ?thesis
    unfolding find_slot_words_def by (rule option.expand, metis w find_slot_exact [OF assms] option.exhaust_sel option.distinct(1))
      (metis w find_slot_exact [OF assms] option.collapse option.sel)
qed

end
