(* ===== verification/Checked_Reads.thy ===== *)
theory Checked_Reads
  imports Endian "HOL-Library.Monad_Syntax"
begin

text \<open>
  Reads of untrusted buffers. The containers of the witness read their tables and entries through raw
  pointers; here every such read is checked and a read outside the buffer is \<open>None\<close>, so that memory
  safety of a lookup is the statement that it is not \<open>None\<close>. The theory also holds the binary search
  (\<open>std::lower_bound\<close>) that the lookups share.
\<close>

section \<open>Reads\<close>

definition at :: "'a list \<Rightarrow> nat \<Rightarrow> 'a option" where
  "at xs i = (if i < length xs then Some (xs ! i) else None)"

definition read_bytes :: "bytes \<Rightarrow> nat \<Rightarrow> nat \<Rightarrow> bytes option" where
  "read_bytes b off n = (if off + n \<le> length b then Some (take n (drop off b)) else None)"

text \<open>A little-endian integer, as \<open>memcpy\<close> into it and \<open>load_u64_le\<close> read it.\<close>

definition read_word :: "bytes \<Rightarrow> nat \<Rightarrow> 'a::len word option" where
  "read_word b off = map_option load_little (read_bytes b off (LENGTH('a) div 8))"

fun read_words :: "bytes \<Rightarrow> nat \<Rightarrow> nat \<Rightarrow> 'a::len word list option" where
  "read_words b off 0 = Some []"
| "read_words b off (Suc n) = do {
     w \<leftarrow> read_word b off;
     ws \<leftarrow> read_words b (off + LENGTH('a) div 8) n;
     Some (w # ws) }"

lemma at_eq_Some: "at xs i = Some x \<longleftrightarrow> i < length xs \<and> xs ! i = x"
  by (auto simp: at_def)

lemma at_in_range: "i < length xs \<Longrightarrow> at xs i = Some (xs ! i)"
  by (simp add: at_def)

lemma read_bytes_eq_Some: "read_bytes b off n = Some x \<longleftrightarrow> off + n \<le> length b \<and> x = take n (drop off b)"
  by (auto simp: read_bytes_def)

lemma read_bytes_length: "read_bytes b off n = Some x \<Longrightarrow> length x = n"
  by (auto simp: read_bytes_eq_Some)

lemma read_bytes_in_range: "off + n \<le> length b \<Longrightarrow> \<exists>x. read_bytes b off n = Some x"
  by (simp add: read_bytes_def)

lemma read_word_in_range: "off + LENGTH('a) div 8 \<le> length b \<Longrightarrow> \<exists>w. read_word b off = Some (w :: 'a::len word)"
  by (simp add: read_word_def read_bytes_def)

lemma read_words_in_range:
  "off + n * (LENGTH('a) div 8) \<le> length b \<Longrightarrow> \<exists>ws. read_words b off n = Some (ws :: 'a::len word list)"
proof (induction n arbitrary: off)
  case (Suc n)
  then obtain w :: "'a word" where "read_word b off = Some w"
    using read_word_in_range [of off b, where 'a = 'a] by auto
  moreover obtain ws :: "'a word list" where "read_words b (off + LENGTH('a) div 8) n = Some ws"
    using Suc(1) [of "off + LENGTH('a) div 8"] Suc(2) by (auto simp: add.assoc)
  ultimately show ?case
    by simp
qed simp

lemma read_words_length: "read_words b off n = Some ws \<Longrightarrow> length ws = n"
  by (induction n arbitrary: off ws) (auto simp: bind_eq_Some_conv)

section \<open>Binary search\<close>

text \<open>\<open>std::lower_bound\<close> over \<open>len\<close> positions from \<open>first\<close> on, \<open>below\<close> being its comparison with the value sought.\<close>

function lower_bound :: "(nat \<Rightarrow> bool) \<Rightarrow> nat \<Rightarrow> nat \<Rightarrow> nat" where
  "lower_bound below first len =
     (if len = 0 then first
      else let half = len div 2; mid = first + half
           in if below mid then lower_bound below (mid + 1) (len - half - 1)
              else lower_bound below first half)"
  by pat_completeness auto
termination
  by (relation "measure (\<lambda>(below, first, len). len)") auto

declare lower_bound.simps [simp del]

lemma lower_bound_range: "first \<le> lower_bound below first len \<and> lower_bound below first len \<le> first + len"
proof (induction below first len rule: lower_bound.induct)
  case (1 below first len)
  show ?case
  proof (cases "len = 0")
    case False
    then have "len div 2 < len"
      by simp
    with 1 [OF False refl refl] show ?thesis
      by (subst (1 2) lower_bound.simps) (auto simp: Let_def False)
  qed (simp add: lower_bound.simps)
qed

text \<open>On a partitioned range it is the partition point.\<close>

lemma lower_bound_partition:
  assumes "\<And>i j. first \<le> i \<Longrightarrow> i \<le> j \<Longrightarrow> j < first + len \<Longrightarrow> below j \<Longrightarrow> below i"
  defines "r \<equiv> lower_bound below first len"
  shows "(\<forall>i. first \<le> i \<longrightarrow> i < r \<longrightarrow> below i) \<and> (\<forall>i. r \<le> i \<longrightarrow> i < first + len \<longrightarrow> \<not> below i)"
  using assms(1) unfolding r_def
proof (induction below first len rule: lower_bound.induct)
  case (1 below first len)
  show ?case
  proof (cases "len = 0")
    case False
    let ?half = "len div 2" and ?mid = "first + len div 2"
    have h: "?half < len"
      using False by simp
    show ?thesis
    proof (cases "below ?mid")
      case True
      have "(\<forall>i. ?mid + 1 \<le> i \<longrightarrow> i < lower_bound below (?mid + 1) (len - ?half - 1) \<longrightarrow> below i) \<and>
        (\<forall>i. lower_bound below (?mid + 1) (len - ?half - 1) \<le> i \<longrightarrow> i < ?mid + 1 + (len - ?half - 1) \<longrightarrow> \<not> below i)"
        using True 1(3) by (intro 1(1) [OF False refl refl]) auto
      moreover have "below i" if "first \<le> i" "i < ?mid + 1" for i
        using 1(3) [of i ?mid] that True h by simp
      moreover have "?mid + 1 + (len - ?half - 1) = first + len"
        using h by simp
      moreover have "lower_bound below first len = lower_bound below (?mid + 1) (len - ?half - 1)"
        using True False by (subst lower_bound.simps) (simp add: Let_def)
      ultimately show ?thesis
        by (metis not_less)
    next
      case mid: False
      have "(\<forall>i. first \<le> i \<longrightarrow> i < lower_bound below first ?half \<longrightarrow> below i) \<and>
        (\<forall>i. lower_bound below first ?half \<le> i \<longrightarrow> i < first + ?half \<longrightarrow> \<not> below i)"
        using mid h 1(3) by (intro 1(2) [OF False refl refl]) auto
      moreover have "\<not> below i" if "?mid \<le> i" "i < first + len" for i
        using 1(3) [of ?mid i] that mid by auto
      moreover have "lower_bound below first len = lower_bound below first ?half"
        using mid False by (subst lower_bound.simps) (simp add: Let_def)
      ultimately show ?thesis
        by (metis not_less)
    qed
  qed (simp add: lower_bound.simps)
qed

end
