(* ===== verification/Mphf_Map.thy ===== *)
theory Mphf_Map
  imports Checked_Reads
begin

text \<open>
  The minimal perfect hash maps of the witness (common_zz/mphf_map.hpp, common_zz/index_key.hpp): the
  hash functions and index keys, the lookup with its sidecar of colliding keys, the enumeration of the
  entries, and the layout check of an untrusted region (\<open>validate_mphf\<close>). Every table access and every
  read of the data section is checked (\<open>None\<close> is an access out of bounds).
\<close>

section \<open>Hashing\<close>

definition kMphfGoldenRatio :: u64 where "kMphfGoldenRatio = 0x9E3779B97F4A7C15"

definition kMphfMapVersion :: u32 where "kMphfMapVersion = 3"

definition mix64_body :: "u64 \<Rightarrow> u64" where
  "mix64_body z = (let z = (z XOR drop_bit 30 z) * 0xBF58476D1CE4E5B9 in z XOR drop_bit 31 z)"

definition fast_mod_u32 :: "u32 \<Rightarrow> u32 \<Rightarrow> u32" where
  "fast_mod_u32 x n = ucast (drop_bit 32 ((ucast x :: u64) * ucast n))"

definition mphf_align8 :: "u32 \<Rightarrow> u32" where
  "mphf_align8 v = (v + 7) AND NOT 7"

text \<open>The index keys: \<open>addr_key8\<close> also in the form of the 32-bit guests, from two words.\<close>

definition hash_key8 :: "bytes32 \<Rightarrow> u64" where
  "hash_key8 h = load_little h"

definition addr_key8 :: "address \<Rightarrow> u64" where
  "addr_key8 addr = (load_little addr AND 0x00FFFFFFFFFFFFFF) OR push_bit 56 (ucast (addr ! 19))"

definition addr_key8_words :: "address \<Rightarrow> u64" where
  "addr_key8_words addr =
     (let w0 = load_little addr :: u32; w1 = load_little (drop 4 addr) :: u32
      in ucast w0 OR push_bit 32 (ucast ((w1 AND 0x00FFFFFF) OR push_bit 24 (ucast (addr ! 19)))))"

definition storage_key8 :: "bytes \<Rightarrow> u64" where
  "storage_key8 key = load_little key XOR load_little (drop 32 key)"

section \<open>The map\<close>

text \<open>
  The header of a region, and the tables \<open>MphfMap::reset\<close> points into it. \<open>n_keys\<close> and \<open>n_buckets\<close> are the
  numbers of the header; the collisions are pairs of index key and offset.
\<close>

record mphf_header =
  h_magic :: u32
  h_version :: u32
  h_n_keys :: u32
  h_n_buckets :: u32
  h_seed :: u64
  h_seed_factor :: u64
  h_collisions_offset :: u32
  h_collisions_size :: u32
  h_displacement_offset :: u32
  h_slot_offsets_offset :: u32
  h_data_offset :: u32
  h_data_size :: u32

record mphf_map =
  mp_n_keys :: u32
  mp_n_buckets :: u32
  mp_seed_factor :: u64
  mp_displacement :: "u64 list"
  mp_slot_offsets :: "u32 list"
  mp_collisions :: "(u64 \<times> u64) list"

definition index_lookup :: "mphf_map \<Rightarrow> u64 \<Rightarrow> u32 option" where
  "index_lookup m key = do {
     let z1 = key + mp_seed_factor m;
     let b = fast_mod_u32 (ucast (mix64_body z1)) (mp_n_buckets m);
     df \<leftarrow> at (mp_displacement m) (unat b);
     Some (fast_mod_u32 (ucast (mix64_body (z1 + df))) (mp_n_keys m)) }"

text \<open>
  The data section is seen through \<open>key_at\<close>, which reads the key at the start of the body of the entry at an
  offset; the results are offsets of entries.
\<close>

fun scan_collisions :: "(nat \<Rightarrow> bytes option) \<Rightarrow> u64 \<Rightarrow> bytes \<Rightarrow> (u64 \<times> u64) list \<Rightarrow> nat option option" where
  "scan_collisions key_at k8 key [] = Some None"
| "scan_collisions key_at k8 key ((k, off) # cs) =
     (if k \<noteq> k8 then Some None
      else do {
        k' \<leftarrow> key_at (unat off);
        if k' = key then Some (Some (unat off)) else scan_collisions key_at k8 key cs })"

definition resolve_collision :: "mphf_map \<Rightarrow> (nat \<Rightarrow> bytes option) \<Rightarrow> u64 \<Rightarrow> bytes \<Rightarrow> nat option option" where
  "resolve_collision m key_at k8 key =
     (if mp_collisions m = [] then Some None
      else let it = lower_bound (\<lambda>i. fst (mp_collisions m ! i) < k8) 0 (length (mp_collisions m))
           in scan_collisions key_at k8 key (drop it (mp_collisions m)))"

definition mphf_find :: "mphf_map \<Rightarrow> (nat \<Rightarrow> bytes option) \<Rightarrow> u64 \<Rightarrow> bytes \<Rightarrow> nat option option" where
  "mphf_find m key_at k8 key =
     (if mp_n_keys m = 0 then Some None
      else do {
        idx \<leftarrow> index_lookup m k8;
        off \<leftarrow> at (mp_slot_offsets m) (unat idx);
        if off \<noteq> 0
        then do { k \<leftarrow> key_at (unat off); Some (if k = key then Some (unat off) else None) }
        else if mp_collisions m \<noteq> [] then resolve_collision m key_at k8 key
        else Some None })"

definition for_each_offset :: "mphf_map \<Rightarrow> nat list" where
  "for_each_offset m =
     (if mp_n_keys m = 0 then []
      else map unat (filter (\<lambda>off. off \<noteq> 0) (mp_slot_offsets m)) @ map (\<lambda>c. unat (snd c)) (mp_collisions m))"

section \<open>Regions\<close>

definition read_header :: "bytes \<Rightarrow> mphf_header option" where
  "read_header b = do {
     magic \<leftarrow> read_word b 0; version \<leftarrow> read_word b 4; n_keys \<leftarrow> read_word b 8; n_buckets \<leftarrow> read_word b 12;
     seed \<leftarrow> read_word b 16; seed_factor \<leftarrow> read_word b 24;
     c_off \<leftarrow> read_word b 32; c_size \<leftarrow> read_word b 36; d_off \<leftarrow> read_word b 40; s_off \<leftarrow> read_word b 44;
     data_off \<leftarrow> read_word b 48; data_size \<leftarrow> read_word b 52;
     Some \<lparr>h_magic = magic, h_version = version, h_n_keys = n_keys, h_n_buckets = n_buckets, h_seed = seed,
           h_seed_factor = seed_factor, h_collisions_offset = c_off, h_collisions_size = c_size,
           h_displacement_offset = d_off, h_slot_offsets_offset = s_off, h_data_offset = data_off,
           h_data_size = data_size\<rparr> }"

fun pairs :: "'a list \<Rightarrow> ('a \<times> 'a) list" where
  "pairs (x # y # xs) = (x, y) # pairs xs"
| "pairs xs = []"

text \<open>
  \<open>MphfMap::reset\<close>: the tables and the data section of a region. A map without keys is never looked into.
\<close>

definition mphf_of :: "bytes \<Rightarrow> (mphf_map \<times> bytes) option" where
  "mphf_of b = do {
     h \<leftarrow> read_header b;
     if h_n_keys h = 0
     then Some (\<lparr>mp_n_keys = 0, mp_n_buckets = h_n_buckets h, mp_seed_factor = h_seed_factor h, mp_displacement = [],
                 mp_slot_offsets = [], mp_collisions = []\<rparr>, [])
     else do {
       displacement \<leftarrow> read_words b (unat (h_displacement_offset h)) (unat (h_n_buckets h));
       slot_offsets \<leftarrow> read_words b (unat (h_slot_offsets_offset h)) (unat (h_n_keys h));
       collisions \<leftarrow> read_words b (unat (h_collisions_offset h)) (2 * (unat (h_collisions_size h) div 16));
       data \<leftarrow> read_bytes b (unat (h_data_offset h)) (unat (h_data_size h));
       Some (\<lparr>mp_n_keys = h_n_keys h, mp_n_buckets = h_n_buckets h, mp_seed_factor = h_seed_factor h,
              mp_displacement = displacement, mp_slot_offsets = slot_offsets, mp_collisions = pairs collisions\<rparr>,
             data) } }"

text \<open>The body of the entry at an offset of the data section, and the key at its start.\<close>

definition body_at :: "bytes \<Rightarrow> nat \<Rightarrow> bytes option" where
  "body_at data off = do { len \<leftarrow> read_word data off; read_bytes data (off + 8) (unat (len :: u64)) }"

definition key_at :: "nat \<Rightarrow> bytes \<Rightarrow> nat \<Rightarrow> bytes option" where
  "key_at ks data off = read_bytes data (off + 8) ks"

definition find_body :: "mphf_map \<Rightarrow> bytes \<Rightarrow> u64 \<Rightarrow> bytes \<Rightarrow> bytes option option" where
  "find_body m data k8 key = do {
     r \<leftarrow> mphf_find m (key_at (length key) data) k8 key;
     case r of None \<Rightarrow> Some None | Some off \<Rightarrow> map_option Some (body_at data off) }"

section \<open>Validation\<close>

definition entry_within_data :: "nat \<Rightarrow> bytes \<Rightarrow> nat \<Rightarrow> bool" where
  "entry_within_data ks data off =
     (if off mod 8 \<noteq> 0 then False
      else if off > length data \<or> length data - off < 8 then False
      else case read_word data off of
             None \<Rightarrow> False
           | Some body_len \<Rightarrow> unat (body_len :: u64) \<le> length data - off - 8 \<and> ks \<le> unat body_len)"

definition within :: "u32 \<Rightarrow> nat \<Rightarrow> nat \<Rightarrow> bool" where
  "within region_size off n \<longleftrightarrow>
     \<not> (off > unat region_size \<or> n > unat region_size \<or> off + n > unat region_size)"

definition sections_ok :: "u32 \<Rightarrow> mphf_header \<Rightarrow> bool" where
  "sections_ok region_size m \<longleftrightarrow>
     unat (h_displacement_offset m) mod 8 = 0 \<and> h_n_buckets m \<noteq> 0 \<and>
     within region_size (unat (h_displacement_offset m)) (unat (h_n_buckets m) * 8) \<and>
     unat (h_slot_offsets_offset m) mod 4 = 0 \<and>
     within region_size (unat (h_slot_offsets_offset m)) (unat (h_n_keys m) * 4) \<and>
     (h_collisions_size m > 0 \<longrightarrow>
        unat (h_collisions_offset m) mod 8 = 0 \<and> unat (h_collisions_size m) mod 16 = 0 \<and>
        within region_size (unat (h_collisions_offset m)) (unat (h_collisions_size m))) \<and>
     unat (h_data_offset m) mod 8 = 0 \<and>
     within region_size (unat (h_data_offset m)) (unat (h_data_size m)) \<and>
     \<not> (unat (h_data_offset m) < 56 \<or>
        unat (h_data_offset m) < unat (h_displacement_offset m) + unat (h_n_buckets m) * 8 \<or>
        unat (h_data_offset m) < unat (h_slot_offsets_offset m) + unat (h_n_keys m) * 4 \<or>
        h_collisions_size m > 0 \<and>
          unat (h_data_offset m) < unat (h_collisions_offset m) + unat (h_collisions_size m))"

definition validate_mphf :: "nat \<Rightarrow> bytes \<Rightarrow> u32 \<Rightarrow> u32 \<Rightarrow> u32 \<Rightarrow> bool" where
  "validate_mphf ks base region_off region_size expected_magic =
     (if region_size = 0 then True
      else if unat region_off + unat region_size > length base then False
      else if unat region_size < 56 then False
      else if unat region_off mod 8 \<noteq> 0 then False
      else let region = take (unat region_size) (drop (unat region_off) base)
           in case read_header region of
                None \<Rightarrow> False
              | Some h \<Rightarrow>
                  if expected_magic \<noteq> 0 \<and> h_magic h \<noteq> expected_magic then False
                  else if h_version h \<noteq> kMphfMapVersion then False
                  else if h_n_keys h = 0 then True
                  else if \<not> sections_ok region_size h then False
                  else case mphf_of region of
                         None \<Rightarrow> False
                       | Some (m, data) \<Rightarrow>
                           list_all (\<lambda>off. off \<noteq> 0 \<longrightarrow> entry_within_data ks data (unat off)) (mp_slot_offsets m) \<and>
                           list_all (\<lambda>c. entry_within_data ks data (unat (snd c))) (mp_collisions m))"


section \<open>Hashing\<close>

lemma fast_mod_less: "n \<noteq> 0 \<Longrightarrow> fast_mod_u32 x n < n"
proof -
  assume "n \<noteq> 0"
  then have n: "0 < unat n"
    by (simp add: unat_gt_0)
  have b: "unat x < 2 ^ 32" "unat n < 2 ^ 32"
    using unsigned_less [of x] unsigned_less [of n] by simp_all
  have p: "unat x * unat n < 2 ^ 32 * unat n"
    using b n by simp
  also have "\<dots> < 2 ^ 64"
    using b by simp
  finally have "unat x * unat n < 2 ^ 64" .
  moreover have "unat (ucast y :: u64) = unat y" for y :: u32
    by (rule unat_ucast_up) simp
  ultimately have u: "unat ((ucast x :: u64) * ucast n) = unat x * unat n"
    by (simp add: unat_word_ariths)
  have "unat x * unat n div 2 ^ 32 < unat n"
    using p by (simp add: less_mult_imp_div_less mult.commute)
  then have "unat (fast_mod_u32 x n) < unat n"
    using b
    by (simp add: fast_mod_u32_def unsigned_ucast_eq take_bit_nat_eq_self unat_drop_bit_div u
        del: unsigned_drop_bit_eq)
  then show ?thesis
    by (simp add: word_less_nat_alt)
qed

section \<open>Lookup\<close>

text \<open>The tables have the sizes the header announces.\<close>

definition tables_ok :: "mphf_map \<Rightarrow> bool" where
  "tables_ok m \<longleftrightarrow>
     (mp_n_keys m \<noteq> 0 \<longrightarrow>
        mp_n_buckets m \<noteq> 0 \<and> length (mp_displacement m) = unat (mp_n_buckets m) \<and>
        length (mp_slot_offsets m) = unat (mp_n_keys m))"

lemma index_lookup_ok:
  assumes "tables_ok m" "mp_n_keys m \<noteq> 0"
  shows "\<exists>idx. index_lookup m k8 = Some idx \<and> unat idx < length (mp_slot_offsets m)"
proof -
  have t: "mp_n_buckets m \<noteq> 0" "length (mp_displacement m) = unat (mp_n_buckets m)"
    "length (mp_slot_offsets m) = unat (mp_n_keys m)"
    using assms by (auto simp: tables_ok_def)
  have b: "unat (fast_mod_u32 x (mp_n_buckets m)) < length (mp_displacement m)" for x
    using fast_mod_less [OF t(1), of x] by (simp add: t(2) word_less_nat_alt)
  have "unat (fast_mod_u32 x (mp_n_keys m)) < length (mp_slot_offsets m)" for x
    using fast_mod_less [OF assms(2), of x] by (simp add: t(3) word_less_nat_alt)
  then show ?thesis
    by (simp add: index_lookup_def Let_def at_in_range [OF b])
qed

lemma scan_collisions_sound:
  "scan_collisions ka k8 key cs = Some (Some off) \<Longrightarrow>
   ka off = Some key \<and> off \<in> (\<lambda>c. unat (snd c)) ` set cs"
  by (induction ka k8 key cs rule: scan_collisions.induct)
     (auto simp: bind_eq_Some_conv split: if_splits)

lemma scan_collisions_defined:
  "(\<And>c. c \<in> set cs \<Longrightarrow> ka (unat (snd c)) \<noteq> None) \<Longrightarrow> scan_collisions ka k8 key cs \<noteq> None"
proof (induction ka k8 key cs rule: scan_collisions.induct)
  case (2 ka k8 key k off cs)
  then obtain k' where "ka (unat off) = Some k'"
    by (metis list.set_intros(1) not_None_eq snd_conv)
  with 2 show ?case
    by auto
qed simp

lemma mphf_find_sound:
  assumes "mphf_find m ka k8 key = Some (Some off)"
  shows "ka off = Some key" "off \<in> set (for_each_offset m)"
proof -
  have n: "mp_n_keys m \<noteq> 0"
    using assms by (auto simp: mphf_find_def)
  from assms n obtain idx o' where i: "at (mp_slot_offsets m) idx = Some o'"
    "(o' \<noteq> 0 \<and> ka (unat o') = Some key \<and> off = unat o') \<or> resolve_collision m ka k8 key = Some (Some off)"
    by (auto simp: mphf_find_def bind_eq_Some_conv split: if_splits)
  have "ka off = Some key \<and> off \<in> set (for_each_offset m)"
    using i(2)
  proof
    assume "o' \<noteq> 0 \<and> ka (unat o') = Some key \<and> off = unat o'"
    moreover have "o' \<in> set (mp_slot_offsets m)"
      using i(1) nth_mem by (auto simp: at_eq_Some)
    ultimately show ?thesis
      using n by (auto simp: for_each_offset_def)
  next
    assume "resolve_collision m ka k8 key = Some (Some off)"
    then show ?thesis
      using n by (auto simp: resolve_collision_def for_each_offset_def Let_def
          dest!: scan_collisions_sound in_set_dropD split: if_splits)
  qed
  then show "ka off = Some key" "off \<in> set (for_each_offset m)"
    by auto
qed

lemma mphf_find_defined:
  assumes "tables_ok m" "\<And>off. off \<in> set (for_each_offset m) \<Longrightarrow> ka off \<noteq> None"
  shows "mphf_find m ka k8 key \<noteq> None"
proof (cases "mp_n_keys m = 0")
  case False
  obtain idx where idx: "index_lookup m k8 = Some idx" "unat idx < length (mp_slot_offsets m)"
    using index_lookup_ok [OF assms(1) False] by blast
  let ?off = "mp_slot_offsets m ! unat idx"
  have "ka (unat ?off) \<noteq> None" if "?off \<noteq> 0"
    using that idx(2) False by (intro assms(2)) (auto simp: for_each_offset_def)
  moreover have "resolve_collision m ka k8 key \<noteq> None"
    unfolding resolve_collision_def Let_def using False
    by (simp del: not_None_eq, intro impI scan_collisions_defined assms(2))
      (auto simp: for_each_offset_def dest: in_set_dropD)
  ultimately show ?thesis
    using False idx by (auto simp: mphf_find_def at_in_range)
qed (simp add: mphf_find_def)

section \<open>Validated regions\<close>

lemma entry_within_data_read:
  assumes "entry_within_data ks data off"
  shows "\<exists>body. body_at data off = Some body \<and> ks \<le> length body \<and> off + 8 + length body \<le> length data \<and>
    key_at ks data off = Some (take ks body)"
proof -
  obtain len :: u64 where len: "read_word data off = Some len" "unat len \<le> length data - off - 8" "ks \<le> unat len"
    and off: "off + 8 \<le> length data"
    using assms by (auto simp: entry_within_data_def split: if_splits option.splits)
  have "off + 8 + unat len \<le> length data"
    using off len(2) by linarith
  then show ?thesis
    using len by (simp add: body_at_def key_at_def read_bytes_def min_def)
qed

lemma read_header_defined: "56 \<le> length b \<Longrightarrow> read_header b \<noteq> None"
  unfolding read_header_def by (simp add: read_word_def read_bytes_def)

lemma length_pairs: "length (pairs xs) = length xs div 2"
  by (induction xs rule: pairs.induct) auto

lemma mphf_of_defined:
  assumes "read_header b = Some h" "h_n_keys h \<noteq> 0" "sections_ok region_size h" "length b = unat region_size"
  obtains m data where "mphf_of b = Some (m, data)" "tables_ok m" "mp_n_keys m = h_n_keys h"
    "length data = unat (h_data_size h)"
proof -
  have w: "unat (h_displacement_offset h) + unat (h_n_buckets h) * 8 \<le> length b"
    "unat (h_slot_offsets_offset h) + unat (h_n_keys h) * 4 \<le> length b"
    "unat (h_data_offset h) + unat (h_data_size h) \<le> length b" "h_n_buckets h \<noteq> 0"
    using assms(3,4) by (auto simp: sections_ok_def within_def)
  have c: "unat (h_collisions_offset h) + 2 * (unat (h_collisions_size h) div 16) * 8 \<le> length b
      \<or> h_collisions_size h = 0"
    using assms(3,4) by (auto simp: sections_ok_def within_def word_neq_0_conv)
  obtain dis :: "u64 list" where dis: "read_words b (unat (h_displacement_offset h)) (unat (h_n_buckets h)) = Some dis"
    using read_words_in_range [of _ _ b, where 'a = 64] w(1) by fastforce
  obtain so :: "u32 list" where so: "read_words b (unat (h_slot_offsets_offset h)) (unat (h_n_keys h)) = Some so"
    using read_words_in_range [of _ _ b, where 'a = 32] w(2) by fastforce
  obtain co :: "u64 list" where
    co: "read_words b (unat (h_collisions_offset h)) (2 * (unat (h_collisions_size h) div 16)) = Some co"
  proof (cases "h_collisions_size h = 0")
    case False
    then show ?thesis
      using read_words_in_range [of "unat (h_collisions_offset h)" "2 * (unat (h_collisions_size h) div 16)" b,
          where 'a = 64] c that by auto
  qed (use that in simp)
  obtain data where data: "read_bytes b (unat (h_data_offset h)) (unat (h_data_size h)) = Some data"
    using read_bytes_in_range w(3) by blast
  show ?thesis
  proof
    show "mphf_of b = Some (\<lparr>mp_n_keys = h_n_keys h, mp_n_buckets = h_n_buckets h, mp_seed_factor = h_seed_factor h,
              mp_displacement = dis, mp_slot_offsets = so, mp_collisions = pairs co\<rparr>, data)"
      using assms(1,2) dis so co data by (simp add: mphf_of_def)
    show "tables_ok \<lparr>mp_n_keys = h_n_keys h, mp_n_buckets = h_n_buckets h, mp_seed_factor = h_seed_factor h,
              mp_displacement = dis, mp_slot_offsets = so, mp_collisions = pairs co\<rparr>"
      using w(4) read_words_length [OF dis] read_words_length [OF so] by (simp add: tables_ok_def)
  qed (use read_bytes_length [OF data] in simp_all)
qed

lemma validate_mphf_tables:
  assumes "validate_mphf ks base region_off region_size magic" "region_size \<noteq> 0"
  defines "region \<equiv> take (unat region_size) (drop (unat region_off) base)"
  obtains m data where "mphf_of region = Some (m, data)" "tables_ok m"
    "\<And>off. off \<in> set (for_each_offset m) \<Longrightarrow> entry_within_data ks data off"
proof -
  have r: "unat region_off + unat region_size \<le> length base" "56 \<le> unat region_size"
    using assms(1,2) by (auto simp: validate_mphf_def split: if_splits)
  then have len: "length region = unat region_size"
    by (simp add: region_def)
  then obtain h where h: "read_header region = Some h"
    using read_header_defined r(2) by fastforce
  show ?thesis
  proof (cases "h_n_keys h = 0")
    case True
    with h that show ?thesis
      by (force simp: mphf_of_def tables_ok_def for_each_offset_def)
  next
    case False
    then have ok: "sections_ok region_size h"
      using assms(1,2) h unfolding region_def by (auto simp: validate_mphf_def Let_def split: if_splits)
    obtain m data where m: "mphf_of region = Some (m, data)" "tables_ok m"
      using mphf_of_defined [OF h False ok len] by metis
    show ?thesis
    proof (rule that [OF m])
      fix off assume "off \<in> set (for_each_offset m)"
      then show "entry_within_data ks data off"
        using assms(1,2) h False ok m(1) unfolding region_def
        by (auto simp: validate_mphf_def Let_def list_all_iff for_each_offset_def split: if_splits)
    qed
  qed
qed


text \<open>A 64-bit load is two 32-bit ones.\<close>

lemma load_little_words:
  assumes "8 \<le> length bs"
  shows "(load_little bs :: u64) = ucast (load_little bs :: u32) OR push_bit 32 (ucast (load_little (drop 4 bs) :: u32))"
proof -
  define lo hi where "lo = take 4 bs" and "hi = take 4 (drop 4 bs)"
  have l: "length lo = 4" "length hi = 4"
    using assms by (simp_all add: lo_def hi_def)
  have b: "le_nat lo < 2 ^ 32" "le_nat hi < 2 ^ 32"
    using le_nat_bound [of lo] le_nat_bound [of hi] l by simp_all
  have "take 8 bs = lo @ hi"
    using take_add [of 4 4 bs] by (simp add: lo_def hi_def)
  then have w: "(load_little bs :: u64) = of_nat (le_nat lo) + 2 ^ 32 * of_nat (le_nat hi)"
    by (simp add: load_little_def le_nat_append l)
  have u: "(ucast (load_little bs :: u32) :: u64) = of_nat (le_nat lo)"
    "(ucast (load_little (drop 4 bs) :: u32) :: u64) = of_nat (le_nat hi)"
    using b by (simp_all add: load_little_def lo_def hi_def word_unat_eq_iff unat_ucast_up unat_of_nat)
  have "\<not> bit (of_nat (le_nat lo) :: u64) n" if "32 \<le> n" for n
  proof -
    have "\<not> bit (ucast (load_little bs :: u32) :: u64) n"
      using that by (auto simp: bit_simps dest: bit_imp_le_length)
    then show ?thesis
      by (simp only: u(1) not_False_eq_True)
  qed
  then have "of_nat (le_nat lo) OR push_bit 32 (of_nat (le_nat hi) :: u64) = of_nat (le_nat lo) + push_bit 32 (of_nat (le_nat hi))"
    by (intro disjunctive_add [symmetric]) (auto simp: bit_simps not_le [symmetric])
  then show ?thesis
    unfolding u w by (simp add: push_bit_eq_mult mult.commute)
qed

lemma addr_key8_words_eq:
  assumes "length addr = 20"
  shows "addr_key8_words addr = addr_key8 addr"
proof -
  define w0 w1 :: u32 where "w0 = load_little addr" and "w1 = load_little (drop 4 addr)"
  have w: "(load_little addr :: u64) = ucast w0 OR push_bit 32 (ucast w1)"
    using load_little_words [of addr] assms by (simp add: w0_def w1_def)
  have m: "(0x00FFFFFFFFFFFFFF :: u64) = mask 56" "(0x00FFFFFF :: u32) = mask 24"
    by (simp_all add: mask_eq_exp_minus_1)
  show ?thesis
    unfolding addr_key8_words_def addr_key8_def w Let_def w0_def [symmetric] w1_def [symmetric] m
    by (rule bit_word_eqI) (auto simp: bit_simps dest: bit_imp_le_length)
qed


definition sample_region :: bytes where
  "sample_region =
     [7, 0, 0, 0, 3, 0, 0, 0, 1, 0, 0, 0, 1, 0, 0, 0, 0, 0, 0, 0, 0, 0, 0, 0, 0, 0, 0, 0, 0, 0, 0, 0,
      72, 0, 0, 0, 0, 0, 0, 0, 56, 0, 0, 0, 64, 0, 0, 0, 72, 0, 0, 0, 24, 0, 0, 0,
      0, 0, 0, 0, 0, 0, 0, 0, 8, 0, 0, 0, 0, 0, 0, 0,
      0, 0, 0, 0, 0, 0, 0, 0, 3, 0, 0, 0, 0, 0, 0, 0, 1, 2, 9, 0, 0, 0, 0, 0]"


end
