(* ===== verification/Chain_Config.thy ===== *)
theory Chain_Config
  imports Types_Basic
begin

text \<open>
  The chain configuration (chain/config.hpp, chain/config.cpp): the fork schedule, the EVM revision and
  the blob parameters in force at a block, the list of fork points, and the known networks.
\<close>

section \<open>Revisions\<close>

text \<open>The EVM revisions the code names, in the order of their numeric values.\<close>

datatype evmc_revision =
    EVMC_FRONTIER
  | EVMC_HOMESTEAD
  | EVMC_TANGERINE_WHISTLE
  | EVMC_SPURIOUS_DRAGON
  | EVMC_BYZANTIUM
  | EVMC_PETERSBURG
  | EVMC_ISTANBUL
  | EVMC_BERLIN
  | EVMC_LONDON
  | EVMC_PARIS
  | EVMC_SHANGHAI
  | EVMC_CANCUN
  | EVMC_PRAGUE
  | EVMC_OSAKA
  | EVMC_AMSTERDAM

fun revision_rank :: "evmc_revision \<Rightarrow> nat" where
  "revision_rank EVMC_FRONTIER = 0"
| "revision_rank EVMC_HOMESTEAD = 1"
| "revision_rank EVMC_TANGERINE_WHISTLE = 2"
| "revision_rank EVMC_SPURIOUS_DRAGON = 3"
| "revision_rank EVMC_BYZANTIUM = 4"
| "revision_rank EVMC_PETERSBURG = 5"
| "revision_rank EVMC_ISTANBUL = 6"
| "revision_rank EVMC_BERLIN = 7"
| "revision_rank EVMC_LONDON = 8"
| "revision_rank EVMC_PARIS = 9"
| "revision_rank EVMC_SHANGHAI = 10"
| "revision_rank EVMC_CANCUN = 11"
| "revision_rank EVMC_PRAGUE = 12"
| "revision_rank EVMC_OSAKA = 13"
| "revision_rank EVMC_AMSTERDAM = 14"

lemma revision_rank_inject: "revision_rank a = revision_rank b \<longleftrightarrow> a = b"
  by (cases a; cases b) simp_all

instantiation evmc_revision :: linorder
begin

definition less_eq_evmc_revision :: "evmc_revision \<Rightarrow> evmc_revision \<Rightarrow> bool" where
  "less_eq_evmc_revision a b \<longleftrightarrow> revision_rank a \<le> revision_rank b"

definition less_evmc_revision :: "evmc_revision \<Rightarrow> evmc_revision \<Rightarrow> bool" where
  "less_evmc_revision a b \<longleftrightarrow> revision_rank a < revision_rank b"

instance
  by standard (auto simp: less_eq_evmc_revision_def less_evmc_revision_def revision_rank_inject)

end

lemmas revision_order = less_eq_evmc_revision_def less_evmc_revision_def

section \<open>The configuration\<close>

type_synonym block_num = u64
type_synonym block_time = u64

datatype pre_merge_rule_set_config = NoPreMergeConfig | EthashConfig

record blob_params =
  bp_target :: u16
  bp_max :: u16
  base_fee_update_fraction :: u32

record chain_config =
  cc_chain_id :: u64
  genesis_hash :: "bytes32 option"
  homestead_block :: "block_num option"
  dao_block :: "block_num option"
  tangerine_whistle_block :: "block_num option"
  spurious_dragon_block :: "block_num option"
  byzantium_block :: "block_num option"
  constantinople_block :: "block_num option"
  petersburg_block :: "block_num option"
  istanbul_block :: "block_num option"
  muir_glacier_block :: "block_num option"
  berlin_block :: "block_num option"
  london_block :: "block_num option"
  burnt_contract :: "(block_num \<times> address) list"
  arrow_glacier_block :: "block_num option"
  gray_glacier_block :: "block_num option"
  terminal_total_difficulty :: "u256 option"
  merge_netsplit_block :: "block_num option"
  shanghai_time :: "block_time option"
  cancun_time :: "block_time option"
  prague_time :: "block_time option"
  osaka_time :: "block_time option"
  bpo1_time :: "block_time option"
  bpo2_time :: "block_time option"
  bpo3_time :: "block_time option"
  bpo4_time :: "block_time option"
  amsterdam_time :: "block_time option"
  rule_set_config :: pre_merge_rule_set_config

definition default_config :: chain_config where
  "default_config =
     \<lparr>cc_chain_id = 0, genesis_hash = None, homestead_block = None, dao_block = None,
      tangerine_whistle_block = None, spurious_dragon_block = None, byzantium_block = None,
      constantinople_block = None, petersburg_block = None, istanbul_block = None,
      muir_glacier_block = None, berlin_block = None, london_block = None, burnt_contract = [],
      arrow_glacier_block = None, gray_glacier_block = None, terminal_total_difficulty = None,
      merge_netsplit_block = None, shanghai_time = None, cancun_time = None, prague_time = None,
      osaka_time = None, bpo1_time = None, bpo2_time = None, bpo3_time = None, bpo4_time = None,
      amsterdam_time = None, rule_set_config = NoPreMergeConfig\<rparr>"

text \<open>\<open>fork && x >= fork\<close>.\<close>

fun reached :: "u64 option \<Rightarrow> u64 \<Rightarrow> bool" where
  "reached None x = False"
| "reached (Some fork) x = (x \<ge> fork)"

definition valid_pre_merge_config :: "chain_config \<Rightarrow> bool" where
  "valid_pre_merge_config c =
     (let has_pre_merge_config = (rule_set_config c \<noteq> NoPreMergeConfig);
          has_merge_at_genesis =
            (case terminal_total_difficulty c of None \<Rightarrow> True | Some ttd \<Rightarrow> ttd = 0)
      in has_pre_merge_config \<or> has_merge_at_genesis)"

definition withdrawals_activated :: "chain_config \<Rightarrow> block_time \<Rightarrow> bool" where
  "withdrawals_activated c block_time = reached (shanghai_time c) block_time"

definition is_london :: "chain_config \<Rightarrow> block_num \<Rightarrow> bool" where
  "is_london c block_num = reached (london_block c) block_num"

definition revision :: "chain_config \<Rightarrow> block_num \<Rightarrow> block_time \<Rightarrow> evmc_revision" where
  "revision c block_num block_time =
     (if reached (amsterdam_time c) block_time then EVMC_AMSTERDAM
      else if reached (osaka_time c) block_time then EVMC_OSAKA
      else if reached (prague_time c) block_time then EVMC_PRAGUE
      else if reached (cancun_time c) block_time then EVMC_CANCUN
      else if reached (shanghai_time c) block_time then EVMC_SHANGHAI
      else if reached (london_block c) block_num then EVMC_LONDON
      else if reached (berlin_block c) block_num then EVMC_BERLIN
      else if reached (istanbul_block c) block_num then EVMC_ISTANBUL
      else if reached (petersburg_block c) block_num then EVMC_PETERSBURG
      else if reached (constantinople_block c) block_num then EVMC_PETERSBURG
      else if reached (byzantium_block c) block_num then EVMC_BYZANTIUM
      else if reached (spurious_dragon_block c) block_num then EVMC_SPURIOUS_DRAGON
      else if reached (tangerine_whistle_block c) block_num then EVMC_TANGERINE_WHISTLE
      else if reached (homestead_block c) block_num then EVMC_HOMESTEAD
      else EVMC_FRONTIER)"

definition is_prague :: "chain_config \<Rightarrow> block_num \<Rightarrow> block_time \<Rightarrow> bool" where
  "is_prague c block_num block_time = (revision c block_num block_time \<ge> EVMC_PRAGUE)"

definition blob_params_at :: "chain_config \<Rightarrow> block_time \<Rightarrow> blob_params" where
  "blob_params_at c block_time =
     (if reached (amsterdam_time c) block_time
      then \<lparr>bp_target = 14, bp_max = 21, base_fee_update_fraction = 11684671\<rparr>
      else if reached (bpo4_time c) block_time
      then \<lparr>bp_target = 14, bp_max = 21, base_fee_update_fraction = 13739630\<rparr>
      else if reached (bpo3_time c) block_time
      then \<lparr>bp_target = 21, bp_max = 32, base_fee_update_fraction = 20609697\<rparr>
      else if reached (bpo2_time c) block_time
      then \<lparr>bp_target = 14, bp_max = 21, base_fee_update_fraction = 11684671\<rparr>
      else if reached (bpo1_time c) block_time
      then \<lparr>bp_target = 10, bp_max = 15, base_fee_update_fraction = 8346193\<rparr>
      else if reached (osaka_time c) block_time
      then \<lparr>bp_target = 6, bp_max = 9, base_fee_update_fraction = 5007716\<rparr>
      else if reached (prague_time c) block_time
      then \<lparr>bp_target = 6, bp_max = 9, base_fee_update_fraction = 5007716\<rparr>
      else if reached (cancun_time c) block_time
      then \<lparr>bp_target = 3, bp_max = 6, base_fee_update_fraction = 3338477\<rparr>
      else \<lparr>bp_target = 0, bp_max = 0, base_fee_update_fraction = 0\<rparr>)"

text \<open>\<open>value_or\<close>, and the ascending contents of a \<open>std::set\<close> filled by insertions, without 0.\<close>

fun value_or :: "'a option \<Rightarrow> 'a \<Rightarrow> 'a" where
  "value_or None d = d"
| "value_or (Some x) d = x"

definition ascending_set :: "u64 list \<Rightarrow> u64 list" where
  "ascending_set xs = sorted_list_of_set (set xs - {0})"

definition distinct_fork_block_nums :: "chain_config \<Rightarrow> block_num list" where
  "distinct_fork_block_nums c =
     ascending_set
       [value_or (homestead_block c) 0, value_or (dao_block c) 0,
        value_or (tangerine_whistle_block c) 0, value_or (spurious_dragon_block c) 0,
        value_or (byzantium_block c) 0, value_or (constantinople_block c) 0,
        value_or (petersburg_block c) 0, value_or (istanbul_block c) 0,
        value_or (muir_glacier_block c) 0, value_or (berlin_block c) 0, value_or (london_block c) 0,
        value_or (arrow_glacier_block c) 0, value_or (gray_glacier_block c) 0,
        value_or (merge_netsplit_block c) 0]"

definition distinct_fork_times :: "chain_config \<Rightarrow> block_time list" where
  "distinct_fork_times c =
     ascending_set [value_or (shanghai_time c) 0, value_or (cancun_time c) 0, value_or (prague_time c) 0]"

definition distinct_fork_points :: "chain_config \<Rightarrow> u64 list" where
  "distinct_fork_points c = distinct_fork_block_nums c @ distinct_fork_times c"

section \<open>Known networks\<close>

definition kMainnetConfig :: chain_config where
  "kMainnetConfig = default_config
     \<lparr>cc_chain_id := 1, homestead_block := Some 1150000, dao_block := Some 1920000,
      tangerine_whistle_block := Some 2463000, spurious_dragon_block := Some 2675000,
      byzantium_block := Some 4370000, constantinople_block := Some 7280000,
      petersburg_block := Some 7280000, istanbul_block := Some 9069000,
      muir_glacier_block := Some 9200000, berlin_block := Some 12244000,
      london_block := Some 12965000, arrow_glacier_block := Some 13773000,
      gray_glacier_block := Some 15050000,
      terminal_total_difficulty := Some 58750000000000000000000,
      shanghai_time := Some 1681338455, cancun_time := Some 1710338135,
      prague_time := Some 1746612311, osaka_time := Some 1764798551,
      bpo1_time := Some 1765290071, bpo2_time := Some 1767747671,
      rule_set_config := EthashConfig\<rparr>"

definition kHoleskyConfig :: chain_config where
  "kHoleskyConfig = default_config
     \<lparr>cc_chain_id := 17000, homestead_block := Some 0, tangerine_whistle_block := Some 0,
      spurious_dragon_block := Some 0, byzantium_block := Some 0, constantinople_block := Some 0,
      petersburg_block := Some 0, istanbul_block := Some 0, berlin_block := Some 0,
      london_block := Some 0, terminal_total_difficulty := Some 0,
      shanghai_time := Some 1696000704, cancun_time := Some 1707305664,
      prague_time := Some 1740434112, osaka_time := Some 1759308480,
      bpo1_time := Some 1759800000, bpo2_time := Some 1760389824,
      rule_set_config := NoPreMergeConfig\<rparr>"

definition kSepoliaConfig :: chain_config where
  "kSepoliaConfig = default_config
     \<lparr>cc_chain_id := 11155111, homestead_block := Some 0, tangerine_whistle_block := Some 0,
      spurious_dragon_block := Some 0, byzantium_block := Some 0, constantinople_block := Some 0,
      petersburg_block := Some 0, istanbul_block := Some 0, muir_glacier_block := Some 0,
      berlin_block := Some 0, london_block := Some 0,
      terminal_total_difficulty := Some 17000000000000000,
      merge_netsplit_block := Some 1735371,
      shanghai_time := Some 1677557088, cancun_time := Some 1706655072,
      prague_time := Some 1741159776, osaka_time := Some 1760427360,
      bpo1_time := Some 1761017184, bpo2_time := Some 1761607008,
      amsterdam_time := Some 1791294816, rule_set_config := EthashConfig\<rparr>"

section \<open>The fork schedule\<close>

text \<open>Every fork that changes the revision, with the coordinate of the block that triggers it.\<close>

definition time_forks :: "chain_config \<Rightarrow> (evmc_revision \<times> u64 option) list" where
  "time_forks c =
     [(EVMC_AMSTERDAM, amsterdam_time c), (EVMC_OSAKA, osaka_time c), (EVMC_PRAGUE, prague_time c),
      (EVMC_CANCUN, cancun_time c), (EVMC_SHANGHAI, shanghai_time c)]"

definition block_forks :: "chain_config \<Rightarrow> (evmc_revision \<times> u64 option) list" where
  "block_forks c =
     [(EVMC_LONDON, london_block c), (EVMC_BERLIN, berlin_block c), (EVMC_ISTANBUL, istanbul_block c),
      (EVMC_PETERSBURG, petersburg_block c), (EVMC_PETERSBURG, constantinople_block c),
      (EVMC_BYZANTIUM, byzantium_block c), (EVMC_SPURIOUS_DRAGON, spurious_dragon_block c),
      (EVMC_TANGERINE_WHISTLE, tangerine_whistle_block c), (EVMC_HOMESTEAD, homestead_block c)]"

definition fork_schedule :: "chain_config \<Rightarrow> block_num \<Rightarrow> block_time \<Rightarrow> (evmc_revision \<times> u64 option \<times> u64) list" where
  "fork_schedule c n t =
     map (\<lambda>(r, fork). (r, fork, t)) (time_forks c) @ map (\<lambda>(r, fork). (r, fork, n)) (block_forks c)"

definition reached_forks :: "chain_config \<Rightarrow> block_num \<Rightarrow> block_time \<Rightarrow> evmc_revision set" where
  "reached_forks c n t = {r. \<exists>fork x. (r, fork, x) \<in> set (fork_schedule c n t) \<and> reached fork x}"

fun first_reached :: "(evmc_revision \<times> u64 option \<times> u64) list \<Rightarrow> evmc_revision" where
  "first_reached [] = EVMC_FRONTIER"
| "first_reached ((r, fork, x) # forks) = (if reached fork x then r else first_reached forks)"

lemma revision_first_reached: "revision c n t = first_reached (fork_schedule c n t)"
  by (simp add: revision_def fork_schedule_def time_forks_def block_forks_def)

lemma frontier_least [simp]: "EVMC_FRONTIER \<le> r"
  by (simp add: revision_order)

lemma first_reached_ge_iff:
  assumes "sorted_wrt (\<lambda>a b. fst b \<le> fst a) forks" "R \<noteq> EVMC_FRONTIER"
  shows "R \<le> first_reached forks \<longleftrightarrow> (\<exists>r fork x. (r, fork, x) \<in> set forks \<and> reached fork x \<and> R \<le> r)"
  using assms
proof (induction forks rule: first_reached.induct)
  case 1
  then show ?case
    by (cases R) (auto simp: revision_order)
next
  case (2 r fork x forks)
  have le: "r' \<le> r" if "(r', fork', x') \<in> set forks" for r' fork' x'
    using that 2(2) by force
  have IH: "\<not> reached fork x \<Longrightarrow> R \<le> first_reached forks \<longleftrightarrow>
      (\<exists>r fork x. (r, fork, x) \<in> set forks \<and> reached fork x \<and> R \<le> r)"
    using 2 by simp
  show ?case
  proof (cases "reached fork x")
    case True
    then show ?thesis
      using le order.trans by fastforce
  next
    case False
    then show ?thesis
      using IH by auto
  qed
qed

lemma fork_schedule_sorted: "sorted_wrt (\<lambda>a b. fst b \<le> fst a) (fork_schedule c n t)"
  by (simp add: fork_schedule_def time_forks_def block_forks_def revision_order)

text \<open>A block is at revision \<open>R\<close> or later exactly if it has reached a fork of \<open>R\<close> or later.\<close>

lemma revision_ge_iff:
  "R \<noteq> EVMC_FRONTIER \<Longrightarrow> R \<le> revision c n t \<longleftrightarrow> (\<exists>r \<in> reached_forks c n t. R \<le> r)"
  unfolding revision_first_reached first_reached_ge_iff [OF fork_schedule_sorted] reached_forks_def
  by blast

lemma reached_mono: "reached fork x \<Longrightarrow> x \<le> y \<Longrightarrow> reached fork y"
  by (cases fork) auto

lemma reached_forks_mono:
  assumes "n \<le> n'" "t \<le> t'"
  shows "reached_forks c n t \<subseteq> reached_forks c n' t'"
  using assms unfolding reached_forks_def fork_schedule_def by (force intro: reached_mono)

lemma finite_reached_forks: "finite (reached_forks c n t)"
proof -
  have "reached_forks c n t \<subseteq> fst ` set (fork_schedule c n t)"
    by (force simp: reached_forks_def)
  then show ?thesis
    by (rule finite_subset) simp
qed

text \<open>
  C30: the revision at a block is the latest of the forks it has reached, Frontier if there is none; it
  never goes back as block number and time grow, even when a schedule lists its forks out of order.
\<close>

theorem revision_latest:
  "revision c n t = Max (insert EVMC_FRONTIER (reached_forks c n t)) \<and>
   (n \<le> n' \<longrightarrow> t \<le> t' \<longrightarrow> revision c n t \<le> revision c n' t')"
proof -
  have ge: "R \<le> revision c n t \<longleftrightarrow> R = EVMC_FRONTIER \<or> (\<exists>r \<in> reached_forks c n t. R \<le> r)" for R n t
    using revision_ge_iff by (cases "R = EVMC_FRONTIER") auto
  have up: "r \<le> revision c n t" if "r \<in> insert EVMC_FRONTIER (reached_forks c n t)" for r
    using that ge [of r n t] by auto
  moreover have "revision c n t \<in> insert EVMC_FRONTIER (reached_forks c n t)"
    using ge [of "revision c n t" n t] up by (metis insert_iff order.antisym order.refl)
  ultimately have "Max (insert EVMC_FRONTIER (reached_forks c n t)) = revision c n t"
    using finite_reached_forks by (intro Max_eqI) auto
  moreover have "revision c n t \<le> revision c n' t'" if "n \<le> n'" "t \<le> t'"
    using ge [of "revision c n t"] reached_forks_mono [OF that, of c] by blast
  ultimately show ?thesis
    by metis
qed

theorem revision_latest_witness:
  "revision kMainnetConfig 15537394 1663224179 \<le> revision kMainnetConfig 17034870 1681338479"
proof -
  have "(15537394 :: u64) \<le> 17034870" "(1663224179 :: u64) \<le> 1681338479"
    by simp_all
  then show ?thesis
    using revision_latest [of kMainnetConfig 15537394 1663224179 17034870 1681338479] by blast
qed

lemma blob_params_positive:
  assumes "EVMC_CANCUN \<le> revision c n t"
  shows "0 < bp_target (blob_params_at c t)" "bp_target (blob_params_at c t) < bp_max (blob_params_at c t)"
    "bp_max (blob_params_at c t) \<le> 32"
    "3338477 \<le> base_fee_update_fraction (blob_params_at c t)"
proof -
  have "reached (amsterdam_time c) t \<or> reached (osaka_time c) t \<or> reached (prague_time c) t \<or>
      reached (cancun_time c) t"
    using assms by (auto simp: revision_def revision_order split: if_splits)
  then show "0 < bp_target (blob_params_at c t)"
      "bp_target (blob_params_at c t) < bp_max (blob_params_at c t)"
      "bp_max (blob_params_at c t) \<le> 32"
      "3338477 \<le> base_fee_update_fraction (blob_params_at c t)"
    by (auto simp: blob_params_at_def)
qed

text \<open>
  the blob parameters are set, with a target below the maximum and a fraction one can divide by,
  at every block from Cancun on.
\<close>

theorem blob_params_set:
  assumes "EVMC_CANCUN \<le> revision c n t"
  shows "0 < bp_target (blob_params_at c t) \<and>
         bp_target (blob_params_at c t) < bp_max (blob_params_at c t) \<and>
         bp_max (blob_params_at c t) \<le> 32 \<and>
         0 < base_fee_update_fraction (blob_params_at c t)"
  using blob_params_positive [OF assms] by (auto intro: less_le_trans [of 0 3338477])

theorem blob_params_set_witness:
  "0 < bp_target (blob_params_at kMainnetConfig 1750000000)"
  using blob_params_set [of kMainnetConfig 22000000 1750000000]
  by (simp add: revision_def kMainnetConfig_def default_config_def revision_order)


definition well_scheduled :: "chain_config \<Rightarrow> bool" where
  "well_scheduled c \<longleftrightarrow>
     valid_pre_merge_config c \<and>
     list_all (\<lambda>(r, fork). fork = None \<or> revision c (2 ^ 63) (value_or fork 0) = r) (time_forks c)"

text \<open>
  the known networks satisfy the pre-merge invariant, and each of their timed forks puts its own
  revision in force.
\<close>

theorem known_configs_valid:
  "well_scheduled kMainnetConfig \<and> well_scheduled kHoleskyConfig \<and> well_scheduled kSepoliaConfig"
  by (simp add: kMainnetConfig_def kHoleskyConfig_def kSepoliaConfig_def default_config_def
      well_scheduled_def time_forks_def valid_pre_merge_config_def revision_def)

end
