(* ===== verification/Transaction.thy ===== *)
theory Transaction
  imports Types_Basic
begin

text \<open>
  Transactions (types/transaction.hpp, types/transaction.cpp): access lists, EIP-7702
  authorizations, the legacy and EIP-2718 encodings and their decoder, the bytes that are signed
  and hashed, sender recovery with its cache, and the fee arithmetic.

  A \<open>Transaction\<close> object is a record holding its fields and its mutable caches. The decoder writes
  into an existing object, so the model takes that object (\<open>to\<close>) and returns the updated one: fields
  the decoder does not assign keep their old value. Pointers into the decoded buffer (\<open>items\<close>, \<open>sig\<close>)
  are the views that start there. The Keccak hash and the signature recovery are parameters.
\<close>

section \<open>Data\<close>

record access_list_entry =
  ale_account :: address
  ale_storage_keys :: "bytes32 list"

record authorization =
  auth_chain_id :: u256
  auth_address :: address
  auth_nonce :: u64
  auth_y_parity :: byte
  auth_r :: u256
  auth_s :: u256

text \<open>
  \<open>enum class TransactionType : uint8_t\<close>. The decoder casts an arbitrary byte to it, so the type is
  the byte itself with names for the enumerators.
\<close>

type_synonym transaction_type = byte

abbreviation kLegacy :: transaction_type where "kLegacy \<equiv> 0"
abbreviation kAccessList :: transaction_type where "kAccessList \<equiv> 1"
abbreviation kDynamicFee :: transaction_type where "kDynamicFee \<equiv> 2"
abbreviation kBlob :: transaction_type where "kBlob \<equiv> 3"
abbreviation kSetCode :: transaction_type where "kSetCode \<equiv> 4"
abbreviation kSystem :: transaction_type where "kSystem \<equiv> 0xFF"

record unsigned_transaction =
  tx_type :: transaction_type
  tx_chain_id :: "u256 option"
  tx_nonce :: u64
  tx_max_priority_fee_per_gas :: u256
  tx_max_fee_per_gas :: u256
  tx_gas_limit :: u64
  tx_to :: "address option"
  tx_value :: u256
  tx_data :: bytes
  tx_access_list :: "access_list_entry list"
  tx_max_fee_per_blob_gas :: u256
  tx_blob_versioned_hashes :: "bytes32 list"
  tx_authorizations :: "authorization list"

record transaction = unsigned_transaction +
  tx_odd_y_parity :: bool
  tx_r :: u256
  tx_s :: u256
  tx_rlp_encoded :: bytes
  tx_rlp_unsigned :: bytes
  tx_sender :: "address option"
  tx_sender_recovered :: bool
  tx_data_non_zero_bytes :: nat
  tx_cached_hash :: bytes32
  tx_hash_computed :: bool

text \<open>A default-constructed \<open>Transaction\<close>.\<close>

definition empty_transaction :: transaction where
  "empty_transaction =
     \<lparr>tx_type = kLegacy, tx_chain_id = None, tx_nonce = 0, tx_max_priority_fee_per_gas = 0,
      tx_max_fee_per_gas = 0, tx_gas_limit = 0, tx_to = None, tx_value = 0, tx_data = [],
      tx_access_list = [], tx_max_fee_per_blob_gas = 0, tx_blob_versioned_hashes = [],
      tx_authorizations = [], tx_odd_y_parity = False, tx_r = 0, tx_s = 0, tx_rlp_encoded = [],
      tx_rlp_unsigned = [], tx_sender = None, tx_sender_recovered = False,
      tx_data_non_zero_bytes = 0, tx_cached_hash = replicate 32 0, tx_hash_computed = False\<rparr>"

section \<open>Access lists and authorizations\<close>

definition access_list_entry_header :: "access_list_entry \<Rightarrow> rlp_header" where
  "access_list_entry_header e =
     \<lparr>is_list = True,
      payload_length = kAddressLength + 1 + length_vector length_bytes (ale_storage_keys e)\<rparr>"

definition length_access_list_entry :: "access_list_entry \<Rightarrow> nat" where
  "length_access_list_entry e =
     (let h = access_list_entry_header e in length_of_length (payload_length h) + payload_length h)"

definition encode_access_list_entry :: "access_list_entry \<Rightarrow> bytes" where
  "encode_access_list_entry e =
     encode_header (access_list_entry_header e) @ encode_bytes (ale_account e)
       @ encode_vector encode_bytes length_bytes (ale_storage_keys e)"

definition authorization_header :: "authorization \<Rightarrow> rlp_header" where
  "authorization_header a =
     \<lparr>is_list = True,
      payload_length = length_uint (auth_chain_id a) + (kAddressLength + 1)
        + length_uint (auth_nonce a) + length_u8 (auth_y_parity a)
        + length_uint (auth_r a) + length_uint (auth_s a)\<rparr>"

definition length_authorization :: "authorization \<Rightarrow> nat" where
  "length_authorization a =
     (let h = authorization_header a in length_of_length (payload_length h) + payload_length h)"

definition encode_authorization :: "authorization \<Rightarrow> bytes" where
  "encode_authorization a =
     encode_header (authorization_header a) @ encode_uint (auth_chain_id a)
       @ encode_bytes (auth_address a) @ encode_uint (auth_nonce a) @ encode_u8 (auth_y_parity a)
       @ encode_uint (auth_r a) @ encode_uint (auth_s a)"

definition decode_access_list_entry :: "bytes \<Rightarrow> leftover \<Rightarrow> access_list_entry decoded" where
  "decode_access_list_entry = decode_list_with (\<lambda>leftover from.
     rbind (decode_array 20 from KAllow) (\<lambda>(account, from).
     rbind (decode_vector (decode_array 32) from KAllow) (\<lambda>(storage_keys, from).
       Inr (\<lparr>ale_account = account, ale_storage_keys = storage_keys\<rparr>, from))))"

definition decode_authorization :: "bytes \<Rightarrow> leftover \<Rightarrow> authorization decoded" where
  "decode_authorization = decode_list_with (\<lambda>leftover from.
     rbind (decode_uint from KAllow) (\<lambda>(chain_id, from).
     rbind (decode_array 20 from KAllow) (\<lambda>(address, from).
     rbind (decode_uint from KAllow) (\<lambda>(nonce, from).
     rbind (decode_uint from KAllow) (\<lambda>(y_parity, from).
     rbind (decode_uint from KAllow) (\<lambda>(r, from).
     rbind (decode_uint from KAllow) (\<lambda>(s, from).
       Inr (\<lparr>auth_chain_id = chain_id, auth_address = address, auth_nonce = nonce,
             auth_y_parity = y_parity, auth_r = r, auth_s = s\<rparr>, from))))))))"

text \<open>\<open>Authorization::v\<close>: the \<open>uint8_t\<close> parity is converted to \<open>bool\<close>.\<close>

definition authorization_v :: "authorization \<Rightarrow> u256" where
  "authorization_v a = y_parity_and_chain_id_to_v (auth_y_parity a \<noteq> 0) (Some (auth_chain_id a))"

definition is_code_delegated :: "bytes \<Rightarrow> bool" where
  "is_code_delegated code = prefix [0xEF, 0x01, 0x00] code"

section \<open>Encoding\<close>

definition transaction_v :: "transaction \<Rightarrow> u256" where
  "transaction_v txn = y_parity_and_chain_id_to_v (tx_odd_y_parity txn) (tx_chain_id txn)"

definition chain_id_or_0 :: "'a unsigned_transaction_scheme \<Rightarrow> u256" where
  "chain_id_or_0 txn = (case tx_chain_id txn of Some c \<Rightarrow> c | None \<Rightarrow> 0)"

definition header_base :: "'a unsigned_transaction_scheme \<Rightarrow> rlp_header" where
  "header_base txn =
     \<lparr>is_list = True,
      payload_length =
        (if tx_type txn \<noteq> kLegacy then length_uint (chain_id_or_0 txn) else 0)
        + length_uint (tx_nonce txn)
        + (if tx_type txn = kDynamicFee \<or> tx_type txn = kBlob \<or> tx_type txn = kSetCode
           then length_uint (tx_max_priority_fee_per_gas txn) else 0)
        + length_uint (tx_max_fee_per_gas txn)
        + length_uint (tx_gas_limit txn)
        + (if tx_to txn \<noteq> None then kAddressLength + 1 else 1)
        + length_uint (tx_value txn)
        + length_bytes (tx_data txn)
        + (if tx_type txn \<noteq> kLegacy
           then length_vector length_access_list_entry (tx_access_list txn)
             + (if tx_type txn = kBlob
                then length_uint (tx_max_fee_per_blob_gas txn)
                  + length_vector length_bytes (tx_blob_versioned_hashes txn) else 0)
             + (if tx_type txn = kSetCode
                then length_vector length_authorization (tx_authorizations txn) else 0)
           else 0)\<rparr>"

text \<open>The header of the unsigned transaction, and that of the signed one.\<close>

definition unsigned_header :: "'a unsigned_transaction_scheme \<Rightarrow> rlp_header" where
  "unsigned_header txn =
     (let h = header_base txn
      in case tx_chain_id txn of
           Some c \<Rightarrow> if tx_type txn = kLegacy
                     then h\<lparr>payload_length := payload_length h + length_uint c + 2\<rparr> else h
         | None \<Rightarrow> h)"

definition signed_header :: "transaction \<Rightarrow> rlp_header" where
  "signed_header txn =
     (let h = header_base txn
      in h\<lparr>payload_length := payload_length h
             + (if tx_type txn \<noteq> kLegacy then length_bool (tx_odd_y_parity txn)
                else length_uint (transaction_v txn))
             + length_uint (tx_r txn) + length_uint (tx_s txn)\<rparr>)"

definition length_transaction :: "transaction \<Rightarrow> bool \<Rightarrow> nat" where
  "length_transaction txn wrap_eip2718_into_string =
     (let h = signed_header txn;
          rlp_len = length_of_length (payload_length h) + payload_length h
      in if tx_type txn \<noteq> kLegacy \<and> wrap_eip2718_into_string
         then length_of_length (rlp_len + 1) + rlp_len + 1 else rlp_len)"

definition encode_to :: "address option \<Rightarrow> bytes" where
  "encode_to t = (case t of Some a \<Rightarrow> encode_bytes a | None \<Rightarrow> [kEmptyStringCode])"

definition legacy_encode_base :: "'a unsigned_transaction_scheme \<Rightarrow> bytes" where
  "legacy_encode_base txn =
     encode_uint (tx_nonce txn) @ encode_uint (tx_max_fee_per_gas txn)
       @ encode_uint (tx_gas_limit txn) @ encode_to (tx_to txn) @ encode_uint (tx_value txn)
       @ encode_bytes (tx_data txn)"

definition eip2718_items :: "'a unsigned_transaction_scheme \<Rightarrow> bytes" where
  "eip2718_items txn =
     encode_uint (chain_id_or_0 txn) @ encode_uint (tx_nonce txn)
       @ (if tx_type txn \<noteq> kAccessList then encode_uint (tx_max_priority_fee_per_gas txn) else [])
       @ encode_uint (tx_max_fee_per_gas txn) @ encode_uint (tx_gas_limit txn)
       @ encode_to (tx_to txn) @ encode_uint (tx_value txn) @ encode_bytes (tx_data txn)
       @ encode_vector encode_access_list_entry length_access_list_entry (tx_access_list txn)
       @ (if tx_type txn = kBlob
          then encode_uint (tx_max_fee_per_blob_gas txn)
            @ encode_vector encode_bytes length_bytes (tx_blob_versioned_hashes txn) else [])
       @ (if tx_type txn = kSetCode
          then encode_vector encode_authorization length_authorization (tx_authorizations txn)
          else [])"

definition eip2718_encode_for_signing ::
  "'a unsigned_transaction_scheme \<Rightarrow> rlp_header \<Rightarrow> bool \<Rightarrow> bytes" where
  "eip2718_encode_for_signing txn h wrap_eip2718_into_string =
     (if wrap_eip2718_into_string
      then encode_header \<lparr>is_list = False,
             payload_length = length_of_length (payload_length h) + payload_length h + 1\<rparr> else [])
       @ [tx_type txn] @ encode_header h @ eip2718_items txn"

definition encode_transaction :: "transaction \<Rightarrow> bool \<Rightarrow> bytes" where
  "encode_transaction txn wrap_eip2718_into_string =
     (if tx_type txn = kLegacy
      then encode_header (signed_header txn) @ legacy_encode_base txn
        @ encode_uint (transaction_v txn) @ encode_uint (tx_r txn) @ encode_uint (tx_s txn)
      else eip2718_encode_for_signing txn (signed_header txn) wrap_eip2718_into_string
        @ encode_bool (tx_odd_y_parity txn) @ encode_uint (tx_r txn) @ encode_uint (tx_s txn))"

definition encode_for_signing :: "'a unsigned_transaction_scheme \<Rightarrow> bytes" where
  "encode_for_signing txn =
     (if tx_type txn = kLegacy
      then encode_header (unsigned_header txn) @ legacy_encode_base txn
        @ (case tx_chain_id txn of
             Some c \<Rightarrow> encode_uint c @ encode_uint (0 :: u64) @ encode_uint (0 :: u64)
           | None \<Rightarrow> [])
      else eip2718_encode_for_signing txn (unsigned_header txn) False)"

section \<open>Decoding\<close>

text \<open>\<open>Transaction::reset\<close> and \<open>set_v\<close> (false as \<open>None\<close>).\<close>

definition reset :: "transaction \<Rightarrow> transaction" where
  "reset txn = txn\<lparr>tx_sender_recovered := False, tx_data_non_zero_bytes := 0,
                   tx_hash_computed := False, tx_rlp_encoded := [], tx_rlp_unsigned := []\<rparr>"

definition set_v :: "transaction \<Rightarrow> u256 \<Rightarrow> transaction option" where
  "set_v txn v =
     (case v_to_y_parity_and_chain_id v of
        None \<Rightarrow> None
      | Some (odd_y, chain_id) \<Rightarrow>
          Some (reset (txn\<lparr>tx_odd_y_parity := odd_y, tx_chain_id := chain_id\<rparr>)))"

text \<open>The peek at the \<open>to\<close> field, shared by the legacy and the typed decoder.\<close>

definition decode_to :: "bytes \<Rightarrow> address option decoded" where
  "decode_to from =
     (if from = [] then Inl KInputTooShort
      else if hd from = kEmptyStringCode then Inr (None, tl from)
      else rbind (decode_array 20 from KAllow) (\<lambda>(a, from). Inr (Some a, from)))"

text \<open>The result carries the view at \<open>sig\<close>, where the signature items start.\<close>

definition legacy_decode_items :: "bytes \<Rightarrow> transaction \<Rightarrow> (transaction \<times> bytes) decoded" where
  "legacy_decode_items from to =
     rbind (decode_uint from KAllow) (\<lambda>(nonce, from).
     rbind (decode_uint from KAllow) (\<lambda>(fee, from).
     rbind (decode_uint from KAllow) (\<lambda>(gas_limit, from).
     rbind (decode_to from) (\<lambda>(dest, from).
     rbind (decode_uint from KAllow) (\<lambda>(val, from).
     rbind (decode_bytes from KAllow) (\<lambda>(data, from).
       let sig = from;
           to = to\<lparr>tx_nonce := nonce, tx_max_priority_fee_per_gas := fee, tx_max_fee_per_gas := fee,
                   tx_gas_limit := gas_limit, tx_to := dest, tx_value := val, tx_data := data\<rparr>
       in rbind (decode_uint from KAllow) (\<lambda>(v, from).
          case set_v to v of
            None \<Rightarrow> Inl KInvalidVInSignature
          | Some to \<Rightarrow>
              rbind (decode_uint from KAllow) (\<lambda>(r, from).
              rbind (decode_uint from KAllow) (\<lambda>(s, from).
                Inr ((to\<lparr>tx_r := r, tx_s := s\<rparr>, sig), from))))))))))"

text \<open>The item sequence of a typed transaction, and the decoder around it.\<close>

definition eip2718_decode_items :: "bytes \<Rightarrow> transaction \<Rightarrow> (transaction \<times> bytes) decoded" where
  "eip2718_decode_items from to =
     rbind (decode_uint from KAllow) (\<lambda>(chain_id, from).
     rbind (decode_uint from KAllow) (\<lambda>(nonce, from).
     rbind (decode_uint from KAllow) (\<lambda>(tip, from).
     rbind (if tx_type to = kAccessList then Inr (tip, from)
            else decode_uint from KAllow) (\<lambda>(fee, from).
     rbind (decode_uint from KAllow) (\<lambda>(gas_limit, from).
     rbind (decode_to from) (\<lambda>(dest, from).
     rbind (decode_uint from KAllow) (\<lambda>(val, from).
     rbind (decode_bytes from KAllow) (\<lambda>(data, from).
     rbind (decode_vector decode_access_list_entry from KAllow) (\<lambda>(access_list, from).
     rbind (if tx_type to \<noteq> kBlob then Inr ((0, []), from)
            else rbind (decode_uint from KAllow) (\<lambda>(fee, from).
                 rbind (decode_vector (decode_array 32) from KAllow) (\<lambda>(hashes, from).
                   Inr ((fee, hashes), from)))) (\<lambda>((blob_fee, hashes), from).
     rbind (if tx_type to = kSetCode then decode_vector decode_authorization from KAllow
            else Inr (tx_authorizations to, from)) (\<lambda>(authorizations, from).
     let sig = from in
     rbind (decode_bool from KAllow) (\<lambda>(odd_y_parity, from).
     rbind (decode_uint from KAllow) (\<lambda>(r, from).
     rbind (decode_uint from KAllow) (\<lambda>(s, from).
       Inr ((to\<lparr>tx_chain_id := Some chain_id, tx_nonce := nonce,
                tx_max_priority_fee_per_gas := tip, tx_max_fee_per_gas := fee,
                tx_gas_limit := gas_limit, tx_to := dest, tx_value := val, tx_data := data,
                tx_access_list := access_list, tx_max_fee_per_blob_gas := blob_fee,
                tx_blob_versioned_hashes := hashes, tx_authorizations := authorizations,
                tx_odd_y_parity := odd_y_parity, tx_r := r, tx_s := s\<rparr>, sig), from)))))))))))))))"

definition eip2718_decode ::
  "bytes \<Rightarrow> transaction \<Rightarrow> (transaction \<times> bytes \<times> bytes) decoded" where
  "eip2718_decode from to =
     (if tx_type to \<noteq> kAccessList \<and> tx_type to \<noteq> kDynamicFee \<and> tx_type to \<noteq> kBlob
         \<and> tx_type to \<noteq> kSetCode
      then Inl KUnsupportedTransactionType
      else rbind (decode_header from) (\<lambda>(h, from).
        if \<not> is_list h then Inl KUnexpectedString
        else let items = from in
          rbind (eip2718_decode_items from to) (\<lambda>((to, sig), from).
            if length items - length from \<noteq> payload_length h then Inl KUnexpectedListElements
            else Inr ((to, items, sig), from))))"

datatype eip2718_wrapping = KNone | KString | KBoth

definition decode_transaction ::
  "bytes \<Rightarrow> transaction \<Rightarrow> eip2718_wrapping \<Rightarrow> leftover \<Rightarrow> transaction decoded" where
  "decode_transaction from to accepted_typed_txn_wrapping mode =
     (let to = reset to in
      if from = [] then Inl KInputTooShort
      else let begin = from in
      if 0 < hd from \<and> hd from < kEmptyStringCode then
        if accepted_typed_txn_wrapping = KString then Inl KUnexpectedEip2718Serialization
        else rbind (eip2718_decode (tl from) (to\<lparr>tx_type := hd from\<rparr>)) (\<lambda>((to, items, sig), from).
          Inr (to, from))
      else rbind (decode_header from) (\<lambda>(h, from).
        if is_list h then
          let to = to\<lparr>tx_type := kLegacy, tx_access_list := [], tx_max_fee_per_blob_gas := 0,
                      tx_blob_versioned_hashes := []\<rparr>;
              leftover = length from - payload_length h
          in if mode \<noteq> KAllow \<and> leftover \<noteq> 0 then Inl KInputTooLong
             else let items = from in
               rbind (legacy_decode_items from to) (\<lambda>((to, sig), from).
                 if length from \<noteq> leftover then Inl KUnexpectedListElements
                 else Inr (to\<lparr>tx_rlp_encoded := take (length begin - length from) begin,
                              tx_rlp_unsigned := take (length items - length sig) items\<rparr>, from))
        else if accepted_typed_txn_wrapping = KNone then Inl KUnexpectedEip2718Serialization
        else if payload_length h = 0 then Inl KInputTooShort
        else let typed = from;
                 to = to\<lparr>tx_type := hd from\<rparr>;
                 from = tl from
             in rbind (eip2718_decode (take (payload_length h - 1) from) to)
                  (\<lambda>((to, items, sig), eip2718_view).
                    if eip2718_view \<noteq> [] then Inl KUnexpectedListElements
                    else let from = drop (payload_length h - 1) from in
                      if mode \<noteq> KAllow \<and> from \<noteq> [] then Inl KInputTooLong
                      else Inr (to\<lparr>tx_rlp_encoded := take (payload_length h) typed,
                                   tx_rlp_unsigned := take (length items - length sig) items\<rparr>,
                                from))))"

text \<open>\<open>decode(ByteView&, Transaction&)\<close> on a fresh object, as \<open>decode\<close> of a vector calls it.\<close>

definition decode_tx :: "bytes \<Rightarrow> leftover \<Rightarrow> transaction decoded" where
  "decode_tx from mode = decode_transaction from empty_transaction KString mode"

definition decode_transaction_header_and_type ::
  "bytes \<Rightarrow> (rlp_header \<times> transaction_type) decoded" where
  "decode_transaction_header_and_type from =
     (if from = [] then Inl KInputTooShort
      else rbind (decode_header from) (\<lambda>(header, from).
        if is_list header then Inr ((header, kLegacy), from)
        else if payload_length header = 0 then Inl KInputTooShort
        else Inr ((header, hd from), tl from)))"

section \<open>What is signed and hashed\<close>

text \<open>
  \<open>signing_payload\<close> builds the list header by hand: the count of length bytes by shifting, then the
  bytes from the most significant one down. \<open>size_t\<close> is a 64-bit word.
\<close>

function shift_count :: "u64 \<Rightarrow> nat" where
  "shift_count n = (if n \<noteq> 0 then Suc (shift_count (drop_bit 8 n)) else 0)"
  by pat_completeness auto
termination
  by (relation "measure unat") (simp, simp only: in_measure unat_drop_bit_div, simp add: unat_gt_0)

declare shift_count.simps [simp del]

definition length_byte_at :: "u64 \<Rightarrow> nat \<Rightarrow> byte" where
  "length_byte_at payload i = ucast (drop_bit (8 * i) payload)"

definition signing_payload :: "transaction \<Rightarrow> bytes" where
  "signing_payload txn =
     (if tx_rlp_unsigned txn = [] then encode_for_signing txn
      else let eip155 = (tx_type txn = kLegacy \<and> tx_chain_id txn \<noteq> None);
               payload = length (tx_rlp_unsigned txn)
                 + (if eip155 then length_uint (the (tx_chain_id txn)) + 2 else 0);
               length_bytes = (if payload \<ge> 56 then shift_count (of_nat payload) else 0)
           in (if tx_type txn \<noteq> kLegacy then [tx_type txn] else [])
              @ (if payload < 56 then [kEmptyListCode + of_nat payload]
                 else (0xF7 + of_nat length_bytes)
                   # map (length_byte_at (of_nat payload)) (rev [0..<length_bytes]))
              @ tx_rlp_unsigned txn
              @ (if eip155
                 then encode_uint (the (tx_chain_id txn)) @ [kEmptyStringCode, kEmptyStringCode]
                 else []))"

definition tx_hash :: "(bytes \<Rightarrow> bytes32) \<Rightarrow> transaction \<Rightarrow> bytes32 \<times> transaction" where
  "tx_hash keccak256 txn =
     (let txn = (if tx_hash_computed txn then txn
                 else txn\<lparr>tx_cached_hash :=
                            (if tx_rlp_encoded txn \<noteq> [] then keccak256 (tx_rlp_encoded txn)
                             else keccak256 (encode_transaction txn False)),
                          tx_hash_computed := True\<rparr>)
      in (tx_cached_hash txn, txn))"

text \<open>
  \<open>evmone::crypto::secp256k1::ecrecover\<close> and its batched form are the parameters \<open>ecrecover\<close> and
  \<open>ecrecover_batch\<close>, on inputs of message hash, \<open>r\<close>, \<open>s\<close> and parity.
\<close>

type_synonym ecrecover_input = "bytes32 \<times> bytes \<times> bytes \<times> bool"

definition silkworm_recover_address ::
  "(ecrecover_input \<Rightarrow> address option) \<Rightarrow> bytes32 \<Rightarrow> bytes \<Rightarrow> byte \<Rightarrow> address option" where
  "silkworm_recover_address ecrecover message signature recovery_id =
     ecrecover (message, take 32 signature, take 32 (drop 32 signature), recovery_id \<noteq> 0)"

definition sender ::
  "(bytes \<Rightarrow> bytes32) \<Rightarrow> (ecrecover_input \<Rightarrow> address option) \<Rightarrow> transaction \<Rightarrow>
   address option \<times> transaction" where
  "sender keccak256 ecrecover txn =
     (let txn = (if tx_sender_recovered txn then txn
                 else let hash = keccak256 (signing_payload txn);
                          signature = store_big (tx_r txn) @ store_big (tx_s txn)
                      in txn\<lparr>tx_sender_recovered := True,
                             tx_sender := silkworm_recover_address ecrecover hash signature
                                            (of_bool (tx_odd_y_parity txn))\<rparr>)
      in (tx_sender txn, txn))"

text \<open>The inputs of the batch, in the order of the transactions that are still to be recovered.\<close>

definition pending_input :: "(bytes \<Rightarrow> bytes32) \<Rightarrow> transaction \<Rightarrow> ecrecover_input" where
  "pending_input keccak256 txn =
     (keccak256 (signing_payload txn), store_big (tx_r txn), store_big (tx_s txn),
      tx_odd_y_parity txn)"

fun write_senders :: "transaction list \<Rightarrow> address option list \<Rightarrow> transaction list" where
  "write_senders [] out = []"
| "write_senders (txn # txns) out =
     (if tx_sender_recovered txn then txn # write_senders txns out
      else case out of
             [] \<Rightarrow> txn # txns
           | a # out \<Rightarrow> txn\<lparr>tx_sender_recovered := True, tx_sender := a\<rparr> # write_senders txns out)"

definition recover_senders ::
  "(bytes \<Rightarrow> bytes32) \<Rightarrow> (ecrecover_input list \<Rightarrow> address option list) \<Rightarrow>
   transaction list \<Rightarrow> transaction list" where
  "recover_senders keccak256 ecrecover_batch txns =
     (let pending = filter (\<lambda>txn. \<not> tx_sender_recovered txn) txns
      in if pending = [] then txns
         else write_senders txns (ecrecover_batch (map (pending_input keccak256) pending)))"

definition set_sender :: "transaction \<Rightarrow> address \<Rightarrow> transaction" where
  "set_sender txn a = txn\<lparr>tx_sender_recovered := True, tx_sender := Some a\<rparr>"

section \<open>Fees\<close>

definition kGasPerBlob :: u64 where
  "kGasPerBlob = push_bit 17 1"

definition total_blob_gas :: "'a unsigned_transaction_scheme \<Rightarrow> u64" where
  "total_blob_gas txn = kGasPerBlob * of_nat (length (tx_blob_versioned_hashes txn))"

text \<open>\<open>intx::umul\<close>: the full 512-bit product of two 256-bit factors.\<close>

definition umul :: "u256 \<Rightarrow> u256 \<Rightarrow> u512" where
  "umul x y = ucast x * ucast y"

definition maximum_gas_cost :: "'a unsigned_transaction_scheme \<Rightarrow> u512" where
  "maximum_gas_cost txn =
     (let max_gas_cost = umul (ucast (tx_gas_limit txn)) (tx_max_fee_per_gas txn);
          blob_gas = total_blob_gas txn
      in if blob_gas \<noteq> 0 then max_gas_cost + umul (ucast blob_gas) (tx_max_fee_per_blob_gas txn)
         else max_gas_cost)"

definition priority_fee_per_gas :: "'a unsigned_transaction_scheme \<Rightarrow> u256 \<Rightarrow> u256" where
  "priority_fee_per_gas txn base_fee_per_gas =
     min (tx_max_priority_fee_per_gas txn) (tx_max_fee_per_gas txn - base_fee_per_gas)"

definition effective_gas_price :: "'a unsigned_transaction_scheme \<Rightarrow> u256 \<Rightarrow> u256" where
  "effective_gas_price txn base_fee_per_gas =
     (if tx_type txn = kSystem then 0
      else priority_fee_per_gas txn base_fee_per_gas + base_fee_per_gas)"

section \<open>Codecs of the parts\<close>

definition valid_to :: "address option \<Rightarrow> bool" where
  "valid_to t = (case t of None \<Rightarrow> True | Some a \<Rightarrow> length a = 20)"

lemma encode_bytes_20: "length a = 20 \<Longrightarrow> encode_bytes a = 0x94 # a"
  by (simp add: encode_bytes_def encode_header_def rlp_codes)

lemma decode_to_iff:
  "decode_to from = Inr (t, rest) \<longleftrightarrow> valid_to t \<and> from = encode_to t @ rest"
  by (cases t)
     (auto simp: decode_to_def valid_to_def encode_to_def rlp_codes rbind_eq_Inr_iff
       rlp_address.dec_iff encode_bytes_20 neq_Nil_conv)

lemma length_encode_to:
  "valid_to t \<Longrightarrow> (if t \<noteq> None then kAddressLength + 1 else 1) = length (encode_to t)"
  by (auto simp: valid_to_def encode_to_def encode_bytes_20 kAddressLength_def split: option.splits)

interpretation rlp_to: rlp_item encode_to "\<lambda>t. if t \<noteq> None then kAddressLength + 1 else 1"
  decode_to valid_to
  by unfold_locales
     (rule decode_to_iff, erule length_encode_to, simp add: encode_to_def split: option.splits)

definition access_list_entry_items :: "access_list_entry \<Rightarrow> bytes" where
  "access_list_entry_items e =
     encode_bytes (ale_account e) @ encode_vector encode_bytes length_bytes (ale_storage_keys e)"

definition valid_access_list_entry :: "access_list_entry \<Rightarrow> bool" where
  "valid_access_list_entry e \<longleftrightarrow>
     length (ale_account e) = 20 \<and>
     valid_vector (\<lambda>k. length k = 32) length_bytes (ale_storage_keys e) \<and>
     length (access_list_entry_items e) < 2 ^ 64"

lemma access_list_entry_header_eq:
  "length (ale_account e) = 20 \<Longrightarrow>
   valid_vector (\<lambda>k. length k = 32) length_bytes (ale_storage_keys e) \<Longrightarrow>
   access_list_entry_header e =
     \<lparr>is_list = True, payload_length = length (access_list_entry_items e)\<rparr>"
  using rlp_hashes.len_enc [of "ale_storage_keys e"]
  by (simp add: access_list_entry_header_def access_list_entry_items_def encode_bytes_20
      kAddressLength_def)

interpretation access_list_entry_list: rlp_items access_list_entry_items
  "\<lambda>e. length (access_list_entry_items e)"
  "\<lambda>leftover from.
     rbind (decode_array 20 from KAllow) (\<lambda>(account, from).
     rbind (decode_vector (decode_array 32) from KAllow) (\<lambda>(storage_keys, from).
       Inr (\<lparr>ale_account = account, ale_storage_keys = storage_keys\<rparr>, from)))"
  "\<lambda>e. length (ale_account e) = 20 \<and>
        valid_vector (\<lambda>k. length k = 32) length_bytes (ale_storage_keys e)"
proof
  fix rest after view and x :: access_list_entry
  show "(rbind (decode_array 20 view KAllow) (\<lambda>(account, from).
     rbind (decode_vector (decode_array 32) from KAllow) (\<lambda>(storage_keys, from).
       Inr (\<lparr>ale_account = account, ale_storage_keys = storage_keys\<rparr>, from))) = Inr (x, rest)) \<longleftrightarrow>
    (length (ale_account x) = 20 \<and>
     valid_vector (\<lambda>k. length k = 32) length_bytes (ale_storage_keys x)) \<and>
    view = access_list_entry_items x @ rest"
    by (cases x) (auto simp: rbind_eq_Inr_iff basic_codec_laws access_list_entry_items_def)
qed simp

interpretation rlp_access_list_entry: rlp_codec encode_access_list_entry length_access_list_entry
  decode_access_list_entry valid_access_list_entry
proof (rule rlp_codecI)
  have e: "encode_access_list_entry x =
      encode_list_of access_list_entry_items (\<lambda>e. length (access_list_entry_items e)) x"
    if "valid_access_list_entry x" for x
    using that access_list_entry_header_eq [of x]
    by (simp add: encode_access_list_entry_def encode_list_of_def access_list_entry_items_def
        valid_access_list_entry_def)
  show "decode_access_list_entry from mode = Inr (x, rest) \<longleftrightarrow>
      valid_access_list_entry x \<and> from = encode_access_list_entry x @ rest \<and>
      (mode = KAllow \<or> rest = [])" for "from" mode x rest
    using e [of x] unfolding decode_access_list_entry_def access_list_entry_list.decode_list_with_iff
    by (auto simp: valid_list_of_def valid_access_list_entry_def)
  show "length_access_list_entry x = length (encode_access_list_entry x)"
    if "valid_access_list_entry x" for x
    using that access_list_entry_header_eq [of x]
    by (simp add: e encode_list_of_def length_access_list_entry_def encode_header_length
        valid_access_list_entry_def)
qed (simp add: encode_access_list_entry_def)

definition authorization_items :: "authorization \<Rightarrow> bytes" where
  "authorization_items a =
     encode_uint (auth_chain_id a) @ encode_bytes (auth_address a) @ encode_uint (auth_nonce a)
       @ encode_u8 (auth_y_parity a) @ encode_uint (auth_r a) @ encode_uint (auth_s a)"

definition valid_authorization :: "authorization \<Rightarrow> bool" where
  "valid_authorization a \<longleftrightarrow> length (auth_address a) = 20"

lemma authorization_header_eq:
  "valid_authorization a \<Longrightarrow>
   authorization_header a = \<lparr>is_list = True, payload_length = length (authorization_items a)\<rparr>"
  by (simp add: authorization_header_def authorization_items_def valid_authorization_def
      encode_bytes_20 kAddressLength_def length_laws)

lemma authorization_items_small:
  "valid_authorization a \<Longrightarrow> length (authorization_items a) < 2 ^ 64"
  using length_uint_u256_le [of "auth_chain_id a"] length_uint_u64_le [of "auth_nonce a"]
    length_u8_le [of "auth_y_parity a"] length_uint_u256_le [of "auth_r a"]
    length_uint_u256_le [of "auth_s a"]
  by (simp add: authorization_items_def valid_authorization_def encode_bytes_20 length_laws)

interpretation authorization_list: rlp_items authorization_items "\<lambda>a. length (authorization_items a)"
  "\<lambda>leftover from.
     rbind (decode_uint from KAllow) (\<lambda>(chain_id, from).
     rbind (decode_array 20 from KAllow) (\<lambda>(address, from).
     rbind (decode_uint from KAllow) (\<lambda>(nonce, from).
     rbind (decode_uint from KAllow) (\<lambda>(y_parity, from).
     rbind (decode_uint from KAllow) (\<lambda>(r, from).
     rbind (decode_uint from KAllow) (\<lambda>(s, from).
       Inr (\<lparr>auth_chain_id = chain_id, auth_address = address, auth_nonce = nonce,
             auth_y_parity = y_parity, auth_r = r, auth_s = s\<rparr>, from)))))))"
  valid_authorization
proof
  fix rest after view and x :: authorization
  show "(rbind (decode_uint view KAllow) (\<lambda>(chain_id, from).
     rbind (decode_array 20 from KAllow) (\<lambda>(address, from).
     rbind (decode_uint from KAllow) (\<lambda>(nonce, from).
     rbind (decode_uint from KAllow) (\<lambda>(y_parity, from).
     rbind (decode_uint from KAllow) (\<lambda>(r, from).
     rbind (decode_uint from KAllow) (\<lambda>(s, from).
       Inr (\<lparr>auth_chain_id = chain_id, auth_address = address, auth_nonce = nonce,
             auth_y_parity = y_parity, auth_r = r, auth_s = s\<rparr>, from))))))) = Inr (x, rest)) \<longleftrightarrow>
    valid_authorization x \<and> view = authorization_items x @ rest"
    by (cases x)
       (auto simp: rbind_eq_Inr_iff basic_codec_laws authorization_items_def
         valid_authorization_def)
qed simp

interpretation rlp_authorization: rlp_codec encode_authorization length_authorization
  decode_authorization valid_authorization
proof (rule rlp_codecI)
  have e: "encode_authorization x =
      encode_list_of authorization_items (\<lambda>a. length (authorization_items a)) x"
    if "valid_authorization x" for x
    using that by (simp add: authorization_header_eq encode_authorization_def encode_list_of_def
        authorization_items_def)
  show "decode_authorization from mode = Inr (x, rest) \<longleftrightarrow>
      valid_authorization x \<and> from = encode_authorization x @ rest \<and> (mode = KAllow \<or> rest = [])"
    for "from" mode x rest
    using e [of x] authorization_items_small [of x]
    unfolding decode_authorization_def authorization_list.decode_list_with_iff
    by (auto simp: valid_list_of_def)
  show "length_authorization x = length (encode_authorization x)" if "valid_authorization x" for x
    using that by (simp add: e authorization_header_eq encode_list_of_def length_authorization_def
        encode_header_length)
qed (simp add: encode_authorization_def)

interpretation rlp_access_list: rlp_codec
  "encode_vector encode_access_list_entry length_access_list_entry"
  "length_vector length_access_list_entry" "decode_vector decode_access_list_entry"
  "valid_vector valid_access_list_entry length_access_list_entry"
  by (rule rlp_access_list_entry.vector_codec)

interpretation rlp_authorizations: rlp_codec
  "encode_vector encode_authorization length_authorization"
  "length_vector length_authorization" "decode_vector decode_authorization"
  "valid_vector valid_authorization length_authorization"
  by (rule rlp_authorization.vector_codec)

lemmas tx_codec_laws = basic_codec_laws decode_to_iff rlp_access_list.dec_iff
  rlp_authorizations.dec_iff

text \<open>The same laws as rewrite rules from left to right.\<close>

lemmas item_enc_laws = rlp_bytes.item_enc rlp_u64.item_enc [OF TrueI] rlp_u256.item_enc [OF TrueI]
  rlp_u8.item_enc [OF TrueI] rlp_bool.item_enc [OF TrueI] rlp_address.item_enc
  rlp_bytes32.item_enc rlp_hashes.item_enc rlp_to.item_enc rlp_access_list.item_enc
  rlp_authorizations.item_enc

section \<open>The decoder accepts exactly the encoder's output\<close>

definition unsigned_items :: "'a unsigned_transaction_scheme \<Rightarrow> bytes" where
  "unsigned_items t = (if tx_type t = kLegacy then legacy_encode_base t else eip2718_items t)"

definition signature_items :: "transaction \<Rightarrow> bytes" where
  "signature_items t =
     (if tx_type t = kLegacy then encode_uint (transaction_v t) else encode_bool (tx_odd_y_parity t))
       @ encode_uint (tx_r t) @ encode_uint (tx_s t)"

definition typed_type :: "transaction_type \<Rightarrow> bool" where
  "typed_type ty \<longleftrightarrow> ty = kAccessList \<or> ty = kDynamicFee \<or> ty = kBlob \<or> ty = kSetCode"

text \<open>The legacy and the typed transactions that have a faithful encoding.\<close>

definition valid_legacy :: "transaction \<Rightarrow> bool" where
  "valid_legacy t \<longleftrightarrow>
     tx_type t = kLegacy \<and> valid_to (tx_to t) \<and> length (tx_data t) < 2 ^ 64 \<and>
     tx_max_priority_fee_per_gas t = tx_max_fee_per_gas t \<and>
     chain_id_fits (tx_odd_y_parity t) (tx_chain_id t) \<and>
     tx_access_list t = [] \<and> tx_max_fee_per_blob_gas t = 0 \<and> tx_blob_versioned_hashes t = []"

definition valid_typed :: "transaction \<Rightarrow> bool" where
  "valid_typed t \<longleftrightarrow>
     typed_type (tx_type t) \<and> valid_to (tx_to t) \<and> length (tx_data t) < 2 ^ 64 \<and>
     tx_chain_id t \<noteq> None \<and>
     (tx_type t = kAccessList \<longrightarrow> tx_max_priority_fee_per_gas t = tx_max_fee_per_gas t) \<and>
     valid_vector valid_access_list_entry length_access_list_entry (tx_access_list t) \<and>
     (if tx_type t = kBlob
      then valid_vector (\<lambda>k. length k = 32) length_bytes (tx_blob_versioned_hashes t)
      else tx_max_fee_per_blob_gas t = 0 \<and> tx_blob_versioned_hashes t = []) \<and>
     (tx_type t = kSetCode \<longrightarrow>
        valid_vector valid_authorization length_authorization (tx_authorizations t))"

lemma typed_not_legacy [simp]: "typed_type ty \<Longrightarrow> ty \<noteq> kLegacy"
  by (auto simp: typed_type_def)

lemma signed_header_legacy:
  "valid_legacy t \<Longrightarrow>
   signed_header t = \<lparr>is_list = True, payload_length = length (unsigned_items t @ signature_items t)\<rparr>"
  using rlp_to.len_enc [of "tx_to t"]
  by (simp add: valid_legacy_def signed_header_def header_base_def unsigned_items_def
      signature_items_def legacy_encode_base_def length_laws Let_def)

lemma signed_header_typed:
  assumes "valid_typed t"
  shows "signed_header t = \<lparr>is_list = True, payload_length = length (unsigned_items t @ signature_items t)\<rparr>"
proof -
  have "typed_type (tx_type t)" "valid_to (tx_to t)"
    using assms by (auto simp: valid_typed_def)
  moreover have "length (encode_vector encode_access_list_entry length_access_list_entry (tx_access_list t))
      = length_vector length_access_list_entry (tx_access_list t)"
    using assms by (simp add: valid_typed_def rlp_access_list.len_enc)
  moreover have "length (encode_vector encode_bytes length_bytes (tx_blob_versioned_hashes t))
      = length_vector length_bytes (tx_blob_versioned_hashes t)" if "tx_type t = kBlob"
    using assms that by (simp add: valid_typed_def rlp_hashes.len_enc)
  moreover have "length (encode_vector encode_authorization length_authorization (tx_authorizations t))
      = length_vector length_authorization (tx_authorizations t)" if "tx_type t = kSetCode"
    using assms that by (simp add: valid_typed_def rlp_authorizations.len_enc)
  ultimately show ?thesis
    using rlp_to.len_enc [of "tx_to t"] encode_bool_length [of "tx_odd_y_parity t"]
    unfolding typed_type_def
    by (elim disjE)
       (simp_all add: signed_header_def header_base_def unsigned_items_def signature_items_def
         eip2718_items_def encode_uint_length encode_bytes_length Let_def)
qed

lemma v_to_v:
  "chain_id_fits odd_y chain_id \<Longrightarrow>
   v_to_y_parity_and_chain_id (y_parity_and_chain_id_to_v odd_y chain_id) = Some (odd_y, chain_id)"
  by (simp add: v_to_iff)

lemma set_v_case_iff:
  "(case set_v to v of None \<Rightarrow> Inl e | Some to \<Rightarrow> f to) = Inr y \<longleftrightarrow>
     (\<exists>odd_y chain_id. chain_id_fits odd_y chain_id \<and>
        v = y_parity_and_chain_id_to_v odd_y chain_id \<and>
        f (reset (to\<lparr>tx_odd_y_parity := odd_y, tx_chain_id := chain_id\<rparr>)) = Inr y)"
  (is "?lhs \<longleftrightarrow> ?rhs")
proof
  assume ?lhs
  then obtain odd_y chain_id where "v_to_y_parity_and_chain_id v = Some (odd_y, chain_id)"
    "f (reset (to\<lparr>tx_odd_y_parity := odd_y, tx_chain_id := chain_id\<rparr>)) = Inr y"
    by (auto simp: set_v_def split: option.splits prod.splits)
  then show ?rhs
    unfolding v_to_iff by blast
next
  assume ?rhs
  then obtain odd_y chain_id where "v_to_y_parity_and_chain_id v = Some (odd_y, chain_id)"
    "f (reset (to\<lparr>tx_odd_y_parity := odd_y, tx_chain_id := chain_id\<rparr>)) = Inr y"
    unfolding v_to_iff by blast
  then show ?lhs
    by (simp add: set_v_def)
qed

definition legacy_update :: "transaction \<Rightarrow> transaction \<Rightarrow> transaction" where
  "legacy_update to t =
     (reset to)\<lparr>tx_chain_id := tx_chain_id t, tx_nonce := tx_nonce t,
        tx_max_priority_fee_per_gas := tx_max_fee_per_gas t,
        tx_max_fee_per_gas := tx_max_fee_per_gas t, tx_gas_limit := tx_gas_limit t,
        tx_to := tx_to t, tx_value := tx_value t, tx_data := tx_data t,
        tx_odd_y_parity := tx_odd_y_parity t, tx_r := tx_r t, tx_s := tx_s t\<rparr>"

lemma legacy_update_fields:
  assumes "t = legacy_update to t"
  shows "tx_type t = tx_type to" "tx_sender t = tx_sender to" "tx_cached_hash t = tx_cached_hash to"
    "\<not> tx_sender_recovered t" "\<not> tx_hash_computed t" "tx_data_non_zero_bytes t = 0"
    "tx_access_list t = tx_access_list to" "tx_max_fee_per_blob_gas t = tx_max_fee_per_blob_gas to"
    "tx_blob_versioned_hashes t = tx_blob_versioned_hashes to"
    "tx_authorizations t = tx_authorizations to"
    "tx_max_priority_fee_per_gas t = tx_max_fee_per_gas t"
  by (subst assms, simp add: legacy_update_def reset_def)+

lemma legacy_decode_items_iff:
  assumes "tx_type to = kLegacy"
  shows "legacy_decode_items from to = Inr ((t, sig), rest) \<longleftrightarrow>
    t = legacy_update to t \<and> valid_to (tx_to t) \<and> length (tx_data t) < 2 ^ 64 \<and>
    chain_id_fits (tx_odd_y_parity t) (tx_chain_id t) \<and>
    from = unsigned_items t @ sig \<and> sig = signature_items t @ rest" (is "?lhs \<longleftrightarrow> ?rhs")
proof
  assume ?lhs
  then show ?rhs
    using assms
    by (auto simp: legacy_decode_items_def rbind_eq_Inr_iff tx_codec_laws set_v_case_iff
        unsigned_items_def legacy_encode_base_def signature_items_def transaction_v_def reset_def
        legacy_update_def Let_def)
next
  assume r: ?rhs
  then have ty: "tx_type t = kLegacy"
    using legacy_update_fields(1) [of t to] assms by simp
  have "legacy_decode_items from to = Inr ((legacy_update to t, sig), rest)"
    using r [THEN conjunct2] ty
    by (simp add: legacy_decode_items_def item_enc_laws set_v_def v_to_v legacy_update_def
        unsigned_items_def legacy_encode_base_def signature_items_def transaction_v_def reset_def)
  then show ?lhs
    using r by simp
qed

definition typed_update :: "transaction \<Rightarrow> transaction \<Rightarrow> transaction" where
  "typed_update to t =
     to\<lparr>tx_chain_id := tx_chain_id t, tx_nonce := tx_nonce t,
        tx_max_priority_fee_per_gas := tx_max_priority_fee_per_gas t,
        tx_max_fee_per_gas := tx_max_fee_per_gas t, tx_gas_limit := tx_gas_limit t,
        tx_to := tx_to t, tx_value := tx_value t, tx_data := tx_data t,
        tx_access_list := tx_access_list t, tx_max_fee_per_blob_gas := tx_max_fee_per_blob_gas t,
        tx_blob_versioned_hashes := tx_blob_versioned_hashes t,
        tx_authorizations := tx_authorizations t, tx_odd_y_parity := tx_odd_y_parity t,
        tx_r := tx_r t, tx_s := tx_s t\<rparr>"

lemma eip2718_decode_items_encode:
  assumes v: "valid_typed t"
    and to: "tx_type to = tx_type t" "tx_type t \<noteq> kSetCode \<longrightarrow> tx_authorizations to = tx_authorizations t"
  shows "eip2718_decode_items (unsigned_items t @ signature_items t @ rest) to =
    Inr ((typed_update to t, signature_items t @ rest), rest)"
proof -
  obtain c where c: "tx_chain_id t = Some c"
    using v by (auto simp: valid_typed_def)
  have "typed_type (tx_type t)"
    using v by (simp add: valid_typed_def)
  then consider "tx_type t = kAccessList" | "tx_type t = kDynamicFee" | "tx_type t = kBlob"
    | "tx_type t = kSetCode"
    by (auto simp: typed_type_def)
  then show ?thesis
    by cases
       (use v to c in \<open>simp_all add: eip2718_decode_items_def unsigned_items_def signature_items_def
         eip2718_items_def chain_id_or_0_def item_enc_laws valid_typed_def typed_update_def\<close>)
qed

lemma eip2718_decode_items_cases:
  assumes "eip2718_decode_items from to = Inr ((t, sig), rest)" "typed_type (tx_type to)"
  shows "t = typed_update to t \<and> valid_typed t \<and>
    (tx_type t \<noteq> kSetCode \<longrightarrow> tx_authorizations t = tx_authorizations to) \<and>
    from = unsigned_items t @ sig \<and> sig = signature_items t @ rest"
proof -
  consider "tx_type to = kAccessList" | "tx_type to = kDynamicFee" | "tx_type to = kBlob"
    | "tx_type to = kSetCode"
    using assms(2) by (auto simp: typed_type_def)
  then show ?thesis
    by cases
       ((use assms(1) in \<open>clarsimp simp: eip2718_decode_items_def rbind_eq_Inr_iff tx_codec_laws
         Let_def\<close>, simp add: unsigned_items_def signature_items_def eip2718_items_def
         chain_id_or_0_def valid_typed_def typed_update_def typed_type_def)+)
qed

lemma typed_update_fields:
  assumes "t = typed_update to t"
  shows "tx_type t = tx_type to" "tx_sender t = tx_sender to" "tx_cached_hash t = tx_cached_hash to"
    "tx_sender_recovered t = tx_sender_recovered to" "tx_hash_computed t = tx_hash_computed to"
    "tx_data_non_zero_bytes t = tx_data_non_zero_bytes to"
  by (subst assms, simp add: typed_update_def)+

lemma eip2718_decode_iff:
  "eip2718_decode from to = Inr ((t, items, sig), rest) \<longleftrightarrow>
     t = typed_update to t \<and> valid_typed t \<and>
     (tx_type t \<noteq> kSetCode \<longrightarrow> tx_authorizations t = tx_authorizations to) \<and>
     payload_length (signed_header t) < 2 ^ 64 \<and> from = encode_header (signed_header t) @ items \<and>
     items = unsigned_items t @ sig \<and> sig = signature_items t @ rest" (is "?lhs \<longleftrightarrow> ?rhs")
proof
  assume ?lhs
  then obtain h where ty: "typed_type (tx_type to)" and h: "decode_header from = Inr (h, items)" "is_list h"
    "eip2718_decode_items items to = Inr ((t, sig), rest)"
    "length items - length rest = payload_length h"
    by (auto simp: eip2718_decode_def rbind_eq_Inr_iff Let_def typed_type_def split: if_splits)
  note t = eip2718_decode_items_cases [OF h(3) ty]
  then have "payload_length h = length (unsigned_items t @ signature_items t)"
    using h(4) by auto
  then have "h = signed_header t"
    using h(2) t by (cases h) (simp add: signed_header_typed)
  then show ?rhs
    using h(1,2) t decode_list_header_iff [of "from" h items] by auto
next
  assume r: ?rhs
  then have ty: "typed_type (tx_type to)"
    using typed_update_fields(1) [of t to] by (auto simp: valid_typed_def)
  have "decode_header from = Inr (signed_header t, items)"
    using r signed_header_typed [of t] by (auto simp: decode_header_iff canonical_header_def)
  moreover have "eip2718_decode_items items to = Inr ((t, sig), rest)"
    using r eip2718_decode_items_encode [of t to rest] typed_update_fields(1) [of t to] by simp
  ultimately show ?lhs
    using r ty
    by (auto simp: eip2718_decode_def typed_type_def signed_header_typed)
qed

text \<open>Nothing that is encoded depends on the caches.\<close>

lemma cache_irrelevant [simp]:
  "unsigned_items (t\<lparr>tx_rlp_encoded := e, tx_rlp_unsigned := u\<rparr>) = unsigned_items t"
  "signature_items (t\<lparr>tx_rlp_encoded := e, tx_rlp_unsigned := u\<rparr>) = signature_items t"
  "signed_header (t\<lparr>tx_rlp_encoded := e, tx_rlp_unsigned := u\<rparr>) = signed_header t"
  "encode_transaction (t\<lparr>tx_rlp_encoded := e, tx_rlp_unsigned := u\<rparr>) w = encode_transaction t w"
  "valid_legacy (t\<lparr>tx_rlp_encoded := e, tx_rlp_unsigned := u\<rparr>) = valid_legacy t"
  "valid_typed (t\<lparr>tx_rlp_encoded := e, tx_rlp_unsigned := u\<rparr>) = valid_typed t"
  by (simp_all add: unsigned_items_def signature_items_def signed_header_def encode_transaction_def
      valid_legacy_def valid_typed_def header_base_def legacy_encode_base_def eip2718_items_def
      eip2718_encode_for_signing_def transaction_v_def chain_id_or_0_def Let_def)

lemma encode_transaction_legacy:
  "valid_legacy t \<Longrightarrow>
   encode_transaction t w = encode_header (signed_header t) @ unsigned_items t @ signature_items t"
  by (simp add: encode_transaction_def valid_legacy_def unsigned_items_def signature_items_def)

lemma encode_transaction_typed:
  "valid_typed t \<Longrightarrow>
   encode_transaction t w =
     (if w then encode_header \<lparr>is_list = False, payload_length = length (encode_transaction t False)\<rparr>
      else []) @ tx_type t # encode_header (signed_header t) @ unsigned_items t @ signature_items t"
  by (simp add: encode_transaction_def valid_typed_def unsigned_items_def signature_items_def
      eip2718_encode_for_signing_def encode_header_length)
     (simp add: signed_header_typed valid_typed_def unsigned_items_def signature_items_def)

text \<open>The state of an object after a successful decode into the object \<open>to\<close>.\<close>

definition fits_size :: "transaction \<Rightarrow> bool" where
  "fits_size t \<longleftrightarrow>
     (if tx_type t = kLegacy then payload_length (signed_header t) < 2 ^ 64
      else length (encode_transaction t False) < 2 ^ 64)"

definition decoded_into :: "transaction \<Rightarrow> transaction \<Rightarrow> bool" where
  "decoded_into to t \<longleftrightarrow>
     (valid_legacy t \<or> valid_typed t) \<and> fits_size t \<and>
     tx_rlp_encoded t = encode_transaction t False \<and> tx_rlp_unsigned t = unsigned_items t \<and>
     \<not> tx_sender_recovered t \<and> \<not> tx_hash_computed t \<and> tx_data_non_zero_bytes t = 0 \<and>
     tx_sender t = tx_sender to \<and> tx_cached_hash t = tx_cached_hash to \<and>
     (tx_type t \<noteq> kSetCode \<longrightarrow> tx_authorizations t = tx_authorizations to)"

lemma encode_header_list_hd: "is_list h \<Longrightarrow> payload_length h < 2 ^ 64 \<Longrightarrow> 0xC0 \<le> hd (encode_header h)"
proof -
  assume a: "is_list h" "payload_length h < 2 ^ 64"
  obtain n where h: "h = \<lparr>is_list = True, payload_length = n\<rparr>"
    using a(1) by (cases h) auto
  show ?thesis
  proof (cases "n < 56")
    case True
    then show ?thesis
      by (simp add: h encode_header_short word_le_nat_alt unat_word_ariths)
  next
    case False
    then show ?thesis
      using a(2) sig_bytes_long_range [of n]
      by (simp add: h encode_header_long word_le_nat_alt unat_word_ariths)
  qed
qed

definition legacy_target :: "transaction \<Rightarrow> transaction" where
  "legacy_target to =
     (reset to)\<lparr>tx_type := kLegacy, tx_access_list := [], tx_max_fee_per_blob_gas := 0,
        tx_blob_versioned_hashes := []\<rparr>"

lemma decode_transaction_legacy:
  assumes h: "decode_header from = Inr (h, view)" "is_list h"
    and d: "decode_transaction from to KString mode = Inr (t, rest)"
  shows "decoded_into to t \<and> from = encode_transaction t True @ rest \<and> (mode = KAllow \<or> rest = [])"
proof -
  have f: "from = encode_header h @ view" "payload_length h \<le> length view" "payload_length h < 2 ^ 64"
    using h decode_list_header_iff [of "from" h view] by auto
  then have "0xC0 \<le> hd from" "from \<noteq> []"
    using encode_header_list_hd [of h] h(2) by auto
  then have n: "\<not> (0 < hd from \<and> hd from < kEmptyStringCode)"
    by (auto simp: rlp_codes word_le_nat_alt word_less_nat_alt)
  obtain t0 sig where t0: "legacy_decode_items view (legacy_target to) = Inr ((t0, sig), rest)"
    "length rest = length view - payload_length h" "mode = KAllow \<or> rest = []"
    and t: "t = t0\<lparr>tx_rlp_encoded := take (length from - length rest) from,
                   tx_rlp_unsigned := take (length view - length sig) view\<rparr>"
    using d n h \<open>from \<noteq> []\<close>
    by (auto simp: decode_transaction_def rbind_eq_Inr_iff legacy_target_def Let_def
        split: if_splits)
  have "t0 = legacy_update (legacy_target to) t0 \<and> valid_to (tx_to t0) \<and>
      length (tx_data t0) < 2 ^ 64 \<and> chain_id_fits (tx_odd_y_parity t0) (tx_chain_id t0) \<and>
      view = unsigned_items t0 @ sig \<and> sig = signature_items t0 @ rest"
    using t0(1) legacy_decode_items_iff [of "legacy_target to"] by (simp add: legacy_target_def)
  note l = this legacy_update_fields [OF this [THEN conjunct1]]
  have v: "valid_legacy t0"
    using l by (simp add: valid_legacy_def legacy_target_def)
  have "payload_length h = length (unsigned_items t0 @ signature_items t0)"
    using l(1) t0(2) f(2) by auto
  then have hd: "h = signed_header t0"
    using h(2) v by (cases h) (simp add: signed_header_legacy)
  then have e: "from = encode_transaction t0 True @ rest"
    using f(1) l(1) v by (simp add: encode_transaction_legacy)
  then show ?thesis
    using l v hd f(3) t0(3) t
    by (simp add: decoded_into_def fits_size_def encode_transaction_legacy legacy_target_def reset_def)
qed

lemma decode_transaction_typed:
  assumes h: "decode_header from = Inr (h, view)" "\<not> is_list h"
    and d: "decode_transaction from to KString mode = Inr (t, rest)"
  shows "decoded_into to t \<and> from = encode_transaction t True @ rest \<and> (mode = KAllow \<or> rest = [])"
proof -
  have n: "from \<noteq> []" "\<not> (0 < hd from \<and> hd from < kEmptyStringCode)" "payload_length h \<noteq> 0"
    using d h by (auto simp: decode_transaction_def Let_def split: if_splits)
  let ?to = "(reset to)\<lparr>tx_type := hd view\<rparr>"
  let ?v = "take (payload_length h - 1) (tl view)"
  obtain t0 items sig where t0: "eip2718_decode ?v ?to = Inr ((t0, items, sig), [])"
    and rest: "rest = drop (payload_length h - 1) (tl view)" "mode = KAllow \<or> rest = []"
    and t: "t = t0\<lparr>tx_rlp_encoded := take (payload_length h) view,
                   tx_rlp_unsigned := take (length items - length sig) items\<rparr>"
    using d n h
    by (auto simp: decode_transaction_def rbind_eq_Inr_iff Let_def split: if_splits)
  have l: "t0 = typed_update ?to t0" "valid_typed t0"
    "tx_type t0 \<noteq> kSetCode \<longrightarrow> tx_authorizations t0 = tx_authorizations ?to"
    "?v = encode_header (signed_header t0) @ unsigned_items t0 @ signature_items t0"
    "items = unsigned_items t0 @ signature_items t0" "sig = signature_items t0"
    using t0 unfolding eip2718_decode_iff by auto
  note fields = typed_update_fields [OF l(1)]
  have ty: "typed_type (hd view)"
    using l(2) fields(1) by (simp add: valid_typed_def)
  have p: "payload_length h \<le> length view"
    using decode_header_payload [OF h(1)] by blast
  have "view = from" if "hd from < 0x80"
    using that h(1) n(1) by (cases "from") (auto simp: decode_header_def finish_header_iff)
  then have "\<not> (hd from < 0x80)"
    using n(2) ty by (auto simp: rlp_codes typed_type_def word_neq_0_conv)
  then have f: "from = encode_header h @ view" "payload_length h < 2 ^ 64"
    using decode_header_cases [OF h(1)] by (auto simp: canonical_header_def)
  have view: "view = hd view # ?v @ rest"
    using p n(3) rest(1) by (cases view) auto
  have tv: "take (payload_length h) view = hd view # ?v"
    using p n(3) by (cases view) (auto simp: take_Cons')
  have e: "encode_transaction t0 False = take (payload_length h) view"
    using l(2,4) fields(1) tv by (subst encode_transaction_typed) simp_all
  have hh: "h = \<lparr>is_list = False, payload_length = length (encode_transaction t0 False)\<rparr>"
    using h(2) p e by (cases h) simp
  have "from = encode_transaction t0 True @ rest"
    using f(1) hh view l(2,4) fields(1) by (subst encode_transaction_typed) simp_all
  moreover have "length (encode_transaction t0 False) < 2 ^ 64"
    using f(2) by (subst (asm) hh) simp
  ultimately show ?thesis
    using l(2,3,5,6) fields t e [symmetric] rest(2) ty
    by (simp add: decoded_into_def fits_size_def reset_def)
qed

lemma decode_transaction_encode_legacy:
  assumes d: "decoded_into to t" "tx_type t = kLegacy" and m: "mode = KAllow \<or> rest = []"
  shows "decode_transaction (encode_transaction t True @ rest) to w mode = Inr (t, rest)"
proof -
  let ?t = "t\<lparr>tx_rlp_encoded := [], tx_rlp_unsigned := []\<rparr>"
  let ?view = "unsigned_items t @ signature_items t @ rest"
  have v: "valid_legacy t"
    using d by (auto simp: decoded_into_def valid_typed_def typed_type_def)
  have n: "payload_length (signed_header t) < 2 ^ 64"
    using d by (simp add: decoded_into_def fits_size_def)
  have e: "encode_transaction t True @ rest = encode_header (signed_header t) @ ?view"
    using v by (simp add: encode_transaction_legacy)
  have l: "is_list (signed_header t)"
    using v by (simp add: signed_header_legacy)
  have "decode_header (encode_header (signed_header t) @ ?view) = Inr (signed_header t, ?view)"
    using n v by (intro decode_header_encode) (simp add: canonical_header_def signed_header_legacy)
  moreover have "0xC0 \<le> hd (encode_header (signed_header t) @ ?view)"
    using encode_header_list_hd [OF l n] by simp
  then have "\<not> (0 < hd (encode_header (signed_header t) @ ?view) \<and>
      hd (encode_header (signed_header t) @ ?view) < kEmptyStringCode)"
    by (auto simp: rlp_codes word_le_nat_alt word_less_nat_alt)
  moreover have "?t = legacy_update (legacy_target to) ?t"
    using d v
    by (intro transaction.equality)
       (auto simp: legacy_update_def legacy_target_def reset_def valid_legacy_def decoded_into_def)
  then have "legacy_decode_items ?view (legacy_target to) = Inr ((?t, signature_items t @ rest), rest)"
    using v by (simp add: legacy_decode_items_iff legacy_target_def valid_legacy_def)
  moreover have "tx_rlp_encoded t = encode_header (signed_header t) @ unsigned_items t @ signature_items t"
    "tx_rlp_unsigned t = unsigned_items t"
    using d v by (auto simp: decoded_into_def encode_transaction_legacy)
  moreover have "payload_length (signed_header t) = length (unsigned_items t @ signature_items t)"
    using v by (simp add: signed_header_legacy)
  ultimately show ?thesis
    using l m unfolding e
    by (auto simp: decode_transaction_def legacy_target_def [symmetric] Let_def)
qed

lemma decode_transaction_encode_typed:
  assumes d: "decoded_into to t" "tx_type t \<noteq> kLegacy" and m: "mode = KAllow \<or> rest = []"
    and w: "w \<noteq> KNone"
  shows "decode_transaction (encode_transaction t True @ rest) to w mode = Inr (t, rest)"
proof -
  let ?t = "t\<lparr>tx_rlp_encoded := [], tx_rlp_unsigned := []\<rparr>"
  let ?p = "encode_header (signed_header t) @ unsigned_items t @ signature_items t"
  let ?h = "\<lparr>is_list = False, payload_length = length (encode_transaction t False)\<rparr>"
  have v: "valid_typed t"
    using d by (auto simp: decoded_into_def valid_legacy_def)
  have f: "encode_transaction t False = tx_type t # ?p"
    using encode_transaction_typed [OF v, of False] by simp
  have e: "encode_transaction t True @ rest = encode_header ?h @ tx_type t # ?p @ rest"
    using encode_transaction_typed [OF v, of True] by simp
  have n: "length (encode_transaction t False) < 2 ^ 64"
    using d by (simp add: decoded_into_def fits_size_def)
  have c: "canonical_header ?h (tx_type t # ?p @ rest)"
    using n f by (simp add: canonical_header_def)
  have dh: "decode_header (encode_header ?h @ tx_type t # ?p @ rest) = Inr (?h, tx_type t # ?p @ rest)"
    by (rule decode_header_encode [OF c])
  have "\<not> hd (encode_header ?h @ tx_type t # ?p @ rest) < 0x80"
  proof
    assume "hd (encode_header ?h @ tx_type t # ?p @ rest) < 0x80"
    then have "decode_header (encode_header ?h @ tx_type t # ?p @ rest) =
        Inr (\<lparr>is_list = False, payload_length = 1\<rparr>, encode_header ?h @ tx_type t # ?p @ rest)"
      by (auto simp: decode_header_iff)
    with dh show False by simp
  qed
  moreover have "?t = typed_update ((reset to)\<lparr>tx_type := tx_type t\<rparr>) ?t"
    using d v
    by (intro transaction.equality)
       (auto simp: typed_update_def reset_def decoded_into_def)
  then have "eip2718_decode ?p ((reset to)\<lparr>tx_type := tx_type t\<rparr>) =
      Inr ((?t, unsigned_items t @ signature_items t, signature_items t), [])"
    using v d n f
    by (simp add: eip2718_decode_iff reset_def decoded_into_def signed_header_typed)
  moreover have "tx_rlp_encoded t = tx_type t # ?p" "tx_rlp_unsigned t = unsigned_items t"
    using d f by (auto simp: decoded_into_def)
  ultimately show ?thesis
    using dh m w f unfolding e
    by (auto simp: decode_transaction_def rlp_codes Let_def)
qed

lemma decode_transaction_iff:
  "decode_transaction from to KString mode = Inr (t, rest) \<longleftrightarrow>
     decoded_into to t \<and> from = encode_transaction t True @ rest \<and> (mode = KAllow \<or> rest = [])"
  (is "?lhs \<longleftrightarrow> ?rhs")
proof
  assume l: ?lhs
  then have "from \<noteq> []" "\<not> (0 < hd from \<and> hd from < kEmptyStringCode)"
    by (auto simp: decode_transaction_def Let_def split: if_splits)
  with l obtain h view where "decode_header from = Inr (h, view)"
    by (auto simp: decode_transaction_def rbind_eq_Inr_iff Let_def)
  with l show ?rhs
    by (cases "is_list h") (blast dest: decode_transaction_legacy decode_transaction_typed)+
next
  assume ?rhs
  then show ?lhs
    by (cases "tx_type t = kLegacy")
       (auto intro: decode_transaction_encode_legacy decode_transaction_encode_typed)
qed

section \<open>Codec instance\<close>

lemma valid_signed_header:
  "decoded_into to t \<Longrightarrow>
   signed_header t = \<lparr>is_list = True, payload_length = length (unsigned_items t @ signature_items t)\<rparr>"
  unfolding decoded_into_def using signed_header_legacy signed_header_typed by blast

text \<open>
  The announced length of the wrapped form is exact. Without the wrapper, the announced length of
  a typed transaction leaves out its type byte.
\<close>

lemma length_transaction_legacy:
  assumes "decoded_into to t" "tx_type t = kLegacy"
  shows "length_transaction t w = length (encode_transaction t w)"
proof -
  have "valid_legacy t"
    using assms by (auto simp: decoded_into_def valid_typed_def typed_type_def)
  then show ?thesis
    using assms(2) valid_signed_header [OF assms(1)]
    by (simp add: length_transaction_def encode_transaction_legacy encode_header_length Let_def)
qed

lemma length_transaction_typed:
  assumes "decoded_into to t" "tx_type t \<noteq> kLegacy"
  shows "length_transaction t True = length (encode_transaction t True)"
    "Suc (length_transaction t False) = length (encode_transaction t False)"
proof -
  have "valid_typed t"
    using assms by (auto simp: decoded_into_def valid_legacy_def)
  note e = encode_transaction_typed [OF this]
  have f: "length (encode_transaction t False) =
      Suc (length_of_length (payload_length (signed_header t)) + payload_length (signed_header t))"
    using e [of False] valid_signed_header [OF assms(1)] by (simp add: encode_header_length)
  then show "Suc (length_transaction t False) = length (encode_transaction t False)"
    by (simp add: length_transaction_def Let_def)
  show "length_transaction t True = length (encode_transaction t True)"
    using assms(2) f e [of True] valid_signed_header [OF assms(1)]
    by (simp add: length_transaction_def encode_header_length Let_def)
qed

lemma length_transaction_eq:
  "decoded_into to t \<Longrightarrow> length_transaction t True = length (encode_transaction t True)"
  using length_transaction_legacy length_transaction_typed(1) by blast

lemma encode_transaction_nonempty [simp]: "encode_transaction t w \<noteq> []"
  by (simp add: encode_transaction_def eip2718_encode_for_signing_def)

interpretation rlp_transaction: rlp_codec "\<lambda>t. encode_transaction t True"
  "\<lambda>t. length_transaction t True" decode_tx "decoded_into empty_transaction"
  by (rule rlp_codecI)
     (simp_all add: decode_tx_def decode_transaction_iff length_transaction_eq)

interpretation rlp_transactions: rlp_codec
  "encode_vector (\<lambda>t. encode_transaction t True) (\<lambda>t. length_transaction t True)"
  "length_vector (\<lambda>t. length_transaction t True)" "decode_vector decode_tx"
  "valid_vector (decoded_into empty_transaction) (\<lambda>t. length_transaction t True)"
  by (rule rlp_transaction.vector_codec)

section \<open>The signing payload\<close>

lemma shift_count_eq: "shift_count n = sig_bytes (unat n)"
proof (induction n rule: shift_count.induct)
  case (1 n)
  then show ?case
    using unat_drop_bit_div [of 8 n] unat_gt_0 [of n]
    by (subst shift_count.simps) (simp add: sig_bytes_pos)
qed

lemma length_bytes_down:
  "map (length_byte_at w) (rev [0..<k]) = be_bytes k (unat w)"
proof (induction k arbitrary: w)
  case (Suc k)
  have "[0..<Suc k] = 0 # map Suc [0..<k]"
    by (simp add: map_Suc_upt upt_conv_Cons del: upt_Suc)
  then have "rev [0..<Suc k] = map Suc (rev [0..<k]) @ [0]"
    by (simp add: rev_map)
  moreover have "length_byte_at w (Suc i) = length_byte_at (drop_bit 8 w) i" for i
    by (simp add: length_byte_at_def ac_simps)
  moreover have "length_byte_at w 0 = of_nat (unat w mod 256)"
    by (simp add: length_byte_at_def word_unat_eq_iff unsigned_ucast_eq take_bit_eq_mod)
  ultimately show ?case
    using Suc [of "drop_bit 8 w"] unat_drop_bit_div [of 8 w] by (simp add: comp_def)
qed simp

text \<open>The header \<open>signing_payload\<close> writes by hand is the one \<open>encode_header\<close> writes.\<close>

lemma hand_written_header:
  "encode_header \<lparr>is_list = True, payload_length = n\<rparr> =
     (if n < 56 then [kEmptyListCode + of_nat n]
      else (0xF7 + of_nat (shift_count (of_nat n)))
        # map (length_byte_at (of_nat n)) (rev [0..<shift_count (of_nat n)]))"
  by (simp add: encode_header_def to_big_compact_eq length_bytes_down shift_count_eq be_compact_def
      Let_def)

lemma unsigned_items_nonempty [simp]:
  "unsigned_items t \<noteq> []" "legacy_encode_base t \<noteq> []" "eip2718_items t \<noteq> []"
  by (simp_all add: unsigned_items_def legacy_encode_base_def eip2718_items_def)

lemma header_base_eq:
  assumes "decoded_into to t"
  shows "header_base t = \<lparr>is_list = True, payload_length = length (unsigned_items t)\<rparr>"
proof -
  have "payload_length (signed_header t) = payload_length (header_base t) + length (signature_items t)"
    by (simp add: signed_header_def signature_items_def encode_uint_length encode_bool_length Let_def)
  then show ?thesis
    using valid_signed_header [OF assms] by (simp add: header_base_def)
qed

lemma signing_payload_eq:
  "tx_rlp_unsigned t \<noteq> [] \<Longrightarrow>
   signing_payload t =
     (let eip155 = (tx_type t = kLegacy \<and> tx_chain_id t \<noteq> None);
          payload = length (tx_rlp_unsigned t)
            + (if eip155 then length_uint (the (tx_chain_id t)) + 2 else 0)
      in (if tx_type t \<noteq> kLegacy then [tx_type t] else [])
         @ encode_header \<lparr>is_list = True, payload_length = payload\<rparr> @ tx_rlp_unsigned t
         @ (if eip155
            then encode_uint (the (tx_chain_id t)) @ [kEmptyStringCode, kEmptyStringCode] else []))"
  by (simp add: signing_payload_def hand_written_header Let_def)

lemma signing_payload_decoded:
  assumes d: "decoded_into to t"
  shows "signing_payload t = encode_for_signing t"
proof -
  have u: "tx_rlp_unsigned t = unsigned_items t"
    using d by (simp add: decoded_into_def)
  show ?thesis
  proof (cases "tx_type t = kLegacy \<and> tx_chain_id t \<noteq> None")
    case True
    then obtain c where c: "tx_chain_id t = Some c" "tx_type t = kLegacy"
      by blast
    have "unsigned_header t =
        \<lparr>is_list = True, payload_length = length (unsigned_items t) + (length_uint c + 2)\<rparr>"
      using c header_base_eq [OF d] by (simp add: unsigned_header_def)
    then show ?thesis
      using c u
      by (simp add: signing_payload_eq encode_for_signing_def unsigned_items_def
          encode_uint_def [of 0])
  next
    case False
    then have "unsigned_header t = header_base t"
      by (auto simp: unsigned_header_def Let_def split: option.splits)
    then show ?thesis
      using False u header_base_eq [OF d]
      by (auto simp: signing_payload_eq encode_for_signing_def eip2718_encode_for_signing_def
          Let_def unsigned_items_def split: if_splits option.splits)
  qed
qed

lemma tx_hash_decoded:
  "decoded_into to t \<Longrightarrow> fst (tx_hash keccak256 t) = keccak256 (encode_transaction t False)"
  by (simp add: tx_hash_def decoded_into_def Let_def)

section \<open>Sender recovery\<close>

text \<open>The senders a batch leaves behind are the ones \<open>sender()\<close> computes one by one.\<close>

lemma sender_recovered:
  "tx_sender_recovered t \<Longrightarrow> sender keccak256 ecrecover t = (tx_sender t, t)"
  by (simp add: sender_def)

lemma sender_pending:
  "\<not> tx_sender_recovered t \<Longrightarrow>
   fst (sender keccak256 ecrecover t) = ecrecover (pending_input keccak256 t)"
  by (simp add: sender_def silkworm_recover_address_def pending_input_def store_big_def)

lemma write_senders_eq:
  "write_senders txns
     (map (\<lambda>t. ecrecover (pending_input keccak256 t)) (filter (\<lambda>t. \<not> tx_sender_recovered t) txns)) =
   map (\<lambda>t. snd (sender keccak256 ecrecover t)) txns"
  by (induction txns)
     (auto simp: sender_def silkworm_recover_address_def pending_input_def store_big_def)

lemma recover_senders_eq:
  assumes "\<And>ins. ecrecover_batch ins = map ecrecover ins"
  shows "recover_senders keccak256 ecrecover_batch txns =
    map (\<lambda>t. snd (sender keccak256 ecrecover t)) txns"
proof (cases "filter (\<lambda>t. \<not> tx_sender_recovered t) txns = []")
  case True
  then have "map (\<lambda>t. snd (sender keccak256 ecrecover t)) txns = map (\<lambda>t. t) txns"
    by (intro map_cong) (auto simp: filter_empty_conv sender_recovered)
  then show ?thesis
    using True by (simp add: recover_senders_def)
next
  case False
  then show ?thesis
    using write_senders_eq [of txns ecrecover keccak256]
    by (simp add: recover_senders_def assms comp_def)
qed

lemma sender_idem:
  "fst (sender keccak256 ecrecover (snd (sender keccak256 ecrecover t))) =
   fst (sender keccak256 ecrecover t)"
  by (simp add: sender_def)

section \<open>Fee arithmetic\<close>

lemma unat_umul: "unat (umul x y) = unat x * unat y"
proof -
  have "unat x * unat y < 2 ^ 256 * 2 ^ 256"
    using unat_less_u256 [of x] unat_less_u256 [of y] by (intro mult_strict_mono) auto
  then show ?thesis
    using unat_less_u256 [of x] unat_less_u256 [of y]
    by (simp add: umul_def unat_word_ariths unsigned_ucast_eq take_bit_nat_eq_self)
qed

lemma unat_ucast_u64_u256: "unat (ucast (n :: u64) :: u256) = unat n"
  using unsigned_less [of n, where 'a = nat] by (simp add: unsigned_ucast_eq take_bit_nat_eq_self)

lemma unat_maximum_gas_cost:
  "unat (maximum_gas_cost txn) =
     unat (tx_gas_limit txn) * unat (tx_max_fee_per_gas txn)
     + unat (total_blob_gas txn) * unat (tx_max_fee_per_blob_gas txn)"
proof -
  have b: "unat (g :: u64) * unat (f :: u256) < 2 ^ 64 * 2 ^ 256" for g f
    using unsigned_less [of g, where 'a = nat] unat_less_u256 [of f]
    by (intro mult_strict_mono) auto
  have "unat (tx_gas_limit txn) * unat (tx_max_fee_per_gas txn)
      + unat (total_blob_gas txn) * unat (tx_max_fee_per_blob_gas txn) < 2 ^ 512"
    using b [of "tx_gas_limit txn" "tx_max_fee_per_gas txn"]
      b [of "total_blob_gas txn" "tx_max_fee_per_blob_gas txn"] by simp
  then show ?thesis
    by (simp add: maximum_gas_cost_def Let_def unat_umul unat_ucast_u64_u256 unat_word_ariths)
qed

lemma unat_effective_gas_price:
  assumes "tx_type txn \<noteq> kSystem" "base \<le> tx_max_fee_per_gas txn"
  shows "unat (effective_gas_price txn base) =
    min (unat (tx_max_priority_fee_per_gas txn) + unat base) (unat (tx_max_fee_per_gas txn))"
proof -
  have s: "unat (tx_max_fee_per_gas txn - base) = unat (tx_max_fee_per_gas txn) - unat base"
    using assms(2) by (rule unat_sub)
  have le: "unat base \<le> unat (tx_max_fee_per_gas txn)"
    using assms(2) by (simp add: word_le_nat_alt)
  have m: "unat (priority_fee_per_gas txn base) =
      min (unat (tx_max_priority_fee_per_gas txn)) (unat (tx_max_fee_per_gas txn) - unat base)"
    by (simp add: priority_fee_per_gas_def min_def word_le_nat_alt s)
  then have "unat (priority_fee_per_gas txn base) + unat base < 2 ^ 256"
    using le unat_less_u256 [of "tx_max_fee_per_gas txn"] by linarith
  then show ?thesis
    using m le assms(1) by (simp add: effective_gas_price_def unat_word_ariths)
qed

section \<open>Properties\<close>

text \<open>The encoding of a default-constructed transaction, for the witnesses.\<close>

definition empty_transaction_rlp :: bytes where
  "empty_transaction_rlp = [0xC9, 0x80, 0x80, 0x80, 0x80, 0x80, 0x80, 0x1B, 0x80, 0x80]"

definition empty_transaction_decoded :: transaction where
  "empty_transaction_decoded =
     empty_transaction\<lparr>tx_rlp_encoded := empty_transaction_rlp,
                       tx_rlp_unsigned := [0x80, 0x80, 0x80, 0x80, 0x80, 0x80]\<rparr>"

lemma decode_empty_transaction:
  "decode_transaction empty_transaction_rlp empty_transaction KString KProhibit =
     Inr (empty_transaction_decoded, [])"
  by (simp add: decode_transaction_def empty_transaction_rlp_def empty_transaction_def
      empty_transaction_decoded_def decode_header_def finish_header_def legacy_decode_items_def
      decode_uint_def decode_bytes_def decode_to_def from_big_compact_def zeroless_view_def
      check_leftover_def set_v_def v_to_y_parity_and_chain_id_def reset_def rlp_codes Let_def)

text \<open>
  C12: transaction decoding is exact. Into any object \<open>to\<close>, \<open>decode\<close> succeeds with \<open>t\<close> precisely when the
  view starts with the canonical block encoding of \<open>t\<close> (legacy, or type 1 to 4 wrapped in a
  string), with \<open>t\<close>'s caches reset, its \<open>rlp_encoded\<close> view equal to its unwrapped encoding and its
  \<open>rlp_unsigned\<close> view equal to the items before the signature. What the decoder does not assign (the
  authorizations of a transaction that is not of type 4) keeps the value it had in \<open>to\<close>.
\<close>

theorem decode_transaction_exact:
  "decode_transaction from to KString mode = Inr (t, rest) \<longleftrightarrow>
     decoded_into to t \<and> from = encode_transaction t True @ rest \<and> (mode = KAllow \<or> rest = [])"
  by (rule decode_transaction_iff)

text \<open>
  C31: for a decoded transaction, \<open>signing_payload\<close>, which copies the unsigned items and writes the
  list header by hand, produces the bytes of \<open>encode_for_signing\<close>, and \<open>hash\<close>, which hashes the decoded
  view, is the hash of the unwrapped encoding.
\<close>

theorem decoded_transaction_payloads:
  assumes "decode_transaction from to KString mode = Inr (t, rest)"
  shows "signing_payload t = encode_for_signing t \<and>
         fst (tx_hash keccak256 t) = keccak256 (encode_transaction t False)"
proof -
  have "decoded_into to t"
    using assms unfolding decode_transaction_iff by blast
  then show ?thesis
    by (simp add: signing_payload_decoded tx_hash_decoded)
qed

theorem decoded_transaction_payloads_witness:
  "decode_transaction empty_transaction_rlp empty_transaction KString KProhibit =
     Inr (empty_transaction_decoded, []) \<and>
   signing_payload empty_transaction_decoded = encode_for_signing empty_transaction_decoded"
  using decoded_transaction_payloads [OF decode_empty_transaction, of id] decode_empty_transaction
  by blast

text \<open>
  C34: without the string wrapper, the encoding of a typed transaction is decoded whatever follows it,
  even when leftovers are prohibited, and the decoded object then has no views of its encoding.
\<close>

theorem raw_typed_decode_allows_leftover:
  assumes "decoded_into to t" "tx_type t \<noteq> kLegacy"
  shows "decode_transaction (encode_transaction t False @ rest) to KNone KProhibit =
           Inr (t\<lparr>tx_rlp_encoded := [], tx_rlp_unsigned := []\<rparr>, rest)"
proof -
  let ?t = "t\<lparr>tx_rlp_encoded := [], tx_rlp_unsigned := []\<rparr>"
  let ?p = "encode_header (signed_header t) @ unsigned_items t @ signature_items t"
  have v: "valid_typed t"
    using assms by (auto simp: decoded_into_def valid_legacy_def)
  have f: "encode_transaction t False = tx_type t # ?p"
    using encode_transaction_typed [OF v, of False] by simp
  then have n: "payload_length (signed_header t) < 2 ^ 64"
    using assms v by (simp add: decoded_into_def fits_size_def signed_header_typed)
  have "?t = typed_update ((reset to)\<lparr>tx_type := tx_type t\<rparr>) ?t"
    using assms(1) v
    by (intro transaction.equality) (auto simp: typed_update_def reset_def decoded_into_def)
  then have "eip2718_decode (?p @ rest) ((reset to)\<lparr>tx_type := tx_type t\<rparr>) =
      Inr ((?t, unsigned_items t @ signature_items t @ rest, signature_items t @ rest), rest)"
    using v assms(1) n by (simp add: eip2718_decode_iff reset_def decoded_into_def)
  moreover have "0 < tx_type t \<and> tx_type t < kEmptyStringCode"
    using v by (auto simp: valid_typed_def typed_type_def rlp_codes)
  ultimately show ?thesis
    by (simp add: decode_transaction_def f Let_def)
qed

text \<open>A decoded access-list transaction with every field zero.\<close>

definition empty_typed_transaction :: transaction where
  "empty_typed_transaction =
     (let t = empty_transaction\<lparr>tx_type := kAccessList, tx_chain_id := Some 0\<rparr>
      in t\<lparr>tx_rlp_encoded := encode_transaction t False, tx_rlp_unsigned := unsigned_items t\<rparr>)"

lemma empty_typed_decoded: "decoded_into empty_transaction empty_typed_transaction"
proof -
  let ?t = "empty_transaction\<lparr>tx_type := kAccessList, tx_chain_id := Some 0\<rparr>"
  have v: "valid_typed ?t"
    by (simp add: valid_typed_def empty_transaction_def typed_type_def valid_to_def valid_vector_def
        length_items_def)
  have "length (encode_transaction ?t False) < 2 ^ 64"
    using encode_transaction_typed [OF v, of False] signed_header_typed [OF v]
    by (simp add: encode_header_length length_of_length_def unsigned_items_def eip2718_items_def
        signature_items_def empty_transaction_def chain_id_or_0_def encode_uint_def encode_to_def
        encode_bytes_def encode_vector_def length_items_def encode_bool_def encode_header_def)
  then show ?thesis
    using v
    by (simp add: decoded_into_def empty_typed_transaction_def Let_def fits_size_def)
       (simp add: empty_transaction_def)
qed

theorem raw_typed_decode_allows_leftover_witness:
  "decode_transaction (encode_transaction empty_typed_transaction False @ [0xFF])
     empty_transaction KNone KProhibit =
   Inr (empty_typed_transaction\<lparr>tx_rlp_encoded := [], tx_rlp_unsigned := []\<rparr>, [0xFF])"
proof (rule raw_typed_decode_allows_leftover [OF empty_typed_decoded])
  show "tx_type empty_typed_transaction \<noteq> kLegacy"
    by (simp add: empty_typed_transaction_def Let_def)
qed

text \<open>
  C35: the announced length of a transaction is the number of bytes written, except that for a typed
  transaction without the string wrapper it is one less (the type byte is not counted).
\<close>

theorem transaction_length:
  assumes "decoded_into to t"
  shows "length (encode_transaction t wrap) =
           length_transaction t wrap + (if tx_type t \<noteq> kLegacy \<and> \<not> wrap then 1 else 0)"
  using length_transaction_legacy [OF assms, of wrap] length_transaction_typed [OF assms]
  by (cases "tx_type t = kLegacy"; cases wrap) auto

theorem transaction_length_witness:
  "length (encode_transaction empty_typed_transaction False) =
     length_transaction empty_typed_transaction False + 1"
  using transaction_length [OF empty_typed_decoded, of False]
  by (simp add: empty_typed_transaction_def Let_def)

text \<open>
  C33: batch recovery of senders leaves every transaction as a call of \<open>sender\<close> on it would, so a later
  \<open>sender\<close> returns exactly what it would have computed on its own; senders already recovered are kept.
  The hypothesis is the contract of \<open>ecrecover_batch\<close>: it recovers each input as \<open>ecrecover\<close> does.
\<close>

theorem recover_senders_correct:
  assumes "\<And>ins. ecrecover_batch ins = map ecrecover ins"
  shows "recover_senders keccak256 ecrecover_batch txns =
           map (\<lambda>t. snd (sender keccak256 ecrecover t)) txns \<and>
         map (\<lambda>t. fst (sender keccak256 ecrecover t)) (recover_senders keccak256 ecrecover_batch txns) =
           map (\<lambda>t. fst (sender keccak256 ecrecover t)) txns"
  using recover_senders_eq [OF assms, of keccak256 txns] by (simp add: sender_idem comp_def)

theorem recover_senders_correct_witness:
  "map tx_sender
     (recover_senders (\<lambda>bs. replicate 32 0) (map (\<lambda>(h, r, s, p). if p then None else Some (take 20 h)))
        [empty_transaction, empty_transaction\<lparr>tx_odd_y_parity := True\<rparr>,
         set_sender empty_transaction (replicate 20 7)]) =
     [Some (replicate 20 0), None, Some (replicate 20 7)]"
proof -
  let ?e = "\<lambda>(h, r, s, p). if p then None else Some (take 20 h)"
  note r = recover_senders_correct [of "map ?e" ?e "\<lambda>bs. replicate 32 0" "[empty_transaction,
        empty_transaction\<lparr>tx_odd_y_parity := True\<rparr>, set_sender empty_transaction (replicate 20 7)]",
      OF refl, THEN conjunct1]
  show ?thesis
    unfolding r
    by (simp add: sender_def empty_transaction_def set_sender_def silkworm_recover_address_def)
qed

text \<open>
  the cost bounds are exact integers: \<open>maximum_gas_cost\<close> never wraps, and above the base fee the
  effective gas price is the tip plus the base fee, capped by the fee cap, again without wrapping.
\<close>

theorem transaction_fees:
  assumes "tx_type txn \<noteq> kSystem" "base \<le> tx_max_fee_per_gas txn"
  shows "unat (maximum_gas_cost txn) =
           unat (tx_gas_limit txn) * unat (tx_max_fee_per_gas txn)
           + unat (total_blob_gas txn) * unat (tx_max_fee_per_blob_gas txn) \<and>
         unat (effective_gas_price txn base) =
           min (unat (tx_max_priority_fee_per_gas txn) + unat base) (unat (tx_max_fee_per_gas txn)) \<and>
         base \<le> effective_gas_price txn base"
  using unat_effective_gas_price [OF assms] assms(2)
  by (simp add: unat_maximum_gas_cost word_le_nat_alt)

theorem transaction_fees_witness:
  "unat (effective_gas_price (empty_transaction\<lparr>tx_max_fee_per_gas := 9, tx_max_priority_fee_per_gas := 3\<rparr>) 7) = 9"
proof -
  let ?t = "empty_transaction\<lparr>tx_max_fee_per_gas := 9, tx_max_priority_fee_per_gas := 3\<rparr>"
  have "tx_type ?t \<noteq> kSystem" "7 \<le> tx_max_fee_per_gas ?t"
    by (simp_all add: empty_transaction_def)
  from transaction_fees [OF this] show ?thesis
    by simp
qed

end
