(* ===== verification/Block.thy ===== *)
theory Block
  imports Transaction
begin

text \<open>
  Block headers, bodies and blocks (types/block.hpp, types/block.cpp): their encodings, the decoders
  with the fields that forks appended to the header, the sealing variants of the header hash, and
  the proof-of-work boundary. Gas prices that depend on the chain configuration are in the theory
  of the fee rules.
\<close>

section \<open>Data\<close>

record block_header =
  parent_hash :: bytes32
  ommers_hash :: bytes32
  beneficiary :: address
  state_root :: bytes32
  transactions_root :: bytes32
  receipts_root :: bytes32
  logs_bloom :: bytes
  difficulty :: u256
  number :: u64
  gas_limit :: u64
  gas_used :: u64
  timestamp :: u64
  extra_data :: bytes
  prev_randao :: bytes32
  nonce :: bytes
  base_fee_per_gas :: "u256 option"
  withdrawals_root :: "bytes32 option"
  blob_gas_used :: "u64 option"
  excess_blob_gas :: "u64 option"
  parent_beacon_block_root :: "bytes32 option"
  requests_hash :: "bytes32 option"
  block_access_list_hash :: "bytes32 option"
  slot_number :: "u64 option"

record block_body =
  transactions :: "transaction list"
  ommers :: "block_header list"
  withdrawals :: "withdrawal list option"

record block = block_body +
  header :: block_header

definition kBloomByteLength :: nat where
  "kBloomByteLength = 256"

definition kExtraSealSize :: nat where
  "kExtraSealSize = 65"

section \<open>Header encoding\<close>

text \<open>
  \<open>extra_data\<close> without the Clique seal. The subtraction wraps when there are fewer than 65 bytes, and
  \<open>substr\<close> then yields the whole string; the encoder's own view is only defined from 65 bytes on.
\<close>

definition extra_data_no_signature :: "block_header \<Rightarrow> bytes" where
  "extra_data_no_signature h =
     (if length (extra_data h) \<ge> kExtraSealSize
      then take (length (extra_data h) - kExtraSealSize) (extra_data h) else extra_data h)"

text \<open>The length contributed by an optional field, and its encoding.\<close>

definition length_opt :: "('a \<Rightarrow> nat) \<Rightarrow> 'a option \<Rightarrow> nat" where
  "length_opt len x = (case x of Some y \<Rightarrow> len y | None \<Rightarrow> 0)"

definition encode_opt :: "('a \<Rightarrow> bytes) \<Rightarrow> 'a option \<Rightarrow> bytes" where
  "encode_opt enc x = (case x of Some y \<Rightarrow> enc y | None \<Rightarrow> [])"

definition block_header_rlp_header :: "block_header \<Rightarrow> bool \<Rightarrow> bool \<Rightarrow> rlp_header" where
  "block_header_rlp_header h for_sealing exclude_extra_data_sig =
     \<lparr>is_list = True,
      payload_length =
        (kHashLength + 1) + (kHashLength + 1) + (kAddressLength + 1) + (kHashLength + 1)
        + (kHashLength + 1) + (kHashLength + 1)
        + (kBloomByteLength + length_of_length kBloomByteLength)
        + length_uint (difficulty h) + length_uint (number h) + length_uint (gas_limit h)
        + length_uint (gas_used h) + length_uint (timestamp h)
        + (if exclude_extra_data_sig then length_bytes (extra_data_no_signature h)
           else length_bytes (extra_data h))
        + (if \<not> for_sealing then (kHashLength + 1) + (8 + 1) else 0)
        + length_opt length_uint (base_fee_per_gas h)
        + length_opt (\<lambda>_. kHashLength + 1) (withdrawals_root h)
        + length_opt length_uint (blob_gas_used h)
        + length_opt length_uint (excess_blob_gas h)
        + length_opt (\<lambda>_. kHashLength + 1) (parent_beacon_block_root h)
        + length_opt (\<lambda>_. kHashLength + 1) (requests_hash h)
        + length_opt (\<lambda>_. kHashLength + 1) (block_access_list_hash h)
        + length_opt length_uint (slot_number h)\<rparr>"

definition length_block_header :: "block_header \<Rightarrow> nat" where
  "length_block_header h =
     (let rlp_head = block_header_rlp_header h False False
      in length_of_length (payload_length rlp_head) + payload_length rlp_head)"

text \<open>The fields every header has, then those appended by London, Shanghai, Cancun, Prague, Amsterdam.\<close>

definition header_base_items :: "block_header \<Rightarrow> bool \<Rightarrow> bool \<Rightarrow> bytes" where
  "header_base_items h for_sealing exclude_extra_data_sig =
     encode_bytes (parent_hash h) @ encode_bytes (ommers_hash h) @ encode_bytes (beneficiary h)
     @ encode_bytes (state_root h) @ encode_bytes (transactions_root h)
     @ encode_bytes (receipts_root h) @ encode_bytes (logs_bloom h) @ encode_uint (difficulty h)
     @ encode_uint (number h) @ encode_uint (gas_limit h) @ encode_uint (gas_used h)
     @ encode_uint (timestamp h)
     @ (if exclude_extra_data_sig then encode_bytes (extra_data_no_signature h)
        else encode_bytes (extra_data h))
     @ (if \<not> for_sealing then encode_bytes (prev_randao h) @ encode_bytes (nonce h) else [])"

definition header_added_items :: "block_header \<Rightarrow> bytes" where
  "header_added_items h =
     encode_opt encode_uint (base_fee_per_gas h) @ encode_opt encode_bytes (withdrawals_root h)
     @ encode_opt encode_uint (blob_gas_used h) @ encode_opt encode_uint (excess_blob_gas h)
     @ encode_opt encode_bytes (parent_beacon_block_root h) @ encode_opt encode_bytes (requests_hash h)
     @ encode_opt encode_bytes (block_access_list_hash h) @ encode_opt encode_uint (slot_number h)"

definition encode_block_header :: "block_header \<Rightarrow> bool \<Rightarrow> bool \<Rightarrow> bytes" where
  "encode_block_header h for_sealing exclude_extra_data_sig =
     encode_header (block_header_rlp_header h for_sealing exclude_extra_data_sig)
     @ header_base_items h for_sealing exclude_extra_data_sig @ header_added_items h"

definition block_header_hash :: "(bytes \<Rightarrow> bytes32) \<Rightarrow> block_header \<Rightarrow> bool \<Rightarrow> bool \<Rightarrow> bytes32" where
  "block_header_hash keccak256 h for_sealing exclude_extra_data_sig =
     keccak256 (encode_block_header h for_sealing exclude_extra_data_sig)"

text \<open>\<open>BlockHeader::boundary\<close>: a 320-bit division, stored big-endian in 32 bytes.\<close>

definition boundary :: "block_header \<Rightarrow> bytes32" where
  "boundary h =
     store_big (if difficulty h > 1
                then ucast ((push_bit 256 1 :: 320 word) div ucast (difficulty h))
                else (0xffffffffffffffffffffffffffffffffffffffffffffffffffffffffffffffff :: u256))"

section \<open>Header decoding\<close>

definition decode_header_base :: "bytes \<Rightarrow> block_header decoded" where
  "decode_header_base from =
     rbind (decode_array 32 from KAllow) (\<lambda>(parent_hash, from).
     rbind (decode_array 32 from KAllow) (\<lambda>(ommers_hash, from).
     rbind (decode_array 20 from KAllow) (\<lambda>(beneficiary, from).
     rbind (decode_array 32 from KAllow) (\<lambda>(state_root, from).
     rbind (decode_array 32 from KAllow) (\<lambda>(transactions_root, from).
     rbind (decode_array 32 from KAllow) (\<lambda>(receipts_root, from).
     rbind (decode_array 256 from KAllow) (\<lambda>(logs_bloom, from).
     rbind (decode_uint from KAllow) (\<lambda>(difficulty, from).
     rbind (decode_uint from KAllow) (\<lambda>(number, from).
     rbind (decode_uint from KAllow) (\<lambda>(gas_limit, from).
     rbind (decode_uint from KAllow) (\<lambda>(gas_used, from).
     rbind (decode_uint from KAllow) (\<lambda>(timestamp, from).
     rbind (decode_bytes from KAllow) (\<lambda>(extra_data, from).
     rbind (decode_array 32 from KAllow) (\<lambda>(prev_randao, from).
     rbind (decode_array 8 from KAllow) (\<lambda>(nonce, from).
       Inr (\<lparr>parent_hash = parent_hash, ommers_hash = ommers_hash, beneficiary = beneficiary,
             state_root = state_root, transactions_root = transactions_root,
             receipts_root = receipts_root, logs_bloom = logs_bloom, difficulty = difficulty,
             number = number, gas_limit = gas_limit, gas_used = gas_used, timestamp = timestamp,
             extra_data = extra_data, prev_randao = prev_randao, nonce = nonce,
             base_fee_per_gas = None, withdrawals_root = None, blob_gas_used = None,
             excess_blob_gas = None, parent_beacon_block_root = None, requests_hash = None,
             block_access_list_hash = None, slot_number = None\<rparr>, from))))))))))))))))"

text \<open>\<open>if (from.size() > leftover) \<dots> decode \<dots> else nullopt\<close>.\<close>

definition decode_opt ::
  "(bytes \<Rightarrow> leftover \<Rightarrow> 'a decoded) \<Rightarrow> nat \<Rightarrow> bytes \<Rightarrow> 'a option decoded" where
  "decode_opt dec leftover from =
     (if length from > leftover then rbind (dec from KAllow) (\<lambda>(x, from). Inr (Some x, from))
      else Inr (None, from))"

definition decode_blob_fields :: "bytes \<Rightarrow> leftover \<Rightarrow> (u64 \<times> u64 \<times> bytes32) decoded" where
  "decode_blob_fields from mode =
     rbind (decode_uint from KAllow) (\<lambda>(blob_gas_used, from).
     rbind (decode_uint from KAllow) (\<lambda>(excess_blob_gas, from).
     rbind (decode_array 32 from KAllow) (\<lambda>(parent_beacon_block_root, from).
       Inr ((blob_gas_used, excess_blob_gas, parent_beacon_block_root), from))))"

definition decode_header_added :: "nat \<Rightarrow> block_header \<Rightarrow> bytes \<Rightarrow> block_header decoded" where
  "decode_header_added leftover to from =
     rbind (decode_opt decode_uint leftover from) (\<lambda>(base_fee, from).
     rbind (decode_opt (decode_array 32) leftover from) (\<lambda>(wd_root, from).
     rbind (decode_opt decode_blob_fields leftover from) (\<lambda>(blob, from).
     rbind (decode_opt (decode_array 32) leftover from) (\<lambda>(req_hash, from).
     rbind (decode_opt (decode_array 32) leftover from) (\<lambda>(bal_hash, from).
     rbind (decode_opt decode_uint leftover from) (\<lambda>(slot, from).
       Inr (to\<lparr>base_fee_per_gas := base_fee, withdrawals_root := wd_root,
               blob_gas_used := map_option fst blob,
               excess_blob_gas := map_option (fst \<circ> snd) blob,
               parent_beacon_block_root := map_option (snd \<circ> snd) blob,
               requests_hash := req_hash, block_access_list_hash := bal_hash,
               slot_number := slot\<rparr>, from)))))))"

definition decode_header_items :: "nat \<Rightarrow> bytes \<Rightarrow> block_header decoded" where
  "decode_header_items leftover from =
     rbind (decode_header_base from) (\<lambda>(to, from). decode_header_added leftover to from)"

definition decode_block_header :: "bytes \<Rightarrow> leftover \<Rightarrow> block_header decoded" where
  "decode_block_header = decode_list_with decode_header_items"

section \<open>Bodies and blocks\<close>

definition length_transactions :: "transaction list \<Rightarrow> nat" where
  "length_transactions = length_vector (\<lambda>t. length_transaction t True)"

definition encode_transactions :: "transaction list \<Rightarrow> bytes" where
  "encode_transactions = encode_vector (\<lambda>t. encode_transaction t True) (\<lambda>t. length_transaction t True)"

definition encode_ommers :: "block_header list \<Rightarrow> bytes" where
  "encode_ommers = encode_vector (\<lambda>h. encode_block_header h False False) length_block_header"

definition rlp_header_body :: "'a block_body_scheme \<Rightarrow> rlp_header" where
  "rlp_header_body b =
     \<lparr>is_list = True,
      payload_length = length_transactions (transactions b)
        + length_vector length_block_header (ommers b)
        + length_opt (length_vector length_withdrawal) (withdrawals b)\<rparr>"

definition length_block_body :: "block_body \<Rightarrow> nat" where
  "length_block_body b =
     (let rlp_head = rlp_header_body b
      in length_of_length (payload_length rlp_head) + payload_length rlp_head)"

definition body_items :: "'a block_body_scheme \<Rightarrow> bytes" where
  "body_items b =
     encode_transactions (transactions b) @ encode_ommers (ommers b)
     @ encode_opt (encode_vector encode_withdrawal length_withdrawal) (withdrawals b)"

definition encode_block_body :: "block_body \<Rightarrow> bytes" where
  "encode_block_body b = encode_header (rlp_header_body b) @ body_items b"

definition decode_body_items :: "nat \<Rightarrow> bytes \<Rightarrow> block_body decoded" where
  "decode_body_items leftover from =
     rbind (decode_vector decode_tx from KAllow) (\<lambda>(txns, from).
     rbind (decode_vector decode_block_header from KAllow) (\<lambda>(ommers, from).
     rbind (decode_opt (decode_vector decode_withdrawal) leftover from) (\<lambda>(withdrawals, from).
       Inr (\<lparr>transactions = txns, ommers = ommers, withdrawals = withdrawals\<rparr>, from))))"

definition decode_block_body :: "bytes \<Rightarrow> leftover \<Rightarrow> block_body decoded" where
  "decode_block_body = decode_list_with decode_body_items"

definition block_rlp_header :: "block \<Rightarrow> rlp_header" where
  "block_rlp_header b =
     (let rlp_head = rlp_header_body b
      in rlp_head\<lparr>payload_length := payload_length rlp_head + length_block_header (header b)\<rparr>)"

definition length_block :: "block \<Rightarrow> nat" where
  "length_block b =
     (let rlp_head = block_rlp_header b
      in length_of_length (payload_length rlp_head) + payload_length rlp_head)"

definition encode_block :: "block \<Rightarrow> bytes" where
  "encode_block b =
     encode_header (block_rlp_header b) @ encode_block_header (header b) False False @ body_items b"

definition decode_block_items :: "nat \<Rightarrow> bytes \<Rightarrow> block decoded" where
  "decode_block_items leftover from =
     rbind (decode_block_header from KAllow) (\<lambda>(header, from).
     rbind (decode_vector decode_tx from KAllow) (\<lambda>(txns, from).
     rbind (decode_vector decode_block_header from KAllow) (\<lambda>(ommers, from).
     rbind (decode_opt (decode_vector decode_withdrawal) leftover from) (\<lambda>(withdrawals, from).
       Inr (\<lparr>transactions = txns, ommers = ommers, withdrawals = withdrawals, header = header\<rparr>,
            from)))))"

definition decode_block :: "bytes \<Rightarrow> leftover \<Rightarrow> block decoded" where
  "decode_block = decode_list_with decode_block_items"

section \<open>The header codec\<close>

lemma array_iff:
  "n < 2 ^ 64 \<Longrightarrow> decode_array n from mode = Inr (x, rest) \<longleftrightarrow>
     length x = n \<and> from = encode_bytes x @ rest \<and> (mode = KAllow \<or> rest = [])"
  using rlp_codec.dec_iff [OF array_codec, of n] by simp

definition valid_header_base :: "block_header \<Rightarrow> bool" where
  "valid_header_base h \<longleftrightarrow>
     length (parent_hash h) = 32 \<and> length (ommers_hash h) = 32 \<and> length (beneficiary h) = 20 \<and>
     length (state_root h) = 32 \<and> length (transactions_root h) = 32 \<and>
     length (receipts_root h) = 32 \<and> length (logs_bloom h) = 256 \<and>
     length (extra_data h) < 2 ^ 64 \<and> length (prev_randao h) = 32 \<and> length (nonce h) = 8"

definition clear_added :: "block_header \<Rightarrow> block_header" where
  "clear_added h =
     h\<lparr>base_fee_per_gas := None, withdrawals_root := None, blob_gas_used := None,
       excess_blob_gas := None, parent_beacon_block_root := None, requests_hash := None,
       block_access_list_hash := None, slot_number := None\<rparr>"

lemma decode_header_base_cases:
  "decode_header_base from = Inr (h, rest) \<Longrightarrow>
     h = clear_added h \<and> valid_header_base h \<and> from = header_base_items h False False @ rest"
  by (clarsimp simp: decode_header_base_def rbind_eq_Inr_iff basic_codec_laws array_iff)
     (simp add: valid_header_base_def header_base_items_def clear_added_def)

lemma decode_header_base_encode:
  "valid_header_base h \<Longrightarrow>
     decode_header_base (header_base_items h False False @ rest) = Inr (clear_added h, rest)"
  by (cases h)
     (simp add: decode_header_base_def item_enc_laws valid_header_base_def header_base_items_def
       clear_added_def rlp_codec.axioms(1) [OF array_codec, THEN rlp_item.item_enc])

text \<open>
  The appended fields come in the order of the forks, so a header that has one of them has all
  the earlier ones; the three Cancun fields come together.
\<close>

definition valid_header_added :: "block_header \<Rightarrow> bool" where
  "valid_header_added h \<longleftrightarrow>
     (withdrawals_root h \<noteq> None \<longrightarrow> base_fee_per_gas h \<noteq> None) \<and>
     (blob_gas_used h \<noteq> None \<longrightarrow> withdrawals_root h \<noteq> None) \<and>
     (blob_gas_used h \<noteq> None \<longleftrightarrow> excess_blob_gas h \<noteq> None) \<and>
     (blob_gas_used h \<noteq> None \<longleftrightarrow> parent_beacon_block_root h \<noteq> None) \<and>
     (requests_hash h \<noteq> None \<longrightarrow> blob_gas_used h \<noteq> None) \<and>
     (block_access_list_hash h \<noteq> None \<longrightarrow> requests_hash h \<noteq> None) \<and>
     (slot_number h \<noteq> None \<longrightarrow> block_access_list_hash h \<noteq> None) \<and>
     pred_option (\<lambda>x. length x = 32) (withdrawals_root h) \<and>
     pred_option (\<lambda>x. length x = 32) (parent_beacon_block_root h) \<and>
     pred_option (\<lambda>x. length x = 32) (requests_hash h) \<and>
     pred_option (\<lambda>x. length x = 32) (block_access_list_hash h)"

lemma decode_opt_iff:
  "decode_opt dec after from = Inr (x, rest) \<longleftrightarrow>
     (case x of
        None \<Rightarrow> rest = from \<and> length from \<le> after
      | Some y \<Rightarrow> after < length from \<and> dec from KAllow = Inr (y, rest))"
  by (auto simp: decode_opt_def rbind_eq_Inr_iff split: option.splits)

lemma decode_blob_fields_iff:
  "decode_blob_fields from mode = Inr ((used, excess, root), rest) \<longleftrightarrow>
     length root = 32 \<and> from = encode_uint used @ encode_uint excess @ encode_bytes root @ rest"
  by (auto simp: decode_blob_fields_def rbind_eq_Inr_iff basic_codec_laws)

lemma decode_header_added_cases:
  assumes "decode_header_added after to from = Inr (h, rest)" "length rest = after"
  shows "clear_added h = clear_added to \<and> valid_header_added h \<and> from = header_added_items h @ rest"
  using assms
  by (clarsimp simp: decode_header_added_def rbind_eq_Inr_iff)
     (auto simp: decode_opt_iff decode_blob_fields_iff basic_codec_laws valid_header_added_def
       header_added_items_def encode_opt_def clear_added_def split: option.splits)

lemma decode_opt_none: "decode_opt dec (length from) from = Inr (None, from)"
  by (simp add: decode_opt_def)

lemma decode_blob_fields_encode:
  "length root = 32 \<Longrightarrow>
   decode_blob_fields (encode_uint used @ encode_uint excess @ encode_bytes root @ rest) mode =
     Inr ((used, excess, root), rest)"
  by (simp add: decode_blob_fields_iff)

lemma length_enc_pos [simp]:
  "0 < length (encode_uint n)" "0 < length (encode_bytes s)"
  by simp_all

lemma less_add_encode [simp]:
  "k < length (encode_uint n) + (m + k)" "k < length (encode_bytes s) + (m + k)"
  "k < length (encode_uint n) + k" "k < length (encode_bytes s) + k"
  using length_enc_pos(1) [of n] length_enc_pos(2) [of s] by linarith+

lemma decode_header_added_encode:
  assumes "valid_header_added h" "clear_added h = clear_added to"
  shows "decode_header_added (length rest) to (header_added_items h @ rest) = Inr (h, rest)"
proof -
  have h: "h = to\<lparr>base_fee_per_gas := base_fee_per_gas h, withdrawals_root := withdrawals_root h,
      blob_gas_used := blob_gas_used h, excess_blob_gas := excess_blob_gas h,
      parent_beacon_block_root := parent_beacon_block_root h, requests_hash := requests_hash h,
      block_access_list_hash := block_access_list_hash h, slot_number := slot_number h\<rparr>"
    using assms(2) unfolding clear_added_def by (cases h, cases to) simp
  show ?thesis
    using assms(1)
    by (subst (2) h)
       (cases "base_fee_per_gas h"; cases "withdrawals_root h"; cases "blob_gas_used h";
        cases "requests_hash h"; cases "block_access_list_hash h"; cases "slot_number h";
        auto simp: valid_header_added_def decode_header_added_def header_added_items_def
          encode_opt_def decode_opt_none decode_opt_def decode_blob_fields_encode item_enc_laws)
qed

definition header_items :: "block_header \<Rightarrow> bytes" where
  "header_items h = header_base_items h False False @ header_added_items h"

lemma clear_added_items [simp]:
  "header_base_items (clear_added h) s x = header_base_items h s x"
  "valid_header_base (clear_added h) = valid_header_base h"
  "clear_added (clear_added h) = clear_added h"
  by (simp_all add: header_base_items_def valid_header_base_def clear_added_def
      extra_data_no_signature_def)

interpretation block_header_list: rlp_items header_items "\<lambda>h. length (header_items h)"
  decode_header_items "\<lambda>h. valid_header_base h \<and> valid_header_added h"
proof
  fix rest :: bytes and after view x
  assume after: "length rest = after"
  show "decode_header_items after view = Inr (x, rest) \<longleftrightarrow>
      (valid_header_base x \<and> valid_header_added x) \<and> view = header_items x @ rest" (is "?lhs \<longleftrightarrow> ?rhs")
  proof
    assume ?lhs
    then obtain to tail where "decode_header_base view = Inr (to, tail)"
      "decode_header_added after to tail = Inr (x, rest)"
      by (auto simp: decode_header_items_def rbind_eq_Inr_iff)
    then have b: "to = clear_added to" "valid_header_base to"
      "view = header_base_items to False False @ tail" and
      a: "clear_added x = clear_added to" "valid_header_added x" "tail = header_added_items x @ rest"
      using decode_header_base_cases decode_header_added_cases after by blast+
    have "to = clear_added x"
      using b(1) a(1) by simp
    then show ?rhs
      using a(2,3) b(2,3) unfolding \<open>to = clear_added x\<close> by (simp add: header_items_def)
  next
    assume ?rhs
    then show ?lhs
      using after decode_header_added_encode [of x "clear_added x" rest]
      by (simp add: decode_header_items_def header_items_def decode_header_base_encode)
  qed
qed simp

definition valid_block_header :: "block_header \<Rightarrow> bool" where
  "valid_block_header h \<longleftrightarrow>
     valid_header_base h \<and> valid_header_added h \<and> length (header_items h) < 2 ^ 64"

lemma encode_opt_length:
  "pred_option valid x \<Longrightarrow> (\<And>y. valid y \<Longrightarrow> len y = length (enc y)) \<Longrightarrow>
   length (encode_opt enc x) = length_opt len x"
  by (cases x) (simp_all add: encode_opt_def length_opt_def)

lemma encode_opt_uint_length:
  "64 dvd LENGTH('a) \<Longrightarrow>
   length (encode_opt encode_uint (x :: 'a::len word option)) = length_opt length_uint x"
  by (cases x) (simp_all add: encode_opt_def length_opt_def encode_uint_length)

lemma encode_opt_hash_length:
  "pred_option (\<lambda>y. length y = 32) x \<Longrightarrow>
   length (encode_opt encode_bytes x) = length_opt (\<lambda>_. kHashLength + 1) x"
  by (cases x) (simp_all add: encode_opt_def length_opt_def encode_bytes_length length_bytes_short
      kHashLength_def)

lemma length_bloom: "length b = 256 \<Longrightarrow> length_bytes b = 259"
  by (simp add: length_bytes_def length_of_length_def count_significant_bytes_def)

lemma block_header_rlp_header_eq:
  "valid_header_base h \<Longrightarrow> valid_header_added h \<Longrightarrow>
   block_header_rlp_header h False False =
     \<lparr>is_list = True, payload_length = length (header_items h)\<rparr>"
  by (simp add: block_header_rlp_header_def header_items_def header_base_items_def
      header_added_items_def valid_header_base_def valid_header_added_def encode_opt_uint_length
      encode_opt_hash_length encode_bytes_length encode_uint_length length_bytes_short length_bloom
      kHashLength_def kAddressLength_def kBloomByteLength_def length_of_length_def
      count_significant_bytes_def)

interpretation rlp_block_header: rlp_codec "\<lambda>h. encode_block_header h False False"
  length_block_header decode_block_header valid_block_header
proof (rule rlp_codecI)
  have e: "encode_block_header h False False =
      encode_list_of header_items (\<lambda>h. length (header_items h)) h"
    if "valid_header_base h" "valid_header_added h" for h
    using block_header_rlp_header_eq [OF that]
    by (simp add: encode_block_header_def encode_list_of_def header_items_def)
  show "decode_block_header from mode = Inr (h, rest) \<longleftrightarrow>
      valid_block_header h \<and> from = encode_block_header h False False @ rest \<and>
      (mode = KAllow \<or> rest = [])" for "from" mode h rest
    using e [of h] unfolding decode_block_header_def block_header_list.decode_list_with_iff
    by (auto simp: valid_list_of_def valid_block_header_def)
  show "length_block_header h = length (encode_block_header h False False)"
    if "valid_block_header h" for h
    using that block_header_rlp_header_eq [of h] e [of h]
    by (simp add: valid_block_header_def length_block_header_def encode_list_of_def
        encode_header_length)
qed (simp add: encode_block_header_def)

interpretation rlp_ommers: rlp_codec
  "encode_vector (\<lambda>h. encode_block_header h False False) length_block_header"
  "length_vector length_block_header" "decode_vector decode_block_header"
  "valid_vector valid_block_header length_block_header"
  by (rule rlp_block_header.vector_codec)

section \<open>The body and block codecs\<close>

definition valid_body_fields :: "'a block_body_scheme \<Rightarrow> bool" where
  "valid_body_fields b \<longleftrightarrow>
     valid_vector (decoded_into empty_transaction) (\<lambda>t. length_transaction t True) (transactions b) \<and>
     valid_vector valid_block_header length_block_header (ommers b) \<and>
     pred_option (valid_vector valid_withdrawal length_withdrawal) (withdrawals b)"

lemmas body_codec_laws = rlp_transactions.dec_iff rlp_ommers.dec_iff rlp_withdrawals.dec_iff

lemma vector_nonempty [simp]: "encode_vector enc len v \<noteq> []"
  by (simp add: encode_vector_def)

interpretation block_body_list: rlp_items "body_items :: block_body \<Rightarrow> bytes"
  "\<lambda>b. length (body_items b)" decode_body_items valid_body_fields
proof
  fix rest :: bytes and after view and x :: block_body
  assume after: "length rest = after"
  show "decode_body_items after view = Inr (x, rest) \<longleftrightarrow> valid_body_fields x \<and> view = body_items x @ rest"
    using after
    by (cases x)
       (auto simp: decode_body_items_def rbind_eq_Inr_iff body_codec_laws decode_opt_iff
         body_items_def valid_body_fields_def encode_transactions_def encode_ommers_def
         encode_opt_def split: option.splits)
qed simp

lemma rlp_header_body_eq:
  "valid_body_fields b \<Longrightarrow>
   rlp_header_body b = \<lparr>is_list = True, payload_length = length (body_items b)\<rparr>"
  using rlp_transactions.len_enc [of "transactions b"] rlp_ommers.len_enc [of "ommers b"]
    encode_opt_length [of "valid_vector valid_withdrawal length_withdrawal" "withdrawals b"
      "length_vector length_withdrawal" "encode_vector encode_withdrawal length_withdrawal"]
    rlp_withdrawals.len_enc
  by (simp add: rlp_header_body_def body_items_def valid_body_fields_def length_transactions_def
      encode_transactions_def encode_ommers_def)

definition valid_block_body :: "block_body \<Rightarrow> bool" where
  "valid_block_body b \<longleftrightarrow> valid_body_fields b \<and> length (body_items b) < 2 ^ 64"

interpretation rlp_block_body: rlp_codec encode_block_body length_block_body decode_block_body
  valid_block_body
proof (rule rlp_codecI)
  have e: "encode_block_body b = encode_list_of body_items (\<lambda>b. length (body_items b)) b"
    if "valid_body_fields b" for b
    using rlp_header_body_eq [OF that] by (simp add: encode_block_body_def encode_list_of_def)
  show "decode_block_body from mode = Inr (b, rest) \<longleftrightarrow>
      valid_block_body b \<and> from = encode_block_body b @ rest \<and> (mode = KAllow \<or> rest = [])"
    for "from" mode b rest
    using e [of b] unfolding decode_block_body_def block_body_list.decode_list_with_iff
    by (auto simp: valid_list_of_def valid_block_body_def)
  show "length_block_body b = length (encode_block_body b)" if "valid_block_body b" for b
    using that rlp_header_body_eq [of b] e [of b]
    by (simp add: valid_block_body_def length_block_body_def encode_list_of_def encode_header_length)
qed (simp add: encode_block_body_def)

definition block_items :: "block \<Rightarrow> bytes" where
  "block_items b = encode_block_header (header b) False False @ body_items b"

definition valid_block_fields :: "block \<Rightarrow> bool" where
  "valid_block_fields b \<longleftrightarrow> valid_block_header (header b) \<and> valid_body_fields b"

interpretation block_list: rlp_items block_items "\<lambda>b. length (block_items b)" decode_block_items
  valid_block_fields
proof
  fix rest :: bytes and after view and x :: block
  assume after: "length rest = after"
  show "decode_block_items after view = Inr (x, rest) \<longleftrightarrow>
      valid_block_fields x \<and> view = block_items x @ rest"
    using after
    by (cases x)
       (auto simp: decode_block_items_def rbind_eq_Inr_iff rlp_block_header.dec_iff body_codec_laws
         decode_opt_iff block_items_def valid_block_fields_def body_items_def valid_body_fields_def
         encode_transactions_def encode_ommers_def encode_opt_def split: option.splits)
qed simp

lemma block_rlp_header_eq:
  "valid_block_fields b \<Longrightarrow>
   block_rlp_header b = \<lparr>is_list = True, payload_length = length (block_items b)\<rparr>"
  using rlp_block_header.len_enc [of "header b"] rlp_header_body_eq [of b]
  by (simp add: block_rlp_header_def block_items_def valid_block_fields_def)

definition valid_block :: "block \<Rightarrow> bool" where
  "valid_block b \<longleftrightarrow> valid_block_fields b \<and> length (block_items b) < 2 ^ 64"

interpretation rlp_block: rlp_codec encode_block length_block decode_block valid_block
proof (rule rlp_codecI)
  have e: "encode_block b = encode_list_of block_items (\<lambda>b. length (block_items b)) b"
    if "valid_block_fields b" for b
    using block_rlp_header_eq [OF that]
    by (simp add: encode_block_def encode_list_of_def block_items_def)
  show "decode_block from mode = Inr (b, rest) \<longleftrightarrow>
      valid_block b \<and> from = encode_block b @ rest \<and> (mode = KAllow \<or> rest = [])"
    for "from" mode b rest
    using e [of b] unfolding decode_block_def block_list.decode_list_with_iff
    by (auto simp: valid_list_of_def valid_block_def)
  show "length_block b = length (encode_block b)" if "valid_block b" for b
    using that block_rlp_header_eq [of b] e [of b]
    by (simp add: valid_block_def length_block_def encode_list_of_def encode_header_length)
qed (simp add: encode_block_def)

section \<open>Header hash and boundary\<close>

text \<open>The hash of a decoded header is the hash of the bytes it was decoded from.\<close>

lemma block_header_hash_of_input:
  "decode_block_header from KProhibit = Inr (h, rest) \<Longrightarrow>
   block_header_hash keccak256 h False False = keccak256 from"
  by (simp add: rlp_block_header.dec_iff block_header_hash_def)

text \<open>The boundary is the quotient itself: nothing is lost in the conversion back to 256 bits.\<close>

lemma boundary_quotient:
  assumes "1 < difficulty h"
  shows "be_nat (boundary h) = 2 ^ 256 div unat (difficulty h)"
proof -
  let ?d = "unat (difficulty h)"
  have d: "1 < ?d" "?d < 2 ^ 256"
    using assms unat_less_u256 [of "difficulty h"] by (auto simp: word_less_nat_alt)
  have c: "unat (ucast (difficulty h) :: 320 word) = ?d"
    using d(2) by (simp add: unsigned_ucast_eq take_bit_nat_eq_self)
  have p: "unat (push_bit 256 1 :: 320 word) = 2 ^ 256"
    by simp
  have q: "unat ((push_bit 256 1 :: 320 word) div ucast (difficulty h)) = 2 ^ 256 div ?d"
    unfolding unat_div_distrib c p ..
  have "(2 :: nat) ^ 256 div ?d < 2 ^ 256"
    using d(1) by (intro div_less_dividend) auto
  then have "unat (ucast ((push_bit 256 1 :: 320 word) div ucast (difficulty h)) :: u256) =
      2 ^ 256 div ?d"
    using q by (simp only: unsigned_ucast_eq take_bit_nat_eq_self) (simp add: take_bit_nat_eq_self)
  then show ?thesis
    using assms by (simp add: boundary_def be_nat_store_big)
qed

section \<open>Properties\<close>

text \<open>
  C25: block decoding is exact. A header, a body and a whole block decode precisely from their own
  encoding, whose size is the announced length. The header fields that forks appended are read as
  a prefix of the fork order, the three Cancun fields together, and withdrawals only when bytes of
  the list are left for them; every transaction of a decoded block carries the views of its own
  bytes.
\<close>

theorem block_decoding_exact:
  "(decode_block_header from mode = Inr (h, rest) \<longleftrightarrow>
      valid_block_header h \<and> from = encode_block_header h False False @ rest \<and>
      length from = length_block_header h + length rest \<and> (mode = KAllow \<or> rest = [])) \<and>
   (decode_block_body from mode = Inr (body, rest) \<longleftrightarrow>
      valid_block_body body \<and> from = encode_block_body body @ rest \<and>
      length from = length_block_body body + length rest \<and> (mode = KAllow \<or> rest = [])) \<and>
   (decode_block from mode = Inr (b, rest) \<longleftrightarrow>
      valid_block b \<and> from = encode_block b @ rest \<and>
      length from = length_block b + length rest \<and> (mode = KAllow \<or> rest = []))"
  using rlp_block_header.len_enc [of h] rlp_block_body.len_enc [of body] rlp_block.len_enc [of b]
  by (auto simp: rlp_block_header.dec_iff rlp_block_body.dec_iff rlp_block.dec_iff)

end
