(* ===== verification/Fees.thy ===== *)
theory Fees
  imports Complex_Main Chain_Config Block
begin

text \<open>
  The fee markets: the EIP-1559 base fee (protocol/validation.cpp), the EIP-4844 blob gas price with
  its Taylor approximation of the exponential (types/block.cpp), and the excess blob gas with the
  EIP-7918 price floor. Divisions by zero, which the source leaves undefined, are \<open>None\<close>.
\<close>

section \<open>Protocol parameters\<close>

definition kInitialBaseFee :: u64 where "kInitialBaseFee = 1000000000"
definition kBaseFeeMaxChangeDenominator :: u64 where "kBaseFeeMaxChangeDenominator = 8"
definition kElasticityMultiplier :: u64 where "kElasticityMultiplier = 2"
definition kMinBlobGasPrice :: u64 where "kMinBlobGasPrice = 1"

section \<open>The base fee\<close>

definition expected_base_fee_per_gas :: "block_header \<Rightarrow> u256 option" where
  "expected_base_fee_per_gas parent =
     (case base_fee_per_gas parent of
        None \<Rightarrow> Some (ucast kInitialBaseFee)
      | Some parent_base_fee_per_gas \<Rightarrow>
          let parent_gas_target = gas_limit parent div kElasticityMultiplier
          in if gas_used parent = parent_gas_target then Some parent_base_fee_per_gas
             else if parent_gas_target = 0 then None
             else if gas_used parent > parent_gas_target
             then let gas_used_delta = ucast (gas_used parent - parent_gas_target);
                      base_fee_per_gas_delta =
                        parent_base_fee_per_gas * gas_used_delta div ucast parent_gas_target
                        div ucast kBaseFeeMaxChangeDenominator;
                      base_fee_per_gas_delta =
                        (if base_fee_per_gas_delta < 1 then 1 else base_fee_per_gas_delta)
                  in Some (parent_base_fee_per_gas + base_fee_per_gas_delta)
             else let gas_used_delta = ucast (parent_gas_target - gas_used parent);
                      base_fee_per_gas_delta =
                        parent_base_fee_per_gas * gas_used_delta div ucast parent_gas_target
                        div ucast kBaseFeeMaxChangeDenominator
                  in if parent_base_fee_per_gas > base_fee_per_gas_delta
                     then Some (parent_base_fee_per_gas - base_fee_per_gas_delta)
                     else Some 0)"

section \<open>The blob gas price\<close>

text \<open>
  The loop of \<open>fake_exponential\<close>. \<open>i\<close> is a 32-bit counter; a denominator that fits 32 bits is multiplied
  with it in 64 bits. The value is \<open>None\<close> if the loop does not end or its divisor is 0.
\<close>

definition exp_divisor :: "u256 \<Rightarrow> u32 \<Rightarrow> u256" where
  "exp_divisor denominator i =
     (if denominator \<le> 0xFFFFFFFF then ucast ((ucast denominator :: u64) * (ucast i :: u64))
      else denominator * ucast i)"

partial_function (option) fake_exponential_loop :: "u256 \<Rightarrow> u256 \<Rightarrow> u32 \<Rightarrow> u256 \<Rightarrow> u256 \<Rightarrow> u256 option" where
  "fake_exponential_loop numerator denominator i output numerator_accum =
     (if numerator_accum = 0 then Some output
      else if exp_divisor denominator i = 0 then None
      else fake_exponential_loop numerator denominator (i + 1) (output + numerator_accum)
             (numerator_accum * numerator div exp_divisor denominator i))"

definition fake_exponential :: "u256 \<Rightarrow> u256 \<Rightarrow> u256 \<Rightarrow> u256 option" where
  "fake_exponential factor numerator denominator =
     (case fake_exponential_loop numerator denominator 1 0 (factor * denominator) of
        None \<Rightarrow> None
      | Some output \<Rightarrow> if denominator = 0 then None else Some (output div denominator))"

definition calc_blob_gas_price :: "u64 \<Rightarrow> blob_params \<Rightarrow> u256 option" where
  "calc_blob_gas_price excess blob_params =
     fake_exponential (ucast kMinBlobGasPrice) (ucast excess)
       (ucast (base_fee_update_fraction blob_params))"

text \<open>\<open>BlockHeader::blob_gas_price\<close>: the outer option is the result of the computation, the inner one the price.\<close>

definition blob_gas_price :: "block_header \<Rightarrow> chain_config \<Rightarrow> u256 option option" where
  "blob_gas_price h config =
     (case excess_blob_gas h of
        None \<Rightarrow> Some None
      | Some excess \<Rightarrow>
          map_option Some (calc_blob_gas_price excess (blob_params_at config (timestamp h))))"

section \<open>Excess blob gas\<close>

definition calc_excess_blob_gas :: "block_header \<Rightarrow> block_header \<Rightarrow> chain_config \<Rightarrow> u64 option" where
  "calc_excess_blob_gas h parent chain_config =
     (let parent_excess_blob_gas = value_or (excess_blob_gas parent) 0;
          parent_blob_gas_used = value_or (blob_gas_used parent) 0;
          parent_base_fee = value_or (base_fee_per_gas parent) 0;
          revn = revision chain_config (number h) (timestamp h);
          blob_params = blob_params_at chain_config (timestamp h)
      in case calc_blob_gas_price parent_excess_blob_gas blob_params of
           None \<Rightarrow> None
         | Some parent_blob_base_fee \<Rightarrow>
             let target_blob_gas_per_block = ucast (bp_target blob_params) * kGasPerBlob
             in if parent_excess_blob_gas + parent_blob_gas_used < target_blob_gas_per_block then Some 0
                else if revn \<ge> EVMC_OSAKA \<and>
                        0x2000 * parent_base_fee > ucast kGasPerBlob * parent_blob_base_fee
                then if bp_max blob_params = 0 then None
                     else Some (parent_excess_blob_gas +
                                parent_blob_gas_used *
                                (ucast (bp_max blob_params) - ucast (bp_target blob_params)) div
                                ucast (bp_max blob_params))
                else Some (parent_excess_blob_gas + parent_blob_gas_used - target_blob_gas_per_block))"

section \<open>The Taylor expansion over the natural numbers\<close>

function exact_terms :: "nat \<Rightarrow> nat \<Rightarrow> nat \<Rightarrow> nat \<Rightarrow> nat list" where
  "exact_terms n d i acc =
     (if acc = 0 \<or> d = 0 \<or> i = 0 then [] else acc # exact_terms n d (Suc i) (acc * n div (d * i)))"
  by pat_completeness auto

lemma exp_term_decreases:
  fixes n d i acc :: nat
  assumes "0 < acc" "0 < d" "n div d < i"
  shows "acc * n div (d * i) < acc"
proof -
  have "n < d * i"
    using assms(2,3) by (simp add: div_less_iff_less_mult mult.commute)
  then have "acc * n < acc * (d * i)"
    using assms(1) by simp
  then show ?thesis
    by (metis less_mult_imp_div_less)
qed

termination exact_terms
proof (relation "measures [\<lambda>(n, d, i, acc). n div d + 1 - i, \<lambda>(n, d, i, acc). acc]")
  fix n d i acc :: nat
  assume a: "\<not> (acc = 0 \<or> d = 0 \<or> i = 0)"
  show "((n, d, Suc i, acc * n div (d * i)), n, d, i, acc)
          \<in> measures [\<lambda>(n, d, i, acc). n div d + 1 - i, \<lambda>(n, d, i, acc). acc]"
  proof (cases "n div d < i")
    case True
    then show ?thesis
      using a exp_term_decreases [of acc d n i] by simp
  next
    case False
    then show ?thesis by (simp add: Suc_diff_le)
  qed
qed simp

declare exact_terms.simps [simp del]

text \<open>\<open>factor * e ** (numerator / denominator)\<close> as EIP-4844 computes it, with unbounded integers.\<close>

definition exact_exponential :: "nat \<Rightarrow> nat \<Rightarrow> nat \<Rightarrow> nat" where
  "exact_exponential factor numerator denominator =
     sum_list (exact_terms numerator denominator 1 (factor * denominator)) div denominator"

text \<open>The partial sums stay below the exponential series.\<close>

definition exp_tail :: "real \<Rightarrow> nat \<Rightarrow> real" where
  "exp_tail x i = exp x - (\<Sum>j<i. x ^ j / fact j)"

lemma exp_tail_nonneg:
  assumes "0 \<le> x"
  shows "0 \<le> exp_tail x i"
proof -
  have s: "(\<lambda>j. x ^ j / fact j) sums exp x"
    using exp_converges [of x] by (simp add: divide_inverse mult.commute scaleR_conv_of_real)
  have "(\<Sum>j<i. x ^ j / fact j) \<le> (\<Sum>j. x ^ j / fact j)"
    using s assms by (intro sum_le_suminf) (auto simp: sums_iff)
  then show ?thesis
    using s by (simp add: exp_tail_def sums_iff)
qed

lemma exact_terms_bound:
  assumes "0 < d" "real acc \<le> A * (real n / real d) ^ (i - 1) / fact (i - 1)" "0 < i" "0 \<le> A"
  shows "real (sum_list (exact_terms n d i acc)) \<le> A * exp_tail (real n / real d) (i - 1)"
  using assms
proof (induction n d i acc rule: exact_terms.induct)
  case (1 n d i acc)
  let ?x = "real n / real d"
  show ?case
  proof (cases "acc = 0")
    case True
    then show ?thesis
      using 1(5) exp_tail_nonneg [of ?x "i - 1"] by (simp add: exact_terms.simps)
  next
    case False
    have i: "i = Suc (i - 1)"
      using 1(4) by simp
    have f: "fact i = real i * fact (i - 1)"
      using 1(4) by (simp add: fact_reduce)
    have p: "?x ^ i = ?x * ?x ^ (i - 1)"
      by (subst i) simp
    have "real (acc * n div (d * i)) \<le> real (acc * n) / real (d * i)"
      by (rule of_nat_div_le_of_nat)
    also have "\<dots> = real acc * (?x / real i)"
      by simp
    also have "\<dots> \<le> A * ?x ^ (i - 1) / fact (i - 1) * (?x / real i)"
      using 1(3) by (intro mult_right_mono) auto
    also have "\<dots> = A * ?x ^ i / fact i"
      by (simp add: f p mult_ac)
    finally have "real (sum_list (exact_terms n d (Suc i) (acc * n div (d * i)))) \<le> A * exp_tail ?x i"
      using 1(1) False 1(2,4,5) by simp
    moreover have "exp_tail ?x (i - 1) = ?x ^ (i - 1) / fact (i - 1) + exp_tail ?x i"
      by (subst (2) i) (simp add: exp_tail_def)
    ultimately show ?thesis
      using 1(2,3,4) False by (subst exact_terms.simps) (simp add: algebra_simps)
  qed
qed

lemma exp_le_three_power: "exp (real k) \<le> 3 ^ k"
proof -
  have "exp (real k) = exp 1 ^ k"
    by (simp flip: exp_of_nat_mult)
  also have "\<dots> \<le> 3 ^ k"
    using exp_le by (intro power_mono) auto
  finally show ?thesis .
qed

lemma exact_terms_sum_le:
  assumes "0 < d"
  shows "real (sum_list (exact_terms n d 1 acc)) \<le> real acc * exp (real n / real d)"
  using exact_terms_bound [of d acc "real acc" n 1] assms by (simp add: exp_tail_def)

lemma exact_terms_sum_bound:
  assumes "0 < d" "n \<le> k * d"
  shows "sum_list (exact_terms n d 1 acc) \<le> acc * 3 ^ k"
proof -
  have "real n / real d \<le> real k"
    using assms by (simp add: divide_le_eq flip: of_nat_mult)
  then have "exp (real n / real d) \<le> 3 ^ k"
    using exp_le_three_power [of k] by (meson exp_le_cancel_iff order.trans)
  then have "real acc * exp (real n / real d) \<le> real (acc * 3 ^ k)"
    by (simp add: mult_left_mono)
  then show ?thesis
    using exact_terms_sum_le [OF assms(1), of n acc] by linarith
qed

text \<open>The terms at least halve once \<open>i\<close> is twice the quotient, so the loop ends after a few hundred rounds.\<close>

lemma exact_terms_halve:
  assumes "acc < 2 ^ k" "2 * n \<le> d * i" "0 < d" "0 < i"
  shows "length (exact_terms n d i acc) \<le> k"
  using assms
proof (induction k arbitrary: i acc)
  case 0
  then show ?case by (simp add: exact_terms.simps)
next
  case (Suc k)
  have "acc * n * 2 \<le> acc * (d * i)"
    using Suc.prems(2) mult_le_mono2 [of "2 * n" "d * i" acc] by (simp add: mult.assoc mult.commute)
  note twice = this
  have "acc * n div (d * i) \<le> acc div 2"
  proof -
    have "acc * n div (d * i) * 2 \<le> acc * n * 2 div (d * i)"
      by (metis div_mult1_eq le_add1 mult.commute)
    also have "\<dots> \<le> acc * (d * i) div (d * i)"
      by (rule div_le_mono [OF twice])
    finally show ?thesis
      using Suc.prems(3,4) by simp
  qed
  then have "acc * n div (d * i) < 2 ^ k"
    using Suc.prems(1) by simp
  then have "length (exact_terms n d (Suc i) (acc * n div (d * i))) \<le> k"
    using Suc.prems by (intro Suc.IH) auto
  then show ?case
    by (subst exact_terms.simps) simp
qed

lemma exact_terms_length:
  assumes "sum_list (exact_terms n d i acc) < 2 ^ k" "2 * n \<le> d * m" "0 < d" "0 < i"
  shows "length (exact_terms n d i acc) \<le> (m - i) + k"
  using assms
proof (induction n d i acc rule: exact_terms.induct)
  case (1 n d i acc)
  show ?case
  proof (cases "acc = 0")
    case True
    then show ?thesis by (simp add: exact_terms.simps)
  next
    case False
    then have e: "exact_terms n d i acc = acc # exact_terms n d (Suc i) (acc * n div (d * i))"
      using 1(4,5) by (subst exact_terms.simps) simp
    show ?thesis
    proof (cases "i < m")
      case True
      then show ?thesis
        using 1 False by (simp add: e)
    next
      case m: False
      then have "2 * n \<le> d * i"
        using 1(3) by (meson le_trans mult_le_mono2 not_less)
      moreover have "acc < 2 ^ k"
        using 1(2) by (simp add: e)
      ultimately show ?thesis
        using exact_terms_halve [of acc k n d i] 1(4,5) by simp
    qed
  qed
qed

section \<open>The loop on machine words\<close>

lemma exp_divisor_exact:
  assumes "unat D < 2 ^ 224"
  shows "unat (exp_divisor D i) = unat D * unat i"
proof (cases "D \<le> 0xFFFFFFFF")
  case True
  then have d: "unat D < 2 ^ 32"
    by (simp add: word_le_nat_alt)
  have i: "unat i < 2 ^ 32"
    using unsigned_less [of i] by simp
  have "unat D * unat i < 2 ^ 32 * 2 ^ 32"
    using d i by (intro mult_strict_mono) auto
  then show ?thesis
    using True d i by (simp add: exp_divisor_def unsigned_ucast_eq unat_word_ariths take_bit_eq_mod)
next
  case False
  have i: "unat i < 2 ^ 32"
    using unsigned_less [of i] by simp
  have "unat D * unat i < 2 ^ 224 * 2 ^ 32"
    using assms i by (intro mult_strict_mono) auto
  then show ?thesis
    using False i by (simp add: exp_divisor_def unsigned_ucast_eq unat_word_ariths take_bit_eq_mod)
qed

lemma fake_exponential_loop_exact:
  assumes "n = unat N" "d = unat D" "i = unat iw" "acc = unat accw"
    and "0 < d" "d < 2 ^ 224" "0 < i" "i + length (exact_terms n d i acc) < 2 ^ 32"
    and "unat out + sum_list (exact_terms n d i acc) < 2 ^ 256"
    and "sum_list (exact_terms n d i acc) * n < 2 ^ 256"
  shows "fake_exponential_loop N D iw out accw = Some (out + of_nat (sum_list (exact_terms n d i acc)))"
  using assms
proof (induction n d i acc arbitrary: iw accw out rule: exact_terms.induct)
  case (1 n d i acc)
  show ?case
  proof (cases "acc = 0")
    case True
    then have "accw = 0"
      using 1(5) by (simp add: unat_eq_0)
    then show ?thesis
      using True by (subst fake_exponential_loop.simps) (simp add: exact_terms.simps)
  next
    case False
    let ?acc = "acc * n div (d * i)"
    have e: "exact_terms n d i acc = acc # exact_terms n d (Suc i) ?acc"
      using 1(6,8) False by (subst exact_terms.simps) simp
    have div: "unat (exp_divisor D iw) = d * i"
      using 1(3,4,7) by (simp add: exp_divisor_exact)
    then have nz: "exp_divisor D iw \<noteq> 0" "accw \<noteq> 0"
      using 1(5,6,8) False by (auto simp: unat_eq_0)
    have "acc * n < 2 ^ 256"
      using 1(11) by (auto simp: e add_mult_distrib)
    then have acc: "?acc = unat (accw * N div exp_divisor D iw)"
      using 1(2,5) by (simp add: unat_div_distrib div unat_word_ariths)
    have "Suc i < 2 ^ 32"
      using 1(9) unfolding e by simp
    then have i: "Suc i = unat (iw + 1)"
      by (simp add: unat_word_ariths flip: 1(4))
    have "unat out + acc < 2 ^ 256"
      using 1(10) unfolding e by simp
    then have out: "unat (out + accw) = unat out + acc"
      by (simp add: unat_word_ariths flip: 1(5))
    have "fake_exponential_loop N D (iw + 1) (out + accw) (accw * N div exp_divisor D iw) =
        Some ((out + accw) + of_nat (sum_list (exact_terms n d (Suc i) ?acc)))"
      using False 1(6-11) by (intro 1(1) [OF _ 1(2,3) i acc]) (auto simp: e out add_mult_distrib)
    moreover have "of_nat acc = accw"
      using 1(5) by simp
    ultimately show ?thesis
      using nz by (subst fake_exponential_loop.simps) (simp add: e)
  qed
qed

lemma fake_exponential_exact:
  assumes d: "0 < unat D" "unat D < 2 ^ 32" and f: "unat F < 2 ^ 32"
    and n: "unat N \<le> 90 * unat D"
  shows "fake_exponential F N D = Some (of_nat (exact_exponential (unat F) (unat N) (unat D)))"
    and "exact_exponential (unat F) (unat N) (unat D) < 2 ^ 256"
proof -
  let ?ts = "exact_terms (unat N) (unat D) 1 (unat F * unat D)"
  have fd: "unat F * unat D < 2 ^ 32 * 2 ^ 32"
    using d f by (intro mult_strict_mono) auto
  have "sum_list ?ts \<le> unat F * unat D * 3 ^ 90"
    using d n by (intro exact_terms_sum_bound) auto
  also have "\<dots> \<le> 2 ^ 64 * 3 ^ 90"
    using mult_le_mono1 [OF less_imp_le [OF fd], of "3 ^ 90"] by simp
  finally have s: "sum_list ?ts \<le> 2 ^ 64 * 3 ^ 90" .
  then have s256: "sum_list ?ts < 2 ^ 256"
    by (rule le_less_trans) simp
  have "unat N \<le> 90 * 2 ^ 32"
    using n d by simp
  with s have "sum_list ?ts * unat N \<le> (2 ^ 64 * 3 ^ 90) * (90 * 2 ^ 32)"
    by (rule mult_le_mono)
  also have "\<dots> < 2 ^ 256"
    by simp
  finally have sn: "sum_list ?ts * unat N < 2 ^ 256" .
  have "length ?ts \<le> (180 - 1) + 256"
    using s256 n d by (intro exact_terms_length) auto
  then have len: "1 + length ?ts < 2 ^ 32"
    by simp
  have FD: "unat (F * D) = unat F * unat D"
    using fd by (simp add: unat_word_ariths)
  have "fake_exponential_loop N D 1 0 (F * D) = Some (0 + of_nat (sum_list ?ts))"
    using d s256 sn len by (intro fake_exponential_loop_exact) (auto simp: FD)
  moreover have "unat ((of_nat (sum_list ?ts) :: u256) div D) = sum_list ?ts div unat D"
    using s256 unfolding unat_div_distrib unat_of_nat by simp
  then have "(of_nat (sum_list ?ts) :: u256) div D = of_nat (sum_list ?ts div unat D)"
    by (metis of_nat_unat ucast_id)
  moreover have "D \<noteq> 0"
    using d by auto
  ultimately show "fake_exponential F N D = Some (of_nat (exact_exponential (unat F) (unat N) (unat D)))"
    by (simp add: fake_exponential_def exact_exponential_def)
  show "exact_exponential (unat F) (unat N) (unat D) < 2 ^ 256"
    using s256 unfolding exact_exponential_def by (meson div_le_dividend le_less_trans)
qed

lemma exact_exponential_ge:
  assumes "0 < d"
  shows "factor \<le> exact_exponential factor n d"
proof (cases "factor = 0")
  case False
  then have "factor * d \<le> sum_list (exact_terms n d 1 (factor * d))"
    using assms by (subst exact_terms.simps) simp
  then have "factor * d div d \<le> sum_list (exact_terms n d 1 (factor * d)) div d"
    by (rule div_le_mono)
  then show ?thesis
    using assms by (simp add: exact_exponential_def)
qed simp

lemma exact_exponential_le_exp:
  assumes "0 < d"
  shows "real (exact_exponential factor n d) \<le> real factor * exp (real n / real d)"
proof -
  have "real (exact_exponential factor n d) \<le> real (sum_list (exact_terms n d 1 (factor * d))) / real d"
    unfolding exact_exponential_def by (rule of_nat_div_le_of_nat)
  also have "\<dots> \<le> real (factor * d) * exp (real n / real d) / real d"
    using exact_terms_sum_le [OF assms, of n "factor * d"] by (intro divide_right_mono) simp_all
  finally show ?thesis
    using assms by simp
qed

lemma calc_blob_gas_price_exact:
  assumes "0 < unat (base_fee_update_fraction bp)"
    "unat excess \<le> 90 * unat (base_fee_update_fraction bp)"
  obtains price where "calc_blob_gas_price excess bp = Some price"
    "unat price = exact_exponential 1 (unat excess) (unat (base_fee_update_fraction bp))"
    "unat price \<le> 3 ^ 90"
proof -
  let ?d = "base_fee_update_fraction bp"
  have u: "unat (ucast ?d :: u256) = unat ?d" "unat (ucast excess :: u256) = unat excess"
    "unat (ucast kMinBlobGasPrice :: u256) = 1"
    by (simp_all add: unat_ucast_up kMinBlobGasPrice_def)
  have d: "unat ?d < 2 ^ 32"
    using unsigned_less [of ?d] by simp
  let ?e = "exact_exponential 1 (unat excess) (unat ?d)"
  have "calc_blob_gas_price excess bp = Some (of_nat ?e)" "?e < 2 ^ 256"
    using fake_exponential_exact [of "ucast ?d" "ucast kMinBlobGasPrice" "ucast excess"] assms d
    unfolding u calc_blob_gas_price_def by simp_all
  moreover have "unat (of_nat ?e :: u256) = ?e"
    using calculation(2) by (simp add: unat_of_nat)
  moreover have "?e \<le> 3 ^ 90"
  proof -
    have "sum_list (exact_terms (unat excess) (unat ?d) 1 (unat ?d)) \<le> unat ?d * 3 ^ 90"
      using assms by (intro exact_terms_sum_bound) auto
    then have "sum_list (exact_terms (unat excess) (unat ?d) 1 (unat ?d)) div unat ?d \<le>
        unat ?d * 3 ^ 90 div unat ?d"
      by (rule div_le_mono)
    then show ?thesis
      using assms(1) unfolding exact_exponential_def by simp
  qed
  ultimately show ?thesis
    using that by simp
qed

text \<open>
  C27: for an excess of up to 90 update fractions the 256-bit loop ends without wrapping around and the
  blob gas price is the integer Taylor sum of EIP-4844; it is at least the minimum price of 1 and never
  more than the exponential it approximates.
\<close>

theorem blob_gas_price_exact:
  assumes "base_fee_update_fraction bp \<noteq> 0"
    "unat excess \<le> 90 * unat (base_fee_update_fraction bp)"
  shows "\<exists>price. calc_blob_gas_price excess bp = Some price \<and>
           unat price = exact_exponential 1 (unat excess) (unat (base_fee_update_fraction bp)) \<and>
           1 \<le> unat price \<and>
           real (unat price) \<le> exp (real (unat excess) / real (unat (base_fee_update_fraction bp)))"
proof -
  have d: "0 < unat (base_fee_update_fraction bp)"
    using assms(1) by (simp add: unat_gt_0)
  obtain price where "calc_blob_gas_price excess bp = Some price"
    "unat price = exact_exponential 1 (unat excess) (unat (base_fee_update_fraction bp))"
    using calc_blob_gas_price_exact [OF d assms(2)] by blast
  then show ?thesis
    using exact_exponential_ge [OF d, of 1 "unat excess"]
      exact_exponential_le_exp [OF d, of 1 "unat excess"] by (metis mult_1 of_nat_1)
qed

theorem blob_gas_price_exact_witness:
  "\<exists>price. calc_blob_gas_price 100000000 (blob_params_at kMainnetConfig 1750000000) = Some price \<and>
     1 \<le> unat price"
  using blob_gas_price_exact [of "blob_params_at kMainnetConfig 1750000000" 100000000]
  by (auto simp: blob_params_at_def kMainnetConfig_def default_config_def)

section \<open>The base fee moves by at most an eighth\<close>

text \<open>The change of the base fee over the natural numbers.\<close>

definition base_fee_change :: "nat \<Rightarrow> nat \<Rightarrow> nat \<Rightarrow> nat" where
  "base_fee_change base_fee delta target = base_fee * delta div target div 8"

lemma base_fee_change_le:
  assumes "delta \<le> target"
  shows "base_fee_change b delta target \<le> b div 8"
proof -
  have "b * delta div target \<le> b * target div target"
    using assms by (intro div_le_mono mult_le_mono2)
  also have "\<dots> \<le> b"
    by (cases "target = 0") auto
  finally show ?thesis
    by (simp add: base_fee_change_def div_le_mono)
qed

lemma base_fee_delta_word:
  fixes b :: u256 and delta target :: u64
  assumes "unat b < 2 ^ 192"
  shows "unat (b * ucast delta div ucast target div ucast kBaseFeeMaxChangeDenominator) =
           base_fee_change (unat b) (unat delta) (unat target)"
proof -
  have "unat b * unat delta < 2 ^ 192 * 2 ^ 64"
    using assms unsigned_less [of delta] by (intro mult_strict_mono) auto
  then have "unat (b * ucast delta) = unat b * unat delta"
    by (simp add: unat_word_ariths unat_ucast_up)
  then show ?thesis
    by (simp add: unat_div_distrib unat_ucast_up base_fee_change_def kBaseFeeMaxChangeDenominator_def)
qed

text \<open>
  C29: when the parent used at most twice its gas target and its base fee is below \<open>2 ^ 192\<close>, the expected
  base fee is defined and computed without wrap-around: it stays at the target, rises by at least 1 and
  at most an eighth above it, and falls by at most an eighth below it.
\<close>

theorem base_fee_step:
  assumes "base_fee_per_gas parent = Some b" "unat b < 2 ^ 192" "1 < gas_limit parent"
    "unat (gas_used parent) \<le> 2 * (unat (gas_limit parent) div 2)"
  defines "target \<equiv> gas_limit parent div 2"
  shows "\<exists>f. expected_base_fee_per_gas parent = Some f \<and>
           (gas_used parent = target \<longrightarrow> f = b) \<and>
           (gas_used parent > target \<longrightarrow>
              unat f = unat b + max 1 (base_fee_change (unat b) (unat (gas_used parent) - unat target) (unat target)) \<and>
              unat f \<le> unat b + max 1 (unat b div 8)) \<and>
           (gas_used parent < target \<longrightarrow>
              unat f = unat b - base_fee_change (unat b) (unat target - unat (gas_used parent)) (unat target) \<and>
              unat b - unat b div 8 \<le> unat f)"
proof -
  let ?u = "gas_used parent"
  have t: "unat target = unat (gas_limit parent) div 2"
    by (simp add: target_def unat_div_distrib)
  have t0: "target \<noteq> 0"
    using assms(3) t by (auto simp: word_less_nat_alt simp flip: unat_gt_0)
  consider "?u = target" | "?u > target" | "?u < target"
    by force
  then show ?thesis
  proof cases
    case 1
    then show ?thesis
      by (auto simp: expected_base_fee_per_gas_def assms(1) kElasticityMultiplier_def target_def)
  next
    case 2
    let ?d = "b * ucast (?u - target) div ucast target div ucast kBaseFeeMaxChangeDenominator"
    let ?D = "if ?d < 1 then 1 else ?d"
    have e: "expected_base_fee_per_gas parent = Some (b + ?D)"
      using 2 t0 unfolding expected_base_fee_per_gas_def assms(1) kElasticityMultiplier_def Let_def
        target_def [symmetric] by auto
    have du: "unat (?u - target) = unat ?u - unat target"
      using 2 by (simp add: unat_sub word_le_nat_alt word_less_nat_alt)
    have c: "unat ?d = base_fee_change (unat b) (unat ?u - unat target) (unat target)"
      unfolding base_fee_delta_word [OF assms(2)] du ..
    have D: "unat ?D = max 1 (base_fee_change (unat b) (unat ?u - unat target) (unat target))"
      using c by (auto simp: word_less_nat_alt)
    have "base_fee_change (unat b) (unat ?u - unat target) (unat target) \<le> unat b div 8"
      using assms(4) t by (intro base_fee_change_le) simp
    moreover have "unat (b + ?D) = unat b + unat ?D"
      using calculation D assms(2) by (simp add: unat_word_ariths)
    ultimately show ?thesis
      using e D 2 by auto
  next
    case 3
    let ?d = "b * ucast (target - ?u) div ucast target div ucast kBaseFeeMaxChangeDenominator"
    have du: "unat (target - ?u) = unat target - unat ?u"
      using 3 by (simp add: unat_sub word_le_nat_alt word_less_nat_alt)
    have c: "unat ?d = base_fee_change (unat b) (unat target - unat ?u) (unat target)"
      unfolding base_fee_delta_word [OF assms(2)] du ..
    have e: "expected_base_fee_per_gas parent = (if b > ?d then Some (b - ?d) else Some 0)"
      using 3 t0 unfolding expected_base_fee_per_gas_def assms(1) kElasticityMultiplier_def Let_def
        target_def [symmetric] by auto
    have le: "base_fee_change (unat b) (unat target - unat ?u) (unat target) \<le> unat b div 8"
      by (intro base_fee_change_le) simp
    have "unat (b - ?d) = unat b - unat ?d" if "b > ?d"
      using that by (simp add: unat_sub word_le_nat_alt word_less_nat_alt)
    then show ?thesis
      using e c le 3 by (auto simp: word_less_nat_alt intro: diff_le_mono2)
  qed
qed

definition sample_header :: block_header where
  "sample_header =
     \<lparr>parent_hash = replicate 32 0, ommers_hash = replicate 32 0, beneficiary = replicate 20 0,
      state_root = replicate 32 0, transactions_root = replicate 32 0, receipts_root = replicate 32 0,
      logs_bloom = replicate 256 0, difficulty = 0, number = 22000000, gas_limit = 30000000,
      gas_used = 20000000, timestamp = 1750000000, extra_data = [], prev_randao = replicate 32 0,
      nonce = replicate 8 0, base_fee_per_gas = Some 1000000000, withdrawals_root = None,
      blob_gas_used = Some 786432, excess_blob_gas = Some 100000000, parent_beacon_block_root = None,
      requests_hash = None, block_access_list_hash = None, slot_number = None\<rparr>"

theorem base_fee_step_witness:
  "\<exists>f. expected_base_fee_per_gas sample_header = Some f \<and> unat f \<le> 1000000000 + 125000000"
  using base_fee_step [of sample_header 1000000000] by (auto simp: sample_header_def)

section \<open>The excess blob gas\<close>

text \<open>EIP-4844 and EIP-7918 over the natural numbers.\<close>

definition exact_excess :: "nat \<Rightarrow> nat \<Rightarrow> nat \<Rightarrow> nat \<Rightarrow> bool \<Rightarrow> nat \<Rightarrow> nat \<Rightarrow> nat" where
  "exact_excess excess used target max_blobs osaka base_fee price =
     (if excess + used < target * 2 ^ 17 then 0
      else if osaka \<and> 2 ^ 13 * base_fee > 2 ^ 17 * price
      then excess + used * (max_blobs - target) div max_blobs
      else excess + used - target * 2 ^ 17)"

text \<open>
  C28: from Cancun on, when the parent's excess is at most 90 update fractions, its blob gas used below
  \<open>2 ^ 58\<close> and its base fee below \<open>2 ^ 240\<close>, the excess blob gas is computed without wrap-around and equals
  the value of EIP-4844 with the EIP-7918 price floor; it never exceeds what the parent had and used.
\<close>

theorem excess_blob_gas_exact:
  assumes "EVMC_CANCUN \<le> revision config (number h) (timestamp h)"
    "excess_blob_gas parent = Some excess" "blob_gas_used parent = Some used"
    "base_fee_per_gas parent = Some base_fee"
    "unat excess \<le> 90 * unat (base_fee_update_fraction (blob_params_at config (timestamp h)))"
    "unat used < 2 ^ 58" "unat base_fee < 2 ^ 240"
  shows "\<exists>r. calc_excess_blob_gas h parent config = Some r \<and>
           unat r = exact_excess (unat excess) (unat used)
                      (unat (bp_target (blob_params_at config (timestamp h))))
                      (unat (bp_max (blob_params_at config (timestamp h))))
                      (EVMC_OSAKA \<le> revision config (number h) (timestamp h)) (unat base_fee)
                      (exact_exponential 1 (unat excess)
                         (unat (base_fee_update_fraction (blob_params_at config (timestamp h))))) \<and>
           unat r \<le> unat excess + unat used"
proof -
  let ?bp = "blob_params_at config (timestamp h)"
  note pos = blob_params_positive [OF assms(1)]
  have d: "0 < unat (base_fee_update_fraction ?bp)" "unat (base_fee_update_fraction ?bp) < 2 ^ 32"
    using pos(4) unsigned_less [of "base_fee_update_fraction ?bp"] by (auto simp: word_le_nat_alt)
  have tm: "0 < unat (bp_target ?bp)" "unat (bp_target ?bp) < unat (bp_max ?bp)" "unat (bp_max ?bp) \<le> 32"
    using pos by (auto simp: word_less_nat_alt word_le_nat_alt)
  obtain price where price: "calc_blob_gas_price excess ?bp = Some price"
    "unat price = exact_exponential 1 (unat excess) (unat (base_fee_update_fraction ?bp))" "unat price \<le> 3 ^ 90"
    using calc_blob_gas_price_exact [OF d(1) assms(5)] by blast
  have target: "unat (ucast (bp_target ?bp) * kGasPerBlob) = unat (bp_target ?bp) * 2 ^ 17"
    using tm by (simp add: unat_word_ariths unat_ucast_up kGasPerBlob_def)
  have sum: "unat (excess + used) = unat excess + unat used"
    using assms(5,6) d(2) by (simp add: unat_word_ariths)
  have cost: "0x2000 * base_fee > ucast kGasPerBlob * price \<longleftrightarrow> 2 ^ 13 * unat base_fee > 2 ^ 17 * unat price"
    using assms(7) price(3) by (simp add: word_less_nat_alt unat_word_ariths unat_ucast_up kGasPerBlob_def)
  have "unat used * (unat (bp_max ?bp) - unat (bp_target ?bp)) \<le> 2 ^ 58 * 32"
    using assms(6) tm by (intro mult_le_mono) auto
  then have part: "unat (used * (ucast (bp_max ?bp) - ucast (bp_target ?bp)) div ucast (bp_max ?bp)) =
      unat used * (unat (bp_max ?bp) - unat (bp_target ?bp)) div unat (bp_max ?bp)"
    using tm by (simp add: unat_div_distrib unat_word_ariths unat_sub unat_ucast_up word_le_nat_alt)
  have "unat used * (unat (bp_max ?bp) - unat (bp_target ?bp)) div unat (bp_max ?bp) \<le>
      unat used * unat (bp_max ?bp) div unat (bp_max ?bp)"
    by (intro div_le_mono mult_le_mono2) simp
  then have part_le: "unat used * (unat (bp_max ?bp) - unat (bp_target ?bp)) div unat (bp_max ?bp) \<le> unat used"
    using tm by simp
  let ?part = "used * (ucast (bp_max ?bp) - ucast (bp_target ?bp)) div ucast (bp_max ?bp)"
  have scaled: "unat (excess + ?part) = unat excess + unat ?part" "unat ?part \<le> unat used"
    using part part_le assms(5,6) d(2) by (simp_all add: unat_word_ariths)
  let ?target = "ucast (bp_target ?bp) * kGasPerBlob"
  have below: "excess + used < ?target \<longleftrightarrow> unat excess + unat used < unat (bp_target ?bp) * 2 ^ 17"
    unfolding word_less_nat_alt target sum ..
  have rest: "unat (excess + used - ?target) = unat excess + unat used - unat (bp_target ?bp) * 2 ^ 17"
    if "\<not> excess + used < ?target"
    using that target sum by (simp add: unat_sub word_le_nat_alt word_less_nat_alt)
  let ?osaka = "EVMC_OSAKA \<le> revision config (number h) (timestamp h)"
  have e: "calc_excess_blob_gas h parent config =
      Some (if excess + used < ?target then 0
            else if ?osaka \<and> 0x2000 * base_fee > ucast kGasPerBlob * price then excess + ?part
            else excess + used - ?target)"
    using tm unfolding calc_excess_blob_gas_def assms(2-4) value_or.simps Let_def price(1) by auto
  show ?thesis
    unfolding e exact_excess_def price(2) [symmetric] part [symmetric] cost [symmetric] below [symmetric]
    using scaled rest by auto
qed

theorem excess_blob_gas_exact_witness:
  "\<exists>r. calc_excess_blob_gas sample_header sample_header kMainnetConfig = Some r \<and>
       unat r \<le> 100000000 + 786432"
  using excess_blob_gas_exact [of kMainnetConfig sample_header sample_header 100000000 786432 1000000000]
  by (auto simp: sample_header_def kMainnetConfig_def default_config_def revision_def revision_order
      blob_params_at_def)


end
