(* ===== verification/Intrinsic_Gas.thy ===== *)
theory Intrinsic_Gas
  imports Fees
begin

text \<open>
  The gas a transaction pays before it runs (protocol/intrinsic_gas.hpp and .cpp): the intrinsic gas up
  to Osaka, the EIP-7623 floor, and the Amsterdam decomposition. The gas constants that the code takes
  from evmone are a parameter.
\<close>

section \<open>Gas schedule\<close>

definition kAccessListStorageKeyCost :: u64 where "kAccessListStorageKeyCost = 1900"
definition kAccessListAddressCost :: u64 where "kAccessListAddressCost = 2400"
definition kGTransaction :: u64 where "kGTransaction = 21000"
definition kGTxCreate :: u64 where "kGTxCreate = 32000"
definition kGTxDataZero :: u64 where "kGTxDataZero = 4"
definition kGTxDataNonZeroFrontier :: u64 where "kGTxDataNonZeroFrontier = 68"
definition kGTxDataNonZeroIstanbul :: u64 where "kGTxDataNonZeroIstanbul = 16"
definition kInitCodeWordCost :: u64 where "kInitCodeWordCost = 2"
definition kTotalCostFloorPerToken :: u64 where "kTotalCostFloorPerToken = 10"
definition kPerEmptyAccountCost :: u64 where "kPerEmptyAccountCost = 25000"

lemmas gas_schedule = kAccessListStorageKeyCost_def kAccessListAddressCost_def kGTransaction_def
  kGTxCreate_def kGTxDataZero_def kGTxDataNonZeroFrontier_def kGTxDataNonZeroIstanbul_def
  kInitCodeWordCost_def kTotalCostFloorPerToken_def kPerEmptyAccountCost_def

text \<open>The instruction costs of evmone.\<close>

record evmone_constants =
  CREATE_ACCESS :: u64
  COLD_ACCOUNT_ACCESS_AMSTERDAM :: u64
  COLD_STORAGE_ACCESS :: u64
  WARM_ACCESS :: u64
  MAX_INITCODE_SIZE_AMSTERDAM :: nat

definition num_words :: "u64 \<Rightarrow> u64" where
  "num_words num_bytes = num_bytes div 32 + of_bool (num_bytes mod 32 \<noteq> 0)"

section \<open>Intrinsic gas\<close>

definition storage_keys_count :: "access_list_entry list \<Rightarrow> 'a::len word" where
  "storage_keys_count access_list =
     foldl (\<lambda>n e. n + of_nat (length (ale_storage_keys e))) 0 access_list"

definition intrinsic_gas :: "'a unsigned_transaction_scheme \<Rightarrow> evmc_revision \<Rightarrow> u64 \<Rightarrow> u128" where
  "intrinsic_gas txn revn non_zero_bytes =
     (let gas = ucast kGTransaction :: u128;
          contract_creation = (tx_to txn = None);
          gas = (if contract_creation \<and> revn \<ge> EVMC_HOMESTEAD then gas + ucast kGTxCreate else gas);
          gas = gas + of_nat (length (tx_access_list txn)) * ucast kAccessListAddressCost;
          gas = gas + storage_keys_count (tx_access_list txn) * ucast kAccessListStorageKeyCost;
          gas = gas + ucast (of_nat (length (tx_authorizations txn)) * kPerEmptyAccountCost);
          data_len = of_nat (length (tx_data txn)) :: u64
      in if data_len = 0 then gas
         else let non_zero_gas = ucast (if revn \<ge> EVMC_ISTANBUL then kGTxDataNonZeroIstanbul
                                        else kGTxDataNonZeroFrontier);
                  gas = gas + ucast non_zero_bytes * non_zero_gas;
                  gas = gas + ucast (data_len - non_zero_bytes) * ucast kGTxDataZero
              in if contract_creation \<and> revn \<ge> EVMC_SHANGHAI
                 then gas + ucast (num_words data_len * kInitCodeWordCost) else gas)"

definition floor_cost :: "'a unsigned_transaction_scheme \<Rightarrow> u64 \<Rightarrow> u64" where
  "floor_cost txn non_zero_bytes =
     (let non_zero = non_zero_bytes;
          zero = of_nat (length (tx_data txn)) - non_zero
      in kGTransaction + (zero + non_zero * 4) * kTotalCostFloorPerToken)"

text \<open>
  \<open>TxGasCost\<close>. Its \<open>int64_t\<close> fields are kept as their two's complement words; \<open>sint\<close> reads them. The
  sender is the first part of the result of \<open>txn.sender()\<close>.
\<close>

record tx_gas_cost =
  gc_regular :: u64
  gc_floor :: u64

definition amsterdam_tx_gas_cost ::
  "evmone_constants \<Rightarrow> address option \<Rightarrow> 'a unsigned_transaction_scheme \<Rightarrow> u64 \<Rightarrow> tx_gas_cost" where
  "amsterdam_tx_gas_cost ev sndr txn non_zero_bytes =
     (let kTxBaseCost = 12000; kTxValueCost = 6000; kCreateAccess = CREATE_ACCESS ev;
          kDataTokenStandard = 4; kDataTokenFloor = 16; kInitcodeWordCost = 2;
          kAccessListAddressFloorTokens = 80; kAccessListStorageKeyFloorTokens = 128;
          kAccessListAddressCost = COLD_ACCOUNT_ACCESS_AMSTERDAM ev - WARM_ACCESS ev;
          kAccessListStorageKeyCost = COLD_STORAGE_ACCESS ev - WARM_ACCESS ev;
          kPrecompileEcrecover = 3000; kAuthTupleBytes = 101;
          kExecutionPerAuthBaseCost = kAuthTupleBytes * kDataTokenFloor + kPrecompileEcrecover +
            COLD_ACCOUNT_ACCESS_AMSTERDAM ev + 2 * WARM_ACCESS ev;
          is_create = (tx_to txn = None);
          is_self_transfer = (tx_to txn \<noteq> None \<and> sndr \<noteq> None \<and> tx_to txn = sndr);
          has_value = (tx_value txn \<noteq> 0);
          size = of_nat (length (tx_data txn));
          non_zero = non_zero_bytes;
          zero = size - non_zero;
          num_tokens = 4 * non_zero + zero;
          data_cost = num_tokens * kDataTokenStandard;
          recipient_regular =
            (if is_create then kCreateAccess
             else if \<not> is_self_transfer
             then COLD_ACCOUNT_ACCESS_AMSTERDAM ev + (if has_value then kTxValueCost else 0)
             else 0);
          init_code_gas = (if is_create then kInitcodeWordCost * num_words size else 0);
          num_addresses = of_nat (length (tx_access_list txn));
          num_storage_keys = storage_keys_count (tx_access_list txn);
          access_list_regular =
            num_addresses * kAccessListAddressCost + num_storage_keys * kAccessListStorageKeyCost;
          access_list_tokens =
            num_addresses * kAccessListAddressFloorTokens +
            num_storage_keys * kAccessListStorageKeyFloorTokens;
          access_list_cost = access_list_regular + access_list_tokens * kDataTokenFloor;
          num_auth = of_nat (length (tx_authorizations txn));
          auth_regular = num_auth * kExecutionPerAuthBaseCost;
          base_regular = kTxBaseCost + recipient_regular;
          regular = base_regular + init_code_gas + data_cost + access_list_cost + auth_regular;
          floor_tokens = size * kDataTokenStandard + access_list_tokens;
          floor = floor_tokens * kDataTokenFloor + base_regular
      in \<lparr>gc_regular = regular, gc_floor = floor\<rparr>)"

section \<open>The Yellow Paper's g0 over the natural numbers\<close>

definition total_storage_keys :: "access_list_entry list \<Rightarrow> nat" where
  "total_storage_keys access_list = sum_list (map (length \<circ> ale_storage_keys) access_list)"

definition nonzero_bytes :: "bytes \<Rightarrow> nat" where
  "nonzero_bytes data = length (filter (\<lambda>b. b \<noteq> 0) data)"

definition exact_intrinsic_gas :: "'a unsigned_transaction_scheme \<Rightarrow> evmc_revision \<Rightarrow> nat" where
  "exact_intrinsic_gas txn revn =
     21000
     + (if tx_to txn = None \<and> revn \<ge> EVMC_HOMESTEAD then 32000 else 0)
     + length (tx_access_list txn) * 2400 + total_storage_keys (tx_access_list txn) * 1900
     + length (tx_authorizations txn) * 25000
     + nonzero_bytes (tx_data txn) * (if revn \<ge> EVMC_ISTANBUL then 16 else 68)
     + (length (tx_data txn) - nonzero_bytes (tx_data txn)) * 4
     + (if tx_to txn = None \<and> revn \<ge> EVMC_SHANGHAI then (length (tx_data txn) + 31) div 32 * 2 else 0)"

definition exact_floor_cost :: "'a unsigned_transaction_scheme \<Rightarrow> nat" where
  "exact_floor_cost txn =
     21000 + 10 * (4 * nonzero_bytes (tx_data txn) + (length (tx_data txn) - nonzero_bytes (tx_data txn)))"

text \<open>Transactions whose parts fit in memory: sizes below \<open>2 ^ 40\<close>.\<close>

definition sane_sizes :: "'a unsigned_transaction_scheme \<Rightarrow> bool" where
  "sane_sizes txn \<longleftrightarrow>
     length (tx_data txn) < 2 ^ 40 \<and> length (tx_access_list txn) < 2 ^ 40 \<and>
     total_storage_keys (tx_access_list txn) < 2 ^ 40 \<and> length (tx_authorizations txn) < 2 ^ 40"

lemma nonzero_bytes_le: "nonzero_bytes data \<le> length data"
  by (simp add: nonzero_bytes_def)

lemma storage_keys_count_eq:
  "storage_keys_count l = (of_nat (total_storage_keys l) :: 'a::len word)"
proof -
  have "foldl (\<lambda>n e. n + of_nat (length (ale_storage_keys e))) a l =
      (a + of_nat (total_storage_keys l) :: 'a word)" for a
    by (induction l arbitrary: a) (auto simp: total_storage_keys_def)
  then show ?thesis
    by (simp add: storage_keys_count_def)
qed

lemma num_words_eq:
  assumes "n < 2 ^ 64 - 32"
  shows "unat (num_words (of_nat n)) = (n + 31) div 32"
proof -
  have "unat (of_nat n div 32 :: u64) = n div 32" "unat (of_nat n mod 32 :: u64) = n mod 32"
    using assms by (simp_all add: unat_div_distrib unat_mod_distrib unat_of_nat)
  then have "(of_nat n mod 32 :: u64) \<noteq> 0 \<longleftrightarrow> n mod 32 \<noteq> 0"
    by (metis unat_eq_0)
  moreover have "(n + 31) div 32 = n div 32 + of_bool (n mod 32 \<noteq> 0)"
  proof -
    have "(32 * (n div 32) + (n mod 32 + 31)) div 32 = n div 32 + (n mod 32 + 31) div 32"
      by (rule div_mult_self4) simp
    moreover have "(n mod 32 + 31) div 32 = of_bool (n mod 32 \<noteq> 0)"
      using mod_less_divisor [of 32 n] by (cases "n mod 32") (simp_all add: div_if)
    moreover have "32 * (n div 32) + (n mod 32 + 31) = n + 31"
      by simp
    ultimately show ?thesis
      by metis
  qed
  ultimately show ?thesis
    using assms \<open>unat (of_nat n div 32 :: u64) = n div 32\<close>
    by (simp add: num_words_def unat_word_ariths)
qed

lemma ucast_of_nat_u64: "n < 2 ^ 64 \<Longrightarrow> ucast (of_nat n :: u64) = (of_nat n :: u128)"
  by (simp add: word_unat_eq_iff unat_ucast_up unat_of_nat)

lemma intrinsic_gas_of_nat:
  assumes "sane_sizes txn"
  shows "intrinsic_gas txn revn (of_nat (nonzero_bytes (tx_data txn))) = of_nat (exact_intrinsic_gas txn revn)"
proof -
  let ?len = "length (tx_data txn)" and ?nz = "nonzero_bytes (tx_data txn)"
  note nz = nonzero_bytes_le [of "tx_data txn"]
  have sizes: "?len < 2 ^ 40" "length (tx_authorizations txn) < 2 ^ 40"
    using assms by (auto simp: sane_sizes_def)
  have auth: "ucast (of_nat (length (tx_authorizations txn)) * kPerEmptyAccountCost) =
      (of_nat (length (tx_authorizations txn) * 25000) :: u128)"
    using ucast_of_nat_u64 [of "length (tx_authorizations txn) * 25000"] sizes
    by (simp add: kPerEmptyAccountCost_def)
  have zero: "ucast (of_nat ?len - of_nat ?nz :: u64) = (of_nat (?len - ?nz) :: u128)"
    using ucast_of_nat_u64 [of "?len - ?nz"] nz sizes by (simp add: of_nat_diff)
  have nzw: "ucast (of_nat ?nz :: u64) = (of_nat ?nz :: u128)"
    using nz sizes by (intro ucast_of_nat_u64) simp
  have "num_words (of_nat ?len) = of_nat ((?len + 31) div 32)"
    using num_words_eq [of ?len] sizes by (simp add: word_unat_eq_iff unat_of_nat)
  then have words: "ucast (num_words (of_nat ?len) * kInitCodeWordCost) =
      (of_nat ((?len + 31) div 32 * 2) :: u128)"
    using ucast_of_nat_u64 [of "(?len + 31) div 32 * 2"] sizes
    by (simp add: kInitCodeWordCost_def)
  have len0: "(of_nat ?len :: u64) = 0 \<longleftrightarrow> ?len = 0"
    using sizes by (simp add: word_unat_eq_iff unat_of_nat)
  show ?thesis
  proof (cases "?len = 0")
    case True
    then show ?thesis
      unfolding intrinsic_gas_def Let_def len0 auth storage_keys_count_eq exact_intrinsic_gas_def
      using nz by (simp add: gas_schedule)
  next
    case False
    then show ?thesis
      unfolding intrinsic_gas_def Let_def len0 auth zero nzw words storage_keys_count_eq exact_intrinsic_gas_def
      by (cases "tx_to txn"; cases "EVMC_HOMESTEAD \<le> revn"; cases "EVMC_ISTANBUL \<le> revn";
          cases "EVMC_SHANGHAI \<le> revn") (simp_all add: gas_schedule)
  qed
qed

lemma exact_intrinsic_gas_bound:
  assumes "sane_sizes txn"
  shows "exact_intrinsic_gas txn revn < 2 ^ 64"
  using assms nonzero_bytes_le [of "tx_data txn"] by (auto simp: exact_intrinsic_gas_def sane_sizes_def)

lemma intrinsic_gas_unat:
  assumes "sane_sizes txn"
  shows "unat (intrinsic_gas txn revn (of_nat (nonzero_bytes (tx_data txn)))) = exact_intrinsic_gas txn revn"
  unfolding intrinsic_gas_of_nat [OF assms] using exact_intrinsic_gas_bound [OF assms, of revn]
  by (simp add: unat_of_nat)

lemma floor_cost_unat:
  assumes "sane_sizes txn"
  shows "unat (floor_cost txn (of_nat (nonzero_bytes (tx_data txn)))) = exact_floor_cost txn"
proof -
  note nz = nonzero_bytes_le [of "tx_data txn"]
  have "floor_cost txn (of_nat (nonzero_bytes (tx_data txn))) = of_nat (exact_floor_cost txn)"
    using nz by (simp add: floor_cost_def exact_floor_cost_def gas_schedule of_nat_diff algebra_simps)
  moreover have "exact_floor_cost txn < 2 ^ 64"
    using assms nz by (simp add: exact_floor_cost_def sane_sizes_def)
  ultimately show ?thesis
    by (simp add: unat_of_nat)
qed

section \<open>The Amsterdam costs over the natural numbers\<close>

definition amsterdam_base :: "evmone_constants \<Rightarrow> address option \<Rightarrow> 'a unsigned_transaction_scheme \<Rightarrow> nat" where
  "amsterdam_base ev sndr txn =
     12000 + (if tx_to txn = None then unat (CREATE_ACCESS ev)
              else if sndr \<noteq> None \<and> tx_to txn = sndr then 0
              else unat (COLD_ACCOUNT_ACCESS_AMSTERDAM ev) + (if tx_value txn \<noteq> 0 then 6000 else 0))"

definition amsterdam_access_tokens :: "'a unsigned_transaction_scheme \<Rightarrow> nat" where
  "amsterdam_access_tokens txn =
     length (tx_access_list txn) * 80 + total_storage_keys (tx_access_list txn) * 128"

definition exact_amsterdam_regular ::
  "evmone_constants \<Rightarrow> address option \<Rightarrow> 'a unsigned_transaction_scheme \<Rightarrow> nat" where
  "exact_amsterdam_regular ev sndr txn =
     amsterdam_base ev sndr txn
     + (if tx_to txn = None then 2 * ((length (tx_data txn) + 31) div 32) else 0)
     + (4 * nonzero_bytes (tx_data txn) + (length (tx_data txn) - nonzero_bytes (tx_data txn))) * 4
     + (length (tx_access_list txn) * (unat (COLD_ACCOUNT_ACCESS_AMSTERDAM ev) - unat (WARM_ACCESS ev))
        + total_storage_keys (tx_access_list txn) * (unat (COLD_STORAGE_ACCESS ev) - unat (WARM_ACCESS ev))
        + amsterdam_access_tokens txn * 16)
     + length (tx_authorizations txn) *
         (4616 + unat (COLD_ACCOUNT_ACCESS_AMSTERDAM ev) + 2 * unat (WARM_ACCESS ev))"

definition exact_amsterdam_floor ::
  "evmone_constants \<Rightarrow> address option \<Rightarrow> 'a unsigned_transaction_scheme \<Rightarrow> nat" where
  "exact_amsterdam_floor ev sndr txn =
     (length (tx_data txn) * 4 + amsterdam_access_tokens txn) * 16 + amsterdam_base ev sndr txn"

text \<open>What the code relies on: costs of at most 16 bits, and a warm access that is not dearer than a cold one.\<close>

definition sane_costs :: "evmone_constants \<Rightarrow> bool" where
  "sane_costs ev \<longleftrightarrow>
     unat (CREATE_ACCESS ev) < 2 ^ 16 \<and> unat (COLD_ACCOUNT_ACCESS_AMSTERDAM ev) < 2 ^ 16 \<and>
     unat (COLD_STORAGE_ACCESS ev) < 2 ^ 16 \<and>
     WARM_ACCESS ev \<le> COLD_ACCOUNT_ACCESS_AMSTERDAM ev \<and> WARM_ACCESS ev \<le> COLD_STORAGE_ACCESS ev"

lemma amsterdam_cost_of_nat:
  fixes sndr :: "address option"
  assumes "sane_sizes txn" "sane_costs ev"
  defines "cost \<equiv> amsterdam_tx_gas_cost ev sndr txn (of_nat (nonzero_bytes (tx_data txn)))"
  shows "gc_regular cost = of_nat (exact_amsterdam_regular ev sndr txn)"
    and "gc_floor cost = of_nat (exact_amsterdam_floor ev sndr txn)"
proof -
  let ?len = "length (tx_data txn)" and ?nz = "nonzero_bytes (tx_data txn)"
  note nz = nonzero_bytes_le [of "tx_data txn"]
  have "unat (num_words (of_nat ?len)) = (?len + 31) div 32"
    using num_words_eq [of ?len] assms(1) by (simp add: sane_sizes_def)
  then have words: "num_words (of_nat ?len) = of_nat ((?len + 31) div 32)"
    by (metis of_nat_unat ucast_id)
  define account storage zero where "account = unat (COLD_ACCOUNT_ACCESS_AMSTERDAM ev) - unat (WARM_ACCESS ev)"
    and "storage = unat (COLD_STORAGE_ACCESS ev) - unat (WARM_ACCESS ev)" and "zero = ?len - ?nz"
  note folds = account_def [symmetric] storage_def [symmetric] zero_def [symmetric]
  have w: "COLD_ACCOUNT_ACCESS_AMSTERDAM ev - WARM_ACCESS ev = of_nat account"
      "COLD_STORAGE_ACCESS ev - WARM_ACCESS ev = of_nat storage"
    using assms(2) by (simp_all add: sane_costs_def of_nat_diff word_le_nat_alt account_def storage_def)
  have z: "(of_nat ?len - of_nat ?nz :: u64) = of_nat zero"
    using nz by (simp add: of_nat_diff zero_def)
  show "gc_regular cost = of_nat (exact_amsterdam_regular ev sndr txn)"
    unfolding cost_def amsterdam_tx_gas_cost_def Let_def words w z storage_keys_count_eq
      exact_amsterdam_regular_def amsterdam_base_def amsterdam_access_tokens_def folds
    by (cases "tx_to txn"; cases sndr) (simp_all add: algebra_simps)
  show "gc_floor cost = of_nat (exact_amsterdam_floor ev sndr txn)"
    unfolding cost_def amsterdam_tx_gas_cost_def Let_def words w z storage_keys_count_eq
      exact_amsterdam_floor_def amsterdam_base_def amsterdam_access_tokens_def
    by (cases "tx_to txn"; cases sndr) (simp_all add: algebra_simps)
qed

lemma sane_cost_sums:
  assumes "sane_sizes txn" "sane_costs ev"
  shows "exact_amsterdam_regular ev sndr txn < 2 ^ 63" "exact_amsterdam_floor ev sndr txn < 2 ^ 63"
proof -
  let ?cold = "unat (COLD_ACCOUNT_ACCESS_AMSTERDAM ev)" and ?store = "unat (COLD_STORAGE_ACCESS ev)"
    and ?warm = "unat (WARM_ACCESS ev)"
  have c: "?cold < 2 ^ 16" "?store < 2 ^ 16" "?warm < 2 ^ 16" "unat (CREATE_ACCESS ev) < 2 ^ 16"
    using assms(2) by (auto simp: sane_costs_def word_le_nat_alt)
  have base: "amsterdam_base ev sndr txn \<le> 12000 + 6000 + 2 ^ 16"
    using c by (auto simp: amsterdam_base_def)
  have n: "length (tx_data txn) \<le> 2 ^ 40" "length (tx_access_list txn) \<le> 2 ^ 40"
    "total_storage_keys (tx_access_list txn) \<le> 2 ^ 40" "length (tx_authorizations txn) \<le> 2 ^ 40"
    using assms(1) by (auto simp: sane_sizes_def)
  have "length (tx_access_list txn) * (?cold - ?warm) \<le> 2 ^ 40 * 2 ^ 16"
    "total_storage_keys (tx_access_list txn) * (?store - ?warm) \<le> 2 ^ 40 * 2 ^ 16"
    "length (tx_authorizations txn) * (4616 + ?cold + 2 * ?warm) \<le> 2 ^ 40 * 2 ^ 18"
    using n c by (intro mult_le_mono; simp)+
  moreover define words where "words = (length (tx_data txn) + 31) div 32"
  moreover have "words \<le> length (tx_data txn) + 31"
    unfolding words_def by (rule div_le_dividend)
  ultimately show "exact_amsterdam_regular ev sndr txn < 2 ^ 63"
    using base n nonzero_bytes_le [of "tx_data txn"]
    by (simp add: exact_amsterdam_regular_def amsterdam_access_tokens_def flip: words_def)
  show "exact_amsterdam_floor ev sndr txn < 2 ^ 63"
    using base n by (simp add: exact_amsterdam_floor_def amsterdam_access_tokens_def)
qed

lemma sint_of_nat_u64: "n < 2 ^ 63 \<Longrightarrow> sint (of_nat n :: u64) = int n"
  by (simp add: signed_of_nat signed_take_bit_int_eq_self)

lemma amsterdam_cost_sint:
  assumes "sane_sizes txn" "sane_costs ev"
  shows "sint (gc_regular (amsterdam_tx_gas_cost ev sndr txn (of_nat (nonzero_bytes (tx_data txn))))) =
           int (exact_amsterdam_regular ev sndr txn)"
    and "sint (gc_floor (amsterdam_tx_gas_cost ev sndr txn (of_nat (nonzero_bytes (tx_data txn))))) =
           int (exact_amsterdam_floor ev sndr txn)"
  using amsterdam_cost_of_nat [OF assms, of sndr] sane_cost_sums [OF assms, of sndr]
  by (simp_all add: sint_of_nat_u64)

text \<open>
  C36: with parts below \<open>2 ^ 40\<close> and costs below \<open>2 ^ 16\<close>, none of the gas formulas wraps around: the intrinsic
  gas is the sum of the Yellow Paper and its EIPs, the calldata floor that of EIP-7623, and the Amsterdam
  costs are the exact sums of EIP-2780, EIP-7976, EIP-7981 and EIP-8037.
\<close>

theorem gas_costs_exact:
  assumes "sane_sizes txn" "sane_costs ev"
  shows "unat (intrinsic_gas txn revn (of_nat (nonzero_bytes (tx_data txn)))) = exact_intrinsic_gas txn revn \<and>
         unat (floor_cost txn (of_nat (nonzero_bytes (tx_data txn)))) = exact_floor_cost txn \<and>
         sint (gc_regular (amsterdam_tx_gas_cost ev sndr txn (of_nat (nonzero_bytes (tx_data txn))))) =
           int (exact_amsterdam_regular ev sndr txn) \<and>
         sint (gc_floor (amsterdam_tx_gas_cost ev sndr txn (of_nat (nonzero_bytes (tx_data txn))))) =
           int (exact_amsterdam_floor ev sndr txn)"
  using intrinsic_gas_unat floor_cost_unat amsterdam_cost_sint assms by blast

text \<open>The costs of evmone that the comments of the source spell out.\<close>

definition amsterdam_constants :: evmone_constants where
  "amsterdam_constants =
     \<lparr>CREATE_ACCESS = 12000, COLD_ACCOUNT_ACCESS_AMSTERDAM = 3000, COLD_STORAGE_ACCESS = 2100,
      WARM_ACCESS = 100, MAX_INITCODE_SIZE_AMSTERDAM = 0x20000\<rparr>"

theorem gas_costs_exact_witness:
  "unat (intrinsic_gas empty_transaction EVMC_PRAGUE 0) = 53000 \<and>
   sint (gc_regular (amsterdam_tx_gas_cost amsterdam_constants None empty_transaction 0)) = 24000"
  using gas_costs_exact [of empty_transaction amsterdam_constants EVMC_PRAGUE None]
  by (simp add: empty_transaction_def amsterdam_constants_def sane_sizes_def sane_costs_def
      total_storage_keys_def nonzero_bytes_def exact_intrinsic_gas_def exact_amsterdam_regular_def
      amsterdam_base_def amsterdam_access_tokens_def revision_order)

end
