(* ===== verification/Validation_Result.thy ===== *)
theory Validation_Result
  imports Main
begin

text \<open>
  \<open>enum class ValidationResult\<close> (protocol/validation.hpp): why a transaction or a block is rejected, and the
  sequencing of checks that return at the first violated rule.
\<close>

datatype (plugins only:) validation_result =
    VOk
  | VUnknownProtocolRuleSet | VFutureBlock
  | VWrongStateRoot | VWrongOmmersHash | VWrongTransactionsRoot | VWrongReceiptsRoot | VWrongLogsBloom
  | VUnknownParent | VUnknownParentTotalDifficulty | VWrongDifficulty | VGasAboveLimit | VInvalidGasLimit
  | VInvalidTimestamp | VExtraDataTooLong | VWrongDaoExtraData | VInvalidSeal
  | VMissingField | VFieldBeforeFork
  | VSenderNoEOA | VWrongNonce | VIntrinsicGas | VInsufficientFunds | VBlockGasLimitExceeded
  | VTooManyOmmers | VInvalidOmmerHeader | VNotAnOmmer | VDuplicateOmmer
  | VWrongBlockGas
  | VInvalidSignature | VWrongChainId | VUnsupportedTransactionType | VNonceTooHigh
  | VWrongBaseFee | VMaxFeeLessThanBase | VMaxPriorityFeeGreaterThanMax
  | VInvalidNonce | VPoSBlockBeforeMerge | VPoWBlockAfterMerge
  | VMaxInitCodeSizeExceeded
  | VWrongWithdrawalsRoot
  | VWrongBlobGasUsed | VWrongExcessBlobGas | VNoBlobs | VTooManyBlobs | VWrongBlobCommitmentVersion
  | VMaxFeePerBlobGasTooLow
  | VProhibitedContractCreation
  | VEmptyAuthorizations
  | VRequestsRootMismatch | VRequestsProcessingFailure
  | VFloorCost
  | VIncorrectAuthorization
  | VMaxTransactionGasLimitExceeded
  | VBlockAccessListGasExceeded | VBlockAccessListHashMismatch
  | VMissingVanity | VMissingSignature | VInvalidMixDigest | VExtraValidators | VInvalidSpanValidators

text \<open>
  \<open>if (r != kOk) return r; \<dots>\<close>, without and with state. The state is what a check leaves behind, also when
  it fails.
\<close>

definition and_then :: "validation_result \<Rightarrow> validation_result \<Rightarrow> validation_result" where
  "and_then r s = (if r \<noteq> VOk then r else s)"

definition vbind :: "validation_result \<times> 's \<Rightarrow> ('s \<Rightarrow> validation_result \<times> 's) \<Rightarrow> validation_result \<times> 's" where
  "vbind r f = (if fst r \<noteq> VOk then r else f (snd r))"

lemma and_then_ok [simp]: "and_then r s = VOk \<longleftrightarrow> r = VOk \<and> s = VOk"
  by (simp add: and_then_def)

lemma and_then_VOk [simp]: "and_then VOk s = s"
  by (simp add: and_then_def)

lemma vbind_ok [simp]: "fst (vbind r f) = VOk \<longleftrightarrow> fst r = VOk \<and> fst (f (snd r)) = VOk"
  by (simp add: vbind_def)

lemma vbind_VOk [simp]: "vbind (VOk, s) f = f s"
  by (simp add: vbind_def)

lemma vbind_eq_ok: "vbind r f = (VOk, s) \<longleftrightarrow> (\<exists>s'. r = (VOk, s') \<and> f s' = (VOk, s))"
  by (cases r) (auto simp: vbind_def)

text \<open>What every check keeps of the state, a sequence of checks keeps.\<close>

lemma vbind_keeps: "P (snd r) \<Longrightarrow> (\<And>s. P s \<Longrightarrow> P (snd (f s))) \<Longrightarrow> P (snd (vbind r f))"
  by (simp add: vbind_def)

lemma if_VOk [simp]:
  "(if b then VOk else r) = VOk \<longleftrightarrow> b \<or> r = VOk" "(if b then r else VOk) = VOk \<longleftrightarrow> (b \<longrightarrow> r = VOk)"
  by auto

end
