(* ===== verification/Validation.thy ===== *)
theory Validation
  imports Intrinsic_Gas Validation_Result
begin

text \<open>
  Transaction validation (protocol/validation.hpp, protocol/validation.cpp): the checks that need no
  state, fork by fork, and those against the sender's account. Each check returns the first violated
  rule. A \<open>Transaction\<close> is passed by reference to const, but its sender cache and its count of non-zero
  data bytes are mutable, so every function returns the transaction as it leaves it.
\<close>

section \<open>Checks without state\<close>

definition kMaxInitCodeSize :: nat where "kMaxInitCodeSize = 2 * 0x6000"
definition kBlobCommitmentVersionKzg :: byte where "kBlobCommitmentVersionKzg = 1"

definition transaction_type_is_supported :: "transaction_type \<Rightarrow> evmc_revision \<Rightarrow> bool" where
  "transaction_type_is_supported type revn =
     (let kMinRevisionByType = [EVMC_FRONTIER, EVMC_BERLIN, EVMC_LONDON, EVMC_CANCUN, EVMC_PRAGUE];
          i = unat type
      in i < length kMinRevisionByType \<and> revn \<ge> kMinRevisionByType ! i)"

definition count_nonzero_bytes :: "bytes \<Rightarrow> u64" where
  "count_nonzero_bytes data = of_nat (nonzero_bytes data)"

text \<open>\<open>amsterdam_tx_gas_cost\<close> with its call of \<open>txn.sender()\<close>, which caches the sender.\<close>

type_synonym crypto = "(bytes \<Rightarrow> bytes32) \<times> (ecrecover_input \<Rightarrow> address option)"

definition amsterdam_cost :: "crypto \<Rightarrow> evmone_constants \<Rightarrow> transaction \<Rightarrow> u64 \<Rightarrow> tx_gas_cost \<times> transaction" where
  "amsterdam_cost cr ev txn non_zero_bytes =
     (let (sndr, txn) = sender (fst cr) (snd cr) txn
      in (amsterdam_tx_gas_cost ev sndr txn non_zero_bytes, txn))"

definition check_chain_id :: "'a unsigned_transaction_scheme \<Rightarrow> evmc_revision \<Rightarrow> u64 \<Rightarrow> validation_result" where
  "check_chain_id txn revn chain_id =
     (case tx_chain_id txn of
        None \<Rightarrow> VOk
      | Some c \<Rightarrow> if revn < EVMC_SPURIOUS_DRAGON then VUnsupportedTransactionType
                  else if c \<noteq> ucast chain_id then VWrongChainId else VOk)"

definition pre_validate_common_base ::
  "crypto \<Rightarrow> evmone_constants \<Rightarrow> transaction \<Rightarrow> evmc_revision \<Rightarrow> u64 \<Rightarrow> u64 \<Rightarrow> validation_result \<times> transaction" where
  "pre_validate_common_base cr ev txn revn chain_id non_zero_bytes =
     vbind (check_chain_id txn revn chain_id, txn) (\<lambda>txn.
     vbind (if transaction_type_is_supported (tx_type txn) revn then VOk else VUnsupportedTransactionType, txn)
       (\<lambda>txn.
     vbind (if revn \<ge> EVMC_AMSTERDAM
            then let (cost, txn) = amsterdam_cost cr ev txn non_zero_bytes
                 in (if max (sint (gc_regular cost)) (sint (gc_floor cost)) > 0x1000000 then VIntrinsicGas
                     else if ucast (tx_gas_limit txn) < (ucast (gc_regular cost) :: u128) then VIntrinsicGas
                     else VOk, txn)
            else (if ucast (tx_gas_limit txn) < intrinsic_gas txn revn non_zero_bytes then VIntrinsicGas
                  else VOk, txn)) (\<lambda>txn.
       (if count_significant_bytes (maximum_gas_cost txn) > 32 then VInsufficientFunds
        else if tx_nonce txn \<ge> 0xFFFFFFFFFFFFFFFF then VNonceTooHigh
        else VOk, txn))))"

definition check_blob_fields :: "'a unsigned_transaction_scheme \<Rightarrow> u256 option \<Rightarrow> validation_result" where
  "check_blob_fields txn blob_price =
     (if tx_blob_versioned_hashes txn = [] then VNoBlobs
      else if list_ex (\<lambda>h. hd h \<noteq> kBlobCommitmentVersionKzg) (tx_blob_versioned_hashes txn)
      then VWrongBlobCommitmentVersion
      else if (case blob_price of None \<Rightarrow> False | Some p \<Rightarrow> tx_max_fee_per_blob_gas txn < p)
      then VMaxFeePerBlobGasTooLow
      else if tx_to txn = None then VProhibitedContractCreation
      else VOk)"

definition check_gas_caps :: "'a unsigned_transaction_scheme \<Rightarrow> evmc_revision \<Rightarrow> validation_result" where
  "check_gas_caps txn revn =
     (if revn \<ge> EVMC_OSAKA \<and> revn < EVMC_AMSTERDAM \<and> tx_gas_limit txn > 0x1000000
      then VMaxTransactionGasLimitExceeded
      else if revn \<ge> EVMC_AMSTERDAM \<and> tx_gas_limit txn > 0xFFFFFFFF
      then VMaxTransactionGasLimitExceeded
      else if revn \<ge> EVMC_OSAKA \<and> length (tx_blob_versioned_hashes txn) > 6 then VTooManyBlobs
      else VOk)"

definition check_set_code_and_floor ::
  "crypto \<Rightarrow> evmone_constants \<Rightarrow> transaction \<Rightarrow> evmc_revision \<Rightarrow> u64 \<Rightarrow> validation_result \<times> transaction" where
  "check_set_code_and_floor cr ev txn revn non_zero_bytes =
     (if \<not> revn \<ge> EVMC_PRAGUE then (VOk, txn)
      else if tx_type txn = kSetCode \<and> tx_to txn = None then (VProhibitedContractCreation, txn)
      else if tx_type txn = kSetCode \<and> tx_authorizations txn = [] then (VEmptyAuthorizations, txn)
      else let (floor, txn) =
                 (if revn \<ge> EVMC_AMSTERDAM
                  then let (cost, txn) = amsterdam_cost cr ev txn non_zero_bytes in (gc_floor cost, txn)
                  else (floor_cost txn non_zero_bytes, txn))
           in (if tx_gas_limit txn < floor then VFloorCost else VOk, txn))"

definition pre_validate_common_forks ::
  "crypto \<Rightarrow> evmone_constants \<Rightarrow> transaction \<Rightarrow> evmc_revision \<Rightarrow> u256 option \<Rightarrow> u64 \<Rightarrow>
   validation_result \<times> transaction" where
  "pre_validate_common_forks cr ev txn revn blob_price non_zero_bytes =
     (let contract_creation = (tx_to txn = None);
          max_initcode =
            (if revn \<ge> EVMC_AMSTERDAM then MAX_INITCODE_SIZE_AMSTERDAM ev else kMaxInitCodeSize)
      in vbind (if revn \<ge> EVMC_SHANGHAI \<and> contract_creation \<and> length (tx_data txn) > max_initcode
                then VMaxInitCodeSizeExceeded else VOk, txn) (\<lambda>txn.
         vbind (if revn \<ge> EVMC_CANCUN \<and> tx_type txn = kBlob then check_blob_fields txn blob_price
                else VOk, txn) (\<lambda>txn.
         vbind (check_set_code_and_floor cr ev txn revn non_zero_bytes) (\<lambda>txn.
           (check_gas_caps txn revn, txn)))))"

definition check_fee_caps :: "'a unsigned_transaction_scheme \<Rightarrow> evmc_revision \<Rightarrow> u256 option \<Rightarrow> validation_result" where
  "check_fee_caps txn revn base_fee =
     (if revn \<ge> EVMC_LONDON
      then if (case base_fee of None \<Rightarrow> False | Some b \<Rightarrow> tx_max_fee_per_gas txn < b)
           then VMaxFeeLessThanBase
           else if tx_max_priority_fee_per_gas txn > tx_max_fee_per_gas txn
           then VMaxPriorityFeeGreaterThanMax
           else VOk
      else VOk)"

definition pre_validate_transaction ::
  "crypto \<Rightarrow> evmone_constants \<Rightarrow> transaction \<Rightarrow> evmc_revision \<Rightarrow> u64 \<Rightarrow> u256 option \<Rightarrow> u256 option \<Rightarrow>
   validation_result \<times> transaction" where
  "pre_validate_transaction cr ev txn revn chain_id base_fee blob_price =
     (let non_zero_bytes = count_nonzero_bytes (tx_data txn);
          txn = txn\<lparr>tx_data_non_zero_bytes := unat non_zero_bytes\<rparr>
      in vbind (pre_validate_common_base cr ev txn revn chain_id non_zero_bytes) (\<lambda>txn.
         vbind (if \<not> is_valid_signature (tx_r txn) (tx_s txn) (revn \<ge> EVMC_HOMESTEAD)
                then VInvalidSignature else VOk, txn) (\<lambda>txn.
         vbind (check_fee_caps txn revn base_fee, txn) (\<lambda>txn.
           pre_validate_common_forks cr ev txn revn blob_price non_zero_bytes))))"

fun pre_validate_each ::
  "crypto \<Rightarrow> evmone_constants \<Rightarrow> evmc_revision \<Rightarrow> u64 \<Rightarrow> u256 option \<Rightarrow> u256 option \<Rightarrow> transaction list \<Rightarrow>
   validation_result \<times> transaction list" where
  "pre_validate_each cr ev revn chain_id base_fee blob_price [] = (VOk, [])"
| "pre_validate_each cr ev revn chain_id base_fee blob_price (txn # txns) =
     (let (err, txn) = pre_validate_transaction cr ev txn revn chain_id base_fee blob_price
      in if err \<noteq> VOk then (err, txn # txns)
         else let (err, txns) = pre_validate_each cr ev revn chain_id base_fee blob_price txns
              in (err, txn # txns))"

text \<open>\<open>None\<close> where the blob gas price is undefined (an update fraction of 0).\<close>

definition pre_validate_transactions ::
  "crypto \<Rightarrow> evmone_constants \<Rightarrow> block \<Rightarrow> chain_config \<Rightarrow> (validation_result \<times> transaction list) option" where
  "pre_validate_transactions cr ev block config =
     (let h = header block;
          revn = revision config (number h) (timestamp h)
      in map_option (\<lambda>price. pre_validate_each cr ev revn (cc_chain_id config) (base_fee_per_gas h) price
                               (transactions block))
           (blob_gas_price h config))"

section \<open>Checks against the state\<close>

text \<open>
  What the validation reads of the state: the code hash of an account that exists, its code, nonce and
  balance (\<open>ActiveState\<close>).
\<close>

record state_view =
  sv_code_hash :: "address \<Rightarrow> bytes32 option"
  sv_read_code :: "address \<Rightarrow> bytes"
  sv_get_nonce :: "address \<Rightarrow> u64"
  sv_get_balance :: "address \<Rightarrow> u256"

definition kEmptyHash :: bytes32 where
  "kEmptyHash =
     [0xc5, 0xd2, 0x46, 0x01, 0x86, 0xf7, 0x23, 0x3c, 0x92, 0x7e, 0x7d, 0xb2, 0xdc, 0xc7, 0x03, 0xc0,
      0xe5, 0x00, 0xb6, 0x53, 0xca, 0x82, 0x27, 0x3b, 0x7b, 0xfa, 0xd8, 0x04, 0x5d, 0x85, 0xa4, 0x70]"

definition validate_transaction ::
  "crypto \<Rightarrow> transaction \<Rightarrow> state_view \<Rightarrow> u64 \<Rightarrow> validation_result \<times> transaction" where
  "validate_transaction cr txn state available_gas =
     (let (sndr, txn) = sender (fst cr) (snd cr) txn
      in (case sndr of
            None \<Rightarrow> VInvalidSignature
          | Some a \<Rightarrow>
              if (case sv_code_hash state a of None \<Rightarrow> False | Some h \<Rightarrow> h \<noteq> kEmptyHash) \<and>
                 \<not> is_code_delegated (sv_read_code state a)
              then VSenderNoEOA
              else if sv_get_nonce state a \<noteq> tx_nonce txn then VWrongNonce
              else if ucast (sv_get_balance state a) < maximum_gas_cost txn + ucast (tx_value txn)
              then VInsufficientFunds
              else if available_gas < tx_gas_limit txn then VBlockGasLimitExceeded
              else VOk, txn))"

section \<open>What the sender cache leaves alone\<close>

lemma sender_fields [simp]:
  "tx_type (snd (sender k e txn)) = tx_type txn" "tx_chain_id (snd (sender k e txn)) = tx_chain_id txn"
  "tx_nonce (snd (sender k e txn)) = tx_nonce txn"
  "tx_max_priority_fee_per_gas (snd (sender k e txn)) = tx_max_priority_fee_per_gas txn"
  "tx_max_fee_per_gas (snd (sender k e txn)) = tx_max_fee_per_gas txn"
  "tx_gas_limit (snd (sender k e txn)) = tx_gas_limit txn" "tx_to (snd (sender k e txn)) = tx_to txn"
  "tx_value (snd (sender k e txn)) = tx_value txn" "tx_data (snd (sender k e txn)) = tx_data txn"
  "tx_access_list (snd (sender k e txn)) = tx_access_list txn"
  "tx_max_fee_per_blob_gas (snd (sender k e txn)) = tx_max_fee_per_blob_gas txn"
  "tx_blob_versioned_hashes (snd (sender k e txn)) = tx_blob_versioned_hashes txn"
  "tx_authorizations (snd (sender k e txn)) = tx_authorizations txn"
  "tx_r (snd (sender k e txn)) = tx_r txn" "tx_s (snd (sender k e txn)) = tx_s txn"
  "tx_data_non_zero_bytes (snd (sender k e txn)) = tx_data_non_zero_bytes txn"
  by (simp_all add: sender_def Let_def)

lemma amsterdam_tx_gas_cost_cong:
  "tx_to a = tx_to b \<Longrightarrow> tx_value a = tx_value b \<Longrightarrow> tx_data a = tx_data b \<Longrightarrow>
   tx_access_list a = tx_access_list b \<Longrightarrow> tx_authorizations a = tx_authorizations b \<Longrightarrow>
   amsterdam_tx_gas_cost ev sndr a n = amsterdam_tx_gas_cost ev sndr b n"
  unfolding amsterdam_tx_gas_cost_def by simp

lemma amsterdam_cost_eq:
  "amsterdam_cost cr ev txn n =
     (amsterdam_tx_gas_cost ev (fst (sender (fst cr) (snd cr) txn)) txn n, snd (sender (fst cr) (snd cr) txn))"
  unfolding amsterdam_cost_def Let_def case_prod_beta
  by (auto intro: amsterdam_tx_gas_cost_cong)

section \<open>The rules\<close>

definition chain_id_ok :: "'a unsigned_transaction_scheme \<Rightarrow> evmc_revision \<Rightarrow> u64 \<Rightarrow> bool" where
  "chain_id_ok txn revn chain_id \<longleftrightarrow>
     (\<forall>c. tx_chain_id txn = Some c \<longrightarrow> EVMC_SPURIOUS_DRAGON \<le> revn \<and> unat c = unat chain_id)"

definition type_ok :: "'a unsigned_transaction_scheme \<Rightarrow> evmc_revision \<Rightarrow> bool" where
  "type_ok txn revn \<longleftrightarrow>
     tx_type txn = kLegacy \<or> tx_type txn = kAccessList \<and> EVMC_BERLIN \<le> revn \<or>
     tx_type txn = kDynamicFee \<and> EVMC_LONDON \<le> revn \<or> tx_type txn = kBlob \<and> EVMC_CANCUN \<le> revn \<or>
     tx_type txn = kSetCode \<and> EVMC_PRAGUE \<le> revn"

definition intrinsic_ok ::
  "evmone_constants \<Rightarrow> address option \<Rightarrow> 'a unsigned_transaction_scheme \<Rightarrow> evmc_revision \<Rightarrow> bool" where
  "intrinsic_ok ev sndr txn revn \<longleftrightarrow>
     (if EVMC_AMSTERDAM \<le> revn
      then exact_amsterdam_regular ev sndr txn \<le> min (unat (tx_gas_limit txn)) (2 ^ 24) \<and>
           exact_amsterdam_floor ev sndr txn \<le> 2 ^ 24
      else exact_intrinsic_gas txn revn \<le> unat (tx_gas_limit txn))"

definition max_cost :: "'a unsigned_transaction_scheme \<Rightarrow> nat" where
  "max_cost txn =
     unat (tx_gas_limit txn) * unat (tx_max_fee_per_gas txn)
     + unat (total_blob_gas txn) * unat (tx_max_fee_per_blob_gas txn)"

definition floor_ok ::
  "evmone_constants \<Rightarrow> address option \<Rightarrow> 'a unsigned_transaction_scheme \<Rightarrow> evmc_revision \<Rightarrow> bool" where
  "floor_ok ev sndr txn revn \<longleftrightarrow>
     (EVMC_PRAGUE \<le> revn \<longrightarrow>
        (if EVMC_AMSTERDAM \<le> revn then exact_amsterdam_floor ev sndr txn else exact_floor_cost txn)
        \<le> unat (tx_gas_limit txn))"

definition fee_caps_ok :: "'a unsigned_transaction_scheme \<Rightarrow> evmc_revision \<Rightarrow> u256 option \<Rightarrow> bool" where
  "fee_caps_ok txn revn base_fee \<longleftrightarrow>
     (EVMC_LONDON \<le> revn \<longrightarrow>
        (\<forall>b. base_fee = Some b \<longrightarrow> b \<le> tx_max_fee_per_gas txn) \<and>
        tx_max_priority_fee_per_gas txn \<le> tx_max_fee_per_gas txn)"

definition creation_ok :: "evmone_constants \<Rightarrow> 'a unsigned_transaction_scheme \<Rightarrow> evmc_revision \<Rightarrow> bool" where
  "creation_ok ev txn revn \<longleftrightarrow>
     (tx_to txn = None \<longrightarrow> tx_type txn \<noteq> kBlob \<and> tx_type txn \<noteq> kSetCode \<and>
        (EVMC_SHANGHAI \<le> revn \<longrightarrow>
           length (tx_data txn) \<le>
             (if EVMC_AMSTERDAM \<le> revn then MAX_INITCODE_SIZE_AMSTERDAM ev else kMaxInitCodeSize)))"

definition typed_fields_ok :: "'a unsigned_transaction_scheme \<Rightarrow> u256 option \<Rightarrow> bool" where
  "typed_fields_ok txn blob_price \<longleftrightarrow>
     (tx_type txn = kBlob \<longrightarrow>
        tx_blob_versioned_hashes txn \<noteq> [] \<and>
        (\<forall>h \<in> set (tx_blob_versioned_hashes txn). hd h = kBlobCommitmentVersionKzg) \<and>
        (\<forall>p. blob_price = Some p \<longrightarrow> p \<le> tx_max_fee_per_blob_gas txn)) \<and>
     (tx_type txn = kSetCode \<longrightarrow> tx_authorizations txn \<noteq> [])"

definition caps_ok :: "'a unsigned_transaction_scheme \<Rightarrow> evmc_revision \<Rightarrow> bool" where
  "caps_ok txn revn \<longleftrightarrow>
     (EVMC_OSAKA \<le> revn \<longrightarrow>
        length (tx_blob_versioned_hashes txn) \<le> 6 \<and>
        unat (tx_gas_limit txn) \<le> (if EVMC_AMSTERDAM \<le> revn then 2 ^ 32 - 1 else 2 ^ 24))"

definition statically_valid ::
  "evmone_constants \<Rightarrow> address option \<Rightarrow> transaction \<Rightarrow> evmc_revision \<Rightarrow> u64 \<Rightarrow> u256 option \<Rightarrow> u256 option \<Rightarrow> bool" where
  "statically_valid ev sndr txn revn chain_id base_fee blob_price \<longleftrightarrow>
     chain_id_ok txn revn chain_id \<and> type_ok txn revn \<and> intrinsic_ok ev sndr txn revn \<and>
     max_cost txn < 2 ^ 256 \<and> unat (tx_nonce txn) < 2 ^ 64 - 1 \<and>
     is_valid_signature (tx_r txn) (tx_s txn) (EVMC_HOMESTEAD \<le> revn) \<and>
     fee_caps_ok txn revn base_fee \<and> creation_ok ev txn revn \<and> typed_fields_ok txn blob_price \<and>
     floor_ok ev sndr txn revn \<and> caps_ok txn revn"

section \<open>The checks implement the rules\<close>

lemma check_chain_id_ok: "check_chain_id txn revn chain_id = VOk \<longleftrightarrow> chain_id_ok txn revn chain_id"
proof -
  have "(c :: u256) \<noteq> ucast chain_id \<longleftrightarrow> unat c \<noteq> unat chain_id" for c
    by (simp add: word_unat_eq_iff unat_ucast_up)
  then show ?thesis
    by (cases "tx_chain_id txn") (auto simp: check_chain_id_def chain_id_ok_def)
qed

lemma transaction_type_is_supported_ok:
  "transaction_type_is_supported (tx_type txn) revn \<longleftrightarrow> type_ok txn revn"
proof (cases "unat (tx_type txn) < 5")
  case True
  then have "unat (tx_type txn) \<in> {0, 1, 2, 3, 4}"
    by auto
  then have "tx_type txn \<in> {0, 1, 2, 3, 4}"
    by (auto simp: word_unat_eq_iff)
  then show ?thesis
    by (auto simp: transaction_type_is_supported_def type_ok_def)
next
  case False
  then have "tx_type txn \<notin> {0, 1, 2, 3, 4}"
    by auto
  then show ?thesis
    using False by (auto simp: transaction_type_is_supported_def type_ok_def)
qed

lemma max_cost_ok: "count_significant_bytes (maximum_gas_cost txn) > 32 \<longleftrightarrow> \<not> max_cost txn < 2 ^ 256"
proof -
  have "(256 :: nat) ^ 32 = 2 ^ 256"
    by simp
  then show ?thesis
    by (metis count_significant_bytes_def max_cost_def not_less sig_bytes_le_iff unat_maximum_gas_cost)
qed

lemma check_fee_caps_ok: "check_fee_caps txn revn base_fee = VOk \<longleftrightarrow> fee_caps_ok txn revn base_fee"
  by (cases base_fee) (auto simp: check_fee_caps_def fee_caps_ok_def)

lemma check_gas_caps_ok: "check_gas_caps txn revn = VOk \<longleftrightarrow> caps_ok txn revn"
proof -
  have "tx_gas_limit txn > 0x1000000 \<longleftrightarrow> \<not> unat (tx_gas_limit txn) \<le> 2 ^ 24"
    "tx_gas_limit txn > 0xFFFFFFFF \<longleftrightarrow> \<not> unat (tx_gas_limit txn) \<le> 2 ^ 32 - 1"
    by (auto simp: word_less_nat_alt)
  moreover have "EVMC_AMSTERDAM \<le> revn \<Longrightarrow> EVMC_OSAKA \<le> revn"
    by (simp add: revision_order)
  ultimately show ?thesis
    unfolding check_gas_caps_def caps_ok_def by auto
qed

lemma check_blob_fields_ok:
  "check_blob_fields txn blob_price = VOk \<longleftrightarrow>
     tx_blob_versioned_hashes txn \<noteq> [] \<and>
     (\<forall>h \<in> set (tx_blob_versioned_hashes txn). hd h = kBlobCommitmentVersionKzg) \<and>
     (\<forall>p. blob_price = Some p \<longrightarrow> p \<le> tx_max_fee_per_blob_gas txn) \<and> tx_to txn \<noteq> None"
  by (cases blob_price) (auto simp: check_blob_fields_def list_ex_iff)

text \<open>The gas comparisons on words are the ones on the exact costs.\<close>

lemma intrinsic_compare:
  assumes "sane_sizes txn"
  shows "ucast (tx_gas_limit txn) < intrinsic_gas txn revn (count_nonzero_bytes (tx_data txn)) \<longleftrightarrow>
           \<not> exact_intrinsic_gas txn revn \<le> unat (tx_gas_limit txn)"
  unfolding count_nonzero_bytes_def
  by (simp add: word_less_nat_alt unat_ucast_up intrinsic_gas_unat [OF assms] not_le)

lemma floor_compare:
  assumes "sane_sizes txn"
  shows "tx_gas_limit txn < floor_cost txn (count_nonzero_bytes (tx_data txn)) \<longleftrightarrow>
           \<not> exact_floor_cost txn \<le> unat (tx_gas_limit txn)"
  unfolding count_nonzero_bytes_def
  by (simp add: word_less_nat_alt floor_cost_unat [OF assms] not_le)

lemma amsterdam_cost_unat:
  assumes "sane_sizes txn" "sane_costs ev"
  shows "unat (gc_regular (amsterdam_tx_gas_cost ev sndr txn (count_nonzero_bytes (tx_data txn)))) =
           exact_amsterdam_regular ev sndr txn"
    and "unat (gc_floor (amsterdam_tx_gas_cost ev sndr txn (count_nonzero_bytes (tx_data txn)))) =
           exact_amsterdam_floor ev sndr txn"
  using sane_cost_sums [OF assms, of sndr] unfolding count_nonzero_bytes_def
  by (simp_all add: amsterdam_cost_of_nat [OF assms] unat_of_nat)

lemma amsterdam_compare:
  assumes "sane_sizes txn" "sane_costs ev"
  defines "cost \<equiv> \<lambda>sndr. amsterdam_tx_gas_cost ev sndr txn (count_nonzero_bytes (tx_data txn))"
  shows "max (sint (gc_regular (cost sndr))) (sint (gc_floor (cost sndr))) > 0x1000000 \<longleftrightarrow>
           \<not> (exact_amsterdam_regular ev sndr txn \<le> 2 ^ 24 \<and> exact_amsterdam_floor ev sndr txn \<le> 2 ^ 24)"
    and "ucast (tx_gas_limit txn) < (ucast (gc_regular (cost sndr)) :: u128) \<longleftrightarrow>
           \<not> exact_amsterdam_regular ev sndr txn \<le> unat (tx_gas_limit txn)"
    and "tx_gas_limit txn < gc_floor (cost sndr) \<longleftrightarrow>
           \<not> exact_amsterdam_floor ev sndr txn \<le> unat (tx_gas_limit txn)"
  unfolding cost_def
  by (auto simp: word_less_nat_alt unat_ucast_up amsterdam_cost_unat [OF assms(1,2)]
      amsterdam_cost_sint [OF assms(1,2), folded count_nonzero_bytes_def])

lemma pre_validate_common_base_ok:
  fixes cr :: crypto
  assumes "sane_sizes txn" "sane_costs ev"
  defines "sndr \<equiv> fst (sender (fst cr) (snd cr) txn)"
  shows "fst (pre_validate_common_base cr ev txn revn chain_id (count_nonzero_bytes (tx_data txn))) = VOk \<longleftrightarrow>
           chain_id_ok txn revn chain_id \<and> type_ok txn revn \<and> intrinsic_ok ev sndr txn revn \<and>
           max_cost txn < 2 ^ 256 \<and> unat (tx_nonce txn) < 2 ^ 64 - 1"
proof -
  have n: "tx_nonce txn \<ge> 0xFFFFFFFFFFFFFFFF \<longleftrightarrow> \<not> unat (tx_nonce txn) < 2 ^ 64 - 1"
    by (auto simp: word_le_nat_alt)
  have m: "maximum_gas_cost (snd (sender k e txn)) = maximum_gas_cost txn" for k e
    by (simp add: maximum_gas_cost_def total_blob_gas_def Let_def)
  show ?thesis
    unfolding pre_validate_common_base_def vbind_ok fst_conv snd_conv check_chain_id_ok
      transaction_type_is_supported_ok
    using amsterdam_compare [OF assms(1,2), of sndr] intrinsic_compare [OF assms(1), of revn]
      max_cost_ok [of txn] n
    by (auto simp: amsterdam_cost_eq intrinsic_ok_def m sndr_def max_def split: if_splits)
qed

lemma check_set_code_and_floor_snd:
  "snd (check_set_code_and_floor cr ev txn revn n) \<in> {txn, snd (sender (fst cr) (snd cr) txn)}"
  by (auto simp: check_set_code_and_floor_def amsterdam_cost_eq)

lemma check_set_code_and_floor_ok:
  fixes cr :: crypto
  assumes "sane_sizes txn" "sane_costs ev"
  defines "sndr \<equiv> fst (sender (fst cr) (snd cr) txn)"
  shows "fst (check_set_code_and_floor cr ev txn revn (count_nonzero_bytes (tx_data txn))) = VOk \<longleftrightarrow>
           (EVMC_PRAGUE \<le> revn \<longrightarrow> tx_type txn = kSetCode \<longrightarrow> tx_to txn \<noteq> None \<and> tx_authorizations txn \<noteq> []) \<and>
           floor_ok ev sndr txn revn"
  using amsterdam_compare(3) [OF assms(1,2), of sndr] floor_compare [OF assms(1)]
  by (simp add: check_set_code_and_floor_def amsterdam_cost_eq floor_ok_def sndr_def)

lemma pre_validate_common_forks_ok:
  fixes cr :: crypto
  assumes "sane_sizes txn" "sane_costs ev" "type_ok txn revn"
  defines "sndr \<equiv> fst (sender (fst cr) (snd cr) txn)"
  shows "fst (pre_validate_common_forks cr ev txn revn blob_price (count_nonzero_bytes (tx_data txn))) = VOk \<longleftrightarrow>
           creation_ok ev txn revn \<and> typed_fields_ok txn blob_price \<and> floor_ok ev sndr txn revn \<and>
           caps_ok txn revn"
proof -
  have rt: "tx_type txn = kBlob \<Longrightarrow> EVMC_CANCUN \<le> revn" "tx_type txn = kSetCode \<Longrightarrow> EVMC_PRAGUE \<le> revn"
    using assms(3) by (auto simp: type_ok_def)
  have "caps_ok (snd (check_set_code_and_floor cr ev txn revn n)) revn = caps_ok txn revn" for n
    using check_set_code_and_floor_snd [of cr ev txn revn n] by (auto simp: caps_ok_def)
  then show ?thesis
    unfolding pre_validate_common_forks_def Let_def vbind_ok fst_conv snd_conv if_VOk
      check_set_code_and_floor_ok [OF assms(1,2)] check_gas_caps_ok check_blob_fields_ok
      sndr_def [symmetric] creation_ok_def typed_fields_ok_def
    using rt by auto
qed

lemma pre_validate_common_base_snd:
  "snd (pre_validate_common_base cr ev txn revn chain_id n) \<in> {txn, snd (sender (fst cr) (snd cr) txn)}"
  by (auto simp: pre_validate_common_base_def vbind_def amsterdam_cost_eq)

text \<open>Transactions that agree on everything but the caches.\<close>

definition same_fields :: "transaction \<Rightarrow> transaction \<Rightarrow> bool" where
  "same_fields a b \<longleftrightarrow>
     tx_type a = tx_type b \<and> tx_chain_id a = tx_chain_id b \<and> tx_nonce a = tx_nonce b \<and>
     tx_max_priority_fee_per_gas a = tx_max_priority_fee_per_gas b \<and>
     tx_max_fee_per_gas a = tx_max_fee_per_gas b \<and> tx_gas_limit a = tx_gas_limit b \<and> tx_to a = tx_to b \<and>
     tx_value a = tx_value b \<and> tx_data a = tx_data b \<and> tx_access_list a = tx_access_list b \<and>
     tx_max_fee_per_blob_gas a = tx_max_fee_per_blob_gas b \<and>
     tx_blob_versioned_hashes a = tx_blob_versioned_hashes b \<and> tx_authorizations a = tx_authorizations b \<and>
     tx_r a = tx_r b \<and> tx_s a = tx_s b"

lemma same_fields_intros [intro, simp]:
  "same_fields txn txn" "same_fields (snd (sender k e txn)) txn"
  "same_fields (txn\<lparr>tx_data_non_zero_bytes := n\<rparr>) txn"
  "same_fields (snd (sender k e (txn\<lparr>tx_data_non_zero_bytes := n\<rparr>))) txn"
  by (simp_all add: same_fields_def)

lemma same_fields_rules:
  assumes "same_fields a b"
  shows "sane_sizes a = sane_sizes b" "type_ok a revn = type_ok b revn"
    "creation_ok ev a revn = creation_ok ev b revn" "typed_fields_ok a p = typed_fields_ok b p"
    "floor_ok ev sndr a revn = floor_ok ev sndr b revn" "caps_ok a revn = caps_ok b revn"
    "fee_caps_ok a revn f = fee_caps_ok b revn f" "chain_id_ok a revn c = chain_id_ok b revn c"
    "intrinsic_ok ev sndr a revn = intrinsic_ok ev sndr b revn" "max_cost a = max_cost b"
    "tx_data a = tx_data b" "tx_r a = tx_r b" "tx_s a = tx_s b" "tx_nonce a = tx_nonce b"
proof -
  have f: "tx_type a = tx_type b" "tx_chain_id a = tx_chain_id b" "tx_nonce a = tx_nonce b"
    "tx_max_priority_fee_per_gas a = tx_max_priority_fee_per_gas b"
    "tx_max_fee_per_gas a = tx_max_fee_per_gas b" "tx_gas_limit a = tx_gas_limit b" "tx_to a = tx_to b"
    "tx_value a = tx_value b" "tx_data a = tx_data b" "tx_access_list a = tx_access_list b"
    "tx_max_fee_per_blob_gas a = tx_max_fee_per_blob_gas b"
    "tx_blob_versioned_hashes a = tx_blob_versioned_hashes b" "tx_authorizations a = tx_authorizations b"
    "tx_r a = tx_r b" "tx_s a = tx_s b"
    using assms by (simp_all add: same_fields_def)
  show "sane_sizes a = sane_sizes b" "type_ok a revn = type_ok b revn"
    "creation_ok ev a revn = creation_ok ev b revn" "typed_fields_ok a p = typed_fields_ok b p"
    "floor_ok ev sndr a revn = floor_ok ev sndr b revn" "caps_ok a revn = caps_ok b revn"
    "fee_caps_ok a revn f = fee_caps_ok b revn f" "chain_id_ok a revn c = chain_id_ok b revn c"
    "intrinsic_ok ev sndr a revn = intrinsic_ok ev sndr b revn" "max_cost a = max_cost b"
    "tx_data a = tx_data b" "tx_r a = tx_r b" "tx_s a = tx_s b" "tx_nonce a = tx_nonce b"
    unfolding sane_sizes_def type_ok_def creation_ok_def typed_fields_ok_def floor_ok_def caps_ok_def
      fee_caps_ok_def exact_floor_cost_def exact_amsterdam_floor_def amsterdam_access_tokens_def
      amsterdam_base_def chain_id_ok_def intrinsic_ok_def exact_intrinsic_gas_def
      exact_amsterdam_regular_def max_cost_def total_blob_gas_def f
    by (rule refl)+
qed

lemma encode_for_signing_count:
  "encode_for_signing (txn\<lparr>tx_data_non_zero_bytes := n\<rparr>) = encode_for_signing txn"
proof -
  have "header_base (txn\<lparr>tx_data_non_zero_bytes := n\<rparr>) = header_base txn"
    by (simp add: header_base_def chain_id_or_0_def)
  then show ?thesis
    by (simp add: encode_for_signing_def unsigned_header_def legacy_encode_base_def
        eip2718_encode_for_signing_def eip2718_items_def chain_id_or_0_def Let_def split: option.split)
qed

lemma signing_payload_count [simp]:
  "signing_payload (txn\<lparr>tx_data_non_zero_bytes := n\<rparr>) = signing_payload txn"
proof -
  have "tx_rlp_unsigned (txn\<lparr>tx_data_non_zero_bytes := n\<rparr>) = tx_rlp_unsigned txn"
    "tx_type (txn\<lparr>tx_data_non_zero_bytes := n\<rparr>) = tx_type txn"
    "tx_chain_id (txn\<lparr>tx_data_non_zero_bytes := n\<rparr>) = tx_chain_id txn"
    by simp_all
  note fields = this
  show ?thesis
    unfolding signing_payload_def encode_for_signing_count fields ..
qed

lemma sender_count [simp]: "fst (sender k e (txn\<lparr>tx_data_non_zero_bytes := n\<rparr>)) = fst (sender k e txn)"
  by (simp add: sender_def Let_def)

text \<open>The count of non-zero bytes survives every check.\<close>

lemma checks_keep_count:
  "tx_data_non_zero_bytes (snd (pre_validate_common_base cr ev txn revn chain_id n)) = tx_data_non_zero_bytes txn"
  "tx_data_non_zero_bytes (snd (check_set_code_and_floor cr ev txn revn n)) = tx_data_non_zero_bytes txn"
  using pre_validate_common_base_snd [of cr ev txn revn chain_id n]
    check_set_code_and_floor_snd [of cr ev txn revn n] by auto

lemma pre_validate_transaction_count:
  "tx_data_non_zero_bytes (snd (pre_validate_transaction cr ev txn revn chain_id base_fee blob_price)) =
     unat (count_nonzero_bytes (tx_data txn))"
  unfolding pre_validate_transaction_def pre_validate_common_forks_def Let_def
  by (intro vbind_keeps [where P = "\<lambda>t. tx_data_non_zero_bytes t = unat (count_nonzero_bytes (tx_data txn))"])
     (simp_all add: checks_keep_count)

declare sender_idem [simp]

lemma pre_validate_transaction_rules:
  fixes cr :: crypto
  assumes "sane_sizes txn" "sane_costs ev"
  shows "(fst (pre_validate_transaction cr ev txn revn chain_id base_fee blob_price) = VOk \<longleftrightarrow>
            statically_valid ev (fst (sender (fst cr) (snd cr) txn)) txn revn chain_id base_fee blob_price) \<and>
         tx_data_non_zero_bytes (snd (pre_validate_transaction cr ev txn revn chain_id base_fee blob_price)) =
           nonzero_bytes (tx_data txn)"
proof
  let ?n = "count_nonzero_bytes (tx_data txn)"
  let ?t = "txn\<lparr>tx_data_non_zero_bytes := unat ?n\<rparr>"
  let ?sndr = "fst (sender (fst cr) (snd cr) txn)"
  let ?b = "pre_validate_common_base cr ev ?t revn chain_id ?n"
  have t: "same_fields ?t txn"
    by simp
  note tr = same_fields_rules [OF t]
  have s: "sane_sizes ?t"
    using assms(1) by (simp add: tr)
  have base: "fst ?b = VOk \<longleftrightarrow>
      chain_id_ok txn revn chain_id \<and> type_ok txn revn \<and> intrinsic_ok ev ?sndr txn revn \<and>
      max_cost txn < 2 ^ 256 \<and> unat (tx_nonce txn) < 2 ^ 64 - 1"
    using pre_validate_common_base_ok [OF s assms(2), of cr revn chain_id] unfolding tr sender_count .
  have b: "snd ?b \<in> {?t, snd (sender (fst cr) (snd cr) ?t)}"
    by (rule pre_validate_common_base_snd)
  then have "same_fields (snd ?b) txn" and sb: "fst (sender (fst cr) (snd cr) (snd ?b)) = ?sndr"
    by (auto simp del: insert_iff elim!: insertE)
  note f = same_fields_rules [OF this(1)]
  have forks: "fst (pre_validate_common_forks cr ev (snd ?b) revn blob_price ?n) = VOk \<longleftrightarrow>
      creation_ok ev txn revn \<and> typed_fields_ok txn blob_price \<and> floor_ok ev ?sndr txn revn \<and> caps_ok txn revn"
    if "type_ok txn revn"
    using pre_validate_common_forks_ok [of "snd ?b" ev revn cr blob_price] that assms
    unfolding f sb by blast
  show "fst (pre_validate_transaction cr ev txn revn chain_id base_fee blob_price) = VOk \<longleftrightarrow>
      statically_valid ev ?sndr txn revn chain_id base_fee blob_price"
    unfolding pre_validate_transaction_def Let_def vbind_ok fst_conv snd_conv base check_fee_caps_ok f
      statically_valid_def
    using forks by auto
  have "nonzero_bytes (tx_data txn) < 2 ^ 64"
    using nonzero_bytes_le [of "tx_data txn"] assms(1) by (simp add: sane_sizes_def)
  then show "tx_data_non_zero_bytes (snd (pre_validate_transaction cr ev txn revn chain_id base_fee blob_price)) =
      nonzero_bytes (tx_data txn)"
    by (simp add: pre_validate_transaction_count count_nonzero_bytes_def unat_of_nat)
qed

text \<open>
  C15: the stateless transaction checks accept exactly the transactions that satisfy every rule in force at
  the revision: chain id, type, intrinsic gas, maximum cost below \<open>2 ^ 256\<close>, nonce, signature, fee caps, init
  code, blob and authorization fields, calldata floor and gas caps, all over exact integers. The count of
  non-zero data bytes is left in the transaction for the execution.
\<close>

theorem pre_validate_transaction_exact:
  fixes cr :: crypto
  assumes "sane_sizes txn" "sane_costs ev"
  shows "(fst (pre_validate_transaction cr ev txn revn chain_id base_fee blob_price) = VOk \<longleftrightarrow>
            statically_valid ev (fst (sender (fst cr) (snd cr) txn)) txn revn chain_id base_fee blob_price) \<and>
         tx_data_non_zero_bytes (snd (pre_validate_transaction cr ev txn revn chain_id base_fee blob_price)) =
           nonzero_bytes (tx_data txn)"
  by (rule pre_validate_transaction_rules [OF assms])

definition sample_transfer :: transaction where
  "sample_transfer = empty_transaction
     \<lparr>tx_nonce := 7, tx_max_priority_fee_per_gas := 2, tx_max_fee_per_gas := 9, tx_gas_limit := 21032,
      tx_to := Some (replicate 20 1), tx_value := 5, tx_data := [0, 0, 3, 0], tx_r := 2, tx_s := 2\<rparr>"

theorem pre_validate_transaction_exact_witness:
  "fst (pre_validate_transaction (\<lambda>x. [], \<lambda>x. None) amsterdam_constants sample_transfer EVMC_CANCUN 1
          (Some 8) (Some 1)) = VOk \<and>
   tx_data_non_zero_bytes (snd (pre_validate_transaction (\<lambda>x. [], \<lambda>x. None) amsterdam_constants
          sample_transfer EVMC_CANCUN 1 (Some 8) (Some 1))) = 1"
proof -
  have s: "sane_sizes sample_transfer" "sane_costs amsterdam_constants"
    by (simp_all add: sane_sizes_def sample_transfer_def empty_transaction_def total_storage_keys_def
        sane_costs_def amsterdam_constants_def)
  have "statically_valid amsterdam_constants sndr sample_transfer EVMC_CANCUN 1 (Some 8) (Some 1)" for sndr
    by (simp add: statically_valid_def chain_id_ok_def type_ok_def intrinsic_ok_def max_cost_def total_blob_gas_def
        is_valid_signature_def kSecp256k1n_def kSecp256k1Halfn_def fee_caps_ok_def creation_ok_def
        typed_fields_ok_def floor_ok_def caps_ok_def exact_intrinsic_gas_def nonzero_bytes_def
        total_storage_keys_def sample_transfer_def empty_transaction_def revision_order)
  then show ?thesis
    using pre_validate_transaction_exact [OF s, of "(\<lambda>x. [], \<lambda>x. None)" EVMC_CANCUN 1 "Some 8" "Some 1"]
    by (simp add: sample_transfer_def nonzero_bytes_def)
qed

text \<open>What the state has to say about a transaction.\<close>

definition payable :: "crypto \<Rightarrow> transaction \<Rightarrow> state_view \<Rightarrow> u64 \<Rightarrow> bool" where
  "payable cr txn state available_gas \<longleftrightarrow>
     (\<exists>a. fst (sender (fst cr) (snd cr) txn) = Some a \<and>
          (sv_code_hash state a \<in> {None, Some kEmptyHash} \<or> is_code_delegated (sv_read_code state a)) \<and>
          sv_get_nonce state a = tx_nonce txn \<and>
          max_cost txn + unat (tx_value txn) \<le> unat (sv_get_balance state a) \<and>
          tx_gas_limit txn \<le> available_gas)"

lemma balance_compare:
  "ucast (b :: u256) < maximum_gas_cost txn + ucast (tx_value txn) \<longleftrightarrow> unat b < max_cost txn + unat (tx_value txn)"
proof -
  have g: "unat (x :: u64) * unat (y :: u256) < 2 ^ 64 * 2 ^ 256" for x y
    using unsigned_less [of x, where 'a = nat] unsigned_less [of y, where 'a = nat]
    by (intro mult_strict_mono) auto
  have "max_cost txn < 2 ^ 321"
    using g [of "tx_gas_limit txn" "tx_max_fee_per_gas txn"] g [of "total_blob_gas txn" "tx_max_fee_per_blob_gas txn"]
    by (simp add: max_cost_def)
  moreover have "unat (tx_value txn) < 2 ^ 256"
    using unsigned_less [of "tx_value txn", where 'a = nat] by simp
  ultimately have "unat (maximum_gas_cost txn + ucast (tx_value txn)) = max_cost txn + unat (tx_value txn)"
    by (simp add: unat_word_ariths unat_ucast_up unat_maximum_gas_cost flip: max_cost_def)
  then show ?thesis
    by (simp add: word_less_nat_alt unat_ucast_up)
qed

text \<open>
  C16: against the state, a transaction is accepted exactly if its sender can be recovered, is not a contract
  (or a delegated account), has the transaction's nonce and owns the maximum gas cost plus the value, counted
  without wrap-around, and the gas limit fits what is left of the block.
\<close>

theorem validate_transaction_exact:
  "fst (validate_transaction cr txn state available_gas) = VOk \<longleftrightarrow> payable cr txn state available_gas"
proof -
  have m: "maximum_gas_cost (snd (sender k e txn)) = maximum_gas_cost txn" for k e
    by (simp add: maximum_gas_cost_def total_blob_gas_def Let_def)
  show ?thesis
  proof (cases "fst (sender (fst cr) (snd cr) txn)")
    case None
    then show ?thesis
      by (simp add: validate_transaction_def payable_def case_prod_beta)
  next
    case (Some a)
    then show ?thesis
      using balance_compare [of "sv_get_balance state a" txn]
      by (auto simp: validate_transaction_def payable_def case_prod_beta m not_less split: option.splits)
  qed
qed

text \<open>The loop over a block's transactions accepts exactly if every transaction is accepted.\<close>

lemma pre_validate_each_ok:
  "fst (pre_validate_each cr ev revn chain_id base_fee price txns) = VOk \<longleftrightarrow>
     (\<forall>txn \<in> set txns. fst (pre_validate_transaction cr ev txn revn chain_id base_fee price) = VOk)"
  by (induction txns) (auto simp: Let_def case_prod_beta)

lemma pre_validate_each_snd:
  "fst (pre_validate_each cr ev revn chain_id base_fee price txns) = VOk \<Longrightarrow>
   snd (pre_validate_each cr ev revn chain_id base_fee price txns) =
     map (\<lambda>txn. snd (pre_validate_transaction cr ev txn revn chain_id base_fee price)) txns"
  by (induction txns) (auto simp: Let_def case_prod_beta split: if_splits)

end
