(* ===== verification/Trie_Basic.thy ===== *)
theory Trie_Basic
  imports Types_Basic "HOL-Library.List_Lexorder" "HOL-Library.Product_Lexorder"
begin

text \<open>
  The parts of the trie code below the hash builder: nibble strings (trie/nibbles.cpp), the
  common-prefix length (common/util.cpp), the stored form of branch nodes (trie/node.cpp) and the
  prefix set with its moving index (trie/prefix_set.cpp).
\<close>

section \<open>Nibbles\<close>

fun pack_pairs :: "bytes \<Rightarrow> bytes" where
  "pack_pairs (a # b # unpacked) = (push_bit 4 a + b) # pack_pairs unpacked"
| "pack_pairs [a] = [push_bit 4 a]"
| "pack_pairs [] = []"

definition pack_nibbles :: "bytes \<Rightarrow> bytes" where
  "pack_nibbles unpacked = (if unpacked = [] then [] else pack_pairs unpacked)"

definition unpack_nibbles :: "bytes \<Rightarrow> bytes" where
  "unpack_nibbles data = foldl (\<lambda>out b. out @ [drop_bit 4 b, b AND 0x0F]) [] data"

fun prefix_length :: "bytes \<Rightarrow> bytes \<Rightarrow> nat" where
  "prefix_length (x # a) (y # b) = (if x \<noteq> y then 0 else Suc (prefix_length a b))"
| "prefix_length _ _ = 0"

definition nibbles :: "bytes \<Rightarrow> bool" where
  "nibbles ns \<longleftrightarrow> (\<forall>n \<in> set ns. n < 0x10)"

lemma unpack_nibbles_eq: "unpack_nibbles data = concat (map (\<lambda>b. [drop_bit 4 b, b AND 0x0F]) data)"
proof -
  have "foldl (\<lambda>out b. out @ [drop_bit 4 b, b AND 0x0F]) acc data =
      acc @ concat (map (\<lambda>b. [drop_bit 4 b, b AND 0x0F]) data)" for acc
    by (induction data arbitrary: acc) auto
  then show ?thesis
    by (simp add: unpack_nibbles_def)
qed

lemma unpack_nibbles_Nil [simp]: "unpack_nibbles [] = []"
  by (simp add: unpack_nibbles_eq)

lemma unpack_nibbles_Cons [simp]:
  "unpack_nibbles (b # data) = drop_bit 4 b # (b AND 0x0F) # unpack_nibbles data"
  by (simp add: unpack_nibbles_eq)

lemma length_unpack_nibbles [simp]: "length (unpack_nibbles data) = 2 * length data"
  by (induction data) auto

lemma unat_and_0F: "unat (b AND 0x0F :: byte) = unat b mod 16"
proof -
  have "b AND 0x0F = take_bit 4 b"
    by (simp add: take_bit_eq_mask mask_eq_exp_minus_1)
  then have "unat (b AND 0x0F) = take_bit 4 (unat b)"
    by (simp add: unsigned_take_bit_eq)
  then show ?thesis by (simp add: take_bit_eq_mod)
qed

lemma unat_high_nibble: "unat (drop_bit 4 b :: byte) = unat b div 16"
  using unat_drop_bit_div [of 4 b] by simp

lemma nibble_less_iff: "(n :: byte) < 0x10 \<longleftrightarrow> unat n < 16"
  by (simp add: word_less_nat_alt)

lemma nibbles_unpack [simp]: "nibbles (unpack_nibbles data)"
proof (induction data)
  case (Cons b data)
  have "unat b div 16 < 16"
    using unat_byte_less [of b] by linarith
  then show ?case
    using Cons by (simp add: nibbles_def nibble_less_iff unat_and_0F unat_high_nibble)
qed (simp add: nibbles_def)

lemma pack_pair:
  assumes "(a :: byte) < 0x10" "b < 0x10"
  shows "drop_bit 4 (push_bit 4 a + b) = a" "(push_bit 4 a + b) AND 0x0F = b"
proof -
  have "push_bit 4 a = a * 16"
    by (simp add: push_bit_eq_mult)
  then have "unat (push_bit 4 a + b) = unat a * 16 + unat b"
    using assms by (simp add: nibble_less_iff unat_word_ariths)
  then show "drop_bit 4 (push_bit 4 a + b) = a" "(push_bit 4 a + b) AND 0x0F = b"
    using assms by (simp_all add: word_unat_eq_iff unat_high_nibble unat_and_0F nibble_less_iff)
qed

lemma pack_unpack: "pack_pairs (unpack_nibbles data) = data"
proof (induction data)
  case (Cons b data)
  have "push_bit 4 (drop_bit 4 b) = drop_bit 4 b * 16"
    by (simp add: push_bit_eq_mult)
  then have "unat (push_bit 4 (drop_bit 4 b) + (b AND 0x0F)) = unat b"
    using unat_byte_less [of b]
    by (simp add: unat_word_ariths unat_high_nibble unat_and_0F mod_simps)
  then show ?case
    using Cons by (simp add: word_unat_eq_iff)
qed simp

lemma unpack_pack: "nibbles ns \<Longrightarrow> even (length ns) \<Longrightarrow> unpack_nibbles (pack_pairs ns) = ns"
  by (induction ns rule: pack_pairs.induct) (auto simp: nibbles_def pack_pair)

lemma unpack_pack_odd:
  "nibbles ns \<Longrightarrow> odd (length ns) \<Longrightarrow> unpack_nibbles (pack_pairs ns) = ns @ [0]"
proof (induction ns rule: pack_pairs.induct)
  case (2 a)
  then show ?case
    using pack_pair [of a 0] by (simp add: nibbles_def)
qed (auto simp: nibbles_def pack_pair)

lemma prefix_length_le: "prefix_length a b \<le> length a" "prefix_length a b \<le> length b"
  by (induction a b rule: prefix_length.induct) auto

lemma take_prefix_length: "take (prefix_length a b) a = take (prefix_length a b) b"
  by (induction a b rule: prefix_length.induct) auto

lemma prefix_length_maximal:
  "prefix_length a b < length a \<Longrightarrow> prefix_length a b < length b \<Longrightarrow>
   a ! prefix_length a b \<noteq> b ! prefix_length a b"
  by (induction a b rule: prefix_length.induct) auto

section \<open>Stored branch nodes\<close>

record node =
  state_mask :: u16
  tree_mask :: u16
  hash_mask :: u16
  hashes :: "bytes32 list"
  root_hash :: "bytes32 option"

definition is_subset :: "u16 \<Rightarrow> u16 \<Rightarrow> bool" where
  "is_subset sub super \<longleftrightarrow> sub AND super = sub"

text \<open>\<open>std::popcount\<close> on 16 bits.\<close>

definition popcount :: "u16 \<Rightarrow> nat" where
  "popcount w = length (filter (bit w) [0..<16])"

definition encode_for_storage :: "node \<Rightarrow> bytes" where
  "encode_for_storage n =
     store_big (state_mask n) @ store_big (tree_mask n) @ store_big (hash_mask n)
     @ (case root_hash n of Some h \<Rightarrow> h | None \<Rightarrow> []) @ concat (hashes n)"

text \<open>\<open>memcpy\<close> into a vector of hashes.\<close>

fun split_hashes :: "nat \<Rightarrow> bytes \<Rightarrow> bytes32 list" where
  "split_hashes 0 raw = []"
| "split_hashes (Suc n) raw = take 32 raw # split_hashes n (drop 32 raw)"

definition decode_from_storage :: "bytes \<Rightarrow> node result" where
  "decode_from_storage raw =
     (if length raw < 6 then Inl KInputTooShort
      else if (length raw - 6) mod 32 \<noteq> 0 then Inl KInvalidHashesLength
      else let state_mask = load_big raw :: u16;
               tree_mask = load_big (drop 2 raw) :: u16;
               hash_mask = load_big (drop 4 raw) :: u16
           in if \<not> is_subset tree_mask state_mask \<or> \<not> is_subset hash_mask state_mask
              then Inl KInvalidMasksSubsets
              else let raw = drop 6 raw;
                       expected_num_hashes = popcount hash_mask;
                       effective_num_hashes = length raw div 32
                   in if effective_num_hashes < expected_num_hashes then Inl KInvalidHashesLength
                      else let delta = effective_num_hashes - expected_num_hashes
                           in if delta > 1 then Inl KInvalidHashesLength
                              else if delta = 1
                              then Inr \<lparr>state_mask = state_mask, tree_mask = tree_mask,
                                        hash_mask = hash_mask,
                                        hashes = split_hashes (effective_num_hashes - 1) (drop 32 raw),
                                        root_hash = Some (take 32 raw)\<rparr>
                              else Inr \<lparr>state_mask = state_mask, tree_mask = tree_mask,
                                        hash_mask = hash_mask,
                                        hashes = split_hashes effective_num_hashes raw,
                                        root_hash = None\<rparr>)"

text \<open>The invariants the class presumes of its nodes.\<close>

definition valid_node :: "node \<Rightarrow> bool" where
  "valid_node n \<longleftrightarrow>
     is_subset (tree_mask n) (state_mask n) \<and> is_subset (hash_mask n) (state_mask n) \<and>
     popcount (hash_mask n) = length (hashes n) \<and> (\<forall>h \<in> set (hashes n). length h = 32) \<and>
     pred_option (\<lambda>h. length h = 32) (root_hash n)"

lemma length_store_u16 [simp]: "length (store_big (w :: u16)) = 2"
  by (simp add: store_big_def)

lemma load_big_store: "load_big (store_big (w :: u16) @ rest) = w"
  using be_nat_store_big [of w] by (simp add: load_big_def)

lemma store_load_big: "2 \<le> length raw \<Longrightarrow> store_big (load_big raw :: u16) = take 2 raw"
proof -
  assume l: "2 \<le> length raw"
  have t: "length (take 2 raw) = 2"
    using l by simp
  have "be_nat (take 2 raw) < 256 ^ 2"
    using be_nat_bound [of "take 2 raw"] unfolding t .
  then have "unat (load_big raw :: u16) = be_nat (take 2 raw)"
    by (simp add: load_big_def unat_of_nat)
  then show ?thesis
    using be_bytes_be_nat [of "take 2 raw"] unfolding t by (simp add: store_big_def)
qed

lemma split_hashes_concat:
  "\<forall>h \<in> set hs. length h = 32 \<Longrightarrow> split_hashes (length hs) (concat hs) = hs"
  by (induction hs) auto

lemma concat_split_hashes:
  "length raw = n * 32 \<Longrightarrow> concat (split_hashes n raw) = raw \<and> length (split_hashes n raw) = n \<and>
     (\<forall>h \<in> set (split_hashes n raw). length h = 32)"
proof (induction n arbitrary: raw)
  case (Suc n)
  have "length (drop 32 raw) = n * 32"
    using Suc.prems by simp
  note IH = Suc.IH [OF this]
  show ?case
    using IH Suc.prems by simp
qed simp

lemma length_concat_hashes:
  "\<forall>h \<in> set hs. length h = 32 \<Longrightarrow> length (concat hs) = length hs * 32"
  by (induction hs) auto

lemma decode_encode_storage:
  assumes v: "valid_node n"
  shows "decode_from_storage (encode_for_storage n) = Inr n"
proof -
  have hs: "\<forall>h \<in> set (hashes n). length h = 32"
    using v by (simp add: valid_node_def)
  have l: "length (concat (hashes n)) = length (hashes n) * 32"
    by (rule length_concat_hashes [OF hs])
  have m: "is_subset (tree_mask n) (state_mask n)" "is_subset (hash_mask n) (state_mask n)"
    "popcount (hash_mask n) = length (hashes n)"
    using v by (auto simp: valid_node_def)
  have d: "drop 2 (store_big (state_mask n) @ xs) = xs" "drop 4 (store_big (state_mask n) @ store_big (tree_mask n) @ xs) = xs"
    "drop 6 (store_big (state_mask n) @ store_big (tree_mask n) @ store_big (hash_mask n) @ xs) = xs" for xs
    by simp_all
  show ?thesis
  proof (cases "root_hash n")
    case None
    then show ?thesis
      using m l split_hashes_concat [OF hs]
      by (cases n) (simp add: decode_from_storage_def encode_for_storage_def Let_def load_big_store d)
  next
    case (Some h)
    then have "length h = 32"
      using v by (simp add: valid_node_def)
    then show ?thesis
      using Some m l split_hashes_concat [OF hs]
      by (cases n) (simp add: decode_from_storage_def encode_for_storage_def Let_def load_big_store d)
  qed
qed

lemma decode_from_storage_cases:
  assumes "decode_from_storage raw = Inr n"
  shows "valid_node n \<and> raw = encode_for_storage n"
proof -
  have l: "6 \<le> length raw" "(length raw - 6) mod 32 = 0"
    using assms by (auto simp: decode_from_storage_def split: if_splits)
  have masks: "state_mask n = load_big raw" "tree_mask n = load_big (drop 2 raw)"
    "hash_mask n = load_big (drop 4 raw)" "is_subset (tree_mask n) (state_mask n)"
    "is_subset (hash_mask n) (state_mask n)"
    using assms by (auto simp: decode_from_storage_def Let_def split: if_splits)
  define k where "k = (length raw - 6) div 32"
  have k: "length (drop 6 raw) = k * 32"
    using l by (simp add: k_def dvd_eq_mod_eq_0 [symmetric])
  have "raw = take 2 raw @ take 2 (drop 2 raw) @ take 2 (drop 4 raw) @ drop 6 raw"
    using append_take_drop_id [of 2 raw] append_take_drop_id [of 2 "drop 2 raw"]
      append_take_drop_id [of 2 "drop 4 raw"] by simp
  moreover have "store_big (state_mask n) = take 2 raw" "store_big (tree_mask n) = take 2 (drop 2 raw)"
    "store_big (hash_mask n) = take 2 (drop 4 raw)"
    unfolding masks using l(1) by (simp_all add: store_load_big)
  ultimately have raw: "raw = store_big (state_mask n) @ store_big (tree_mask n)
      @ store_big (hash_mask n) @ drop 6 raw"
    by simp
  have d: "drop 32 (drop 6 raw) = drop 38 raw"
    by simp
  consider "popcount (hash_mask n) = k" "hashes n = split_hashes k (drop 6 raw)" "root_hash n = None"
    | "k = Suc (popcount (hash_mask n))" "root_hash n = Some (take 32 (drop 6 raw))"
      "hashes n = split_hashes (popcount (hash_mask n)) (drop 32 (drop 6 raw))"
    using assms l masks(3) k_def
    by (auto simp: decode_from_storage_def Let_def split: if_splits)
  then show ?thesis
  proof cases
    case 1
    then show ?thesis
      using concat_split_hashes [OF k] raw masks(4,5)
      by (simp add: valid_node_def encode_for_storage_def)
  next
    case 2
    have "length (drop 32 (drop 6 raw)) = popcount (hash_mask n) * 32"
      using k 2(1) by simp
    note c = concat_split_hashes [OF this]
    have "length (take 32 (drop 6 raw)) = 32"
      using k 2(1) by simp
    then have v: "valid_node n"
      using masks(4,5) c [THEN conjunct2, THEN conjunct1, symmetric] c [THEN conjunct2, THEN conjunct2]
      unfolding valid_node_def 2(2,3) option.pred_inject by blast
    have "encode_for_storage n = store_big (state_mask n) @ store_big (tree_mask n)
        @ store_big (hash_mask n) @ take 32 (drop 6 raw) @ drop 32 (drop 6 raw)"
      unfolding encode_for_storage_def 2(2,3) option.case c [THEN conjunct1] ..
    also have "\<dots> = raw"
      unfolding append_take_drop_id by (rule raw [symmetric])
    finally show ?thesis
      using v by simp
  qed
qed

section \<open>Prefix sets\<close>

text \<open>
  The set keeps its keys unsorted until the first query, and an index that moves with the queries.
  Pairs of a key and its marker are compared lexicographically.
\<close>

record prefix_set =
  ps_keys :: "(bytes \<times> bool) list"
  ps_index :: nat
  ps_sorted :: bool

definition ps_empty :: prefix_set where
  "ps_empty = \<lparr>ps_keys = [], ps_index = 0, ps_sorted = False\<rparr>"

definition ps_insert :: "prefix_set \<Rightarrow> bytes \<Rightarrow> bool \<Rightarrow> prefix_set" where
  "ps_insert s key marker = s\<lparr>ps_keys := ps_keys s @ [(key, marker)], ps_sorted := False\<rparr>"

definition ensure_sorted :: "prefix_set \<Rightarrow> prefix_set" where
  "ensure_sorted s =
     (if ps_sorted s then s
      else s\<lparr>ps_keys := remdups_adj (sort (ps_keys s)), ps_sorted := True\<rparr>)"

text \<open>The two index loops of \<open>contains\<close>: back while the key is above the prefix, then forward.\<close>

fun index_back :: "(bytes \<times> bool) list \<Rightarrow> bytes \<Rightarrow> nat \<Rightarrow> nat" where
  "index_back keys p i =
     (case i of 0 \<Rightarrow> 0 | Suc j \<Rightarrow> if fst (keys ! i) > p then index_back keys p j else i)"

declare index_back.simps [simp del]

function index_forward :: "(bytes \<times> bool) list \<Rightarrow> bytes \<Rightarrow> nat \<Rightarrow> bool \<times> nat" where
  "index_forward keys p i =
     (let key = fst (keys ! i)
      in if prefix p key then (True, i)
         else if key > p \<or> i \<ge> length keys - 1 then (False, i)
         else index_forward keys p (Suc i))"
  by pat_completeness auto
termination
  by (relation "measure (\<lambda>(keys, p, i). length keys - i)") auto

declare index_forward.simps [simp del]

definition ps_contains :: "prefix_set \<Rightarrow> bytes \<Rightarrow> bool \<times> prefix_set" where
  "ps_contains s p =
     (if ps_keys s = [] then (False, s)
      else let s = ensure_sorted s;
               (found, i) = index_forward (ps_keys s) p (index_back (ps_keys s) p (ps_index s))
           in (found, s\<lparr>ps_index := i\<rparr>))"

definition ps_clear :: "prefix_set \<Rightarrow> prefix_set" where
  "ps_clear s = ps_empty"

text \<open>
  The scan for the next marked key. \<open>memcmp\<close> reads \<open>invariant_prefix_len\<close> bytes of the key, which is
  defined for keys at least that long; a shorter key counts as different here.
\<close>

function next_marked :: "(bytes \<times> bool) list \<Rightarrow> bytes \<Rightarrow> nat \<Rightarrow> nat \<Rightarrow> bytes" where
  "next_marked keys p invariant_prefix_len i =
     (if i < length keys
      then (if invariant_prefix_len \<noteq> 0 \<and>
               take invariant_prefix_len p \<noteq> take invariant_prefix_len (fst (keys ! i)) then []
            else if snd (keys ! i) then fst (keys ! i)
            else next_marked keys p invariant_prefix_len (Suc i))
      else [])"
  by pat_completeness auto
termination
  by (relation "measure (\<lambda>(keys, p, n, i). length keys - i)") auto

declare next_marked.simps [simp del]

definition contains_and_next_marked ::
  "prefix_set \<Rightarrow> bytes \<Rightarrow> nat \<Rightarrow> (bool \<times> bytes) \<times> prefix_set" where
  "contains_and_next_marked s p invariant_prefix_len =
     (let (is_contained, s) = ps_contains s p;
          n = min invariant_prefix_len (length p)
      in ((is_contained, next_marked (ps_keys s) p n (ps_index s)), s))"

text \<open>Lexicographic order and prefixes: the extensions of \<open>p\<close> are the interval that starts at \<open>p\<close>.\<close>

lemma prefix_le: "prefix (p :: bytes) k \<Longrightarrow> p \<le> k"
proof (induction p arbitrary: k)
  case (Cons x p)
  then show ?case by (cases k) auto
qed simp

lemma beyond_prefix:
  "(p :: bytes) < key \<Longrightarrow> \<not> prefix p key \<Longrightarrow> key \<le> k \<Longrightarrow> \<not> prefix p k"
proof (induction p arbitrary: key k)
  case (Cons x p)
  then obtain y key' where "key = y # key'"
    by (cases key) auto
  with Cons show ?case
    by (cases k) auto
qed simp

definition ps_inv :: "prefix_set \<Rightarrow> bool" where
  "ps_inv s \<longleftrightarrow>
     (ps_keys s = [] \<and> ps_index s = 0 \<or> ps_index s < card (set (ps_keys s))) \<and>
     (ps_sorted s \<longrightarrow> sorted (ps_keys s) \<and> distinct (ps_keys s))"

lemma sorted_fst: "sorted (keys :: (bytes \<times> bool) list) \<Longrightarrow> i \<le> j \<Longrightarrow> j < length keys \<Longrightarrow>
    fst (keys ! i) \<le> fst (keys ! j)"
  using sorted_nth_mono [of keys i j] by (auto simp: less_eq_prod_def)

lemma index_back_bounds:
  "index_back keys p i \<le> i \<and> (index_back keys p i = 0 \<or> fst (keys ! index_back keys p i) \<le> p)"
proof (induction i)
  case (Suc i)
  then show ?case
    by (subst (1 2 3) index_back.simps) auto
qed (simp add: index_back.simps)

lemma index_forward_correct:
  assumes "sorted (keys :: (bytes \<times> bool) list)" "i < length keys"
    and "\<And>m. m < i \<Longrightarrow> prefix p (fst (keys ! m)) \<Longrightarrow> prefix p (fst (keys ! i))"
  shows "(fst (index_forward keys p i) \<longleftrightarrow> (\<exists>m < length keys. prefix p (fst (keys ! m)))) \<and>
    snd (index_forward keys p i) < length keys"
  using assms
proof (induction keys p i rule: index_forward.induct)
  case (1 keys p i)
  let ?key = "fst (keys ! i)"
  consider "prefix p ?key" | "\<not> prefix p ?key" "?key > p \<or> i \<ge> length keys - 1"
    | "\<not> prefix p ?key" "\<not> (?key > p \<or> i \<ge> length keys - 1)"
    by blast
  then show ?case
  proof cases
    case 1
    then show ?thesis
      using "1.prems" by (subst (1 2) index_forward.simps) auto
  next
    case 2
    have "\<not> prefix p (fst (keys ! m))" if "m < length keys" for m
    proof (cases "m < i")
      case True
      then show ?thesis
        using "1.prems"(3) 2(1) by blast
    next
      case False
      have "?key \<le> fst (keys ! m)"
        using False that "1.prems"(1) by (intro sorted_fst) auto
      moreover have "m = i" if "\<not> p < ?key"
        using False that 2 \<open>m < length keys\<close> by auto
      ultimately show ?thesis
        using beyond_prefix [of p ?key] 2(1) by blast
    qed
    then show ?thesis
      using 2 "1.prems" by (subst (1 2) index_forward.simps) auto
  next
    case 3
    have "prefix p (fst (keys ! Suc i))" if "m < Suc i" "prefix p (fst (keys ! m))" for m
      using that "1.prems"(3) 3(1) by (metis less_Suc_eq)
    then show ?thesis
      using 3 "1.IH" [OF refl] "1.prems" by (subst (1 2) index_forward.simps) auto
  qed
qed

lemma sorted_distinct_adj: "sorted xs \<Longrightarrow> distinct_adj xs \<Longrightarrow> distinct xs"
proof (induction xs)
  case (Cons x xs)
  show ?case
  proof (cases xs)
    case (Cons y ys)
    then have "x < y"
      using Cons.prems by (auto simp: distinct_adj_Cons)
    then have "x \<notin> set xs"
      using Cons.prems Cons by auto
    then show ?thesis
      using Cons.prems Cons.IH by (auto simp: distinct_adj_Cons)
  qed simp
qed simp

lemma card_remdups_sort:
  fixes ks :: "'a::linorder list"
  shows "sorted (remdups_adj (sort ks))" "distinct (remdups_adj (sort ks))"
    "set (remdups_adj (sort ks)) = set ks"
    "length (remdups_adj (sort ks)) = card (set ks)"
proof -
  show s: "sorted (remdups_adj (sort ks))"
    by simp
  show d: "distinct (remdups_adj (sort ks))"
    using s by (rule sorted_distinct_adj) simp
  show t: "set (remdups_adj (sort ks)) = set ks"
    by simp
  show "length (remdups_adj (sort ks)) = card (set ks)"
    using distinct_card [OF d] t by simp
qed

lemma ensure_sorted_inv:
  assumes "ps_inv s" "ps_keys s \<noteq> []"
  shows "sorted (ps_keys (ensure_sorted s))" "distinct (ps_keys (ensure_sorted s))"
    "set (ps_keys (ensure_sorted s)) = set (ps_keys s)" "ps_sorted (ensure_sorted s)"
    "ps_index s < length (ps_keys (ensure_sorted s))" "ps_index (ensure_sorted s) = ps_index s"
  using assms card_remdups_sort [of "ps_keys s"] distinct_card [of "ps_keys s"]
  by (auto simp: ps_inv_def ensure_sorted_def)

lemma ps_contains_correct:
  assumes inv: "ps_inv s"
  shows "fst (ps_contains s p) \<longleftrightarrow> (\<exists>k \<in> fst ` set (ps_keys s). prefix p k)"
    and "ps_inv (snd (ps_contains s p))"
    and "set (ps_keys (snd (ps_contains s p))) = set (ps_keys s)"
proof -
  let ?s = "ensure_sorted s" and ?b = "index_back (ps_keys (ensure_sorted s)) p (ps_index s)"
  let ?r = "index_forward (ps_keys ?s) p ?b"
  have *: "(fst ?r \<longleftrightarrow> (\<exists>m < length (ps_keys ?s). prefix p (fst (ps_keys ?s ! m)))) \<and>
      snd ?r < length (ps_keys ?s)" if ne: "ps_keys s \<noteq> []"
  proof (rule index_forward_correct)
    note e = ensure_sorted_inv [OF inv ne]
    note b = index_back_bounds [of "ps_keys ?s" p "ps_index s"]
    show "sorted (ps_keys ?s)" by (rule e(1))
    show "?b < length (ps_keys ?s)" using b e(5) by simp
    fix m assume m: "m < ?b" "prefix p (fst (ps_keys ?s ! m))"
    then have "fst (ps_keys ?s ! m) \<le> fst (ps_keys ?s ! ?b)" "fst (ps_keys ?s ! ?b) \<le> p"
      using b e(1) \<open>?b < length (ps_keys ?s)\<close> by (auto intro: sorted_fst)
    then have "fst (ps_keys ?s ! ?b) = p"
      using prefix_le [OF m(2)] by (meson order.antisym order.trans)
    then show "prefix p (fst (ps_keys ?s ! ?b))"
      by simp
  qed
  show "fst (ps_contains s p) \<longleftrightarrow> (\<exists>k \<in> fst ` set (ps_keys s). prefix p k)"
  proof (cases "ps_keys s = []")
    case False
    then show ?thesis
      using * [OF False] ensure_sorted_inv(3,6) [OF inv False]
      by (auto simp: ps_contains_def Let_def case_prod_unfold) (metis in_set_conv_nth fst_conv)+
  qed (simp add: ps_contains_def)
  show "ps_inv (snd (ps_contains s p))"
    "set (ps_keys (snd (ps_contains s p))) = set (ps_keys s)"
    using * inv ensure_sorted_inv [OF inv] distinct_card [of "ps_keys ?s"]
    by (auto simp: ps_contains_def ps_inv_def Let_def case_prod_unfold)
qed

lemma ps_insert_inv: "ps_inv s \<Longrightarrow> ps_inv (ps_insert s key marker)"
proof -
  have "card (set (ps_keys s)) \<le> card (insert (key, marker) (set (ps_keys s)))"
    by (rule card_mono) auto
  then show "ps_inv s \<Longrightarrow> ps_inv (ps_insert s key marker)"
    by (auto simp: ps_inv_def ps_insert_def)
qed

lemma ps_insert_keys: "set (ps_keys (ps_insert s key marker)) = insert (key, marker) (set (ps_keys s))"
  by (simp add: ps_insert_def)

lemma ps_empty_inv: "ps_inv ps_empty" "ps_keys ps_empty = []"
  by (simp_all add: ps_inv_def ps_empty_def)

text \<open>A set reached by insertions and queries in any order, with the keys inserted so far.\<close>

inductive ps_reachable :: "prefix_set \<Rightarrow> bytes set \<Rightarrow> bool" where
  reach_empty: "ps_reachable ps_empty {}"
| reach_insert: "ps_reachable s K \<Longrightarrow> ps_reachable (ps_insert s key marker) (insert key K)"
| reach_contains: "ps_reachable s K \<Longrightarrow> ps_reachable (snd (ps_contains s p)) K"
| reach_next: "ps_reachable s K \<Longrightarrow> ps_reachable (snd (contains_and_next_marked s p n)) K"
| reach_clear: "ps_reachable s K \<Longrightarrow> ps_reachable (ps_clear s) {}"

lemma snd_contains_and_next_marked: "snd (contains_and_next_marked s p n) = snd (ps_contains s p)"
  by (simp add: contains_and_next_marked_def case_prod_unfold Let_def)

lemma ps_reachable_inv: "ps_reachable s K \<Longrightarrow> ps_inv s \<and> fst ` set (ps_keys s) = K"
  by (induction rule: ps_reachable.induct)
     (auto simp: ps_empty_inv ps_insert_inv ps_insert_keys ps_clear_def ps_contains_correct
       snd_contains_and_next_marked)

section \<open>Properties\<close>

text \<open>
  nibble strings and bytes convert without loss: unpacking yields two nibbles per byte, packing
  inverts it, and packing a nibble string of odd length pads it with one zero nibble.
\<close>

theorem nibbles_round_trip:
  assumes "nibbles ns"
  shows "pack_nibbles (unpack_nibbles data) = data \<and> nibbles (unpack_nibbles data) \<and>
         unpack_nibbles (pack_nibbles ns) = (if even (length ns) then ns else ns @ [0])"
  using assms pack_unpack [of data]
  by (auto simp: pack_nibbles_def unpack_pack unpack_pack_odd)

theorem nibbles_round_trip_witness:
  "unpack_nibbles (pack_nibbles [1, 2, 3]) = [1, 2, 3, 0]"
proof -
  have "nibbles [1, 2, 3]"
    by (simp add: nibbles_def)
  from nibbles_round_trip [OF this] show ?thesis
    by simp
qed

text \<open>
  stored branch nodes: \<open>decode_from_storage\<close> accepts exactly the stored forms of the nodes that
  satisfy the invariants the class presumes (both masks within the state mask, one hash per bit of
  the hash mask, at most one root hash in front).
\<close>

theorem node_storage_exact:
  "decode_from_storage raw = Inr n \<longleftrightarrow> valid_node n \<and> raw = encode_for_storage n"
  using decode_from_storage_cases decode_encode_storage by blast

text \<open>
  after any sequence of insertions, queries and clears, \<open>contains(prefix)\<close> answers whether some key
  inserted since the last clear starts with the prefix, whatever position earlier queries left the
  moving index at.
\<close>

theorem prefix_set_correct:
  assumes "ps_reachable s K"
  shows "fst (ps_contains s p) \<longleftrightarrow> (\<exists>k \<in> K. prefix p k)"
  using ps_reachable_inv [OF assms] ps_contains_correct(1) [of s p] by simp

theorem prefix_set_correct_witness:
  "fst (ps_contains (snd (ps_contains (ps_insert (ps_insert ps_empty [1, 2] False) [3] True) [3])) [1])"
proof -
  have "ps_reachable (snd (ps_contains (ps_insert (ps_insert ps_empty [1, 2] False) [3] True) [3])) {[3], [1, 2]}"
    by (intro ps_reachable.intros)
  from prefix_set_correct [OF this, of "[1]"] show ?thesis
    by simp
qed

end
