(* ===== verification/Hash_Builder.thy ===== *)
theory Hash_Builder
  imports Trie_Basic
begin

text \<open>
  The hash builder (trie/hash_builder.cpp): a stack machine that consumes the leaves of a trie in
  key order and yields the root hash of the Modified Merkle Patricia Trie. The collectors are
  callbacks; the model keeps whether each is set and the calls made to it. Keccak is a parameter.

  The source's own assertions are commented out; where a violated one would make it read outside a
  vector (\<open>current[len]\<close>, a stack with too few children), the model returns \<open>None\<close>.
\<close>

section \<open>Node encodings\<close>

definition encode_path :: "bytes \<Rightarrow> bool \<Rightarrow> bytes" where
  "encode_path ns terminating =
     (let is_odd = (length ns AND 1 \<noteq> 0);
          res0 = (if terminating then 0x20 else 0x00) + (if is_odd then 0x10 else 0x00)
      in if is_odd then (res0 OR hd ns) # pack_pairs (tl ns) else res0 # pack_pairs ns)"

definition leaf_node_rlp :: "bytes \<Rightarrow> bytes \<Rightarrow> bytes" where
  "leaf_node_rlp path value =
     (let encoded_path = encode_path path True;
          h = \<lparr>is_list = True, payload_length = length_bytes encoded_path + length_bytes value\<rparr>
      in encode_header h @ encode_bytes encoded_path @ encode_bytes value)"

definition extension_node_rlp :: "bytes \<Rightarrow> bytes \<Rightarrow> bytes" where
  "extension_node_rlp path child_ref =
     (let encoded_path = encode_path path False;
          h = \<lparr>is_list = True, payload_length = length_bytes encoded_path + length child_ref\<rparr>
      in encode_header h @ encode_bytes encoded_path @ child_ref)"

definition wrap_hash :: "bytes32 \<Rightarrow> bytes" where
  "wrap_hash hash = (kEmptyStringCode + of_nat kHashLength) # hash"

definition node_ref :: "(bytes \<Rightarrow> bytes32) \<Rightarrow> bytes \<Rightarrow> bytes" where
  "node_ref keccak256 rlp = (if length rlp < kHashLength then rlp else wrap_hash (keccak256 rlp))"

definition kEmptyRoot :: bytes32 where
  "kEmptyRoot =
     [0x56, 0xe8, 0x1f, 0x17, 0x1b, 0xcc, 0x55, 0xa6, 0xff, 0x83, 0x45, 0xe6, 0x92, 0xc0, 0xf8, 0x6e,
      0x5b, 0x48, 0xe0, 0x1b, 0x99, 0x6c, 0xad, 0xc0, 0x01, 0x62, 0x2f, 0xb5, 0xe3, 0x63, 0xb4, 0x21]"

section \<open>The builder\<close>

datatype hb_value = LeafValue bytes | NodeHash bytes32

record hash_builder =
  hb_key :: bytes
  hb_value :: hb_value
  hb_is_in_db_trie :: bool
  hb_groups :: "u16 list"
  hb_tree_masks :: "u16 list"
  hb_hash_masks :: "u16 list"
  hb_stack :: "bytes list"
  hb_has_node_collector :: bool
  hb_has_rlp_collector :: bool
  hb_collected_nodes :: "(bytes \<times> node) list"
  hb_collected_rlps :: "bytes list"

definition hb_new :: "bool \<Rightarrow> bool \<Rightarrow> hash_builder" where
  "hb_new has_node_collector has_rlp_collector =
     \<lparr>hb_key = [], hb_value = LeafValue [], hb_is_in_db_trie = False, hb_groups = [],
      hb_tree_masks = [], hb_hash_masks = [], hb_stack = [],
      hb_has_node_collector = has_node_collector, hb_has_rlp_collector = has_rlp_collector,
      hb_collected_nodes = [], hb_collected_rlps = []\<rparr>"

definition hb_reset :: "hash_builder \<Rightarrow> hash_builder" where
  "hb_reset hb =
     hb\<lparr>hb_key := [], hb_value := LeafValue [], hb_is_in_db_trie := False, hb_groups := [],
        hb_tree_masks := [], hb_hash_masks := [], hb_stack := []\<rparr>"

text \<open>\<open>std::vector::resize\<close>: truncate, or extend with zeros; \<open>v[i] |= m\<close>; \<open>1u << digit\<close> as \<open>uint16_t\<close>.\<close>

definition resize :: "nat \<Rightarrow> u16 list \<Rightarrow> u16 list" where
  "resize n v = take n v @ replicate (n - length v) 0"

definition or_at :: "u16 list \<Rightarrow> nat \<Rightarrow> u16 \<Rightarrow> u16 list" where
  "or_at v i m = v[i := v ! i OR m]"

definition digit_flag :: "byte \<Rightarrow> u16" where
  "digit_flag digit = push_bit (unat digit) 1"

definition collect_rlp :: "bytes \<Rightarrow> hash_builder \<Rightarrow> hash_builder" where
  "collect_rlp rlp hb =
     (if hb_has_rlp_collector hb \<and> length rlp \<ge> kHashLength
      then hb\<lparr>hb_collected_rlps := hb_collected_rlps hb @ [rlp]\<rparr> else hb)"

text \<open>The children of a branch node: the loop over the 16 digits that consumes the stack in order.\<close>

fun branch_items :: "u16 \<Rightarrow> nat list \<Rightarrow> bytes list \<Rightarrow> bytes list" where
  "branch_items states [] refs = []"
| "branch_items states (digit # ds) refs =
     (if bit states digit
      then (case refs of [] \<Rightarrow> [] | r # refs \<Rightarrow> r # branch_items states ds refs)
      else [kEmptyStringCode] # branch_items states ds refs)"

fun branch_child_hashes :: "u16 \<Rightarrow> u16 \<Rightarrow> nat list \<Rightarrow> bytes list \<Rightarrow> bytes list" where
  "branch_child_hashes states hashed [] refs = []"
| "branch_child_hashes states hashed (digit # ds) refs =
     (if bit states digit
      then (case refs of
              [] \<Rightarrow> []
            | r # refs \<Rightarrow> (if bit hashed digit then [r] else [])
                          @ branch_child_hashes states hashed ds refs)
      else branch_child_hashes states hashed ds refs)"

definition branch_node_rlp :: "bytes list \<Rightarrow> bytes" where
  "branch_node_rlp items =
     encode_header \<lparr>is_list = True, payload_length = 1 + sum_list (map length items)\<rparr>
     @ concat items @ [kEmptyStringCode]"

definition branch_ref ::
  "(bytes \<Rightarrow> bytes32) \<Rightarrow> hash_builder \<Rightarrow> u16 \<Rightarrow> u16 \<Rightarrow> (bytes list \<times> hash_builder) option" where
  "branch_ref keccak256 hb states hashed =
     (if length (hb_stack hb) < popcount states then None
      else let first_child_idx = length (hb_stack hb) - popcount states;
               refs = drop first_child_idx (hb_stack hb);
               rlp = branch_node_rlp (branch_items states [0..<16] refs);
               hb = collect_rlp rlp hb
           in Some (branch_child_hashes states hashed [0..<16] refs,
                    hb\<lparr>hb_stack := take first_child_idx (hb_stack hb) @ [node_ref keccak256 rlp]\<rparr>))"

text \<open>\<open>root_hash(false)\<close>, and the leaf or node hash pushed by the first iteration of a step.\<close>

definition stack_root_hash :: "(bytes \<Rightarrow> bytes32) \<Rightarrow> hash_builder \<Rightarrow> bytes32" where
  "stack_root_hash keccak256 hb =
     (if hb_stack hb = [] then kEmptyRoot
      else let ref = last (hb_stack hb)
           in if length ref = kHashLength + 1 then take kHashLength (tl ref) else keccak256 ref)"

definition push_value :: "(bytes \<Rightarrow> bytes32) \<Rightarrow> bytes \<Rightarrow> bytes \<Rightarrow> hash_builder \<Rightarrow> hash_builder" where
  "push_value keccak256 current short_node_key hb =
     (case hb_value hb of
        LeafValue leaf_value \<Rightarrow>
          let leaf_rlp = leaf_node_rlp short_node_key leaf_value;
              hb = collect_rlp leaf_rlp hb
          in hb\<lparr>hb_stack := hb_stack hb @ [node_ref keccak256 leaf_rlp]\<rparr>
      | NodeHash hash \<Rightarrow>
          let hb = hb\<lparr>hb_stack := hb_stack hb @ [wrap_hash hash]\<rparr>;
              i = length current - 1
          in if hb_has_node_collector hb
             then hb\<lparr>hb_tree_masks := (if hb_is_in_db_trie hb
                                         then or_at (hb_tree_masks hb) i (digit_flag (last current))
                                         else hb_tree_masks hb),
                     hb_hash_masks := or_at (hb_hash_masks hb) i (digit_flag (last current))\<rparr>
             else hb)"

definition add_extension ::
  "(bytes \<Rightarrow> bytes32) \<Rightarrow> bytes \<Rightarrow> nat \<Rightarrow> bytes \<Rightarrow> hash_builder \<Rightarrow> hash_builder" where
  "add_extension keccak256 current from short_node_key hb =
     (let hb = (if hb_has_node_collector hb \<and> from > 0
                then let flag = digit_flag (current ! (from - 1))
                     in hb\<lparr>hb_hash_masks :=
                             (hb_hash_masks hb)[from - 1 := (hb_hash_masks hb ! (from - 1)) AND NOT flag],
                           hb_tree_masks :=
                             (if hb_tree_masks hb ! (length current - 1) \<noteq> 0
                              then or_at (hb_tree_masks hb) (from - 1) flag else hb_tree_masks hb)\<rparr>
                else hb);
          ext_rlp = extension_node_rlp short_node_key (last (hb_stack hb));
          hb = collect_rlp ext_rlp hb
      in hb\<lparr>hb_stack := butlast (hb_stack hb) @ [node_ref keccak256 ext_rlp],
            hb_hash_masks := resize from (hb_hash_masks hb),
            hb_tree_masks := resize from (hb_tree_masks hb)\<rparr>)"

text \<open>The calls made to the node collector when a branch is closed.\<close>

definition register_branch ::
  "(bytes \<Rightarrow> bytes32) \<Rightarrow> bytes \<Rightarrow> nat \<Rightarrow> bytes list \<Rightarrow> hash_builder \<Rightarrow> hash_builder" where
  "register_branch keccak256 current len child_hashes hb =
     (if \<not> hb_has_node_collector hb then hb
      else let flag = digit_flag (current ! (len - 1));
               hb = (if len > 0 then hb\<lparr>hb_hash_masks := or_at (hb_hash_masks hb) (len - 1) flag\<rparr>
                     else hb)
           in if hb_tree_masks hb ! len = 0 \<and> hb_hash_masks hb ! len = 0 then hb
              else let hb = (if len > 0
                             then hb\<lparr>hb_tree_masks := or_at (hb_tree_masks hb) (len - 1) flag\<rparr>
                             else hb);
                       n = \<lparr>state_mask = hb_groups hb ! len, tree_mask = hb_tree_masks hb ! len,
                            hash_mask = hb_hash_masks hb ! len,
                            hashes = map (\<lambda>c. take kHashLength (tl c)) child_hashes,
                            root_hash = (if len = 0 then Some (stack_root_hash keccak256 hb)
                                         else None)\<rparr>
                   in hb\<lparr>hb_collected_nodes := hb_collected_nodes hb @ [(take len current, n)]\<rparr>)"

definition pop_zero_groups :: "u16 list \<Rightarrow> u16 list" where
  "pop_zero_groups gs = rev (dropWhile (\<lambda>g. g = 0) (rev gs))"

text \<open>
  One iteration of the loop of \<open>gen_struct_step\<close>. The first half registers the digit of \<open>current\<close> in its
  prefix group and pushes (or extends) the node; the second half closes the group. The result of an
  iteration is \<open>None\<close> for a read out of range, otherwise the state with either no length (return) or
  the length \<open>current\<close> is cut to for the next iteration.
\<close>

definition preceding_len :: "hash_builder \<Rightarrow> nat" where
  "preceding_len hb = (if hb_groups hb = [] then 0 else length (hb_groups hb) - 1)"

definition open_group ::
  "(bytes \<Rightarrow> bytes32) \<Rightarrow> hash_builder \<Rightarrow> bytes \<Rightarrow> nat \<Rightarrow> nat \<Rightarrow> bool \<Rightarrow> hash_builder" where
  "open_group keccak256 hb current len from build_extensions =
     (let hb = hb\<lparr>hb_groups :=
                    or_at (if length (hb_groups hb) \<le> len then resize (len + 1) (hb_groups hb)
                           else hb_groups hb) len (digit_flag (current ! len))\<rparr>;
          hb = (if length (hb_tree_masks hb) < length current
                then hb\<lparr>hb_tree_masks := resize (length current) (hb_tree_masks hb),
                        hb_hash_masks := resize (length current) (hb_hash_masks hb)\<rparr>
                else hb);
          short_node_key = drop from current;
          is_hash = (case hb_value hb of NodeHash _ \<Rightarrow> True | LeafValue _ \<Rightarrow> False);
          hb' = (if build_extensions then hb else push_value keccak256 current short_node_key hb)
      in if (build_extensions \<or> is_hash) \<and> short_node_key \<noteq> []
         then add_extension keccak256 current from short_node_key hb' else hb')"

definition close_group ::
  "(bytes \<Rightarrow> bytes32) \<Rightarrow> hash_builder \<Rightarrow> bytes \<Rightarrow> nat \<Rightarrow> bool \<Rightarrow> hash_builder option" where
  "close_group keccak256 hb current len has_branch =
     map_option (\<lambda>hb. hb\<lparr>hb_groups := resize len (hb_groups hb),
                         hb_tree_masks := resize len (hb_tree_masks hb),
                         hb_hash_masks := resize len (hb_hash_masks hb)\<rparr>)
       (if has_branch
        then map_option
               (\<lambda>(child_hashes, hb). register_branch keccak256 current len child_hashes hb)
               (branch_ref keccak256 hb (hb_groups hb ! len) (hb_hash_masks hb ! len))
        else Some hb)"

definition gen_struct_iter ::
  "(bytes \<Rightarrow> bytes32) \<Rightarrow> hash_builder \<Rightarrow> bytes \<Rightarrow> bytes \<Rightarrow> bool \<Rightarrow>
   (hash_builder \<times> nat option) option" where
  "gen_struct_iter keccak256 hb current succeeding build_extensions =
     (let preceding_exists = (hb_groups hb \<noteq> []);
          pre_len = preceding_len hb;
          common_prefix_len = prefix_length succeeding current;
          len = max pre_len common_prefix_len;
          has_branch = (succeeding \<noteq> [] \<or> preceding_exists);
          from = (if has_branch then len + 1 else len)
      in if \<not> len < length current then None
         else let hb = open_group keccak256 hb current len from build_extensions
              in if pre_len \<le> common_prefix_len \<and> succeeding \<noteq> [] then Some (hb, None)
                 else case close_group keccak256 hb current len has_branch of
                        None \<Rightarrow> None
                      | Some hb \<Rightarrow>
                          if pre_len = 0 then Some (hb, None)
                          else Some (hb\<lparr>hb_groups := pop_zero_groups (hb_groups hb)\<rparr>, Some pre_len))"

lemma gen_struct_iter_shrinks:
  "gen_struct_iter keccak256 hb current succeeding build_extensions = Some (hb', Some n) \<Longrightarrow>
   n < length current"
  by (auto simp: gen_struct_iter_def Let_def split: if_splits option.splits)

function gen_struct_step ::
  "(bytes \<Rightarrow> bytes32) \<Rightarrow> hash_builder \<Rightarrow> bytes \<Rightarrow> bytes \<Rightarrow> bool \<Rightarrow> hash_builder option" where
  "gen_struct_step keccak256 hb current succeeding build_extensions =
     (case gen_struct_iter keccak256 hb current succeeding build_extensions of
        None \<Rightarrow> None
      | Some (hb, None) \<Rightarrow> Some hb
      | Some (hb, Some n) \<Rightarrow> gen_struct_step keccak256 hb (take n current) succeeding True)"
  by pat_completeness auto
termination
  by (relation "measure (\<lambda>(keccak256, hb, current, succeeding, build_extensions). length current)")
     (auto dest: gen_struct_iter_shrinks)

declare gen_struct_step.simps [simp del]

definition add_leaf ::
  "(bytes \<Rightarrow> bytes32) \<Rightarrow> hash_builder \<Rightarrow> bytes \<Rightarrow> bytes \<Rightarrow> hash_builder option" where
  "add_leaf keccak256 hb key value =
     map_option (\<lambda>hb. hb\<lparr>hb_key := key, hb_value := LeafValue value\<rparr>)
       (if hb_key hb \<noteq> [] then gen_struct_step keccak256 hb (hb_key hb) key False else Some hb)"

definition add_branch_node ::
  "(bytes \<Rightarrow> bytes32) \<Rightarrow> hash_builder \<Rightarrow> bytes \<Rightarrow> bytes32 \<Rightarrow> bool \<Rightarrow> hash_builder option" where
  "add_branch_node keccak256 hb nibbled_key hash is_in_db_trie =
     map_option (\<lambda>hb. hb\<lparr>hb_key := nibbled_key, hb_value := NodeHash hash,
                         hb_is_in_db_trie := is_in_db_trie\<rparr>)
       (if hb_key hb \<noteq> [] then gen_struct_step keccak256 hb (hb_key hb) nibbled_key False
        else if nibbled_key = [] then Some (hb\<lparr>hb_stack := hb_stack hb @ [wrap_hash hash]\<rparr>)
        else Some hb)"

definition hb_finalize :: "(bytes \<Rightarrow> bytes32) \<Rightarrow> hash_builder \<Rightarrow> hash_builder option" where
  "hb_finalize keccak256 hb =
     (if hb_key hb \<noteq> []
      then map_option (\<lambda>hb. hb\<lparr>hb_key := [], hb_value := LeafValue []\<rparr>)
             (gen_struct_step keccak256 hb (hb_key hb) [] False)
      else Some hb)"

definition hb_root_hash :: "(bytes \<Rightarrow> bytes32) \<Rightarrow> hash_builder \<Rightarrow> (bytes32 \<times> hash_builder) option" where
  "hb_root_hash keccak256 hb =
     map_option (\<lambda>hb. (stack_root_hash keccak256 hb, hb)) (hb_finalize keccak256 hb)"

end
