(* ===== verification/Merkle_Trie.thy ===== *)
theory Merkle_Trie
  imports Hash_Builder
begin

text \<open>
  The Modified Merkle Patricia Trie as a specification (Yellow Paper, appendix D), and the proof
  that the hash builder, a stack machine that sees the leaves one after the other, computes the
  hash of its root.
\<close>

section \<open>Specification\<close>

text \<open>The keys below a path, with that path stripped.\<close>

definition sub :: "(bytes \<times> bytes) list \<Rightarrow> bytes \<Rightarrow> (bytes \<times> bytes) list" where
  "sub kvs p = map (\<lambda>(k, v). (drop (length p) k, v)) (filter (\<lambda>(k, v). prefix p k) kvs)"

fun common_prefix :: "bytes list \<Rightarrow> bytes" where
  "common_prefix [] = []"
| "common_prefix [k] = k"
| "common_prefix (k # ks) = take (prefix_length k (common_prefix ks)) k"

text \<open>
  The RLP of the root node of the trie of a list of keys and values: a leaf for one key, an
  extension when all keys share a prefix, and otherwise a branch with one child per digit.
\<close>

function mpt :: "(bytes \<Rightarrow> bytes32) \<Rightarrow> (bytes \<times> bytes) list \<Rightarrow> bytes" where
  "mpt H kvs =
     (case kvs of
        [] \<Rightarrow> [kEmptyStringCode]
      | [(k, v)] \<Rightarrow> leaf_node_rlp k v
      | _ \<Rightarrow>
          let p = common_prefix (map fst kvs)
          in if p \<noteq> [] then extension_node_rlp p (node_ref H (mpt H (sub kvs p)))
             else branch_node_rlp
                    (map (\<lambda>i. if sub kvs [of_nat i] = [] then [kEmptyStringCode]
                              else node_ref H (mpt H (sub kvs [of_nat i]))) [0..<16]))"
  by pat_completeness auto

definition total_length :: "(bytes \<times> bytes) list \<Rightarrow> nat" where
  "total_length kvs = sum_list (map (length \<circ> fst) kvs)"

lemma total_length_sub:
  "sub kvs p \<noteq> [] \<Longrightarrow> p \<noteq> [] \<Longrightarrow> total_length (sub kvs p) < total_length kvs"
proof (induction kvs)
  case (Cons kv kvs)
  obtain k v where kv: "kv = (k, v)" by force
  show ?case
  proof (cases "prefix p k")
    case True
    then have "length (drop (length p) k) < length k"
      using Cons.prems(2) by (auto simp: prefix_def)
    moreover have "total_length (sub kvs p) \<le> total_length kvs"
      using Cons by (cases "sub kvs p = []") (auto simp: total_length_def)
    ultimately show ?thesis
      using True by (simp add: kv sub_def total_length_def)
  next
    case False
    then show ?thesis
      using Cons by (auto simp: kv sub_def total_length_def)
  qed
qed (simp add: sub_def)

lemma common_prefix_prefix: "k \<in> set ks \<Longrightarrow> prefix (common_prefix ks) k"
proof (induction ks rule: common_prefix.induct)
  case (3 k1 k2 ks)
  let ?c = "common_prefix (k2 # ks)"
  have "prefix (take (prefix_length k1 ?c) k1) ?c"
    by (subst take_prefix_length) (rule take_is_prefix)
  with 3 show ?case
    by (auto simp: take_is_prefix intro: prefix_order.trans)
qed auto

lemma sub_common_prefix: "kvs \<noteq> [] \<Longrightarrow> sub kvs (common_prefix (map fst kvs)) \<noteq> []"
  using common_prefix_prefix [of _ "map fst kvs"] by (cases kvs) (auto simp: sub_def)

lemma sub_common_prefix_Cons:
  "sub ((a, b) # (c, d) # r) (common_prefix (a # c # map fst r)) \<noteq> []"
  using sub_common_prefix [of "(a, b) # (c, d) # r"] by simp

termination mpt
  by (relation "measure (\<lambda>(H, kvs). total_length kvs)")
     (auto intro!: total_length_sub simp: sub_common_prefix_Cons simp del: common_prefix.simps)

declare mpt.simps [simp del]

text \<open>The root hash of the trie.\<close>

definition mpt_root :: "(bytes \<Rightarrow> bytes32) \<Rightarrow> (bytes \<times> bytes) list \<Rightarrow> bytes32" where
  "mpt_root H kvs = (if kvs = [] then kEmptyRoot else H (mpt H kvs))"

section \<open>The shape of the root node\<close>

lemma common_prefix_greatest:
  "ks \<noteq> [] \<Longrightarrow> \<forall>k \<in> set ks. prefix p k \<Longrightarrow> prefix p (common_prefix ks)"
proof (induction ks rule: common_prefix.induct)
  case (3 k1 k2 ks)
  let ?c = "common_prefix (k2 # ks)"
  have p: "prefix p k1" "prefix p ?c"
    using 3 by auto
  have "length p \<le> prefix_length (p @ x) (p @ y)" for x y
    by (induction p) auto
  then have "length p \<le> prefix_length k1 ?c"
    using p by (auto simp: prefix_def)
  then show ?case
    using p(1) by (auto simp: prefix_def)
qed auto

lemma mpt_single: "mpt H [(k, v)] = leaf_node_rlp k v"
  by (simp add: mpt.simps)

lemma sub_append: "sub (xs @ ys) p = sub xs p @ sub ys p"
  by (simp add: sub_def)

lemma sub_Nil [simp]: "sub kvs [] = kvs"
  by (simp add: sub_def)

lemma sub_sub: "sub (sub kvs p) q = sub kvs (p @ q)"
proof -
  have "prefix p k \<Longrightarrow> prefix q (drop (length p) k) \<longleftrightarrow> prefix (p @ q) k" for k
    by (auto simp: prefix_def)
  moreover have "prefix (p @ q) k \<Longrightarrow> prefix p k" for k
    by (auto simp: prefix_def)
  ultimately show ?thesis
    by (induction kvs) (auto simp: sub_def add.commute)
qed

lemma sub_eq_Nil_iff: "sub kvs p = [] \<longleftrightarrow> (\<forall>(k, v) \<in> set kvs. \<not> prefix p k)"
  by (auto simp: sub_def filter_empty_conv)

lemma in_sub: "(k, v) \<in> set (sub kvs p) \<longleftrightarrow> (p @ k, v) \<in> set kvs"
  by (force simp: sub_def prefix_def image_iff)

text \<open>Two keys that differ right after \<open>p\<close>, which all keys share.\<close>

definition branches_at :: "(bytes \<times> bytes) list \<Rightarrow> bytes \<Rightarrow> bool" where
  "branches_at kvs p \<longleftrightarrow>
     (\<forall>(k, v) \<in> set kvs. prefix p k) \<and>
     (\<exists>d e. d \<noteq> e \<and> sub kvs (p @ [d]) \<noteq> [] \<and> sub kvs (p @ [e]) \<noteq> [])"

lemma branches_at_common_prefix:
  assumes "branches_at kvs p"
  shows "common_prefix (map fst kvs) = p"
proof -
  let ?c = "common_prefix (map fst kvs)"
  obtain d e where de: "d \<noteq> e" "sub kvs (p @ [d]) \<noteq> []" "sub kvs (p @ [e]) \<noteq> []"
    using assms by (auto simp: branches_at_def)
  obtain k1 k2 where k: "k1 \<in> fst ` set kvs" "prefix (p @ [d]) k1" "k2 \<in> fst ` set kvs"
    "prefix (p @ [e]) k2"
    using de by (fastforce simp: sub_eq_Nil_iff)
  have "prefix p ?c"
    using assms k(1) by (intro common_prefix_greatest) (auto simp: branches_at_def)
  then obtain z where z: "?c = p @ z"
    by (auto simp: prefix_def)
  have none: "\<not> prefix (p @ [x]) ?c" for x
  proof
    assume "prefix (p @ [x]) ?c"
    then have "prefix (p @ [x]) k1" "prefix (p @ [x]) k2"
      using common_prefix_prefix [of k1 "map fst kvs"] common_prefix_prefix [of k2 "map fst kvs"]
        k(1,3) by (auto intro: prefix_order.trans)
    then show False
      using k de(1) by (auto simp: prefix_def)
  qed
  show ?thesis
    using z none [of "hd z"] by (cases z) auto
qed

lemma branches_at_two: "branches_at kvs p \<Longrightarrow> \<exists>a b c d r. kvs = (a, b) # (c, d) # r"
proof -
  assume "branches_at kvs p"
  then obtain d e where de: "d \<noteq> e" "sub kvs (p @ [d]) \<noteq> []" "sub kvs (p @ [e]) \<noteq> []"
    by (auto simp: branches_at_def)
  have "kvs \<noteq> []"
    using de(2) by (auto simp: sub_def)
  moreover have "kvs \<noteq> [(k, v)]" for k v
    using de by (auto simp: sub_def prefix_def split: if_splits)
  ultimately show ?thesis
    by (cases kvs; cases "tl kvs") auto
qed

definition branch_of :: "(bytes \<Rightarrow> bytes32) \<Rightarrow> (bytes \<times> bytes) list \<Rightarrow> bytes \<Rightarrow> bytes" where
  "branch_of H kvs p =
     branch_node_rlp (map (\<lambda>i. if sub kvs (p @ [of_nat i]) = [] then [kEmptyStringCode]
                               else node_ref H (mpt H (sub kvs (p @ [of_nat i])))) [0..<16])"

lemma mpt_branch:
  assumes "branches_at kvs []"
  shows "mpt H kvs = branch_of H kvs []"
  using branches_at_two [OF assms] branches_at_common_prefix [OF assms]
  unfolding branch_of_def append_Nil by (subst mpt.simps) (auto simp del: common_prefix.simps)

lemma mpt_extension:
  assumes "branches_at kvs p" "p \<noteq> []"
  shows "mpt H kvs = extension_node_rlp p (node_ref H (mpt H (sub kvs p)))"
  using branches_at_two [OF assms(1)] branches_at_common_prefix [OF assms(1)] assms(2)
  by (subst mpt.simps) (auto simp: Let_def simp del: common_prefix.simps)

lemma branches_at_sub: "branches_at kvs (p @ q) \<Longrightarrow> branches_at (sub kvs p) q"
  by (auto simp: branches_at_def sub_sub) (auto simp: sub_def prefix_def)

section \<open>Open prefix groups\<close>

text \<open>
  \<open>before k' k\<close>: the key \<open>k'\<close> comes before \<open>k\<close> and neither is a prefix of the other. This is what the
  builder asks of consecutive leaf keys.
\<close>

definition before :: "bytes \<Rightarrow> bytes \<Rightarrow> bool" where
  "before k' k \<longleftrightarrow>
     prefix_length k' k < length k' \<and> prefix_length k' k < length k \<and>
     k' ! prefix_length k' k < k ! prefix_length k' k"

text \<open>
  The builder has seen the leaves \<open>S\<close> and is about to take in the key \<open>k\<close>. At depth \<open>l\<close> on the path of \<open>k\<close>,
  the finished children are the digits below which \<open>S\<close> has keys, other than the digit of \<open>k\<close> itself.
\<close>

definition has_child :: "(bytes \<times> bytes) list \<Rightarrow> bytes \<Rightarrow> nat \<Rightarrow> byte \<Rightarrow> bool" where
  "has_child S k l d \<longleftrightarrow> d \<noteq> k ! l \<and> sub S (take l k @ [d]) \<noteq> []"

definition gmask :: "(bytes \<times> bytes) list \<Rightarrow> bytes \<Rightarrow> nat \<Rightarrow> u16" where
  "gmask S k l = horner_sum of_bool 2 (map (\<lambda>i. has_child S k l (of_nat i)) [0..<16])"

definition child :: "(bytes \<Rightarrow> bytes32) \<Rightarrow> (bytes \<times> bytes) list \<Rightarrow> bytes \<Rightarrow> nat \<Rightarrow> bytes" where
  "child H S p i = node_ref H (mpt H (sub S (p @ [of_nat i])))"

definition children :: "(bytes \<Rightarrow> bytes32) \<Rightarrow> (bytes \<times> bytes) list \<Rightarrow> bytes \<Rightarrow> nat \<Rightarrow> bytes list" where
  "children H S k l = map (child H S (take l k)) (filter (bit (gmask S k l)) [0..<16])"

definition base :: "(bytes \<Rightarrow> bytes32) \<Rightarrow> (bytes \<times> bytes) list \<Rightarrow> bytes \<Rightarrow> nat \<Rightarrow> bytes list" where
  "base H S k m = concat (map (children H S k) [0..<m])"

lemma bit_gmask: "bit (gmask S k l) i \<longleftrightarrow> i < 16 \<and> has_child S k l (of_nat i)"
  by (auto simp: gmask_def bit_horner_sum_bit_word_iff)

lemma prefix_length_diff: "d \<noteq> e \<Longrightarrow> prefix_length (p @ d # r) (p @ e # s) = length p"
  by (induction p) auto

lemma prefix_length_commute: "prefix_length a b = prefix_length b a"
  by (induction a b rule: prefix_length.induct) auto

lemma prefix_length_prefix: "prefix (take l k) k' \<Longrightarrow> l \<le> length k \<Longrightarrow> l \<le> prefix_length k' k"
proof (induction l arbitrary: k k')
  case (Suc l)
  then obtain x r where "k = x # r"
    by (cases k) auto
  with Suc show ?case
    by (cases k') auto
qed simp

lemma prefix_take_prefix_length: "l \<le> prefix_length k' k \<Longrightarrow> prefix (take l k) k'"
proof -
  assume "l \<le> prefix_length k' k"
  then have "take l k = take l (take (prefix_length k' k) k')"
    using take_prefix_length [of k' k] by (simp add: min_def)
  then show ?thesis
    by (metis take_is_prefix take_take)
qed

text \<open>A child at depth \<open>l\<close> is a key that leaves the path of \<open>k\<close> exactly there, below the digit of \<open>k\<close>.\<close>

lemma leaves_path:
  assumes "prefix (take l k @ [d]) k'" "d \<noteq> k ! l" "l < length k"
  shows "prefix_length k' k = l" "k' ! l = d" "l < length k'"
proof -
  obtain r where r: "k' = take l k @ d # r"
    using assms(1) by (auto simp: prefix_def)
  have k: "k = take l k @ k ! l # drop (Suc l) k"
    using assms(3) by (rule id_take_nth_drop)
  have "prefix_length k' (take l k @ k ! l # drop (Suc l) k) = length (take l k)"
    unfolding r by (rule prefix_length_diff [OF assms(2)])
  then show "prefix_length k' k = l"
    using assms(3) by (simp flip: k)
  show "k' ! l = d" "l < length k'"
    using assms(3) by (simp_all add: r nth_append)
qed

text \<open>The leaves \<open>S\<close> all come before the key \<open>k\<close>, and every key is a nibble string.\<close>

definition in_order :: "(bytes \<times> bytes) list \<Rightarrow> bytes \<Rightarrow> bool" where
  "in_order S k \<longleftrightarrow> (\<forall>(k', v') \<in> set S. before k' k \<and> nibbles k') \<and> nibbles k \<and> k \<noteq> []"

lemma in_orderD:
  assumes "in_order S k"
  shows "(k', v') \<in> set S \<Longrightarrow> before k' k" "(k', v') \<in> set S \<Longrightarrow> nibbles k'" "nibbles k" "k \<noteq> []"
  using assms by (auto simp: in_order_def)

lemma has_child_iff:
  assumes o: "in_order S k" and l: "l < length k"
  shows "has_child S k l d \<longleftrightarrow> (\<exists>k' v'. (k', v') \<in> set S \<and> prefix_length k' k = l \<and> k' ! l = d)"
proof
  assume "has_child S k l d"
  then obtain k' v' where "(k', v') \<in> set S" "prefix (take l k @ [d]) k'" "d \<noteq> k ! l"
    by (auto simp: has_child_def sub_eq_Nil_iff)
  then show "\<exists>k' v'. (k', v') \<in> set S \<and> prefix_length k' k = l \<and> k' ! l = d"
    using leaves_path [OF _ _ l] by blast
next
  assume "\<exists>k' v'. (k', v') \<in> set S \<and> prefix_length k' k = l \<and> k' ! l = d"
  then obtain k' v' where k': "(k', v') \<in> set S" "prefix_length k' k = l" "k' ! l = d"
    by blast
  have b: "l < length k'" "k' ! l < k ! l"
    using in_orderD(1) [OF o k'(1)] k'(2) by (auto simp: before_def)
  have "take l k @ [d] = take (Suc l) k'"
    using take_prefix_length [of k' k] k' b(1) by (simp add: take_Suc_conv_app_nth)
  then have "prefix (take l k @ [d]) k'"
    by (simp add: take_is_prefix)
  then show "has_child S k l d"
    using k' b by (auto simp: has_child_def sub_eq_Nil_iff)
qed

lemma has_child_digit:
  assumes o: "in_order S k" and l: "l < length k" and c: "has_child S k l d"
  shows "d < k ! l" "unat d < 16" "unat (k ! l) < 16"
proof -
  obtain k' v' where k': "(k', v') \<in> set S" "prefix_length k' k = l" "k' ! l = d"
    using c has_child_iff [OF o l] by blast
  then show d: "d < k ! l"
    using in_orderD(1) [OF o k'(1)] by (auto simp: before_def)
  show n: "unat (k ! l) < 16"
    using in_orderD(3) [OF o] l by (simp add: nibbles_def nibble_less_iff)
  show "unat d < 16"
    using d n by (simp add: word_less_nat_alt)
qed

lemma gmask_eq_0_iff:
  assumes o: "in_order S k" and l: "l < length k"
  shows "gmask S k l = 0 \<longleftrightarrow> (\<forall>k' v'. (k', v') \<in> set S \<longrightarrow> prefix_length k' k \<noteq> l)"
proof
  assume z: "gmask S k l = 0"
  show "\<forall>k' v'. (k', v') \<in> set S \<longrightarrow> prefix_length k' k \<noteq> l"
  proof (intro allI impI notI)
    fix k' v' assume k': "(k', v') \<in> set S" "prefix_length k' k = l"
    then have c: "has_child S k l (k' ! l)"
      using has_child_iff [OF o l] by blast
    then have "bit (gmask S k l) (unat (k' ! l))"
      using has_child_digit [OF o l c] by (simp add: bit_gmask)
    with z show False by simp
  qed
next
  assume "\<forall>k' v'. (k', v') \<in> set S \<longrightarrow> prefix_length k' k \<noteq> l"
  then have "\<not> has_child S k l d" for d
    using has_child_iff [OF o l] by blast
  then show "gmask S k l = 0"
    by (intro bit_eqI) (simp add: bit_gmask)
qed


text \<open>The new leaf \<open>(k, v)\<close>: no key of \<open>S\<close> shares more of \<open>k\<close> than the deepest open group.\<close>

lemma sub_new_leaf:
  assumes o: "in_order S k" and n: "n \<le> length k"
    and no: "\<And>l. n \<le> l \<Longrightarrow> l < length k \<Longrightarrow> gmask S k l = 0"
  shows "sub (S @ [(k, v)]) (take n k) = [(drop n k, v)]"
proof -
  have "\<not> prefix (take n k) k'" if "(k', v') \<in> set S" for k' v'
  proof
    assume "prefix (take n k) k'"
    then have "n \<le> prefix_length k' k"
      by (rule prefix_length_prefix [OF _ n])
    moreover have "prefix_length k' k < length k"
      using in_orderD(1) [OF o that] by (simp add: before_def)
    ultimately show False
      using no gmask_eq_0_iff [OF o] that by blast
  qed
  then have "sub S (take n k) = []"
    by (auto simp: sub_eq_Nil_iff)
  then show ?thesis
    using n by (simp add: sub_append) (simp add: sub_def take_is_prefix)
qed

text \<open>Without open groups between \<open>n\<close> and \<open>m\<close>, the keys below \<open>take n k\<close> all run through \<open>take m k\<close>.\<close>

lemma branches_below:
  assumes o: "in_order S k" and m: "n \<le> m" "m < length k" "gmask S k m \<noteq> 0"
    and no: "\<And>l. n \<le> l \<Longrightarrow> l < m \<Longrightarrow> gmask S k l = 0"
  shows "branches_at (sub (S @ [(k, v)]) (take n k)) (drop n (take m k))"
proof -
  have nm: "take n k @ drop n (take m k) = take m k"
    using m(1) by (metis append_take_drop_id min.absorb1 take_take)
  have through: "prefix (take m k) k'" if "(k', v') \<in> set (S @ [(k, v)])" "prefix (take n k) k'" for k' v'
  proof (cases "k' = k")
    case False
    then have s: "(k', v') \<in> set S"
      using that(1) by auto
    have "n \<le> prefix_length k' k"
      using m that(2) by (intro prefix_length_prefix) auto
    moreover have "\<not> prefix_length k' k < m"
      using no [of "prefix_length k' k"] gmask_eq_0_iff [OF o, of "prefix_length k' k"] s
        calculation m(2) by auto
    ultimately show ?thesis
      by (intro prefix_take_prefix_length) simp
  qed (simp add: take_is_prefix)
  have rest: "prefix (drop n (take m k)) k'" if "prefix (take m k) (take n k @ k')" for k'
    using that same_prefix_prefix [of "take n k" "drop n (take m k)" k'] by (simp only: nm)
  have all: "\<forall>(k', v') \<in> set (sub (S @ [(k, v)]) (take n k)). prefix (drop n (take m k)) k'"
  proof (clarsimp simp only: in_sub)
    fix k' v' assume "(take n k @ k', v') \<in> set (S @ [(k, v)])"
    then have "prefix (take m k) (take n k @ k')"
      by (rule through) simp
    then show "prefix (drop n (take m k)) k'"
      by (rule rest)
  qed
  obtain i where i: "i < 16" "has_child S k m (of_nat i)"
    using m(3) bit_gmask [of S k m] by (metis bit_eqI bit_0_eq bot_apply bot_bool_def)
  have "sub (S @ [(k, v)]) (take m k @ [of_nat i]) \<noteq> []" "of_nat i \<noteq> k ! m"
    using i(2) by (auto simp: has_child_def sub_append)
  moreover have "sub (S @ [(k, v)]) (take m k @ [k ! m]) \<noteq> []"
    using m(2) by (auto simp: sub_append sub_eq_Nil_iff take_is_prefix
        simp flip: take_Suc_conv_app_nth)
  ultimately show ?thesis
    using all unfolding branches_at_def sub_sub append_assoc [symmetric] nm by blast
qed

section \<open>Closing a group\<close>

lemma other_digit: "l < length (k :: bytes) \<Longrightarrow> d \<noteq> k ! l \<Longrightarrow> \<not> prefix (take l k @ [d]) k"
  using leaves_path(2) [of l k d k] by auto

lemma filter_upt_snoc:
  assumes "i < n" "\<And>j. P j \<Longrightarrow> j < i"
  shows "filter (\<lambda>j. P j \<or> j = i) [0..<n] = filter P [0..<n] @ [i]"
proof -
  have "[0..<n] = [0..<i] @ i # [Suc i..<n]"
    using assms(1) upt_conv_Cons [of i n] upt_add_eq_append [of 0 i "n - i"] by simp
  moreover have "filter (\<lambda>j. P j \<or> j = i) [0..<i] = filter P [0..<i]"
    by (rule filter_cong) auto
  moreover have "filter (\<lambda>j. P j \<or> j = i) [Suc i..<n] = []" "filter P (i # [Suc i..<n]) = []"
    using assms(2) by (fastforce simp: filter_empty_conv)+
  ultimately show ?thesis
    by simp
qed

lemma bit_digit_flag: "unat d < 16 \<Longrightarrow> bit (digit_flag d) i \<longleftrightarrow> i = unat d"
  by (auto simp: digit_flag_def bit_exp_iff possible_bit_def)

lemma child_keep:
  assumes "l < length k" "bit (gmask S k l) i"
  shows "child H (S @ [(k, v)]) (take l k) i = child H S (take l k) i"
proof -
  have "of_nat i \<noteq> k ! l"
    using assms(2) by (simp add: bit_gmask has_child_def)
  then have "\<not> prefix (take l k @ [of_nat i]) k"
    by (rule other_digit [OF assms(1)])
  then show ?thesis
    by (simp add: child_def sub_append) (simp add: sub_def)
qed

text \<open>The children of the group with the digit of \<open>k\<close> added, in digit order.\<close>

lemma children_snoc:
  assumes o: "in_order S k" and l: "l < length k"
  shows "filter (bit (gmask S k l OR digit_flag (k ! l))) [0..<16] =
           filter (bit (gmask S k l)) [0..<16] @ [unat (k ! l)]"
    and "map (child H (S @ [(k, v)]) (take l k)) (filter (bit (gmask S k l OR digit_flag (k ! l))) [0..<16]) =
           children H S k l @ [node_ref H (mpt H (sub (S @ [(k, v)]) (take (Suc l) k)))]"
proof -
  have n: "unat (k ! l) < 16"
    using in_orderD(3) [OF o] l by (simp add: nibbles_def nibble_less_iff)
  have lt: "i < unat (k ! l)" if "bit (gmask S k l) i" for i
    using that has_child_digit(1) [OF o l, of "of_nat i"]
    by (auto simp: bit_gmask word_less_nat_alt)
  have "filter (bit (gmask S k l OR digit_flag (k ! l))) [0..<16] =
      filter (\<lambda>i. bit (gmask S k l) i \<or> i = unat (k ! l)) [0..<16]"
    by (intro filter_cong) (auto simp: bit_or_iff bit_digit_flag [OF n])
  also have "\<dots> = filter (bit (gmask S k l)) [0..<16] @ [unat (k ! l)]"
    by (rule filter_upt_snoc [OF n lt])
  finally show f: "filter (bit (gmask S k l OR digit_flag (k ! l))) [0..<16] =
      filter (bit (gmask S k l)) [0..<16] @ [unat (k ! l)]" .
  note child_keep [OF l]
  moreover have "child H (S @ [(k, v)]) (take l k) (unat (k ! l)) =
      node_ref H (mpt H (sub (S @ [(k, v)]) (take (Suc l) k)))"
    using l by (simp add: child_def take_Suc_conv_app_nth)
  ultimately show "map (child H (S @ [(k, v)]) (take l k)) (filter (bit (gmask S k l OR digit_flag (k ! l))) [0..<16]) =
      children H S k l @ [node_ref H (mpt H (sub (S @ [(k, v)]) (take (Suc l) k)))]"
    unfolding f by (simp add: children_def)
qed

lemma branch_items_filter:
  "branch_items g ds (map f (filter (bit g) ds)) =
     map (\<lambda>i. if bit g i then f i else [kEmptyStringCode]) ds"
  by (induction ds) auto

text \<open>The branch node built from those children is the root of the keys below \<open>take l k\<close>.\<close>

lemma branch_closed:
  assumes o: "in_order S k" and l: "l < length k" and g: "gmask S k l \<noteq> 0"
  shows "branch_node_rlp (branch_items (gmask S k l OR digit_flag (k ! l)) [0..<16]
           (children H S k l @ [node_ref H (mpt H (sub (S @ [(k, v)]) (take (Suc l) k)))])) =
         mpt H (sub (S @ [(k, v)]) (take l k))"
proof -
  let ?S = "S @ [(k, v)]"
  have n: "unat (k ! l) < 16"
    using in_orderD(3) [OF o] l by (simp add: nibbles_def nibble_less_iff)
  have "bit (gmask S k l OR digit_flag (k ! l)) i \<longleftrightarrow> sub ?S (take l k @ [of_nat i]) \<noteq> []"
    if "i < 16" for i
  proof (cases "i = unat (k ! l)")
    case True
    then show ?thesis
      using n l by (auto simp: bit_or_iff bit_digit_flag sub_append sub_eq_Nil_iff take_is_prefix
          simp flip: take_Suc_conv_app_nth)
  next
    case False
    have d: "of_nat i \<noteq> k ! l"
    proof
      assume "of_nat i = k ! l"
      then have "unat (k ! l) = i mod 256"
        by (metis unat_of_nat_byte)
      with that False show False by simp
    qed
    moreover have "sub [(k, v)] (take l k @ [of_nat i]) = []"
      using other_digit [OF l d] by (simp add: sub_def)
    ultimately show ?thesis
      using False n that by (simp add: bit_or_iff bit_digit_flag bit_gmask has_child_def sub_append)
  qed
  then have "branch_node_rlp (map (\<lambda>i. if bit (gmask S k l OR digit_flag (k ! l)) i
        then child H ?S (take l k) i else [kEmptyStringCode]) [0..<16]) = branch_of H (sub ?S (take l k)) []"
    by (auto simp: branch_of_def sub_sub child_def intro!: arg_cong [of _ _ branch_node_rlp])
  also have "\<dots> = mpt H (sub ?S (take l k))"
    using branches_below [OF o order.refl l g, of v] by (intro mpt_branch [symmetric]) simp
  finally show ?thesis
    unfolding children_snoc(2) [OF o l, symmetric] branch_items_filter .
qed

end
