(* ===== verification/Trie_Refinement.thy ===== *)
theory Trie_Refinement
  imports Merkle_Trie
begin

text \<open>
  The hash builder refines the trie specification: the state of the stack machine between two
  leaves is a function of the leaves seen so far and the next key, each iteration of
  \<open>gen_struct_step\<close> preserves it, and at the end the only stack item refers to the root node.
\<close>

section \<open>Prefix groups as a list\<close>

lemma pop_zero_groups_Nil [simp]: "pop_zero_groups [] = []"
  by (simp add: pop_zero_groups_def)

lemma pop_zero_groups_snoc [simp]:
  "pop_zero_groups (gs @ [g]) = (if g = 0 then pop_zero_groups gs else gs @ [g])"
  by (simp add: pop_zero_groups_def)

lemma pop_zero_groups_split: "\<exists>j. gs = pop_zero_groups gs @ replicate j 0"
proof (induction gs rule: rev_induct)
  case (snoc g gs)
  then obtain j where j: "pop_zero_groups gs @ replicate j 0 = gs"
    by metis
  show ?case
  proof (cases "g = 0")
    case True
    have "gs @ [g] = (pop_zero_groups gs @ replicate j 0) @ [0]"
      using j True by simp
    also have "\<dots> = pop_zero_groups gs @ replicate (Suc j) 0"
      by (simp add: replicate_append_same)
    finally have "gs @ [g] = pop_zero_groups gs @ replicate (Suc j) 0" .
    then show ?thesis
      unfolding pop_zero_groups_snoc using True by (auto intro: exI [of _ "Suc j"])
  qed (auto intro: exI [of _ 0])
qed simp

lemma pop_zero_groups_last: "pop_zero_groups gs \<noteq> [] \<Longrightarrow> last (pop_zero_groups gs) \<noteq> 0"
  by (induction gs rule: rev_induct) (auto split: if_splits)

lemma pop_zero_groups_replicate [simp]:
  "pop_zero_groups (gs @ replicate n 0) = pop_zero_groups gs"
  by (induction n) (simp_all add: replicate_append_same [symmetric] flip: append_assoc)

definition groups_of :: "(bytes \<times> bytes) list \<Rightarrow> bytes \<Rightarrow> nat \<Rightarrow> u16 list" where
  "groups_of S k m = pop_zero_groups (map (gmask S k) [0..<m])"

text \<open>The open groups of the first \<open>m\<close> digits: no group from \<open>length\<close> on, and the last one is not empty.\<close>

lemma groups_of_cases:
  obtains (none) "groups_of S k m = []" "\<And>l. l < m \<Longrightarrow> gmask S k l = 0"
  | (some) p where "p < m" "groups_of S k m = map (gmask S k) [0..<Suc p]" "gmask S k p \<noteq> 0"
      "\<And>l. p < l \<Longrightarrow> l < m \<Longrightarrow> gmask S k l = 0"
proof -
  obtain j where j: "map (gmask S k) [0..<m] = groups_of S k m @ replicate j 0"
    using pop_zero_groups_split unfolding groups_of_def by blast
  let ?n = "length (groups_of S k m)"
  have len: "?n + j = m"
    using arg_cong [OF j, of length] by simp
  have zero: "gmask S k l = 0" if "?n \<le> l" "l < m" for l
    using arg_cong [OF j, of "\<lambda>xs. xs ! l"] that len by (simp add: nth_append)
  have low: "groups_of S k m = map (gmask S k) [0..<?n]"
    using arg_cong [OF j, of "take ?n"] len by (simp add: take_map)
  show ?thesis
  proof (cases "groups_of S k m = []")
    case True
    then show ?thesis using none zero by simp
  next
    case False
    then have n: "Suc (?n - 1) = ?n"
      by simp
    have "last (groups_of S k m) = gmask S k (?n - 1)"
      using False by (subst low) (simp add: last_map)
    then have "gmask S k (?n - 1) \<noteq> 0"
      using False pop_zero_groups_last [of "map (gmask S k) [0..<m]"] by (simp add: groups_of_def)
    moreover have "?n - 1 < m"
      using False len by (metis add_lessD1 diff_less length_greater_0_conv less_add_eq_less less_imp_diff_less le_add1 le_neq_implies_less less_le_trans zero_less_one)
    ultimately show ?thesis
      using some [of "?n - 1"] low n zero by fastforce
  qed
qed

section \<open>The stack between two leaves\<close>

lemma children_0 [simp]: "gmask S k l = 0 \<Longrightarrow> children H S k l = []"
  by (simp add: children_def)

lemma base_0 [simp]: "base H S k 0 = []"
  by (simp add: base_def)

lemma base_Suc: "base H S k (Suc m) = base H S k m @ children H S k m"
  by (simp add: base_def)

lemma base_zero_above:
  assumes "n \<le> m" "\<And>l. n \<le> l \<Longrightarrow> l < m \<Longrightarrow> gmask S k l = 0"
  shows "base H S k m = base H S k n"
proof -
  have "concat (map (children H S k) [n..<m]) = []"
    using assms(2) by auto
  then show ?thesis
    using assms(1) upt_add_eq_append [of 0 n "m - n"] by (simp add: base_def)
qed

text \<open>
  The next key \<open>s\<close> leaves the path of \<open>k\<close> at depth \<open>c\<close>. Above \<open>c\<close> nothing changes, at \<open>c\<close> the subtrie of \<open>k\<close>
  becomes a child, and below \<open>c\<close> the path of \<open>s\<close> is fresh.
\<close>

lemma before_path:
  assumes "before k s"
  defines "c \<equiv> prefix_length s k"
  shows "c < length k" "c < length s" "take c s = take c k" "k ! c < s ! c"
  using assms take_prefix_length [of s k] by (auto simp: before_def prefix_length_commute)

lemma sub_leaf_off_path:
  "l < length k \<Longrightarrow> d \<noteq> k ! l \<Longrightarrow> sub [(k, v)] (take l k @ [d]) = []"
  using other_digit [of l k d] by (simp add: sub_def)

lemma next_key_before: "in_order (S @ [(k, v)]) s \<Longrightarrow> before k s"
  by (simp add: in_order_def)

lemma gmask_above:
  assumes b: "before k s" and l: "l < prefix_length s k"
  shows "gmask (S @ [(k, v)]) s l = gmask S k l"
    and "children H (S @ [(k, v)]) s l = children H S k l"
proof -
  have p: "take l s = take l k" "s ! l = k ! l" "l < length k"
    using before_path [OF b] l by (metis min.absorb1 less_imp_le take_take, metis nth_take, simp)
  have "has_child (S @ [(k, v)]) s l d \<longleftrightarrow> has_child S k l d" for d
    using sub_leaf_off_path [OF p(3), of d v] by (auto simp: has_child_def p sub_append)
  then show g: "gmask (S @ [(k, v)]) s l = gmask S k l"
    by (simp add: gmask_def)
  show "children H (S @ [(k, v)]) s l = children H S k l"
    using child_keep [OF p(3)] by (auto simp: children_def g p)
qed

lemma gmask_below:
  assumes o: "in_order S k" and b: "before k s" and l: "prefix_length s k < l" "l < length s"
  shows "gmask (S @ [(k, v)]) s l = 0"
proof -
  note p = before_path [OF b]
  let ?c = "prefix_length s k"
  have off: "\<not> prefix (take l s) k'" if "(k', v') \<in> set (S @ [(k, v)])" for k' v'
  proof
    assume "prefix (take l s) k'"
    then have "prefix (take (Suc ?c) s) k'"
      using l by (meson prefix_order.trans Suc_leI take_is_prefix prefix_length_prefix
          prefix_take_prefix_length less_imp_le order.trans)
    then have "prefix (take ?c k @ [s ! ?c]) k'"
      using p(2,3) by (simp add: take_Suc_conv_app_nth)
    then have "prefix_length k' k = ?c" "k' ! ?c = s ! ?c"
      using p leaves_path by (metis order.strict_implies_not_eq)+
    moreover have "k' = k \<or> before k' k"
      using that in_orderD(1) [OF o] by auto
    ultimately show False
      using p(1,4) by (auto simp: before_def)
  qed
  then have "\<not> has_child (S @ [(k, v)]) s l d" for d
    by (auto simp: has_child_def sub_eq_Nil_iff simp del: set_append dest!: append_prefixD)
  then show ?thesis
    by (intro bit_eqI) (simp add: bit_gmask)
qed

lemma gmask_at:
  assumes o: "in_order S k" and b: "before k s"
  defines "c \<equiv> prefix_length s k"
  shows "gmask (S @ [(k, v)]) s c = gmask S k c OR digit_flag (k ! c)"
    and "children H (S @ [(k, v)]) s c =
           children H S k c @ [node_ref H (mpt H (sub (S @ [(k, v)]) (take (Suc c) k)))]"
proof -
  note p = before_path [OF b, folded c_def]
  have n: "unat (k ! c) < 16"
    using in_orderD(3) [OF o] p(1) by (simp add: nibbles_def nibble_less_iff)
  have h: "has_child (S @ [(k, v)]) s c d \<longleftrightarrow> has_child S k c d \<or> d = k ! c" for d
  proof (cases "d = k ! c")
    case True
    then show ?thesis
      using p by (auto simp: has_child_def sub_append sub_eq_Nil_iff take_is_prefix
          simp flip: take_Suc_conv_app_nth)
  next
    case False
    have "has_child S k c d \<Longrightarrow> d \<noteq> s ! c"
      using has_child_digit(1) [OF o p(1)] p(4) by force
    then show ?thesis
      using False sub_leaf_off_path [OF p(1) False, of v]
      by (auto simp: has_child_def sub_append p(3))
  qed
  show g: "gmask (S @ [(k, v)]) s c = gmask S k c OR digit_flag (k ! c)"
  proof (intro bit_eqI)
    fix i
    have "i < 16 \<Longrightarrow> (of_nat i :: byte) = k ! c \<longleftrightarrow> i = unat (k ! c)"
      by (simp add: word_unat_eq_iff)
    then show "bit (gmask (S @ [(k, v)]) s c) i = bit (gmask S k c OR digit_flag (k ! c)) i"
      using n by (auto simp: bit_gmask h bit_or_iff bit_digit_flag)
  qed
  show "children H (S @ [(k, v)]) s c =
      children H S k c @ [node_ref H (mpt H (sub (S @ [(k, v)]) (take (Suc c) k)))]"
    using children_snoc(2) [OF o p(1)] by (simp add: children_def g p(3))
qed

text \<open>The builder's state for the next key, from what the step left behind.\<close>

lemma next_state:
  assumes o: "in_order S k" and b: "before k s"
  defines "c \<equiv> prefix_length s k"
  shows "groups_of (S @ [(k, v)]) s (length s) =
           map (gmask S k) [0..<c] @ [gmask S k c OR digit_flag (k ! c)]"
    and "base H (S @ [(k, v)]) s (length s) =
           base H S k c @ children H S k c @ [node_ref H (mpt H (sub (S @ [(k, v)]) (take (Suc c) k)))]"
proof -
  let ?S = "S @ [(k, v)]"
  note p = before_path [OF b, folded c_def]
  have n: "unat (k ! c) < 16"
    using in_orderD(3) [OF o] p(1) by (simp add: nibbles_def nibble_less_iff)
  have "length s = Suc c + (length s - Suc c)"
    using p(2) by simp
  then have u: "[0..<length s] = [0..<c] @ [c] @ [Suc c..<length s]"
    by (metis append.assoc le_add1 upt_Suc_append upt_add_eq_append zero_le)
  have low: "map (gmask ?S s) [0..<c] = map (gmask S k) [0..<c]"
    "map (children H ?S s) [0..<c] = map (children H S k) [0..<c]"
    using gmask_above [OF b] by (auto simp: c_def)
  have zero: "map (gmask ?S s) [Suc c..<length s] = replicate (length s - Suc c) 0"
    using gmask_below [OF o b] by (intro replicate_eqI) (auto simp: c_def)
  have "bit (gmask S k c OR digit_flag (k ! c)) (unat (k ! c))"
    using n by (simp add: bit_or_iff bit_digit_flag)
  then have nz: "gmask S k c OR digit_flag (k ! c) \<noteq> 0"
    by force
  show "groups_of ?S s (length s) = map (gmask S k) [0..<c] @ [gmask S k c OR digit_flag (k ! c)]"
    using nz pop_zero_groups_replicate [of "map (gmask S k) [0..<c] @ [gmask S k c OR digit_flag (k ! c)]"]
    by (simp add: groups_of_def u low zero gmask_at(1) [OF o b, folded c_def])
  have b0: "base H ?S s c = base H S k c"
    unfolding base_def low(2) ..
  have "base H ?S s (length s) = base H ?S s (Suc c)"
    using gmask_below [OF o b] p(2) by (intro base_zero_above) (auto simp: c_def)
  then show "base H ?S s (length s) =
      base H S k c @ children H S k c @ [node_ref H (mpt H (sub ?S (take (Suc c) k)))]"
    using gmask_at(2) [OF o b, folded c_def] b0 by (simp add: base_Suc)
qed

section \<open>What the operations do to the groups and the stack\<close>

lemma collect_rlp_simps [simp]:
  "hb_groups (collect_rlp rlp hb) = hb_groups hb" "hb_stack (collect_rlp rlp hb) = hb_stack hb"
  "hb_value (collect_rlp rlp hb) = hb_value hb" "hb_key (collect_rlp rlp hb) = hb_key hb"
  "hb_tree_masks (collect_rlp rlp hb) = hb_tree_masks hb"
  "hb_hash_masks (collect_rlp rlp hb) = hb_hash_masks hb"
  by (simp_all add: collect_rlp_def)

lemma push_value_simps [simp]:
  "hb_groups (push_value H current snk hb) = hb_groups hb"
  "hb_value (push_value H current snk hb) = hb_value hb"
  "hb_value hb = LeafValue v \<Longrightarrow>
     hb_stack (push_value H current snk hb) = hb_stack hb @ [node_ref H (leaf_node_rlp snk v)]"
  by (auto simp: push_value_def Let_def split: hb_value.split)

lemma add_extension_simps [simp]:
  "hb_groups (add_extension H current from snk hb) = hb_groups hb"
  "hb_value (add_extension H current from snk hb) = hb_value hb"
  "hb_stack (add_extension H current from snk hb) =
     butlast (hb_stack hb) @ [node_ref H (extension_node_rlp snk (last (hb_stack hb)))]"
  by (auto simp: add_extension_def Let_def)

lemma register_branch_simps [simp]:
  "hb_groups (register_branch H current len cs hb) = hb_groups hb"
  "hb_value (register_branch H current len cs hb) = hb_value hb"
  "hb_stack (register_branch H current len cs hb) = hb_stack hb"
  by (auto simp: register_branch_def Let_def)

lemma open_group_groups:
  "hb_groups (open_group H hb current len from build_extensions) =
     or_at (if length (hb_groups hb) \<le> len then resize (len + 1) (hb_groups hb) else hb_groups hb)
       len (digit_flag (current ! len))"
  by (auto simp: open_group_def Let_def)

lemma open_group_value [simp]:
  "hb_value (open_group H hb current len from build_extensions) = hb_value hb"
  by (auto simp: open_group_def Let_def)

lemma open_group_stack:
  assumes "hb_value hb = LeafValue v"
  shows "hb_stack (open_group H hb current len from build_extensions) =
     (if \<not> build_extensions then hb_stack hb @ [node_ref H (leaf_node_rlp (drop from current) v)]
      else if drop from current = [] then hb_stack hb
      else butlast (hb_stack hb) @
             [node_ref H (extension_node_rlp (drop from current) (last (hb_stack hb)))])"
  using assms by (simp add: open_group_def Let_def)

text \<open>Closing the group of \<open>len\<close>, whose children are the top of the stack.\<close>

lemma close_group_branch:
  assumes "hb_stack hb = below @ cs" "length cs = popcount (hb_groups hb ! len)"
  shows "\<exists>hb'. close_group H hb current len True = Some hb' \<and> hb_value hb' = hb_value hb \<and>
           hb_groups hb' = resize len (hb_groups hb) \<and>
           hb_stack hb' = below @ [node_ref H (branch_node_rlp (branch_items (hb_groups hb ! len) [0..<16] cs))]"
  using assms by (auto simp: close_group_def branch_ref_def Let_def)

lemma close_group_none:
  "\<exists>hb'. close_group H hb current len False = Some hb' \<and> hb_value hb' = hb_value hb \<and>
         hb_groups hb' = resize len (hb_groups hb) \<and> hb_stack hb' = hb_stack hb"
  by (simp add: close_group_def)

text \<open>The groups after the digit of \<open>k\<close> is registered in the group of \<open>len\<close>.\<close>

lemma opened_groups:
  assumes "n \<le> Suc len" "\<And>l. n \<le> l \<Longrightarrow> l \<le> len \<Longrightarrow> f l = 0"
  shows "or_at (if n \<le> len then resize (len + 1) (map f [0..<n]) else map f [0..<n]) len g =
           map f [0..<len] @ [f len OR g]"
proof -
  have "(if n \<le> len then resize (len + 1) (map f [0..<n]) else map f [0..<n]) = map f [0..<Suc len]"
  proof (cases "n \<le> len")
    case True
    have "map f [n..<Suc len] = replicate (Suc len - n) 0"
      using assms(2) by (intro replicate_eqI) (auto simp del: upt_Suc)
    moreover have "[0..<Suc len] = [0..<n] @ [n..<Suc len]"
      using True upt_add_eq_append [of 0 n "Suc len - n"] by (simp del: upt_Suc)
    ultimately have "map f [0..<Suc len] = map f [0..<n] @ replicate (Suc len - n) 0"
      by (simp del: upt_Suc)
    then show ?thesis
      using True by (simp add: resize_def del: upt_Suc)
  next
    case False
    then show ?thesis
      using assms(1) by (simp add: le_Suc_eq del: upt_Suc)
  qed
  then show ?thesis
    by (simp add: or_at_def nth_append list_update_append)
qed

section \<open>One iteration\<close>

text \<open>
  The builder inside the step from \<open>k\<close> to the next key, with the first \<open>m\<close> digits of \<open>k\<close> left: on the first
  iteration the value of \<open>k\<close> is still to be pushed, later the node below \<open>take m k\<close> is on the stack.
\<close>

definition step_inv ::
  "(bytes \<Rightarrow> bytes32) \<Rightarrow> (bytes \<times> bytes) list \<Rightarrow> bytes \<Rightarrow> bytes \<Rightarrow> nat \<Rightarrow> bool \<Rightarrow> hash_builder \<Rightarrow> bool" where
  "step_inv H S k v m build_extensions hb \<longleftrightarrow>
     hb_value hb = LeafValue v \<and> 0 < m \<and> hb_groups hb = groups_of S k m \<and>
     (if build_extensions
      then m < length k \<and> gmask S k m \<noteq> 0 \<and>
           hb_stack hb = base H S k m @ [node_ref H (mpt H (sub (S @ [(k, v)]) (take m k)))]
      else m = length k \<and> hb_stack hb = base H S k m)"

definition step_done ::
  "(bytes \<Rightarrow> bytes32) \<Rightarrow> (bytes \<times> bytes) list \<Rightarrow> bytes \<Rightarrow> hash_builder \<Rightarrow> bool" where
  "step_done H S s hb \<longleftrightarrow>
     (if s = [] then hb_stack hb = [node_ref H (mpt H S)]
      else hb_groups hb = groups_of S s (length s) \<and> hb_stack hb = base H S s (length s))"

lemma opened_stack:
  assumes o: "in_order S k" and i: "step_inv H S k v m build_extensions hb"
    and from_le: "from \<le> m" and no: "\<And>l. from \<le> l \<Longrightarrow> l < m \<Longrightarrow> gmask S k l = 0"
  shows "hb_stack (open_group H hb (take m k) len from build_extensions) =
           base H S k from @ [node_ref H (mpt H (sub (S @ [(k, v)]) (take from k)))]"
proof -
  have val: "hb_value hb = LeafValue v"
    using i by (simp add: step_inv_def)
  have b: "base H S k m = base H S k from"
    using from_le no by (rule base_zero_above)
  show ?thesis
  proof (cases "build_extensions \<and> from < m")
    case True
    then have m: "m < length k" "gmask S k m \<noteq> 0"
      and st: "hb_stack hb = base H S k m @ [node_ref H (mpt H (sub (S @ [(k, v)]) (take m k)))]"
      using i by (auto simp: step_inv_def)
    let ?p = "drop from (take m k)"
    have p: "?p \<noteq> []" "take from k @ ?p = take m k"
      using True m(1) by (auto, metis append_take_drop_id from_le min.absorb1 take_take)
    have "mpt H (sub (S @ [(k, v)]) (take from k)) =
        extension_node_rlp ?p (node_ref H (mpt H (sub (S @ [(k, v)]) (take m k))))"
      using mpt_extension [OF branches_below [OF o from_le m no] p(1), of H v] by (simp add: sub_sub p(2))
    then show ?thesis
      using True p(1) by (simp add: open_group_stack [OF val] st b)
  next
    case False
    show ?thesis
    proof (cases build_extensions)
      case True
      with False from_le have "from = m"
        by simp
      then show ?thesis
        using True i by (simp add: open_group_stack [OF val]) (simp add: step_inv_def)
    next
      case nb: False
      then have "m = length k" "hb_stack hb = base H S k m"
        using i by (auto simp: step_inv_def)
      then show ?thesis
        using nb sub_new_leaf [OF o, of "from" v] from_le no b
        by (simp add: open_group_stack [OF val] mpt_single)
    qed
  qed
qed

lemma prefix_length_take: "prefix_length s k < m \<Longrightarrow> prefix_length s (take m k) = prefix_length s k"
proof (induction s k arbitrary: m rule: prefix_length.induct)
  case (1 x a y b)
  then show ?case by (cases m) (auto split: if_splits)
qed (auto simp: take_Cons split: nat.splits)

text \<open>The group of \<open>k\<close> and \<open>s\<close> is opened and the step returns.\<close>

lemma opened_done:
  assumes o: "in_order S k" and b: "before k s" and i: "step_inv H S k v m build_extensions hb"
    and c: "prefix_length s k < m"
    and n: "hb_groups hb = map (gmask S k) [0..<n]" "n \<le> Suc (prefix_length s k)"
    and no: "\<And>l. n \<le> l \<Longrightarrow> l < m \<Longrightarrow> gmask S k l = 0"
  shows "step_done H (S @ [(k, v)]) s
           (open_group H hb (take m k) (prefix_length s k) (prefix_length s k + 1) build_extensions)"
proof -
  let ?c = "prefix_length s k"
  let ?hb = "open_group H hb (take m k) ?c (?c + 1) build_extensions"
  have "hb_groups ?hb = map (gmask S k) [0..<?c] @ [gmask S k ?c OR digit_flag (k ! ?c)]"
  proof -
    have "hb_groups ?hb = or_at (if n \<le> ?c then resize (?c + 1) (map (gmask S k) [0..<n])
        else map (gmask S k) [0..<n]) ?c (digit_flag (k ! ?c))"
      using c n(1) by (simp add: open_group_groups)
    then show ?thesis
      using opened_groups [of n ?c "gmask S k" "digit_flag (k ! ?c)"] n(2) no c by simp
  qed
  moreover have "hb_stack ?hb = base H S k (Suc ?c) @ [node_ref H (mpt H (sub (S @ [(k, v)]) (take (Suc ?c) k)))]"
    using opened_stack [OF o i, of "Suc ?c" ?c] c n(2) no by simp
  moreover have "s \<noteq> []"
    using before_path(2) [OF b] by auto
  ultimately show ?thesis
    using next_state(1) [OF o b, of v] next_state(2) [OF o b, of H v] by (simp add: step_done_def base_Suc)
qed

text \<open>The deepest open group \<open>p\<close> is closed: its branch node replaces its children on the stack.\<close>

lemma opened_closed:
  assumes o: "in_order S k" and i: "step_inv H S k v m build_extensions hb"
    and p: "p < m" "hb_groups hb = map (gmask S k) [0..<Suc p]" "gmask S k p \<noteq> 0"
    and no: "\<And>l. p < l \<Longrightarrow> l < m \<Longrightarrow> gmask S k l = 0"
  shows "\<exists>hb'. close_group H (open_group H hb (take m k) p (p + 1) build_extensions) (take m k) p True =
             Some hb' \<and> hb_value hb' = LeafValue v \<and> hb_groups hb' = map (gmask S k) [0..<p] \<and>
           hb_stack hb' = base H S k p @ [node_ref H (mpt H (sub (S @ [(k, v)]) (take p k)))]"
proof -
  let ?hb = "open_group H hb (take m k) p (p + 1) build_extensions"
  let ?g = "gmask S k p OR digit_flag (k ! p)"
  let ?x = "node_ref H (mpt H (sub (S @ [(k, v)]) (take (Suc p) k)))"
  have pk: "p < length k"
    using i p(1) by (auto simp: step_inv_def split: if_splits)
  have g: "hb_groups ?hb = map (gmask S k) [0..<p] @ [?g]"
    using opened_groups [of "Suc p" p "gmask S k" "digit_flag (k ! p)"] p
    by (simp add: open_group_groups del: upt_Suc)
  then have gp: "hb_groups ?hb ! p = ?g" "resize p (hb_groups ?hb) = map (gmask S k) [0..<p]"
    by (simp_all add: nth_append resize_def)
  have st: "hb_stack ?hb = base H S k p @ (children H S k p @ [?x])"
    using opened_stack [OF o i, of "Suc p" p] p(1) no by (simp add: base_Suc)
  have "length (children H S k p @ [?x]) = popcount ?g"
    using children_snoc(1) [OF o pk] by (simp add: popcount_def children_def)
  then show ?thesis
    using close_group_branch [OF st, of p H "take m k"] i branch_closed [OF o pk p(3), of H v]
    unfolding gp by (simp add: step_inv_def)
qed

lemma gen_struct_iter_step:
  assumes o: "in_order S k" and i: "step_inv H S k v m build_extensions hb"
    and s: "s \<noteq> [] \<Longrightarrow> before k s \<and> prefix_length s k < m"
  shows "(\<exists>hb'. gen_struct_iter H hb (take m k) s build_extensions = Some (hb', None) \<and>
             step_done H (S @ [(k, v)]) s hb') \<or>
         (\<exists>hb' p. gen_struct_iter H hb (take m k) s build_extensions = Some (hb', Some p) \<and> p < m \<and>
             step_inv H S k v p True hb' \<and> (s \<noteq> [] \<longrightarrow> prefix_length s k < p))"
proof -
  let ?c = "prefix_length s k"
  have m: "0 < m" "m \<le> length k" and gr: "hb_groups hb = groups_of S k m"
    using i by (auto simp: step_inv_def split: if_splits)
  have c: "prefix_length s (take m k) = ?c"
    using s prefix_length_take by (cases "s = []") auto
  show ?thesis
  proof (rule groups_of_cases [of S k m], goal_cases)
    case none: 1
    show ?thesis
    proof (cases "s = []")
      case True
      let ?hb = "open_group H hb (take m k) 0 0 build_extensions"
      have "hb_stack ?hb = [node_ref H (mpt H (S @ [(k, v)]))]"
        using opened_stack [OF o i, of 0 0] none(2) by simp
      then show ?thesis
        using True none(1) gr m c close_group_none [of H ?hb "take m k" 0]
        by (auto simp: gen_struct_iter_def preceding_len_def step_done_def)
    next
      case False
      then show ?thesis
        using opened_done [OF o _ i, of s 0] s none gr m c
        by (auto simp: gen_struct_iter_def preceding_len_def Let_def)
    qed
  next
    case some: (2 p)
    have pre: "preceding_len hb = p" "hb_groups hb \<noteq> []"
      using some(2) gr by (auto simp: preceding_len_def)
    show ?thesis
    proof (cases "p \<le> ?c \<and> s \<noteq> []")
      case True
      then have "step_done H (S @ [(k, v)]) s (open_group H hb (take m k) ?c (?c + 1) build_extensions)"
        using s some gr by (intro opened_done [OF o _ i, of _ "Suc p"]) auto
      then show ?thesis
        using True s pre m c by (auto simp: gen_struct_iter_def max_def Let_def)
    next
      case False
      have len: "max p (prefix_length s (take m k)) = p"
        using False c by auto
      obtain hb' where hb': "close_group H (open_group H hb (take m k) p (p + 1) build_extensions)
            (take m k) p True = Some hb'" "hb_value hb' = LeafValue v"
          "hb_groups hb' = map (gmask S k) [0..<p]"
          "hb_stack hb' = base H S k p @ [node_ref H (mpt H (sub (S @ [(k, v)]) (take p k)))]"
        using opened_closed [OF o i some(1) _ some(3,4)] some(2) gr by auto
      have it: "gen_struct_iter H hb (take m k) s build_extensions =
          (if p = 0 then Some (hb', None)
           else Some (hb'\<lparr>hb_groups := pop_zero_groups (hb_groups hb')\<rparr>, Some p))"
        using False pre m some(1) hb'(1) c unfolding gen_struct_iter_def Let_def pre len by auto
      show ?thesis
      proof (cases "p = 0")
        case True
        then show ?thesis
          using it hb' False by (auto simp: step_done_def)
      next
        case pos: False
        then show ?thesis
          using it hb' False some m by (auto simp: step_inv_def groups_of_def)
      qed
    qed
  qed
qed

section \<open>Steps and leaves\<close>

lemma gen_struct_step_done:
  assumes o: "in_order S k"
  shows "step_inv H S k v m build_extensions hb \<Longrightarrow>
         (s \<noteq> [] \<Longrightarrow> before k s \<and> prefix_length s k < m) \<Longrightarrow>
         \<exists>hb'. gen_struct_step H hb (take m k) s build_extensions = Some hb' \<and>
               step_done H (S @ [(k, v)]) s hb'"
proof (induction m arbitrary: hb build_extensions rule: less_induct)
  case (less m)
  consider hb' where "gen_struct_iter H hb (take m k) s build_extensions = Some (hb', None)"
      "step_done H (S @ [(k, v)]) s hb'"
    | hb' p where "gen_struct_iter H hb (take m k) s build_extensions = Some (hb', Some p)" "p < m"
      "step_inv H S k v p True hb'" "s \<noteq> [] \<longrightarrow> prefix_length s k < p"
    using gen_struct_iter_step [OF o less.prems] by blast
  then show ?case
  proof cases
    case 1
    then show ?thesis
      by (subst gen_struct_step.simps) simp
  next
    case 2
    then have "\<exists>hb''. gen_struct_step H hb' (take p k) s True = Some hb'' \<and>
        step_done H (S @ [(k, v)]) s hb''"
      using less.IH [of p True hb'] less.prems(2) by blast
    then show ?thesis
      using 2(1,2) by (subst gen_struct_step.simps) (simp add: min_def)
  qed
qed

text \<open>The loop of every caller that builds a trie from leaves.\<close>

fun add_leaves :: "(bytes \<Rightarrow> bytes32) \<Rightarrow> hash_builder \<Rightarrow> (bytes \<times> bytes) list \<Rightarrow> hash_builder option" where
  "add_leaves keccak256 hb [] = Some hb"
| "add_leaves keccak256 hb ((key, value) # kvs) =
     (case add_leaf keccak256 hb key value of
        None \<Rightarrow> None
      | Some hb \<Rightarrow> add_leaves keccak256 hb kvs)"

definition leaves_inv :: "(bytes \<Rightarrow> bytes32) \<Rightarrow> (bytes \<times> bytes) list \<Rightarrow> hash_builder \<Rightarrow> bool" where
  "leaves_inv H kvs hb \<longleftrightarrow>
     (if kvs = [] then hb_key hb = [] \<and> hb_groups hb = [] \<and> hb_stack hb = []
      else hb_key hb = fst (last kvs) \<and> in_order (butlast kvs) (fst (last kvs)) \<and>
           step_inv H (butlast kvs) (fst (last kvs)) (snd (last kvs)) (length (hb_key hb)) False hb)"

lemma add_leaf_inv:
  assumes i: "leaves_inv H kvs hb" and o: "in_order kvs key"
  shows "\<exists>hb'. add_leaf H hb key value = Some hb' \<and> leaves_inv H (kvs @ [(key, value)]) hb'"
proof (cases "kvs = []")
  case True
  have "gmask [] key l = 0" for l
    by (intro bit_eqI) (simp add: bit_gmask has_child_def sub_def)
  then have "groups_of [] key n = []" "base H [] key n = []" for n
    by (auto simp: groups_of_def base_def pop_zero_groups_def)
  then show ?thesis
    using True i o in_orderD(4) [OF o] by (simp add: leaves_inv_def add_leaf_def step_inv_def)
next
  case False
  obtain S k v where kvs: "kvs = S @ [(k, v)]"
    using False by (metis append_butlast_last_id surj_pair)
  have k: "hb_key hb = k" "in_order S k" "step_inv H S k v (length k) False hb"
    using i by (auto simp: kvs leaves_inv_def)
  have b: "before k key"
    using o by (auto simp: kvs in_order_def)
  obtain hb' where hb': "gen_struct_step H hb k key False = Some hb'" "step_done H (S @ [(k, v)]) key hb'"
    using gen_struct_step_done [OF k(2,3), of key] b before_path(1) [OF b] by auto
  have "k \<noteq> []" "key \<noteq> []"
    using in_orderD(4) [OF k(2)] in_orderD(4) [OF o] by auto
  then show ?thesis
    using hb' k o by (simp add: kvs add_leaf_def leaves_inv_def step_inv_def step_done_def butlast_append)
qed

lemma add_leaves_inv:
  assumes "leaves_inv H kvs hb"
    "\<And>pre key value post. kvs' = pre @ (key, value) # post \<Longrightarrow> in_order (kvs @ pre) key"
  shows "\<exists>hb'. add_leaves H hb kvs' = Some hb' \<and> leaves_inv H (kvs @ kvs') hb'"
  using assms
proof (induction kvs' arbitrary: kvs hb)
  case (Cons kv kvs')
  obtain key val where kv: "kv = (key, val)" by force
  obtain hb1 where hb1: "add_leaf H hb key val = Some hb1" "leaves_inv H (kvs @ [(key, val)]) hb1"
    using add_leaf_inv [OF Cons.prems(1)] Cons.prems(2) [of "[]"] kv by fastforce
  have "\<exists>hb'. add_leaves H hb1 kvs' = Some hb' \<and> leaves_inv H ((kvs @ [(key, val)]) @ kvs') hb'"
    using hb1(2) Cons.prems(2) [of "(key, val) # _"] kv by (intro Cons.IH) auto
  then show ?case
    using hb1(1) by (simp add: kv)
qed simp

lemma stack_root_hash_node_ref:
  assumes "\<And>x. length (H x) = 32" "hb_stack hb = [node_ref H rlp]"
  shows "stack_root_hash H hb = H rlp"
  using assms by (auto simp: stack_root_hash_def node_ref_def wrap_hash_def kHashLength_def)

lemma hb_root_hash_leaves:
  assumes H: "\<And>x. length (H x) = 32" and i: "leaves_inv H kvs hb"
  shows "\<exists>hb'. hb_root_hash H hb = Some (mpt_root H kvs, hb')"
proof (cases "kvs = []")
  case True
  then show ?thesis
    using i by (simp add: leaves_inv_def hb_root_hash_def hb_finalize_def mpt_root_def stack_root_hash_def)
next
  case False
  obtain S k v where kvs: "kvs = S @ [(k, v)]"
    using False by (metis append_butlast_last_id surj_pair)
  have k: "hb_key hb = k" "in_order S k" "step_inv H S k v (length k) False hb"
    using i by (auto simp: kvs leaves_inv_def)
  obtain hb' where "gen_struct_step H hb k [] False = Some hb'" "hb_stack hb' = [node_ref H (mpt H kvs)]"
    using gen_struct_step_done [OF k(2,3), of "[]"] by (auto simp: step_done_def kvs)
  then show ?thesis
    using False k(1) in_orderD(4) [OF k(2)]
    by (simp add: hb_root_hash_def hb_finalize_def mpt_root_def stack_root_hash_node_ref [OF H])
qed

section \<open>The refinement theorem\<close>

text \<open>
  What the callers guarantee: keys are non-empty nibble strings in strictly increasing order, and no
  key is a proper prefix of another.
\<close>

definition trie_keys :: "bytes list \<Rightarrow> bool" where
  "trie_keys ks \<longleftrightarrow>
     sorted_wrt (<) ks \<and> (\<forall>k \<in> set ks. k \<noteq> [] \<and> nibbles k) \<and>
     (\<forall>k \<in> set ks. \<forall>k' \<in> set ks. prefix k k' \<longrightarrow> k = k')"

lemma before_less: "(k :: bytes) < k' \<Longrightarrow> \<not> prefix k k' \<Longrightarrow> before k k'"
proof -
  assume "k < k'" and "\<not> prefix k k'"
  have "(k, k') \<in> lexord {(u, v). u < v}"
    using \<open>k < k'\<close> by (simp add: list_less_def)
  then obtain u a b x y where "a < b" "k = u @ a # x" "k' = u @ b # y"
    using \<open>\<not> prefix k k'\<close> unfolding lexord_def by (auto simp: prefix_def)
  then show ?thesis
    using prefix_length_diff [of a b u x y] by (auto simp: before_def)
qed

definition leaf_order :: "(bytes \<times> bytes) list \<Rightarrow> bool" where
  "leaf_order kvs \<longleftrightarrow> sorted_wrt before (map fst kvs) \<and> (\<forall>(k, v) \<in> set kvs. k \<noteq> [] \<and> nibbles k)"

lemma trie_keys_leaf_order:
  assumes "trie_keys (map fst kvs)"
  shows "leaf_order kvs"
proof -
  have ks: "\<forall>k \<in> set (map fst kvs). k \<noteq> [] \<and> nibbles k"
    and free: "\<forall>k \<in> set (map fst kvs). \<forall>k' \<in> set (map fst kvs). prefix k k' \<longrightarrow> k = k'"
    and srt: "sorted_wrt (<) (map fst kvs)"
    using assms unfolding trie_keys_def by blast+
  have "sorted_wrt before (map fst kvs)"
    using srt
  proof (rule sorted_wrt_mono_rel [rotated])
    fix k k' assume k: "k \<in> set (map fst kvs)" "k' \<in> set (map fst kvs)" "k < k'"
    then have "\<not> prefix k k'"
      using free by blast
    with k(3) show "before k k'"
      by (rule before_less)
  qed
  then show ?thesis
    using ks unfolding leaf_order_def by fastforce
qed

lemma leaf_order_in_order:
  assumes "leaf_order (pre @ (key, value) # post)"
  shows "in_order pre key"
  using assms by (auto simp: leaf_order_def in_order_def sorted_wrt_append sorted_wrt_map)

lemma add_leaves_root:
  assumes "leaf_order kvs" "\<And>x. length (H x) = 32"
  shows "\<exists>hb hb'. add_leaves H (hb_reset hb0) kvs = Some hb \<and> hb_root_hash H hb = Some (mpt_root H kvs, hb')"
proof -
  have "leaves_inv H [] (hb_reset hb0)"
    by (simp add: leaves_inv_def hb_reset_def)
  moreover have "in_order pre key" if "kvs = pre @ (key, val) # post" for pre key val post
    using assms(1) leaf_order_in_order unfolding that by blast
  ultimately obtain hb where "add_leaves H (hb_reset hb0) kvs = Some hb" "leaves_inv H kvs hb"
    using add_leaves_inv [of H "[]" "hb_reset hb0" kvs] by auto
  then show ?thesis
    using hb_root_hash_leaves [of H kvs hb] assms(2) by blast
qed

text \<open>
  C9: fed with the leaves of a trie in key order, a new (or a reset) hash builder never reads outside
  its stack or its current key, and \<open>root_hash\<close> returns the root hash of the Modified Merkle Patricia Trie
  of those leaves.
\<close>

theorem hash_builder_root:
  assumes "trie_keys (map fst kvs)" "\<forall>x. length (keccak256 x) = 32"
  shows "\<exists>hb hb'. add_leaves keccak256 (hb_reset hb0) kvs = Some hb \<and>
           hb_root_hash keccak256 hb = Some (mpt_root keccak256 kvs, hb')"
  using add_leaves_root trie_keys_leaf_order assms by blast

text \<open>Three keys, two of which share a prefix: the builder goes through a branch below an extension.\<close>

theorem hash_builder_root_witness:
  "\<exists>hb hb'. add_leaves (\<lambda>x. replicate 32 0) (hb_reset (hb_new True False))
                [([1, 2, 3], [9]), ([1, 2, 4], [8]), ([5, 6], [7])] = Some hb \<and>
     hb_root_hash (\<lambda>x. replicate 32 0) hb =
       Some (mpt_root (\<lambda>x. replicate 32 0) [([1, 2, 3], [9]), ([1, 2, 4], [8]), ([5, 6], [7])], hb')"
proof (rule hash_builder_root)
  show "trie_keys (map fst [([1, 2, 3], [9]), ([1, 2, 4], [8]), ([5, 6], [7 :: byte])])"
    by (simp add: trie_keys_def nibbles_def)
qed simp

end
