(* ===== verification/Vector_Root.thy ===== *)
theory Vector_Root
  imports Trie_Refinement Block "HOL-Library.Multiset"
begin

text \<open>
  The root hash of a vector (trie/vector_root.hpp): a trie whose keys are the RLP of the indices.
  The loop visits the indices in the order of their encodings, so that the builder gets sorted keys;
  the result is the root of the trie of all entries, whatever order they are listed in.
\<close>

section \<open>The trie does not depend on the order of its entries\<close>

lemma mset_sub: "mset kvs = mset kvs' \<Longrightarrow> mset (sub kvs p) = mset (sub kvs' p)"
  by (simp add: sub_def)

lemma common_prefix_set:
  assumes "set ks = set ks'" "ks \<noteq> []"
  shows "common_prefix ks = common_prefix ks'"
proof -
  have ne: "ks' \<noteq> []"
    using assms by auto
  have "prefix (common_prefix ks) (common_prefix ks')" "prefix (common_prefix ks') (common_prefix ks)"
    using common_prefix_prefix common_prefix_greatest assms ne by metis+
  then show ?thesis
    by (rule prefix_order.antisym)
qed

lemma mpt_mset: "mset kvs = mset kvs' \<Longrightarrow> mpt H kvs = mpt H kvs'"
proof (induction "total_length kvs" arbitrary: kvs kvs' rule: less_induct)
  case less
  have IH: "mpt H (sub kvs p) = mpt H (sub kvs' p)" if "p \<noteq> []" "sub kvs p \<noteq> []" for p
    using less.hyps total_length_sub [OF that(2,1)] mset_sub [OF less.prems] by blast
  have nil: "sub kvs p = [] \<longleftrightarrow> sub kvs' p = []" for p
    using mset_sub [OF less.prems, of p] by (metis mset_zero_iff)
  consider "kvs = []" | k v where "kvs = [(k, v)]" | a b c d r where "kvs = (a, b) # (c, d) # r"
    by (metis list.exhaust surj_pair)
  then show ?case
  proof cases
    case 3
    have "length kvs' = length kvs"
      using less.prems by (metis size_mset)
    then obtain a' b' c' d' r' where two: "kvs' = (a', b') # (c', d') # r'"
      using 3 by (cases kvs'; cases "tl kvs'") auto
    let ?p = "common_prefix (map fst kvs)"
    have "set (map fst kvs) = set (map fst kvs')"
      using mset_eq_setD [OF less.prems] by simp
    then have p: "common_prefix (map fst kvs') = ?p"
      using 3 by (metis common_prefix_set list.discI list.map_disc_iff)
    have "sub kvs ?p \<noteq> []"
      using 3 by (intro sub_common_prefix) simp
    have unfold: "mpt H kvs = (if ?p \<noteq> [] then extension_node_rlp ?p (node_ref H (mpt H (sub kvs ?p)))
             else branch_node_rlp (map (\<lambda>i. if sub kvs [of_nat i] = [] then [kEmptyStringCode]
                                             else node_ref H (mpt H (sub kvs [of_nat i]))) [0..<16]))"
      "mpt H kvs' = (if ?p \<noteq> [] then extension_node_rlp ?p (node_ref H (mpt H (sub kvs' ?p)))
             else branch_node_rlp (map (\<lambda>i. if sub kvs' [of_nat i] = [] then [kEmptyStringCode]
                                             else node_ref H (mpt H (sub kvs' [of_nat i]))) [0..<16]))"
      using p by (subst mpt.simps, simp add: 3 two Let_def del: common_prefix.simps)+
    show ?thesis
      unfolding unfold using IH \<open>sub kvs ?p \<noteq> []\<close>
      by (auto simp: nil intro!: arg_cong [of _ _ branch_node_rlp])
  qed (use less.prems in auto)
qed

lemma mpt_root_mset: "mset kvs = mset kvs' \<Longrightarrow> mpt_root H kvs = mpt_root H kvs'"
  using mpt_mset [of kvs kvs' H] by (metis mpt_root_def mset_zero_iff)

section \<open>The code\<close>

definition adjust_index_for_rlp :: "nat \<Rightarrow> nat \<Rightarrow> nat" where
  "adjust_index_for_rlp i len =
     (if i > 0x7f then i else if i = 0x7f \<or> i + 1 = len then 0 else i + 1)"

text \<open>\<open>size_t\<close> indices are encoded as 64-bit integers.\<close>

definition index_key :: "nat \<Rightarrow> bytes" where
  "index_key index = unpack_nibbles (encode_uint (of_nat index :: u64))"

definition vector_root :: "(bytes \<Rightarrow> bytes32) \<Rightarrow> ('a \<Rightarrow> bytes) \<Rightarrow> 'a list \<Rightarrow> bytes32 option" where
  "vector_root keccak256 value_encoder v =
     Option.bind
       (add_leaves keccak256 (hb_new False False)
          (map (\<lambda>j. let index = adjust_index_for_rlp j (length v)
                    in (index_key index, value_encoder (v ! index))) [0..<length v]))
       (\<lambda>hb. map_option fst (hb_root_hash keccak256 hb))"

section \<open>The order of the keys\<close>

lemma before_iff: "before a b \<longleftrightarrow> (\<exists>u x y x' y'. a = u @ x # y \<and> b = u @ x' # y' \<and> x < x')"
proof
  assume "before a b"
  then show "\<exists>u x y x' y'. a = u @ x # y \<and> b = u @ x' # y' \<and> x < x'"
    unfolding before_def by (metis id_take_nth_drop take_prefix_length)
next
  assume "\<exists>u x y x' y'. a = u @ x # y \<and> b = u @ x' # y' \<and> x < x'"
  then show "before a b"
    using prefix_length_diff by (fastforce simp: before_def)
qed

lemma before_Cons: "before (x # a) (y # b) \<longleftrightarrow> x < y \<or> x = y \<and> before a b"
  by (auto simp: before_def)

lemma unpack_nibbles_append: "unpack_nibbles (a @ b) = unpack_nibbles a @ unpack_nibbles b"
  by (simp add: unpack_nibbles_eq)

lemma before_append: "before (u @ a) (u @ b) \<longleftrightarrow> before a b"
  by (induction u) (auto simp: before_Cons)

lemma before_unpack: "before a b \<Longrightarrow> before (unpack_nibbles a) (unpack_nibbles b)"
proof -
  assume "before a b"
  then obtain u x y x' y' where ab: "a = u @ x # y" "b = u @ x' # y'" "x < x'"
    by (auto simp: before_iff)
  have "unat x div 16 < unat x' div 16 \<or> unat x div 16 = unat x' div 16 \<and> unat x mod 16 < unat x' mod 16"
    using ab(3) unfolding word_less_nat_alt by (metis div_mult_mod_eq div_le_mono less_imp_le
        le_neq_implies_less nat_add_left_cancel_less)
  then have "drop_bit 4 x < drop_bit 4 x' \<or> drop_bit 4 x = drop_bit 4 x' \<and> x AND 0x0F < x' AND 0x0F"
    by (simp add: word_less_nat_alt word_unat_eq_iff unat_and_0F unat_high_nibble)
  then show ?thesis
    by (auto simp: ab unpack_nibbles_append before_append before_Cons)
qed

lemma before_be_nat: "length a = length b \<Longrightarrow> be_nat a < be_nat b \<Longrightarrow> before a b"
proof (induction a b rule: list_induct2)
  case (Cons x a y b)
  consider "x < y" | "x = y" | "y < x" by force
  then show ?case
  proof cases
    case 3
    then have "Suc (unat y) * 256 ^ length a \<le> unat x * 256 ^ length a"
      by (intro mult_right_mono) (auto simp: word_less_nat_alt)
    then have "be_nat (y # b) < be_nat (x # a)"
      using be_nat_bound [of b] Cons.hyps by (simp add: be_nat_Cons)
    with Cons.prems show ?thesis by simp
  qed (use Cons in \<open>auto simp: be_nat_Cons before_Cons\<close>)
qed simp

lemma encode_index:
  assumes "n < 2 ^ 64"
  shows "encode_uint (of_nat n :: u64) =
           (if n = 0 then [0x80] else if n < 0x80 then [of_nat n]
            else (0x80 + of_nat (sig_bytes n)) # be_compact n)"
proof -
  have u: "unat (of_nat n :: u64) = n"
    using assms by (simp add: unat_of_nat)
  have e: "encode_uint (of_nat n :: u64) = encode_bytes (be_compact n)"
    by (simp add: encode_uint_via_bytes u)
  show ?thesis
  proof (cases "n < 256")
    case True
    then have "be_compact n = (if n = 0 then [] else [of_nat n])"
      by (simp add: be_compact_def sig_bytes.simps)
    moreover have "(of_nat n :: byte) \<ge> 0x80 \<longleftrightarrow> n \<ge> 0x80"
      using True by (simp add: word_le_nat_alt)
    ultimately show ?thesis
      using True by (auto simp: e encode_bytes_def encode_header_def rlp_codes sig_bytes_pos)
  next
    case False
    then have "\<not> sig_bytes n \<le> 1" "sig_bytes n \<le> 8"
      unfolding sig_bytes_le_iff using assms by simp_all
    then show ?thesis
      using False by (auto simp: e encode_bytes_def encode_header_def rlp_codes)
  qed
qed

text \<open>The comment of \<open>adjust_index_for_rlp\<close>: natural order, except that 0 goes between 0x7f and 0x80.\<close>

definition rlp_order :: "nat \<Rightarrow> nat" where
  "rlp_order n = (if n = 0 then 0x7f else if n < 0x80 then n - 1 else n)"

lemma before_index:
  assumes "rlp_order m < rlp_order n" "m < 2 ^ 64" "n < 2 ^ 64"
  shows "before (encode_uint (of_nat m :: u64)) (encode_uint (of_nat n :: u64))"
proof -
  have small: "(of_nat i :: byte) < 0x80" if "i < 0x80" for i
    using that by (simp add: word_less_nat_alt)
  have len: "unat (0x80 + of_nat (sig_bytes i) :: byte) = 0x80 + sig_bytes i"
    if "i < 2 ^ 64" for i
  proof -
    have "sig_bytes i \<le> 8"
      using that by (simp add: sig_bytes_le_iff)
    then show ?thesis
      by (simp add: unat_word_ariths)
  qed
  consider "m < 0x80" "n < 0x80" | "m < 0x80" "0x80 \<le> n" | "0x80 \<le> m" "0x80 \<le> n" "m < n"
    using assms(1) by (cases "m < 0x80"; cases "n < 0x80") (auto simp: rlp_order_def split: if_splits)
  then show ?thesis
  proof cases
    case 1
    then show ?thesis
      using assms small [of m] by (auto simp: encode_index before_Cons rlp_order_def word_less_nat_alt split: if_splits)
  next
    case 2
    have "0 < sig_bytes n"
      using 2 by (simp add: sig_bytes_pos)
    then have "(0x80 :: byte) < 0x80 + of_nat (sig_bytes n)"
      using len [OF assms(3)] by (simp add: word_less_nat_alt)
    then show ?thesis
      using 2 assms(2,3) small [of m] by (auto simp: encode_index before_Cons)
  next
    case 3
    have le: "sig_bytes m \<le> sig_bytes n"
      using 3(3) less_power_sig_bytes [of n] by (simp add: sig_bytes_le_iff)
    show ?thesis
    proof (cases "sig_bytes m = sig_bytes n")
      case True
      then have "before (be_compact m) (be_compact n)"
        using 3(3) by (intro before_be_nat) auto
      then show ?thesis
        using 3 assms(2,3) True by (auto simp: encode_index before_Cons)
    next
      case False
      then have "(0x80 :: byte) + of_nat (sig_bytes m) < 0x80 + of_nat (sig_bytes n)"
        using le len assms(2,3) by (simp add: word_less_nat_alt)
      then show ?thesis
        using 3 assms(2,3) by (auto simp: encode_index before_Cons)
    qed
  qed
qed

lemma adjust_index_order:
  "j < len \<Longrightarrow> adjust_index_for_rlp j len < len"
  "j < j' \<Longrightarrow> j' < len \<Longrightarrow>
     rlp_order (adjust_index_for_rlp j len) < rlp_order (adjust_index_for_rlp j' len)"
  by (auto simp: adjust_index_for_rlp_def rlp_order_def)

lemma adjust_index_inj: "inj_on (\<lambda>j. adjust_index_for_rlp j len) {0..<len}"
proof (rule linorder_inj_onI')
  fix i j assume "i \<in> {0..<len}" "j \<in> {0..<len}" "i < j"
  then show "adjust_index_for_rlp i len \<noteq> adjust_index_for_rlp j len"
    using adjust_index_order(2) [of i j len] by auto
qed

lemma adjust_index_mset: "mset (map (\<lambda>j. adjust_index_for_rlp j len) [0..<len]) = mset [0..<len]"
proof -
  have "distinct (map (\<lambda>j. adjust_index_for_rlp j len) [0..<len])"
    using adjust_index_inj by (simp add: distinct_map)
  moreover have "set (map (\<lambda>j. adjust_index_for_rlp j len) [0..<len]) = set [0..<len]"
    using adjust_index_order(1) by (auto intro!: endo_inj_surj [OF _ _ adjust_index_inj, THEN equalityD2, THEN subsetD])
  ultimately show ?thesis
    by (metis distinct_upt set_eq_iff_mset_eq_distinct)
qed

section \<open>The root of a vector\<close>

text \<open>The trie of a vector: every index with its value.\<close>

definition vector_trie :: "('a \<Rightarrow> bytes) \<Rightarrow> 'a list \<Rightarrow> (bytes \<times> bytes) list" where
  "vector_trie value_encoder v = map (\<lambda>i. (index_key i, value_encoder (v ! i))) [0..<length v]"

lemma vector_root_eq:
  assumes v: "length v \<le> 2 ^ 64" and H: "\<And>x. length (H x) = 32"
  shows "vector_root H value_encoder v = Some (mpt_root H (vector_trie value_encoder v))"
proof -
  let ?n = "length v"
  let ?leaf = "\<lambda>i. (index_key i, value_encoder (v ! i))"
  let ?leaves = "map (\<lambda>j. ?leaf (adjust_index_for_rlp j ?n)) [0..<?n]"
  have small: "adjust_index_for_rlp j ?n < 2 ^ 64" if "j < ?n" for j
    using adjust_index_order(1) [OF that] v by linarith
  have bef: "before (index_key (adjust_index_for_rlp j ?n)) (index_key (adjust_index_for_rlp j' ?n))"
    if "j < j'" "j' < ?n" for j j'
    unfolding index_key_def
    using adjust_index_order(2) [OF that] small [of j] small [of j'] that
    by (intro before_unpack before_index) simp_all
  have "sorted_wrt (\<lambda>j j'. before (index_key (adjust_index_for_rlp j ?n)) (index_key (adjust_index_for_rlp j' ?n))) [0..<?n]"
    by (rule sorted_wrt_mono_rel [OF _ sorted_wrt_upt]) (simp add: bef)
  moreover have "index_key i \<noteq> []" "nibbles (index_key i)" for i
    unfolding index_key_def by (simp_all flip: length_greater_0_conv)
  ultimately have o: "leaf_order ?leaves"
    by (auto simp: leaf_order_def sorted_wrt_map)
  have "mset ?leaves = mset (vector_trie value_encoder v)"
    using arg_cong [OF adjust_index_mset [of ?n], of "image_mset ?leaf"]
    by (simp add: vector_trie_def image_mset.compositionality comp_def)
  then have r: "mpt_root H ?leaves = mpt_root H (vector_trie value_encoder v)"
    by (rule mpt_root_mset)
  have "hb_reset (hb_new False False) = hb_new False False"
    by (simp add: hb_reset_def hb_new_def)
  then show ?thesis
    using add_leaves_root [OF o, of H "hb_new False False"] H by (auto simp: vector_root_def Let_def r)
qed

section \<open>The roots of a block body\<close>

text \<open>\<open>compute_transaction_root\<close>, \<open>compute_withdrawals_root\<close> and \<open>compute_ommers_hash\<close> of protocol/validation.cpp.\<close>

definition compute_transaction_root :: "(bytes \<Rightarrow> bytes32) \<Rightarrow> block_body \<Rightarrow> bytes32 option" where
  "compute_transaction_root keccak256 body =
     (let txns = transactions body
      in if \<not> list_all (\<lambda>txn. tx_rlp_encoded txn \<noteq> []) txns
         then vector_root keccak256 (\<lambda>txn. encode_transaction txn False) txns
         else Option.bind
                (add_leaves keccak256 (hb_new False False)
                   (map (\<lambda>j. let index = adjust_index_for_rlp j (length txns)
                             in (index_key index, tx_rlp_encoded (txns ! index))) [0..<length txns]))
                (\<lambda>hb. map_option fst (hb_root_hash keccak256 hb)))"

definition compute_withdrawals_root :: "(bytes \<Rightarrow> bytes32) \<Rightarrow> block_body \<Rightarrow> bytes32 option option" where
  "compute_withdrawals_root keccak256 body =
     (case withdrawals body of
        None \<Rightarrow> None
      | Some ws \<Rightarrow> Some (vector_root keccak256 encode_withdrawal ws))"

definition kEmptyListHash :: bytes32 where
  "kEmptyListHash =
     [0x1d, 0xcc, 0x4d, 0xe8, 0xde, 0xc7, 0x5d, 0x7a, 0xab, 0x85, 0xb5, 0x67, 0xb6, 0xcc, 0xd4, 0x1a,
      0xd3, 0x12, 0x45, 0x1b, 0x94, 0x8a, 0x74, 0x13, 0xf0, 0xa1, 0x42, 0xfd, 0x40, 0xd4, 0x93, 0x47]"

definition compute_ommers_hash :: "(bytes \<Rightarrow> bytes32) \<Rightarrow> block_body \<Rightarrow> bytes32" where
  "compute_ommers_hash keccak256 body =
     (if ommers body = [] then kEmptyListHash else keccak256 (encode_ommers (ommers body)))"

lemma compute_transaction_root_decoded:
  assumes "\<forall>t \<in> set (transactions body). tx_rlp_encoded t = encode_transaction t False"
  shows "compute_transaction_root H body =
           vector_root H (\<lambda>t. encode_transaction t False) (transactions body)"
proof -
  let ?n = "length (transactions body)"
  have eq: "map (\<lambda>j. (index_key (adjust_index_for_rlp j ?n),
               tx_rlp_encoded (transactions body ! adjust_index_for_rlp j ?n))) [0..<?n] =
      map (\<lambda>j. (index_key (adjust_index_for_rlp j ?n),
               encode_transaction (transactions body ! adjust_index_for_rlp j ?n) False)) [0..<?n]"
    using assms adjust_index_order(1) [of _ ?n] by simp
  show ?thesis
    unfolding compute_transaction_root_def vector_root_def Let_def eq by simp
qed

lemma valid_vector_length:
  assumes "valid_vector valid len v" "\<And>x. valid x \<Longrightarrow> 0 < len x"
  shows "length v \<le> 2 ^ 64"
proof -
  have "\<forall>x \<in> set v. 0 < len x"
    using assms by (auto simp: valid_vector_def)
  then have "length v \<le> length_items len v"
    by (induction v rule: rev_induct) (auto simp: length_items_def Suc_le_eq add_strict_mono add_le_less_mono)
  then show ?thesis
    using assms(1) by (simp add: valid_vector_def)
qed

lemma decoded_body:
  assumes "decode_block_body from mode = Inr (body, rest)"
  shows "\<forall>t \<in> set (transactions body). tx_rlp_encoded t = encode_transaction t False"
    and "length (transactions body) \<le> 2 ^ 64"
    and "\<And>ws. withdrawals body = Some ws \<Longrightarrow> length ws \<le> 2 ^ 64"
proof -
  have v: "valid_body_fields body"
    using assms by (simp add: rlp_block_body.dec_iff valid_block_body_def)
  then show "\<forall>t \<in> set (transactions body). tx_rlp_encoded t = encode_transaction t False"
    by (auto simp: valid_body_fields_def valid_vector_def decoded_into_def)
  have "valid_vector (decoded_into empty_transaction) (\<lambda>t. length_transaction t True) (transactions body)"
    using v by (simp add: valid_body_fields_def)
  then show "length (transactions body) \<le> 2 ^ 64"
    by (rule valid_vector_length) (simp add: length_transaction_eq)
  show "length ws \<le> 2 ^ 64" if "withdrawals body = Some ws" for ws
  proof (rule valid_vector_length)
    show "valid_vector valid_withdrawal length_withdrawal ws"
      using v that by (simp add: valid_body_fields_def)
  qed (simp add: rlp_withdrawal.len_enc encode_withdrawal_def)
qed

text \<open>
  C26: the root hash of a vector is the root of the trie that maps the RLP of each index to its encoded
  value, although the loop visits the indices in another order.
\<close>

theorem vector_root_correct:
  assumes "length v \<le> 2 ^ 64" "\<forall>x. length (keccak256 x) = 32"
  shows "vector_root keccak256 value_encoder v =
           Some (mpt_root keccak256 (vector_trie value_encoder v))"
  using vector_root_eq assms by blast

theorem vector_root_correct_witness:
  "vector_root (\<lambda>x. replicate 32 (1 :: byte)) id [[1], [2], [3]] =
     Some (mpt_root (\<lambda>x. replicate 32 (1 :: byte)) (vector_trie id [[1], [2], [3]]))"
  by (rule vector_root_correct) simp_all

lemma body_roots:
  assumes "decode_block_body from mode = Inr (body, rest)"
    "\<forall>x. length (keccak256 x) = 32" "keccak256 [kEmptyListCode] = kEmptyListHash"
  shows "compute_transaction_root keccak256 body =
           Some (mpt_root keccak256 (vector_trie (\<lambda>t. encode_transaction t False) (transactions body))) \<and>
         compute_withdrawals_root keccak256 body =
           map_option (\<lambda>ws. Some (mpt_root keccak256 (vector_trie encode_withdrawal ws))) (withdrawals body) \<and>
         compute_ommers_hash keccak256 body = keccak256 (encode_ommers (ommers body))"
proof -
  note b = decoded_body [OF assms(1)]
  have "encode_ommers [] = [kEmptyListCode]"
    by (simp add: encode_ommers_def encode_vector_def length_items_def encode_items_def encode_header_def)
  moreover have "vector_root keccak256 (\<lambda>t. encode_transaction t False) (transactions body) =
      Some (mpt_root keccak256 (vector_trie (\<lambda>t. encode_transaction t False) (transactions body)))"
    using vector_root_eq b(2) assms(2) by blast
  moreover have "vector_root keccak256 encode_withdrawal ws =
      Some (mpt_root keccak256 (vector_trie encode_withdrawal ws))" if "withdrawals body = Some ws" for ws
    using vector_root_eq b(3) [OF that] assms(2) by blast
  ultimately show ?thesis
    using assms(3) by (auto simp: compute_transaction_root_decoded [OF b(1)] compute_withdrawals_root_def
        compute_ommers_hash_def split: option.split)
qed

text \<open>
  the roots of a decoded block body. The transaction root, which takes the bytes the transactions
  were decoded from, is the root of the trie of their encodings; so is the withdrawals root, and the
  ommers hash is the hash of the encoded ommers.
\<close>

theorem block_body_roots:
  assumes "decode_block_body from mode = Inr (body, rest)"
    "\<forall>x. length (keccak256 x) = 32" "keccak256 [kEmptyListCode] = kEmptyListHash"
  shows "compute_transaction_root keccak256 body =
           Some (mpt_root keccak256 (vector_trie (\<lambda>t. encode_transaction t False) (transactions body))) \<and>
         compute_withdrawals_root keccak256 body =
           map_option (\<lambda>ws. Some (mpt_root keccak256 (vector_trie encode_withdrawal ws))) (withdrawals body) \<and>
         compute_ommers_hash keccak256 body = keccak256 (encode_ommers (ommers body))"
  by (rule body_roots [OF assms])

definition empty_body :: block_body where
  "empty_body = \<lparr>transactions = [], ommers = [], withdrawals = Some []\<rparr>"

lemma decode_empty_body: "decode_block_body (encode_block_body empty_body) KProhibit = Inr (empty_body, [])"
  by (simp add: rlp_block_body.dec_iff valid_block_body_def valid_body_fields_def empty_body_def
      valid_vector_def body_items_def encode_transactions_def encode_ommers_def encode_vector_def
      encode_items_def length_items_def encode_header_def encode_opt_def)

theorem block_body_roots_witness:
  "compute_transaction_root (\<lambda>x. kEmptyListHash) empty_body = Some kEmptyRoot"
  using block_body_roots [OF decode_empty_body, of "\<lambda>x. kEmptyListHash"]
  by (simp add: kEmptyListHash_def empty_body_def vector_trie_def mpt_root_def)

end
