(* ===== verification/Rule_Set.thy ===== *)
theory Rule_Set
  imports Validation Vector_Root
begin

text \<open>
  The protocol rules a block is checked against before it is executed (protocol/rule_set.cpp,
  protocol/merge_rule_set.cpp, protocol/ethash_rule_set.cpp): headers, bodies, ommers, rewards and the
  difficulty. The classes are the constructors of a datatype, and a virtual call is a function on it.
  \<open>None\<close> is a call that does not return a result: an endless loop or a division by zero in the blob gas price, a failed
  trie, or the parent read through an empty optional.
\<close>

section \<open>Rule sets\<close>

definition kMinGasLimit :: u64 where "kMinGasLimit = 5000"
definition kMaxGasLimit :: u64 where "kMaxGasLimit = 2 ^ 63 - 1"
definition kMaxExtraDataBytes :: nat where "kMaxExtraDataBytes = 32"
definition kEther :: u64 where "kEther = 10 ^ 18"
definition kBlockRewardFrontier :: u64 where "kBlockRewardFrontier = 5 * kEther"
definition kBlockRewardByzantium :: u64 where "kBlockRewardByzantium = 3 * kEther"
definition kBlockRewardConstantinople :: u64 where "kBlockRewardConstantinople = 2 * kEther"

datatype rule_set = EthashRuleSet chain_config | MergeRuleSet "rule_set option" chain_config

fun rs_config :: "rule_set \<Rightarrow> chain_config" where
  "rs_config (EthashRuleSet config) = config"
| "rs_config (MergeRuleSet pre config) = config"

fun prohibit_ommers :: "rule_set \<Rightarrow> bool" where
  "prohibit_ommers (EthashRuleSet config) = False"
| "prohibit_ommers (MergeRuleSet pre config) = True"

definition rule_set_factory :: "chain_config \<Rightarrow> rule_set" where
  "rule_set_factory config = MergeRuleSet (Some (EthashRuleSet config)) config"

text \<open>\<open>class BlockState\<close>: the headers and bodies of earlier blocks.\<close>

record block_state =
  bs_read_header :: "block_num \<Rightarrow> bytes32 \<Rightarrow> block_header option"
  bs_read_body :: "block_num \<Rightarrow> bytes32 \<Rightarrow> block_body option"

text \<open>A check that may not return a result, followed by the rest.\<close>

definition vseq :: "validation_result option \<Rightarrow> validation_result option \<Rightarrow> validation_result option" where
  "vseq r s = Option.bind r (\<lambda>v. if v \<noteq> VOk then Some v else s)"

section \<open>Headers\<close>

definition base_validate_extra_data :: "block_header \<Rightarrow> validation_result" where
  "base_validate_extra_data h = (if length (extra_data h) > kMaxExtraDataBytes then VExtraDataTooLong else VOk)"

definition kDaoExtraData :: bytes where
  "kDaoExtraData = [0x64, 0x61, 0x6f, 0x2d, 0x68, 0x61, 0x72, 0x64, 0x2d, 0x66, 0x6f, 0x72, 0x6b]"

fun validate_extra_data :: "rule_set \<Rightarrow> block_header \<Rightarrow> validation_result" where
  "validate_extra_data (EthashRuleSet config) h =
     (if (case dao_block config of None \<Rightarrow> False | Some dao \<Rightarrow> dao \<le> number h \<and> number h \<le> dao + 9) \<and>
         extra_data h \<noteq> kDaoExtraData
      then VWrongDaoExtraData else base_validate_extra_data h)"
| "validate_extra_data (MergeRuleSet pre config) h = base_validate_extra_data h"

fun validate_difficulty_and_seal :: "rule_set \<Rightarrow> block_header \<Rightarrow> block_header \<Rightarrow> validation_result" where
  "validate_difficulty_and_seal (EthashRuleSet config) h parent = VOk"
| "validate_difficulty_and_seal (MergeRuleSet pre config) h parent =
     (if nonce h = replicate 8 0 then VOk else VInvalidNonce)"

definition get_parent_header :: "block_state \<Rightarrow> block_header \<Rightarrow> block_header option" where
  "get_parent_header st h = (if number h = 0 then None else bs_read_header st (number h - 1) (parent_hash h))"

definition check_gas_delta :: "chain_config \<Rightarrow> block_header \<Rightarrow> block_header \<Rightarrow> validation_result" where
  "check_gas_delta config h parent =
     (let parent_gas_limit = (if london_block config = Some (number h)
                              then gas_limit parent * kElasticityMultiplier else gas_limit parent);
          gas_delta = (if gas_limit h > parent_gas_limit then gas_limit h - parent_gas_limit
                       else parent_gas_limit - gas_limit h)
      in if gas_delta \<ge> parent_gas_limit div 1024 then VInvalidGasLimit else VOk)"

definition check_base_fee :: "evmc_revision \<Rightarrow> block_header \<Rightarrow> block_header \<Rightarrow> validation_result option" where
  "check_base_fee revn h parent =
     (if revn < EVMC_LONDON then Some (if base_fee_per_gas h \<noteq> None then VFieldBeforeFork else VOk)
      else case base_fee_per_gas h of
             None \<Rightarrow> Some VMissingField
           | Some fee \<Rightarrow> map_option (\<lambda>f. if fee \<noteq> f then VWrongBaseFee else VOk) (expected_base_fee_per_gas parent))"

text \<open>A field that is mandatory from a fork on and forbidden before.\<close>

definition check_field :: "bool \<Rightarrow> 'a option \<Rightarrow> validation_result" where
  "check_field active x =
     (if active then if x = None then VMissingField else VOk else if x \<noteq> None then VFieldBeforeFork else VOk)"

definition check_blob_header ::
  "chain_config \<Rightarrow> evmc_revision \<Rightarrow> block_header \<Rightarrow> block_header \<Rightarrow> validation_result option" where
  "check_blob_header config revn h parent =
     (if revn < EVMC_CANCUN
      then Some (if blob_gas_used h \<noteq> None \<or> excess_blob_gas h \<noteq> None \<or> parent_beacon_block_root h \<noteq> None
                 then VFieldBeforeFork else VOk)
      else if blob_gas_used h = None \<or> excess_blob_gas h = None \<or> parent_beacon_block_root h = None
      then Some VMissingField
      else map_option (\<lambda>e. if excess_blob_gas h \<noteq> Some e then VWrongExcessBlobGas else VOk)
             (calc_excess_blob_gas h parent config))"

definition check_access_list_fields :: "evmc_revision \<Rightarrow> block_header \<Rightarrow> validation_result" where
  "check_access_list_fields revn h =
     (if revn < EVMC_AMSTERDAM
      then if block_access_list_hash h \<noteq> None \<or> slot_number h \<noteq> None then VFieldBeforeFork else VOk
      else if block_access_list_hash h = None \<or> slot_number h = None then VMissingField else VOk)"

text \<open>The checks against the parent header.\<close>

definition check_against_parent :: "rule_set \<Rightarrow> block_header \<Rightarrow> block_header \<Rightarrow> validation_result option" where
  "check_against_parent rs h parent =
     (let config = rs_config rs; revn = revision config (number h) (timestamp h) in
      vseq (Some (if timestamp h \<le> timestamp parent then VInvalidTimestamp else VOk))
     (vseq (Some (check_gas_delta config h parent))
     (vseq (check_base_fee revn h parent)
     (vseq (Some (check_field (withdrawals_activated config (timestamp h)) (withdrawals_root h)))
     (vseq (check_blob_header config revn h parent)
     (vseq (Some (check_field (revn \<ge> EVMC_PRAGUE) (requests_hash h)))
     (vseq (Some (check_access_list_fields revn h))
           (Some (validate_difficulty_and_seal rs h parent)))))))))"

text \<open>The comparison with the clock is commented out, so the last argument has no effect.\<close>

definition validate_block_header ::
  "rule_set \<Rightarrow> block_header \<Rightarrow> block_state \<Rightarrow> bool \<Rightarrow> validation_result option" where
  "validate_block_header rs h st with_future_timestamp_check =
     (if gas_used h > gas_limit h then Some VGasAboveLimit
      else if gas_limit h < kMinGasLimit \<or> gas_limit h > kMaxGasLimit then Some VInvalidGasLimit
      else if validate_extra_data rs h \<noteq> VOk then Some (validate_extra_data rs h)
      else if prohibit_ommers rs \<and> ommers_hash h \<noteq> kEmptyListHash then Some VWrongOmmersHash
      else case get_parent_header st h of
             None \<Rightarrow> Some VUnknownParent
           | Some parent \<Rightarrow> check_against_parent rs h parent)"

section \<open>Ommers\<close>

fun is_kin :: "block_state \<Rightarrow> block_header \<Rightarrow> block_header \<Rightarrow> bytes32 \<Rightarrow> nat \<Rightarrow> block_header list \<Rightarrow>
    bool \<times> block_header list" where
  "is_kin st branch mainline mainline_hash 0 old = (False, old)"
| "is_kin st branch mainline mainline_hash (Suc n) old =
     (if branch = mainline then (False, old)
      else case bs_read_body st (number mainline) mainline_hash of
             None \<Rightarrow> (False, old)
           | Some body \<Rightarrow>
               (let old = old @ ommers body in
                case get_parent_header st mainline of
                  None \<Rightarrow> (False, old)
                | Some mainline_parent \<Rightarrow>
                    if get_parent_header st branch = Some mainline_parent then (True, old)
                    else is_kin st branch mainline_parent (parent_hash mainline) n old))"

text \<open>The loop over the ommers. The parent is read without a test.\<close>

fun check_ommers ::
  "rule_set \<Rightarrow> block_state \<Rightarrow> block_header \<Rightarrow> block_header option \<Rightarrow> block_header list \<Rightarrow> validation_result option" where
  "check_ommers rs st h parent [] = Some VOk"
| "check_ommers rs st h parent (ommer # rest) =
     Option.bind (validate_block_header rs ommer st False) (\<lambda>err.
       if err \<noteq> VOk then Some VInvalidOmmerHeader
       else Option.bind parent (\<lambda>p.
         case is_kin st ommer p (parent_hash h) 6 [] of
           (False, _) \<Rightarrow> Some VNotAnOmmer
         | (True, old) \<Rightarrow> if ommer \<in> set old then Some VDuplicateOmmer else check_ommers rs st h parent rest))"

definition base_validate_ommers ::
  "rule_set \<Rightarrow> block_header \<Rightarrow> block_header list \<Rightarrow> block_state \<Rightarrow> validation_result option" where
  "base_validate_ommers rs h oms st =
     (if prohibit_ommers rs then Some (if oms = [] then VOk else VTooManyOmmers)
      else if length oms > 2 then Some VTooManyOmmers
      else if length oms = 2 \<and> oms ! 0 = oms ! 1 then Some VDuplicateOmmer
      else check_ommers rs st h (get_parent_header st h) oms)"

fun validate_ommers ::
  "rule_set \<Rightarrow> block_header \<Rightarrow> block_header list \<Rightarrow> block_state \<Rightarrow> validation_result option" where
  "validate_ommers (EthashRuleSet config) h oms st = base_validate_ommers (EthashRuleSet config) h oms st"
| "validate_ommers (MergeRuleSet None config) h oms st =
     (if difficulty h \<noteq> 0 then Some VUnknownProtocolRuleSet
      else base_validate_ommers (MergeRuleSet None config) h oms st)"
| "validate_ommers (MergeRuleSet (Some pre) config) h oms st =
     (if difficulty h \<noteq> 0 then validate_ommers pre h oms st
      else base_validate_ommers (MergeRuleSet (Some pre) config) h oms st)"

section \<open>Bodies\<close>

definition check_withdrawals :: "(bytes \<Rightarrow> bytes32) \<Rightarrow> chain_config \<Rightarrow> block \<Rightarrow> validation_result option" where
  "check_withdrawals keccak256 config blk =
     vseq (Some (check_field (withdrawals_activated config (timestamp (header blk))) (withdrawals blk)))
       (case compute_withdrawals_root keccak256 (block_body.truncate blk) of
          None \<Rightarrow> Some (if withdrawals_root (header blk) \<noteq> None then VWrongWithdrawalsRoot else VOk)
        | Some None \<Rightarrow> None
        | Some (Some r) \<Rightarrow>
            Some (if withdrawals_root (header blk) \<noteq> Some r then VWrongWithdrawalsRoot else VOk))"

definition block_blob_gas :: "transaction list \<Rightarrow> u64" where
  "block_blob_gas txns = foldl (\<lambda>sum txn. sum + total_blob_gas txn) 0 txns"

definition check_blob_gas :: "chain_config \<Rightarrow> block \<Rightarrow> validation_result" where
  "check_blob_gas config blk =
     (let h = header blk;
          active = revision config (number h) (timestamp h) \<ge> EVMC_CANCUN;
          used = (if active then Some (block_blob_gas (transactions blk)) else None)
      in if active \<and> block_blob_gas (transactions blk) > ucast (bp_max (blob_params_at config (timestamp h))) * kGasPerBlob
         then VTooManyBlobs
         else if blob_gas_used h \<noteq> used then VWrongBlobGasUsed else VOk)"

definition check_ommers_hash ::
  "(bytes \<Rightarrow> bytes32) \<Rightarrow> rule_set \<Rightarrow> block \<Rightarrow> block_state \<Rightarrow> validation_result option" where
  "check_ommers_hash keccak256 rs blk st =
     (if ommers blk = []
      then Some (if ommers_hash (header blk) = kEmptyListHash then VOk else VWrongOmmersHash)
      else if prohibit_ommers rs then Some VTooManyOmmers
      else if compute_ommers_hash keccak256 (block_body.truncate blk) \<noteq> ommers_hash (header blk)
      then Some VWrongOmmersHash
      else validate_ommers rs (header blk) (ommers blk) st)"

text \<open>The transactions of the result carry the senders and counts that the checks have cached in them.\<close>

definition base_pre_validate_block_body ::
  "crypto \<Rightarrow> evmone_constants \<Rightarrow> rule_set \<Rightarrow> block \<Rightarrow> block_state \<Rightarrow> (validation_result \<times> block) option" where
  "base_pre_validate_block_body cr ev rs blk st =
     Option.bind (compute_transaction_root (fst cr) (block_body.truncate blk)) (\<lambda>txn_root.
       if txn_root \<noteq> transactions_root (header blk) then Some (VWrongTransactionsRoot, blk)
       else Option.bind (pre_validate_transactions cr ev blk (rs_config rs)) (\<lambda>(err, txns).
         let blk = blk\<lparr>transactions := txns\<rparr> in
         if err \<noteq> VOk then Some (err, blk)
         else map_option (\<lambda>r. (r, blk))
                (vseq (check_withdrawals (fst cr) (rs_config rs) blk)
                (vseq (Some (check_blob_gas (rs_config rs) blk))
                      (check_ommers_hash (fst cr) rs blk st)))))"

fun pre_validate_block_body ::
  "crypto \<Rightarrow> evmone_constants \<Rightarrow> rule_set \<Rightarrow> block \<Rightarrow> block_state \<Rightarrow> (validation_result \<times> block) option" where
  "pre_validate_block_body cr ev (EthashRuleSet config) blk st =
     base_pre_validate_block_body cr ev (EthashRuleSet config) blk st"
| "pre_validate_block_body cr ev (MergeRuleSet None config) blk st =
     (if difficulty (header blk) \<noteq> 0 then Some (VUnknownProtocolRuleSet, blk)
      else base_pre_validate_block_body cr ev (MergeRuleSet None config) blk st)"
| "pre_validate_block_body cr ev (MergeRuleSet (Some pre) config) blk st =
     (if difficulty (header blk) \<noteq> 0 then pre_validate_block_body cr ev pre blk st
      else base_pre_validate_block_body cr ev (MergeRuleSet (Some pre) config) blk st)"

section \<open>Rewards and difficulty\<close>

record block_reward =
  br_miner :: u256
  br_ommers :: "u256 list"

definition block_reward_base :: "evmc_revision \<Rightarrow> u256" where
  "block_reward_base revn =
     (if revn \<ge> EVMC_PETERSBURG then ucast kBlockRewardConstantinople
      else if revn \<ge> EVMC_BYZANTIUM then ucast kBlockRewardByzantium
      else ucast kBlockRewardFrontier)"

definition ommer_reward :: "u256 \<Rightarrow> u64 \<Rightarrow> u64 \<Rightarrow> u256" where
  "ommer_reward reward ommer_number block_number =
     drop_bit 3 (ucast (8 + ommer_number - block_number) * reward)"

fun compute_reward :: "rule_set \<Rightarrow> block \<Rightarrow> block_reward" where
  "compute_reward (EthashRuleSet config) blk =
     (let h = header blk; reward = block_reward_base (revision config (number h) (timestamp h))
      in \<lparr>br_miner = foldl (\<lambda>r ommer. r + drop_bit 5 reward) reward (ommers blk),
          br_ommers = map (\<lambda>ommer. ommer_reward reward (number ommer) (number h)) (ommers blk)\<rparr>)"
| "compute_reward (MergeRuleSet None config) blk = \<lparr>br_miner = 0, br_ommers = []\<rparr>"
| "compute_reward (MergeRuleSet (Some pre) config) blk =
     (if difficulty (header blk) \<noteq> 0 then compute_reward pre blk else \<lparr>br_miner = 0, br_ommers = []\<rparr>)"

fun get_beneficiary :: "rule_set \<Rightarrow> block_header \<Rightarrow> address" where
  "get_beneficiary (EthashRuleSet config) h = beneficiary h"
| "get_beneficiary (MergeRuleSet None config) h = beneficiary h"
| "get_beneficiary (MergeRuleSet (Some pre) config) h =
     (if difficulty h \<noteq> 0 then get_beneficiary pre h else beneficiary h)"

text \<open>\<open>EthashRuleSet::difficulty\<close>: the adjustment by the time between the blocks, and the difficulty bomb.\<close>

definition adjusted_difficulty :: "evmc_revision \<Rightarrow> u64 \<Rightarrow> u64 \<Rightarrow> u256 \<Rightarrow> bool \<Rightarrow> u256" where
  "adjusted_difficulty revn block_timestamp parent_timestamp parent_difficulty parent_has_uncles =
     (let x = drop_bit 11 parent_difficulty in
      if revn \<ge> EVMC_BYZANTIUM
      then let d = parent_difficulty - x * 99;
               y = (if parent_has_uncles then 2 else 1);
               z = (block_timestamp - parent_timestamp) div 9
           in if 99 + y > z then d + ucast (99 + y - z) * x else d
      else if revn \<ge> EVMC_HOMESTEAD
      then let d = parent_difficulty - x * 99;
               z = (block_timestamp - parent_timestamp) div 10
           in if 100 > z then d + ucast (100 - z) * x else d
      else if block_timestamp - parent_timestamp < 13 then parent_difficulty + x else parent_difficulty - x)"

definition bomb_delay :: "chain_config \<Rightarrow> evmc_revision \<Rightarrow> u64 \<Rightarrow> u64" where
  "bomb_delay config revn block_num =
     (if reached (gray_glacier_block config) block_num then 11400000
      else if reached (arrow_glacier_block config) block_num then 10700000
      else if revn \<ge> EVMC_LONDON then 9700000
      else if reached (muir_glacier_block config) block_num then 9000000
      else if revn \<ge> EVMC_PETERSBURG then 5000000
      else if revn \<ge> EVMC_BYZANTIUM then 3000000
      else 0)"

definition ethash_difficulty :: "u64 \<Rightarrow> u64 \<Rightarrow> u256 \<Rightarrow> u64 \<Rightarrow> bool \<Rightarrow> chain_config \<Rightarrow> u256" where
  "ethash_difficulty block_num block_timestamp parent_difficulty parent_timestamp parent_has_uncles config =
     (let revn = revision config block_num block_timestamp;
          d = adjusted_difficulty revn block_timestamp parent_timestamp parent_difficulty parent_has_uncles;
          delay = bomb_delay config revn block_num;
          fake_block_num = (if block_num > delay then block_num - delay else 0);
          n = fake_block_num div 100000;
          d = (if n \<ge> 2 then d + push_bit (unat (n - 2)) 1 else d)
      in if d < 0x20000 then 0x20000 else d)"

end
