(* ===== verification/Direct_State.thy ===== *)
theory Direct_State
  imports Slot_Search Mphf_Map Rule_Set "HOL-Library.AList"
begin

text \<open>
  \<open>class DirectState\<close> (state_zz/direct_state.hpp, state_zz/direct_state.cpp): the state a block runs on. The
  accounts of the witness are records that lie in the data section of a perfect hash map and are changed in
  place; the accounts a block creates or finds absent, the slots the witness does not carry, created code and
  headers are kept beside it in hash maps.

  A record is addressed by an \<open>account_ref\<close>, where the source has a pointer to it. Hash maps are association lists with
  distinct keys. A lookup in the address map that would leave its tables counts as a miss; on the maps that the
  constructor accepts there is none. The build is the default one, without recovery from the node store and without
  sealed code.
\<close>

section \<open>The state\<close>

definition kCreatedCodeOffset :: u32 where "kCreatedCodeOffset = 0xFFFFFFFF"

definition kPayloadOffset :: nat where "kPayloadOffset = 32"

datatype account_ref = PreRecord nat | CreatedRecord address

text \<open>\<open>WipedStorage\<close>: the slots are a view of those of a record, given by the record and their number.\<close>

record wiped_storage =
  ws_record :: account_ref
  ws_count :: nat
  ws_storage_root :: bytes32
  ws_absent_reads :: u32

record direct_state =
  ds_n_accounts :: u32
  ds_map :: mphf_map
  ds_records :: "nat \<Rightarrow> account option"
  ds_code_map :: mphf_map
  ds_code_data :: bytes
  ds_created :: "(address \<times> account) list"
  ds_overflow :: "(address \<times> (bytes32 \<times> bytes32) list) list"
  ds_wiped :: "wiped_storage list"
  ds_absent_reads :: "(bytes32 \<times> u32) list"
  ds_created_code :: "(u64 \<times> bytes32 \<times> bytes) list"
  ds_code_collisions :: "(bytes32 \<times> bytes) list"
  ds_touched :: "address list"
  ds_headers :: "(bytes32 \<times> block_header) list"
  ds_ancestor_missing :: bool
  ds_ancestors :: "bytes32 list"
  ds_ancestors_number :: u64
  ds_ancestors_end :: bool
  ds_require_headers :: bool
  ds_witness_incomplete :: bool
  ds_multi_block :: bool
  ds_changed_addresses :: "address list"
  ds_changed_storage :: "(address \<times> bytes32 list) list"

text \<open>\<open>ds_n_accounts\<close> is the count in the header of the witness (\<open>PreStateMeta\<close>).\<close>

text \<open>The record \<open>materialize_absent_account_\<close> inserts.\<close>

definition absent_account :: "address \<Rightarrow> account" where
  "absent_account addr =
     \<lparr>acc_addr = addr, acc_deleted = True, acc_rlp_len = 0, acc_rlp_sroot_off = 0, acc_modified = False, acc_nonce = 0,
      acc_balance = 0, acc_code_hash = kEmptyHash, acc_storage_root = kEmptyRoot, acc_code_store_offset = 0,
      acc_code_store_len = 0, acc_slot_count = 0, acc_rlp_buf = replicate kAccRlpBufSize 0, acc_absent_reads = 0,
      acc_slots = []\<rparr>"

definition zero32 :: bytes32 where "zero32 = replicate 32 0"

fun record_at :: "direct_state \<Rightarrow> account_ref \<Rightarrow> account" where
  "record_at st (PreRecord off) = (case ds_records st off of Some pa \<Rightarrow> pa | None \<Rightarrow> absent_account [])"
| "record_at st (CreatedRecord addr) = (case map_of (ds_created st) addr of Some pa \<Rightarrow> pa | None \<Rightarrow> absent_account addr)"

fun set_record :: "account_ref \<Rightarrow> account \<Rightarrow> direct_state \<Rightarrow> direct_state" where
  "set_record (PreRecord off) pa st = st\<lparr>ds_records := (ds_records st)(off := Some pa)\<rparr>"
| "set_record (CreatedRecord addr) pa st = st\<lparr>ds_created := AList.update addr pa (ds_created st)\<rparr>"

definition slots_for :: "account \<Rightarrow> slot list" where
  "slots_for pa = take (unat (acc_slot_count pa)) (acc_slots pa)"

section \<open>Finding accounts\<close>

definition find_pre_account :: "direct_state \<Rightarrow> address \<Rightarrow> nat option" where
  "find_pre_account st addr =
     (case mphf_find (ds_map st) (\<lambda>off. map_option acc_addr (ds_records st off)) (addr_key8 addr) addr of
        Some r \<Rightarrow> r
      | None \<Rightarrow> None)"

definition lookup_account :: "direct_state \<Rightarrow> address \<Rightarrow> account_ref option" where
  "lookup_account st addr =
     (case find_pre_account st addr of
        Some off \<Rightarrow> Some (PreRecord off)
      | None \<Rightarrow> if map_of (ds_created st) addr \<noteq> None then Some (CreatedRecord addr) else None)"

definition materialize_absent_account :: "direct_state \<Rightarrow> address \<Rightarrow> account_ref \<times> direct_state" where
  "materialize_absent_account st addr =
     (CreatedRecord addr,
      if map_of (ds_created st) addr \<noteq> None then st
      else st\<lparr>ds_created := AList.update addr (absent_account addr) (ds_created st)\<rparr>)"

text \<open>\<open>observe_account_\<close> and \<open>find_or_create_account\<close>.\<close>

definition observe_account :: "direct_state \<Rightarrow> address \<Rightarrow> account_ref \<times> direct_state" where
  "observe_account st addr =
     (case lookup_account st addr of Some r \<Rightarrow> (r, st) | None \<Rightarrow> materialize_absent_account st addr)"

definition read_account :: "direct_state \<Rightarrow> address \<Rightarrow> account option" where
  "read_account st addr =
     (case lookup_account st addr of
        None \<Rightarrow> None
      | Some r \<Rightarrow> if acc_deleted (record_at st r) then None else Some (record_at st r))"

section \<open>Reading\<close>

definition get_balance :: "direct_state \<Rightarrow> address \<Rightarrow> u256" where
  "get_balance st addr = (case read_account st addr of None \<Rightarrow> 0 | Some pa \<Rightarrow> acc_balance pa)"

definition get_nonce :: "direct_state \<Rightarrow> address \<Rightarrow> u64" where
  "get_nonce st addr = (case read_account st addr of None \<Rightarrow> 0 | Some pa \<Rightarrow> acc_nonce pa)"

definition is_deleted :: "direct_state \<Rightarrow> address \<Rightarrow> bool" where
  "is_deleted st addr \<longleftrightarrow> read_account st addr = None"

definition is_empty_account :: "direct_state \<Rightarrow> address \<Rightarrow> bool" where
  "is_empty_account st addr \<longleftrightarrow>
     (case read_account st addr of
        None \<Rightarrow> False
      | Some pa \<Rightarrow> acc_nonce pa = 0 \<and> acc_code_hash pa = kEmptyHash \<and> acc_balance pa = 0)"

definition is_dead :: "direct_state \<Rightarrow> address \<Rightarrow> bool" where
  "is_dead st addr \<longleftrightarrow> is_deleted st addr \<or> is_empty_account st addr"

definition note_absent_read :: "account_ref \<Rightarrow> bytes32 \<Rightarrow> direct_state \<Rightarrow> direct_state" where
  "note_absent_read r key st =
     (let pa = record_at st r in
      if acc_storage_root pa = kEmptyRoot then st
      else let reads = ds_absent_reads st @ [(key, acc_absent_reads pa)]
           in set_record r (pa\<lparr>acc_absent_reads := of_nat (length reads)\<rparr>) (st\<lparr>ds_absent_reads := reads\<rparr>))"

definition overflow_slot :: "direct_state \<Rightarrow> address \<Rightarrow> bytes32 \<Rightarrow> bytes32 option" where
  "overflow_slot st addr key = Option.bind (map_of (ds_overflow st) addr) (\<lambda>m. map_of m key)"

definition read_storage_at :: "account_ref \<Rightarrow> address \<Rightarrow> bytes32 \<Rightarrow> direct_state \<Rightarrow> bytes32 \<times> direct_state" where
  "read_storage_at r addr key st =
     (let pa = record_at st r;
          rest = (case overflow_slot st addr key of
                    Some v \<Rightarrow> (v, st)
                  | None \<Rightarrow> (zero32, if acc_deleted pa then st else note_absent_read r key st))
      in if acc_slot_count pa > 0
         then if acc_deleted pa then (zero32, st)
              else case find_slot (slots_for pa) key of
                     Some i \<Rightarrow> (slot_current (slots_for pa ! i), st)
                   | None \<Rightarrow> rest
         else rest)"

definition read_storage :: "address \<Rightarrow> bytes32 \<Rightarrow> direct_state \<Rightarrow> bytes32 \<times> direct_state" where
  "read_storage addr key st = (let (r, st) = observe_account st addr in read_storage_at r addr key st)"

definition has_storage_at :: "direct_state \<Rightarrow> address \<Rightarrow> account \<Rightarrow> bool" where
  "has_storage_at st addr pa \<longleftrightarrow>
     acc_storage_root pa \<noteq> kEmptyRoot \<or> list_ex (\<lambda>s. slot_current s \<noteq> zero32) (slots_for pa) \<or>
     (case map_of (ds_overflow st) addr of None \<Rightarrow> False | Some m \<Rightarrow> m \<noteq> [])"

definition has_storage :: "address \<Rightarrow> direct_state \<Rightarrow> bool \<times> direct_state" where
  "has_storage addr st =
     (let (r, st) = observe_account st addr; pa = record_at st r
      in (\<not> acc_deleted pa \<and> has_storage_at st addr pa, st))"

text \<open>The entry of the code store for a hash: the offset of its body in the data section, and the body.\<close>

definition find_code_entry :: "direct_state \<Rightarrow> bytes32 \<Rightarrow> (nat \<times> bytes) option" where
  "find_code_entry st h =
     (case mphf_find (ds_code_map st) (key_at 32 (ds_code_data st)) (hash_key8 h) h of
        Some (Some off) \<Rightarrow> map_option (\<lambda>body. (off + 8, body)) (body_at (ds_code_data st) off)
      | _ \<Rightarrow> None)"

definition code_for :: "direct_state \<Rightarrow> account \<Rightarrow> bytes" where
  "code_for st pa =
     (if acc_code_store_len pa = 0 then []
      else take (unat (acc_code_store_len pa))
             (drop (unat (acc_code_store_offset pa) + kPayloadOffset) (ds_code_data st)))"

definition created_code :: "direct_state \<Rightarrow> bytes32 \<Rightarrow> bytes option" where
  "created_code st h =
     (case map_of (ds_created_code st) (hash_key8 h) of
        Some (full_hash, code) \<Rightarrow> if full_hash = h then Some code else map_of (ds_code_collisions st) h
      | None \<Rightarrow> map_of (ds_code_collisions st) h)"

definition read_code_at :: "account_ref \<Rightarrow> direct_state \<Rightarrow> bytes \<times> direct_state" where
  "read_code_at r st =
     (let pa = record_at st r in
      if acc_deleted pa then ([], st)
      else if acc_code_store_len pa \<noteq> 0 \<and> acc_code_store_offset pa \<noteq> kCreatedCodeOffset then (code_for st pa, st)
      else if acc_code_hash pa = kEmptyHash then ([], st)
      else case find_code_entry st (acc_code_hash pa) of
             Some (off, body) \<Rightarrow> (drop kPayloadOffset body, st)
           | None \<Rightarrow>
               (case created_code st (acc_code_hash pa) of
                  Some code \<Rightarrow> (code, st)
                | None \<Rightarrow> ([], st\<lparr>ds_witness_incomplete := True\<rparr>)))"

definition read_code :: "address \<Rightarrow> direct_state \<Rightarrow> bytes \<times> direct_state" where
  "read_code addr st = (let (r, st) = observe_account st addr in read_code_at r st)"

section \<open>Journals\<close>

definition journal_address_changed :: "address \<Rightarrow> direct_state \<Rightarrow> direct_state" where
  "journal_address_changed a st =
     (if ds_multi_block st then st\<lparr>ds_changed_addresses := List.insert a (ds_changed_addresses st)\<rparr> else st)"

definition journal_slot_changed :: "address \<Rightarrow> bytes32 \<Rightarrow> direct_state \<Rightarrow> direct_state" where
  "journal_slot_changed a k st =
     (if ds_multi_block st
      then st\<lparr>ds_changed_addresses := List.insert a (ds_changed_addresses st),
              ds_changed_storage :=
                (let ks = (case map_of (ds_changed_storage st) a of None \<Rightarrow> [] | Some ks \<Rightarrow> ks)
                 in AList.update a (List.insert k ks) (ds_changed_storage st))\<rparr>
      else st)"

definition clear_change_journal :: "direct_state \<Rightarrow> direct_state" where
  "clear_change_journal st = st\<lparr>ds_changed_addresses := [], ds_changed_storage := []\<rparr>"

section \<open>Writing accounts\<close>

text \<open>A change of a record drops its cached encoding.\<close>

definition mark_changed :: "account \<Rightarrow> account" where
  "mark_changed pa = pa\<lparr>acc_modified := True, acc_rlp_sroot_off := 0\<rparr>"

definition set_account_from_diff :: "account \<Rightarrow> u64 \<Rightarrow> u256 \<Rightarrow> account" where
  "set_account_from_diff pa n b =
     (let pa' = pa\<lparr>acc_nonce := n, acc_balance := b\<rparr>
      in if acc_nonce pa \<noteq> n \<or> acc_balance pa \<noteq> b then mark_changed pa' else pa')"

definition revived :: "account \<Rightarrow> account" where
  "revived pa = mark_changed (pa\<lparr>acc_deleted := False, acc_code_hash := kEmptyHash, acc_storage_root := kEmptyRoot,
     acc_slot_count := 0, acc_code_store_len := 0, acc_nonce := 0, acc_balance := 0\<rparr>)"

definition revive_if_deleted :: "account_ref \<Rightarrow> address \<Rightarrow> direct_state \<Rightarrow> direct_state" where
  "revive_if_deleted r addr st =
     (if \<not> acc_deleted (record_at st r) then st
      else (set_record r (revived (record_at st r)) st)\<lparr>ds_overflow := AList.delete addr (ds_overflow st)\<rparr>)"

text \<open>The part the setters share: find or create, revive, change and touch.\<close>

definition touch :: "address \<Rightarrow> direct_state \<Rightarrow> direct_state" where
  "touch addr st = st\<lparr>ds_touched := List.insert addr (ds_touched st)\<rparr>"

definition change_account ::
  "(account \<Rightarrow> account) \<Rightarrow> (account \<Rightarrow> bool) \<Rightarrow> address \<Rightarrow> direct_state \<Rightarrow> direct_state" where
  "change_account f changed addr st =
     (let (r, st) = observe_account st addr;
          st = revive_if_deleted r addr st;
          pa = record_at st r
      in touch addr (if changed pa then journal_address_changed addr (set_record r (mark_changed (f pa)) st) else st))"

definition set_balance :: "address \<Rightarrow> u256 \<Rightarrow> direct_state \<Rightarrow> direct_state" where
  "set_balance addr v = change_account (\<lambda>pa. pa\<lparr>acc_balance := v\<rparr>) (\<lambda>pa. acc_balance pa \<noteq> v) addr"

definition add_to_balance :: "address \<Rightarrow> u256 \<Rightarrow> direct_state \<Rightarrow> direct_state" where
  "add_to_balance addr addend =
     change_account (\<lambda>pa. pa\<lparr>acc_balance := acc_balance pa + addend\<rparr>) (\<lambda>pa. addend \<noteq> 0) addr"

definition subtract_from_balance :: "address \<Rightarrow> u256 \<Rightarrow> direct_state \<Rightarrow> direct_state" where
  "subtract_from_balance addr subtrahend =
     change_account (\<lambda>pa. pa\<lparr>acc_balance := acc_balance pa - subtrahend\<rparr>) (\<lambda>pa. subtrahend \<noteq> 0) addr"

definition set_nonce :: "address \<Rightarrow> u64 \<Rightarrow> direct_state \<Rightarrow> direct_state" where
  "set_nonce addr n = change_account (\<lambda>pa. pa\<lparr>acc_nonce := n\<rparr>) (\<lambda>pa. acc_nonce pa \<noteq> n) addr"

section \<open>Writing storage and code\<close>

definition note_wiped_storage :: "account_ref \<Rightarrow> direct_state \<Rightarrow> direct_state" where
  "note_wiped_storage r st =
     (let pa = record_at st r in
      if acc_slot_count pa = 0 \<and> acc_absent_reads pa = 0 then st
      else set_record r (pa\<lparr>acc_absent_reads := 0\<rparr>)
             (st\<lparr>ds_wiped := ds_wiped st @ [\<lparr>ws_record = r, ws_count = length (slots_for pa),
                ws_storage_root = acc_storage_root pa, ws_absent_reads = acc_absent_reads pa\<rparr>]\<rparr>))"

definition set_storage_slot :: "account_ref \<Rightarrow> address \<Rightarrow> bytes32 \<Rightarrow> bytes32 \<Rightarrow> direct_state \<Rightarrow> direct_state" where
  "set_storage_slot r addr key v st =
     (let pa = (record_at st r)\<lparr>acc_modified := True\<rparr>;
          st = set_record r pa st;
          rest = (if v = zero32
                  then case map_of (ds_overflow st) addr of
                         None \<Rightarrow> st
                       | Some m \<Rightarrow>
                           (let m = AList.delete key m
                            in st\<lparr>ds_overflow := (if m = [] then AList.delete addr (ds_overflow st)
                                                   else AList.update addr m (ds_overflow st))\<rparr>)
                  else let m = (case map_of (ds_overflow st) addr of None \<Rightarrow> [] | Some m \<Rightarrow> m)
                       in st\<lparr>ds_overflow := AList.update addr (AList.update key v m) (ds_overflow st)\<rparr>)
      in if acc_slot_count pa > 0
         then case find_slot (slots_for pa) key of
                Some i \<Rightarrow> set_record r (pa\<lparr>acc_slots := (acc_slots pa)[i := (acc_slots pa ! i)\<lparr>slot_current := v\<rparr>]\<rparr>) st
              | None \<Rightarrow> rest
         else rest)"

text \<open>Code that the witness does not carry goes to \<open>created_code_\<close>, or to the sidecar for a colliding index key.\<close>

definition store_created_code :: "bytes32 \<Rightarrow> bytes \<Rightarrow> direct_state \<Rightarrow> direct_state" where
  "store_created_code h code st =
     (case map_of (ds_created_code st) (hash_key8 h) of
        None \<Rightarrow> st\<lparr>ds_created_code := AList.update (hash_key8 h) (h, code) (ds_created_code st)\<rparr>
      | Some (full_hash, _) \<Rightarrow>
          if full_hash = h \<or> map_of (ds_code_collisions st) h \<noteq> None then st
          else st\<lparr>ds_code_collisions := AList.update h code (ds_code_collisions st)\<rparr>)"

text \<open>A deployment drops what its address held.\<close>

definition wipe_storage :: "account_ref \<Rightarrow> address \<Rightarrow> direct_state \<Rightarrow> direct_state" where
  "wipe_storage r addr st =
     (let st = note_wiped_storage r st;
          st = set_record r ((record_at st r)\<lparr>acc_slot_count := 0, acc_storage_root := kEmptyRoot\<rparr>) st
      in st\<lparr>ds_overflow := AList.delete addr (ds_overflow st)\<rparr>)"

text \<open>Code that the witness carries is used from there.\<close>

definition write_code :: "account_ref \<Rightarrow> bytes32 \<Rightarrow> bytes \<Rightarrow> direct_state \<Rightarrow> direct_state" where
  "write_code r h code st =
     (let pa = (record_at st r)\<lparr>acc_code_hash := h, acc_code_store_len := of_nat (length code)\<rparr>
      in case find_code_entry st h of
           Some (off, body) \<Rightarrow> set_record r (mark_changed (pa\<lparr>acc_code_store_offset := of_nat off\<rparr>)) st
         | None \<Rightarrow>
             store_created_code h code
               (set_record r (mark_changed (pa\<lparr>acc_code_store_offset := kCreatedCodeOffset\<rparr>)) st))"

text \<open>\<open>None\<close> is the fatal error of the host builds for a code hash that is not the code's.\<close>

definition apply_code_diff ::
  "(bytes \<Rightarrow> bytes32) \<Rightarrow> account_ref \<Rightarrow> address \<Rightarrow> bytes \<Rightarrow> bytes32 option \<Rightarrow> direct_state \<Rightarrow> direct_state option" where
  "apply_code_diff keccak256 r addr code code_hash st =
     (if code = []
      then Some (set_record r (mark_changed ((record_at st r)\<lparr>acc_code_hash := kEmptyHash, acc_code_store_len := 0\<rparr>)) st)
      else let st = (if is_code_delegated code then st else wipe_storage r addr st);
               h = (case code_hash of Some h \<Rightarrow> h | None \<Rightarrow> keccak256 code)
           in if code_hash \<noteq> None \<and> keccak256 code \<noteq> h then None else Some (write_code r h code st))"

section \<open>Deleting accounts\<close>

definition destruct :: "address \<Rightarrow> direct_state \<Rightarrow> direct_state" where
  "destruct addr st =
     (let st = (case find_pre_account st addr of
                  None \<Rightarrow> st
                | Some off \<Rightarrow>
                    (let st = (if acc_deleted (record_at st (PreRecord off)) then st
                               else note_wiped_storage (PreRecord off) st)
                     in set_record (PreRecord off) ((record_at st (PreRecord off))\<lparr>acc_deleted := True\<rparr>) st));
          st = (case map_of (ds_created st) addr of
                  None \<Rightarrow> st
                | Some pa \<Rightarrow> set_record (CreatedRecord addr) (pa\<lparr>acc_deleted := True\<rparr>) st);
          st = st\<lparr>ds_overflow := AList.delete addr (ds_overflow st)\<rparr>
      in journal_address_changed addr (touch addr st))"

definition destruct_dead_among :: "address list \<Rightarrow> direct_state \<Rightarrow> direct_state" where
  "destruct_dead_among addrs st = fold (\<lambda>addr st. if is_dead st addr then destruct addr st else st) addrs st"

section \<open>State diffs\<close>

text \<open>
  The changes of a transaction as evmone hands them over (\<open>evmone::state::StateDiff\<close>). The handle is the record
  that the account was read from, if any.
\<close>

record diff_entry =
  de_addr :: address
  de_nonce :: u64
  de_balance :: u256
  de_code :: "bytes option"
  de_code_hash :: "bytes32 option"
  de_modified_storage :: "(bytes32 \<times> bytes32) list"
  de_handle :: "account_ref option"

record state_diff =
  sd_modified_accounts :: "diff_entry list"
  sd_deleted_accounts :: "address list"

definition update_record :: "account_ref \<Rightarrow> (account \<Rightarrow> account) \<Rightarrow> direct_state \<Rightarrow> direct_state" where
  "update_record r f st = set_record r (f (record_at st r)) st"

text \<open>\<open>None\<close> is the fatal error of the host builds for a handle that is not the record of the address.\<close>

definition apply_entry :: "(bytes \<Rightarrow> bytes32) \<Rightarrow> diff_entry \<Rightarrow> direct_state \<Rightarrow> direct_state option" where
  "apply_entry keccak256 m st =
     (if de_handle m \<noteq> None \<and> de_handle m \<noteq> lookup_account st (de_addr m) then None
      else let (r, st) = (case de_handle m of Some r \<Rightarrow> (r, st) | None \<Rightarrow> observe_account st (de_addr m));
               st = journal_address_changed (de_addr m) (revive_if_deleted r (de_addr m) st)
           in Option.bind
                (case de_code m of
                   None \<Rightarrow> Some st
                 | Some code \<Rightarrow> apply_code_diff keccak256 r (de_addr m) code (de_code_hash m) st)
                (\<lambda>st. let st = update_record r (\<lambda>pa. set_account_from_diff pa (de_nonce m) (de_balance m)) st
                      in Some (fold (\<lambda>(k, v) st. set_storage_slot r (de_addr m) k v (journal_slot_changed (de_addr m) k st))
                                 (de_modified_storage m) st)))"

fun apply_entries :: "(bytes \<Rightarrow> bytes32) \<Rightarrow> diff_entry list \<Rightarrow> direct_state \<Rightarrow> direct_state option" where
  "apply_entries keccak256 [] st = Some st"
| "apply_entries keccak256 (m # ms) st = Option.bind (apply_entry keccak256 m st) (apply_entries keccak256 ms)"

definition apply_state_diff :: "(bytes \<Rightarrow> bytes32) \<Rightarrow> state_diff \<Rightarrow> direct_state \<Rightarrow> direct_state option" where
  "apply_state_diff keccak256 diff st =
     map_option (fold (\<lambda>a st. destruct a (journal_address_changed a st)) (sd_deleted_accounts diff))
       (apply_entries keccak256 (sd_modified_accounts diff) st)"

end
