(* ===== verification/Account_Map.thy ===== *)
theory Account_Map
  imports Direct_State
begin

text \<open>
  What the rules of a block rely on: a map from addresses to accounts. The locale \<open>account_store\<close> is the interface
  through which they read and change balances, with its laws, and holds the lemmas that follow from them:
  crediting a list of amounts, with and without the removal of empty accounts, and moving balances to one account.
  \<open>DirectState\<close> implements it (theory \<open>State_Refinement\<close>).
\<close>

section \<open>Accounts\<close>

record acct =
  a_nonce :: u64
  a_balance :: u256
  a_code_hash :: bytes32
  a_storage :: "bytes32 \<Rightarrow> bytes32"

type_synonym accounts = "address \<Rightarrow> acct option"

definition fresh_acct :: acct where
  "fresh_acct = \<lparr>a_nonce = 0, a_balance = 0, a_code_hash = kEmptyHash, a_storage = \<lambda>key. zero32\<rparr>"

definition acct_or_fresh :: "accounts \<Rightarrow> address \<Rightarrow> acct" where
  "acct_or_fresh m a = (case m a of None \<Rightarrow> fresh_acct | Some x \<Rightarrow> x)"

definition acct_dead :: "acct option \<Rightarrow> bool" where
  "acct_dead x \<longleftrightarrow> (case x of None \<Rightarrow> True | Some x \<Rightarrow> a_nonce x = 0 \<and> a_code_hash x = kEmptyHash \<and> a_balance x = 0)"

definition remove_dead :: "address list \<Rightarrow> accounts \<Rightarrow> accounts" where
  "remove_dead addrs s = (\<lambda>a. if a \<in> set addrs \<and> acct_dead (s a) then None else s a)"

definition balance_of :: "accounts \<Rightarrow> address \<Rightarrow> u256" where
  "balance_of s a = a_balance (acct_or_fresh s a)"

definition with_balance :: "address \<Rightarrow> u256 \<Rightarrow> accounts \<Rightarrow> accounts" where
  "with_balance a v s = s(a := Some ((acct_or_fresh s a)\<lparr>a_balance := v\<rparr>))"

text \<open>The sum of the amounts a list of credits holds for an address.\<close>

definition credited :: "(address \<times> u256) list \<Rightarrow> address \<Rightarrow> u256" where
  "credited xs a = sum_list (map snd (filter (\<lambda>e. fst e = a) xs))"

lemma balance_of_with_balance: "balance_of (with_balance a v s) b = (if b = a then v else balance_of s b)"
  by (simp add: balance_of_def with_balance_def acct_or_fresh_def)

lemma balance_of_remove_dead: "balance_of (remove_dead addrs s) a = balance_of s a"
  by (auto simp: balance_of_def remove_dead_def acct_or_fresh_def acct_dead_def fresh_acct_def split: option.splits)

lemma remove_dead_gone: "a \<in> set addrs \<Longrightarrow> remove_dead addrs s a = None \<or> \<not> acct_dead (remove_dead addrs s a)"
  by (auto simp: remove_dead_def acct_dead_def)

lemma credited_Nil [simp]: "credited [] a = 0"
  by (simp add: credited_def)

lemma credited_Cons [simp]: "credited (e # xs) a = (if fst e = a then snd e else 0) + credited xs a"
  by (simp add: credited_def)

lemma credited_append [simp]: "credited (xs @ ys) a = credited xs a + credited ys a"
  by (induction xs) (simp_all add: add.assoc)

section \<open>The interface\<close>

locale account_store =
  fixes inv :: "'s \<Rightarrow> bool"
    and accounts_of :: "'s \<Rightarrow> accounts"
    and touched :: "'s \<Rightarrow> address list"
    and get_balance :: "'s \<Rightarrow> address \<Rightarrow> u256"
    and set_balance add_to_balance :: "address \<Rightarrow> u256 \<Rightarrow> 's \<Rightarrow> 's"
    and destruct_dead_among :: "address list \<Rightarrow> 's \<Rightarrow> 's"
  assumes get_balance_law: "inv s \<Longrightarrow> get_balance s a = balance_of (accounts_of s) a"
    and set_balance_law: "inv s \<Longrightarrow> inv (set_balance a v s) \<and> accounts_of (set_balance a v s) = with_balance a v (accounts_of s)"
    and add_to_balance_law: "inv s \<Longrightarrow> inv (add_to_balance a v s) \<and>
      accounts_of (add_to_balance a v s) = with_balance a (balance_of (accounts_of s) a + v) (accounts_of s)"
    and add_to_balance_touched: "set (touched (add_to_balance a v s)) = insert a (set (touched s))"
    and destruct_dead_law: "inv s \<Longrightarrow> inv (destruct_dead_among addrs s) \<and>
      accounts_of (destruct_dead_among addrs s) = remove_dead addrs (accounts_of s)"
    and destruct_dead_touched: "set (touched s) \<subseteq> set (touched (destruct_dead_among addrs s))"
begin

lemma credits:
  assumes "inv s"
  shows "inv (fold (\<lambda>e. add_to_balance (fst e) (snd e)) xs s) \<and>
    balance_of (accounts_of (fold (\<lambda>e. add_to_balance (fst e) (snd e)) xs s)) a = balance_of (accounts_of s) a + credited xs a"
  using assms
proof (induction xs arbitrary: s)
  case (Cons e xs)
  then show ?case
    using add_to_balance_law [OF Cons.prems, of "fst e" "snd e"] by (simp add: balance_of_with_balance add.assoc)
qed simp

text \<open>A credit after which the empty accounts among the touched ones go.\<close>

definition credit_and_sweep :: "address \<Rightarrow> u256 \<Rightarrow> 's \<Rightarrow> 's" where
  "credit_and_sweep a v s = (let s = add_to_balance a v s in destruct_dead_among (touched s) s)"

lemma credit_and_sweep_law:
  assumes "inv s"
  shows "inv (credit_and_sweep a v s)"
    "balance_of (accounts_of (credit_and_sweep a v s)) b = balance_of (accounts_of s) b + (if a = b then v else 0)"
    "c \<in> insert a (set (touched s)) \<Longrightarrow>
      accounts_of (credit_and_sweep a v s) c = None \<or> \<not> acct_dead (accounts_of (credit_and_sweep a v s) c)"
    "insert a (set (touched s)) \<subseteq> set (touched (credit_and_sweep a v s))"
proof -
  let ?s = "add_to_balance a v s"
  have s: "inv ?s" "accounts_of ?s = with_balance a (balance_of (accounts_of s) a + v) (accounts_of s)"
    using add_to_balance_law [OF assms] by simp_all
  have sweep: "inv (credit_and_sweep a v s)" "accounts_of (credit_and_sweep a v s) = remove_dead (touched ?s) (accounts_of ?s)"
    using destruct_dead_law [OF s(1)] by (simp_all add: credit_and_sweep_def Let_def)
  show "inv (credit_and_sweep a v s)"
    by (rule sweep(1))
  show "balance_of (accounts_of (credit_and_sweep a v s)) b = balance_of (accounts_of s) b + (if a = b then v else 0)"
    by (simp add: sweep(2) balance_of_remove_dead s(2) balance_of_with_balance)
  show "accounts_of (credit_and_sweep a v s) c = None \<or> \<not> acct_dead (accounts_of (credit_and_sweep a v s) c)"
    if "c \<in> insert a (set (touched s))"
    unfolding sweep(2) using that by (intro remove_dead_gone) (simp add: add_to_balance_touched)
  show "insert a (set (touched s)) \<subseteq> set (touched (credit_and_sweep a v s))"
    using destruct_dead_touched [of ?s "touched ?s"] by (simp add: credit_and_sweep_def Let_def add_to_balance_touched)
qed

text \<open>No account in a set is there and empty.\<close>

definition swept :: "address set \<Rightarrow> 's \<Rightarrow> bool" where
  "swept T s \<longleftrightarrow> (\<forall>c \<in> T. accounts_of s c = None \<or> \<not> acct_dead (accounts_of s c))"

lemma credits_and_sweeps:
  assumes "inv s" "swept T s" "T \<subseteq> set (touched s)"
  shows "inv (fold (\<lambda>e. credit_and_sweep (fst e) (snd e)) xs s) \<and>
    balance_of (accounts_of (fold (\<lambda>e. credit_and_sweep (fst e) (snd e)) xs s)) a = balance_of (accounts_of s) a + credited xs a \<and>
    swept (T \<union> fst ` set xs) (fold (\<lambda>e. credit_and_sweep (fst e) (snd e)) xs s)"
  using assms
proof (induction xs arbitrary: s T)
  case (Cons e xs)
  let ?s = "credit_and_sweep (fst e) (snd e) s"
  note step = credit_and_sweep_law [OF Cons.prems(1), where a = "fst e" and v = "snd e"]
  have "swept (insert (fst e) T) ?s"
    unfolding swept_def
  proof
    fix c
    assume "c \<in> insert (fst e) T"
    then have "c \<in> insert (fst e) (set (touched s))"
      using Cons.prems(3) by blast
    then show "accounts_of ?s c = None \<or> \<not> acct_dead (accounts_of ?s c)"
      by (rule step(3))
  qed
  moreover have "insert (fst e) T \<subseteq> set (touched ?s)"
    using step(4) Cons.prems(3) by blast
  ultimately show ?case
    using Cons.IH [OF step(1), of "insert (fst e) T"] step(2) [of a] by (simp add: add.assoc)
qed simp

text \<open>The balances of some accounts moved to another.\<close>

definition drain :: "address \<Rightarrow> address \<Rightarrow> 's \<Rightarrow> 's" where
  "drain target a s = set_balance a 0 (add_to_balance target (get_balance s a) s)"

lemma drain_law:
  assumes "inv s" "target \<noteq> a"
  shows "inv (drain target a s)"
    "balance_of (accounts_of (drain target a s)) b =
       (if b = a then 0 else if b = target then balance_of (accounts_of s) b + balance_of (accounts_of s) a
        else balance_of (accounts_of s) b)"
  using add_to_balance_law [OF assms(1), of target "get_balance s a"]
    set_balance_law [of "add_to_balance target (get_balance s a) s" a 0] get_balance_law [OF assms(1)] assms(2)
  by (simp_all add: drain_def balance_of_with_balance)

lemma drains:
  assumes "inv s" "target \<notin> set as" "distinct as"
  shows "inv (fold (drain target) as s) \<and>
    balance_of (accounts_of (fold (drain target) as s)) b =
      (if b \<in> set as then 0
       else if b = target then balance_of (accounts_of s) b + sum_list (map (balance_of (accounts_of s)) as)
       else balance_of (accounts_of s) b)"
  using assms
proof (induction as arbitrary: s)
  case (Cons a as)
  then have d: "inv (drain target a s)" and t: "target \<noteq> a"
    using drain_law(1) by auto
  have "map (balance_of (accounts_of (drain target a s))) as = map (balance_of (accounts_of s)) as"
    using Cons.prems by (auto simp: drain_law(2) [OF Cons.prems(1) t])
  then have "sum_list (map (balance_of (accounts_of (drain target a s))) as) = sum_list (map (balance_of (accounts_of s)) as)"
    by (rule arg_cong)
  then show ?case
    using Cons.IH [OF d] Cons.prems by (auto simp: drain_law(2) [OF Cons.prems(1) t] add.assoc)
qed simp

end

end
