(* ===== verification/State_Refinement.thy ===== *)
theory State_Refinement
  imports Account_Map
begin

text \<open>
  \<open>DirectState\<close> implements a map from addresses to accounts: the abstraction, the invariant and, for each operation, that
  it keeps the invariant and has its intended effect on the map.

  The abstraction and the invariant depend on the \<open>core\<close> of a state only, the records and the overflow slots. An
  operation at an address replaces the record and the overflow slots of that address in it (\<open>put\<close>), so
  a sequence of such steps is one step, and one lemma gives its effect on the map.
\<close>

section \<open>The core of a state\<close>

type_synonym overflow = "(bytes32 \<times> bytes32) list option"

record core =
  c_map :: mphf_map
  c_records :: "nat \<Rightarrow> account option"
  c_created :: "address \<Rightarrow> account option"
  c_overflow :: "address \<Rightarrow> overflow"

definition core :: "direct_state \<Rightarrow> core" where
  "core st = \<lparr>c_map = ds_map st, c_records = ds_records st, c_created = map_of (ds_created st),
              c_overflow = map_of (ds_overflow st)\<rparr>"

definition c_find :: "core \<Rightarrow> address \<Rightarrow> nat option" where
  "c_find c a =
     (case mphf_find (c_map c) (\<lambda>off. map_option acc_addr (c_records c off)) (addr_key8 a) a of Some r \<Rightarrow> r | None \<Rightarrow> None)"

definition c_lookup :: "core \<Rightarrow> address \<Rightarrow> account_ref option" where
  "c_lookup c a =
     (case c_find c a of
        Some off \<Rightarrow> Some (PreRecord off)
      | None \<Rightarrow> if c_created c a \<noteq> None then Some (CreatedRecord a) else None)"

fun c_record :: "core \<Rightarrow> account_ref \<Rightarrow> account" where
  "c_record c (PreRecord off) = (case c_records c off of Some pa \<Rightarrow> pa | None \<Rightarrow> absent_account [])"
| "c_record c (CreatedRecord a) = (case c_created c a of Some pa \<Rightarrow> pa | None \<Rightarrow> absent_account a)"

fun c_set :: "account_ref \<Rightarrow> account \<Rightarrow> core \<Rightarrow> core" where
  "c_set (PreRecord off) pa c = c\<lparr>c_records := (c_records c)(off := Some pa)\<rparr>"
| "c_set (CreatedRecord a) pa c = c\<lparr>c_created := (c_created c)(a := Some pa)\<rparr>"

definition put :: "address \<Rightarrow> account_ref \<Rightarrow> account \<Rightarrow> overflow \<Rightarrow> core \<Rightarrow> core" where
  "put a r pa ov c = (c_set r pa c)\<lparr>c_overflow := (c_overflow c)(a := ov)\<rparr>"

lemma find_pre_core: "find_pre_account st a = c_find (core st) a"
  by (simp add: find_pre_account_def c_find_def core_def)

lemma created_core: "map_of (ds_created st) a = c_created (core st) a"
  by (simp add: core_def)

lemma lookup_core: "lookup_account st a = c_lookup (core st) a"
  by (simp only: lookup_account_def c_lookup_def find_pre_core created_core)

lemma record_core: "record_at st r = c_record (core st) r"
  by (cases r) (simp_all add: core_def)

lemma core_set_record: "core (set_record r pa st) = c_set r pa (core st)"
  by (cases r) (simp_all add: core_def update_conv')

lemma overflow_core: "map_of (ds_overflow st) = c_overflow (core st)"
  by (simp add: core_def)

lemma core_overflow: "core (st\<lparr>ds_overflow := ov\<rparr>) = (core st)\<lparr>c_overflow := map_of ov\<rparr>"
  by (simp add: core_def)

lemma core_other [simp]:
  "core (st\<lparr>ds_touched := t\<rparr>) = core st" "core (st\<lparr>ds_wiped := w\<rparr>) = core st"
  "core (st\<lparr>ds_absent_reads := ar\<rparr>) = core st" "core (st\<lparr>ds_witness_incomplete := i\<rparr>) = core st"
  "core (st\<lparr>ds_changed_addresses := ca\<rparr>) = core st" "core (st\<lparr>ds_changed_storage := cs\<rparr>) = core st"
  "core (st\<lparr>ds_created_code := cc\<rparr>) = core st" "core (st\<lparr>ds_code_collisions := col\<rparr>) = core st"
  by (simp_all add: core_def)

lemma core_journals [simp]:
  "core (touch a st) = core st" "core (journal_address_changed a st) = core st"
  "core (journal_slot_changed a k st) = core st" "core (clear_change_journal st) = core st"
  "core (store_created_code h code st) = core st"
  by (simp_all add: touch_def journal_address_changed_def journal_slot_changed_def clear_change_journal_def
      store_created_code_def split: option.splits)

lemmas to_core = find_pre_core lookup_core record_core core_set_record overflow_core created_core core_overflow

subsection \<open>Replacing records\<close>

lemma set_record_overflow [simp]: "ds_overflow (set_record r pa st) = ds_overflow st"
  by (cases r) simp_all

lemma c_set_fields [simp]: "c_overflow (c_set r pa c) = c_overflow c" "c_map (c_set r pa c) = c_map c"
  by (cases r; simp)+

lemma c_record_set [simp]: "c_record (c_set r pa c) r' = (if r' = r then pa else c_record c r')"
  by (cases r; cases r') simp_all

lemma c_set_put: "c_set r pa c = put a r pa (c_overflow c a) c"
  by (cases r) (simp_all add: put_def)

lemma put_overflow [simp]: "c_overflow (put a r pa ov c) b = (if b = a then ov else c_overflow c b)"
  by (simp add: put_def)

lemma c_record_overflow [simp]: "c_record (c\<lparr>c_overflow := ov\<rparr>) r = c_record c r"
  by (cases r) simp_all

lemma put_record [simp]: "c_record (put a r pa ov c) r' = (if r' = r then pa else c_record c r')"
  by (simp add: put_def)

lemma put_put [simp]: "put a r pa' ov' (put a r pa ov c) = put a r pa' ov' c"
  by (cases r) (simp_all add: put_def)

lemma put_overflow_fun: "c_overflow (put a r pa ov c) = (c_overflow c)(a := ov)"
  by (simp add: put_def)

lemma put_overflow_update: "(put a r pa ov c)\<lparr>c_overflow := (c_overflow c)(a := ov')\<rparr> = put a r pa ov' c"
  by (simp add: put_def)

lemma put_created: "r = PreRecord off \<Longrightarrow> c_created (put a r pa ov c) = c_created c"
  by (simp add: put_def)

section \<open>The invariant\<close>

definition overflow_ok :: "slot list \<Rightarrow> (bytes32 \<times> bytes32) list \<Rightarrow> bool" where
  "overflow_ok slots m \<longleftrightarrow> m \<noteq> [] \<and> distinct (map fst m) \<and>
     (\<forall>e \<in> set m. length (fst e) = 32 \<and> snd e \<noteq> zero32 \<and> fst e \<notin> slot_key ` set slots)"

fun record_ok :: "account_ref \<Rightarrow> account \<Rightarrow> bool" where
  "record_ok (PreRecord off) pa \<longleftrightarrow> slots_sorted (slots_for pa)"
| "record_ok (CreatedRecord a) pa \<longleftrightarrow> acc_slot_count pa = 0"

text \<open>The encoding a record caches is that of its fields.\<close>

definition leaf_ok :: "account \<Rightarrow> bool" where
  "leaf_ok pa \<longleftrightarrow> cache_ok pa \<and> length (acc_code_hash pa) = 32"

text \<open>An account has overflow slots only while it is alive, and none that its record carries.\<close>

definition entry_ok :: "account_ref \<Rightarrow> account \<Rightarrow> overflow \<Rightarrow> bool" where
  "entry_ok r pa ov \<longleftrightarrow> record_ok r pa \<and> leaf_ok pa \<and> (\<forall>m. ov = Some m \<longrightarrow> \<not> acc_deleted pa \<and> overflow_ok (slots_for pa) m)"

definition address_ok :: "core \<Rightarrow> address \<Rightarrow> bool" where
  "address_ok c a \<longleftrightarrow>
     (case c_lookup c a of
        None \<Rightarrow> c_overflow c a = None
      | Some r \<Rightarrow> entry_ok r (c_record c r) (c_overflow c a))"

definition records_ok :: "core \<Rightarrow> bool" where
  "records_ok c \<longleftrightarrow>
     tables_ok (c_map c) \<and> (\<forall>off \<in> set (for_each_offset (c_map c)). c_records c off \<noteq> None) \<and>
     (\<forall>a. c_created c a \<noteq> None \<longrightarrow> c_find c a = None)"

definition core_ok :: "core \<Rightarrow> bool" where
  "core_ok c \<longleftrightarrow> records_ok c \<and> (\<forall>a. address_ok c a)"

definition state_ok :: "direct_state \<Rightarrow> bool" where
  "state_ok st \<longleftrightarrow> core_ok (core st)"

section \<open>The abstraction\<close>

text \<open>Storage keys have 32 bytes.\<close>

definition slot_value :: "account \<Rightarrow> overflow \<Rightarrow> bytes32 \<Rightarrow> bytes32" where
  "slot_value pa ov key =
     (if length key \<noteq> 32 then zero32
      else case find_slot (slots_for pa) key of
             Some i \<Rightarrow> slot_current (slots_for pa ! i)
           | None \<Rightarrow> (case Option.bind ov (\<lambda>m. map_of m key) of Some v \<Rightarrow> v | None \<Rightarrow> zero32))"

definition acct_of :: "account \<Rightarrow> overflow \<Rightarrow> acct option" where
  "acct_of pa ov =
     (if acc_deleted pa then None
      else Some \<lparr>a_nonce = acc_nonce pa, a_balance = acc_balance pa, a_code_hash = acc_code_hash pa,
                 a_storage = slot_value pa ov\<rparr>)"

definition abs_core :: "core \<Rightarrow> accounts" where
  "abs_core c a = Option.bind (c_lookup c a) (\<lambda>r. acct_of (c_record c r) (c_overflow c a))"

definition abs_state :: "direct_state \<Rightarrow> accounts" where
  "abs_state st = abs_core (core st)"

section \<open>One step at an address\<close>

lemma c_find_sound:
  assumes "c_find c a = Some off"
  shows "map_option acc_addr (c_records c off) = Some a" "off \<in> set (for_each_offset (c_map c))"
proof -
  have f: "mphf_find (c_map c) (\<lambda>off. map_option acc_addr (c_records c off)) (addr_key8 a) a = Some (Some off)"
    using assms by (auto simp: c_find_def split: option.splits)
  show "map_option acc_addr (c_records c off) = Some a" "off \<in> set (for_each_offset (c_map c))"
    using mphf_find_sound [OF f] by simp_all
qed

lemma find_pre_account_defined:
  assumes "state_ok st"
  shows "mphf_find (ds_map st) (\<lambda>off. map_option acc_addr (ds_records st off)) (addr_key8 a) a = Some (find_pre_account st a)"
proof -
  have "mphf_find (ds_map st) (\<lambda>off. map_option acc_addr (ds_records st off)) (addr_key8 a) a \<noteq> None"
    using assms by (intro mphf_find_defined) (auto simp: state_ok_def core_ok_def records_ok_def core_def)
  then show ?thesis
    by (auto simp: find_pre_account_def)
qed

text \<open>No two addresses share a record.\<close>

lemma c_lookup_cases:
  assumes "c_lookup c a = Some r"
  obtains (pre) off where "r = PreRecord off" "c_find c a = Some off" "map_option acc_addr (c_records c off) = Some a"
  | (created) "r = CreatedRecord a" "c_find c a = None" "c_created c a \<noteq> None"
proof (cases "c_find c a")
  case None
  then show ?thesis
    using assms by (auto simp: c_lookup_def split: if_splits intro: created)
next
  case (Some off)
  then show ?thesis
    using assms c_find_sound(1) [OF Some] by (auto simp: c_lookup_def intro: pre)
qed

lemma c_lookup_inj: "c_lookup c a = Some r \<Longrightarrow> c_lookup c b = Some r \<Longrightarrow> a = b"
  by (erule c_lookup_cases; erule c_lookup_cases) auto

lemma c_find_cong:
  assumes "c_map c' = c_map c" "\<And>off. map_option acc_addr (c_records c' off) = map_option acc_addr (c_records c off)"
  shows "c_find c' a = c_find c a"
  using assms by (simp add: c_find_def)

lemma c_find_put:
  assumes "c_lookup c a = Some r" "acc_addr pa = acc_addr (c_record c r)"
  shows "c_find (put a r pa ov c) b = c_find c b"
  using assms by (intro c_find_cong) (auto elim!: c_lookup_cases simp: put_def)

lemma c_created_put:
  assumes "c_lookup c a = Some r"
  shows "c_created (put a r pa ov c) b = None \<longleftrightarrow> c_created c b = None"
  using assms by (auto elim!: c_lookup_cases simp: put_def split: if_splits)

lemma c_lookup_put:
  assumes "c_lookup c a = Some r" "acc_addr pa = acc_addr (c_record c r)"
  shows "c_lookup (put a r pa ov c) b = c_lookup c b"
  using c_find_put [OF assms] c_created_put [OF assms(1)] by (simp add: c_lookup_def split: option.split)

lemma records_ok_put:
  assumes "records_ok c" "c_lookup c a = Some r" "acc_addr pa = acc_addr (c_record c r)"
  shows "records_ok (put a r pa ov c)"
proof -
  have "\<forall>off \<in> set (for_each_offset (c_map c)). c_records (put a r pa ov c) off \<noteq> None"
    using assms(1) by (cases r) (auto simp: records_ok_def put_def)
  moreover have "c_map (put a r pa ov c) = c_map c"
    by (simp add: put_def)
  ultimately show ?thesis
    using assms(1) c_find_put [OF assms(2,3)] c_created_put [OF assms(2)] by (simp add: records_ok_def)
qed

lemma core_ok_put:
  assumes "core_ok c" "c_lookup c a = Some r" "acc_addr pa = acc_addr (c_record c r)" "entry_ok r pa ov"
  shows "core_ok (put a r pa ov c)"
proof -
  have "address_ok (put a r pa ov c) b" for b
  proof (cases "b = a")
    case True
    then show ?thesis
      using assms by (simp add: address_ok_def c_lookup_put)
  next
    case False
    then have "c_lookup c b \<noteq> Some r"
      using c_lookup_inj [OF assms(2)] by blast
    moreover have "address_ok c b"
      using assms(1) by (simp add: core_ok_def)
    ultimately show ?thesis
      using False by (auto simp: address_ok_def c_lookup_put [OF assms(2,3)] split: option.splits)
  qed
  then show ?thesis
    using assms records_ok_put by (simp add: core_ok_def)
qed

lemma abs_core_put:
  assumes "c_lookup c a = Some r" "acc_addr pa = acc_addr (c_record c r)"
  shows "abs_core (put a r pa ov c) = (abs_core c)(a := acct_of pa ov)"
proof
  fix b
  show "abs_core (put a r pa ov c) b = ((abs_core c)(a := acct_of pa ov)) b"
  proof (cases "b = a")
    case True
    then show ?thesis
      using assms by (simp add: abs_core_def c_lookup_put)
  next
    case False
    then have "c_lookup c b \<noteq> Some r"
      using c_lookup_inj [OF assms(1)] by blast
    then show ?thesis
      using False by (cases "c_lookup c b") (auto simp: abs_core_def c_lookup_put [OF assms])
  qed
qed

lemma put_self:
  assumes "c_lookup c a = Some r"
  shows "put a r (c_record c r) (c_overflow c a) c = c"
  using assms by (rule c_lookup_cases) (auto simp: put_def fun_upd_idem)

lemma current_entry: "state_ok st \<Longrightarrow> c_lookup (core st) a = Some r \<Longrightarrow> entry_ok r (c_record (core st) r) (c_overflow (core st) a)"
  by (auto simp: state_ok_def core_ok_def address_ok_def dest!: spec [of _ a])

lemma current_acct: "c_lookup (core st) a = Some r \<Longrightarrow> abs_state st a = acct_of (c_record (core st) r) (c_overflow (core st) a)"
  by (simp add: abs_state_def abs_core_def)

lemma step_contract:
  assumes "state_ok st" "c_lookup (core st) a = Some r" "core st' = put a r pa ov (core st)"
    "acc_addr pa = acc_addr (c_record (core st) r)" "entry_ok r pa ov"
  shows "state_ok st'" "c_lookup (core st') = c_lookup (core st)" "abs_state st' = (abs_state st)(a := acct_of pa ov)"
  using assms by (simp_all add: state_ok_def abs_state_def core_ok_put c_lookup_put abs_core_put fun_eq_iff)

section \<open>Changes of records\<close>

lemma slots_for_update [simp]:
  "slots_for (pa\<lparr>acc_modified := x\<rparr>) = slots_for pa" "slots_for (pa\<lparr>acc_rlp_sroot_off := y\<rparr>) = slots_for pa"
  "slots_for (pa\<lparr>acc_absent_reads := n\<rparr>) = slots_for pa" "slots_for (pa\<lparr>acc_nonce := k\<rparr>) = slots_for pa"
  "slots_for (pa\<lparr>acc_balance := b\<rparr>) = slots_for pa" "slots_for (pa\<lparr>acc_code_hash := h\<rparr>) = slots_for pa"
  "slots_for (pa\<lparr>acc_storage_root := h\<rparr>) = slots_for pa" "slots_for (pa\<lparr>acc_code_store_offset := n\<rparr>) = slots_for pa"
  "slots_for (pa\<lparr>acc_code_store_len := n\<rparr>) = slots_for pa" "slots_for (pa\<lparr>acc_deleted := x\<rparr>) = slots_for pa"
  by (simp_all add: slots_for_def)

lemma leaf_ok_update [simp]:
  "leaf_ok (pa\<lparr>acc_modified := x\<rparr>) = leaf_ok pa" "leaf_ok (pa\<lparr>acc_absent_reads := n\<rparr>) = leaf_ok pa"
  "leaf_ok (pa\<lparr>acc_storage_root := h\<rparr>) = leaf_ok pa" "leaf_ok (pa\<lparr>acc_slot_count := n\<rparr>) = leaf_ok pa"
  "leaf_ok (pa\<lparr>acc_slots := ss\<rparr>) = leaf_ok pa" "leaf_ok (pa\<lparr>acc_deleted := x\<rparr>) = leaf_ok pa"
  by (simp_all add: leaf_ok_def cache_ok_def account_leaf_def account_items_def sroot_off_def)

lemma leaf_ok_fresh: "acc_rlp_sroot_off pa = 0 \<Longrightarrow> length (acc_code_hash pa) = 32 \<Longrightarrow> leaf_ok pa"
  by (simp add: leaf_ok_def cache_ok_def)

lemma leaf_ok_mark_changed: "leaf_ok (mark_changed pa) \<longleftrightarrow> length (acc_code_hash pa) = 32"
  by (simp add: leaf_ok_def cache_ok_def mark_changed_def)

lemma leaf_ok_length: "leaf_ok pa \<Longrightarrow> length (acc_code_hash pa) = 32"
  by (simp add: leaf_ok_def)

lemma length_kEmptyHash: "length kEmptyHash = 32"
  by (simp add: kEmptyHash_def)

text \<open>What an abstract account and the invariant see of a record.\<close>

lemma record_ok_cong:
  "slots_for pa' = slots_for pa \<Longrightarrow> acc_slot_count pa' = acc_slot_count pa \<Longrightarrow> record_ok r pa' = record_ok r pa"
  by (cases r) simp_all

lemma entry_ok_cong:
  "slots_for pa' = slots_for pa \<Longrightarrow> acc_slot_count pa' = acc_slot_count pa \<Longrightarrow> acc_deleted pa' = acc_deleted pa \<Longrightarrow>
   leaf_ok pa' = leaf_ok pa \<Longrightarrow> entry_ok r pa' ov = entry_ok r pa ov"
  by (simp add: entry_ok_def cong: record_ok_cong)

lemma slot_value_cong: "slots_for pa' = slots_for pa \<Longrightarrow> slot_value pa' ov = slot_value pa ov"
  by (simp add: slot_value_def fun_eq_iff split: option.split)

lemma slot_value_update [simp]:
  "slot_value (pa\<lparr>acc_nonce := n\<rparr>) ov = slot_value pa ov" "slot_value (pa\<lparr>acc_balance := b\<rparr>) ov = slot_value pa ov"
  "slot_value (pa\<lparr>acc_code_hash := h\<rparr>) ov = slot_value pa ov" "slot_value (pa\<lparr>acc_modified := m\<rparr>) ov = slot_value pa ov"
  by (rule slot_value_cong; simp)+

lemma mark_changed_simps [simp]:
  "slots_for (mark_changed pa) = slots_for pa" "acc_slot_count (mark_changed pa) = acc_slot_count pa"
  "acc_deleted (mark_changed pa) = acc_deleted pa" "acc_addr (mark_changed pa) = acc_addr pa"
  "acc_nonce (mark_changed pa) = acc_nonce pa" "acc_balance (mark_changed pa) = acc_balance pa"
  "acc_code_hash (mark_changed pa) = acc_code_hash pa"
  by (simp_all add: mark_changed_def)

lemma acct_of_cong:
  "slots_for pa' = slots_for pa \<Longrightarrow> acc_deleted pa' = acc_deleted pa \<Longrightarrow> acc_nonce pa' = acc_nonce pa \<Longrightarrow>
   acc_balance pa' = acc_balance pa \<Longrightarrow> acc_code_hash pa' = acc_code_hash pa \<Longrightarrow> acct_of pa' ov = acct_of pa ov"
  by (simp add: acct_of_def slot_value_cong [of pa' pa])

lemma entry_ok_no_slots: "acc_slot_count pa = 0 \<Longrightarrow> leaf_ok pa \<Longrightarrow> entry_ok r pa None"
  by (cases r) (simp_all add: entry_ok_def slots_for_def slots_sorted_def)

lemma find_slot_Nil [simp]: "find_slot [] key = None"
  by (simp add: find_slot_def search_slot.simps)

lemma slot_value_none: "slots_for pa = [] \<Longrightarrow> slot_value pa None = (\<lambda>key. zero32)"
  by (auto simp: slot_value_def)

section \<open>Reading\<close>

lemma core_materialize:
  assumes "c_lookup (core st) a = None"
  shows "materialize_absent_account st a = (CreatedRecord a, snd (materialize_absent_account st a))"
    "core (snd (materialize_absent_account st a)) = (core st)\<lparr>c_created := (c_created (core st))(a := Some (absent_account a))\<rparr>"
  using assms by (auto simp: materialize_absent_account_def core_def c_lookup_def update_conv' split: option.splits if_splits)

lemma materialize_ok:
  assumes "state_ok st" "c_lookup (core st) a = None" and
    c': "core st' = (core st)\<lparr>c_created := (c_created (core st))(a := Some (absent_account a))\<rparr>"
  shows "state_ok st'" "abs_state st' = abs_state st" "c_lookup (core st') a = Some (CreatedRecord a)"
    "\<And>b x. c_lookup (core st) b = Some x \<Longrightarrow> c_lookup (core st') b = Some x"
proof -
  let ?c = "core st" and ?c' = "core st'"
  have find: "c_find ?c' b = c_find ?c b" for b
    by (rule c_find_cong) (simp_all add: c')
  have none: "c_find ?c a = None" "c_overflow ?c a = None"
    using assms(1,2) by (auto simp: state_ok_def core_ok_def address_ok_def c_lookup_def split: option.splits dest: spec [of _ a])
  have lookup: "c_lookup ?c' b = (if b = a then Some (CreatedRecord a) else c_lookup ?c b)" for b
    using none by (simp add: c_lookup_def find) (auto simp: c' split: option.splits)
  then show "c_lookup ?c' a = Some (CreatedRecord a)" "\<And>b x. c_lookup ?c b = Some x \<Longrightarrow> c_lookup ?c' b = Some x"
    using assms(2) by auto
  have rec: "c_record ?c' r = c_record ?c r" if "c_lookup ?c b = Some r" "b \<noteq> a" for b r
    using that by (elim c_lookup_cases) (auto simp: c')
  have "address_ok ?c' b" for b
  proof (cases "b = a")
    case True
    have "entry_ok (CreatedRecord a) (absent_account a) None"
      by (rule entry_ok_no_slots) (simp_all add: absent_account_def leaf_ok_fresh length_kEmptyHash)
    then show ?thesis
      using True none by (simp add: address_ok_def lookup) (simp add: c')
  next
    case False
    have "address_ok ?c b"
      using assms(1) by (simp add: state_ok_def core_ok_def)
    then show ?thesis
      using False rec [of b] by (auto simp: address_ok_def lookup split: option.splits) (simp_all add: c')
  qed
  moreover have "records_ok ?c'"
    using assms(1) none find by (simp add: records_ok_def state_ok_def core_ok_def c')
  ultimately show "state_ok st'"
    by (simp add: state_ok_def core_ok_def)
  show "abs_state st' = abs_state st"
  proof
    fix b
    show "abs_state st' b = abs_state st b"
    proof (cases "b = a")
      case True
      then show ?thesis
        using assms(2) by (simp add: abs_state_def abs_core_def lookup) (simp add: c' acct_of_def absent_account_def)
    next
      case False
      then show ?thesis
        using rec [of b] by (cases "c_lookup ?c b") (simp_all add: abs_state_def abs_core_def lookup, simp_all add: c')
    qed
  qed
qed

lemma observe_account_ok:
  assumes "state_ok st" "observe_account st a = (r, st')"
  shows "state_ok st' \<and> abs_state st' = abs_state st \<and> c_lookup (core st') a = Some r \<and>
    (\<forall>b x. c_lookup (core st) b = Some x \<longrightarrow> c_lookup (core st') b = Some x)"
proof (cases "c_lookup (core st) a")
  case None
  then have "(r, st') = materialize_absent_account st a"
    using assms(2) by (simp add: observe_account_def lookup_core)
  then have "r = CreatedRecord a" "core st' = (core st)\<lparr>c_created := (c_created (core st))(a := Some (absent_account a))\<rparr>"
    using core_materialize [OF None] by (metis fst_conv, metis snd_conv)
  then show ?thesis
    using materialize_ok [OF assms(1) None] by simp
next
  case (Some r')
  then show ?thesis
    using assms by (simp add: observe_account_def lookup_core)
qed

lemma note_absent_read_core:
  assumes "c_lookup (core st) a = Some r"
  obtains n where "core (note_absent_read r key st) =
    put a r ((c_record (core st) r)\<lparr>acc_absent_reads := n\<rparr>) (c_overflow (core st) a) (core st)"
proof (cases "acc_storage_root (c_record (core st) r) = kEmptyRoot")
  case True
  have "core (note_absent_read r key st) = core st"
    using True by (simp add: note_absent_read_def to_core)
  then show ?thesis
    using put_self [OF assms] by (intro that [of "acc_absent_reads (c_record (core st) r)"]) simp
next
  case False
  then show ?thesis
    by (intro that) (simp add: note_absent_read_def Let_def to_core c_set_put [of r _ _ a])
qed

lemma note_absent_read_ok:
  assumes "state_ok st" "c_lookup (core st) a = Some r"
  shows "state_ok (note_absent_read r key st) \<and> abs_state (note_absent_read r key st) = abs_state st"
proof -
  let ?pa = "c_record (core st) r" and ?ov = "c_overflow (core st) a"
  from assms(2) obtain n where core': "core (note_absent_read r key st) = put a r (?pa\<lparr>acc_absent_reads := n\<rparr>) ?ov (core st)"
    by (rule note_absent_read_core)
  have "entry_ok r (?pa\<lparr>acc_absent_reads := n\<rparr>) ?ov"
    using current_entry [OF assms] by (simp cong: entry_ok_cong)
  then have "state_ok (note_absent_read r key st)"
    "abs_state (note_absent_read r key st) = (abs_state st)(a := acct_of (?pa\<lparr>acc_absent_reads := n\<rparr>) ?ov)"
    using step_contract [OF assms core'] by simp_all
  moreover have "acct_of (?pa\<lparr>acc_absent_reads := n\<rparr>) ?ov = abs_state st a"
    using current_acct [OF assms(2)] by (simp cong: acct_of_cong)
  ultimately show ?thesis
    by simp
qed

lemma read_storage_at_value:
  assumes "entry_ok r (record_at st r) (map_of (ds_overflow st) a)" "length key = 32"
  shows "fst (read_storage_at r a key st) =
    (case acct_of (record_at st r) (map_of (ds_overflow st) a) of None \<Rightarrow> zero32 | Some x \<Rightarrow> a_storage x key)"
proof (cases "acc_deleted (record_at st r)")
  case True
  then have "overflow_slot st a key = None"
    using assms(1) by (cases "map_of (ds_overflow st) a") (auto simp: entry_ok_def overflow_slot_def)
  then show ?thesis
    using True by (simp add: read_storage_at_def acct_of_def Let_def)
next
  case False
  have "slots_for (record_at st r) = []" if "\<not> acc_slot_count (record_at st r) > 0"
    using that by (simp add: slots_for_def word_gt_0)
  then show ?thesis
    using False assms(2)
    by (cases "acc_slot_count (record_at st r) > 0"; cases "find_slot (slots_for (record_at st r)) key")
      (auto simp: read_storage_at_def acct_of_def slot_value_def overflow_slot_def Let_def split: option.splits)
qed

lemma read_storage_at_state:
  "snd (read_storage_at r a key st) = st \<or> snd (read_storage_at r a key st) = note_absent_read r key st"
  by (simp add: read_storage_at_def Let_def split: option.split)

lemma read_storage_at_ok:
  assumes "state_ok st" "c_lookup (core st) a = Some r" "length key = 32" "read_storage_at r a key st = (v, st')"
  shows "v = a_storage (acct_or_fresh (abs_state st) a) key \<and> state_ok st' \<and> abs_state st' = abs_state st"
proof -
  have "st' = st \<or> st' = note_absent_read r key st"
    using read_storage_at_state [of r a key st] assms(4) by simp
  then have "state_ok st' \<and> abs_state st' = abs_state st"
    using note_absent_read_ok [OF assms(1,2)] assms(1) by auto
  moreover have "v = a_storage (acct_or_fresh (abs_state st) a) key"
    using read_storage_at_value [of r st a key] current_entry [OF assms(1,2)] current_acct [OF assms(2)] assms(3,4)
    by (simp add: record_core overflow_core acct_or_fresh_def fresh_acct_def split: option.splits)
  ultimately show ?thesis
    by simp
qed

lemma read_storage_ok:
  assumes "state_ok st" "length key = 32" "read_storage a key st = (v, st')"
  shows "v = a_storage (acct_or_fresh (abs_state st) a) key \<and> state_ok st' \<and> abs_state st' = abs_state st"
proof -
  obtain r st1 where obs: "observe_account st a = (r, st1)"
    by fastforce
  then have "read_storage_at r a key st1 = (v, st')"
    using assms(3) by (simp add: read_storage_def)
  then show ?thesis
    using read_storage_at_ok [OF _ _ assms(2)] observe_account_ok [OF assms(1) obs] by metis
qed

lemma read_account_abs:
  "abs_state st a = Option.bind (read_account st a) (\<lambda>pa. acct_of pa (map_of (ds_overflow st) a))"
  by (auto simp: abs_state_def abs_core_def read_account_def to_core acct_of_def split: option.split)

lemma read_account_alive: "read_account st a = Some pa \<Longrightarrow> \<not> acc_deleted pa"
  by (auto simp: read_account_def split: option.splits if_splits)

lemma read_account_acct:
  "read_account st a = Some pa \<Longrightarrow> \<exists>x. abs_state st a = Some x \<and> a_nonce x = acc_nonce pa \<and> a_balance x = acc_balance pa \<and>
     a_code_hash x = acc_code_hash pa"
  using read_account_alive by (auto simp: read_account_abs acct_of_def)

lemma get_balance_abs: "get_balance st a = a_balance (acct_or_fresh (abs_state st) a)"
  using read_account_acct [of st a]
  by (cases "read_account st a") (auto simp: get_balance_def acct_or_fresh_def fresh_acct_def read_account_abs)

lemma get_nonce_abs: "get_nonce st a = a_nonce (acct_or_fresh (abs_state st) a)"
  using read_account_acct [of st a]
  by (cases "read_account st a") (auto simp: get_nonce_def acct_or_fresh_def fresh_acct_def read_account_abs)

lemma is_empty_abs: "is_empty_account st a \<longleftrightarrow> abs_state st a \<noteq> None \<and> acct_dead (abs_state st a)"
  using read_account_acct [of st a]
  by (cases "read_account st a") (auto simp: is_empty_account_def acct_dead_def read_account_abs)

lemma is_dead_abs: "is_dead st a \<longleftrightarrow> acct_dead (abs_state st a)"
  using read_account_acct [of st a]
  by (cases "read_account st a") (auto simp: is_dead_def is_deleted_def is_empty_account_def acct_dead_def read_account_abs)

section \<open>Writing accounts\<close>

text \<open>
  The state after an operation that changes the account at \<open>a\<close>, whose record is \<open>r\<close>, to \<open>x\<close> and no other account.
\<close>

definition sets :: "address \<Rightarrow> account_ref \<Rightarrow> acct option \<Rightarrow> direct_state \<Rightarrow> direct_state \<Rightarrow> bool" where
  "sets a r x st st' \<longleftrightarrow> state_ok st' \<and> c_lookup (core st) a = Some r \<and> c_lookup (core st') = c_lookup (core st) \<and>
     abs_state st' = (abs_state st)(a := x)"

lemma sets_trans: "sets a r x st st1 \<Longrightarrow> sets a r y st1 st2 \<Longrightarrow> sets a r y st st2"
  by (simp add: sets_def)

lemma sets_refl: "state_ok st \<Longrightarrow> c_lookup (core st) a = Some r \<Longrightarrow> abs_state st a = x \<Longrightarrow> sets a r x st st"
  by (auto simp: sets_def)

lemma sets_core: "core st1 = core st' \<Longrightarrow> sets a r x st st1 = sets a r x st st'"
  by (simp add: sets_def state_ok_def abs_state_def)

lemma sets_put:
  assumes "state_ok st" "c_lookup (core st) a = Some r" "core st' = put a r pa ov (core st)"
    "acc_addr pa = acc_addr (c_record (core st) r)" "entry_ok r pa ov"
  shows "sets a r (acct_of pa ov) st st'"
  using step_contract [OF assms] assms(2) by (simp add: sets_def)

lemma sets_record:
  assumes "state_ok st" "c_lookup (core st) a = Some r" "acc_addr pa = acc_addr (record_at st r)"
    "slots_for pa = slots_for (record_at st r)" "acc_slot_count pa = acc_slot_count (record_at st r)"
    "acc_deleted pa = acc_deleted (record_at st r)" "leaf_ok pa"
  shows "sets a r (acct_of pa (map_of (ds_overflow st) a)) st (set_record r pa st)"
proof -
  have "record_ok r pa"
    using current_entry [OF assms(1,2)] record_ok_cong [OF assms(4,5)] by (simp add: entry_ok_def record_core)
  then have "entry_ok r pa (c_overflow (core st) a)"
    using assms(4,6,7) current_entry [OF assms(1,2)] by (simp add: entry_ok_def record_core)
  then show ?thesis
    unfolding overflow_core
    using assms(3) by (intro sets_put [OF assms(1,2)]) (simp_all add: record_core core_set_record c_set_put [of r _ _ a])
qed

lemma revive_if_deleted_ok:
  assumes "state_ok st" "c_lookup (core st) a = Some r"
  shows "sets a r (Some (acct_or_fresh (abs_state st) a)) st (revive_if_deleted r a st)"
proof (cases "acc_deleted (record_at st r)")
  case False
  then have "revive_if_deleted r a st = st" "abs_state st a = Some (acct_or_fresh (abs_state st) a)"
    using current_acct [OF assms(2)]
    by (simp_all add: revive_if_deleted_def acct_or_fresh_def acct_of_def record_core)
  then show ?thesis
    using sets_refl [OF assms] by simp
next
  case True
  have core': "core (revive_if_deleted r a st) = put a r (revived (record_at st r)) None (core st)"
    using True by (simp add: revive_if_deleted_def to_core put_def delete_conv')
  have "acct_of (revived (record_at st r)) None = Some fresh_acct"
    by (simp add: revived_def acct_of_def fresh_acct_def slot_value_none slots_for_def)
  moreover have "abs_state st a = None"
    using True current_acct [OF assms(2)] by (simp add: acct_of_def record_core)
  moreover have "entry_ok r (revived (record_at st r)) None"
    by (rule entry_ok_no_slots) (simp_all add: revived_def leaf_ok_mark_changed length_kEmptyHash)
  ultimately show ?thesis
    using sets_put [OF assms core'] by (simp add: acct_or_fresh_def revived_def record_core)
qed

text \<open>The setters: \<open>g\<close> is the effect of \<open>f\<close> on the abstract account.\<close>

lemma change_account_ok:
  assumes "state_ok st"
    and f: "\<And>pa. acc_addr (f pa) = acc_addr pa \<and> slots_for (f pa) = slots_for pa \<and> acc_slot_count (f pa) = acc_slot_count pa \<and>
                acc_deleted (f pa) = acc_deleted pa \<and> acc_code_hash (f pa) = acc_code_hash pa"
    and g: "\<And>pa ov. acct_of (f pa) ov = map_option g (acct_of pa ov)"
    and same: "\<And>pa ov. \<not> changed pa \<Longrightarrow> acct_of (f pa) ov = acct_of pa ov"
  shows "state_ok (change_account f changed a st) \<and>
    abs_state (change_account f changed a st) = (abs_state st)(a := Some (g (acct_or_fresh (abs_state st) a)))"
proof -
  obtain r st1 where obs: "observe_account st a = (r, st1)"
    by fastforce
  have st1: "state_ok st1" "abs_state st1 = abs_state st" "c_lookup (core st1) a = Some r"
    using observe_account_ok [OF assms(1) obs] by simp_all
  define st2 where "st2 = revive_if_deleted r a st1"
  let ?x = "acct_or_fresh (abs_state st) a" and ?pa = "record_at st2 r"
  have s2: "sets a r (Some ?x) st1 st2"
    using revive_if_deleted_ok [OF st1(1,3)] by (simp add: st2_def st1(2))
  then have st2: "state_ok st2" "c_lookup (core st2) a = Some r" "abs_state st2 a = Some ?x"
    by (simp_all add: sets_def)
  then have x: "acct_of ?pa (map_of (ds_overflow st2) a) = Some ?x"
    using current_acct [OF st2(2)] by (simp add: record_core overflow_core)
  define st3 where
    "st3 = touch a (if changed ?pa then journal_address_changed a (set_record r (mark_changed (f ?pa)) st2) else st2)"
  have result: "change_account f changed a st = st3"
    by (simp add: change_account_def obs st3_def st2_def Let_def)
  have "sets a r (Some (g ?x)) st2 st3"
  proof (cases "changed ?pa")
    case True
    have core3: "core st3 = core (set_record r (mark_changed (f ?pa)) st2)"
      using True by (simp add: st3_def)
    have "acct_of (mark_changed (f ?pa)) ov = acct_of (f ?pa) ov" for ov
      by (simp cong: acct_of_cong)
    moreover have "leaf_ok (mark_changed (f ?pa))"
      using f [of ?pa] current_entry [OF st2(1,2)] by (simp add: leaf_ok_mark_changed entry_ok_def leaf_ok_length record_core)
    ultimately show ?thesis
      using sets_record [OF st2(1,2), of "mark_changed (f ?pa)"] f x g unfolding sets_core [OF core3] by simp
  next
    case False
    then have "Some (g ?x) = Some ?x"
      using same [OF False, of "map_of (ds_overflow st2) a"] g [of ?pa "map_of (ds_overflow st2) a"] x by simp
    then show ?thesis
      using False sets_refl [OF st2] unfolding st3_def by (simp add: sets_core [of "touch a st2" st2])
  qed
  then have "sets a r (Some (g ?x)) st1 st3"
    using s2 sets_trans by blast
  then show ?thesis
    using result st1(2) by (simp add: sets_def)
qed

lemma set_balance_ok:
  "state_ok st \<Longrightarrow> state_ok (set_balance a v st) \<and>
     abs_state (set_balance a v st) = (abs_state st)(a := Some ((acct_or_fresh (abs_state st) a)\<lparr>a_balance := v\<rparr>))"
  unfolding set_balance_def
  by (rule change_account_ok) (auto simp: acct_of_def)

lemma add_to_balance_ok:
  "state_ok st \<Longrightarrow> state_ok (add_to_balance a v st) \<and>
     abs_state (add_to_balance a v st) =
       (abs_state st)(a := Some ((acct_or_fresh (abs_state st) a)\<lparr>a_balance := a_balance (acct_or_fresh (abs_state st) a) + v\<rparr>))"
  unfolding add_to_balance_def
  by (rule change_account_ok [where g = "\<lambda>x. x\<lparr>a_balance := a_balance x + v\<rparr>"]) (auto simp: acct_of_def)

lemma subtract_from_balance_ok:
  "state_ok st \<Longrightarrow> state_ok (subtract_from_balance a v st) \<and>
     abs_state (subtract_from_balance a v st) =
       (abs_state st)(a := Some ((acct_or_fresh (abs_state st) a)\<lparr>a_balance := a_balance (acct_or_fresh (abs_state st) a) - v\<rparr>))"
  unfolding subtract_from_balance_def
  by (rule change_account_ok [where g = "\<lambda>x. x\<lparr>a_balance := a_balance x - v\<rparr>"]) (auto simp: acct_of_def)

lemma set_nonce_ok:
  "state_ok st \<Longrightarrow> state_ok (set_nonce a n st) \<and>
     abs_state (set_nonce a n st) = (abs_state st)(a := Some ((acct_or_fresh (abs_state st) a)\<lparr>a_nonce := n\<rparr>))"
  unfolding set_nonce_def
  by (rule change_account_ok) (auto simp: acct_of_def)

section \<open>Writing storage\<close>

definition overflow_set :: "bytes32 \<Rightarrow> bytes32 \<Rightarrow> overflow \<Rightarrow> overflow" where
  "overflow_set key v ov =
     (if v = zero32
      then case ov of
             None \<Rightarrow> None
           | Some m \<Rightarrow> if AList.delete key m = [] then None else Some (AList.delete key m)
      else Some (AList.update key v (case ov of None \<Rightarrow> [] | Some m \<Rightarrow> m)))"

definition set_slot :: "nat \<Rightarrow> bytes32 \<Rightarrow> account \<Rightarrow> account" where
  "set_slot i v pa = pa\<lparr>acc_slots := (acc_slots pa)[i := (acc_slots pa ! i)\<lparr>slot_current := v\<rparr>]\<rparr>"

lemma find_slot_count: "find_slot (slots_for pa) key = Some i \<Longrightarrow> acc_slot_count pa > 0"
  by (cases "acc_slot_count pa = 0") (simp_all add: slots_for_def word_gt_0)

lemma core_set_storage_found:
  assumes "find_slot (slots_for (record_at st r)) key = Some i"
  shows "core (set_storage_slot r a key v st) =
    put a r (set_slot i v ((record_at st r)\<lparr>acc_modified := True\<rparr>)) (map_of (ds_overflow st) a) (core st)"
  using assms find_slot_count [OF assms]
  by (simp add: set_storage_slot_def Let_def to_core c_set_put [of r _ _ a] set_slot_def)

lemma core_set_storage_overflow:
  assumes "find_slot (slots_for (record_at st r)) key = None"
  shows "core (set_storage_slot r a key v st) =
    put a r ((record_at st r)\<lparr>acc_modified := True\<rparr>) (overflow_set key v (map_of (ds_overflow st) a)) (core st)"
proof (cases "map_of (ds_overflow st) a")
  case None
  have "c_overflow (core st) a = None"
    using None by (simp add: overflow_core)
  then show ?thesis
    using assms by (simp add: set_storage_slot_def Let_def to_core overflow_set_def update_conv' put_def fun_upd_idem)
next
  case (Some m)
  have "c_overflow (core st) a = Some m"
    using Some by (simp add: overflow_core)
  then show ?thesis
    using assms
    by (simp add: set_storage_slot_def Let_def to_core overflow_set_def update_conv' delete_conv' put_def)
qed

lemma slots_for_set_slot:
  assumes "i < length (slots_for pa)"
  shows "slots_for (set_slot i v pa) = (slots_for pa)[i := (slots_for pa ! i)\<lparr>slot_current := v\<rparr>]"
  using assms by (simp add: slots_for_def set_slot_def take_update_swap)

lemma slot_keys_update: "map slot_key (ss[i := (ss ! i)\<lparr>slot_current := v\<rparr>]) = map slot_key ss"
  by (cases "i < length ss") (simp_all add: map_update list_update_same_conv list_update_beyond)

lemma slots_sorted_keys: "slots_sorted ss \<longleftrightarrow> (\<forall>k \<in> set (map slot_key ss). length k = 32) \<and> sorted_wrt (\<lambda>a b. be_nat a < be_nat b) (map slot_key ss)"
  by (simp add: slots_sorted_def sorted_wrt_map)

lemma find_slot_keys:
  assumes "slots_sorted ss" "map slot_key ss' = map slot_key ss" "length key = 32"
  shows "find_slot ss' key = find_slot ss key"
proof -
  have "slots_sorted ss'"
    using assms by (simp add: slots_sorted_keys)
  moreover have "length ss' = length ss"
    using assms(2) by (metis length_map)
  moreover have "slot_key (ss' ! i) = slot_key (ss ! i)" if "i < length ss" for i
    using that assms(2) \<open>length ss' = length ss\<close> by (metis nth_map)
  ultimately have "find_slot ss' key = Some i \<longleftrightarrow> find_slot ss key = Some i" for i
    using assms(1,3) by (auto simp: find_slot_exact)
  then show ?thesis
    by (metis not_None_eq)
qed

lemma record_ok_sorted: "record_ok r pa \<Longrightarrow> slots_sorted (slots_for pa)"
  by (cases r) (simp_all add: slots_for_def slots_sorted_def)

lemma slot_value_set_slot:
  assumes "record_ok r pa" "length key = 32" "find_slot (slots_for pa) key = Some i"
  shows "slot_value (set_slot i v pa) ov = (slot_value pa ov)(key := v)"
proof
  fix k
  have i: "i < length (slots_for pa)" "slot_key (slots_for pa ! i) = key"
    using assms find_slot_exact [OF record_ok_sorted [OF assms(1)] assms(2)] by simp_all
  have find: "find_slot (slots_for (set_slot i v pa)) k = find_slot (slots_for pa) k" if "length k = 32" for k
    by (rule find_slot_keys [OF record_ok_sorted [OF assms(1)] _ that]) (simp add: slots_for_set_slot [OF i(1)] slot_keys_update)
  show "slot_value (set_slot i v pa) ov k = ((slot_value pa ov)(key := v)) k"
  proof (cases "k = key")
    case True
    then show ?thesis
      using assms i find [of key] by (simp add: slot_value_def slots_for_set_slot)
  next
    case False
    then have "j \<noteq> i" if "length k = 32" "find_slot (slots_for pa) k = Some j" for j
      using that i find_slot_exact [OF record_ok_sorted [OF assms(1)], of k] by auto
    then show ?thesis
      using False i find by (auto simp: slot_value_def slots_for_set_slot split: option.splits)
  qed
qed

lemma entry_ok_set_slot:
  assumes "entry_ok r pa ov" "i < length (slots_for pa)"
  shows "entry_ok r (set_slot i v pa) ov"
proof -
  have keys: "map slot_key (slots_for (set_slot i v pa)) = map slot_key (slots_for pa)"
    using assms(2) by (simp add: slots_for_set_slot slot_keys_update)
  have "acc_deleted (set_slot i v pa) = acc_deleted pa"
    by (simp add: set_slot_def)
  have "record_ok r (set_slot i v pa)"
    using assms(1) keys by (cases r) (simp_all add: entry_ok_def slots_sorted_keys set_slot_def)
  moreover have "slot_key ` set (slots_for (set_slot i v pa)) = slot_key ` set (slots_for pa)"
    using keys by (metis set_map)
  ultimately show ?thesis
    using assms(1) \<open>acc_deleted (set_slot i v pa) = acc_deleted pa\<close>
    by (simp add: entry_ok_def overflow_ok_def) (simp add: set_slot_def)
qed

lemma find_slot_absent:
  assumes "slots_sorted ss" "length key = 32" "find_slot ss key = None"
  shows "key \<notin> slot_key ` set ss"
proof
  assume "key \<in> slot_key ` set ss"
  then obtain i where "i < length ss" "slot_key (ss ! i) = key"
    by (metis imageE in_set_conv_nth)
  then show False
    using assms find_slot_exact [OF assms(1,2), of i] by simp
qed

lemma slot_value_overflow_set:
  assumes "length key = 32" "find_slot (slots_for pa) key = None"
  shows "slot_value pa (overflow_set key v ov) = (slot_value pa ov)(key := v)"
proof
  fix k
  show "slot_value pa (overflow_set key v ov) k = ((slot_value pa ov)(key := v)) k"
    using assms
    by (cases ov; cases "find_slot (slots_for pa) k")
      (auto simp: slot_value_def overflow_set_def update_conv' delete_conv' dest!: arg_cong [where f = map_of] fun_cong [where x = k])
qed

lemma set_update_subset: "set (AList.update k v m) \<subseteq> insert (k, v) (set m)"
  by (induction m) auto

lemma entry_ok_overflow_set:
  assumes "entry_ok r pa ov" "\<not> acc_deleted pa" "length key = 32" "find_slot (slots_for pa) key = None"
  shows "entry_ok r pa (overflow_set key v ov)"
proof -
  have key: "key \<notin> slot_key ` set (slots_for pa)"
    using assms find_slot_absent record_ok_sorted by (auto simp: entry_ok_def)
  have m: "overflow_ok (slots_for pa) m" if "ov = Some m" for m
    using assms(1) that by (simp add: entry_ok_def)
  have "overflow_ok (slots_for pa) m'" if new: "overflow_set key v ov = Some m'" for m'
  proof (cases "v = zero32")
    case True
    then obtain m where "ov = Some m" "m' = AList.delete key m" "m' \<noteq> []"
      using new by (auto simp: overflow_set_def split: option.splits if_splits)
    then show ?thesis
      using m [of m] by (auto simp: overflow_ok_def AList.delete_eq distinct_map_filter)
  next
    case False
    define m where "m = (case ov of None \<Rightarrow> [] | Some m \<Rightarrow> m)"
    have m': "m' = AList.update key v m" "m = [] \<or> overflow_ok (slots_for pa) m"
      using new False m by (auto simp: overflow_set_def m_def split: option.splits)
    have "length (fst e) = 32 \<and> snd e \<noteq> zero32 \<and> fst e \<notin> slot_key ` set (slots_for pa)" if "e \<in> set m'" for e
    proof (cases "e = (key, v)")
      case True
      then show ?thesis
        using \<open>v \<noteq> zero32\<close> key assms(3) by simp
    next
      case False
      then have "e \<in> set m"
        using that set_update_subset [of key v m] by (auto simp: m'(1))
      then show ?thesis
        using m'(2) by (auto simp: overflow_ok_def)
    qed
    then show ?thesis
      using m' by (auto simp: overflow_ok_def distinct_update)
  qed
  then show ?thesis
    using assms(1,2) by (simp add: entry_ok_def)
qed

lemma set_storage_slot_ok:
  assumes "state_ok st" "c_lookup (core st) a = Some r" "abs_state st a = Some x" "length key = 32"
  shows "sets a r (Some (x\<lparr>a_storage := (a_storage x)(key := v)\<rparr>)) st (set_storage_slot r a key v st)"
proof -
  let ?pa = "(record_at st r)\<lparr>acc_modified := True\<rparr>" and ?ov = "map_of (ds_overflow st) a"
  have entry: "entry_ok r ?pa ?ov"
    using current_entry [OF assms(1,2)] unfolding overflow_core by (simp add: record_core cong: entry_ok_cong)
  have x: "acct_of ?pa ?ov = Some x"
    using current_acct [OF assms(2)] assms(3) unfolding overflow_core by (simp add: record_core cong: acct_of_cong)
  then have alive: "\<not> acc_deleted ?pa"
    by (auto simp: acct_of_def)
  have val: "acct_of pa' ov' = Some (x\<lparr>a_storage := (a_storage x)(key := v)\<rparr>)"
    if "slot_value pa' ov' = (slot_value ?pa ?ov)(key := v)" "acc_deleted pa' = acc_deleted ?pa" "acc_nonce pa' = acc_nonce ?pa"
      "acc_balance pa' = acc_balance ?pa" "acc_code_hash pa' = acc_code_hash ?pa" for pa' ov'
    using that x by (auto simp: acct_of_def split: if_splits)
  show ?thesis
  proof (cases "find_slot (slots_for ?pa) key")
    case None
    then have "find_slot (slots_for (record_at st r)) key = None"
      by simp
    then show ?thesis
      using sets_put [OF assms(1,2) core_set_storage_overflow [of st r key a v]]
        entry_ok_overflow_set [OF entry alive assms(4) None] slot_value_overflow_set [OF assms(4) None, of v ?ov]
        val [of ?pa "overflow_set key v ?ov"] by (simp add: record_core)
  next
    case (Some i)
    then have f: "find_slot (slots_for (record_at st r)) key = Some i"
      by simp
    have "record_ok r ?pa"
      using entry by (simp add: entry_ok_def)
    then have "i < length (slots_for ?pa)"
      using Some find_slot_exact [OF record_ok_sorted assms(4)] by blast
    then have "entry_ok r (set_slot i v ?pa) ?ov"
      by (rule entry_ok_set_slot [OF entry])
    moreover have "acct_of (set_slot i v ?pa) ?ov = Some (x\<lparr>a_storage := (a_storage x)(key := v)\<rparr>)"
      using slot_value_set_slot [OF \<open>record_ok r ?pa\<close> assms(4) Some]
      by (intro val) (simp_all, simp_all add: set_slot_def)
    moreover have "acc_addr (set_slot i v ?pa) = acc_addr (record_at st r)"
      by (simp add: set_slot_def)
    ultimately show ?thesis
      using sets_put [OF assms(1,2) core_set_storage_found [OF f, of a v]] by (simp add: record_core)
  qed
qed

section \<open>Writing code\<close>

lemma note_wiped_storage_core:
  assumes "c_lookup (core st) a = Some r"
  obtains n where "core (note_wiped_storage r st) =
    put a r ((c_record (core st) r)\<lparr>acc_absent_reads := n\<rparr>) (c_overflow (core st) a) (core st)"
proof (cases "acc_slot_count (c_record (core st) r) = 0 \<and> acc_absent_reads (c_record (core st) r) = 0")
  case True
  have "core (note_wiped_storage r st) = core st"
    using True by (simp add: note_wiped_storage_def to_core)
  then show ?thesis
    using put_self [OF assms] by (intro that [of "acc_absent_reads (c_record (core st) r)"]) simp
next
  case False
  have "core (note_wiped_storage r st) = put a r ((c_record (core st) r)\<lparr>acc_absent_reads := 0\<rparr>) (c_overflow (core st) a) (core st)"
    using False by (simp only: note_wiped_storage_def Let_def record_core if_False core_set_record core_other c_set_put [of r _ _ a])
  then show ?thesis
    by (rule that)
qed

lemma wipe_storage_ok:
  assumes "state_ok st" "c_lookup (core st) a = Some r" "abs_state st a = Some x"
  shows "sets a r (Some (x\<lparr>a_storage := \<lambda>key. zero32\<rparr>)) st (wipe_storage r a st)"
proof -
  let ?c = "core st"
  from assms(2) obtain n where w: "core (note_wiped_storage r st) =
    put a r ((c_record ?c r)\<lparr>acc_absent_reads := n\<rparr>) (c_overflow ?c a) ?c"
    by (rule note_wiped_storage_core)
  define pa where "pa = (c_record ?c r)\<lparr>acc_absent_reads := n, acc_slot_count := 0, acc_storage_root := kEmptyRoot\<rparr>"
  have core': "core (wipe_storage r a st) = put a r pa None ?c"
    by (simp add: wipe_storage_def Let_def to_core delete_conv' w c_set_put [of r _ _ a] put_overflow_fun put_overflow_update pa_def)
  have "acct_of (c_record ?c r) (c_overflow ?c a) = Some x"
    using current_acct [OF assms(2)] assms(3) by simp
  then have "acct_of pa None = Some (x\<lparr>a_storage := \<lambda>key. zero32\<rparr>)"
    by (auto simp: acct_of_def pa_def slots_for_def slot_value_none split: if_splits)
  moreover have "entry_ok r pa None"
    using current_entry [OF assms(1,2)] by (intro entry_ok_no_slots) (simp_all add: pa_def entry_ok_def)
  ultimately show ?thesis
    using sets_put [OF assms(1,2) core'] by (simp add: pa_def)
qed

lemma set_code_ok:
  assumes "state_ok st" "c_lookup (core st) a = Some r" "abs_state st a = Some x"
    "pa = (record_at st r)\<lparr>acc_code_hash := h, acc_code_store_len := n, acc_code_store_offset := m\<rparr>" "length h = 32"
  shows "sets a r (Some (x\<lparr>a_code_hash := h\<rparr>)) st (set_record r (mark_changed pa) st)"
proof -
  have "acct_of (record_at st r) (map_of (ds_overflow st) a) = Some x"
    using current_acct [OF assms(2)] assms(3) unfolding overflow_core by (simp add: record_core)
  moreover have "slot_value (mark_changed pa) ov = slot_value (record_at st r) ov" for ov
    by (rule slot_value_cong) (simp add: assms(4))
  ultimately have "acct_of (mark_changed pa) (map_of (ds_overflow st) a) = Some (x\<lparr>a_code_hash := h\<rparr>)"
    by (auto simp: acct_of_def assms(4) split: if_splits)
  then show ?thesis
    using sets_record [OF assms(1,2), of "mark_changed pa"] assms(5) by (simp add: assms(4) leaf_ok_mark_changed)
qed

lemma write_code_ok:
  assumes "state_ok st" "c_lookup (core st) a = Some r" "abs_state st a = Some x" "length h = 32"
  shows "sets a r (Some (x\<lparr>a_code_hash := h\<rparr>)) st (write_code r h code st)"
proof (cases "find_code_entry st h")
  case None
  have c: "core (write_code r h code st) =
    core (set_record r (mark_changed ((record_at st r)\<lparr>acc_code_hash := h, acc_code_store_len := of_nat (length code),
      acc_code_store_offset := kCreatedCodeOffset\<rparr>)) st)"
    by (simp add: write_code_def None)
  then show ?thesis
    using set_code_ok [OF assms(1-3) refl assms(4)] unfolding sets_core [OF c] by blast
next
  case (Some e)
  then show ?thesis
    using set_code_ok [OF assms(1-3) refl assms(4)] by (simp add: write_code_def split: prod.split)
qed

definition acct_code :: "(bytes \<Rightarrow> bytes32) \<Rightarrow> bytes \<Rightarrow> acct \<Rightarrow> acct" where
  "acct_code keccak256 code x =
     (if code = [] then x\<lparr>a_code_hash := kEmptyHash\<rparr>
      else if is_code_delegated code then x\<lparr>a_code_hash := keccak256 code\<rparr>
      else x\<lparr>a_code_hash := keccak256 code, a_storage := \<lambda>key. zero32\<rparr>)"

lemma apply_code_diff_ok:
  assumes "state_ok st" "c_lookup (core st) a = Some r" "abs_state st a = Some x"
    "code_hash = None \<or> code_hash = Some (keccak256 code)" "length (keccak256 code) = 32"
  obtains st' where "apply_code_diff keccak256 r a code code_hash st = Some st'" "sets a r (Some (acct_code keccak256 code x)) st st'"
proof (cases "code = []")
  case True
  show ?thesis
    using set_code_ok [OF assms(1-3), where h = kEmptyHash and n = 0 and m = "acc_code_store_offset (record_at st r)"] True length_kEmptyHash
    by (intro that) (auto simp: apply_code_diff_def acct_code_def)
next
  case False
  define st1 where "st1 = (if is_code_delegated code then st else wipe_storage r a st)"
  define x1 where "x1 = (if is_code_delegated code then x else x\<lparr>a_storage := \<lambda>key. zero32\<rparr>)"
  have s1: "sets a r (Some x1) st st1"
    using sets_refl [OF assms(1-3)] wipe_storage_ok [OF assms(1-3)] by (simp add: st1_def x1_def)
  then have "sets a r (Some (x1\<lparr>a_code_hash := keccak256 code\<rparr>)) st1 (write_code r (keccak256 code) code st1)"
    using assms(5) by (intro write_code_ok) (simp_all add: sets_def)
  then have "sets a r (Some (x1\<lparr>a_code_hash := keccak256 code\<rparr>)) st (write_code r (keccak256 code) code st1)"
    by (rule sets_trans [OF s1])
  moreover have "x1\<lparr>a_code_hash := keccak256 code\<rparr> = acct_code keccak256 code x"
    using False by (simp add: x1_def acct_code_def)
  moreover have "apply_code_diff keccak256 r a code code_hash st = Some (write_code r (keccak256 code) code st1)"
    using False assms(4) by (auto simp: apply_code_diff_def st1_def)
  ultimately show ?thesis
    by (intro that) simp_all
qed

section \<open>Deleting accounts\<close>

lemma destruct_core:
  assumes "state_ok st"
  shows "core (destruct a st) = core st \<and> abs_state st a = None \<or>
    (\<exists>r pa. c_lookup (core st) a = Some r \<and> core (destruct a st) = put a r (pa\<lparr>acc_deleted := True\<rparr>) None (core st) \<and>
       acc_addr pa = acc_addr (c_record (core st) r) \<and> record_ok r pa \<and> leaf_ok pa)"
proof (cases "c_find (core st) a")
  case (Some off)
  let ?r = "PreRecord off" and ?c = "core st"
  have l: "c_lookup ?c a = Some ?r"
    using Some by (simp add: c_lookup_def)
  have created: "c_created ?c a = None"
    using assms Some by (auto simp: state_ok_def core_ok_def records_ok_def)
  obtain n where n: "core (if acc_deleted (record_at st ?r) then st else note_wiped_storage ?r st) =
    put a ?r ((c_record ?c ?r)\<lparr>acc_absent_reads := n\<rparr>) (c_overflow ?c a) ?c"
  proof (cases "acc_deleted (record_at st ?r)")
    case True
    then show ?thesis
      using put_self [OF l] by (intro that [of "acc_absent_reads (c_record ?c ?r)"]) simp
  next
    case False
    then show ?thesis
      using note_wiped_storage_core [OF l] that by auto
  qed
  let ?pa = "(c_record ?c ?r)\<lparr>acc_absent_reads := n\<rparr>"
  have "core (destruct a st) = put a ?r (?pa\<lparr>acc_deleted := True\<rparr>) None ?c"
    using Some created n
    by (simp add: destruct_def Let_def to_core delete_conv' c_set_put [of ?r _ _ a] put_overflow_fun put_overflow_update put_created
        del: c_record.simps c_set.simps record_at.simps set_record.simps)
  moreover have "record_ok ?r ?pa" "leaf_ok ?pa"
    using current_entry [OF assms l] by (simp_all add: entry_ok_def del: c_record.simps)
  ultimately show ?thesis
    using l by (intro disjI2 exI [of _ ?r] exI [of _ ?pa]) simp
next
  case None
  then show ?thesis
  proof (cases "c_created (core st) a")
    case None': None
    then have "c_lookup (core st) a = None"
      using None by (simp add: c_lookup_def)
    moreover have "c_overflow (core st) a = None"
      using assms calculation by (auto simp: state_ok_def core_ok_def address_ok_def dest!: spec [of _ a])
    ultimately show ?thesis
      using None None' by (simp add: destruct_def Let_def to_core delete_conv' fun_upd_idem abs_state_def abs_core_def)
  next
    case (Some pa)
    then have l: "c_lookup (core st) a = Some (CreatedRecord a)"
      using None by (simp add: c_lookup_def)
    have "core (destruct a st) = put a (CreatedRecord a) (pa\<lparr>acc_deleted := True\<rparr>) None (core st)"
      using None Some by (simp add: destruct_def Let_def to_core delete_conv' put_def del: set_record.simps)
    moreover have "record_ok (CreatedRecord a) pa" "leaf_ok pa"
      using current_entry [OF assms l] Some by (simp_all add: entry_ok_def)
    ultimately show ?thesis
      using l Some by (intro disjI2 exI [of _ "CreatedRecord a"] exI [of _ pa]) simp
  qed
qed

lemma destruct_ok:
  assumes "state_ok st"
  shows "state_ok (destruct a st) \<and> abs_state (destruct a st) = (abs_state st)(a := None)"
  using destruct_core [OF assms, of a]
proof (elim disjE exE conjE)
  assume "core (destruct a st) = core st" "abs_state st a = None"
  then show ?thesis
    using assms by (auto simp: state_ok_def abs_state_def)
next
  fix r pa
  assume d: "c_lookup (core st) a = Some r" "core (destruct a st) = put a r (pa\<lparr>acc_deleted := True\<rparr>) None (core st)"
    "acc_addr pa = acc_addr (c_record (core st) r)" "record_ok r pa" "leaf_ok pa"
  have "entry_ok r (pa\<lparr>acc_deleted := True\<rparr>) None"
    using d(4,5) by (simp add: entry_ok_def cong: record_ok_cong)
  then show ?thesis
    using step_contract [OF assms d(1,2)] d(3) by (simp add: acct_of_def)
qed

lemma destruct_keeps_lookups: "state_ok st \<Longrightarrow> c_lookup (core (destruct a st)) = c_lookup (core st)"
  using destruct_core [of st a] by (auto simp: c_lookup_put fun_eq_iff)

lemma destruct_dead_among_ok:
  "state_ok st \<Longrightarrow> state_ok (destruct_dead_among addrs st) \<and>
     abs_state (destruct_dead_among addrs st) = remove_dead addrs (abs_state st)"
proof (induction addrs arbitrary: st)
  case Nil
  then show ?case
    by (simp add: destruct_dead_among_def remove_dead_def)
next
  case (Cons a addrs)
  let ?st = "if is_dead st a then destruct a st else st"
  have step: "state_ok ?st \<and> abs_state ?st = remove_dead [a] (abs_state st)"
    using Cons.prems destruct_ok [OF Cons.prems, of a] by (auto simp: remove_dead_def is_dead_abs)
  have "destruct_dead_among (a # addrs) st = destruct_dead_among addrs ?st"
    by (simp add: destruct_dead_among_def)
  moreover have "remove_dead addrs (remove_dead [a] s) = remove_dead (a # addrs) s" for s
    by (auto simp: remove_dead_def acct_dead_def)
  ultimately show ?case
    using Cons.IH step by simp
qed

section \<open>State diffs\<close>

text \<open>What a diff means for the accounts.\<close>

primrec store_slots :: "(bytes32 \<times> bytes32) list \<Rightarrow> (bytes32 \<Rightarrow> bytes32) \<Rightarrow> bytes32 \<Rightarrow> bytes32" where
  "store_slots [] s = s"
| "store_slots (e # kvs) s = store_slots kvs (s(fst e := snd e))"

definition diff_acct :: "(bytes \<Rightarrow> bytes32) \<Rightarrow> diff_entry \<Rightarrow> acct \<Rightarrow> acct" where
  "diff_acct keccak256 m x =
     (let x = (case de_code m of None \<Rightarrow> x | Some code \<Rightarrow> acct_code keccak256 code x)
      in x\<lparr>a_nonce := de_nonce m, a_balance := de_balance m,
           a_storage := store_slots (de_modified_storage m) (a_storage x)\<rparr>)"

definition modify_account :: "(bytes \<Rightarrow> bytes32) \<Rightarrow> diff_entry \<Rightarrow> accounts \<Rightarrow> accounts" where
  "modify_account keccak256 m s = s(de_addr m := Some (diff_acct keccak256 m (acct_or_fresh s (de_addr m))))"

definition diff_accounts :: "(bytes \<Rightarrow> bytes32) \<Rightarrow> state_diff \<Rightarrow> accounts \<Rightarrow> accounts" where
  "diff_accounts keccak256 diff s =
     fold (\<lambda>a s. s(a := None)) (sd_deleted_accounts diff)
       (fold (modify_account keccak256) (sd_modified_accounts diff) s)"

text \<open>A handle is the record of its address, a given hash that of the code, and keys have 32 bytes.\<close>

definition entry_valid :: "(bytes \<Rightarrow> bytes32) \<Rightarrow> direct_state \<Rightarrow> diff_entry \<Rightarrow> bool" where
  "entry_valid keccak256 st m \<longleftrightarrow>
     (de_handle m = None \<or> de_handle m = lookup_account st (de_addr m)) \<and>
     (case (de_code m, de_code_hash m) of (Some code, Some h) \<Rightarrow> h = keccak256 code | _ \<Rightarrow> True) \<and>
     list_all (\<lambda>e. length (fst e) = 32) (de_modified_storage m)"

text \<open>What is used of Keccak.\<close>

definition hash32 :: "(bytes \<Rightarrow> bytes32) \<Rightarrow> bool" where
  "hash32 keccak256 \<longleftrightarrow> (\<forall>b. length (keccak256 b) = 32)"

lemma set_storage_slots_ok:
  assumes "state_ok st" "c_lookup (core st) a = Some r" "abs_state st a = Some x" "list_all (\<lambda>e. length (fst e) = 32) kvs"
  shows "sets a r (Some (x\<lparr>a_storage := store_slots kvs (a_storage x)\<rparr>)) st
    (fold (\<lambda>(k, v) st. set_storage_slot r a k v (journal_slot_changed a k st)) kvs st)"
  using assms
proof (induction kvs arbitrary: st x)
  case Nil
  then show ?case
    by (simp add: sets_refl)
next
  case (Cons e kvs)
  obtain k v where e: "e = (k, v)"
    by fastforce
  let ?st = "journal_slot_changed a k st" and ?x = "x\<lparr>a_storage := (a_storage x)(k := v)\<rparr>"
  have st: "state_ok ?st" "c_lookup (core ?st) a = Some r" "abs_state ?st a = Some x" "abs_state ?st = abs_state st" "length k = 32"
    using Cons.prems e by (simp_all add: state_ok_def abs_state_def)
  have one: "sets a r (Some ?x) st (set_storage_slot r a k v ?st)"
    using set_storage_slot_ok [OF st(1-3,5), of v] st(4) by (simp add: sets_def)
  then have "sets a r (Some (?x\<lparr>a_storage := store_slots kvs (a_storage ?x)\<rparr>)) (set_storage_slot r a k v ?st)
    (fold (\<lambda>(k, v) st. set_storage_slot r a k v (journal_slot_changed a k st)) kvs (set_storage_slot r a k v ?st))"
    using Cons.prems by (intro Cons.IH) (simp_all add: sets_def)
  then show ?case
    using sets_trans [OF one] by (simp add: e)
qed

lemma set_account_from_diff_ok:
  assumes "state_ok st" "c_lookup (core st) a = Some r" "abs_state st a = Some x"
  shows "sets a r (Some (x\<lparr>a_nonce := n, a_balance := b\<rparr>)) st (update_record r (\<lambda>pa. set_account_from_diff pa n b) st)"
proof -
  let ?pa = "record_at st r" and ?pa' = "set_account_from_diff (record_at st r) n b"
  have x: "acct_of ?pa (map_of (ds_overflow st) a) = Some x"
    using current_acct [OF assms(2)] assms(3) unfolding overflow_core by (simp add: record_core)
  have fields: "slots_for ?pa' = slots_for ?pa" "acc_slot_count ?pa' = acc_slot_count ?pa" "acc_deleted ?pa' = acc_deleted ?pa"
    "acc_addr ?pa' = acc_addr ?pa" "acc_nonce ?pa' = n" "acc_balance ?pa' = b" "acc_code_hash ?pa' = acc_code_hash ?pa"
    by (simp_all add: set_account_from_diff_def Let_def)
  then have "acct_of ?pa' (map_of (ds_overflow st) a) = Some (x\<lparr>a_nonce := n, a_balance := b\<rparr>)"
    using x by (auto simp: acct_of_def slot_value_cong [OF fields(1)] split: if_splits)
  moreover have "leaf_ok ?pa'"
    using current_entry [OF assms(1,2)]
    by (auto simp: set_account_from_diff_def Let_def leaf_ok_mark_changed leaf_ok_length entry_ok_def record_core)
  ultimately show ?thesis
    using sets_record [OF assms(1,2), of ?pa'] fields by (simp add: update_record_def)
qed

lemma apply_entry_ok:
  assumes "state_ok st" "entry_valid keccak256 st m" "hash32 keccak256"
  shows "\<exists>st'. apply_entry keccak256 m st = Some st' \<and> state_ok st' \<and>
    abs_state st' = modify_account keccak256 m (abs_state st) \<and>
    (\<forall>b r. lookup_account st b = Some r \<longrightarrow> lookup_account st' b = Some r)"
proof -
  let ?a = "de_addr m"
  obtain r st1 where one: "(case de_handle m of Some r \<Rightarrow> (r, st) | None \<Rightarrow> observe_account st ?a) = (r, st1)"
    by fastforce
  have st1: "state_ok st1 \<and> abs_state st1 = abs_state st \<and> c_lookup (core st1) ?a = Some r \<and>
    (\<forall>b r. c_lookup (core st) b = Some r \<longrightarrow> c_lookup (core st1) b = Some r)"
  proof (cases "de_handle m")
    case None
    then show ?thesis
      using one by (intro observe_account_ok [OF assms(1)]) simp
  next
    case (Some r')
    then show ?thesis
      using one assms by (simp add: entry_valid_def lookup_core)
  qed
  define st2 where "st2 = journal_address_changed ?a (revive_if_deleted r ?a st1)"
  define x2 where "x2 = acct_or_fresh (abs_state st) ?a"
  have s2: "sets ?a r (Some x2) st1 st2"
    using revive_if_deleted_ok [of st1 ?a r] st1 unfolding st2_def sets_core [OF core_journals(2)] by (simp add: x2_def)
  then have st2: "state_ok st2" "c_lookup (core st2) ?a = Some r" "abs_state st2 ?a = Some x2"
    by (simp_all add: sets_def)
  define x3 where "x3 = (case de_code m of None \<Rightarrow> x2 | Some code \<Rightarrow> acct_code keccak256 code x2)"
  have "\<exists>st3. (case de_code m of None \<Rightarrow> Some st2 | Some code \<Rightarrow> apply_code_diff keccak256 r ?a code (de_code_hash m) st2) = Some st3 \<and>
    sets ?a r (Some x3) st2 st3"
  proof (cases "de_code m")
    case None
    then show ?thesis
      using sets_refl [OF st2] by (simp add: x3_def)
  next
    case (Some code)
    then have "de_code_hash m = None \<or> de_code_hash m = Some (keccak256 code)"
      using assms(2) by (auto simp: entry_valid_def split: option.splits)
    from apply_code_diff_ok [OF st2, of "de_code_hash m" keccak256 code, OF this] assms(3) obtain st3 where
      "apply_code_diff keccak256 r ?a code (de_code_hash m) st2 = Some st3"
      "sets ?a r (Some (acct_code keccak256 code x2)) st2 st3"
      by (auto simp: hash32_def)
    then show ?thesis
      using Some by (simp add: x3_def)
  qed
  then obtain st3 where code: "(case de_code m of None \<Rightarrow> Some st2
      | Some code \<Rightarrow> apply_code_diff keccak256 r ?a code (de_code_hash m) st2) = Some st3" and s3: "sets ?a r (Some x3) st2 st3"
    by blast
  define st4 where "st4 = update_record r (\<lambda>pa. set_account_from_diff pa (de_nonce m) (de_balance m)) st3"
  define x4 where "x4 = x3\<lparr>a_nonce := de_nonce m, a_balance := de_balance m\<rparr>"
  have s4: "sets ?a r (Some x4) st3 st4"
    using s3 unfolding st4_def x4_def by (intro set_account_from_diff_ok) (simp_all add: sets_def)
  define st5 where "st5 = fold (\<lambda>(k, v) st. set_storage_slot r ?a k v (journal_slot_changed ?a k st)) (de_modified_storage m) st4"
  have "sets ?a r (Some (x4\<lparr>a_storage := store_slots (de_modified_storage m) (a_storage x4)\<rparr>)) st4 st5"
    using s4 assms(2) unfolding st5_def by (intro set_storage_slots_ok) (simp_all add: sets_def entry_valid_def)
  moreover have "x4\<lparr>a_storage := store_slots (de_modified_storage m) (a_storage x4)\<rparr> = diff_acct keccak256 m x2"
    by (simp add: diff_acct_def x4_def x3_def Let_def)
  ultimately have s5: "sets ?a r (Some (diff_acct keccak256 m x2)) st1 st5"
    using sets_trans [OF s2 sets_trans [OF s3 sets_trans [OF s4]]] by simp
  have handle: "(de_handle m \<noteq> None \<and> de_handle m \<noteq> lookup_account st ?a) = False"
    using assms(2) by (auto simp: entry_valid_def)
  have "apply_entry keccak256 m st = Some st5"
    unfolding apply_entry_def handle if_False one Let_def prod.case st2_def [symmetric] code bind.bind_lunit
      st4_def [symmetric] st5_def [symmetric] ..
  then show ?thesis
    using s5 st1 by (auto simp: sets_def x2_def lookup_core modify_account_def)
qed

lemma apply_entries_ok:
  assumes "state_ok st" "\<forall>m \<in> set ms. entry_valid keccak256 st m" and keccak: "hash32 keccak256"
  shows "\<exists>st'. apply_entries keccak256 ms st = Some st' \<and> state_ok st' \<and>
    abs_state st' = fold (modify_account keccak256) ms (abs_state st)"
  using assms(1,2)
proof (induction ms arbitrary: st)
  case Nil
  then show ?case
    by simp
next
  case (Cons m ms)
  then obtain st1 where st1: "apply_entry keccak256 m st = Some st1" "state_ok st1"
    "abs_state st1 = modify_account keccak256 m (abs_state st)"
    "\<forall>b r. lookup_account st b = Some r \<longrightarrow> lookup_account st1 b = Some r"
    using apply_entry_ok [of st keccak256 m] keccak by auto
  have "entry_valid keccak256 st1 m'" if "m' \<in> set ms" for m'
    using that Cons.prems(2) st1(4) by (cases "de_handle m'") (auto simp: entry_valid_def)
  then obtain st2 where "apply_entries keccak256 ms st1 = Some st2" "state_ok st2"
    "abs_state st2 = fold (modify_account keccak256) ms (abs_state st1)"
    using Cons.IH [OF st1(2)] by blast
  then show ?case
    using st1 by simp
qed

lemma destructs_ok:
  assumes "state_ok st"
  shows "state_ok (fold (\<lambda>a st. destruct a (journal_address_changed a st)) as st) \<and>
    abs_state (fold (\<lambda>a st. destruct a (journal_address_changed a st)) as st) = fold (\<lambda>a s. s(a := None)) as (abs_state st)"
  using assms
proof (induction as arbitrary: st)
  case (Cons a as)
  have "state_ok (journal_address_changed a st)" "abs_state (journal_address_changed a st) = abs_state st"
    using Cons.prems by (simp_all add: state_ok_def abs_state_def)
  then show ?case
    using destruct_ok [of "journal_address_changed a st" a] Cons.IH [of "destruct a (journal_address_changed a st)"] by simp
qed simp

lemma apply_state_diff_ok:
  assumes "state_ok st" "\<forall>m \<in> set (sd_modified_accounts diff). entry_valid keccak256 st m" "hash32 keccak256"
  shows "\<exists>st'. apply_state_diff keccak256 diff st = Some st' \<and> state_ok st' \<and>
    abs_state st' = diff_accounts keccak256 diff (abs_state st)"
proof -
  obtain st1 where "apply_entries keccak256 (sd_modified_accounts diff) st = Some st1" "state_ok st1"
    "abs_state st1 = fold (modify_account keccak256)
       (sd_modified_accounts diff) (abs_state st)"
    using apply_entries_ok [OF assms] by blast
  then show ?thesis
    using destructs_ok [of st1 "sd_deleted_accounts diff"] by (auto simp: apply_state_diff_def diff_accounts_def)
qed

section \<open>The interface\<close>

lemma touched_set_record [simp]: "ds_touched (set_record r pa st) = ds_touched st"
  by (cases r) simp_all

lemma touched_note_wiped_storage [simp]: "ds_touched (note_wiped_storage r st) = ds_touched st"
  by (simp add: note_wiped_storage_def Let_def)

lemma touched_change_account: "set (ds_touched (change_account f changed a st)) = insert a (set (ds_touched st))"
proof -
  obtain r st1 where obs: "observe_account st a = (r, st1)"
    by fastforce
  have "ds_touched st1 = ds_touched st"
    using obs by (auto simp: observe_account_def materialize_absent_account_def split: option.splits if_splits)
  then show ?thesis
    by (simp add: change_account_def obs Let_def touch_def revive_if_deleted_def journal_address_changed_def)
qed

lemma touched_destruct: "set (ds_touched st) \<subseteq> set (ds_touched (destruct a st))"
proof -
  define st1 where "st1 = (case find_pre_account st a of
      None \<Rightarrow> st
    | Some off \<Rightarrow>
        (let st = (if acc_deleted (record_at st (PreRecord off)) then st else note_wiped_storage (PreRecord off) st)
         in set_record (PreRecord off) ((record_at st (PreRecord off))\<lparr>acc_deleted := True\<rparr>) st))"
  define st2 where "st2 = (case map_of (ds_created st1) a of
      None \<Rightarrow> st1
    | Some pa \<Rightarrow> set_record (CreatedRecord a) (pa\<lparr>acc_deleted := True\<rparr>) st1)"
  have "ds_touched st1 = ds_touched st"
    by (cases "find_pre_account st a") (simp_all only: st1_def option.case Let_def touched_set_record
        touched_note_wiped_storage if_distrib [of ds_touched] if_cancel)
  moreover have "ds_touched st2 = ds_touched st1"
    by (cases "map_of (ds_created st1) a") (simp_all only: st2_def option.case touched_set_record)
  moreover have "destruct a st = journal_address_changed a (touch a (st2\<lparr>ds_overflow := AList.delete a (ds_overflow st2)\<rparr>))"
    unfolding destruct_def Let_def st2_def st1_def ..
  ultimately show ?thesis
    by (auto simp: touch_def journal_address_changed_def)
qed

lemma touched_destruct_dead_among: "set (ds_touched st) \<subseteq> set (ds_touched (destruct_dead_among addrs st))"
proof (induction addrs arbitrary: st)
  case (Cons a addrs)
  have "set (ds_touched st) \<subseteq> set (ds_touched (if is_dead st a then destruct a st else st))"
    using touched_destruct by simp
  from order_trans [OF this Cons.IH] show ?case
    by (simp add: destruct_dead_among_def)
qed (simp add: destruct_dead_among_def)

interpretation ds: account_store state_ok abs_state ds_touched get_balance set_balance add_to_balance destruct_dead_among
proof unfold_locales
  fix st :: direct_state and a v addrs
  show "set (ds_touched (add_to_balance a v st)) = insert a (set (ds_touched st))"
    by (simp add: add_to_balance_def touched_change_account)
  show "set (ds_touched st) \<subseteq> set (ds_touched (destruct_dead_among addrs st))"
    by (rule touched_destruct_dead_among)
  assume ok: "state_ok st"
  show "get_balance st a = balance_of (abs_state st) a"
    by (simp add: get_balance_abs balance_of_def)
  show "state_ok (set_balance a v st) \<and> abs_state (set_balance a v st) = with_balance a v (abs_state st)"
    using set_balance_ok [OF ok] by (simp add: with_balance_def)
  show "state_ok (add_to_balance a v st) \<and>
    abs_state (add_to_balance a v st) = with_balance a (balance_of (abs_state st) a + v) (abs_state st)"
    using add_to_balance_ok [OF ok] by (simp add: with_balance_def balance_of_def)
  show "state_ok (destruct_dead_among addrs st) \<and>
    abs_state (destruct_dead_among addrs st) = remove_dead addrs (abs_state st)"
    by (rule destruct_dead_among_ok [OF ok])
qed

section \<open>Properties\<close>

text \<open>A state with one account in the witness, which has a slot.\<close>

definition sample_address :: address where "sample_address = replicate 20 7"

definition sample_key :: bytes32 where "sample_key = replicate 32 1"

definition sample_account :: account where
  "sample_account = (absent_account sample_address)\<lparr>acc_deleted := False, acc_nonce := 1, acc_balance := 100,
     acc_slot_count := 1, acc_slots := [\<lparr>slot_key = sample_key, slot_initial = sample_key, slot_current = sample_key\<rparr>]\<rparr>"

definition one_record_map :: mphf_map where
  "one_record_map = \<lparr>mp_n_keys = 1, mp_n_buckets = 1, mp_seed_factor = 0, mp_displacement = [0], mp_slot_offsets = [64],
     mp_collisions = []\<rparr>"

definition no_record_map :: mphf_map where
  "no_record_map = \<lparr>mp_n_keys = 0, mp_n_buckets = 0, mp_seed_factor = 0, mp_displacement = [], mp_slot_offsets = [],
     mp_collisions = []\<rparr>"

definition sample_state :: direct_state where
  "sample_state = \<lparr>ds_n_accounts = 1, ds_map = one_record_map, ds_records = [64 \<mapsto> sample_account], ds_code_map = no_record_map, ds_code_data = [],
     ds_created = [], ds_overflow = [], ds_wiped = [], ds_absent_reads = [], ds_created_code = [], ds_code_collisions = [],
     ds_touched = [], ds_headers = [], ds_ancestor_missing = False, ds_ancestors = [], ds_ancestors_number = 0,
     ds_ancestors_end = False, ds_require_headers = False, ds_witness_incomplete = False, ds_multi_block = False,
     ds_changed_addresses = [], ds_changed_storage = []\<rparr>"

lemma find_one_record: "mphf_find one_record_map ka k8 key = Option.bind (ka 64) (\<lambda>k. Some (if k = key then Some 64 else None))"
proof -
  obtain idx where idx: "index_lookup one_record_map k8 = Some idx" "unat idx < length (mp_slot_offsets one_record_map)"
    using index_lookup_ok [of one_record_map k8] by (auto simp: tables_ok_def one_record_map_def)
  have "unat (64 :: u32) = 64"
    by simp
  then show ?thesis
    using idx by (cases "ka 64") (auto simp: mphf_find_def at_def one_record_map_def simp del: unsigned_numeral)
qed

lemma lookup_sample: "c_lookup (core sample_state) a = (if a = sample_address then Some (PreRecord 64) else None)"
  by (auto simp: c_lookup_def c_find_def core_def sample_state_def find_one_record sample_account_def absent_account_def)

lemma core_sample: "c_record (core sample_state) (PreRecord 64) = sample_account" "c_overflow (core sample_state) a = None"
  "c_created (core sample_state) a = None" "c_map (core sample_state) = one_record_map"
  "c_records (core sample_state) = [64 \<mapsto> sample_account]"
  by (simp_all add: core_def sample_state_def)

lemma sample_state_ok: "state_ok sample_state"
proof -
  have "records_ok (core sample_state)"
    by (simp add: records_ok_def core_sample one_record_map_def tables_ok_def for_each_offset_def)
  moreover have "entry_ok (PreRecord 64) sample_account None"
    by (simp add: entry_ok_def sample_account_def slots_for_def slots_sorted_def sample_key_def absent_account_def leaf_ok_fresh
        length_kEmptyHash)
  ultimately show ?thesis
    by (simp add: state_ok_def core_ok_def address_ok_def lookup_sample core_sample)
qed

lemma abs_sample: "abs_state sample_state a = (if a = sample_address then acct_of sample_account None else None)"
  by (simp add: abs_state_def abs_core_def lookup_sample core_sample)

text \<open>
  C3: \<open>DirectState::apply_state_diff\<close> refines the update of a map of accounts. On a state that keeps the invariant, and for a
  diff whose handles are the records of their addresses and whose code hashes are those of the code, it returns a state
  that keeps the invariant and stands for the accounts the diff describes: every modified account, created or revived if
  need be, with its new nonce, balance, code and slots over the storage it had, unless new code was deployed, and no
  deleted account.
\<close>

theorem apply_state_diff_refines:
  assumes "state_ok st" "\<forall>m \<in> set (sd_modified_accounts diff). entry_valid keccak256 st m" "hash32 keccak256"
  shows "\<exists>st'. apply_state_diff keccak256 diff st = Some st' \<and> state_ok st' \<and>
    abs_state st' = diff_accounts keccak256 diff (abs_state st)"
  using assms by (rule apply_state_diff_ok)

definition sample_diff :: state_diff where
  "sample_diff = \<lparr>sd_modified_accounts =
      [\<lparr>de_addr = sample_address, de_nonce = 2, de_balance = 90, de_code = None, de_code_hash = None,
        de_modified_storage = [(replicate 32 2, sample_key)], de_handle = Some (PreRecord 64)\<rparr>,
       \<lparr>de_addr = replicate 20 8, de_nonce = 0, de_balance = 10, de_code = None, de_code_hash = None,
        de_modified_storage = [], de_handle = None\<rparr>],
     sd_deleted_accounts = [replicate 20 9]\<rparr>"

theorem apply_state_diff_refines_witness:
  "\<exists>st'. apply_state_diff (\<lambda>b. kEmptyHash) sample_diff sample_state = Some st' \<and> state_ok st' \<and>
     balance_of (abs_state st') sample_address = 90 \<and> balance_of (abs_state st') (replicate 20 8) = 10 \<and>
     a_storage (acct_or_fresh (abs_state st') sample_address) sample_key = sample_key \<and>
     a_storage (acct_or_fresh (abs_state st') sample_address) (replicate 32 2) = sample_key"
proof -
  have "\<forall>m \<in> set (sd_modified_accounts sample_diff). entry_valid (\<lambda>b. kEmptyHash) sample_state m"
    by (simp add: sample_diff_def entry_valid_def lookup_core lookup_sample)
  then obtain st' where st': "apply_state_diff (\<lambda>b. kEmptyHash) sample_diff sample_state = Some st'" "state_ok st'"
    "abs_state st' = diff_accounts (\<lambda>b. kEmptyHash) sample_diff (abs_state sample_state)"
    using apply_state_diff_refines [OF sample_state_ok, of sample_diff "\<lambda>b. kEmptyHash"] length_kEmptyHash
    by (auto simp: hash32_def)
  have addrs: "sample_address \<noteq> replicate 20 8" "sample_address \<noteq> replicate 20 9" "replicate 20 (8 :: byte) \<noteq> replicate 20 9"
    by (simp_all add: sample_address_def)
  have slots: "slots_for sample_account = [\<lparr>slot_key = sample_key, slot_initial = sample_key, slot_current = sample_key\<rparr>]"
    by (simp add: sample_account_def slots_for_def)
  have "find_slot (slots_for sample_account) sample_key = Some 0"
    by (subst find_slot_exact) (simp_all add: slots slots_sorted_def sample_key_def)
  then have "slot_value sample_account None sample_key = sample_key"
    by (simp add: slot_value_def slots sample_key_def)
  then show ?thesis
    using st' addrs
    by (simp add: diff_accounts_def sample_diff_def modify_account_def diff_acct_def balance_of_def acct_or_fresh_def abs_sample
        acct_of_def sample_account_def absent_account_def)
qed

end
