(* ===== verification/State_Root.thy ===== *)
theory State_Root
  imports State_Refinement
begin

text \<open>
  The state root as the Yellow Paper has it (\<open>account_storage_root\<close> and \<open>state_root_hash\<close> of state_zz/direct_state.cpp): the
  live slots and accounts, collected in ordered maps and fed to the hash builder. It is the root of the
  Merkle-Patricia trie over the accounts the state stands for, each with the root of the trie over its storage.
\<close>

section \<open>Ordered maps\<close>

text \<open>\<open>std::map\<close> with 32-byte keys: its entries in the order of the keys.\<close>

fun map_assign :: "bytes32 \<Rightarrow> 'v \<Rightarrow> (bytes32 \<times> 'v) list \<Rightarrow> (bytes32 \<times> 'v) list" where
  "map_assign k v [] = [(k, v)]"
| "map_assign k v ((k', v') # m) =
     (if memcmp k k' < 0 then (k, v) # (k', v') # m
      else if memcmp k' k < 0 then (k', v') # map_assign k v m
      else (k, v) # m)"

fun map_emplace :: "bytes32 \<Rightarrow> 'v \<Rightarrow> (bytes32 \<times> 'v) list \<Rightarrow> (bytes32 \<times> 'v) list" where
  "map_emplace k v [] = [(k, v)]"
| "map_emplace k v ((k', v') # m) =
     (if memcmp k k' < 0 then (k, v) # (k', v') # m
      else if memcmp k' k < 0 then (k', v') # map_emplace k v m
      else (k', v') # m)"

section \<open>The code\<close>

definition hash_builder_root :: "(bytes \<Rightarrow> bytes32) \<Rightarrow> (bytes32 \<times> bytes) list \<Rightarrow> bytes32 option" where
  "hash_builder_root keccak256 m =
     Option.bind (add_leaves keccak256 (hb_new False False) (map (\<lambda>e. (unpack_nibbles (fst e), snd e)) m))
       (\<lambda>hb. map_option fst (hb_root_hash keccak256 hb))"

definition live_slots :: "direct_state \<Rightarrow> address \<Rightarrow> (bytes32 \<times> bytes32) list" where
  "live_slots st addr =
     (let live = (case find_pre_account st addr of
                    None \<Rightarrow> []
                  | Some off \<Rightarrow>
                      (let pa = record_at st (PreRecord off) in
                       if \<not> acc_deleted pa \<and> acc_slot_count pa > 0
                       then fold (\<lambda>s m. if slot_current s \<noteq> zero32 then map_emplace (slot_key s) (slot_current s) m else m)
                              (slots_for pa) []
                       else []))
      in case map_of (ds_overflow st) addr of
           None \<Rightarrow> live
         | Some kvs \<Rightarrow> fold (\<lambda>e. map_assign (fst e) (snd e)) kvs live)"

definition account_storage_root :: "(bytes \<Rightarrow> bytes32) \<Rightarrow> direct_state \<Rightarrow> address \<Rightarrow> bytes32 option" where
  "account_storage_root keccak256 st addr =
     (let live = live_slots st addr in
      if live = [] then Some kEmptyRoot
      else hash_builder_root keccak256
             (fold (\<lambda>e. map_assign (keccak256 (fst e)) (encode_bytes (zeroless_view (snd e)))) live []))"

definition emit ::
  "(bytes \<Rightarrow> bytes32) \<Rightarrow> direct_state \<Rightarrow> address \<times> account \<Rightarrow> (bytes32 \<times> bytes) list option \<Rightarrow> (bytes32 \<times> bytes) list option" where
  "emit keccak256 st e rlps =
     Option.bind rlps (\<lambda>m.
       if acc_deleted (snd e) then Some m
       else map_option (\<lambda>sr. map_assign (keccak256 (fst e)) (account_rlp (snd e) sr) m) (account_storage_root keccak256 st (fst e)))"

definition pre_accounts :: "direct_state \<Rightarrow> (address \<times> account) list" where
  "pre_accounts st =
     (if ds_n_accounts st > 0
      then map (\<lambda>off. let pa = record_at st (PreRecord off) in (acc_addr pa, pa)) (for_each_offset (ds_map st)) else [])"

definition state_root_hash :: "(bytes \<Rightarrow> bytes32) \<Rightarrow> direct_state \<Rightarrow> bytes32 option" where
  "state_root_hash keccak256 st =
     Option.bind (fold (emit keccak256 st) (pre_accounts st @ ds_created st) (Some []))
       (\<lambda>m. if m = [] then Some kEmptyRoot else hash_builder_root keccak256 m)"

section \<open>Lemmas on ordered maps\<close>

definition ordered :: "(bytes32 \<times> 'v) list \<Rightarrow> bool" where
  "ordered m \<longleftrightarrow> sorted_wrt (\<lambda>a b. be_nat (fst a) < be_nat (fst b)) m \<and> (\<forall>e \<in> set m. length (fst e) = 32)"

lemma ordered_Nil [simp]: "ordered []"
  by (simp add: ordered_def)

lemma ordered_Cons: "ordered (e # m) \<longleftrightarrow> length (fst e) = 32 \<and> (\<forall>e' \<in> set m. be_nat (fst e) < be_nat (fst e')) \<and> ordered m"
  by (auto simp: ordered_def)

lemma memcmp_less: "length a = 32 \<Longrightarrow> length b = 32 \<Longrightarrow> memcmp a b < 0 \<longleftrightarrow> be_nat a < be_nat b"
  by (simp add: memcmp_be_nat order_sign_def)

lemma ordered_fresh: "ordered m \<Longrightarrow> (\<forall>e \<in> set m. be_nat k < be_nat (fst e)) \<Longrightarrow> map_of m k = None"
  by (force simp: map_of_eq_None_iff)

lemma set_map_assign: "e \<in> set (map_assign k v m) \<Longrightarrow> fst e = k \<or> e \<in> set m"
  by (induction m) (auto split: if_splits)

lemma be_nat_eq32: "length a = 32 \<Longrightarrow> length b = 32 \<Longrightarrow> be_nat a = be_nat b \<longleftrightarrow> a = b"
  using be_nat_inject [of a b] by auto

lemma map_assign_ordered:
  assumes "ordered m" "length k = 32"
  shows "ordered (map_assign k v m) \<and> map_of (map_assign k v m) = (map_of m)(k := Some v)"
  using assms
proof (induction m)
  case (Cons e m)
  obtain k' v' where e: "e = (k', v')"
    by fastforce
  have k': "length k' = 32" "\<forall>e' \<in> set m. be_nat k' < be_nat (fst e')" "ordered m"
    using Cons.prems by (simp_all add: e ordered_Cons)
  have eq: "k = k'" if "\<not> be_nat k < be_nat k'" "\<not> be_nat k' < be_nat k"
    using that k'(1) Cons.prems(2) be_nat_inject [of k k'] by simp
  consider "be_nat k < be_nat k'" | "be_nat k' < be_nat k" | "k = k'"
    using eq by blast
  then show ?case
  proof cases
    case 1
    then have "k \<noteq> k'" "map_of m k = None"
      using k' ordered_fresh [of m k] by fastforce+
    then show ?thesis
      using 1 Cons.prems k' by (fastforce simp: e memcmp_less ordered_Cons)
  next
    case 2
    have "\<forall>e' \<in> set (map_assign k v m). be_nat k' < be_nat (fst e')"
      using set_map_assign 2 k'(2) by fastforce
    then show ?thesis
      using 2 Cons.IH [OF k'(3) Cons.prems(2)] Cons.prems k' by (auto simp: e memcmp_less ordered_Cons)
  next
    case 3
    then show ?thesis
      using Cons.prems k' by (auto simp: e memcmp_less ordered_Cons)
  qed
qed (auto simp: ordered_def)

lemma map_emplace_new: "ordered m \<Longrightarrow> length k = 32 \<Longrightarrow> map_of m k = None \<Longrightarrow> map_emplace k v m = map_assign k v m"
  by (induction m) (auto simp: ordered_Cons memcmp_less be_nat_eq32 split: if_splits)

lemma fold_map_assign:
  assumes "ordered m" "\<forall>e \<in> set xs. length (f e) = 32" "distinct (map f xs)"
  shows "ordered (fold (\<lambda>e. map_assign (f e) (g e)) xs m) \<and>
    map_of (fold (\<lambda>e. map_assign (f e) (g e)) xs m) = map_of m ++ map_of (map (\<lambda>e. (f e, g e)) xs)"
  using assms
proof (induction xs arbitrary: m)
  case (Cons e xs)
  have "map_of (map (\<lambda>e. (f e, g e)) xs) (f e) = None"
    using Cons.prems(3) by (auto simp: map_of_eq_None_iff image_image)
  then have "(map_of m)(f e := Some (g e)) ++ map_of (map (\<lambda>e. (f e, g e)) xs) =
    map_of m ++ map_of (map (\<lambda>e. (f e, g e)) (e # xs))"
    by (auto simp: fun_eq_iff map_add_def split: option.splits)
  moreover define m1 where "m1 = map_assign (f e) (g e) m"
  have "ordered m1" "map_of m1 = (map_of m)(f e := Some (g e))"
    using map_assign_ordered [OF Cons.prems(1), of "f e" "g e"] Cons.prems(2) by (simp_all add: m1_def)
  moreover have "ordered (fold (\<lambda>e. map_assign (f e) (g e)) xs m1) \<and>
      map_of (fold (\<lambda>e. map_assign (f e) (g e)) xs m1) = map_of m1 ++ map_of (map (\<lambda>e. (f e, g e)) xs)"
    using Cons.IH [OF \<open>ordered m1\<close>] Cons.prems(2,3) by simp
  ultimately show ?case
    by (simp only: fold_simps m1_def [symmetric])
qed simp

lemma ordered_distinct: "ordered m \<Longrightarrow> distinct (map fst m)"
  by (induction m) (auto simp: ordered_Cons)

lemma fold_map_emplace:
  assumes "ordered m" "\<forall>e \<in> set xs. length (f e) = 32 \<and> map_of m (f e) = None" "distinct (map f xs)"
  shows "fold (\<lambda>e. map_emplace (f e) (g e)) xs m = fold (\<lambda>e. map_assign (f e) (g e)) xs m"
  using assms
proof (induction xs arbitrary: m)
  case (Cons e xs)
  define m1 where "m1 = map_assign (f e) (g e) m"
  have "ordered m1" "map_of m1 = (map_of m)(f e := Some (g e))" "map_emplace (f e) (g e) m = m1"
    using map_assign_ordered [OF Cons.prems(1), of "f e" "g e"] map_emplace_new [OF Cons.prems(1)] Cons.prems(2)
    by (simp_all add: m1_def)
  moreover have "f e' \<noteq> f e" if "e' \<in> set xs" for e'
    using imageI [OF that, of f] Cons.prems(3) by auto
  then have "\<forall>e \<in> set xs. length (f e) = 32 \<and> map_of m1 (f e) = None"
    using Cons.prems(2) by (simp add: calculation(2))
  ultimately show ?case
    using Cons.IH [of m1] Cons.prems(3) by (simp add: m1_def)
qed simp

lemma ordered_set: "ordered m \<Longrightarrow> (k, v) \<in> set m \<longleftrightarrow> map_of m k = Some v"
  using ordered_distinct [of m] by (simp add: map_of_eq_Some_iff)

lemma set_of_map_of: "distinct (map fst xs) \<Longrightarrow> distinct (map fst ys) \<Longrightarrow> map_of xs = map_of ys \<Longrightarrow> set xs = set ys"
  by (metis set_map_of_compr)

section \<open>Tries with hashed keys\<close>

text \<open>The root of the trie over a finite set of entries, whose keys are unpacked to nibbles.\<close>

definition secure_root :: "(bytes \<Rightarrow> bytes32) \<Rightarrow> (bytes32 \<times> bytes) set \<Rightarrow> bytes32 \<Rightarrow> bool" where
  "secure_root H S r \<longleftrightarrow>
     (\<exists>m. distinct m \<and> set m = S \<and> r = mpt_root H (map (\<lambda>e. (unpack_nibbles (fst e), snd e)) m))"

lemma secure_root_unique:
  assumes "secure_root H S r" "secure_root H S r'"
  shows "r = r'"
proof -
  obtain m m' where m: "distinct m" "set m = S" "r = mpt_root H (map (\<lambda>e. (unpack_nibbles (fst e), snd e)) m)"
    and m': "distinct m'" "set m' = S" "r' = mpt_root H (map (\<lambda>e. (unpack_nibbles (fst e), snd e)) m')"
    using assms by (auto simp: secure_root_def)
  have "mset m = mset m'"
    using m(1,2) m'(1,2) set_eq_iff_mset_eq_distinct by blast
  then have "mset (map (\<lambda>e. (unpack_nibbles (fst e), snd e)) m) = mset (map (\<lambda>e. (unpack_nibbles (fst e), snd e)) m')"
    by simp
  then show ?thesis
    using mpt_root_mset [of _ _ H] m(3) m'(3) by simp
qed

lemma hash_builder_root_secure:
  assumes "ordered m" "hash32 H"
  shows "\<exists>r. hash_builder_root H m = Some r \<and> secure_root H (set m) r"
proof -
  let ?kvs = "map (\<lambda>e. (unpack_nibbles (fst e), snd e)) m"
  have srt: "sorted_wrt (\<lambda>a b. be_nat (fst a) < be_nat (fst b)) m" "\<And>e. e \<in> set m \<Longrightarrow> length (fst e) = 32"
    using assms(1) by (simp_all add: ordered_def)
  have "sorted_wrt (\<lambda>a b. before (unpack_nibbles (fst a)) (unpack_nibbles (fst b))) m"
    by (rule sorted_wrt_mono_rel [OF _ srt(1)]) (simp add: before_unpack before_be_nat srt(2))
  moreover have "unpack_nibbles (fst e) \<noteq> []" if "e \<in> set m" for e
    using that assms(1) by (auto simp: ordered_def simp flip: length_greater_0_conv)
  ultimately have "leaf_order ?kvs"
    by (auto simp: leaf_order_def sorted_wrt_map)
  moreover have "hb_reset (hb_new False False) = hb_new False False"
    by (simp add: hb_reset_def hb_new_def)
  ultimately obtain hb hb' where "add_leaves H (hb_new False False) ?kvs = Some hb" "hb_root_hash H hb = Some (mpt_root H ?kvs, hb')"
    using add_leaves_root [of ?kvs H "hb_new False False"] assms(2) by (auto simp: hash32_def)
  then have "hash_builder_root H m = Some (mpt_root H ?kvs)"
    by (simp add: hash_builder_root_def)
  moreover have "distinct m"
    using ordered_distinct [OF assms(1)] by (simp add: distinct_map)
  ultimately show ?thesis
    by (auto simp: secure_root_def)
qed

section \<open>Storage\<close>

definition slot_leaves :: "(bytes \<Rightarrow> bytes32) \<Rightarrow> (bytes32 \<Rightarrow> bytes32) \<Rightarrow> (bytes32 \<times> bytes) set" where
  "slot_leaves H s = (\<lambda>k. (H k, encode_bytes (zeroless_view (s k)))) ` {k. s k \<noteq> zero32}"

lemma option_eqI: "(\<And>v. x = Some v \<longleftrightarrow> y = Some v) \<Longrightarrow> x = y"
  by (cases x; cases y) auto

lemma slots_sorted_distinct: "slots_sorted ss \<Longrightarrow> distinct (map slot_key ss)"
  by (induction ss) (auto simp: slots_sorted_def)

lemma map_of_slots:
  assumes "slots_sorted ss" "length k = 32"
  shows "map_of (map (\<lambda>s. (slot_key s, slot_current s)) (filter (\<lambda>s. slot_current s \<noteq> zero32) ss)) k =
    (case find_slot ss k of None \<Rightarrow> None | Some i \<Rightarrow> if slot_current (ss ! i) = zero32 then None else Some (slot_current (ss ! i)))"
  (is "map_of ?m k = ?r")
proof -
  have d: "distinct (map fst ?m)"
    using slots_sorted_distinct [OF assms(1)] by (simp add: comp_def distinct_map_filter)
  have "map_of ?m k = Some v \<longleftrightarrow> ?r = Some v" for v
  proof -
    have "map_of ?m k = Some v \<longleftrightarrow> (\<exists>s \<in> set ss. slot_key s = k \<and> slot_current s = v \<and> v \<noteq> zero32)"
      unfolding map_of_eq_Some_iff [OF d] by auto
    also have "\<dots> \<longleftrightarrow> (\<exists>i. find_slot ss k = Some i \<and> slot_current (ss ! i) = v \<and> v \<noteq> zero32)"
      unfolding find_slot_exact [OF assms] by (metis in_set_conv_nth)
    also have "\<dots> \<longleftrightarrow> ?r = Some v"
      by (auto split: option.splits)
    finally show ?thesis .
  qed
  then show ?thesis
    by (rule option_eqI)
qed

lemma live_witness_slots:
  assumes "slots_sorted ss"
  defines "m \<equiv> fold (\<lambda>s m. if slot_current s \<noteq> zero32 then map_emplace (slot_key s) (slot_current s) m else m) ss []"
  shows "ordered m \<and> map_of m = map_of (map (\<lambda>s. (slot_key s, slot_current s)) (filter (\<lambda>s. slot_current s \<noteq> zero32) ss))"
proof -
  let ?ss = "filter (\<lambda>s. slot_current s \<noteq> zero32) ss"
  have "m = fold (\<lambda>s. map_emplace (slot_key s) (slot_current s)) ?ss []"
    unfolding m_def fold_filter by (rule fold_cong) (auto simp: fun_eq_iff)
  also have "\<dots> = fold (\<lambda>s. map_assign (slot_key s) (slot_current s)) ?ss []"
    using assms(1) slots_sorted_distinct [OF assms(1)]
    by (intro fold_map_emplace) (auto simp: slots_sorted_def distinct_map_filter)
  finally show ?thesis
    using fold_map_assign [of "[]" ?ss slot_key slot_current] assms(1) slots_sorted_distinct [OF assms(1)]
    by (simp add: slots_sorted_def distinct_map_filter)
qed

text \<open>The live slots of an account that is there: those with a value.\<close>

lemma live_slots_ok:
  assumes "state_ok st" "lookup_account st a = Some r" "\<not> acc_deleted (record_at st r)"
  shows "ordered (live_slots st a) \<and>
    map_of (live_slots st a) k =
      (let v = slot_value (record_at st r) (map_of (ds_overflow st) a) k in if v = zero32 then None else Some v)"
proof -
  let ?pa = "record_at st r" and ?ov = "map_of (ds_overflow st) a"
  define ms where "ms = map_of (map (\<lambda>s. (slot_key s, slot_current s)) (filter (\<lambda>s. slot_current s \<noteq> zero32) (slots_for ?pa)))"
  define w where "w = (case find_pre_account st a of
      None \<Rightarrow> []
    | Some off \<Rightarrow>
        (let pa = record_at st (PreRecord off) in
         if \<not> acc_deleted pa \<and> acc_slot_count pa > 0
         then fold (\<lambda>s m. if slot_current s \<noteq> zero32 then map_emplace (slot_key s) (slot_current s) m else m) (slots_for pa) []
         else []))"
  have l: "c_lookup (core st) a = Some r"
    using assms(2) by (simp add: lookup_core)
  have entry: "entry_ok r ?pa ?ov"
    using current_entry [OF assms(1) l] unfolding overflow_core by (simp add: record_core)
  then have sorted: "slots_sorted (slots_for ?pa)"
    using record_ok_sorted by (auto simp: entry_ok_def)
  have no_slots: "slots_for ?pa = []" if "\<not> acc_slot_count ?pa > 0"
    using that by (simp add: slots_for_def word_gt_0)
  have w: "ordered w \<and> map_of w = ms"
  proof (cases "find_pre_account st a")
    case None
    then have "r = CreatedRecord a"
      using assms(2) by (auto simp: lookup_account_def split: if_splits)
    then have "acc_slot_count ?pa = 0"
      using entry by (simp add: entry_ok_def)
    then show ?thesis
      using None no_slots by (simp add: w_def ms_def word_gt_0)
  next
    case (Some off)
    then have "r = PreRecord off"
      using assms(2) by (simp add: lookup_account_def)
    then show ?thesis
      using live_witness_slots [OF sorted] assms(3) no_slots Some by (auto simp: w_def ms_def Let_def)
  qed
  have none: "ms k = None" if "length k \<noteq> 32"
    using that sorted unfolding ms_def map_of_eq_None_iff by (auto simp: slots_sorted_def)
  show ?thesis
  proof (cases ?ov)
    case None
    then have "live_slots st a = w"
      by (simp add: live_slots_def w_def Let_def)
    then show ?thesis
      using w none map_of_slots [OF sorted, of k] None
      by (cases "length k = 32") (auto simp: slot_value_def ms_def Let_def split: option.splits)
  next
    case (Some kvs)
    have kvs: "distinct (map fst kvs)" "\<forall>e \<in> set kvs. length (fst e) = 32 \<and> snd e \<noteq> zero32 \<and> fst e \<notin> slot_key ` set (slots_for ?pa)"
      using entry Some by (simp_all add: entry_ok_def overflow_ok_def)
    have "live_slots st a = fold (\<lambda>e. map_assign (fst e) (snd e)) kvs w"
      using Some by (simp add: live_slots_def w_def Let_def)
    then have live: "ordered (live_slots st a)" "map_of (live_slots st a) = ms ++ map_of kvs"
      using fold_map_assign [of w kvs fst snd] w kvs by (simp_all add: map_idI)
    show ?thesis
    proof (cases "length k = 32")
      case True
      have "find_slot (slots_for ?pa) k = None \<and> v \<noteq> zero32" if "map_of kvs k = Some v" for v
      proof -
        have "(k, v) \<in> set kvs"
          using that by (rule map_of_SomeD)
        then have "k \<notin> slot_key ` set (slots_for ?pa)" "v \<noteq> zero32"
          using kvs(2) by force+
        then show ?thesis
          using find_slot_exact [OF sorted True] by (metis image_eqI not_None_eq nth_mem)
      qed
      then show ?thesis
        using live True map_of_slots [OF sorted True] Some
        by (auto simp: slot_value_def ms_def Let_def map_add_def split: option.splits)
    next
      case False
      then have "map_of kvs k = None"
        using kvs(2) by (force simp: map_of_eq_None_iff)
      then show ?thesis
        using live False none by (simp add: slot_value_def Let_def map_add_def)
    qed
  qed
qed

lemma account_storage_root_ok:
  assumes "state_ok st" "abs_state st a = Some x" "hash32 H" "inj_on H {k. a_storage x k \<noteq> zero32}"
  shows "\<exists>sr. account_storage_root H st a = Some sr \<and> secure_root H (slot_leaves H (a_storage x)) sr"
proof -
  obtain r where r: "lookup_account st a = Some r" "\<not> acc_deleted (record_at st r)"
    "a_storage x = slot_value (record_at st r) (map_of (ds_overflow st) a)"
    using assms(2) unfolding overflow_core
    by (auto simp: abs_state_def abs_core_def acct_of_def lookup_core record_core bind_eq_Some_conv split: if_splits)
  let ?live = "live_slots st a"
  have live: "ordered ?live" "map_of ?live k = (if a_storage x k = zero32 then None else Some (a_storage x k))" for k
    using live_slots_ok [OF assms(1) r(1,2)] by (auto simp: r(3) Let_def)
  have set_live: "set ?live = (\<lambda>k. (k, a_storage x k)) ` {k. a_storage x k \<noteq> zero32}"
    using ordered_set [OF live(1)] by (auto simp: live(2) split: if_splits)
  show ?thesis
  proof (cases "?live = []")
    case True
    then have "slot_leaves H (a_storage x) = {}"
      using set_live by (auto simp: slot_leaves_def)
    then show ?thesis
      using True by (auto simp: account_storage_root_def secure_root_def mpt_root_def intro!: exI [of _ "[]"])
  next
    case False
    let ?leaf = "\<lambda>e. (H (fst e), encode_bytes (zeroless_view (snd e)))"
    have "inj_on H (fst ` set ?live)"
      using assms(4) by (simp add: set_live image_image)
    then have d: "distinct (map (\<lambda>e. H (fst e)) ?live)"
      using ordered_distinct [OF live(1)] by (simp add: distinct_map comp_inj_on_iff [unfolded comp_def])
    define m where "m = fold (\<lambda>e. map_assign (H (fst e)) (encode_bytes (zeroless_view (snd e)))) ?live []"
    have m: "ordered m" "map_of m = map_of (map ?leaf ?live)"
      using fold_map_assign [of "[]" ?live "\<lambda>e. H (fst e)" "\<lambda>e. encode_bytes (zeroless_view (snd e))"] d assms(3)
      by (simp_all add: m_def hash32_def)
    have "set m = set (map ?leaf ?live)"
      using d by (intro set_of_map_of [OF ordered_distinct [OF m(1)] _ m(2)]) (simp add: comp_def)
    then have "set m = slot_leaves H (a_storage x)"
      by (simp add: set_live slot_leaves_def image_image)
    then show ?thesis
      using hash_builder_root_secure [OF m(1) assms(3)] False by (simp add: account_storage_root_def Let_def m_def)
  qed
qed

section \<open>Accounts\<close>

definition acct_items :: "acct \<Rightarrow> bytes32 \<Rightarrow> bytes" where
  "acct_items x sr = encode_uint (a_nonce x) @ encode_uint (a_balance x) @ encode_bytes sr @ encode_bytes (a_code_hash x)"

definition acct_leaf :: "acct \<Rightarrow> bytes32 \<Rightarrow> bytes" where
  "acct_leaf x sr = encode_header \<lparr>is_list = True, payload_length = length (acct_items x sr)\<rparr> @ acct_items x sr"

text \<open>The leaves of the state trie: every account, with the root of the trie over its storage.\<close>

definition state_leaves :: "(bytes \<Rightarrow> bytes32) \<Rightarrow> accounts \<Rightarrow> (bytes32 \<times> bytes) set" where
  "state_leaves H s = {(H a, acct_leaf x sr) | a x sr. s a = Some x \<and> secure_root H (slot_leaves H (a_storage x)) sr}"

text \<open>The hash does not collide on the keys of the tries.\<close>

definition collision_free :: "(bytes \<Rightarrow> bytes32) \<Rightarrow> accounts \<Rightarrow> bool" where
  "collision_free H s \<longleftrightarrow> inj_on H (dom s) \<and> (\<forall>a x. s a = Some x \<longrightarrow> inj_on H {k. a_storage x k \<noteq> zero32})"

text \<open>The witness names each of its records by its own address, once, and its header counts them.\<close>

definition accounts_listed :: "direct_state \<Rightarrow> bool" where
  "accounts_listed st \<longleftrightarrow>
     (\<forall>off \<in> set (for_each_offset (ds_map st)). find_pre_account st (acc_addr (record_at st (PreRecord off))) = Some off) \<and>
     distinct (for_each_offset (ds_map st)) \<and> (ds_n_accounts st = 0 \<longrightarrow> for_each_offset (ds_map st) = []) \<and>
     distinct (map fst (ds_created st))"

definition all_accounts :: "direct_state \<Rightarrow> (address \<times> account) list" where
  "all_accounts st = pre_accounts st @ ds_created st"

definition alive_accounts :: "direct_state \<Rightarrow> (address \<times> account) list" where
  "alive_accounts st = filter (\<lambda>e. \<not> acc_deleted (snd e)) (all_accounts st)"

lemma pre_accounts_eq:
  "accounts_listed st \<Longrightarrow> pre_accounts st = map (\<lambda>off. (acc_addr (record_at st (PreRecord off)), record_at st (PreRecord off)))
     (for_each_offset (ds_map st))"
  by (auto simp: pre_accounts_def accounts_listed_def Let_def word_gt_0)

lemma created_not_pre: "state_ok st \<Longrightarrow> map_of (ds_created st) a \<noteq> None \<Longrightarrow> find_pre_account st a = None"
  by (auto simp: state_ok_def core_ok_def records_ok_def created_core find_pre_core)

lemma all_accounts_lookup:
  assumes "state_ok st" "accounts_listed st"
  shows "(a, pa) \<in> set (all_accounts st) \<longleftrightarrow> (\<exists>r. lookup_account st a = Some r \<and> record_at st r = pa)"
proof
  assume "(a, pa) \<in> set (all_accounts st)"
  then consider off where "off \<in> set (for_each_offset (ds_map st))" "a = acc_addr (record_at st (PreRecord off))"
      "pa = record_at st (PreRecord off)"
    | "(a, pa) \<in> set (ds_created st)"
    by (auto simp: all_accounts_def pre_accounts_eq [OF assms(2)])
  then show "\<exists>r. lookup_account st a = Some r \<and> record_at st r = pa"
  proof cases
    case 1
    then have "find_pre_account st a = Some off"
      using assms(2) by (simp add: accounts_listed_def del: record_at.simps)
    then show ?thesis
      using 1(3) by (simp add: lookup_account_def)
  next
    case 2
    then have "map_of (ds_created st) a = Some pa"
      using assms(2) by (simp add: accounts_listed_def)
    then show ?thesis
      using created_not_pre [OF assms(1), of a] by (simp add: lookup_account_def)
  qed
next
  assume "\<exists>r. lookup_account st a = Some r \<and> record_at st r = pa"
  then obtain r where r: "lookup_account st a = Some r" "record_at st r = pa"
    by blast
  show "(a, pa) \<in> set (all_accounts st)"
  proof (cases "find_pre_account st a")
    case None
    then have "map_of (ds_created st) a = Some pa"
      using r by (auto simp: lookup_account_def split: if_splits)
    then show ?thesis
      by (auto simp: all_accounts_def dest: map_of_SomeD)
  next
    case (Some off)
    then have off: "c_find (core st) a = Some off"
      by (simp add: find_pre_core)
    then have "off \<in> set (for_each_offset (ds_map st))" "acc_addr (record_at st (PreRecord off)) = a"
      using c_find_sound [OF off] by (auto simp: core_def)
    moreover have "record_at st (PreRecord off) = pa"
      using r Some by (simp add: lookup_account_def)
    ultimately show ?thesis
      by (auto simp: all_accounts_def pre_accounts_eq [OF assms(2)] simp del: record_at.simps)
  qed
qed

lemma all_accounts_distinct:
  assumes "state_ok st" "accounts_listed st"
  shows "distinct (map fst (all_accounts st))"
proof -
  have "inj_on (\<lambda>off. acc_addr (record_at st (PreRecord off))) (set (for_each_offset (ds_map st)))"
    using assms(2) unfolding accounts_listed_def by (intro inj_onI) (metis option.inject)
  then have "distinct (map fst (pre_accounts st))"
    using assms(2) by (simp add: pre_accounts_eq [OF assms(2)] comp_def distinct_map accounts_listed_def del: record_at.simps)
  moreover have "a \<notin> fst ` set (ds_created st)" if "a \<in> fst ` set (pre_accounts st)" for a
  proof -
    have "find_pre_account st a \<noteq> None"
      using that assms(2) by (auto simp: pre_accounts_eq [OF assms(2)] accounts_listed_def simp del: record_at.simps)
    then show ?thesis
      using created_not_pre [OF assms(1), of a] by (metis map_of_eq_None_iff)
  qed
  ultimately show ?thesis
    using assms(2) by (auto simp: all_accounts_def accounts_listed_def)
qed

lemma fold_emit:
  assumes "\<forall>e \<in> set es. \<not> acc_deleted (snd e) \<longrightarrow> account_storage_root H st (fst e) = Some (sr (fst e))"
  shows "fold (emit H st) es (Some m) =
    Some (fold (\<lambda>e. map_assign (H (fst e)) (account_rlp (snd e) (sr (fst e)))) (filter (\<lambda>e. \<not> acc_deleted (snd e)) es) m)"
  using assms by (induction es arbitrary: m) (auto simp: emit_def)

lemma secure_root_length: "hash32 H \<Longrightarrow> secure_root H S r \<Longrightarrow> length r = 32"
  by (auto simp: secure_root_def mpt_root_def hash32_def kEmptyRoot_def)

lemma account_rlp_leaf:
  assumes "leaf_ok pa" "length sr = 32" "acct_of pa ov = Some x"
  shows "account_rlp pa sr = acct_leaf x sr"
proof -
  have "account_rlp pa sr = account_leaf pa sr"
    using assms(1,2) by (simp add: account_rlp_eq rlp_into_eq leaf_ok_def hashes_sized_def)
  moreover have "a_nonce x = acc_nonce pa" "a_balance x = acc_balance pa" "a_code_hash x = acc_code_hash pa"
    using assms(3) by (auto simp: acct_of_def split: if_splits)
  ultimately show ?thesis
    by (simp add: account_leaf_def acct_leaf_def account_items_def acct_items_def)
qed

lemma abs_state_lookup:
  "abs_state st a = Some x \<longleftrightarrow>
     (\<exists>r. lookup_account st a = Some r \<and> acct_of (record_at st r) (map_of (ds_overflow st) a) = Some x)"
  unfolding overflow_core by (simp add: abs_state_def abs_core_def lookup_core record_core bind_eq_Some_conv)

lemma alive_accounts_iff:
  assumes "state_ok st" "accounts_listed st"
  shows "(a, pa) \<in> set (alive_accounts st) \<longleftrightarrow> (\<exists>r. lookup_account st a = Some r \<and> record_at st r = pa \<and> \<not> acc_deleted pa)"
  using all_accounts_lookup [OF assms] by (auto simp: alive_accounts_def)

lemma alive_accounts_acct:
  assumes "state_ok st" "accounts_listed st" "(a, pa) \<in> set (alive_accounts st)"
  shows "abs_state st a = acct_of pa (map_of (ds_overflow st) a) \<and> abs_state st a \<noteq> None \<and> leaf_ok pa"
proof -
  obtain r where r: "lookup_account st a = Some r" "record_at st r = pa" "\<not> acc_deleted pa"
    using assms alive_accounts_iff by blast
  then have l: "c_lookup (core st) a = Some r"
    by (simp add: lookup_core)
  show ?thesis
    using current_acct [OF l] current_entry [OF assms(1) l] r(2,3) unfolding overflow_core
    by (simp add: record_core acct_of_def entry_ok_def)
qed

lemma alive_accounts_leaves:
  assumes "state_ok st" "accounts_listed st" "hash32 H"
    and root: "\<And>a x. abs_state st a = Some x \<Longrightarrow> secure_root H (slot_leaves H (a_storage x)) (sr a)"
  shows "(\<lambda>e. (H (fst e), account_rlp (snd e) (sr (fst e)))) ` set (alive_accounts st) = state_leaves H (abs_state st)"
    (is "?leaf ` set ?es = _")
proof (intro equalityI subsetI)
  fix e assume "e \<in> ?leaf ` set ?es"
  then obtain a pa where a: "(a, pa) \<in> set ?es" "e = (H a, account_rlp pa (sr a))"
    by auto
  obtain x where x: "abs_state st a = Some x" "acct_of pa (map_of (ds_overflow st) a) = Some x" "leaf_ok pa"
    using alive_accounts_acct [OF assms(1,2) a(1)] by (metis not_None_eq)
  then have "e = (H a, acct_leaf x (sr a))"
    using account_rlp_leaf [OF x(3) _ x(2)] secure_root_length [OF assms(3) root [OF x(1)]] a(2) by simp
  then show "e \<in> state_leaves H (abs_state st)"
    using x(1) root [OF x(1)] by (auto simp: state_leaves_def)
next
  fix e assume "e \<in> state_leaves H (abs_state st)"
  then obtain a x s where a: "e = (H a, acct_leaf x s)" "abs_state st a = Some x" "secure_root H (slot_leaves H (a_storage x)) s"
    by (auto simp: state_leaves_def)
  have s: "s = sr a"
    using secure_root_unique [OF a(3) root [OF a(2)]] .
  obtain r where r: "lookup_account st a = Some r" "acct_of (record_at st r) (map_of (ds_overflow st) a) = Some x"
    using a(2) abs_state_lookup by blast
  then have mem: "(a, record_at st r) \<in> set ?es"
    using alive_accounts_iff [OF assms(1,2)] by (auto simp: acct_of_def split: if_splits)
  then have "e = ?leaf (a, record_at st r)"
    using alive_accounts_acct [OF assms(1,2) mem] account_rlp_leaf [OF _ _ r(2)] secure_root_length [OF assms(3) a(3)] a(1) s
    by simp
  then show "e \<in> ?leaf ` set ?es"
    using mem by force
qed

lemma alive_accounts_hashes:
  assumes "state_ok st" "accounts_listed st" "collision_free H (abs_state st)"
  shows "distinct (map (\<lambda>e. H (fst e)) (alive_accounts st))"
proof -
  have "fst e \<in> dom (abs_state st)" if "e \<in> set (alive_accounts st)" for e
    using alive_accounts_acct [OF assms(1,2), of "fst e" "snd e"] that by auto
  then have "fst ` set (alive_accounts st) \<subseteq> dom (abs_state st)"
    by (rule image_subsetI)
  then have "inj_on H (fst ` set (alive_accounts st))"
    using assms(3) inj_on_subset unfolding collision_free_def by blast
  moreover have "distinct (map fst (alive_accounts st))"
    using all_accounts_distinct [OF assms(1,2)] by (simp add: alive_accounts_def distinct_map_filter)
  ultimately show ?thesis
    by (simp add: distinct_map comp_inj_on_iff [unfolded comp_def])
qed

lemma state_root_ok:
  assumes "state_ok st" "accounts_listed st" "hash32 H" "collision_free H (abs_state st)"
  shows "\<exists>r. state_root_hash H st = Some r \<and> secure_root H (state_leaves H (abs_state st)) r"
proof -
  define sr where "sr a = the (account_storage_root H st a)" for a
  let ?es = "alive_accounts st" and ?leaf = "\<lambda>e. (H (fst e), account_rlp (snd e) (sr (fst e)))"
  have root: "account_storage_root H st a = Some (sr a) \<and> secure_root H (slot_leaves H (a_storage x)) (sr a)"
    if "abs_state st a = Some x" for a x
    using account_storage_root_ok [OF assms(1) that assms(3)] assms(4) that by (auto simp: collision_free_def sr_def)
  note d = alive_accounts_hashes [OF assms(1,2,4)]
  define m where "m = fold (\<lambda>e. map_assign (H (fst e)) (account_rlp (snd e) (sr (fst e)))) ?es []"
  have m: "ordered m" "map_of m = map_of (map ?leaf ?es)"
    using fold_map_assign [of "[]" ?es "\<lambda>e. H (fst e)" "\<lambda>e. account_rlp (snd e) (sr (fst e))"] d assms(3)
    by (simp_all add: m_def hash32_def)
  have "set m = set (map ?leaf ?es)"
    using d by (intro set_of_map_of [OF ordered_distinct [OF m(1)] _ m(2)]) (simp add: comp_def)
  then have set_m: "set m = state_leaves H (abs_state st)"
    using alive_accounts_leaves [OF assms(1-3), of sr] root by simp
  have "account_storage_root H st (fst e) = Some (sr (fst e))" if "e \<in> set (all_accounts st)" "\<not> acc_deleted (snd e)" for e
  proof -
    have "(fst e, snd e) \<in> set ?es"
      using that by (simp add: alive_accounts_def)
    then have "abs_state st (fst e) \<noteq> None"
      using alive_accounts_acct [OF assms(1,2)] by blast
    then show ?thesis
      using root [of "fst e"] by blast
  qed
  then have "fold (emit H st) (all_accounts st) (Some []) = Some m"
    using fold_emit [of "all_accounts st" H st sr "[]"] by (simp add: m_def alive_accounts_def)
  then have "state_root_hash H st = (if m = [] then Some kEmptyRoot else hash_builder_root H m)"
    by (simp add: state_root_hash_def all_accounts_def)
  then show ?thesis
    using hash_builder_root_secure [OF m(1) assms(3)] set_m
    by (cases "m = []") (auto simp: secure_root_def mpt_root_def intro!: exI [of _ "[]"])
qed

text \<open>
  C4: \<open>DirectState::state_root_hash\<close> returns the root of the Merkle-Patricia trie over the accounts that the state stands for:
  each account under the hash of its address, as the encoding of its nonce, its balance, the root of the trie over the
  slots of its storage that are not zero, and its code hash. Deleted accounts and zero slots have no leaf, and the
  order of the witness and of the hash maps does not matter.
\<close>

theorem state_root_hash_correct:
  assumes "state_ok st" "accounts_listed st" "hash32 H" "collision_free H (abs_state st)"
  shows "\<exists>r. state_root_hash H st = Some r \<and> secure_root H (state_leaves H (abs_state st)) r \<and>
    (\<forall>r'. secure_root H (state_leaves H (abs_state st)) r' \<longrightarrow> r' = r)"
  using state_root_ok [OF assms] secure_root_unique by blast

text \<open>On the sample state, with a hash that keeps the first 32 bytes.\<close>

definition sample_hash :: "bytes \<Rightarrow> bytes32" where
  "sample_hash b = take 32 (b @ replicate 32 0)"

theorem state_root_hash_correct_witness:
  "\<exists>r. state_root_hash sample_hash sample_state = Some r \<and> secure_root sample_hash (state_leaves sample_hash (abs_state sample_state)) r"
proof -
  have "accounts_listed sample_state"
  proof -
    have "find_pre_account sample_state sample_address = Some 64"
      by (simp add: find_pre_account_def sample_state_def find_one_record sample_account_def absent_account_def)
    then show ?thesis
      by (simp add: accounts_listed_def sample_state_def for_each_offset_def one_record_map_def sample_account_def absent_account_def)
  qed
  moreover have "hash32 sample_hash"
    by (auto simp: hash32_def sample_hash_def min_def)
  moreover have "collision_free sample_hash (abs_state sample_state)"
  proof -
    have "inj_on sample_hash {k. slot_value sample_account None k \<noteq> zero32}"
      by (rule inj_onI) (auto simp: sample_hash_def slot_value_def split: if_splits)
    then show ?thesis
      by (auto simp: collision_free_def abs_sample acct_of_def sample_account_def absent_account_def dom_def split: if_splits)
  qed
  ultimately show ?thesis
    using state_root_hash_correct [OF sample_state_ok] by blast
qed

end
