(* ===== verification/Mphf_Solve.thy ===== *)
theory Mphf_Solve
  imports Mphf_Map "HOL-Library.Multiset"
begin

text \<open>
  The displacement search of the minimal perfect hash maps (\<open>chd_solve\<close> of common_zz/mphf_builder.cpp): buckets of
  keys placed by decreasing size, a search for a displacement of each bucket, the retries with other seeds and the
  choice of the keys to spill. Key indices, positions and sizes are 32-bit in the source; they are naturals here, and
  the theorems assume that the blob stays below the 32-bit limit.
\<close>

definition kLambda :: nat where "kLambda = 4"
definition kMaxDisplacement :: nat where "kMaxDisplacement = 2 ^ 20"
definition kMaxSeedRetries :: nat where "kMaxSeedRetries = 32"

section \<open>The displacement search\<close>

text \<open>The position of a key with the sum \<open>z1\<close> of its index key and the seed factor, under a displacement factor.\<close>

definition bucket_of :: "nat \<Rightarrow> u64 \<Rightarrow> nat" where
  "bucket_of n_buckets z1 = unat (fast_mod_u32 (ucast (mix64_body z1)) (of_nat n_buckets))"

definition position :: "nat \<Rightarrow> u64 \<Rightarrow> u64 \<Rightarrow> nat" where
  "position n_keys d_factor z1 = unat (fast_mod_u32 (ucast (mix64_body (z1 + d_factor))) (of_nat n_keys))"

definition displacement_factor :: "u64 \<Rightarrow> nat \<Rightarrow> u64" where
  "displacement_factor seed_try d = ((seed_try XOR of_nat d XOR kMphfGoldenRatio) - seed_try) * kMphfGoldenRatio"

text \<open>
  One attempt to place the keys of a bucket: \<open>owner\<close> is \<open>slot_owner\<close>, with \<open>None\<close> for \<open>kNoKey\<close>. The result is the
  list of trial positions, or \<open>None\<close> after a collision.
\<close>

fun trial_positions :: "nat option list \<Rightarrow> nat list \<Rightarrow> nat list \<Rightarrow> nat list option" where
  "trial_positions owner trials [] = Some trials"
| "trial_positions owner trials (pos # ps) =
     (if owner ! pos \<noteq> None then None
      else if pos \<in> set trials then None
      else trial_positions owner (trials @ [pos]) ps)"

fun search_displacement :: "nat \<Rightarrow> u64 \<Rightarrow> u64 list \<Rightarrow> nat option list \<Rightarrow> nat list \<Rightarrow> nat \<Rightarrow> nat \<Rightarrow> (u64 \<times> nat list) option" where
  "search_displacement n_keys seed_try z1 owner bucket d 0 = None"
| "search_displacement n_keys seed_try z1 owner bucket d (Suc rest) =
     (let d_factor = displacement_factor seed_try d
      in case trial_positions owner [] (map (\<lambda>k. position n_keys d_factor (z1 ! k)) bucket) of
           Some ps \<Rightarrow> Some (d_factor, ps)
         | None \<Rightarrow> search_displacement n_keys seed_try z1 owner bucket (Suc d) rest)"

record placement =
  pl_owner :: "nat option list"
  pl_displacement :: "u64 list"
  pl_idx :: "nat list"
  pl_spilled :: "nat list"

fun set_all :: "(nat \<times> 'a) list \<Rightarrow> 'a list \<Rightarrow> 'a list" where
  "set_all [] xs = xs"
| "set_all ((i, v) # us) xs = set_all us (xs[i := v])"

definition place_bucket :: "nat \<Rightarrow> u64 \<Rightarrow> u64 list \<Rightarrow> nat \<Rightarrow> placement \<Rightarrow> nat \<times> nat list \<Rightarrow> placement" where
  "place_bucket n_keys seed_try z1 max_d p = (\<lambda>(bi, bucket).
     if bucket = [] then p\<lparr>pl_displacement := (pl_displacement p)[bi := 0]\<rparr>
     else case search_displacement n_keys seed_try z1 (pl_owner p) bucket 0 (Suc max_d) of
            Some (d_factor, ps) \<Rightarrow>
              p\<lparr>pl_owner := set_all (zip ps (map Some bucket)) (pl_owner p),
                pl_idx := set_all (zip bucket ps) (pl_idx p),
                pl_displacement := (pl_displacement p)[bi := d_factor]\<rparr>
          | None \<Rightarrow>
              p\<lparr>pl_displacement := (pl_displacement p)[bi := 0],
                pl_idx := set_all (zip bucket (map (\<lambda>k. position n_keys 0 (z1 ! k)) bucket)) (pl_idx p),
                pl_spilled := pl_spilled p @ bucket\<rparr>)"

text \<open>
  The owners of the positions spilled keys probe are spilled as well. The source appends to the list it walks:
  \<open>todo\<close> is its unvisited part and \<open>spilled\<close> the visited one.
\<close>

lemma count_owners_clear:
  "i < length owner \<Longrightarrow> owner ! i \<noteq> None \<Longrightarrow>
   length (filter (\<lambda>x. x \<noteq> None) (owner[i := None])) < length (filter (\<lambda>x. x \<noteq> None) owner)"
proof (induction owner arbitrary: i)
  case (Cons x owner)
  then show ?case by (cases i) auto
qed simp

function co_spill :: "nat list \<Rightarrow> nat option list \<Rightarrow> nat list \<Rightarrow> nat list \<Rightarrow> nat option list \<times> nat list" where
  "co_spill idx owner spilled [] = (owner, spilled)"
| "co_spill idx owner spilled (k # todo) =
     (let pos = idx ! k
      in if \<not> pos < length owner then co_spill idx owner (spilled @ [k]) todo
         else case owner ! pos of
                None \<Rightarrow> co_spill idx owner (spilled @ [k]) todo
              | Some o' \<Rightarrow> co_spill idx (owner[pos := None]) (spilled @ [k]) (todo @ [o']))"
  by pat_completeness auto
termination
  by (relation "measures [\<lambda>(idx, owner, spilled, todo). length (filter (\<lambda>x. x \<noteq> None) owner),
       \<lambda>(idx, owner, spilled, todo). length todo]")
     (auto simp del: not_None_eq intro!: count_owners_clear)

definition buckets_of :: "nat \<Rightarrow> u64 list \<Rightarrow> nat list list" where
  "buckets_of n_buckets z1 =
     map (\<lambda>b. filter (\<lambda>k. bucket_of n_buckets (z1 ! k) = b) [0..<length z1]) [0..<n_buckets]"

definition bucket_order :: "nat list list \<Rightarrow> nat list" where
  "bucket_order buckets = sort_key (\<lambda>b. - int (length (buckets ! b))) [0..<length buckets]"

record chd_attempt =
  at_seed :: u64
  at_seed_factor :: u64
  at_displacement :: "u64 list"
  at_idx :: "nat list"
  at_spilled :: "nat list"

definition attempt :: "u64 list \<Rightarrow> nat \<Rightarrow> nat \<Rightarrow> u64 \<Rightarrow> chd_attempt" where
  "attempt keys n_buckets max_d seed_try =
     (let n_keys = length keys; seed_factor = seed_try * kMphfGoldenRatio;
          z1 = map (\<lambda>k. k + seed_factor) keys;
          buckets = buckets_of n_buckets z1;
          p0 = \<lparr>pl_owner = replicate n_keys None, pl_displacement = replicate n_buckets 0,
                pl_idx = replicate n_keys (2 ^ 32 - 1), pl_spilled = []\<rparr>;
          p = foldl (place_bucket n_keys seed_try z1 max_d) p0 (map (\<lambda>b. (b, buckets ! b)) (bucket_order buckets));
          (owner, spilled) = co_spill (pl_idx p) (pl_owner p) [] (pl_spilled p)
      in \<lparr>at_seed = seed_try, at_seed_factor = seed_factor, at_displacement = pl_displacement p, at_idx = pl_idx p,
          at_spilled = spilled\<rparr>)"

text \<open>The retries: the first attempt that spills nothing, else the first one that spills fewest.\<close>

fun retry :: "u64 list \<Rightarrow> nat \<Rightarrow> nat \<Rightarrow> chd_attempt option \<Rightarrow> nat \<Rightarrow> nat \<Rightarrow> chd_attempt option" where
  "retry keys n_buckets max_d best seed_try 0 = best"
| "retry keys n_buckets max_d best seed_try (Suc left) =
     (let a = attempt keys n_buckets max_d (of_nat seed_try)
      in if at_spilled a = [] then Some a
         else retry keys n_buckets max_d
                (case best of
                   None \<Rightarrow> Some a
                 | Some b \<Rightarrow> if length (at_spilled a) < length (at_spilled b) then Some a else best)
                (Suc seed_try) left)"

definition n_buckets_for :: "nat \<Rightarrow> nat" where
  "n_buckets_for n_keys = max 1 ((n_keys + kLambda - 1) div kLambda)"

definition chd_solve :: "u64 list \<Rightarrow> nat \<Rightarrow> nat \<Rightarrow> chd_attempt option" where
  "chd_solve distinct_keys max_retries_override max_displacement_override =
     (if distinct_keys = []
      then Some \<lparr>at_seed = 0, at_seed_factor = 0, at_displacement = [0], at_idx = [], at_spilled = []\<rparr>
      else retry distinct_keys (n_buckets_for (length distinct_keys))
             (if max_displacement_override \<noteq> 0 then max_displacement_override else kMaxDisplacement) None 0
             (if max_retries_override \<noteq> 0 then max_retries_override else kMaxSeedRetries))"

section \<open>Placing the keys\<close>

lemma length_set_all [simp]: "length (set_all us xs) = length xs"
  by (induction us xs rule: set_all.induct) auto

lemma nth_set_all_notin: "i \<notin> fst ` set us \<Longrightarrow> set_all us xs ! i = xs ! i"
  by (induction us xs rule: set_all.induct) auto

lemma nth_set_all_in:
  "(i, v) \<in> set us \<Longrightarrow> distinct (map fst us) \<Longrightarrow> i < length xs \<Longrightarrow> set_all us xs ! i = v"
proof (induction us xs rule: set_all.induct)
  case (2 j w us xs)
  then show ?case
    by (cases "(i, v) = (j, w)") (auto simp: nth_set_all_notin)
qed simp

lemma zip_map_map_same: "zip (map f xs) (map g xs) = map (\<lambda>x. (f x, g x)) xs"
  by (induction xs) auto

lemma trial_positions_Some:
  "trial_positions owner trials ps = Some r \<Longrightarrow>
   r = trials @ ps \<and> (\<forall>p \<in> set ps. owner ! p = None) \<and> distinct ps \<and> set ps \<inter> set trials = {}"
  by (induction owner trials ps rule: trial_positions.induct) (auto split: if_splits)

lemma search_displacement_Some:
  "search_displacement n seed_try z1 owner bucket d left = Some (d_factor, ps) \<Longrightarrow>
   ps = map (\<lambda>k. position n d_factor (z1 ! k)) bucket \<and> (\<forall>p \<in> set ps. owner ! p = None) \<and> distinct ps"
  by (induction n seed_try z1 owner bucket d left rule: search_displacement.induct)
     (fastforce simp: Let_def split: option.splits dest: trial_positions_Some)+

lemma position_less: "0 < n \<Longrightarrow> n < 2 ^ 32 \<Longrightarrow> position n df z < n"
proof -
  assume n: "0 < n" "n < 2 ^ 32"
  then have u: "unat (of_nat n :: u32) = n"
    by (simp add: unat_of_nat)
  then have "(of_nat n :: u32) \<noteq> 0"
    using n by (metis less_numeral_extra(3) unat_0)
  from fast_mod_less [OF this] show ?thesis
    unfolding position_def by (metis u word_less_nat_alt)
qed

lemma bucket_of_less: "0 < nb \<Longrightarrow> nb < 2 ^ 32 \<Longrightarrow> bucket_of nb z < nb"
  using position_less [of nb 0 z] by (simp add: bucket_of_def position_def)

lemma in_buckets_iff:
  "b < nb \<Longrightarrow> k \<in> set (buckets_of nb z1 ! b) \<longleftrightarrow> k < length z1 \<and> bucket_of nb (z1 ! k) = b"
  by (auto simp: buckets_of_def)

lemma distinct_bucket: "b < nb \<Longrightarrow> distinct (buckets_of nb z1 ! b)"
  by (simp add: buckets_of_def)

text \<open>
  What holds after the buckets in \<open>B\<close> have been placed: each of their keys is at the position its bucket's
  displacement gives, and a key that was not spilled owns its position.
\<close>

definition positions_ok :: "nat \<Rightarrow> u64 list \<Rightarrow> nat set \<Rightarrow> u64 list \<Rightarrow> nat list \<Rightarrow> bool" where
  "positions_ok nb z1 B disp idx \<longleftrightarrow> length idx = length z1 \<and> length disp = nb \<and>
     (\<forall>k < length z1. bucket_of nb (z1 ! k) \<in> B \<longrightarrow>
        idx ! k = position (length z1) (disp ! bucket_of nb (z1 ! k)) (z1 ! k))"

definition owners_ok :: "nat \<Rightarrow> u64 list \<Rightarrow> nat set \<Rightarrow> nat option list \<Rightarrow> nat list \<Rightarrow> nat set \<Rightarrow> bool" where
  "owners_ok nb z1 B owner idx spilled \<longleftrightarrow> length owner = length z1 \<and>
     (\<forall>k < length z1. bucket_of nb (z1 ! k) \<in> B \<longrightarrow> k \<notin> spilled \<longrightarrow> owner ! (idx ! k) = Some k) \<and>
     (\<forall>i < length z1. \<forall>k. owner ! i = Some k \<longrightarrow> k < length z1 \<and> idx ! k = i \<and> bucket_of nb (z1 ! k) \<in> B) \<and>
     (\<forall>k \<in> spilled. k < length z1)"

definition placed :: "nat \<Rightarrow> u64 list \<Rightarrow> nat set \<Rightarrow> placement \<Rightarrow> bool" where
  "placed nb z1 B p \<longleftrightarrow> positions_ok nb z1 B (pl_displacement p) (pl_idx p) \<and>
     owners_ok nb z1 B (pl_owner p) (pl_idx p) (set (pl_spilled p))"

text \<open>The positions of a bucket are written into the index table.\<close>

lemma bucket_idx:
  fixes f :: "nat \<Rightarrow> nat"
  assumes "bi < nb" "length idx = length z1"
  defines "bucket \<equiv> buckets_of nb z1 ! bi"
  defines "idx' \<equiv> set_all (zip bucket (map f bucket)) idx"
  shows "k < length z1 \<Longrightarrow> idx' ! k = (if bucket_of nb (z1 ! k) = bi then f k else idx ! k)" "length idx' = length z1"
proof -
  have d: "distinct (map fst (zip bucket (map f bucket)))"
    using distinct_bucket [OF assms(1)] by (simp add: bucket_def)
  have z: "(k, f k) \<in> set (zip bucket (map f bucket))" if "k \<in> set bucket" for k
    using that by (auto simp: set_zip in_set_conv_nth)
  show "idx' ! k = (if bucket_of nb (z1 ! k) = bi then f k else idx ! k)" if "k < length z1"
  proof (cases "k \<in> set bucket")
    case True
    then show ?thesis
      unfolding idx'_def using nth_set_all_in [OF z d] that in_buckets_iff [OF assms(1), of k z1] assms(2)
      by (simp add: bucket_def)
  next
    case False
    then have "idx' ! k = idx ! k"
      unfolding idx'_def by (intro nth_set_all_notin) (auto dest: set_zip_leftD)
    then show ?thesis
      using that in_buckets_iff [OF assms(1), of k z1] False by (simp add: bucket_def)
  qed
qed (simp add: idx'_def assms(2))

lemma positions_step:
  assumes "positions_ok nb z1 B disp idx" "bi \<notin> B" "bi < nb"
  shows "positions_ok nb z1 (insert bi B) (disp[bi := df])
    (set_all (zip (buckets_of nb z1 ! bi) (map (\<lambda>k. position (length z1) df (z1 ! k)) (buckets_of nb z1 ! bi))) idx)"
proof -
  have len: "length idx = length z1"
    using assms(1) by (simp add: positions_ok_def)
  show ?thesis
    using assms bucket_idx [OF assms(3) len, where f = "\<lambda>k. position (length z1) df (z1 ! k)"]
    by (auto simp: positions_ok_def)
qed

lemma owners_step_spill:
  assumes "owners_ok nb z1 B owner idx spilled" "bi \<notin> B" "bi < nb" "length idx = length z1" "0 < length z1" "length z1 < 2 ^ 32"
    "\<And>k. k < length z1 \<Longrightarrow> bucket_of nb (z1 ! k) \<in> B \<Longrightarrow> idx ! k < length z1"
  shows "owners_ok nb z1 (insert bi B) owner
    (set_all (zip (buckets_of nb z1 ! bi) (map f (buckets_of nb z1 ! bi))) idx) (spilled \<union> set (buckets_of nb z1 ! bi))"
proof -
  note i = bucket_idx(1) [OF assms(3,4), of _ f] and b = in_buckets_iff [OF assms(3), of _ z1]
  show ?thesis
    using assms(1,2) unfolding owners_ok_def by (auto simp: i b)
qed

lemma owners_step_found:
  assumes "owners_ok nb z1 B owner idx spilled" "bi \<notin> B" "bi < nb" "length idx = length z1"
    "ps = map f (buckets_of nb z1 ! bi)" "\<forall>q \<in> set ps. owner ! q = None" "distinct ps" "\<forall>q \<in> set ps. q < length z1"
    "\<forall>k \<in> spilled. bucket_of nb (z1 ! k) \<noteq> bi"
  shows "owners_ok nb z1 (insert bi B) (set_all (zip ps (map Some (buckets_of nb z1 ! bi))) owner)
    (set_all (zip (buckets_of nb z1 ! bi) ps) idx) spilled"
proof -
  define bucket where "bucket = buckets_of nb z1 ! bi"
  define idx' where "idx' = set_all (zip bucket ps) idx"
  define owner' where "owner' = set_all (zip ps (map Some bucket)) owner"
  note i = bucket_idx(1) [OF assms(3,4), of _ f, folded bucket_def, folded assms(5) [folded bucket_def], folded idx'_def]
  note b = in_buckets_iff [OF assms(3), of _ z1, folded bucket_def]
  have len: "length owner = length z1"
    using assms(1) by (simp add: owners_ok_def)
  have zip: "(f k, Some k) \<in> set (zip ps (map Some bucket))" if "k \<in> set bucket" for k
    using that by (simp add: assms(5) bucket_def [symmetric] zip_map_map_same)
  have own_in: "owner' ! f k = Some k" if "k \<in> set bucket" for k
    unfolding owner'_def using zip [OF that] assms(5,7,8) len that
    by (intro nth_set_all_in) (auto simp: bucket_def)
  have own_out: "owner' ! q = owner ! q" if "q \<notin> set ps" for q
    unfolding owner'_def using that by (intro nth_set_all_notin) (auto dest: set_zip_leftD)
  have ps: "q \<in> set ps \<longleftrightarrow> (\<exists>k \<in> set bucket. q = f k)" for q
    by (auto simp: assms(5) bucket_def)
  have "owners_ok nb z1 (insert bi B) owner' idx' spilled"
    unfolding owners_ok_def
  proof (intro conjI allI impI ballI)
    fix k assume k: "k < length z1" "bucket_of nb (z1 ! k) \<in> insert bi B" "k \<notin> spilled"
    show "owner' ! (idx' ! k) = Some k"
    proof (cases "bucket_of nb (z1 ! k) = bi")
      case True
      then show ?thesis
        using own_in [of k] k(1) i b by simp
    next
      case False
      then have o: "owner ! (idx ! k) = Some k"
        using assms(1) k by (auto simp: owners_ok_def)
      then show ?thesis
        using False own_out [of "idx ! k"] assms(6) i [OF k(1)] by force
    qed
  next
    fix q k assume q: "q < length z1" "owner' ! q = Some k"
    have "k < length z1 \<and> idx' ! k = q \<and> bucket_of nb (z1 ! k) \<in> insert bi B"
    proof (cases "q \<in> set ps")
      case True
      then show ?thesis
        using own_in q i b by (auto simp: ps)
    next
      case False
      then have "owner ! q = Some k"
        using q own_out by simp
      then show ?thesis
        using q(1) assms(1,2) i by (auto simp: owners_ok_def)
    qed
    then show "k < length z1" "idx' ! k = q" "bucket_of nb (z1 ! k) \<in> insert bi B"
      by auto
  qed (use assms(1) in \<open>auto simp: owners_ok_def owner'_def\<close>)
  then show ?thesis
    by (simp add: owner'_def idx'_def bucket_def)
qed


lemma placed_idx:
  assumes "placed nb z1 B p" "k < length z1" "bucket_of nb (z1 ! k) \<in> B" "length z1 < 2 ^ 32"
  shows "pl_idx p ! k < length z1"
proof -
  have "0 < length z1"
    using assms(2) by linarith
  then show ?thesis
    using assms position_less [of "length z1"] by (auto simp: placed_def positions_ok_def)
qed

lemma place_bucket_placed:
  fixes seed :: u64 and max_d :: nat
  assumes "placed nb z1 B p" "bi \<notin> B" "bi < nb" "length z1 < 2 ^ 32"
    "\<forall>k \<in> set (pl_spilled p). bucket_of nb (z1 ! k) \<in> B"
  defines "p' \<equiv> place_bucket (length z1) seed z1 max_d p (bi, buckets_of nb z1 ! bi)"
  shows "placed nb z1 (insert bi B) p' \<and> (\<forall>k \<in> set (pl_spilled p'). bucket_of nb (z1 ! k) \<in> insert bi B)"
proof -
  define bucket where "bucket = buckets_of nb z1 ! bi"
  have pos: "positions_ok nb z1 B (pl_displacement p) (pl_idx p)"
    and own: "owners_ok nb z1 B (pl_owner p) (pl_idx p) (set (pl_spilled p))"
    using assms(1) by (auto simp: placed_def)
  have len: "length (pl_idx p) = length z1"
    using pos by (simp add: positions_ok_def)
  have inb: "k \<in> set bucket \<longleftrightarrow> k < length z1 \<and> bucket_of nb (z1 ! k) = bi" for k
    using in_buckets_iff [OF assms(3)] by (simp add: bucket_def)
  show ?thesis
  proof (cases "bucket = []")
    case True
    then have "p' = p\<lparr>pl_displacement := (pl_displacement p)[bi := 0]\<rparr>"
      by (simp add: p'_def place_bucket_def bucket_def [symmetric])
    moreover have "positions_ok nb z1 (insert bi B) ((pl_displacement p)[bi := 0]) (pl_idx p)"
      using positions_step [OF pos assms(2,3), of 0] True by (simp add: bucket_def [symmetric])
    moreover have "owners_ok nb z1 (insert bi B) (pl_owner p) (pl_idx p) (set (pl_spilled p))"
      using own inb True by (auto simp: owners_ok_def)
    ultimately show ?thesis
      using assms(5) by (simp add: placed_def)
  next
    case ne: False
    then have n: "0 < length z1"
      using inb [of "hd bucket"] by (metis hd_in_set less_nat_zero_code neq0_conv)
    show ?thesis
    proof (cases "search_displacement (length z1) seed z1 (pl_owner p) bucket 0 (Suc max_d)")
      case None
      then have p': "p' = p\<lparr>pl_displacement := (pl_displacement p)[bi := 0],
          pl_idx := set_all (zip bucket (map (\<lambda>k. position (length z1) 0 (z1 ! k)) bucket)) (pl_idx p),
          pl_spilled := pl_spilled p @ bucket\<rparr>"
        using ne by (simp add: p'_def place_bucket_def bucket_def [symmetric])
      have "placed nb z1 (insert bi B) p'"
        unfolding placed_def p'
        using positions_step [OF pos assms(2,3), of 0]
          owners_step_spill [OF own assms(2,3) len n assms(4) placed_idx [OF assms(1) _ _ assms(4)]]
        by (simp add: bucket_def [symmetric])
      then show ?thesis
        using assms(5) inb by (auto simp: p')
    next
      case (Some r)
      obtain df ps where r: "r = (df, ps)"
        by (cases r)
      have s: "ps = map (\<lambda>k. position (length z1) df (z1 ! k)) bucket" "\<forall>q \<in> set ps. pl_owner p ! q = None" "distinct ps"
        using search_displacement_Some [OF Some [unfolded r]] by auto
      have p': "p' = p\<lparr>pl_owner := set_all (zip ps (map Some bucket)) (pl_owner p),
          pl_idx := set_all (zip bucket ps) (pl_idx p), pl_displacement := (pl_displacement p)[bi := df]\<rparr>"
        using ne Some by (simp add: p'_def place_bucket_def bucket_def [symmetric] r)
      have "\<forall>k \<in> set (pl_spilled p). bucket_of nb (z1 ! k) \<noteq> bi"
        using assms(2,5) by auto
      moreover have "\<forall>q \<in> set ps. q < length z1"
        using s position_less [OF n assms(4)] by auto
      ultimately have "placed nb z1 (insert bi B) p'"
        unfolding placed_def p'
        using positions_step [OF pos assms(2,3), of df, folded bucket_def, folded s(1)]
          owners_step_found [OF own assms(2,3) len, folded bucket_def, OF s]
        by simp
      then show ?thesis
        using assms(5) by (auto simp: p')
    qed
  qed
qed

lemma place_buckets_placed:
  assumes "distinct bs" "set bs \<subseteq> {..<nb}" "set bs \<inter> B = {}" "length z1 < 2 ^ 32" "placed nb z1 B p"
    "\<forall>k \<in> set (pl_spilled p). bucket_of nb (z1 ! k) \<in> B"
  shows "placed nb z1 (B \<union> set bs) (foldl (place_bucket (length z1) seed z1 max_d) p (map (\<lambda>b. (b, buckets_of nb z1 ! b)) bs))"
  using assms
proof (induction bs arbitrary: p B)
  case (Cons b bs)
  note st = place_bucket_placed [OF Cons.prems(5) _ _ Cons.prems(4,6), of b seed max_d]
  show ?case
    using Cons.IH [of "insert b B" "place_bucket (length z1) seed z1 max_d p (b, buckets_of nb z1 ! b)"] Cons.prems st
    by simp
qed simp

section \<open>Spilling the owners\<close>

definition spill_closed :: "nat list \<Rightarrow> nat option list \<Rightarrow> nat set \<Rightarrow> nat option list \<Rightarrow> nat set \<Rightarrow> bool" where
  "spill_closed idx owner S owner' S' \<longleftrightarrow> length owner' = length owner \<and> S \<subseteq> S' \<and>
     (\<forall>k \<in> S'. idx ! k < length owner \<longrightarrow> owner' ! (idx ! k) = None) \<and>
     (\<forall>i < length owner. owner' ! i = owner ! i \<or> (owner' ! i = None \<and> (\<exists>k \<in> S'. owner ! i = Some k))) \<and>
     (\<forall>k \<in> S'. k \<in> S \<or> (\<exists>i < length owner. owner ! i = Some k))"

lemma co_spill_closed:
  assumes "co_spill idx owner spilled todo = (owner', spilled')"
    "\<forall>k \<in> set spilled. idx ! k < length owner \<longrightarrow> owner ! (idx ! k) = None"
  shows "spill_closed idx owner (set spilled \<union> set todo) owner' (set spilled')"
  using assms
proof (induction idx owner spilled todo rule: co_spill.induct)
  case (1 idx owner spilled)
  then show ?case
    by (auto simp: spill_closed_def)
next
  case (2 idx owner spilled k todo)
  let ?pos = "idx ! k"
  show ?case
  proof (cases "?pos < length owner \<and> owner ! ?pos \<noteq> None")
    case False
    then have c: "co_spill idx owner (spilled @ [k]) todo = (owner', spilled')"
      using 2(4) by (auto simp: Let_def split: if_splits)
    have "\<forall>j \<in> set (spilled @ [k]). idx ! j < length owner \<longrightarrow> owner ! (idx ! j) = None"
      using 2(5) False by auto
    then have "spill_closed idx owner (set (spilled @ [k]) \<union> set todo) owner' (set spilled')"
      using 2(1,2) False c by (cases "?pos < length owner") auto
    then show ?thesis
      by (simp add: insert_commute)
  next
    case True
    then obtain q where q: "?pos < length owner" "owner ! ?pos = Some q"
      by auto
    have c: "co_spill idx (owner[?pos := None]) (spilled @ [k]) (todo @ [q]) = (owner', spilled')"
      using 2(4) q by (auto simp: Let_def)
    have "\<forall>j \<in> set (spilled @ [k]). idx ! j < length (owner[?pos := None]) \<longrightarrow> owner[?pos := None] ! (idx ! j) = None"
      using 2(5) q(1) by (auto simp: nth_list_update)
    then have i: "spill_closed idx (owner[?pos := None]) (set (spilled @ [k]) \<union> set (todo @ [q])) owner' (set spilled')"
      using 2(3) [OF refl] q c by auto
    show ?thesis
      unfolding spill_closed_def
    proof (intro conjI allI ballI impI)
      fix i assume "i < length owner"
      then show "owner' ! i = owner ! i \<or> owner' ! i = None \<and> (\<exists>k \<in> set spilled'. owner ! i = Some k)"
        using i q by (cases "i = ?pos") (auto simp: spill_closed_def nth_list_update)
    next
      fix j assume "j \<in> set spilled'"
      then have "j \<in> set spilled \<union> set (k # todo) \<or> j = q \<or> (\<exists>i < length owner. owner[?pos := None] ! i = Some j)"
        using i by (auto simp: spill_closed_def)
      moreover have "\<exists>i < length owner. owner ! i = Some j" if "i < length owner" "owner[?pos := None] ! i = Some j" for i
        using that by (cases "i = ?pos") (auto simp: nth_list_update)
      ultimately show "j \<in> set spilled \<union> set (k # todo) \<or> (\<exists>i < length owner. owner ! i = Some j)"
        using q by blast
    qed (use i in \<open>auto simp: spill_closed_def\<close>)
  qed
qed

section \<open>The result of the search\<close>

text \<open>
  Every key has the position the lookup computes for it, and the position of a key that is not spilled is
  that of no other key.
\<close>

definition solved :: "u64 list \<Rightarrow> chd_attempt \<Rightarrow> bool" where
  "solved keys a \<longleftrightarrow>
     length (at_idx a) = length keys \<and> at_displacement a \<noteq> [] \<and> length (at_displacement a) < 2 ^ 32 \<and>
     set (at_spilled a) \<subseteq> {..<length keys} \<and>
     (\<forall>k < length keys. let z = keys ! k + at_seed_factor a in
        at_idx a ! k < length keys \<and>
        at_idx a ! k = position (length keys) (at_displacement a ! bucket_of (length (at_displacement a)) z) z) \<and>
     (\<forall>k < length keys. k \<notin> set (at_spilled a) \<longrightarrow> (\<forall>j < length keys. at_idx a ! j = at_idx a ! k \<longrightarrow> j = k))"

lemma set_bucket_order: "set (bucket_order buckets) = {..<length buckets}" "distinct (bucket_order buckets)"
  by (auto simp: bucket_order_def)

lemma attempt_solved:
  assumes "keys \<noteq> []" "length keys < 2 ^ 32" "0 < nb" "nb < 2 ^ 32"
  shows "solved keys (attempt keys nb max_d seed_try)"
proof -
  define sf where "sf = seed_try * kMphfGoldenRatio"
  define z1 where "z1 = map (\<lambda>k. k + sf) keys"
  define p0 where "p0 = \<lparr>pl_owner = replicate (length keys) None, pl_displacement = replicate nb 0,
    pl_idx = replicate (length keys) (2 ^ 32 - 1), pl_spilled = []\<rparr>"
  define p where "p = foldl (place_bucket (length z1) seed_try z1 max_d) p0
    (map (\<lambda>b. (b, buckets_of nb z1 ! b)) (bucket_order (buckets_of nb z1)))"
  obtain owner spilled where cs: "co_spill (pl_idx p) (pl_owner p) [] (pl_spilled p) = (owner, spilled)"
    by fastforce
  have len: "length z1 = length keys"
    by (simp add: z1_def)
  have a: "attempt keys nb max_d seed_try = \<lparr>at_seed = seed_try, at_seed_factor = sf,
      at_displacement = pl_displacement p, at_idx = pl_idx p, at_spilled = spilled\<rparr>"
    using cs unfolding attempt_def Let_def sf_def [symmetric] z1_def [symmetric] len [symmetric] p0_def [symmetric]
    by (simp add: p_def p0_def len)
  have "placed nb z1 {} p0"
    by (simp add: placed_def positions_ok_def owners_ok_def p0_def len)
  then have "placed nb z1 ({} \<union> set (bucket_order (buckets_of nb z1))) p"
    unfolding p_def using set_bucket_order [of "buckets_of nb z1"] assms(2)
    by (intro place_buckets_placed) (auto simp: buckets_of_def len p0_def)
  then have pl: "placed nb z1 {..<nb} p"
    using set_bucket_order(1) [of "buckets_of nb z1"] by (simp add: buckets_of_def)
  have all: "bucket_of nb z < nb" for z
    by (rule bucket_of_less [OF assms(3,4)])
  have pos: "pl_idx p ! k = position (length keys) (pl_displacement p ! bucket_of nb (z1 ! k)) (z1 ! k)"
    "pl_idx p ! k < length keys" if "k < length keys" for k
    using pl that all placed_idx [OF pl, of k] assms(2) by (auto simp: placed_def positions_ok_def len)
  have own: "owners_ok nb z1 {..<nb} (pl_owner p) (pl_idx p) (set (pl_spilled p))"
    using pl by (simp add: placed_def)
  have cl: "spill_closed (pl_idx p) (pl_owner p) (set (pl_spilled p)) owner (set spilled)"
    using co_spill_closed [OF cs] by simp
  have lo: "length (pl_owner p) = length keys"
    using own by (simp add: owners_ok_def len)
  have sub: "set spilled \<subseteq> {..<length keys}"
  proof
    fix k assume "k \<in> set spilled"
    then have "k \<in> set (pl_spilled p) \<or> (\<exists>i < length keys. pl_owner p ! i = Some k)"
      using cl by (simp add: spill_closed_def lo)
    then show "k \<in> {..<length keys}"
      using own unfolding owners_ok_def len lessThan_iff by blast
  qed
  have keep: "owner ! (pl_idx p ! k) = Some k" if k: "k < length keys" "k \<notin> set spilled" for k
  proof -
    have "k \<notin> set (pl_spilled p)"
      using cl k by (auto simp: spill_closed_def)
    then have "pl_owner p ! (pl_idx p ! k) = Some k"
      using own k all by (simp add: owners_ok_def len)
    moreover have "owner ! (pl_idx p ! k) = pl_owner p ! (pl_idx p ! k) \<or>
        (\<exists>j \<in> set spilled. pl_owner p ! (pl_idx p ! k) = Some j)"
      using cl pos(2) [OF k(1)] unfolding spill_closed_def lo by blast
    ultimately show ?thesis
      using k(2) by force
  qed
  have gone: "owner ! (pl_idx p ! k) = None" if "k < length keys" "k \<in> set spilled" for k
    using cl that(2) pos(2) [OF that(1)] unfolding spill_closed_def lo by blast
  have inj: "j = k" if "k < length keys" "k \<notin> set spilled" "j < length keys" "pl_idx p ! j = pl_idx p ! k" for j k
    using keep [OF that(1,2)] keep [OF that(3)] gone [OF that(3)] that(4) by (metis option.distinct(1) option.inject)
  have lens: "length (pl_displacement p) = nb" "length (pl_idx p) = length keys"
    using pl by (simp_all add: placed_def positions_ok_def len)
  have z: "z1 ! k = keys ! k + sf" if "k < length keys" for k
    using that by (simp add: z1_def)
  show ?thesis
    unfolding solved_def a chd_attempt.simps Let_def lens
  proof (intro conjI allI impI)
    show "pl_displacement p \<noteq> []"
      using lens(1) assms(3) by auto
  qed (use pos z sub inj assms(4) in \<open>simp_all\<close>)
qed

lemma retry_solved:
  assumes "keys \<noteq> []" "length keys < 2 ^ 32" "0 < nb" "nb < 2 ^ 32" "\<And>a. best = Some a \<Longrightarrow> solved keys a"
    "best \<noteq> None \<or> 0 < left"
  shows "\<exists>a. retry keys nb max_d best seed_try left = Some a \<and> solved keys a"
  using assms(5,6)
proof (induction left arbitrary: best seed_try)
  case (Suc left)
  let ?a = "attempt keys nb max_d (of_nat seed_try)"
  have s: "solved keys ?a"
    by (rule attempt_solved [OF assms(1-4)])
  show ?case
  proof (cases "at_spilled ?a = []")
    case False
    let ?best = "case best of None \<Rightarrow> Some ?a
      | Some b \<Rightarrow> if length (at_spilled ?a) < length (at_spilled b) then Some ?a else best"
    have "\<exists>a. retry keys nb max_d ?best (Suc seed_try) left = Some a \<and> solved keys a"
      using s Suc.prems(1) by (intro Suc.IH) (auto split: option.splits if_splits)
    then show ?thesis
      using False by (simp add: Let_def)
  qed (simp add: s Let_def)
qed auto

lemma chd_solve_solved:
  assumes "length keys < 2 ^ 32"
  shows "\<exists>a. chd_solve keys mr md = Some a \<and> solved keys a"
proof (cases "keys = []")
  case False
  have "0 < n_buckets_for (length keys)" "n_buckets_for (length keys) < 2 ^ 32"
    using assms by (auto simp: n_buckets_for_def kLambda_def)
  then show ?thesis
    using False assms unfolding chd_solve_def by (simp only: if_False, intro retry_solved) (auto simp: kMaxSeedRetries_def)
qed (simp add: chd_solve_def solved_def)

end
