(* ===== verification/Mphf_Builder.thy ===== *)
theory Mphf_Builder
  imports Mphf_Solve
begin

text \<open>
  The builder of the minimal perfect hash maps (common_zz/mphf_builder.hpp, common_zz/mphf_builder.cpp): the
  collection of the entries with the sidecar of colliding keys, and the tables and the layout of the finished
  blob. The lemmas show that the tables find every entry.
\<close>

section \<open>The builder\<close>

text \<open>
  \<open>unique_kv_entries_\<close> is an ordered map: an association list with ascending keys. \<open>collision_keys_\<close> and
  \<open>collision_bodies_\<close> are one list of pairs.
\<close>

record mphf_builder =
  mb_magic :: u32
  mb_version :: u32
  mb_unique :: "(u64 \<times> bytes) list"
  mb_collisions :: "(u64 \<times> bytes) list"
  mb_max_retries :: nat
  mb_max_displacement :: nat

definition mphf_builder_new :: "u32 \<Rightarrow> u32 \<Rightarrow> mphf_builder" where
  "mphf_builder_new magic version =
     \<lparr>mb_magic = magic, mb_version = version, mb_unique = [], mb_collisions = [], mb_max_retries = 0,
      mb_max_displacement = 0\<rparr>"

fun map_put :: "u64 \<Rightarrow> bytes \<Rightarrow> (u64 \<times> bytes) list \<Rightarrow> (u64 \<times> bytes) list" where
  "map_put k v [] = [(k, v)]"
| "map_put k v ((k', v') # xs) =
     (if k < k' then (k, v) # (k', v') # xs
      else if k = k' then (k, v) # xs
      else (k', v') # map_put k v xs)"

definition mphf_add :: "mphf_builder \<Rightarrow> u64 \<Rightarrow> bytes \<Rightarrow> mphf_builder" where
  "mphf_add b key body =
     (case map_of (mb_unique b) key of
        Some old \<Rightarrow>
          (let cs = if old \<noteq> [] then mb_collisions b @ [(key, old)] else mb_collisions b;
               u = if old \<noteq> [] then map_put key [] (mb_unique b) else mb_unique b
           in b\<lparr>mb_unique := u, mb_collisions := cs @ [(key, body)]\<rparr>)
      | None \<Rightarrow> b\<lparr>mb_unique := map_put key body (mb_unique b)\<rparr>)"

text \<open>\<open>finalize\<close> first routes the spilled keys through the sidecar.\<close>

definition spill :: "mphf_builder \<Rightarrow> nat list \<Rightarrow> mphf_builder" where
  "spill b spilled =
     foldl (\<lambda>b i. let key = fst (mb_unique b ! i); body = snd (mb_unique b ! i)
                  in if body \<noteq> []
                     then b\<lparr>mb_unique := (mb_unique b)[i := (key, [])], mb_collisions := mb_collisions b @ [(key, body)]\<rparr>
                     else b) b spilled"

text \<open>An entry of the data section, and the offsets of consecutive entries.\<close>

definition entry_size :: "bytes \<Rightarrow> nat" where
  "entry_size body = unat (mphf_align8 (of_nat (8 + length body)))"

definition entry_bytes :: "bytes \<Rightarrow> bytes" where
  "entry_bytes body = rev (store_big (of_nat (length body) :: u64)) @ body
     @ replicate (entry_size body - 8 - length body) 0"

fun entry_offsets :: "nat \<Rightarrow> bytes list \<Rightarrow> nat list" where
  "entry_offsets cur [] = []"
| "entry_offsets cur (body # bodies) = cur # entry_offsets (cur + entry_size body) bodies"

text \<open>The slots written for the keys whose body is not in the sidecar.\<close>

fun write_slots :: "nat \<Rightarrow> (nat \<times> bytes) list \<Rightarrow> u32 list \<Rightarrow> u32 list" where
  "write_slots cur [] slots = slots"
| "write_slots cur ((idx, body) # xs) slots =
     (if body = [] then write_slots cur xs slots
      else write_slots (cur + entry_size body) xs (slots[idx := of_nat cur]))"

definition build_tables :: "mphf_builder \<Rightarrow> (chd_attempt \<times> mphf_map \<times> bytes) option" where
  "build_tables b =
     (case chd_solve (map fst (mb_unique b)) (mb_max_retries b) (mb_max_displacement b) of
        None \<Rightarrow> None
      | Some a \<Rightarrow>
          (let b = spill b (at_spilled a);
               n_keys = length (mb_unique b);
               unique_bodies = filter (\<lambda>body. body \<noteq> []) (map snd (mb_unique b));
               collision_bodies = map snd (mb_collisions b);
               slots = write_slots 8 (zip (at_idx a) (map snd (mb_unique b))) (replicate n_keys 0);
               cur = 8 + sum_list (map entry_size unique_bodies);
               collisions = zip (map fst (mb_collisions b)) (map of_nat (entry_offsets cur collision_bodies));
               data = replicate 8 0 @ concat (map entry_bytes (unique_bodies @ collision_bodies))
           in Some (a,
                \<lparr>mp_n_keys = of_nat n_keys, mp_n_buckets = of_nat (length (at_displacement a)),
                 mp_seed_factor = at_seed_factor a, mp_displacement = at_displacement a, mp_slot_offsets = slots,
                 mp_collisions = sort_key fst collisions\<rparr>, data)))"


text \<open>
  The finished blob: header, displacement table, slot offsets, sidecar and data, each padded to eight bytes. The
  source fills a zeroed vector of the total size; here the sections are concatenated in the order of their
  offsets.
\<close>

definition le_words :: "'a::len word list \<Rightarrow> bytes" where
  "le_words ws = concat (map (\<lambda>w. rev (store_big w)) ws)"

definition pad8 :: "bytes \<Rightarrow> bytes" where
  "pad8 bs = bs @ replicate (unat (mphf_align8 (of_nat (length bs))) - length bs) 0"

definition mphf_finalize :: "mphf_builder \<Rightarrow> bytes" where
  "mphf_finalize b =
     (case build_tables b of
        None \<Rightarrow> []
      | Some (a, m, data) \<Rightarrow>
          (let n_keys = length (mp_slot_offsets m); n_buckets = length (mp_displacement m);
               collisions_size = of_nat (length (mp_collisions m)) * 16 :: u32;
               displacement_offset = mphf_align8 56;
               slot_offsets_offset = displacement_offset + mphf_align8 (of_nat n_buckets * 8);
               collisions_offset = slot_offsets_offset + mphf_align8 (of_nat n_keys * 4);
               data_offset = collisions_offset + mphf_align8 collisions_size
           in le_words [mb_magic b, mb_version b, of_nat n_keys, of_nat n_buckets]
                @ le_words [at_seed a, at_seed_factor a]
                @ le_words [collisions_offset, collisions_size, displacement_offset, slot_offsets_offset,
                            data_offset, of_nat (length data)]
                @ pad8 (le_words (mp_displacement m)) @ pad8 (le_words (mp_slot_offsets m))
                @ pad8 (le_words (concat (map (\<lambda>(k, off). [k, off]) (mp_collisions m))))
                @ pad8 data))"

section \<open>The data section\<close>

lemma mphf_align8_nat: "unat v + 7 < 2 ^ 32 \<Longrightarrow> unat (mphf_align8 v) = (unat v + 7) div 8 * 8"
proof -
  assume v: "unat v + 7 < 2 ^ 32"
  have "(v + 7) AND NOT 7 = push_bit 3 (drop_bit 3 (v + 7))"
  proof (rule bit_word_eqI)
    fix n assume "n < LENGTH(32)"
    have "bit (7 :: u32) n \<longleftrightarrow> n < 3"
      using bit_mask_iff [of 3 n, where 'a = u32] \<open>n < LENGTH(32)\<close> by (simp add: mask_numeral)
    then show "bit ((v + 7) AND NOT 7) n \<longleftrightarrow> bit (push_bit 3 (drop_bit 3 (v + 7))) n"
      using \<open>n < LENGTH(32)\<close> by (auto simp: bit_simps)
  qed
  moreover have "unat (v + 7) = unat v + 7"
    using v by (simp add: unat_word_ariths)
  moreover have "(unat v + 7) div 8 * 8 < 2 ^ 32"
    using v by (meson div_times_less_eq_dividend le_less_trans)
  ultimately show ?thesis
    by (simp add: mphf_align8_def push_bit_eq_mult unat_word_ariths unat_drop_bit_div del: unsigned_drop_bit_eq)
qed

lemma entry_size_eq: "length body + 15 < 2 ^ 32 \<Longrightarrow> entry_size body = (length body + 15) div 8 * 8"
  unfolding entry_size_def by (subst mphf_align8_nat) (simp_all add: unat_of_nat del: of_nat_add)

lemma entry_size_bounds:
  assumes "length body + 15 < 2 ^ 32"
  shows "8 + length body \<le> entry_size body" "entry_size body \<le> length body + 15" "8 dvd entry_size body"
  using assms by (auto simp: entry_size_eq)

lemma length_entry_bytes: "length body + 15 < 2 ^ 32 \<Longrightarrow> length (entry_bytes body) = entry_size body"
  using entry_size_bounds [of body] by (simp add: entry_bytes_def)

lemma load_little_rev_store:
  fixes w :: "'a::len word"
  assumes "8 dvd LENGTH('a)"
  shows "load_little (rev (store_big w) @ rest) = w"
proof -
  have "take (LENGTH('a) div 8) (rev (store_big w) @ rest) = rev (store_big w)"
    by simp
  then show ?thesis
    unfolding load_little_def by (simp only:) (simp add: le_nat_eq_be_nat_rev be_nat_store_big assms)
qed

lemma read_word_at:
  fixes w :: "'a::len word"
  assumes "8 dvd LENGTH('a)" "off = length pre"
  shows "read_word (pre @ rev (store_big w) @ post) off = Some w"
proof -
  have "read_bytes (pre @ rev (store_big w) @ post) off (LENGTH('a) div 8) = Some (rev (store_big w))"
    by (simp add: read_bytes_def assms(2))
  then show ?thesis
    using load_little_rev_store [OF assms(1), of w "[]"] by (simp add: read_word_def)
qed

lemma body_at_entry:
  assumes "data = pre @ entry_bytes body @ post" "length body < 2 ^ 32"
  shows "body_at data (length pre) = Some body"
proof -
  let ?l = "rev (store_big (of_nat (length body) :: u64))"
  define pad where "pad = replicate (entry_size body - 8 - length body) (0 :: byte)"
  have d: "data = pre @ ?l @ body @ pad @ post"
    by (simp add: assms(1) entry_bytes_def pad_def)
  have "read_word data (length pre) = Some (of_nat (length body) :: u64)"
    unfolding d by (rule read_word_at) simp_all
  moreover have "unat (of_nat (length body) :: u64) = length body"
    using assms(2) by (simp add: unat_of_nat)
  moreover have "read_bytes data (length pre + 8) (length body) = Some body"
    unfolding d by (simp add: read_bytes_def)
  ultimately show ?thesis
    by (simp add: body_at_def)
qed

definition stored :: "bytes \<Rightarrow> nat \<Rightarrow> bytes \<Rightarrow> bool" where
  "stored data off body \<longleftrightarrow> body_at data off = Some body \<and> 8 dvd off \<and> 0 < off \<and> off < 2 ^ 32"

lemma entries_stored:
  assumes "data = pre @ concat (map entry_bytes bodies) @ post" "8 dvd length pre" "0 < length pre"
    "length pre + sum_list (map (\<lambda>b. length b + 15) bodies) < 2 ^ 32"
    "(off, body) \<in> set (zip (entry_offsets (length pre) bodies) bodies)"
  shows "stored data off body"
  using assms
proof (induction bodies arbitrary: pre)
  case (Cons b bodies)
  have b: "length b + 15 < 2 ^ 32"
    using Cons.prems(4) by simp
  note sz = entry_size_bounds [OF b] length_entry_bytes [OF b]
  show ?case
  proof (cases "(off, body) = (length pre, b)")
    case True
    then show ?thesis
      using body_at_entry [of data pre b "concat (map entry_bytes bodies) @ post"] Cons.prems b by (simp add: stored_def)
  next
    case False
    then have "(off, body) \<in> set (zip (entry_offsets (length (pre @ entry_bytes b)) bodies) bodies)"
      using Cons.prems(5) sz by auto
    then show ?thesis
      using Cons.prems sz by (intro Cons.IH [of "pre @ entry_bytes b"]) auto
  qed
qed simp

lemma length_entry_offsets [simp]: "length (entry_offsets cur bodies) = length bodies"
  by (induction cur bodies rule: entry_offsets.induct) auto

lemma entry_offsets_append:
  "entry_offsets cur (xs @ ys) = entry_offsets cur xs @ entry_offsets (cur + sum_list (map entry_size xs)) ys"
  by (induction cur xs rule: entry_offsets.induct) (auto simp: add.assoc)

lemma length_write_slots [simp]: "length (write_slots cur xs slots) = length slots"
  by (induction cur xs slots rule: write_slots.induct) auto

lemma write_slots_other:
  "(\<And>body. (j, body) \<in> set xs \<Longrightarrow> body = []) \<Longrightarrow> write_slots cur xs slots ! j = slots ! j"
proof (induction cur xs slots rule: write_slots.induct)
  case (2 cur idx body xs slots)
  moreover have "idx \<noteq> j" if "body \<noteq> []"
    using 2(3) [of body] that by auto
  ultimately show ?case
    by (cases "body = []") auto
qed simp

lemma write_slots_in:
  assumes "(j, body) \<in> set xs" "body \<noteq> []" "j < length slots"
    "distinct (map fst (filter (\<lambda>x. snd x \<noteq> []) xs))"
  shows "\<exists>off. write_slots cur xs slots ! j = of_nat off \<and>
    (off, body) \<in> set (zip (entry_offsets cur (filter (\<lambda>b. b \<noteq> []) (map snd xs))) (filter (\<lambda>b. b \<noteq> []) (map snd xs)))"
  using assms
proof (induction cur xs slots rule: write_slots.induct)
  case (2 cur i v xs slots)
  show ?case
  proof (cases "(j, body) = (i, v)")
    case True
    then have v: "v \<noteq> []" "i = j" "v = body"
      using 2(4) by auto
    have "b = []" if "(j, b) \<in> set xs" for b
      using 2(6) v that by (force simp: image_iff)
    then have "write_slots (cur + entry_size v) xs (slots[i := of_nat cur]) ! j = of_nat cur"
      using v 2(5) by (subst write_slots_other) auto
    then show ?thesis
      using v by auto
  next
    case False
    then have m: "(j, body) \<in> set xs"
      using 2(3) by auto
    show ?thesis
    proof (cases "v = []")
      case True
      then show ?thesis
        using 2(1) [OF True m 2(4,5)] 2(6) by simp
    next
      case ne: False
      then show ?thesis
        using 2(2) [OF ne m 2(4)] 2(5,6) by fastforce
    qed
  qed
qed simp


section \<open>The builder\<close>

text \<open>
  The entries added so far are those still in the ordered map and those in the sidecar; an index key in the
  sidecar has an empty body in the map.
\<close>

definition entries :: "mphf_builder \<Rightarrow> (u64 \<times> bytes) list" where
  "entries b = filter (\<lambda>e. snd e \<noteq> []) (mb_unique b) @ mb_collisions b"

definition builder_inv :: "mphf_builder \<Rightarrow> bool" where
  "builder_inv b \<longleftrightarrow> sorted_wrt (<) (map fst (mb_unique b)) \<and>
     fst ` set (mb_unique b) = fst ` set (entries b) \<and>
     (\<forall>e \<in> set (mb_unique b). snd e \<noteq> [] \<longrightarrow> fst e \<notin> fst ` set (mb_collisions b)) \<and>
     (\<forall>e \<in> set (mb_collisions b). snd e \<noteq> [])"

lemma set_map_put:
  "sorted_wrt (<) (map fst xs) \<Longrightarrow> set (map_put k v xs) = insert (k, v) {e \<in> set xs. fst e \<noteq> k}"
proof (induction k v xs rule: map_put.induct)
  case (2 k v k' v' xs)
  then show ?case
    by (cases "k < k'"; cases "k = k'") fastforce+
qed simp

lemma sorted_map_put: "sorted_wrt (<) (map fst xs) \<Longrightarrow> sorted_wrt (<) (map fst (map_put k v xs))"
proof (induction k v xs rule: map_put.induct)
  case (2 k v k' v' xs)
  then show ?case
    by (cases "k < k'"; cases "k = k'") (auto simp: set_map_put)
qed simp

lemma strict_sorted_distinct: "sorted_wrt (<) xs \<Longrightarrow> distinct (xs :: u64 list)"
  by (induction xs) auto

lemma mset_map_put_new:
  "k \<notin> fst ` set xs \<Longrightarrow> mset (map_put k v xs) = mset ((k, v) # xs)"
  by (induction k v xs rule: map_put.induct) auto

lemma mset_filter_clear:
  assumes "sorted_wrt (<) (map fst xs)" "(k, old) \<in> set xs" "old \<noteq> []"
  shows "add_mset (k, old) (mset (filter (\<lambda>e. snd e \<noteq> []) (map_put k [] xs))) = mset (filter (\<lambda>e. snd e \<noteq> []) xs)"
  using assms
proof (induction k "[] :: bytes" xs rule: map_put.induct)
  case (2 k k' v' xs)
  show ?case
  proof (cases "k = k'")
    case True
    then have "(k, old) \<notin> set xs"
      using 2(2) by force
    then show ?thesis
      using True 2(3,4) by auto
  next
    case False
    then have "(k, old) \<in> set xs" "\<not> k < k'"
      using 2(2,3) by force+
    then show ?thesis
      using 2(1,2,4) False by auto
  qed
qed simp

lemma mphf_add_inv:
  assumes "builder_inv b" "body \<noteq> []"
  shows "builder_inv (mphf_add b key body) \<and> mset (entries (mphf_add b key body)) = add_mset (key, body) (mset (entries b))"
proof -
  let ?U = "mb_unique b" and ?C = "mb_collisions b"
  have srt: "sorted_wrt (<) (map fst ?U)" and dist: "distinct (map fst ?U)"
    using assms(1) strict_sorted_distinct by (auto simp: builder_inv_def)
  show ?thesis
  proof (cases "map_of ?U key")
    case None
    then have new: "key \<notin> fst ` set ?U"
      by (simp add: map_of_eq_None_iff)
    then have nc: "key \<notin> fst ` set ?C"
      using assms(1) by (auto simp: builder_inv_def entries_def)
    have a: "mphf_add b key body = b\<lparr>mb_unique := map_put key body ?U\<rparr>"
      by (simp add: mphf_add_def None)
    have "mset (filter (\<lambda>e. snd e \<noteq> []) (map_put key body ?U)) = add_mset (key, body) (mset (filter (\<lambda>e. snd e \<noteq> []) ?U))"
      using mset_map_put_new [OF new, of body] assms(2) by (simp add: mset_filter)
    then have m: "mset (entries (mphf_add b key body)) = add_mset (key, body) (mset (entries b))"
      by (simp add: a entries_def)
    have su: "set (map_put key body ?U) = insert (key, body) (set ?U)"
      using set_map_put [OF srt, of key body] new by force
    have se: "set (entries (mphf_add b key body)) = insert (key, body) (set (entries b))"
      using m by (metis set_mset_add_mset_insert set_mset_mset)
    have "builder_inv (mphf_add b key body)"
      using assms(1) se su sorted_map_put [OF srt] nc unfolding builder_inv_def a by auto
    then show ?thesis
      using m by simp
  next
    case (Some old)
    then have old: "(key, old) \<in> set ?U"
      by (rule map_of_SomeD)
    define U' where "U' = (if old \<noteq> [] then map_put key [] ?U else ?U)"
    define C' where "C' = (if old \<noteq> [] then ?C @ [(key, old)] else ?C)"
    have a: "mphf_add b key body = b\<lparr>mb_unique := U', mb_collisions := C' @ [(key, body)]\<rparr>"
      by (simp add: mphf_add_def Some U'_def C'_def Let_def)
    have m: "mset (entries (mphf_add b key body)) = add_mset (key, body) (mset (entries b))"
      using mset_filter_clear [OF srt old] by (auto simp: a entries_def U'_def C'_def)
    have se: "set (entries (mphf_add b key body)) = insert (key, body) (set (entries b))"
      using m by (metis set_mset_add_mset_insert set_mset_mset)
    have su: "set U' = insert (key, []) {e \<in> set ?U. fst e \<noteq> key}"
    proof (cases "old = []")
      case True
      then have U': "U' = ?U"
        by (simp add: U'_def)
      have "e = (key, [])" if "e \<in> set ?U" "fst e = key" for e
        using that old dist True by (metis eq_key_imp_eq_value prod.collapse)
      then show ?thesis
        unfolding U' using True old by blast
    qed (simp add: U'_def set_map_put [OF srt])
    have "fst ` set U' = fst ` set ?U"
      using old by (force simp: su)
    moreover have "key \<in> fst ` set (entries b)"
      using assms(1) old by (force simp: builder_inv_def)
    moreover have "sorted_wrt (<) (map fst U')"
      using srt sorted_map_put by (simp add: U'_def)
    moreover have "fst e \<notin> fst ` set (C' @ [(key, body)])" if e: "e \<in> set U'" "snd e \<noteq> []" for e
    proof -
      have "e \<noteq> (key, [])"
        using e(2) by auto
      then have "e \<in> set ?U" "fst e \<noteq> key"
        using e(1) su by auto
      moreover have "fst ` set (C' @ [(key, body)]) \<subseteq> insert key (fst ` set ?C)"
        by (auto simp: C'_def)
      ultimately show ?thesis
        using assms(1) e(2) unfolding builder_inv_def by blast
    qed
    moreover have "\<forall>e \<in> set (C' @ [(key, body)]). snd e \<noteq> []"
      using assms by (auto simp: C'_def builder_inv_def)
    moreover have "fst ` set ?U = fst ` set (entries b)"
      using assms(1) by (simp add: builder_inv_def)
    ultimately have "builder_inv (mphf_add b key body)"
      unfolding builder_inv_def se by (simp add: a insert_absorb)
    then show ?thesis
      using m by simp
  qed
qed

lemma spill_step:
  assumes "builder_inv b" "i < length (mb_unique b)"
  defines "b' \<equiv> (let key = fst (mb_unique b ! i); body = snd (mb_unique b ! i)
    in if body \<noteq> []
       then b\<lparr>mb_unique := (mb_unique b)[i := (key, [])], mb_collisions := mb_collisions b @ [(key, body)]\<rparr>
       else b)"
  shows "builder_inv b' \<and> mset (entries b') = mset (entries b) \<and> map fst (mb_unique b') = map fst (mb_unique b) \<and>
    snd (mb_unique b' ! i) = [] \<and> (\<forall>j. snd (mb_unique b ! j) = [] \<longrightarrow> snd (mb_unique b' ! j) = [])"
proof (cases "snd (mb_unique b ! i) = []")
  case True
  then show ?thesis
    using assms(1) by (simp add: b'_def)
next
  case False
  obtain k v where kv: "mb_unique b ! i = (k, v)"
    by fastforce
  let ?U = "mb_unique b"
  have v: "v \<noteq> []"
    using False kv by simp
  have b': "b' = b\<lparr>mb_unique := ?U[i := (k, [])], mb_collisions := mb_collisions b @ [(k, v)]\<rparr>"
    using v by (simp add: b'_def kv)
  have dist: "distinct (map fst ?U)"
    using assms(1) strict_sorted_distinct by (auto simp: builder_inv_def)
  have keys: "map fst (?U[i := (k, [])]) = map fst ?U"
    using kv assms(2) by (simp add: map_update) (metis fst_conv list_update_id length_map nth_map)
  have U: "?U = take i ?U @ (k, v) # drop (Suc i) ?U"
    using id_take_nth_drop [OF assms(2)] kv by simp
  have U': "?U[i := (k, [])] = take i ?U @ (k, []) # drop (Suc i) ?U"
    using upd_conv_take_nth_drop [OF assms(2)] by simp
  have m: "mset (entries b') = mset (entries b)"
    unfolding entries_def b' using v by (simp add: U') (subst (3) U, simp)
  have se: "set (entries b') = set (entries b)"
    using m by (metis set_mset_mset)
  have su: "set (?U[i := (k, [])]) \<subseteq> insert (k, []) (set ?U - {(k, v)})"
  proof -
    have "(k, v) \<notin> set (take i ?U) \<union> set (drop (Suc i) ?U)"
      using dist by (subst (asm) U) force
    then show ?thesis
      unfolding U' by (auto dest: in_set_takeD in_set_dropD)
  qed
  have "builder_inv b'"
    unfolding builder_inv_def se
  proof (intro conjI ballI impI)
    fix e assume e: "e \<in> set (mb_unique b')"
    assume ne: "snd e \<noteq> []"
    then have o: "e \<in> set ?U" "e \<noteq> (k, v)"
      using e su by (auto simp: b')
    then have "fst e \<noteq> k"
      using dist kv nth_mem [OF assms(2)] by (metis eq_key_imp_eq_value prod.collapse)
    then show "fst e \<notin> fst ` set (mb_collisions b')"
      using o(1) ne assms(1) by (simp add: b' builder_inv_def)
  next
    have "fst ` set (mb_unique b') = set (map fst (mb_unique b'))"
      by simp
    also have "\<dots> = fst ` set (mb_unique b)"
      using keys by (simp add: b' flip: set_map)
    finally show "fst ` set (mb_unique b') = fst ` set (entries b)"
      using assms(1) by (simp add: builder_inv_def)
  qed (use assms(1) v keys in \<open>auto simp: b' builder_inv_def\<close>)
  then show ?thesis
    using m keys assms(2) by (auto simp: b' nth_list_update)
qed


lemma spill_inv:
  assumes "builder_inv b" "set spilled \<subseteq> {..<length (mb_unique b)}"
  shows "builder_inv (spill b spilled) \<and> mset (entries (spill b spilled)) = mset (entries b) \<and>
    map fst (mb_unique (spill b spilled)) = map fst (mb_unique b) \<and>
    (\<forall>i \<in> set spilled. snd (mb_unique (spill b spilled) ! i) = []) \<and>
    (\<forall>j. snd (mb_unique b ! j) = [] \<longrightarrow> snd (mb_unique (spill b spilled) ! j) = [])"
  using assms
proof (induction spilled arbitrary: b)
  case (Cons i spilled)
  define b' where "b' = (let key = fst (mb_unique b ! i); body = snd (mb_unique b ! i)
    in if body \<noteq> []
       then b\<lparr>mb_unique := (mb_unique b)[i := (key, [])], mb_collisions := mb_collisions b @ [(key, body)]\<rparr>
       else b)"
  have st: "spill b (i # spilled) = spill b' spilled"
    by (simp add: spill_def b'_def)
  have s: "builder_inv b'" "mset (entries b') = mset (entries b)" "map fst (mb_unique b') = map fst (mb_unique b)"
    "snd (mb_unique b' ! i) = []" "\<forall>j. snd (mb_unique b ! j) = [] \<longrightarrow> snd (mb_unique b' ! j) = []"
    using spill_step [OF Cons.prems(1), of i] Cons.prems(2) unfolding b'_def [symmetric] by auto
  have "length (mb_unique b') = length (mb_unique b)"
    using s(3) by (metis length_map)
  then have "set spilled \<subseteq> {..<length (mb_unique b')}"
    using Cons.prems(2) by auto
  from Cons.IH [OF s(1) this] show ?case
    unfolding st using s by auto
qed (simp add: spill_def)

section \<open>Lookups in what was built\<close>

text \<open>The size of the data section, with every entry padded as much as it can be, stays below the 32-bit limit.\<close>

definition fits :: "mphf_builder \<Rightarrow> bool" where
  "fits b \<longleftrightarrow> 8 + sum_list (map (\<lambda>e. length (snd e) + 15) (entries b)) < 2 ^ 32"

lemma map_snd_filter: "map snd (filter (\<lambda>e. snd e \<noteq> []) xs) = filter (\<lambda>v. v \<noteq> []) (map snd xs)"
  by (induction xs) auto

lemma fits_length: "fits b \<Longrightarrow> length (entries b) < 2 ^ 32"
proof -
  assume f: "fits b"
  have "length xs \<le> sum_list (map (\<lambda>e. length (snd e) + 15) xs)" for xs :: "(u64 \<times> bytes) list"
    by (induction xs) auto
  from le_less_trans [OF this] f show ?thesis
    by (simp add: fits_def)
qed

lemma unique_length: "builder_inv b \<Longrightarrow> length (mb_unique b) \<le> length (entries b)"
proof -
  assume b: "builder_inv b"
  then have "length (mb_unique b) = card (fst ` set (entries b))"
    using strict_sorted_distinct [of "map fst (mb_unique b)"]
    by (metis builder_inv_def distinct_card length_map set_map)
  also have "\<dots> \<le> length (entries b)"
    by (metis card_length length_map set_map)
  finally show ?thesis .
qed

lemma sum_list_map_mset: "mset xs = mset ys \<Longrightarrow> sum_list (map f xs) = (sum_list (map f ys) :: nat)"
proof -
  assume "mset xs = mset ys"
  then have "mset (map f xs) = mset (map f ys)"
    by simp
  then show ?thesis
    by (metis sum_mset_sum_list)
qed

lemma fits_cong: "mset (entries b') = mset (entries b) \<Longrightarrow> fits b' = fits b"
  unfolding fits_def by (drule sum_list_map_mset [where f = "\<lambda>e. length (snd e) + 15"]) simp

lemma scan_collisions_hit:
  "(k8, off) \<in> set (takeWhile (\<lambda>c. fst c = k8) cs) \<Longrightarrow> ka (unat off) = Some key \<Longrightarrow>
   (\<And>c. c \<in> set cs \<Longrightarrow> ka (unat (snd c)) \<noteq> None) \<Longrightarrow> \<exists>off'. scan_collisions ka k8 key cs = Some (Some off')"
proof (induction ka k8 key cs rule: scan_collisions.induct)
  case (2 ka k8 key k o' cs)
  have k: "k = k8"
    using 2(2) by (auto split: if_splits)
  obtain k' where k': "ka (unat o') = Some k'"
    using 2(4) [of "(k, o')"] by auto
  show ?case
  proof (cases "k' = key")
    case False
    then have "(k8, off) \<in> set (takeWhile (\<lambda>c. fst c = k8) cs)"
      using 2(2,3) k k' by (auto split: if_splits)
    then show ?thesis
      using 2(1) [of k'] 2(3,4) k k' False by auto
  qed (use k k' in simp)
qed simp

lemma sorted_takeWhile_drop:
  assumes "sorted (map fst cs)" "(k8, off) \<in> set cs"
  shows "(k8, off) \<in> set (takeWhile (\<lambda>c. fst c = k8) (drop (lower_bound (\<lambda>i. fst (cs ! i) < k8) 0 (length cs)) cs))"
proof -
  define r where "r = lower_bound (\<lambda>i. fst (cs ! i) < k8) 0 (length cs)"
  have mono: "fst (cs ! i) \<le> fst (cs ! j)" if "i \<le> j" "j < length cs" for i j
    using sorted_nth_mono [OF assms(1)] that by (metis le_less_trans length_map nth_map)
  have p: "(\<forall>i. 0 \<le> i \<longrightarrow> i < r \<longrightarrow> fst (cs ! i) < k8) \<and> (\<forall>i. r \<le> i \<longrightarrow> i < 0 + length cs \<longrightarrow> \<not> fst (cs ! i) < k8)"
    unfolding r_def by (rule lower_bound_partition) (metis add_0 le_less_trans mono)
  obtain n where n: "n < length cs" "cs ! n = (k8, off)"
    using assms(2) by (auto simp: in_set_conv_nth)
  have r: "r \<le> n"
    using p n by (metis fst_conv le0 less_irrefl not_le)
  have d: "drop r cs ! (n - r) = (k8, off)" "n - r < length (drop r cs)"
    using r n by auto
  have run: "fst (drop r cs ! i) = k8" if "i \<le> n - r" for i
  proof -
    have i: "r + i \<le> n" "r + i < length cs"
      using that r n by auto
    then have "fst (cs ! (r + i)) \<le> k8" "\<not> fst (cs ! (r + i)) < k8"
      using mono [of "r + i" n] n p by auto
    then show ?thesis
      using i by simp
  qed
  let ?t = "takeWhile (\<lambda>c. fst c = k8) (drop r cs)"
  have "n - r < length ?t"
  proof (rule ccontr)
    assume "\<not> n - r < length ?t"
    then have "length ?t \<le> n - r" "length ?t < length (drop r cs)"
      using d(2) by auto
    then show False
      using run nth_length_takeWhile by blast
  qed
  then have "?t ! (n - r) \<in> set ?t" "?t ! (n - r) = drop r cs ! (n - r)"
    by (rule nth_mem, rule takeWhile_nth)
  then show ?thesis
    unfolding r_def [symmetric] using d(1) by simp
qed

text \<open>The lookup index of a key is its position.\<close>

lemma index_lookup_solved:
  assumes "solved keys a" "k < length keys" "length keys < 2 ^ 32" "mp_n_keys m = of_nat (length keys)"
    "mp_n_buckets m = of_nat (length (at_displacement a))" "mp_seed_factor m = at_seed_factor a"
    "mp_displacement m = at_displacement a"
  shows "\<exists>idx. index_lookup m (keys ! k) = Some idx \<and> unat idx = at_idx a ! k"
proof -
  let ?nb = "length (at_displacement a)"
  have nb: "0 < ?nb" "?nb < 2 ^ 32"
    using assms(1) by (auto simp: solved_def)
  define z where "z = keys ! k + at_seed_factor a"
  have i: "at_idx a ! k = position (length keys) (at_displacement a ! bucket_of ?nb z) z"
    using assms(1,2) by (simp add: solved_def Let_def z_def)
  have b: "bucket_of ?nb z < ?nb"
    by (rule bucket_of_less [OF nb])
  show ?thesis
    using b i unfolding index_lookup_def Let_def assms(4-7) z_def [symmetric]
    by (simp add: bucket_of_def position_def at_in_range)
qed

lemma distinct_filter_zip:
  assumes "length is = length bs" "\<And>k j. k < length bs \<Longrightarrow> bs ! k \<noteq> [] \<Longrightarrow> j < length bs \<Longrightarrow> is ! j = is ! k \<Longrightarrow> j = k"
  shows "distinct (map fst (filter (\<lambda>x. snd x \<noteq> []) (zip is bs)))"
  using assms
proof (induction "is" bs rule: list_induct2)
  case (Cons i "is" b bs)
  have "distinct (map fst (filter (\<lambda>x. snd x \<noteq> []) (zip is bs)))"
  proof (rule Cons.IH)
    show "j = k" if "k < length bs" "bs ! k \<noteq> []" "j < length bs" "is ! j = is ! k" for k j
      using Cons.prems [of "Suc k" "Suc j"] that by simp
  qed
  moreover have "i \<notin> fst ` set (zip is bs)" if "b \<noteq> []"
  proof
    assume "i \<in> fst ` set (zip is bs)"
    then obtain j where "j < length bs" "is ! j = i"
      using Cons.hyps by (auto simp: set_zip)
    then show False
      using Cons.prems [of 0 "Suc j"] that by simp
  qed
  ultimately show ?case
    by auto
qed simp

text \<open>The tables and the data section written for a builder whose spilled keys are in the sidecar.\<close>

definition slots_of :: "chd_attempt \<Rightarrow> mphf_builder \<Rightarrow> u32 list" where
  "slots_of a c = write_slots 8 (zip (at_idx a) (map snd (mb_unique c))) (replicate (length (mb_unique c)) 0)"

definition collisions_of :: "mphf_builder \<Rightarrow> (u64 \<times> u64) list" where
  "collisions_of c = zip (map fst (mb_collisions c))
     (map of_nat (entry_offsets (8 + sum_list (map entry_size (filter (\<lambda>v. v \<noteq> []) (map snd (mb_unique c)))))
       (map snd (mb_collisions c))))"

definition data_of :: "mphf_builder \<Rightarrow> bytes" where
  "data_of c = replicate 8 0 @ concat (map entry_bytes
     (filter (\<lambda>v. v \<noteq> []) (map snd (mb_unique c)) @ map snd (mb_collisions c)))"

lemma bodies_stored:
  assumes "fits c"
    "(off, body) \<in> set (zip (entry_offsets 8 (map snd (entries c))) (map snd (entries c)))"
  shows "stored (data_of c) off body"
proof (rule entries_stored [of "data_of c" "replicate 8 0" "map snd (entries c)" "[]"])
  show "data_of c = replicate 8 0 @ concat (map entry_bytes (map snd (entries c))) @ []"
    by (simp add: data_of_def entries_def map_snd_filter)
  show "length (replicate 8 (0 :: byte)) + sum_list (map (\<lambda>b. length b + 15) (map snd (entries c))) < 2 ^ 32"
    using assms(1) by (simp add: fits_def o_def)
qed (use assms(2) in simp_all)

lemma collisions_stored:
  assumes "fits c"
  shows "(k8, body) \<in> set (mb_collisions c) \<Longrightarrow> \<exists>off. stored (data_of c) off body \<and> (k8, of_nat off) \<in> set (collisions_of c)"
    "x \<in> set (collisions_of c) \<Longrightarrow> \<exists>e \<in> set (mb_collisions c). \<exists>off. stored (data_of c) off (snd e) \<and> snd x = of_nat off"
proof -
  define cur where "cur = 8 + sum_list (map entry_size (filter (\<lambda>v. v \<noteq> []) (map snd (mb_unique c))))"
  define offs where "offs = entry_offsets cur (map snd (mb_collisions c))"
  have lo: "length offs = length (mb_collisions c)"
    by (simp add: offs_def)
  have co: "collisions_of c = zip (map fst (mb_collisions c)) (map of_nat offs)"
    by (simp add: collisions_of_def cur_def offs_def)
  have st: "stored (data_of c) (offs ! i) (snd (mb_collisions c ! i))" if "i < length (mb_collisions c)" for i
  proof (rule bodies_stored [OF assms])
    have "(offs ! i, snd (mb_collisions c ! i)) \<in> set (zip offs (map snd (mb_collisions c)))"
      using that by (auto simp: set_zip lo)
    then show "(offs ! i, snd (mb_collisions c ! i)) \<in> set (zip (entry_offsets 8 (map snd (entries c))) (map snd (entries c)))"
      by (simp add: entries_def map_snd_filter entry_offsets_append cur_def [symmetric] offs_def [symmetric])
  qed
  show "\<exists>off. stored (data_of c) off body \<and> (k8, of_nat off) \<in> set (collisions_of c)" if "(k8, body) \<in> set (mb_collisions c)"
  proof -
    obtain i where i: "i < length (mb_collisions c)" "mb_collisions c ! i = (k8, body)"
      using \<open>(k8, body) \<in> set (mb_collisions c)\<close> by (auto simp: in_set_conv_nth)
    then have "(k8, of_nat (offs ! i)) \<in> set (collisions_of c)"
      unfolding co by (auto simp: set_zip lo intro!: exI [of _ i])
    then show ?thesis
      using st [OF i(1)] i(2) by auto
  qed
  show "\<exists>e \<in> set (mb_collisions c). \<exists>off. stored (data_of c) off (snd e) \<and> snd x = of_nat off" if "x \<in> set (collisions_of c)"
  proof -
    obtain i where "i < length (mb_collisions c)" "snd x = of_nat (offs ! i)"
      using \<open>x \<in> set (collisions_of c)\<close> unfolding co by (auto simp: set_zip lo)
    then show ?thesis
      using st [of i] nth_mem by blast
  qed
qed

lemma slots_stored:
  assumes "builder_inv c" "fits c" "solved (map fst (mb_unique c)) a"
    "\<forall>i \<in> set (at_spilled a). snd (mb_unique c ! i) = []" "k < length (mb_unique c)"
  shows "snd (mb_unique c ! k) \<noteq> [] \<Longrightarrow>
      \<exists>off. stored (data_of c) off (snd (mb_unique c ! k)) \<and> slots_of a c ! (at_idx a ! k) = of_nat off"
    "snd (mb_unique c ! k) = [] \<Longrightarrow> slots_of a c ! (at_idx a ! k) = 0"
proof -
  define vs where "vs = map snd (mb_unique c)"
  define xs where "xs = zip (at_idx a) vs"
  have len: "length (at_idx a) = length vs" "length vs = length (mb_unique c)"
    using assms(3) by (simp_all add: solved_def vs_def)
  have range: "at_idx a ! j < length vs" if "j < length vs" for j
    using assms(3) that unfolding solved_def Let_def vs_def length_map by blast
  have inj: "j = i" if "i < length vs" "vs ! i \<noteq> []" "j < length vs" "at_idx a ! j = at_idx a ! i" for i j
  proof -
    have "i \<notin> set (at_spilled a)"
      using assms(4) that(1,2) by (auto simp: vs_def)
    then show ?thesis
      using assms(3) that by (auto simp: solved_def vs_def)
  qed
  have dist: "distinct (map fst (filter (\<lambda>x. snd x \<noteq> []) xs))"
    unfolding xs_def using len inj by (intro distinct_filter_zip) auto
  have xk: "(at_idx a ! k, vs ! k) \<in> set xs"
    using assms(5) len by (auto simp: xs_def set_zip)
  have so: "slots_of a c = write_slots 8 xs (replicate (length vs) 0)"
    by (simp add: slots_of_def xs_def vs_def)
  have ms: "map snd xs = vs"
    using len by (simp add: xs_def)
  show "\<exists>off. stored (data_of c) off (snd (mb_unique c ! k)) \<and> slots_of a c ! (at_idx a ! k) = of_nat off"
    if ne: "snd (mb_unique c ! k) \<noteq> []"
  proof -
    have v: "vs ! k \<noteq> []" "vs ! k = snd (mb_unique c ! k)"
      using ne assms(5) by (simp_all add: vs_def)
    obtain off where o: "slots_of a c ! (at_idx a ! k) = of_nat off"
      "(off, vs ! k) \<in> set (zip (entry_offsets 8 (filter (\<lambda>b. b \<noteq> []) vs)) (filter (\<lambda>b. b \<noteq> []) vs))"
      using write_slots_in [OF xk v(1) _ dist, of "replicate (length vs) 0" 8] range [of k] assms(5) len
      unfolding ms so by auto
    have "(off, vs ! k) \<in> set (zip (entry_offsets 8 (map snd (entries c))) (map snd (entries c)))"
      using o(2) by (simp add: entries_def map_snd_filter vs_def entry_offsets_append)
    then show ?thesis
      using bodies_stored [OF assms(2)] o(1) v(2) by auto
  qed
  show "slots_of a c ! (at_idx a ! k) = 0" if e: "snd (mb_unique c ! k) = []"
  proof -
    have "v = []" if mem: "(at_idx a ! k, v) \<in> set xs" for v
    proof (rule ccontr)
      assume "v \<noteq> []"
      moreover obtain j where "j < length vs" "at_idx a ! j = at_idx a ! k" "vs ! j = v"
        using mem len by (auto simp: xs_def set_zip)
      ultimately have "k = j"
        using inj [of j k] assms(5) len by simp
      then show False
        using \<open>v \<noteq> []\<close> \<open>vs ! j = v\<close> e assms(5) by (simp add: vs_def)
    qed
    then show ?thesis
      using range [of k] assms(5) len by (simp add: so write_slots_other)
  qed
qed

lemma slots_written:
  assumes "i < length (slots_of a c)" "slots_of a c ! i \<noteq> 0" "length (at_idx a) = length (mb_unique c)"
  shows "\<exists>k < length (mb_unique c). at_idx a ! k = i \<and> snd (mb_unique c ! k) \<noteq> []"
proof (rule ccontr)
  assume no: "\<not> ?thesis"
  have "v = []" if "(i, v) \<in> set (zip (at_idx a) (map snd (mb_unique c)))" for v
    using no that assms(3) by (auto simp: set_zip)
  then have "slots_of a c ! i = 0"
    using assms(1) by (simp add: slots_of_def write_slots_other)
  then show False
    using assms(2) by simp
qed


lemma stored_unat: "stored data off body \<Longrightarrow> unat (of_nat off :: u32) = off \<and> unat (of_nat off :: u64) = off
    \<and> (of_nat off :: u32) \<noteq> 0"
  by (auto simp: stored_def unat_of_nat word_unat_eq_iff)

text \<open>What a finished builder's tables and data hold: every offset is that of an entry, and every entry is found.\<close>

lemma build_tables_entries:
  assumes "builder_inv b" "fits b"
  obtains a m data where "build_tables b = Some (a, m, data)" "tables_ok m"
    "sorted (map fst (mp_collisions m))" "mp_n_keys m = of_nat (length (mb_unique b))"
    "\<And>off. off \<in> set (for_each_offset m) \<Longrightarrow> \<exists>e \<in> set (entries b). stored data off (snd e)"
    "\<And>k8 body. (k8, body) \<in> set (entries b) \<Longrightarrow> \<exists>off idx. stored data off body \<and> index_lookup m k8 = Some idx \<and>
        (mp_slot_offsets m ! unat idx = of_nat off \<or>
         mp_slot_offsets m ! unat idx = 0 \<and> (k8, of_nat off) \<in> set (mp_collisions m))"
proof -
  define keys where "keys = map fst (mb_unique b)"
  have len: "length keys < 2 ^ 32"
    using unique_length [OF assms(1)] fits_length [OF assms(2)] by (simp add: keys_def)
  obtain a where a: "chd_solve keys (mb_max_retries b) (mb_max_displacement b) = Some a" "solved keys a"
    using chd_solve_solved [OF len] by blast
  define c where "c = spill b (at_spilled a)"
  have sub: "set (at_spilled a) \<subseteq> {..<length (mb_unique b)}"
    using a(2) by (simp add: solved_def keys_def)
  have c: "builder_inv c" "mset (entries c) = mset (entries b)" "map fst (mb_unique c) = keys"
    "\<forall>i \<in> set (at_spilled a). snd (mb_unique c ! i) = []"
    using spill_inv [OF assms(1) sub] by (auto simp: c_def keys_def)
  have lc: "length (mb_unique c) = length keys"
    using c(3) by (metis length_map)
  have se: "set (entries c) = set (entries b)" and fc: "fits c"
    using c(2) fits_cong [OF c(2)] assms(2) by (metis set_mset_mset)+
  have ai: "length (at_idx a) = length (mb_unique c)"
    using a(2) lc by (simp add: solved_def)
  define m where "m = \<lparr>mp_n_keys = of_nat (length (mb_unique c)), mp_n_buckets = of_nat (length (at_displacement a)),
    mp_seed_factor = at_seed_factor a, mp_displacement = at_displacement a, mp_slot_offsets = slots_of a c,
    mp_collisions = sort_key fst (collisions_of c)\<rparr>"
  have bt: "build_tables b = Some (a, m, data_of c)"
    using a(1) by (simp add: build_tables_def keys_def [symmetric] c_def [symmetric] Let_def m_def slots_of_def
        collisions_of_def data_of_def)
  have sl: "length (slots_of a c) = length (mb_unique c)"
    by (simp add: slots_of_def)
  note slots = slots_stored [OF c(1) fc a(2) [folded c(3)] c(4)]
  show ?thesis
  proof (rule that [OF bt])
    show "tables_ok m"
      using a(2) len sl lc by (auto simp: tables_ok_def m_def solved_def unat_of_nat word_unat_eq_iff)
    show "sorted (map fst (mp_collisions m))"
      by (simp add: m_def)
    show "mp_n_keys m = of_nat (length (mb_unique b))"
      by (simp add: m_def lc keys_def)
  next
    fix off assume "off \<in> set (for_each_offset m)"
    then consider o' where "o' \<in> set (slots_of a c)" "o' \<noteq> 0" "off = unat o'"
      | x where "x \<in> set (collisions_of c)" "off = unat (snd x)"
      by (auto simp: for_each_offset_def m_def split: if_splits)
    then show "\<exists>e \<in> set (entries b). stored (data_of c) off (snd e)"
    proof cases
      case (1 o')
      then obtain i where "i < length (slots_of a c)" "slots_of a c ! i = o'"
        by (auto simp: in_set_conv_nth)
      then obtain k where k: "k < length (mb_unique c)" "at_idx a ! k = i" "snd (mb_unique c ! k) \<noteq> []"
        using slots_written [of i a c] 1(2) ai by auto
      then obtain o'' where "stored (data_of c) o'' (snd (mb_unique c ! k))" "o' = of_nat o''"
        using slots(1) [OF k(1,3)] \<open>slots_of a c ! i = o'\<close> by auto
      moreover have "mb_unique c ! k \<in> set (entries b)"
        using k nth_mem [OF k(1)] unfolding se [symmetric] by (auto simp: entries_def)
      ultimately show ?thesis
        using 1(3) stored_unat by metis
    next
      case (2 x)
      then show ?thesis
        using collisions_stored(2) [OF fc 2(1)] se stored_unat unfolding entries_def by (metis Un_iff set_append)
    qed
  next
    fix k8 body assume e: "(k8, body) \<in> set (entries b)"
    have ec: "(k8, body) \<in> set (entries c)"
      using e se by simp
    have "fst ` set (mb_unique c) = fst ` set (entries b)"
      using c(1) by (simp add: builder_inv_def se)
    moreover have "k8 \<in> fst ` set (entries b)"
      using image_eqI [OF _ e, of k8 fst] by simp
    ultimately have "k8 \<in> set (map fst (mb_unique c))"
      by simp
    then obtain k where k: "k < length (mb_unique c)" "fst (mb_unique c ! k) = k8"
      by (auto simp: in_set_conv_nth)
    then have kk: "keys ! k = k8"
      using c(3) by (metis nth_map)
    obtain idx where idx: "index_lookup m k8 = Some idx" "unat idx = at_idx a ! k"
      using index_lookup_solved [OF a(2), of k m] k(1) len lc kk by (auto simp: m_def)
    show "\<exists>off idx. stored (data_of c) off body \<and> index_lookup m k8 = Some idx \<and>
        (mp_slot_offsets m ! unat idx = of_nat off \<or>
         mp_slot_offsets m ! unat idx = 0 \<and> (k8, of_nat off) \<in> set (mp_collisions m))"
    proof (cases "snd (mb_unique c ! k) = []")
      case True
      have "(k8, body) \<notin> set (filter (\<lambda>e. snd e \<noteq> []) (mb_unique c))"
      proof
        assume "(k8, body) \<in> set (filter (\<lambda>e. snd e \<noteq> []) (mb_unique c))"
        moreover have "mb_unique c ! k = (k8, [])"
          using True k(2) by (metis prod.collapse)
        ultimately have "(k8, body) \<in> set (mb_unique c)" "body \<noteq> []" "(k8, []) \<in> set (mb_unique c)"
          using nth_mem [OF k(1)] by auto
        moreover have "distinct (map fst (mb_unique c))"
          using c(1) strict_sorted_distinct by (auto simp: builder_inv_def)
        ultimately show False
          by (metis eq_key_imp_eq_value)
      qed
      then have "(k8, body) \<in> set (mb_collisions c)"
        using ec unfolding entries_def by auto
      then obtain off where "stored (data_of c) off body" "(k8, of_nat off) \<in> set (collisions_of c)"
        using collisions_stored(1) [OF fc] by blast
      then show ?thesis
        using slots(2) [OF k(1) True] idx by (auto simp: m_def)
    next
      case False
      then have "k8 \<notin> fst ` set (mb_collisions c)"
        using c(1) k nth_mem [OF k(1)] unfolding builder_inv_def by blast
      then have "(k8, body) \<in> set (mb_unique c)"
        using ec unfolding entries_def by force
      moreover have "distinct (map fst (mb_unique c))"
        using c(1) strict_sorted_distinct by (auto simp: builder_inv_def)
      ultimately have "snd (mb_unique c ! k) = body"
        using k nth_mem [OF k(1)] by (metis eq_key_imp_eq_value prod.collapse)
      then show ?thesis
        using slots(1) [OF k(1) False] idx by (auto simp: m_def)
    qed
  qed
qed

end
