(* ===== verification/Mphf_Blob.thy ===== *)
theory Mphf_Blob
  imports Mphf_Builder
begin

text \<open>
  The finished blob of a minimal perfect hash map read back: the sections lie where the header says, the layout
  check passes, and the map opened on the blob finds exactly the bodies that were added.
\<close>

section \<open>Adding entries\<close>

text \<open>A builder to which pairs of a full key and a body have been added under their index keys.\<close>

definition mphf_build :: "u32 \<Rightarrow> nat \<Rightarrow> nat \<Rightarrow> (bytes \<Rightarrow> u64) \<Rightarrow> (bytes \<times> bytes) list \<Rightarrow> mphf_builder" where
  "mphf_build magic mr md shorten adds =
     foldl (\<lambda>b (key, body). mphf_add b (shorten key) body)
       ((mphf_builder_new magic kMphfMapVersion)\<lparr>mb_max_retries := mr, mb_max_displacement := md\<rparr>) adds"

definition keyed_entries :: "nat \<Rightarrow> (bytes \<times> bytes) list \<Rightarrow> bool" where
  "keyed_entries ks adds \<longleftrightarrow> distinct (map fst adds) \<and>
     (\<forall>e \<in> set adds. length (fst e) = ks \<and> take ks (snd e) = fst e \<and> snd e \<noteq> []) \<and>
     128 + sum_list (map (\<lambda>e. length (snd e) + 64) adds) < 2 ^ 32"

lemma foldl_add_inv:
  assumes "builder_inv b" "\<forall>(key, body) \<in> set adds. body \<noteq> []"
  shows "builder_inv (foldl (\<lambda>b (key, body). mphf_add b (shorten key) body) b adds) \<and>
    mset (entries (foldl (\<lambda>b (key, body). mphf_add b (shorten key) body) b adds)) =
      mset (entries b) + mset (map (\<lambda>(key, body). (shorten key, body)) adds)"
  using assms
proof (induction adds arbitrary: b)
  case (Cons kv adds)
  obtain key body where kv: "kv = (key, body)"
    by fastforce
  have "builder_inv (mphf_add b (shorten key) body)"
    "mset (entries (mphf_add b (shorten key) body)) = add_mset (shorten key, body) (mset (entries b))"
    using mphf_add_inv [of b body "shorten key"] Cons.prems kv by auto
  then show ?case
    using Cons.IH [of "mphf_add b (shorten key) body"] Cons.prems(2) kv by auto
qed simp

lemma mphf_build_inv:
  fixes shorten :: "bytes \<Rightarrow> u64"
  assumes "keyed_entries ks adds" "b = mphf_build magic mr md shorten adds"
  shows "builder_inv b" "mset (entries b) = mset (map (\<lambda>(key, body). (shorten key, body)) adds)" "fits b"
proof -
  define b0 where "b0 = (mphf_builder_new magic kMphfMapVersion)\<lparr>mb_max_retries := mr, mb_max_displacement := md\<rparr>"
  have b0: "builder_inv b0" "entries b0 = []"
    by (simp_all add: b0_def mphf_builder_new_def builder_inv_def entries_def)
  have ne: "\<forall>(key, body) \<in> set adds. body \<noteq> []"
    using assms(1) by (auto simp: keyed_entries_def)
  show "builder_inv b" and m: "mset (entries b) = mset (map (\<lambda>(key, body). (shorten key, body)) adds)"
    using foldl_add_inv [OF b0(1) ne, of shorten] b0(2) by (simp_all add: assms(2) mphf_build_def b0_def)
  have "sum_list (map (\<lambda>e. length (snd e) + 15) (entries b)) =
      sum_list (map (\<lambda>e. length (snd e) + 15) (map (\<lambda>(key, body). (shorten key, body)) adds))"
    by (rule sum_list_map_mset [OF m])
  moreover have "sum_list (map (\<lambda>e. length (snd e) + 15) adds) \<le> sum_list (map (\<lambda>e. length (snd e) + 64) adds)"
    by (rule sum_list_mono) simp
  ultimately show "fits b"
    using assms(1) by (simp add: fits_def keyed_entries_def o_def case_prod_beta)
qed

lemma stored_key:
  assumes "stored data off body" "ks \<le> length body"
  shows "key_at ks data off = Some (take ks body)"
proof -
  obtain len :: u64 where "read_word data off = Some len" "read_bytes data (off + 8) (unat len) = Some body"
    using assms(1) by (auto simp: stored_def body_at_def bind_eq_Some_conv)
  then show ?thesis
    using assms(2) by (auto simp: key_at_def read_bytes_def split: if_splits)
qed

lemma mphf_find_entries:
  assumes "keyed_entries ks adds" "build_tables (mphf_build magic mr md shorten adds) = Some (a, m, data)"
    "length key = ks"
  shows "find_body m data (shorten key) key = Some (map_of adds key)"
proof -
  define b where "b = mphf_build magic mr md shorten adds"
  note inv = mphf_build_inv [OF assms(1) b_def]
  obtain a' m' data' where t: "build_tables b = Some (a', m', data')" "tables_ok m'"
    "sorted (map fst (mp_collisions m'))" "mp_n_keys m' = of_nat (length (mb_unique b))"
    "\<And>off. off \<in> set (for_each_offset m') \<Longrightarrow> \<exists>e \<in> set (entries b). stored data' off (snd e)"
    "\<And>k8 body. (k8, body) \<in> set (entries b) \<Longrightarrow> \<exists>off idx. stored data' off body \<and> index_lookup m' k8 = Some idx \<and>
        (mp_slot_offsets m' ! unat idx = of_nat off \<or>
         mp_slot_offsets m' ! unat idx = 0 \<and> (k8, of_nat off) \<in> set (mp_collisions m'))"
    by (rule build_tables_entries [OF inv(1,3)]) (rule that)
  have eq: "m' = m" "data' = data"
    using t(1) assms(2) by (simp_all add: b_def)
  note t = t [unfolded eq]
  have se: "set (entries b) = (\<lambda>(key, body). (shorten key, body)) ` set adds"
    using inv(2) by (metis set_map set_mset_mset)
  let ?ka = "key_at ks data"
  have ent: "\<exists>k body. (k, body) \<in> set adds \<and> stored data off body \<and> ?ka off = Some k" if mem: "off \<in> set (for_each_offset m)" for off
  proof -
    obtain k body where "(k, body) \<in> set adds" "stored data off body"
      using t(5) [OF mem] se by auto
    then show ?thesis
      using stored_key [of data off body ks] assms(1) by (fastforce simp: keyed_entries_def)
  qed
  have found: "map_of adds key = body_at data off \<and> body_at data off \<noteq> None"
    if "mphf_find m ?ka (shorten key) key = Some (Some off)" for off
  proof -
    note sd = mphf_find_sound [OF that]
    obtain k body where kb: "(k, body) \<in> set adds" "stored data off body" "?ka off = Some k"
      using ent [OF sd(2)] by blast
    then have "map_of adds key = Some body"
      using sd(1) assms(1) by (auto simp: keyed_entries_def intro: map_of_is_SomeI)
    then show ?thesis
      using kb(2) by (simp add: stored_def)
  qed
  have "mphf_find m ?ka (shorten key) key \<noteq> None"
    using mphf_find_defined [OF t(2)] ent by (metis option.distinct(1))
  then obtain r where r: "mphf_find m ?ka (shorten key) key = Some r"
    by blast
  have "r \<noteq> None" if body: "map_of adds key = Some body" for body
  proof -
    have kb: "(key, body) \<in> set adds"
      using body by (rule map_of_SomeD)
    then have "(shorten key, body) \<in> set (entries b)"
      using se by force
    then obtain off idx where o: "stored data off body" "index_lookup m (shorten key) = Some idx"
      "mp_slot_offsets m ! unat idx = of_nat off \<or>
       mp_slot_offsets m ! unat idx = 0 \<and> (shorten key, of_nat off) \<in> set (mp_collisions m)"
      using t(6) by blast
    have ka: "?ka off = Some key"
      using stored_key [OF o(1), of ks] kb assms(1) by (fastforce simp: keyed_entries_def)
    have nk: "mp_n_keys m \<noteq> 0"
      using inv(1) kb se unique_length [OF inv(1)] fits_length [OF inv(3)] t(4)
      by (auto simp: builder_inv_def word_unat_eq_iff unat_of_nat)
    have idx: "unat idx < length (mp_slot_offsets m)"
      using index_lookup_ok [OF t(2) nk, of "shorten key"] o(2) by auto
    show ?thesis
      using o(3)
    proof
      assume "mp_slot_offsets m ! unat idx = of_nat off"
      then show ?thesis
        using r o(2) nk idx ka stored_unat [OF o(1)] by (auto simp: mphf_find_def at_in_range)
    next
      assume c: "mp_slot_offsets m ! unat idx = 0 \<and> (shorten key, of_nat off) \<in> set (mp_collisions m)"
      define cs where "cs = drop (lower_bound (\<lambda>i. fst (mp_collisions m ! i) < shorten key) 0 (length (mp_collisions m)))
        (mp_collisions m)"
      have "?ka (unat (snd x)) \<noteq> None" if "x \<in> set cs" for x
        using ent [of "unat (snd x)"] that nk in_set_dropD by (fastforce simp: for_each_offset_def cs_def)
      then have "\<exists>off'. scan_collisions ?ka (shorten key) key cs = Some (Some off')"
        using sorted_takeWhile_drop [OF t(3), of "shorten key" "of_nat off"] c ka stored_unat [OF o(1)]
        by (intro scan_collisions_hit [of _ "of_nat off"]) (auto simp: cs_def)
      moreover have "mp_collisions m \<noteq> []"
        using c by auto
      moreover from this have "resolve_collision m ?ka (shorten key) key = scan_collisions ?ka (shorten key) key cs"
        by (simp add: resolve_collision_def cs_def)
      ultimately show ?thesis
        using r c o(2) nk idx by (auto simp: mphf_find_def at_in_range)
    qed
  qed
  then show ?thesis
    using r found assms(3) by (cases r; cases "map_of adds key") (auto simp: find_body_def)
qed


section \<open>The blob\<close>

lemma read_word_drop: "0 < LENGTH('a) div 8 \<Longrightarrow> read_word b off = (read_word (drop off b) 0 :: 'a::len word option)"
  by (auto simp: read_word_def read_bytes_def)

lemma read_word_front:
  fixes w :: "'a::len word"
  shows "8 dvd LENGTH('a) \<Longrightarrow> read_word (rev (store_big w) @ post) 0 = Some w"
  using read_word_at [of 0 "[]" w post] by simp

lemma read_words_at:
  fixes ws :: "'a::len word list"
  assumes "8 dvd LENGTH('a)"
  shows "read_words (pre @ le_words ws @ post) (length pre) (length ws) = Some ws"
proof (induction ws arbitrary: pre)
  case (Cons w ws)
  have "read_word (pre @ le_words (w # ws) @ post) (length pre) = Some w"
    using read_word_at [OF assms refl, of pre w "le_words ws @ post"] by (simp add: le_words_def)
  moreover have "read_words (pre @ le_words (w # ws) @ post) (length pre + LENGTH('a) div 8) (length ws) = Some ws"
    using Cons.IH [of "pre @ rev (store_big w)"] by (simp add: le_words_def)
  ultimately show ?case
    by simp
qed simp

lemma length_le_words: "length (le_words (ws :: 'a::len word list)) = length ws * (LENGTH('a) div 8)"
  by (induction ws) (simp_all add: le_words_def)

lemma pairs_concat: "pairs (concat (map (\<lambda>(a, b). [a, b]) xs)) = xs"
  by (induction xs) auto

lemma length_concat_pairs: "length (concat (map (\<lambda>(a, b). [a, b]) xs)) = 2 * length xs"
  by (induction xs) auto

lemma length_pad8: "length bs + 7 < 2 ^ 32 \<Longrightarrow> length (pad8 bs) = (length bs + 7) div 8 * 8"
proof -
  assume l: "length bs + 7 < 2 ^ 32"
  then have "unat (mphf_align8 (of_nat (length bs))) = (length bs + 7) div 8 * 8"
    by (subst mphf_align8_nat) (simp_all add: unat_of_nat)
  moreover have "length bs \<le> (length bs + 7) div 8 * 8"
    by linarith
  ultimately show ?thesis
    by (simp add: pad8_def)
qed

lemma align8_of_nat: "n + 7 < 2 ^ 32 \<Longrightarrow> mphf_align8 (of_nat n) = of_nat ((n + 7) div 8 * 8)"
proof -
  assume n: "n + 7 < 2 ^ 32"
  then have "(n + 7) div 8 * 8 < 2 ^ 32"
    by (meson div_times_less_eq_dividend le_less_trans)
  moreover have "unat (of_nat n :: u32) = n"
    using n by (simp add: unat_of_nat)
  ultimately show ?thesis
    using n mphf_align8_nat [of "of_nat n"] by (simp add: word_unat_eq_iff unat_of_nat del: of_nat_mult)
qed

lemma read_header_blob:
  "read_header (le_words [a, b, c, d] @ le_words [e, f] @ le_words [g, h, i, j, k, l] @ rest) =
     Some \<lparr>h_magic = a, h_version = b, h_n_keys = c, h_n_buckets = d, h_seed = e, h_seed_factor = f,
           h_collisions_offset = g, h_collisions_size = h, h_displacement_offset = i, h_slot_offsets_offset = j,
           h_data_offset = k, h_data_size = l\<rparr>"
  unfolding read_header_def le_words_def
  by (subst (1 2 3 4 5 6 7 8 9 10 11 12) read_word_drop) (simp_all add: read_word_front)

lemma attempt_buckets:
  assumes "keys \<noteq> []" "length keys < 2 ^ 32"
  shows "length (at_displacement (attempt keys nb max_d seed_try)) = nb"
proof -
  have len: "length (pl_displacement (foldl (place_bucket n s z d) p bs)) = length (pl_displacement p)" for n s z d p bs
    by (induction bs arbitrary: p) (auto simp: place_bucket_def split: option.splits)
  show ?thesis
    unfolding attempt_def Let_def by (simp add: len split: prod.splits)
qed

lemma retry_buckets:
  assumes "keys \<noteq> []" "length keys < 2 ^ 32" "\<And>a. best = Some a \<Longrightarrow> length (at_displacement a) = nb"
    "retry keys nb max_d best seed_try left = Some a"
  shows "length (at_displacement a) = nb"
  using assms(3,4)
proof (induction left arbitrary: best seed_try)
  case (Suc left)
  note at = attempt_buckets [OF assms(1,2), of nb max_d]
  show ?case
  proof (cases "at_spilled (attempt keys nb max_d (of_nat seed_try)) = []")
    case True
    then show ?thesis
      using Suc.prems(2) at by (auto simp: Let_def)
  next
    case False
    show ?thesis
    proof (rule Suc.IH)
      show "retry keys nb max_d (case best of None \<Rightarrow> Some (attempt keys nb max_d (of_nat seed_try))
        | Some b \<Rightarrow> if length (at_spilled (attempt keys nb max_d (of_nat seed_try))) < length (at_spilled b)
            then Some (attempt keys nb max_d (of_nat seed_try)) else best) (Suc seed_try) left = Some a"
        using Suc.prems(2) False by (simp add: Let_def)
    qed (use Suc.prems(1) at in \<open>auto split: option.splits if_splits\<close>)
  qed
qed auto

lemma chd_solve_buckets:
  assumes "chd_solve keys mr md = Some a" "length keys < 2 ^ 32"
  shows "length (at_displacement a) \<le> max 1 (length keys)"
proof (cases "keys = []")
  case False
  have "retry keys (n_buckets_for (length keys)) (if md \<noteq> 0 then md else kMaxDisplacement) None 0
      (if mr \<noteq> 0 then mr else kMaxSeedRetries) = Some a"
    using assms(1) False by (simp add: chd_solve_def)
  then have "length (at_displacement a) = n_buckets_for (length keys)"
    by (rule retry_buckets [OF False assms(2), rotated]) simp
  then show ?thesis
    by (simp add: n_buckets_for_def kLambda_def)
qed (use assms in \<open>auto simp: chd_solve_def\<close>)


text \<open>The sizes of the tables of a finished builder.\<close>

lemma build_tables_sizes:
  assumes "keyed_entries ks adds" "build_tables (mphf_build magic mr md shorten adds) = Some (a, m, data)"
  shows "length (mp_slot_offsets m) \<le> length adds" "length (mp_displacement m) \<le> max 1 (length adds)"
    "length (mp_collisions m) \<le> length adds" "length data \<le> 8 + sum_list (map (\<lambda>e. length (snd e) + 15) adds)"
    "mp_n_keys m = of_nat (length (mp_slot_offsets m))" "mp_n_buckets m = of_nat (length (mp_displacement m))"
    "mp_seed_factor m = at_seed_factor a" "8 dvd length data"
proof -
  define b where "b = mphf_build magic mr md shorten adds"
  note inv = mphf_build_inv [OF assms(1) b_def]
  define keys where "keys = map fst (mb_unique b)"
  have le: "length (entries b) = length adds"
    using inv(2) by (metis length_map size_mset)
  have len: "length keys \<le> length adds" "length keys < 2 ^ 32"
    using unique_length [OF inv(1)] fits_length [OF inv(3)] by (auto simp: keys_def le)
  have a: "chd_solve keys (mb_max_retries b) (mb_max_displacement b) = Some a"
    using assms(2) by (auto simp: build_tables_def b_def [symmetric] keys_def [symmetric] Let_def split: option.splits)
  define c where "c = spill b (at_spilled a)"
  have m: "m = \<lparr>mp_n_keys = of_nat (length (mb_unique c)), mp_n_buckets = of_nat (length (at_displacement a)),
      mp_seed_factor = at_seed_factor a, mp_displacement = at_displacement a, mp_slot_offsets = slots_of a c,
      mp_collisions = sort_key fst (collisions_of c)\<rparr>" and data: "data = data_of c"
    using assms(2) a by (simp_all add: build_tables_def b_def [symmetric] keys_def [symmetric] c_def [symmetric] Let_def
        slots_of_def collisions_of_def data_of_def)
  have "solved keys a"
    using chd_solve_solved [OF len(2)] a by (metis option.inject)
  then have sub: "set (at_spilled a) \<subseteq> {..<length (mb_unique b)}"
    by (simp add: solved_def keys_def)
  note sp = spill_inv [OF inv(1) sub, folded c_def]
  have lc: "length (mb_unique c) = length keys"
    using sp by (metis keys_def length_map)
  have ec: "mset (entries c) = mset (entries b)" "length (entries c) = length adds"
    using sp le by (auto dest: mset_eq_length)
  have sl: "length (slots_of a c) = length (mb_unique c)"
    by (simp add: slots_of_def)
  show "length (mp_slot_offsets m) \<le> length adds" "mp_n_keys m = of_nat (length (mp_slot_offsets m))"
    "mp_n_buckets m = of_nat (length (mp_displacement m))" "mp_seed_factor m = at_seed_factor a"
    using len(1) by (simp_all add: m sl lc)
  show "length (mp_displacement m) \<le> max 1 (length adds)"
    using chd_solve_buckets [OF a len(2)] len(1) by (simp add: m)
  have "length (mb_collisions c) \<le> length adds"
    using ec(2) by (simp add: entries_def)
  then show "length (mp_collisions m) \<le> length adds"
    by (simp add: m collisions_of_def)
  have fc: "fits c"
    using fits_cong [OF ec(1)] inv(3) by simp
  have small: "length (snd e) + 15 < 2 ^ 32" if "e \<in> set (entries c)" for e
  proof -
    have "length (snd e) + 15 \<le> sum_list (map (\<lambda>e. length (snd e) + 15) (entries c))"
      using that by (intro member_le_sum_list) auto
    then show ?thesis
      using fc by (simp add: fits_def)
  qed
  have d: "data_of c = replicate 8 0 @ concat (map (\<lambda>e. entry_bytes (snd e)) (entries c))"
    by (simp add: data_of_def entries_def map_snd_filter [symmetric] o_def)
  have bound: "length (concat (map (\<lambda>e. entry_bytes (snd e)) es)) \<le> sum_list (map (\<lambda>e. length (snd e) + 15) es) \<and>
      8 dvd length (concat (map (\<lambda>e. entry_bytes (snd e)) es))" if "set es \<subseteq> set (entries c)" for es
    using that
  proof (induction es)
    case (Cons e es)
    then show ?case
      using entry_size_bounds [OF small, of e] length_entry_bytes [OF small, of e] by auto
  qed simp
  have "sum_list (map (\<lambda>e. length (snd e) + 15) (entries c)) = sum_list (map (\<lambda>e. length (snd e) + 15) (entries b))"
    by (rule sum_list_map_mset [OF ec(1)])
  also have "\<dots> = sum_list (map (\<lambda>e. length (snd e) + 15) adds)"
    using sum_list_map_mset [OF inv(2), of "\<lambda>e. length (snd e) + 15"] by (simp add: o_def case_prod_beta)
  finally have sum: "sum_list (map (\<lambda>e. length (snd e) + 15) (entries c)) = sum_list (map (\<lambda>e. length (snd e) + 15) adds)" .
  show "length data \<le> 8 + sum_list (map (\<lambda>e. length (snd e) + 15) adds)" "8 dvd length data"
    using bound [OF order_refl] by (simp_all add: data d sum)
qed


lemma sum_list_add_const: "sum_list (map (\<lambda>e. f e + (c :: nat)) xs) = sum_list (map f xs) + c * length xs"
  by (induction xs) auto

lemma finalize_layout:
  assumes "keyed_entries ks adds" "build_tables (mphf_build magic mr md shorten adds) = Some (a, m, data)"
  obtains hdr_pre D S C where
    "mphf_finalize (mphf_build magic mr md shorten adds) = hdr_pre @ D @ S @ C @ data"
    "read_header (mphf_finalize (mphf_build magic mr md shorten adds)) =
       Some \<lparr>h_magic = magic, h_version = kMphfMapVersion, h_n_keys = mp_n_keys m, h_n_buckets = mp_n_buckets m,
             h_seed = at_seed a, h_seed_factor = at_seed_factor a,
             h_collisions_offset = of_nat (56 + length D + length S), h_collisions_size = of_nat (length C),
             h_displacement_offset = 56, h_slot_offsets_offset = of_nat (56 + length D),
             h_data_offset = of_nat (56 + length D + length S + length C), h_data_size = of_nat (length data)\<rparr>"
    "D = le_words (mp_displacement m)" "S = pad8 (le_words (mp_slot_offsets m))"
    "C = le_words (concat (map (\<lambda>(k, off). [k, off]) (mp_collisions m)))"
    "length hdr_pre = 56" "8 dvd length S" "56 + length D + length S + length C + length data < 2 ^ 32"
proof -
  define b where "b = mphf_build magic mr md shorten adds"
  define D where "D = le_words (mp_displacement m)"
  define S where "S = pad8 (le_words (mp_slot_offsets m))"
  define C where "C = le_words (concat (map (\<lambda>(k, off). [k, off]) (mp_collisions m)))"
  note sz = build_tables_sizes [OF assms]
  let ?N = "length adds" and ?sum = "sum_list (map (\<lambda>e. length (snd e)) adds)"
  have bound: "128 + ?sum + 64 * ?N < 2 ^ 32"
    using assms(1) by (simp add: keyed_entries_def sum_list_add_const)
  have ld: "length D = 8 * length (mp_displacement m)" "length C = 16 * length (mp_collisions m)"
    by (simp_all add: D_def C_def length_le_words length_concat_pairs)
  have data: "length data \<le> 8 + ?sum + 15 * ?N"
    using sz(4) by (simp add: sum_list_add_const)
  have "length (le_words (mp_slot_offsets m)) + 7 < 2 ^ 32"
    using sz(1) bound by (simp add: length_le_words)
  from length_pad8 [OF this] have ls: "length S = (4 * length (mp_slot_offsets m) + 7) div 8 * 8"
    by (simp add: S_def length_le_words mult.commute)
  then have ls': "length S \<le> 4 * ?N + 7" "8 dvd length S"
    using sz(1) by auto
  have total: "56 + length D + length S + length C + length data < 2 ^ 32"
    using ld ls'(1) data bound sz(2,3) by auto
  have al: "mphf_align8 (of_nat n) = of_nat n" if "8 dvd n" "n + 7 < 2 ^ 32" for n
    using align8_of_nat [OF that(2)] that(1) by (auto elim!: dvdE)
  have p8: "pad8 bs = bs" if "8 dvd length bs" "length bs + 7 < 2 ^ 32" for bs
    using al [OF that] that(2) by (simp add: pad8_def unat_of_nat)
  have tl: "length D + 7 < 2 ^ 32" "length C + 7 < 2 ^ 32" "length data + 7 < 2 ^ 32"
    using total by auto
  have als: "mphf_align8 (of_nat (length (mp_slot_offsets m)) * 4) = of_nat (length S)"
    using align8_of_nat [of "4 * length (mp_slot_offsets m)"] sz(1) bound by (simp add: ls mult.commute)
  have ald: "mphf_align8 (of_nat (length (mp_displacement m)) * 8) = of_nat (length D)"
    using al [of "length D"] tl(1) by (simp add: ld(1) mult.commute)
  have alc: "mphf_align8 (of_nat (length C)) = of_nat (length C)"
    "of_nat (length (mp_collisions m)) * 16 = (of_nat (length C) :: u32)"
    using al [of "length C"] tl(2) by (simp_all add: ld(2) mult.commute)
  have al56: "mphf_align8 56 = 56"
    by (simp add: mphf_align8_def)
  have mb: "mb_magic b = magic" "mb_version b = kMphfMapVersion"
  proof -
    have "mb_magic (foldl (\<lambda>b (key, body). mphf_add b (shorten key) body) b0 adds) = mb_magic b0 \<and>
      mb_version (foldl (\<lambda>b (key, body). mphf_add b (shorten key) body) b0 adds) = mb_version b0" for b0
      by (induction adds arbitrary: b0) (auto simp: mphf_add_def Let_def split: option.splits)
    then show "mb_magic b = magic" "mb_version b = kMphfMapVersion"
      by (simp_all add: b_def mphf_build_def mphf_builder_new_def)
  qed
  define hdr where "hdr = le_words [magic, kMphfMapVersion, mp_n_keys m, mp_n_buckets m]
    @ le_words [at_seed a, at_seed_factor a]
    @ le_words [of_nat (56 + length D + length S), of_nat (length C), 56, of_nat (56 + length D),
        of_nat (56 + length D + length S + length C), of_nat (length data) :: u32]"
  have "8 dvd length D" "8 dvd length C"
    by (simp_all add: ld)
  then have fin: "mphf_finalize b = hdr @ D @ S @ C @ data"
    using assms(2) p8 tl sz(8) unfolding mphf_finalize_def b_def [symmetric]
    by (simp add: Let_def al56 ald als alc mb hdr_def sz(5,6) D_def [symmetric] S_def [symmetric] C_def [symmetric] add.assoc)
  show ?thesis
  proof (rule that [OF fin [unfolded b_def] _ D_def S_def C_def _ ls'(2) total])
    show "length hdr = 56"
      by (simp add: hdr_def length_le_words)
    show "read_header (mphf_finalize (mphf_build magic mr md shorten adds)) =
       Some \<lparr>h_magic = magic, h_version = kMphfMapVersion, h_n_keys = mp_n_keys m, h_n_buckets = mp_n_buckets m,
             h_seed = at_seed a, h_seed_factor = at_seed_factor a,
             h_collisions_offset = of_nat (56 + length D + length S), h_collisions_size = of_nat (length C),
             h_displacement_offset = 56, h_slot_offsets_offset = of_nat (56 + length D),
             h_data_offset = of_nat (56 + length D + length S + length C), h_data_size = of_nat (length data)\<rparr>"
      unfolding fin [unfolded b_def] hdr_def append_assoc by (rule read_header_blob)
  qed
qed


lemma sections_okI:
  assumes "unat (h_displacement_offset h) = 56" "unat (h_slot_offsets_offset h) = 56 + d"
    "unat (h_collisions_offset h) = 56 + d + s" "unat (h_data_offset h) = 56 + d + s + c"
    "unat (h_collisions_size h) = c" "unat (h_data_size h) = n" "unat region_size = 56 + d + s + c + n"
    "d = 8 * unat (h_n_buckets h)" "4 * unat (h_n_keys h) \<le> s" "8 dvd s" "16 dvd c" "h_n_buckets h \<noteq> 0"
  shows "sections_ok region_size h"
proof -
  have "(56 + d) mod 4 = 0" "(56 + d + s) mod 8 = 0" "(56 + d + s + c) mod 8 = 0" "c mod 16 = 0"
    using assms(8,10,11) by (auto elim!: dvdE)
  then show ?thesis
    unfolding sections_ok_def within_def assms(1-7) using assms(8,9,12) by auto
qed

lemma mphf_of_finalize:
  assumes "keyed_entries ks adds" "build_tables (mphf_build magic mr md shorten adds) = Some (a, m, data)"
  defines "blob \<equiv> mphf_finalize (mphf_build magic mr md shorten adds)"
  shows "mphf_of blob = Some (if mp_n_keys m = 0
      then (\<lparr>mp_n_keys = 0, mp_n_buckets = mp_n_buckets m, mp_seed_factor = mp_seed_factor m, mp_displacement = [],
             mp_slot_offsets = [], mp_collisions = []\<rparr>, []) else (m, data))"
    and "sections_ok (of_nat (length blob)) (the (read_header blob)) \<or> mp_n_keys m = 0"
    and "length blob < 2 ^ 32" "56 \<le> length blob"
proof -
  obtain hdr D S C where l: "blob = hdr @ D @ S @ C @ data"
    "read_header blob =
       Some \<lparr>h_magic = magic, h_version = kMphfMapVersion, h_n_keys = mp_n_keys m, h_n_buckets = mp_n_buckets m,
             h_seed = at_seed a, h_seed_factor = at_seed_factor a,
             h_collisions_offset = of_nat (56 + length D + length S), h_collisions_size = of_nat (length C),
             h_displacement_offset = 56, h_slot_offsets_offset = of_nat (56 + length D),
             h_data_offset = of_nat (56 + length D + length S + length C), h_data_size = of_nat (length data)\<rparr>"
    "D = le_words (mp_displacement m)" "S = pad8 (le_words (mp_slot_offsets m))"
    "C = le_words (concat (map (\<lambda>(k, off). [k, off]) (mp_collisions m)))"
    "length hdr = 56" "8 dvd length S" "56 + length D + length S + length C + length data < 2 ^ 32"
    by (rule finalize_layout [OF assms(1,2), folded blob_def]) (rule that)
  note sz = build_tables_sizes [OF assms(1,2)]
  have tb: "tables_ok m"
    using build_tables_entries [OF mphf_build_inv(1,3) [OF assms(1) refl]] assms(2)
    by (metis (no_types, lifting) option.inject prod.inject)
  have lens: "length D = 8 * length (mp_displacement m)" "length C = 16 * length (mp_collisions m)"
    by (simp_all add: l(3,5) length_le_words length_concat_pairs)
  have S: "\<exists>pad. S = le_words (mp_slot_offsets m) @ pad" "4 * length (mp_slot_offsets m) \<le> length S"
    by (auto simp: l(4) pad8_def length_le_words)
  have u: "unat (of_nat n :: u32) = n" if "n \<le> 56 + length D + length S + length C + length data" for n
    using l(8) that by (simp add: unat_of_nat)
  have nk: "unat (mp_n_keys m) = length (mp_slot_offsets m)" "unat (mp_n_buckets m) = length (mp_displacement m)"
    using sz(5,6) u [of "length (mp_slot_offsets m)"] u [of "length (mp_displacement m)"] S(2) lens by auto
  show len: "length blob < 2 ^ 32" "56 \<le> length blob"
    using l(1,6,8) by auto
  note us = u [of "56 + length D + length S"] u [of "length C"] u [of "56 + length D"]
    u [of "56 + length D + length S + length C"] u [of "length data"]
  have "read_words blob 56 (length (mp_displacement m)) = Some (mp_displacement m)"
    using read_words_at [of hdr "mp_displacement m" "S @ C @ data"] by (simp add: l(1,3,6))
  moreover have "read_words blob (56 + length D) (length (mp_slot_offsets m)) = Some (mp_slot_offsets m)"
  proof -
    obtain pad where "S = le_words (mp_slot_offsets m) @ pad"
      using S(1) by blast
    then show ?thesis
      using read_words_at [of "hdr @ D" "mp_slot_offsets m" "pad @ C @ data"] by (simp add: l(1,6))
  qed
  moreover have "read_words blob (56 + length D + length S) (2 * length (mp_collisions m)) =
      Some (concat (map (\<lambda>(k, off). [k, off]) (mp_collisions m)))"
    using read_words_at [of "hdr @ D @ S" "concat (map (\<lambda>(k, off). [k, off]) (mp_collisions m))" data]
    by (simp add: l(1,5,6) length_concat_pairs add.assoc)
  moreover have "read_bytes blob (56 + length D + length S + length C) (length data) = Some data"
    by (simp add: l(1,6) read_bytes_def)
  moreover have "mp_n_keys m = 0 \<or> m = \<lparr>mp_n_keys = mp_n_keys m, mp_n_buckets = mp_n_buckets m,
      mp_seed_factor = at_seed_factor a, mp_displacement = mp_displacement m, mp_slot_offsets = mp_slot_offsets m,
      mp_collisions = mp_collisions m\<rparr>"
    using sz(7) by simp
  ultimately show "mphf_of blob = Some (if mp_n_keys m = 0
      then (\<lparr>mp_n_keys = 0, mp_n_buckets = mp_n_buckets m, mp_seed_factor = mp_seed_factor m, mp_displacement = [],
             mp_slot_offsets = [], mp_collisions = []\<rparr>, []) else (m, data))"
    using us nk lens sz(7) by (simp add: mphf_of_def l(2) pairs_concat del: of_nat_add of_nat_numeral)
  have ub: "unat (of_nat (length blob) :: u32) = length blob"
    using len by (simp add: unat_of_nat)
  have lb: "length blob = 56 + length D + length S + length C + length data"
    by (simp add: l(1,6))
  have nb: "mp_n_keys m \<noteq> 0 \<Longrightarrow> mp_n_buckets m \<noteq> 0"
    using tb by (auto simp: tables_ok_def)
  have "16 dvd length C"
    by (simp add: lens)
  then have "mp_n_keys m \<noteq> 0 \<Longrightarrow> sections_ok (of_nat (length blob)) (the (read_header blob))"
    using us ub lb nk lens(1) S(2) nb l(7)
    by (intro sections_okI [where d = "length D" and s = "length S" and c = "length C" and n = "length data"])
      (simp_all add: l(2) del: of_nat_add of_nat_numeral)
  then show "sections_ok (of_nat (length blob)) (the (read_header blob)) \<or> mp_n_keys m = 0"
    by blast
qed


lemma stored_within:
  assumes "stored data off body" "ks \<le> length body"
  shows "entry_within_data ks data off"
proof -
  obtain len :: u64 where r: "read_word data off = Some len" "read_bytes data (off + 8) (unat len) = Some body" "8 dvd off"
    using assms(1) by (auto simp: stored_def body_at_def bind_eq_Some_conv)
  then have "off + 8 + unat len \<le> length data" "length body = unat len"
    using read_bytes_length [OF r(2)] by (auto simp: read_bytes_eq_Some)
  then show ?thesis
    using r(1,3) assms(2) by (auto simp: entry_within_data_def)
qed

lemma keyed_body_length: "keyed_entries ks adds \<Longrightarrow> (k, body) \<in> set adds \<Longrightarrow> ks \<le> length body"
proof -
  assume "keyed_entries ks adds" "(k, body) \<in> set adds"
  then have "length k = ks" "take ks body = k"
    unfolding keyed_entries_def by (metis fst_conv snd_conv)+
  then have "length (take ks body) = ks"
    by (simp only:)
  then show ?thesis
    by (simp add: min_def split: if_splits)
qed

lemma finalize_validates:
  fixes magic :: u32 and mr md :: nat and shorten :: "bytes \<Rightarrow> u64"
  assumes "keyed_entries ks adds"
  defines "blob \<equiv> mphf_finalize (mphf_build magic mr md shorten adds)"
  shows "validate_mphf ks blob 0 (of_nat (length blob)) magic"
proof -
  define b where "b = mphf_build magic mr md shorten adds"
  note inv = mphf_build_inv [OF assms(1) b_def]
  obtain a m data where t: "build_tables b = Some (a, m, data)" "tables_ok m"
    "sorted (map fst (mp_collisions m))" "mp_n_keys m = of_nat (length (mb_unique b))"
    "\<And>off. off \<in> set (for_each_offset m) \<Longrightarrow> \<exists>e \<in> set (entries b). stored data off (snd e)"
    "\<And>k8 body. (k8, body) \<in> set (entries b) \<Longrightarrow> \<exists>off idx. stored data off body \<and> index_lookup m k8 = Some idx \<and>
        (mp_slot_offsets m ! unat idx = of_nat off \<or>
         mp_slot_offsets m ! unat idx = 0 \<and> (k8, of_nat off) \<in> set (mp_collisions m))"
    by (rule build_tables_entries [OF inv(1,3)]) (rule that)
  note f = mphf_of_finalize [OF assms(1) t(1) [unfolded b_def], folded blob_def]
  obtain hdr where h: "read_header blob = Some hdr" "h_magic hdr = magic" "h_version hdr = kMphfMapVersion"
    "h_n_keys hdr = mp_n_keys m"
    by (rule finalize_layout [OF assms(1) t(1) [unfolded b_def], folded blob_def]) (rule that, auto)
  have u: "unat (of_nat (length blob) :: u32) = length blob"
    using f(3) by (simp add: unat_of_nat)
  have se: "set (entries b) = (\<lambda>(key, body). (shorten key, body)) ` set adds"
    using inv(2) by (metis set_map set_mset_mset)
  have "\<exists>k body. (k, body) \<in> set adds \<and> stored data off body" if "off \<in> set (for_each_offset m)" for off
    using t(5) [OF that] unfolding se by (auto, blast)
  then have "entry_within_data ks data off" if "off \<in> set (for_each_offset m)" for off
    using stored_within keyed_body_length [OF assms(1)] that by blast
  then have e: "mp_n_keys m \<noteq> 0 \<Longrightarrow> list_all (\<lambda>off. off \<noteq> 0 \<longrightarrow> entry_within_data ks data (unat off)) (mp_slot_offsets m)"
    "mp_n_keys m \<noteq> 0 \<Longrightarrow> list_all (\<lambda>c. entry_within_data ks data (unat (snd c))) (mp_collisions m)"
    by (auto simp: list_all_iff for_each_offset_def)
  show ?thesis
    unfolding validate_mphf_def Let_def u
    using f h e by (auto simp: list_all_iff word_unat_eq_iff)
qed

text \<open>
  C10: The perfect hash maps. For any assignment of index keys, any retry and displacement limits, and any entries with
  distinct full keys whose blob stays below the 32-bit limit, the builder's search always finishes, the blob it
  writes passes the layout check, and in the map opened on it every lookup of a full key returns exactly the body
  added for that key, or nothing if none was: keys with colliding index keys and keys spilled by the
  displacement search are found through the sidecar.
\<close>

theorem mphf_build_find:
  fixes magic :: u32 and mr md :: nat and shorten :: "bytes \<Rightarrow> u64"
  assumes "keyed_entries ks adds"
  defines "blob \<equiv> mphf_finalize (mphf_build magic mr md shorten adds)"
  shows "validate_mphf ks blob 0 (of_nat (length blob)) magic \<and>
    (\<exists>m data. mphf_of blob = Some (m, data) \<and>
       (\<forall>key. length key = ks \<longrightarrow> find_body m data (shorten key) key = Some (map_of adds key)))"
proof -
  note inv = mphf_build_inv [OF assms(1) refl, of magic mr md shorten]
  obtain a m data where t: "build_tables (mphf_build magic mr md shorten adds) = Some (a, m, data)"
    "mp_n_keys m = of_nat (length (mb_unique (mphf_build magic mr md shorten adds)))"
    by (rule build_tables_entries [OF inv(1,3)]) (rule that)
  note f = mphf_of_finalize(1) [OF assms(1) t(1), folded blob_def]
  have find: "find_body m data (shorten key) key = Some (map_of adds key)" if "length key = ks" for key
    by (rule mphf_find_entries [OF assms(1) t(1) that])
  show ?thesis
  proof (cases "mp_n_keys m = 0")
    case True
    have "map_of adds key = None" if "length key = ks" for key
      using find [OF that] True by (simp add: find_body_def mphf_find_def)
    then show ?thesis
      using f True finalize_validates [OF assms(1), of magic mr md shorten, folded blob_def]
      by (simp add: find_body_def mphf_find_def)
  next
    case False
    then show ?thesis
      using f find finalize_validates [OF assms(1), of magic mr md shorten, folded blob_def] by simp
  qed
qed

definition sample_entries :: "(bytes \<times> bytes) list" where
  "sample_entries = [([1, 2], [1, 2, 9]), ([3, 4], [3, 4, 8, 8]), ([5, 6], [5, 6])]"

theorem mphf_build_find_witness:
  "keyed_entries 2 sample_entries \<and>
   (\<exists>m data. mphf_of (mphf_finalize (mphf_build 7 0 0 (\<lambda>key. ucast (hd key)) sample_entries)) = Some (m, data) \<and>
      find_body m data 3 [3, 4] = Some (Some [3, 4, 8, 8]) \<and> find_body m data 1 [1, 1] = Some None)"
proof -
  have k: "keyed_entries 2 sample_entries"
    by (simp add: keyed_entries_def sample_entries_def)
  obtain m data where m: "mphf_of (mphf_finalize (mphf_build 7 0 0 (\<lambda>key. ucast (hd key)) sample_entries)) = Some (m, data)"
    "\<And>key. length key = 2 \<Longrightarrow> find_body m data (ucast (hd key)) key = Some (map_of sample_entries key)"
    using mphf_build_find [OF k, of 7 0 0 "\<lambda>key. ucast (hd key)"] by auto
  show ?thesis
    using k m(1) m(2) [of "[3, 4]"] m(2) [of "[1, 1]"] by (auto simp: sample_entries_def)
qed

end
