(* ===== verification/Ancestors.thy ===== *)
theory Ancestors
  imports State_Refinement
begin

text \<open>
  The headers that \<open>DirectState\<close> holds (state_zz/direct_state.cpp): \<open>insert_header\<close>, \<open>read_header\<close>, \<open>read_body\<close> and
  \<open>get_block_hash\<close>, which answers \<open>BLOCKHASH\<close> by a walk along the parent hashes and keeps the walk for the next
  question. The cached walk answers as a walk from the header each time would, and every hash it returns is bound to
  the header by a chain of hashes.
\<close>

section \<open>The code\<close>

definition insert_header :: "(bytes \<Rightarrow> bytes32) \<Rightarrow> block_header \<Rightarrow> direct_state \<Rightarrow> direct_state" where
  "insert_header keccak256 h st =
     st\<lparr>ds_headers := AList.update (block_header_hash keccak256 h False False) h (ds_headers st), ds_ancestors := []\<rparr>"

definition read_header_of :: "direct_state \<Rightarrow> block_num \<Rightarrow> bytes32 \<Rightarrow> block_header option" where
  "read_header_of st block_number block_hash = map_of (ds_headers st) block_hash"

definition read_body_of :: "direct_state \<Rightarrow> block_num \<Rightarrow> bytes32 \<Rightarrow> block_body option" where
  "read_body_of st block_number block_hash = None"

definition total_difficulty_of :: "direct_state \<Rightarrow> u64 \<Rightarrow> bytes32 \<Rightarrow> u256 option" where
  "total_difficulty_of st block_number block_hash = None"

definition require_block_hash_headers :: "bool \<Rightarrow> direct_state \<Rightarrow> direct_state" where
  "require_block_hash_headers on st = st\<lparr>ds_require_headers := on\<rparr>"

definition reset_witness_incomplete :: "direct_state \<Rightarrow> direct_state" where
  "reset_witness_incomplete st = st\<lparr>ds_witness_incomplete := False, ds_ancestor_missing := False\<rparr>"

text \<open>The walk that is kept is begun again for another header.\<close>

definition begin_walk :: "block_header \<Rightarrow> direct_state \<Rightarrow> direct_state" where
  "begin_walk h st =
     (if ds_ancestors st = [] \<or> ds_ancestors_number st \<noteq> number h \<or> hd (ds_ancestors st) \<noteq> parent_hash h
      then st\<lparr>ds_ancestors := [parent_hash h], ds_ancestors_number := number h, ds_ancestors_end := False\<rparr>
      else st)"

text \<open>The loop: \<open>False\<close> where it ends the call.\<close>

function extend_walk :: "nat \<Rightarrow> direct_state \<Rightarrow> bool \<times> direct_state" where
  "extend_walk depth st =
     (if length (ds_ancestors st) \<le> depth
      then case (if ds_ancestors_end st then None else map_of (ds_headers st) (last (ds_ancestors st))) of
             None \<Rightarrow> (False, st\<lparr>ds_ancestors_end := True, ds_ancestor_missing := True\<rparr>)
           | Some h \<Rightarrow> extend_walk depth (st\<lparr>ds_ancestors := ds_ancestors st @ [parent_hash h]\<rparr>)
      else (True, st))"
  by pat_completeness auto

termination extend_walk
  by (relation "measure (\<lambda>(depth, st). Suc depth - length (ds_ancestors st))") auto

declare extend_walk.simps [simp del]

definition get_block_hash :: "block_header \<Rightarrow> block_num \<Rightarrow> direct_state \<Rightarrow> bytes32 \<times> direct_state" where
  "get_block_hash h n st =
     (if n \<ge> number h then (zero32, st)
      else let st = begin_walk h st;
               depth = unat (number h - 1 - n);
               (found, st) = extend_walk depth st;
               hash = ds_ancestors st ! depth
           in if \<not> found then (zero32, st)
              else if ds_require_headers st \<and> map_of (ds_headers st) hash = None
              then (zero32, st\<lparr>ds_ancestor_missing := True\<rparr>)
              else (hash, st))"

section \<open>The walk without a cache\<close>

fun ancestor_hash :: "(bytes32 \<times> block_header) list \<Rightarrow> bytes32 \<Rightarrow> nat \<Rightarrow> bytes32 option" where
  "ancestor_hash headers hash 0 = Some hash"
| "ancestor_hash headers hash (Suc k) =
     (case map_of headers hash of None \<Rightarrow> None | Some h \<Rightarrow> ancestor_hash headers (parent_hash h) k)"

text \<open>What the cache holds: the walk as far as it went, and whether it can go on.\<close>

definition walk_ok :: "direct_state \<Rightarrow> bool" where
  "walk_ok st \<longleftrightarrow>
     (ds_ancestors st \<noteq> [] \<longrightarrow>
        (\<forall>i < length (ds_ancestors st). ancestor_hash (ds_headers st) (hd (ds_ancestors st)) i = Some (ds_ancestors st ! i)) \<and>
        (ds_ancestors_end st \<longrightarrow> map_of (ds_headers st) (last (ds_ancestors st)) = None))"

lemma ancestor_hash_snoc:
  "ancestor_hash headers hash (Suc k) =
     Option.bind (ancestor_hash headers hash k) (\<lambda>x. map_option parent_hash (map_of headers x))"
proof (induction k arbitrary: hash)
  case (Suc k)
  let ?f = "\<lambda>x. map_option parent_hash (map_of headers x)"
  have "ancestor_hash headers hash (Suc (Suc k)) =
      (case map_of headers hash of None \<Rightarrow> None | Some h \<Rightarrow> ancestor_hash headers (parent_hash h) (Suc k))"
    by (rule ancestor_hash.simps(2))
  also have "\<dots> = (case map_of headers hash of None \<Rightarrow> None | Some h \<Rightarrow> Option.bind (ancestor_hash headers (parent_hash h) k) ?f)"
    by (simp only: Suc.IH)
  also have "\<dots> = Option.bind (ancestor_hash headers hash (Suc k)) ?f"
    by (simp split: option.split)
  finally show ?case .
qed (simp split: option.split)

lemma ancestor_hash_stops:
  "ancestor_hash headers hash k = None \<Longrightarrow> k \<le> n \<Longrightarrow> ancestor_hash headers hash n = None"
proof (induction n)
  case (Suc n)
  then show ?case
    by (cases "k = Suc n") (auto simp: ancestor_hash_snoc simp del: ancestor_hash.simps)
qed simp

lemma begin_walk_ok:
  assumes "walk_ok st"
  shows "walk_ok (begin_walk h st)" "ds_ancestors (begin_walk h st) \<noteq> []" "hd (ds_ancestors (begin_walk h st)) = parent_hash h"
    "ds_headers (begin_walk h st) = ds_headers st"
  using assms by (auto simp: begin_walk_def walk_ok_def)

lemma extend_walk_ok:
  assumes "walk_ok st" "ds_ancestors st \<noteq> []"
  shows "case extend_walk depth st of (found, st') \<Rightarrow>
    walk_ok st' \<and> ds_headers st' = ds_headers st \<and> hd (ds_ancestors st') = hd (ds_ancestors st) \<and>
    (found \<longrightarrow> depth < length (ds_ancestors st')) \<and> found = (ancestor_hash (ds_headers st) (hd (ds_ancestors st)) depth \<noteq> None) \<and>
    ds_require_headers st' = ds_require_headers st \<and> ds_ancestor_missing st' = (ds_ancestor_missing st \<or> \<not> found) \<and>
    ds_ancestors st' \<noteq> []"
  using assms
proof (induction depth st rule: extend_walk.induct)
  case (1 depth st)
  let ?as = "ds_ancestors st" and ?hs = "ds_headers st"
  have walk: "ancestor_hash ?hs (hd ?as) i = Some (?as ! i)" if "i < length ?as" for i
    using "1.prems" that by (simp add: walk_ok_def)
  have step: "ancestor_hash ?hs (hd ?as) (length ?as) = map_option parent_hash (map_of ?hs (last ?as))"
    using ancestor_hash_snoc [of ?hs "hd ?as" "length ?as - 1"] walk [of "length ?as - 1"] "1.prems"(2)
    by (simp add: last_conv_nth del: ancestor_hash.simps)
  show ?case
  proof (cases "length ?as \<le> depth")
    case False
    then show ?thesis
      using "1.prems" walk [of depth] by (subst extend_walk.simps) simp
  next
    case True
    show ?thesis
    proof (cases "if ds_ancestors_end st then None else map_of ?hs (last ?as)")
      case None
      then have stop: "map_of ?hs (last ?as) = None"
        using "1.prems" by (auto simp: walk_ok_def split: if_splits)
      then have "ancestor_hash ?hs (hd ?as) depth = None"
        using step ancestor_hash_stops [OF _ True] by simp
      then show ?thesis
        using True None "1.prems" stop by (subst extend_walk.simps) (simp add: walk_ok_def)
    next
      case (Some h)
      let ?st = "st\<lparr>ds_ancestors := ?as @ [parent_hash h]\<rparr>"
      have h: "map_of ?hs (last ?as) = Some h" "\<not> ds_ancestors_end st"
        using Some by (auto split: if_splits)
      have "walk_ok ?st"
        using "1.prems"(2) walk step h by (auto simp: walk_ok_def nth_append less_Suc_eq hd_append)
      then have "case extend_walk depth ?st of (found, st') \<Rightarrow>
        walk_ok st' \<and> ds_headers st' = ds_headers ?st \<and> hd (ds_ancestors st') = hd (ds_ancestors ?st) \<and>
        (found \<longrightarrow> depth < length (ds_ancestors st')) \<and> found = (ancestor_hash (ds_headers ?st) (hd (ds_ancestors ?st)) depth \<noteq> None) \<and>
        ds_require_headers st' = ds_require_headers ?st \<and> ds_ancestor_missing st' = (ds_ancestor_missing ?st \<or> \<not> found) \<and>
        ds_ancestors st' \<noteq> []"
        using "1.IH" [OF True Some] by simp
      moreover have "extend_walk depth st = extend_walk depth ?st"
        using True Some by (subst extend_walk.simps) simp
      ultimately show ?thesis
        using "1.prems"(2) by (simp add: hd_append)
    qed
  qed
qed

lemma insert_header_walk_ok: "walk_ok (insert_header keccak256 h st)"
  by (simp add: walk_ok_def insert_header_def)

text \<open>The operations on accounts do not touch the headers.\<close>

lemma begin_walk_core [simp]: "core (begin_walk h st) = core st"
  by (simp add: begin_walk_def core_def)

lemma begin_walk_flags [simp]:
  "ds_require_headers (begin_walk h st) = ds_require_headers st" "ds_ancestor_missing (begin_walk h st) = ds_ancestor_missing st"
  by (simp_all add: begin_walk_def)

lemma extend_walk_core: "core (snd (extend_walk depth st)) = core st"
proof (induction depth st rule: extend_walk.induct)
  case (1 depth st)
  show ?case
    using 1 by (subst extend_walk.simps) (auto simp: core_def split: option.split)
qed

lemma get_block_hash_walk:
  assumes "walk_ok st" "get_block_hash h n st = (hash, st')"
  defines "found \<equiv> (if n \<ge> number h then None
    else case ancestor_hash (ds_headers st) (parent_hash h) (unat (number h - 1 - n)) of
           None \<Rightarrow> None
         | Some x \<Rightarrow> if ds_require_headers st \<and> map_of (ds_headers st) x = None then None else Some x)"
  shows "walk_ok st' \<and> ds_headers st' = ds_headers st \<and> core st' = core st \<and>
    hash = (case found of None \<Rightarrow> zero32 | Some x \<Rightarrow> x) \<and>
    ds_ancestor_missing st' = (ds_ancestor_missing st \<or> n < number h \<and> found = None)"
proof (cases "n \<ge> number h")
  case True
  then show ?thesis
    using assms by (auto simp: get_block_hash_def)
next
  case False
  let ?st = "begin_walk h st" and ?d = "unat (number h - 1 - n)"
  obtain ok st2 where e: "extend_walk ?d ?st = (ok, st2)"
    by fastforce
  note b = begin_walk_ok [OF assms(1), of h]
  have st2: "walk_ok st2" "ds_headers st2 = ds_headers st" "hd (ds_ancestors st2) = parent_hash h"
    "ok \<Longrightarrow> ?d < length (ds_ancestors st2)" "ok = (ancestor_hash (ds_headers st) (parent_hash h) ?d \<noteq> None)"
    "ds_require_headers st2 = ds_require_headers st" "ds_ancestor_missing st2 = (ds_ancestor_missing st \<or> \<not> ok)"
    "ds_ancestors st2 \<noteq> []"
    using extend_walk_ok [OF b(1,2), of ?d] by (simp_all add: e b)
  have core2: "core st2 = core st"
    using extend_walk_core [of ?d ?st] by (simp add: e)
  have nth: "ancestor_hash (ds_headers st) (parent_hash h) ?d = Some (ds_ancestors st2 ! ?d)" if ok
    using st2(1,4,8) that by (simp add: walk_ok_def st2(2,3))
  have "(hash, st') = (if \<not> ok then (zero32, st2)
      else if ds_require_headers st2 \<and> map_of (ds_headers st2) (ds_ancestors st2 ! ?d) = None
      then (zero32, st2\<lparr>ds_ancestor_missing := True\<rparr>) else (ds_ancestors st2 ! ?d, st2))"
    using assms(2) False by (simp add: get_block_hash_def Let_def e)
  then show ?thesis
    using False st2(1,2,5-7) nth core2
    by (cases ok) (auto simp: found_def walk_ok_def core_def split: if_splits)
qed

section \<open>Chains of hashes\<close>

definition headers_ok :: "(bytes \<Rightarrow> bytes32) \<Rightarrow> (bytes32 \<times> block_header) list \<Rightarrow> bool" where
  "headers_ok keccak256 headers \<longleftrightarrow> (\<forall>k h. map_of headers k = Some h \<longrightarrow> k = block_header_hash keccak256 h False False)"

text \<open>Headers, each of which has the hash that the one before it, or the start, names as its parent.\<close>

fun linked :: "(bytes \<Rightarrow> bytes32) \<Rightarrow> bytes32 \<Rightarrow> block_header list \<Rightarrow> bytes32 \<Rightarrow> bool" where
  "linked keccak256 hash [] x \<longleftrightarrow> hash = x"
| "linked keccak256 hash (h # hs) x \<longleftrightarrow> block_header_hash keccak256 h False False = hash \<and> linked keccak256 (parent_hash h) hs x"

lemma insert_header_headers_ok:
  "headers_ok keccak256 (ds_headers st) \<Longrightarrow> headers_ok keccak256 (ds_headers (insert_header keccak256 h st))"
  by (auto simp: headers_ok_def insert_header_def update_conv')

lemma ancestor_hash_linked:
  assumes "headers_ok keccak256 headers" "ancestor_hash headers hash k = Some x"
  shows "\<exists>hs. length hs = k \<and> linked keccak256 hash hs x"
  using assms(2)
proof (induction k arbitrary: hash)
  case (Suc k)
  then obtain h where h: "map_of headers hash = Some h" "ancestor_hash headers (parent_hash h) k = Some x"
    by (auto split: option.splits)
  then obtain hs where "length hs = k" "linked keccak256 (parent_hash h) hs x"
    using Suc.IH by blast
  moreover have "block_header_hash keccak256 h False False = hash"
    using assms(1) h(1) by (simp add: headers_ok_def)
  ultimately show ?case
    by (intro exI [of _ "h # hs"]) simp
qed simp

text \<open>
  C14: \<open>DirectState::get_block_hash\<close> answers as a walk along the parent hashes from the header would, whatever the walk it kept
  from earlier calls, keeps that walk right for the next call and changes no account. A hash it returns is bound to the
  header: as many headers as the block lies below the parent lead to it, each with the hash that the one after it
  names. Where the headers do not lead that far, the answer is zero and the state records it.
\<close>

theorem get_block_hash_correct:
  assumes "walk_ok st" "headers_ok keccak256 (ds_headers st)" "n < number h" "get_block_hash h n st = (hash, st')"
  shows "walk_ok st' \<and> ds_headers st' = ds_headers st \<and> abs_state st' = abs_state st \<and>
    (case ancestor_hash (ds_headers st) (parent_hash h) (unat (number h - 1 - n)) of
       None \<Rightarrow> hash = zero32 \<and> ds_ancestor_missing st'
     | Some x \<Rightarrow>
         (if ds_require_headers st \<and> map_of (ds_headers st) x = None then hash = zero32 \<and> ds_ancestor_missing st'
          else hash = x \<and> ds_ancestor_missing st' = ds_ancestor_missing st) \<and>
         (\<exists>hs. length hs = unat (number h - 1 - n) \<and> linked keccak256 (parent_hash h) hs x))"
  using get_block_hash_walk [OF assms(1,4)] assms(3) ancestor_hash_linked [OF assms(2)]
  by (auto simp: abs_state_def split: option.splits if_splits)

theorem get_block_hash_correct_witness:
  "let h = sample_header\<lparr>number := 2\<rparr>;
       st = insert_header (\<lambda>b. parent_hash h) (sample_header\<lparr>parent_hash := replicate 32 5\<rparr>) sample_state
   in get_block_hash h 0 st = (replicate 32 5, snd (get_block_hash h 0 st)) \<and>
      (\<exists>hs. length hs = 1 \<and> linked (\<lambda>b. parent_hash h) (parent_hash h) hs (replicate 32 5))"
proof -
  let ?h = "sample_header\<lparr>number := 2\<rparr>"
  let ?st = "insert_header (\<lambda>b. parent_hash ?h) (sample_header\<lparr>parent_hash := replicate 32 5\<rparr>) sample_state"
  have hs: "headers_ok (\<lambda>b. parent_hash ?h) (ds_headers ?st)"
    by (rule insert_header_headers_ok) (simp add: headers_ok_def sample_state_def)
  have headers: "map_of (ds_headers ?st) (parent_hash ?h) = Some (sample_header\<lparr>parent_hash := replicate 32 5\<rparr>)"
    by (simp add: insert_header_def block_header_hash_def update_conv')
  have "unat (number ?h - 1 - 0) = 1"
    by simp
  then have "ancestor_hash (ds_headers ?st) (parent_hash ?h) (unat (number ?h - 1 - 0)) = Some (replicate 32 5)"
    using headers by simp
  moreover have "\<not> ds_require_headers ?st"
    by (simp add: insert_header_def sample_state_def)
  moreover obtain hash st' where "get_block_hash ?h 0 ?st = (hash, st')"
    by fastforce
  ultimately show ?thesis
    using get_block_hash_correct [OF insert_header_walk_ok hs, of 0 ?h] by (simp add: Let_def)
qed

end
