(* ===== verification/State_View.thy ===== *)
theory State_View
  imports Ancestors State_Root
begin

text \<open>
  The view of the state that the EVM gets (\<open>DirectStateView\<close> in state_zz/direct_state.hpp and the adapter for block hashes in
  execution/processor.cpp). The EVM is third-party code: it is a program that asks the view and continues with
  the answer, and it knows of the state only what it has been told.

  What is relied on is that it uses the handle of an account only for the address it was given with. Then every
  call is answered, and no account changes.
\<close>

section \<open>The view\<close>

record view_account =
  va_nonce :: u64
  va_balance :: u256
  va_code_hash :: bytes32
  va_has_storage :: bool
  va_handle :: account_ref

definition get_account :: "address \<Rightarrow> direct_state \<Rightarrow> view_account option \<times> direct_state" where
  "get_account addr st =
     (let (r, st) = observe_account st addr; pa = record_at st r
      in (if acc_deleted pa then None
          else Some \<lparr>va_nonce = acc_nonce pa, va_balance = acc_balance pa, va_code_hash = acc_code_hash pa,
                     va_has_storage = has_storage_at st addr pa, va_handle = r\<rparr>,
          st))"

definition check_account_handle :: "direct_state \<Rightarrow> address \<Rightarrow> account_ref \<Rightarrow> bool" where
  "check_account_handle st addr handle \<longleftrightarrow> lookup_account st addr = Some handle"

text \<open>\<open>None\<close> is the fatal error for a handle that is not the record of the address.\<close>

definition get_account_code_at :: "account_ref option \<Rightarrow> address \<Rightarrow> direct_state \<Rightarrow> (bytes \<times> direct_state) option" where
  "get_account_code_at handle addr st =
     (case handle of
        None \<Rightarrow> Some (read_code addr st)
      | Some r \<Rightarrow> if check_account_handle st addr r then Some (read_code_at r st) else None)"

definition get_storage_at :: "account_ref option \<Rightarrow> address \<Rightarrow> bytes32 \<Rightarrow> direct_state \<Rightarrow> (bytes32 \<times> direct_state) option" where
  "get_storage_at handle addr key st =
     (case handle of
        None \<Rightarrow> Some (read_storage addr key st)
      | Some r \<Rightarrow> if check_account_handle st addr r then Some (read_storage_at r addr key st) else None)"

section \<open>Programs over the view\<close>

datatype view_call = GetAccount address | GetCode "account_ref option" address | GetStorage "account_ref option" address bytes32 | GetBlockHash u64

datatype view_answer = AccountAnswer "view_account option" | CodeAnswer bytes | WordAnswer bytes32

fun answer :: "block_header \<Rightarrow> view_call \<Rightarrow> direct_state \<Rightarrow> (view_answer \<times> direct_state) option" where
  "answer h (GetAccount addr) st = Some (map_prod AccountAnswer id (get_account addr st))"
| "answer h (GetCode handle addr) st = map_option (map_prod CodeAnswer id) (get_account_code_at handle addr st)"
| "answer h (GetStorage handle addr key) st = map_option (map_prod WordAnswer id) (get_storage_at handle addr key st)"
| "answer h (GetBlockHash n) st = Some (map_prod WordAnswer id (get_block_hash h n st))"

datatype 'r evm = Return 'r | Ask view_call "view_answer \<Rightarrow> 'r evm"

primrec run :: "block_header \<Rightarrow> 'r evm \<Rightarrow> direct_state \<Rightarrow> ('r \<times> direct_state) option" where
  "run h (Return r) st = Some (r, st)"
| "run h (Ask c k) st = (case answer h c st of None \<Rightarrow> None | Some (ans, st) \<Rightarrow> run h (k ans) st)"

section \<open>Handles\<close>

type_synonym handles = "(address \<times> account_ref) set"

fun handle_ok :: "handles \<Rightarrow> account_ref option \<Rightarrow> address \<Rightarrow> bool" where
  "handle_ok H None addr \<longleftrightarrow> True"
| "handle_ok H (Some r) addr \<longleftrightarrow> (addr, r) \<in> H"

fun call_ok :: "handles \<Rightarrow> view_call \<Rightarrow> bool" where
  "call_ok H (GetCode handle addr) \<longleftrightarrow> handle_ok H handle addr"
| "call_ok H (GetStorage handle addr key) \<longleftrightarrow> handle_ok H handle addr \<and> length key = 32"
| "call_ok H _ \<longleftrightarrow> True"

fun learned :: "view_call \<Rightarrow> view_answer \<Rightarrow> handles \<Rightarrow> handles" where
  "learned (GetAccount addr) (AccountAnswer (Some va)) H = insert (addr, va_handle va) H"
| "learned _ _ H = H"

text \<open>A program that uses the handles it has been given, each for its address, and whose result is \<open>P\<close> for them.\<close>

primrec disciplined :: "(handles \<Rightarrow> 'r \<Rightarrow> bool) \<Rightarrow> handles \<Rightarrow> 'r evm \<Rightarrow> bool" where
  "disciplined P H (Return r) \<longleftrightarrow> P H r"
| "disciplined P H (Ask c k) \<longleftrightarrow> call_ok H c \<and> (\<forall>ans. disciplined P (learned c ans H) (k ans))"

definition handles_ok :: "handles \<Rightarrow> direct_state \<Rightarrow> bool" where
  "handles_ok H st \<longleftrightarrow> (\<forall>(addr, r) \<in> H. lookup_account st addr = Some r)"

section \<open>The records of the addresses\<close>

definition extends :: "direct_state \<Rightarrow> direct_state \<Rightarrow> bool" where
  "extends st st' \<longleftrightarrow>
     (\<forall>a r. lookup_account st a = Some r \<longrightarrow> lookup_account st' a = Some r) \<and>
     (distinct (map fst (ds_created st)) \<longrightarrow> distinct (map fst (ds_created st')))"

lemma extends_refl [simp]: "extends st st"
  by (simp add: extends_def)

lemma extends_trans [trans]: "extends st st' \<Longrightarrow> extends st' st'' \<Longrightarrow> extends st st''"
  by (simp add: extends_def)

lemma extends_lookup: "extends st st' \<Longrightarrow> lookup_account st a = Some r \<Longrightarrow> lookup_account st' a = Some r"
  by (simp add: extends_def)

text \<open>Other fields do not matter.\<close>

lemma extends_cong:
  assumes "ds_map st' = ds_map st" "ds_records st' = ds_records st" "ds_created st' = ds_created st"
  shows "extends st st'"
proof -
  have "lookup_account st' a = lookup_account st a" for a
    unfolding lookup_account_def find_pre_account_def assms ..
  then show ?thesis
    by (simp add: extends_def assms)
qed

lemma extends_fields [simp]:
  "extends st (st\<lparr>ds_overflow := ov\<rparr>)" "extends st (st\<lparr>ds_touched := t\<rparr>)" "extends st (st\<lparr>ds_wiped := w\<rparr>)"
  "extends st (st\<lparr>ds_created_code := c\<rparr>)" "extends st (st\<lparr>ds_code_collisions := cc\<rparr>)" "extends st (journal_address_changed a st)"
  "extends st (journal_slot_changed a k st)" "extends st (touch a st)" "extends st (st\<lparr>ds_witness_incomplete := b\<rparr>)"
  "extends st (st\<lparr>ds_absent_reads := ar\<rparr>)"
  by (simp_all add: extends_cong journal_address_changed_def journal_slot_changed_def touch_def Let_def)

lemma extends_set_record:
  assumes "lookup_account st a = Some r" "acc_addr pa = acc_addr (record_at st r)"
  shows "extends st (set_record r pa st)"
proof -
  have l: "c_lookup (core st) a = Some r" "acc_addr pa = acc_addr (c_record (core st) r)"
    using assms by (simp_all add: lookup_core record_core)
  have "core (set_record r pa st) = put a r pa (c_overflow (core st) a) (core st)"
    unfolding core_set_record by (cases r) (simp_all add: put_def)
  then have "lookup_account (set_record r pa st) b = lookup_account st b" for b
    using c_lookup_put [OF l] by (simp add: lookup_core)
  moreover have "distinct (map fst (ds_created st)) \<longrightarrow> distinct (map fst (ds_created (set_record r pa st)))"
    by (cases r) (simp_all add: distinct_update)
  ultimately show ?thesis
    by (simp add: extends_def)
qed

lemma extends_observe:
  assumes "observe_account st a = (r, st')"
  shows "extends st st'" "lookup_account st' a = Some r"
proof -
  have "extends st st' \<and> lookup_account st' a = Some r"
  proof (cases "c_lookup (core st) a")
    case None
    then have m: "(r, st') = materialize_absent_account st a"
      using assms by (simp add: observe_account_def lookup_core)
    have "c_find (core st) b = c_find (core st') b" for b
      using m by (intro c_find_cong) (auto simp: materialize_absent_account_def core_def)
    moreover have "r = CreatedRecord a" "c_created (core st') = (c_created (core st))(a \<mapsto> absent_account a)"
      "distinct (map fst (ds_created st)) \<longrightarrow> distinct (map fst (ds_created st'))"
      using m None by (auto simp: materialize_absent_account_def core_def update_conv' c_lookup_def distinct_update split: option.splits if_splits)
    ultimately show ?thesis
      using None by (auto simp: extends_def lookup_core c_lookup_def split: option.splits if_splits)
  next
    case (Some r')
    then show ?thesis
      using assms by (simp add: observe_account_def lookup_core)
  qed
  then show "extends st st'" "lookup_account st' a = Some r"
    by simp_all
qed

section \<open>States that list their accounts\<close>

lemma find_pre_lookup: "find_pre_account st a = Some off \<Longrightarrow> lookup_account st a = Some (PreRecord off)"
  by (simp add: lookup_account_def)

text \<open>A record of the witness is listed when some address leads to it.\<close>

lemma accounts_listed_iff:
  "accounts_listed st \<longleftrightarrow>
     (\<forall>off \<in> set (for_each_offset (ds_map st)). \<exists>a. lookup_account st a = Some (PreRecord off)) \<and>
     distinct (for_each_offset (ds_map st)) \<and> (ds_n_accounts st = 0 \<longrightarrow> for_each_offset (ds_map st) = []) \<and>
     distinct (map fst (ds_created st))"
proof -
  have "find_pre_account st (acc_addr (record_at st (PreRecord off))) = Some off \<longleftrightarrow> (\<exists>a. lookup_account st a = Some (PreRecord off))" for off
  proof
    assume "\<exists>a. lookup_account st a = Some (PreRecord off)"
    then obtain a where "c_lookup (core st) a = Some (PreRecord off)"
      by (auto simp: lookup_core)
    then have "c_find (core st) a = Some off" "map_option acc_addr (c_records (core st) off) = Some a"
      by (auto elim: c_lookup_cases)
    then show "find_pre_account st (acc_addr (record_at st (PreRecord off))) = Some off"
      by (auto simp: find_pre_core record_core)
  qed (auto dest: find_pre_lookup)
  then show ?thesis
    by (simp add: accounts_listed_def)
qed

lemma accounts_listed_extends:
  assumes "extends st st'" "ds_map st' = ds_map st" "ds_n_accounts st' = ds_n_accounts st" "accounts_listed st"
  shows "accounts_listed st'"
proof -
  have "\<exists>a. lookup_account st' a = Some (PreRecord off)" if "\<exists>a. lookup_account st a = Some (PreRecord off)" for off
    using that extends_lookup [OF assms(1)] by blast
  then show ?thesis
    using assms unfolding accounts_listed_iff extends_def by simp
qed

section \<open>The answers\<close>

text \<open>The invariant of a state that blocks are executed on, and what a call of the view keeps of such a state.\<close>

definition view_ok :: "direct_state \<Rightarrow> bool" where
  "view_ok st \<longleftrightarrow> state_ok st \<and> walk_ok st"

definition unchanged :: "direct_state \<Rightarrow> direct_state \<Rightarrow> bool" where
  "unchanged st st' \<longleftrightarrow>
     view_ok st' \<and> abs_state st' = abs_state st \<and> (\<forall>a r. lookup_account st a = Some r \<longrightarrow> lookup_account st' a = Some r) \<and>
     ds_headers st' = ds_headers st \<and> (accounts_listed st \<longrightarrow> accounts_listed st')"

lemma unchanged_refl: "view_ok st \<Longrightarrow> unchanged st st"
  by (simp add: unchanged_def)

lemma unchanged_trans: "unchanged st st' \<Longrightarrow> unchanged st' st'' \<Longrightarrow> unchanged st st''"
  by (simp add: unchanged_def)

lemma unchanged_view_ok: "unchanged st st' \<Longrightarrow> view_ok st'"
  by (simp add: unchanged_def)

lemma handles_ok_unchanged: "unchanged st st' \<Longrightarrow> handles_ok H st \<Longrightarrow> handles_ok H st'"
  by (auto simp: unchanged_def handles_ok_def)

text \<open>The map of the witness, and the fields of the kept walk, which only the block hashes change.\<close>

definition walk_fields :: "direct_state \<Rightarrow> mphf_map \<times> u32 \<times> (bytes32 \<times> block_header) list \<times> bytes32 list \<times> bool" where
  "walk_fields st = (ds_map st, ds_n_accounts st, ds_headers st, ds_ancestors st, ds_ancestors_end st)"

lemma walk_ok_fields: "walk_fields st' = walk_fields st \<Longrightarrow> walk_ok st \<Longrightarrow> walk_ok st'"
  by (simp add: walk_ok_def walk_fields_def)

lemma unchangedI:
  assumes "view_ok st" "state_ok st'" "abs_state st' = abs_state st" "walk_fields st' = walk_fields st" "extends st st'"
  shows "unchanged st st'"
  using assms walk_ok_fields [OF assms(4)] accounts_listed_extends [OF assms(5)] extends_lookup [OF assms(5)]
  by (simp add: unchanged_def view_ok_def) (simp add: walk_fields_def)

lemma set_record_fields [simp]: "walk_fields (set_record r pa st) = walk_fields st"
  by (cases r) (simp_all add: walk_fields_def)

lemma observe_unchanged:
  assumes "view_ok st" "observe_account st a = (r, st')"
  shows "unchanged st st'" "lookup_account st' a = Some r"
proof -
  have "walk_fields st' = walk_fields st"
    using assms(2) by (auto simp: walk_fields_def observe_account_def materialize_absent_account_def split: option.splits if_splits)
  moreover have o: "state_ok st' \<and> abs_state st' = abs_state st \<and> c_lookup (core st') a = Some r \<and>
      (\<forall>b x. c_lookup (core st) b = Some x \<longrightarrow> c_lookup (core st') b = Some x)"
    using assms by (intro observe_account_ok) (simp_all add: view_ok_def)
  ultimately show "unchanged st st'"
    using assms(1) extends_observe(1) [OF assms(2)] by (intro unchangedI) simp_all
  show "lookup_account st' a = Some r"
    by (rule extends_observe [OF assms(2)])
qed

lemma note_absent_read_unchanged:
  assumes "view_ok st" "lookup_account st a = Some r"
  shows "unchanged st (note_absent_read r key st)"
proof -
  have "c_lookup (core st) a = Some r" "state_ok st"
    using assms by (simp_all add: lookup_core view_ok_def)
  moreover have "walk_fields (note_absent_read r key st) = walk_fields st"
    by (simp add: note_absent_read_def Let_def) (simp add: walk_fields_def)
  moreover have "extends st (note_absent_read r key st)"
  proof -
    have "extends (st\<lparr>ds_absent_reads := ar\<rparr>) (set_record r ((record_at st r)\<lparr>acc_absent_reads := k\<rparr>) (st\<lparr>ds_absent_reads := ar\<rparr>))" for ar k
      using extends_lookup [OF extends_fields(10) assms(2)] by (rule extends_set_record) (simp add: record_core)
    then have "extends st (set_record r ((record_at st r)\<lparr>acc_absent_reads := k\<rparr>) (st\<lparr>ds_absent_reads := ar\<rparr>))" for ar k
      by (rule extends_trans [OF extends_fields(10)])
    then show ?thesis
      by (simp add: note_absent_read_def Let_def)
  qed
  ultimately show ?thesis
    using note_absent_read_ok [of st a r key] assms(1) by (intro unchangedI) simp_all
qed

lemma read_storage_at_unchanged:
  assumes "view_ok st" "lookup_account st a = Some r" "length key = 32" "read_storage_at r a key st = (v, st')"
  shows "unchanged st st'" "v = a_storage (acct_or_fresh (abs_state st) a) key"
proof -
  have "st' = st \<or> st' = note_absent_read r key st"
    using read_storage_at_state [of r a key st] assms(4) by simp
  then show "unchanged st st'"
    using note_absent_read_unchanged [OF assms(1,2), of key] unchanged_refl [OF assms(1)] by auto
  show "v = a_storage (acct_or_fresh (abs_state st) a) key"
    using read_storage_at_ok [OF _ _ assms(3,4)] assms(1,2) by (simp add: lookup_core view_ok_def)
qed

lemma read_code_at_unchanged:
  assumes "view_ok st" "read_code_at r st = (code, st')"
  shows "unchanged st st'"
proof -
  have "st' = st \<or> st' = st\<lparr>ds_witness_incomplete := True\<rparr>"
    using assms(2) by (auto simp: read_code_at_def Let_def split: if_splits option.splits)
  moreover have "unchanged st (st\<lparr>ds_witness_incomplete := True\<rparr>)"
    using assms(1) by (intro unchangedI) (simp_all add: view_ok_def state_ok_def abs_state_def lookup_core walk_fields_def)
  ultimately show ?thesis
    using unchanged_refl [OF assms(1)] by auto
qed

lemma read_code_unchanged:
  assumes "view_ok st" "read_code a st = (code, st')"
  shows "unchanged st st'"
proof -
  obtain r st1 where o: "observe_account st a = (r, st1)"
    by fastforce
  then have "unchanged st1 st'"
    using assms(2) unchanged_view_ok [OF observe_unchanged(1) [OF assms(1) o]] read_code_at_unchanged by (auto simp: read_code_def)
  then show ?thesis
    using observe_unchanged(1) [OF assms(1) o] unchanged_trans by blast
qed

lemma read_storage_unchanged:
  assumes "view_ok st" "length key = 32" "read_storage a key st = (v, st')"
  shows "unchanged st st'" "v = a_storage (acct_or_fresh (abs_state st) a) key"
proof -
  obtain r st1 where o: "observe_account st a = (r, st1)"
    by fastforce
  note u = observe_unchanged [OF assms(1) o]
  have "read_storage_at r a key st1 = (v, st')"
    using assms(3) o by (simp add: read_storage_def)
  from read_storage_at_unchanged [OF unchanged_view_ok [OF u(1)] u(2) assms(2) this]
  show "unchanged st st'" "v = a_storage (acct_or_fresh (abs_state st) a) key"
    using u(1) unchanged_trans by (auto simp: unchanged_def)
qed

text \<open>What the answers say of the accounts and of the headers.\<close>

fun answer_right :: "block_header \<Rightarrow> accounts \<Rightarrow> (bytes32 \<times> block_header) list \<Rightarrow> view_call \<Rightarrow> view_answer \<Rightarrow> bool" where
  "answer_right h s headers (GetAccount addr) (AccountAnswer ans) \<longleftrightarrow>
     (case s addr of
        None \<Rightarrow> ans = None
      | Some x \<Rightarrow> (\<exists>va. ans = Some va \<and> va_nonce va = a_nonce x \<and> va_balance va = a_balance x \<and> va_code_hash va = a_code_hash x))"
| "answer_right h s headers (GetCode handle addr) (CodeAnswer code) \<longleftrightarrow> True"
| "answer_right h s headers (GetStorage handle addr key) (WordAnswer v) \<longleftrightarrow> v = a_storage (acct_or_fresh s addr) key"
| "answer_right h s headers (GetBlockHash n) (WordAnswer v) \<longleftrightarrow>
     v \<in> {zero32} \<union> set_option (ancestor_hash headers (parent_hash h) (unat (number h - 1 - n)))"
| "answer_right h s headers _ _ \<longleftrightarrow> False"

lemma get_account_answer:
  assumes "view_ok st" "get_account a st = (ans, st')"
  shows "unchanged st st'" "answer_right h (abs_state st) (ds_headers st) (GetAccount a) (AccountAnswer ans)"
    "\<And>va. ans = Some va \<Longrightarrow> lookup_account st' a = Some (va_handle va)"
proof -
  obtain r st1 where o: "observe_account st a = (r, st1)"
    by fastforce
  note u = observe_unchanged [OF assms(1) o]
  have st': "st' = st1" and ans: "ans = (if acc_deleted (record_at st1 r) then None
      else Some \<lparr>va_nonce = acc_nonce (record_at st1 r), va_balance = acc_balance (record_at st1 r), va_code_hash = acc_code_hash (record_at st1 r),
                 va_has_storage = has_storage_at st1 a (record_at st1 r), va_handle = r\<rparr>)"
    using assms(2) o by (auto simp: get_account_def Let_def)
  show "unchanged st st'" "\<And>va. ans = Some va \<Longrightarrow> lookup_account st' a = Some (va_handle va)"
    using u by (auto simp: st' ans split: if_splits)
  have "abs_state st a = acct_of (record_at st1 r) (map_of (ds_overflow st1) a)"
    using u current_acct [of st1 a r] by (simp add: unchanged_def lookup_core record_core overflow_core)
  then show "answer_right h (abs_state st) (ds_headers st) (GetAccount a) (AccountAnswer ans)"
    by (auto simp: ans acct_of_def)
qed

lemma extend_walk_static:
  "ds_map (snd (extend_walk d st)) = ds_map st \<and> ds_n_accounts (snd (extend_walk d st)) = ds_n_accounts st \<and>
   ds_records (snd (extend_walk d st)) = ds_records st \<and> ds_created (snd (extend_walk d st)) = ds_created st"
proof (induction d st rule: extend_walk.induct)
  case (1 d st)
  show ?case
    using 1 by (subst (1 2 3 4) extend_walk.simps) (auto split: option.split)
qed

lemma get_block_hash_static:
  assumes "get_block_hash h n st = (v, st')"
  shows "ds_map st' = ds_map st \<and> ds_n_accounts st' = ds_n_accounts st \<and> ds_records st' = ds_records st \<and> ds_created st' = ds_created st"
proof -
  let ?d = "unat (number h - 1 - n)"
  have b: "ds_map (begin_walk h st) = ds_map st" "ds_n_accounts (begin_walk h st) = ds_n_accounts st"
    "ds_records (begin_walk h st) = ds_records st" "ds_created (begin_walk h st) = ds_created st"
    by (simp_all add: begin_walk_def)
  show ?thesis
    using assms extend_walk_static [of ?d "begin_walk h st"]
    by (cases "extend_walk ?d (begin_walk h st)") (auto simp: get_block_hash_def b Let_def split: if_splits)
qed

lemma get_block_hash_answer:
  assumes "view_ok st" "get_block_hash h n st = (v, st')"
  shows "unchanged st st'" "answer_right h (abs_state st) (ds_headers st) (GetBlockHash n) (WordAnswer v)"
proof -
  have "accounts_listed st \<longrightarrow> accounts_listed st'"
    using get_block_hash_static [OF assms(2)] accounts_listed_extends [OF extends_cong] by simp
  then show "unchanged st st'"
    using get_block_hash_walk [OF _ assms(2)] assms(1) by (auto simp: unchanged_def view_ok_def state_ok_def abs_state_def lookup_core)
  show "answer_right h (abs_state st) (ds_headers st) (GetBlockHash n) (WordAnswer v)"
    using get_block_hash_walk [OF _ assms(2)] assms(1) by (auto simp: view_ok_def split: option.splits if_splits)
qed

lemma get_account_code_at_answer:
  assumes "view_ok st" "handles_ok H st" "handle_ok H handle a"
  shows "\<exists>code st'. get_account_code_at handle a st = Some (code, st') \<and> unchanged st st'"
proof (cases handle)
  case None
  then show ?thesis
    using read_code_unchanged [OF assms(1), of a] by (cases "read_code a st") (simp add: get_account_code_at_def)
next
  case (Some r)
  then show ?thesis
    using assms read_code_at_unchanged [OF assms(1), of r]
    by (cases "read_code_at r st") (auto simp: get_account_code_at_def check_account_handle_def handles_ok_def)
qed

lemma get_storage_at_answer:
  assumes "view_ok st" "handles_ok H st" "handle_ok H handle a" "length key = 32"
  shows "\<exists>v st'. get_storage_at handle a key st = Some (v, st') \<and> unchanged st st' \<and> v = a_storage (acct_or_fresh (abs_state st) a) key"
proof (cases handle)
  case None
  then show ?thesis
    using read_storage_unchanged [OF assms(1,4), of a] by (cases "read_storage a key st") (simp add: get_storage_at_def)
next
  case (Some r)
  then have l: "lookup_account st a = Some r"
    using assms(2,3) by (auto simp: handles_ok_def)
  then show ?thesis
    using read_storage_at_unchanged [OF assms(1) l assms(4)] Some
    by (cases "read_storage_at r a key st") (simp add: get_storage_at_def check_account_handle_def)
qed

lemma answer_ok:
  assumes "view_ok st" "handles_ok H st" "call_ok H c"
  shows "\<exists>ans st'. answer h c st = Some (ans, st') \<and> unchanged st st' \<and> answer_right h (abs_state st) (ds_headers st) c ans \<and> handles_ok (learned c ans H) st'"
proof (cases c)
  case (GetAccount a)
  obtain ans st' where g: "get_account a st = (ans, st')"
    by fastforce
  note r = get_account_answer [OF assms(1) g]
  have "handles_ok (learned c (AccountAnswer ans) H) st'"
    using r(3) handles_ok_unchanged [OF r(1) assms(2)] by (cases ans) (auto simp: GetAccount handles_ok_def)
  then show ?thesis
    using r(1,2) by (auto simp: GetAccount g)
next
  case (GetCode handle a)
  then show ?thesis
    using get_account_code_at_answer [OF assms(1,2), of handle a] assms handles_ok_unchanged by fastforce
next
  case (GetStorage handle a key)
  then show ?thesis
    using get_storage_at_answer [OF assms(1,2), of handle a key] assms handles_ok_unchanged by fastforce
next
  case (GetBlockHash n)
  obtain v st' where g: "get_block_hash h n st = (v, st')"
    by fastforce
  then show ?thesis
    using get_block_hash_answer [OF assms(1) g] handles_ok_unchanged [OF _ assms(2)] by (auto simp: GetBlockHash)
qed

text \<open>The results that a program may have when it is given right answers about some accounts and headers.\<close>

inductive outcome :: "block_header \<Rightarrow> accounts \<Rightarrow> (bytes32 \<times> block_header) list \<Rightarrow> 'r evm \<Rightarrow> 'r \<Rightarrow> bool" for h s headers where
  return: "outcome h s headers (Return r) r"
| ask: "answer_right h s headers c ans \<Longrightarrow> outcome h s headers (k ans) r \<Longrightarrow> outcome h s headers (Ask c k) r"

inductive_simps outcome_Return: "outcome h s headers (Return r) x"

inductive_cases outcome_AskE: "outcome h s headers (Ask c k) r"

lemma run_ok:
  assumes "view_ok st" "handles_ok H st" "disciplined P H p"
  shows "\<exists>r st' H'. run h p st = Some (r, st') \<and> P H' r \<and> handles_ok H' st' \<and> unchanged st st' \<and> outcome h (abs_state st) (ds_headers st) p r"
  using assms
proof (induction p arbitrary: H st)
  case (Return r)
  then show ?case
    using unchanged_refl by (auto simp: outcome_Return)
next
  case (Ask c k)
  obtain ans st1 where a: "answer h c st = Some (ans, st1)" "unchanged st st1" "answer_right h (abs_state st) (ds_headers st) c ans" "handles_ok (learned c ans H) st1"
    using answer_ok [OF Ask.prems(1,2), of c h] Ask.prems(3) by auto
  have "disciplined P (learned c ans H) (k ans)"
    using Ask.prems(3) by simp
  then obtain r st' H' where r: "run h (k ans) st1 = Some (r, st')" "P H' r" "handles_ok H' st'" "unchanged st1 st'" "outcome h (abs_state st1) (ds_headers st1) (k ans) r"
    using Ask.IH [OF _ unchanged_view_ok [OF a(2)] a(4)] by blast
  then show ?case
    using a unchanged_trans [OF a(2)] by (auto simp: unchanged_def intro: outcome.ask)
qed


text \<open>A program that reads an account and, with its handle, one of its slots.\<close>

definition sample_program :: "bytes32 evm" where
  "sample_program = Ask (GetAccount sample_address) (\<lambda>a. case a of
     AccountAnswer (Some va) \<Rightarrow> Ask (GetStorage (Some (va_handle va)) sample_address sample_key) (\<lambda>w. case w of
       WordAnswer v \<Rightarrow> Return v | _ \<Rightarrow> Return zero32)
   | _ \<Rightarrow> Return zero32)"

lemma sample_view_ok: "view_ok sample_state"
  by (simp add: view_ok_def sample_state_ok) (simp add: walk_ok_def sample_state_def)


end
