(* ===== verification/Receipts.thy ===== *)
theory Receipts
  imports Account Block
begin

text \<open>
  Logs, blooms and receipts (types/log.cpp, types/bloom.cpp, types/receipt.cpp). The receipt encoder sizes its output
  first and then writes it in place, word by word where the source is aligned; it writes the RLP of the receipt.
\<close>

section \<open>Logs\<close>

record log_entry =
  lg_address :: address
  lg_topics :: "bytes32 list"
  lg_data :: bytes

definition log_rlp_header :: "log_entry \<Rightarrow> rlp_header" where
  "log_rlp_header l =
     \<lparr>is_list = True, payload_length = kAddressLength + 1 + length_vector length_bytes (lg_topics l) + length_bytes (lg_data l)\<rparr>"

definition length_log :: "log_entry \<Rightarrow> nat" where
  "length_log l = (let h = log_rlp_header l in length_of_length (payload_length h) + payload_length h)"

definition encode_log :: "log_entry \<Rightarrow> bytes" where
  "encode_log l =
     encode_header (log_rlp_header l) @ encode_bytes (lg_address l) @ encode_vector encode_bytes length_bytes (lg_topics l)
     @ encode_bytes (lg_data l)"

section \<open>Blooms\<close>

definition set_bloom_bit :: "bytes32 \<Rightarrow> bytes \<Rightarrow> nat \<Rightarrow> bytes" where
  "set_bloom_bit hash bloom i =
     (let bit = (unat (hash ! (i + 1)) + unat (hash ! i) * 256) mod 2048;
          k = kBloomByteLength - 1 - bit div 8
      in bloom[k := bloom ! k OR push_bit (bit mod 8) 1])"

definition m3_2048 :: "(bytes \<Rightarrow> bytes32) \<Rightarrow> bytes \<Rightarrow> bytes \<Rightarrow> bytes" where
  "m3_2048 keccak256 bloom x = foldl (set_bloom_bit (keccak256 x)) bloom [0, 2, 4]"

definition logs_bloom_of :: "(bytes \<Rightarrow> bytes32) \<Rightarrow> log_entry list \<Rightarrow> bytes" where
  "logs_bloom_of keccak256 logs =
     foldl (\<lambda>bloom l. foldl (m3_2048 keccak256) (m3_2048 keccak256 bloom (lg_address l)) (lg_topics l))
       (replicate kBloomByteLength 0) logs"

definition join_bloom :: "bytes \<Rightarrow> bytes \<Rightarrow> bytes" where
  "join_bloom acc addend = map2 (OR) acc addend"

section \<open>Receipts\<close>

record receipt =
  rc_type :: transaction_type
  rc_success :: bool
  rc_cumulative_gas_used :: u64
  rc_bloom :: bytes
  rc_logs :: "log_entry list"

definition header_length :: "nat \<Rightarrow> nat" where
  "header_length n =
     (if n < 56 then 1 else if n < 0x100 then 2 else if n < 0x10000 then 3 else if n < 0x1000000 then 4 else length_of_length n)"

definition write_header :: "byte \<Rightarrow> nat \<Rightarrow> bytes" where
  "write_header short_code n =
     (if n < 56 then [short_code + of_nat n]
      else let length_bytes = header_length n - 1
           in (short_code + 55 + of_nat length_bytes) # be_bytes length_bytes n)"

definition log_payload :: "log_entry \<Rightarrow> nat" where
  "log_payload l =
     (let topics = (1 + kHashLength) * length (lg_topics l);
          n = length (lg_data l);
          data = (if n = 1 \<and> hd (lg_data l) < kEmptyStringCode then 1 else header_length n + n)
      in 1 + kAddressLength + header_length topics + topics + data)"

text \<open>
  \<open>copy_words\<close> to a destination that is \<open>off\<close> bytes past a word boundary, from a source that is or is not
  word-aligned.
\<close>

definition copy_words :: "nat \<Rightarrow> bool \<Rightarrow> bytes \<Rightarrow> bytes" where
  "copy_words off aligned src =
     (if \<not> aligned then src
      else if off = 0 then concat (map word_le (hash_words src))
      else let s = hash_words src; lead = 4 - off;
               (words, v) = shift_words (8 * lead) (drop_bit (8 * lead) (hd s)) (tl s)
           in take lead (word_le (hd s)) @ concat (map word_le words) @ take off (word_le v))"

definition gas_bytes :: "u64 \<Rightarrow> nat" where
  "gas_bytes gas =
     (let hi = ucast (drop_bit 32 gas) :: u32; lo = ucast gas :: u32; t = (if hi \<noteq> 0 then hi else lo);
          top_bytes = (if t < 0x100 then 1 else if t < 0x10000 then 2 else if t < 0x1000000 then 3 else 4)
      in if gas < 0x80 then 0 else (if hi \<noteq> 0 then 4 else 0) + top_bytes)"

definition write_gas :: "u64 \<Rightarrow> bytes" where
  "write_gas gas =
     (let hi = ucast (drop_bit 32 gas) :: u32; lo = ucast gas :: u32; t = (if hi \<noteq> 0 then hi else lo);
          top_bytes = (if t < 0x100 then 1 else if t < 0x10000 then 2 else if t < 0x1000000 then 3 else 4)
      in if gas_bytes gas = 0 then [if gas = 0 then kEmptyStringCode else ucast gas]
         else (kEmptyStringCode + of_nat (gas_bytes gas)) # be_bytes top_bytes (unat t)
              @ (if hi \<noteq> 0 then be_bytes 4 (unat lo) else []))"

text \<open>
  The writer appends to what is written; \<open>base\<close> is the address of its start modulo 4, and \<open>al\<close> tells which of the
  arrays it copies from are word-aligned.
\<close>

datatype receipt_field = BloomField | AddressField nat | TopicField nat nat

definition append_words :: "nat \<Rightarrow> bool \<Rightarrow> bytes \<Rightarrow> bytes \<Rightarrow> bytes" where
  "append_words base aligned src out = out @ copy_words ((base + length out) mod 4) aligned src"

fun write_topics :: "nat \<Rightarrow> (receipt_field \<Rightarrow> bool) \<Rightarrow> nat \<Rightarrow> nat \<Rightarrow> bytes32 list \<Rightarrow> bytes \<Rightarrow> bytes" where
  "write_topics base al i j [] out = out"
| "write_topics base al i j (t # ts) out =
     write_topics base al i (j + 1) ts (append_words base (al (TopicField i j)) t (out @ [kEmptyStringCode + of_nat kHashLength]))"

definition write_log :: "nat \<Rightarrow> (receipt_field \<Rightarrow> bool) \<Rightarrow> nat \<Rightarrow> log_entry \<Rightarrow> bytes \<Rightarrow> bytes" where
  "write_log base al i l out =
     (let out = out @ write_header kEmptyListCode (log_payload l);
          out = out @ [kEmptyStringCode + of_nat kAddressLength];
          out = append_words base (al (AddressField i)) (lg_address l) out;
          out = out @ write_header kEmptyListCode ((1 + kHashLength) * length (lg_topics l));
          out = write_topics base al i 0 (lg_topics l) out;
          n = length (lg_data l);
          out = (if n \<noteq> 1 \<or> hd (lg_data l) \<ge> kEmptyStringCode then out @ write_header kEmptyStringCode n else out)
      in out @ lg_data l)"

fun write_logs :: "nat \<Rightarrow> (receipt_field \<Rightarrow> bool) \<Rightarrow> nat \<Rightarrow> log_entry list \<Rightarrow> bytes \<Rightarrow> bytes" where
  "write_logs base al i [] out = out"
| "write_logs base al i (l # ls) out = write_logs base al (i + 1) ls (write_log base al i l out)"

definition logs_payload :: "log_entry list \<Rightarrow> nat" where
  "logs_payload logs = foldl (\<lambda>acc l. let n = log_payload l in acc + header_length n + n) 0 logs"

definition receipt_payload :: "receipt \<Rightarrow> nat" where
  "receipt_payload r =
     (let logs = logs_payload (rc_logs r)
      in 1 + 1 + gas_bytes (rc_cumulative_gas_used r) + 3 + kBloomByteLength + header_length logs + logs)"

text \<open>The bytes the source reserves, and those it writes.\<close>

definition receipt_total :: "receipt \<Rightarrow> nat" where
  "receipt_total r = (if rc_type r \<noteq> kLegacy then 1 else 0) + header_length (receipt_payload r) + receipt_payload r"

definition encode_receipt :: "nat \<Rightarrow> (receipt_field \<Rightarrow> bool) \<Rightarrow> receipt \<Rightarrow> bytes" where
  "encode_receipt base al r =
     (let out = (if rc_type r \<noteq> kLegacy then [rc_type r] else []);
          out = out @ write_header kEmptyListCode (receipt_payload r);
          out = out @ [if rc_success r then 1 else kEmptyStringCode];
          out = out @ write_gas (rc_cumulative_gas_used r);
          out = out @ write_header kEmptyStringCode kBloomByteLength;
          out = append_words base (al BloomField) (rc_bloom r) out;
          out = out @ write_header kEmptyListCode (logs_payload (rc_logs r))
      in write_logs base al 0 (rc_logs r) out)"

section \<open>The RLP of a receipt\<close>

definition receipt_items :: "receipt \<Rightarrow> bytes" where
  "receipt_items r =
     encode_bool (rc_success r) @ encode_uint (rc_cumulative_gas_used r) @ encode_bytes (rc_bloom r)
     @ encode_vector encode_log length_log (rc_logs r)"

definition receipt_rlp :: "receipt \<Rightarrow> bytes" where
  "receipt_rlp r =
     (if rc_type r \<noteq> kLegacy then [rc_type r] else [])
     @ encode_header \<lparr>is_list = True, payload_length = length (receipt_items r)\<rparr> @ receipt_items r"

definition valid_log :: "log_entry \<Rightarrow> bool" where
  "valid_log l \<longleftrightarrow> length (lg_address l) = 20 \<and> (\<forall>t \<in> set (lg_topics l). length t = 32)"

definition valid_receipt :: "receipt \<Rightarrow> bool" where
  "valid_receipt r \<longleftrightarrow> length (rc_bloom r) = kBloomByteLength \<and> (\<forall>l \<in> set (rc_logs r). valid_log l) \<and> length (receipt_items r) < 2 ^ 64"

section \<open>Headers and copies\<close>

lemma sig_bytes_between: "256 ^ k \<le> n \<Longrightarrow> n < 256 ^ Suc k \<Longrightarrow> sig_bytes n = Suc k"
  using sig_bytes_le_iff [of n k] sig_bytes_le_iff [of n "Suc k"] by linarith

lemma sig_bytes_small: "0 < n \<Longrightarrow> n < 0x100 \<Longrightarrow> sig_bytes n = 1" "0x100 \<le> n \<Longrightarrow> n < 0x10000 \<Longrightarrow> sig_bytes n = 2"
  "0x10000 \<le> n \<Longrightarrow> n < 0x1000000 \<Longrightarrow> sig_bytes n = 3" "0x1000000 \<le> n \<Longrightarrow> n < 0x100000000 \<Longrightarrow> sig_bytes n = 4"
  using sig_bytes_between [of 0 n] sig_bytes_between [of 1 n] sig_bytes_between [of 2 n] sig_bytes_between [of 3 n] by simp_all

lemma header_length_eq: "header_length n = length_of_length n"
proof -
  have "count_significant_bytes (of_nat n :: u64) = sig_bytes n" if "n < 0x1000000"
    using that by (simp add: count_significant_bytes_def unat_of_nat_u64)
  then show ?thesis
    using sig_bytes_small [of n] by (auto simp: header_length_def length_of_length_def)
qed

lemma write_header_eq:
  assumes "n < 2 ^ 64"
  shows "write_header kEmptyListCode n = encode_header \<lparr>is_list = True, payload_length = n\<rparr>"
    "write_header kEmptyStringCode n = encode_header \<lparr>is_list = False, payload_length = n\<rparr>"
proof -
  have "header_length n - 1 = sig_bytes n" if "56 \<le> n"
    using that assms by (simp add: header_length_eq length_of_length_def count_significant_bytes_def unat_of_nat_u64)
  then show "write_header kEmptyListCode n = encode_header \<lparr>is_list = True, payload_length = n\<rparr>"
    "write_header kEmptyStringCode n = encode_header \<lparr>is_list = False, payload_length = n\<rparr>"
    using assms by (simp_all add: write_header_def encode_header_short encode_header_long be_compact_def kEmptyListCode_def kEmptyStringCode_def Let_def)
qed

lemma copy_words_eq:
  assumes "length src = 4 * k" "0 < k" "off < 4"
  shows "copy_words off aligned src = src"
proof (cases "aligned \<and> off \<noteq> 0")
  case False
  then show ?thesis
    using word_le_hash_words [OF assms(1)] by (auto simp: copy_words_def)
next
  case True
  define lead where "lead = 4 - off"
  have l: "lead \<in> {1, 2, 3}" "4 - lead = off"
    using True assms(3) by (auto simp: lead_def)
  obtain w ws where w: "hash_words src = w # ws" "concat (map word_le (w # ws)) = src"
    using word_le_hash_words [OF assms(1)] assms(2) by (cases "hash_words src") auto
  obtain out v where sw: "shift_words (8 * lead) (drop_bit (8 * lead) w) ws = (out, v)"
    by fastforce
  have "concat (map word_le out) @ take off (word_le v) = drop lead (word_le w) @ concat (map word_le ws)"
    using shift_words_bytes [OF l(1) sw] by (simp only: l(2))
  then have "take lead (word_le w) @ concat (map word_le out) @ take off (word_le v) = word_le w @ concat (map word_le ws)"
    by (metis append_assoc append_take_drop_id)
  then show ?thesis
    using True w by (simp add: copy_words_def lead_def [symmetric] sw Let_def)
qed

lemma append_words_eq: "length src = 4 * k \<Longrightarrow> 0 < k \<Longrightarrow> append_words base aligned src out = out @ src"
  by (simp add: append_words_def copy_words_eq)

section \<open>The gas\<close>

lemma be_bytes_split: "be_bytes (a + b) n = be_bytes a (n div 256 ^ b) @ be_bytes b n"
  by (induction b arbitrary: n) (simp_all add: div_mult2_eq [symmetric] mult.commute)

lemma be_bytes_mod: "be_bytes b (n mod 256 ^ b) = be_bytes b n"
  by (rule be_bytes_unique) (simp_all add: be_nat_be_bytes)

lemma halves_of_gas:
  "unat (ucast (drop_bit 32 gas) :: u32) = unat (gas :: u64) div 2 ^ 32" "unat (ucast gas :: u32) = unat gas mod 2 ^ 32"
proof -
  have "unat gas div 2 ^ 32 < 2 ^ 32"
    using unsigned_less [of gas, where 'a=nat] by (simp add: less_mult_imp_div_less)
  moreover have "unat (drop_bit 32 gas) = unat gas div 2 ^ 32"
    unfolding unsigned_drop_bit_eq using unsigned_less [of gas, where 'a=nat] by (simp add: drop_bit_eq_div take_bit_nat_eq_self)
  ultimately show "unat (ucast (drop_bit 32 gas) :: u32) = unat gas div 2 ^ 32"
    by (simp add: unsigned_ucast_eq take_bit_eq_mod)
  show "unat (ucast gas :: u32) = unat gas mod 2 ^ 32"
    by (simp add: unsigned_ucast_eq take_bit_eq_mod)
qed

lemma u32_top_bytes:
  "0 < t \<Longrightarrow> (if t < 0x100 then 1 else if t < 0x10000 then 2 else if t < 0x1000000 then 3 else 4) = sig_bytes (unat (t :: u32))"
  using sig_bytes_small [of "unat t"] unsigned_less [of t]
  by (auto simp: word_less_nat_alt not_less)

lemma sig_bytes_split:
  assumes "0 < n div 2 ^ 32"
  shows "sig_bytes n = sig_bytes (n div 2 ^ 32) + 4"
proof -
  have p: "0 < n" "0 < n div 256" "0 < n div 256 div 256" "0 < n div 256 div 256 div 256"
    using assms by (auto simp: div_mult2_eq [symmetric] div_greater_zero_iff)
  have "n div 256 div 256 div 256 div 256 = n div 2 ^ 32"
    by (simp add: div_mult2_eq [symmetric])
  then show ?thesis
    using p by (simp add: sig_bytes_pos)
qed

lemma gas_bytes_eq: "gas_bytes gas = (if gas < 0x80 then 0 else sig_bytes (unat gas))"
proof (cases "ucast (drop_bit 32 gas) = (0 :: u32)")
  case True
  then have "unat gas div 2 ^ 32 = 0" "unat (ucast gas :: u32) = unat gas"
    using halves_of_gas [of gas] by (metis unat_0, metis div_eq_0_iff mod_less unat_0 power_not_zero zero_neq_numeral)
  moreover have "0 < (ucast gas :: u32)" if "\<not> gas < 0x80"
    using that calculation(2) by (simp add: word_less_nat_alt not_less)
  ultimately show ?thesis
    using True u32_top_bytes [of "ucast gas"] by (auto simp: gas_bytes_def Let_def)
next
  case False
  then have "0 < (ucast (drop_bit 32 gas) :: u32)" "0 < unat (ucast (drop_bit 32 gas) :: u32)"
    by (simp_all add: word_neq_0_conv unat_gt_0)
  moreover from this(2) have "0 < unat gas div 2 ^ 32"
    by (simp only: halves_of_gas(1))
  ultimately show ?thesis
    using False sig_bytes_split [of "unat gas"] u32_top_bytes [of "ucast (drop_bit 32 gas)"] halves_of_gas(1) [of gas]
    by (auto simp: gas_bytes_def Let_def split: if_splits)
qed

lemma write_gas_eq: "write_gas gas = encode_uint gas"
proof (cases "gas < 0x80")
  case True
  then show ?thesis
    by (simp add: write_gas_def encode_uint_def gas_bytes_def Let_def)
next
  case False
  define hi lo where "hi = (ucast (drop_bit 32 gas) :: u32)" and "lo = (ucast gas :: u32)"
  have g: "unat hi = unat gas div 2 ^ 32" "unat lo = unat gas mod 2 ^ 32"
    unfolding hi_def lo_def by (rule halves_of_gas)+
  define t where "t = (if hi \<noteq> 0 then hi else lo)"
  have z: "gas_bytes gas = sig_bytes (unat gas)" "0 < unat gas" "gas \<noteq> 0"
    using False by (auto simp: gas_bytes_eq word_less_nat_alt not_less)
  have body: "be_bytes (sig_bytes (unat t)) (unat t) @ (if hi \<noteq> 0 then be_bytes 4 (unat lo) else []) = be_compact (unat gas)"
  proof (cases "hi = 0")
    case True
    then have "unat lo = unat gas"
      using g by (metis div_eq_0_iff mod_less unat_0 power_not_zero zero_neq_numeral)
    then show ?thesis
      using True by (simp add: t_def be_compact_def)
  next
    case False
    then have "0 < unat hi"
      by (simp add: word_neq_0_conv unat_gt_0)
    then have "0 < unat gas div 2 ^ 32"
      by (simp only: g)
    then have "be_compact (unat gas) = be_bytes (sig_bytes (unat hi) + 4) (unat gas)"
      by (simp only: be_compact_def sig_bytes_split g)
    also have "\<dots> = be_bytes (sig_bytes (unat hi)) (unat hi) @ be_bytes 4 (unat lo)"
      using be_bytes_mod [of 4 "unat gas"] by (simp add: be_bytes_split g)
    finally show ?thesis
      using False by (simp add: t_def)
  qed
  have "t \<noteq> 0"
  proof
    assume "t = 0"
    then have "unat hi = 0" "unat lo = 0"
      by (auto simp: t_def split: if_splits)
    then show False
      using z(2) g div_mult_mod_eq [of "unat gas" "2 ^ 32"] by simp
  qed
  then have "0 < t"
    by (simp add: word_neq_0_conv)
  then have "write_gas gas = (kEmptyStringCode + of_nat (sig_bytes (unat gas))) # be_compact (unat gas)"
    unfolding write_gas_def Let_def hi_def [symmetric] lo_def [symmetric]
    unfolding t_def [symmetric] z(1) body u32_top_bytes [OF \<open>0 < t\<close>] using z(2) by simp
  also have "\<dots> = encode_uint_into gas"
    using z False by (simp add: encode_uint_into_def to_big_compact_eq Let_def be_compact_def)
  finally show ?thesis
    by (simp add: encode_uint_into_u64)
qed

section \<open>Logs\<close>

lemma encode_log_length [length_laws]:
  assumes "length (lg_address l) = kAddressLength"
  shows "length (encode_log l) = length_log l"
proof -
  have "length (encode_vector encode_bytes length_bytes (lg_topics l)) = length_vector length_bytes (lg_topics l)"
    by (simp add: encode_vector_length encode_bytes_length)
  moreover have "length (encode_bytes (lg_address l)) = kAddressLength + 1"
    using assms by (simp add: encode_bytes_length length_bytes_short kAddressLength_def)
  ultimately show ?thesis
    by (simp add: encode_log_def length_log_def log_rlp_header_def encode_header_length encode_bytes_length Let_def)
qed

lemma log_payload_eq: "valid_log l \<Longrightarrow> log_payload l = payload_length (log_rlp_header l)"
proof -
  assume "valid_log l"
  then have "map length_bytes (lg_topics l) = map (\<lambda>t. 33) (lg_topics l)"
    by (simp add: valid_log_def length_bytes_short)
  then have "length_items length_bytes (lg_topics l) = 33 * length (lg_topics l)"
    by (simp only: length_items_eq sum_list_triv) simp
  then show ?thesis
    by (auto simp: log_payload_def log_rlp_header_def length_vector_def header_length_eq length_bytes_def kHashLength_def Let_def not_less)
qed

lemma write_topics_eq:
  "(\<forall>t \<in> set ts. length t = 32) \<Longrightarrow> write_topics base al i j ts out = out @ encode_items encode_bytes ts"
proof (induction ts arbitrary: j out)
  case (Cons t ts)
  then have "encode_bytes t = (kEmptyStringCode + of_nat kHashLength) # t"
    by (simp add: encode_bytes_def encode_header_short kEmptyStringCode_def kHashLength_def)
  then show ?case
    using Cons by (simp add: append_words_eq [where k=8])
qed simp

lemma write_log_eq:
  assumes "valid_log l" "length_log l < 2 ^ 64"
  shows "write_log base al i l out = out @ encode_log l"
proof -
  let ?n = "payload_length (log_rlp_header l)" and ?t = "length_items length_bytes (lg_topics l)"
  have v: "length (lg_address l) = 4 * 5" "\<forall>t \<in> set (lg_topics l). length t = 32"
    using assms(1) by (simp_all add: valid_log_def)
  have n: "?n < 2 ^ 64" "length (lg_data l) < 2 ^ 64" "?t < 2 ^ 64"
    using assms(2) length_bytes_bounds [of "lg_data l"]
    by (simp_all add: length_log_def log_rlp_header_def length_vector_def Let_def)
  have "map length_bytes (lg_topics l) = map (\<lambda>t. 33) (lg_topics l)"
    using v(2) by (simp add: length_bytes_short)
  then have t: "(1 + kHashLength) * length (lg_topics l) = ?t"
    by (simp only: length_items_eq sum_list_triv) (simp add: kHashLength_def)
  have a: "encode_bytes (lg_address l) = (kEmptyStringCode + of_nat kAddressLength) # lg_address l"
    using v(1) by (simp add: encode_bytes_def encode_header_short kEmptyStringCode_def kAddressLength_def)
  have d: "(if length (lg_data l) \<noteq> 1 \<or> hd (lg_data l) \<ge> kEmptyStringCode
      then o' @ write_header kEmptyStringCode (length (lg_data l)) else o') @ lg_data l = o' @ encode_bytes (lg_data l)" for o'
    by (simp add: encode_bytes_def write_header_eq [OF n(2)])
  have h: "log_rlp_header l = \<lparr>is_list = True, payload_length = ?n\<rparr>"
    by (simp add: log_rlp_header_def)
  show ?thesis
    unfolding write_log_def Let_def t log_payload_eq [OF assms(1)] append_words_eq [OF v(1), simplified] write_topics_eq [OF v(2)] d
    by (simp add: encode_log_def a write_header_eq [OF n(1)] write_header_eq [OF n(3)] encode_vector_def flip: h)
qed

lemma length_items_ge: "x \<in> set v \<Longrightarrow> len x \<le> length_items len v"
  by (simp add: length_items_eq member_le_sum_list)

lemma write_logs_eq:
  "(\<forall>l \<in> set ls. valid_log l \<and> length_log l < 2 ^ 64) \<Longrightarrow> write_logs base al i ls out = out @ encode_items encode_log ls"
  by (induction ls arbitrary: i out) (simp_all add: write_log_eq)

lemma logs_payload_eq:
  assumes "\<forall>l \<in> set ls. valid_log l"
  shows "logs_payload ls = length_items length_log ls"
proof -
  have "foldl (\<lambda>acc l. let n = log_payload l in acc + header_length n + n) k ls = k + sum_list (map length_log ls)" for k
    using assms by (induction ls arbitrary: k) (auto simp: log_payload_eq header_length_eq length_log_def Let_def)
  then show ?thesis
    by (simp add: logs_payload_def length_items_eq)
qed

section \<open>Receipts\<close>

lemma receipt_payload_eq:
  assumes "length (rc_bloom r) = kBloomByteLength" "\<forall>l \<in> set (rc_logs r). valid_log l"
  shows "receipt_payload r = length (receipt_items r)"
proof -
  have "length (encode_uint (rc_cumulative_gas_used r)) = 1 + gas_bytes (rc_cumulative_gas_used r)"
    using sig_bytes_unat_le [of "rc_cumulative_gas_used r"]
    by (simp add: encode_uint_length length_uint_def gas_bytes_eq count_significant_bytes_def length_of_length_def Let_def)
  moreover have "length (encode_vector encode_log length_log (rc_logs r)) = length_vector length_log (rc_logs r)"
    using assms(2) by (intro encode_vector_length) (simp add: encode_log_length valid_log_def kAddressLength_def)
  moreover have "length (encode_bytes (rc_bloom r)) = 3 + kBloomByteLength"
    using assms(1) by (simp add: encode_bytes_length length_bytes_def length_of_length_def kBloomByteLength_def count_significant_bytes_def)
  ultimately show ?thesis
    using logs_payload_eq [OF assms(2)]
    by (simp add: receipt_payload_def receipt_items_def encode_bool_def header_length_eq length_vector_def Let_def)
qed

lemma encode_receipt_eq:
  assumes "valid_receipt r"
  shows "encode_receipt base al r = receipt_rlp r" "length (encode_receipt base al r) = receipt_total r"
proof -
  have v: "length (rc_bloom r) = 4 * 64" "\<forall>l \<in> set (rc_logs r). valid_log l" "length (receipt_items r) < 2 ^ 64"
    using assms by (simp_all add: valid_receipt_def kBloomByteLength_def)
  have p: "receipt_payload r = length (receipt_items r)"
    using v by (intro receipt_payload_eq) (simp_all add: kBloomByteLength_def)
  then have n: "length_items length_log (rc_logs r) < 2 ^ 64"
    using v(3) logs_payload_eq [OF v(2)] by (simp add: receipt_payload_def Let_def)
  have "length_log l < 2 ^ 64" if "l \<in> set (rc_logs r)" for l
    using length_items_ge [OF that, of length_log] n by linarith
  then have l: "\<forall>l \<in> set (rc_logs r). valid_log l \<and> length_log l < 2 ^ 64"
    using v(2) by blast
  have b: "encode_bytes (rc_bloom r) = write_header kEmptyStringCode kBloomByteLength @ rc_bloom r"
    using v(1) by (simp add: encode_bytes_def kBloomByteLength_def write_header_eq)
  show e: "encode_receipt base al r = receipt_rlp r"
    unfolding encode_receipt_def Let_def append_words_eq [OF v(1), simplified] write_logs_eq [OF l] write_gas_eq p logs_payload_eq [OF v(2)]
      write_header_eq(1) [OF v(3)]
    by (simp add: receipt_rlp_def receipt_items_def encode_bool_def b write_header_eq [OF n] encode_vector_def)
  show "length (encode_receipt base al r) = receipt_total r"
    by (simp add: e receipt_rlp_def receipt_total_def p header_length_eq encode_header_length)
qed

text \<open>
  C13: The one-pass receipt encoder writes, whatever the alignment of its output and of the arrays it copies, the RLP of
  the receipt, preceded by its type unless it is a legacy one, and exactly as many bytes as it has reserved.
\<close>

theorem encode_receipt_correct:
  assumes "valid_receipt r"
  shows "encode_receipt base al r = receipt_rlp r \<and> length (encode_receipt base al r) = receipt_total r"
  using encode_receipt_eq [OF assms] by simp

definition sample_receipt :: receipt where
  "sample_receipt =
     \<lparr>rc_type = 2, rc_success = True, rc_cumulative_gas_used = 0x5208, rc_bloom = replicate 256 0,
      rc_logs = [\<lparr>lg_address = replicate 20 7, lg_topics = [replicate 32 9], lg_data = [1, 2, 3]\<rparr>]\<rparr>"

theorem encode_receipt_correct_witness:
  "valid_receipt sample_receipt \<and> length (encode_receipt 1 (\<lambda>_. True) sample_receipt) = 330"
proof -
  have "length (rc_bloom sample_receipt) = kBloomByteLength" "\<forall>l \<in> set (rc_logs sample_receipt). valid_log l"
    by (simp_all add: sample_receipt_def kBloomByteLength_def valid_log_def)
  moreover have t: "receipt_payload sample_receipt = 326" "receipt_total sample_receipt = 330"
    by (simp_all add: receipt_payload_def receipt_total_def sample_receipt_def gas_bytes_def logs_payload_def log_payload_def header_length_def
        kBloomByteLength_def kAddressLength_def kHashLength_def Let_def)
  ultimately have "valid_receipt sample_receipt"
    using receipt_payload_eq [of sample_receipt] by (simp add: valid_receipt_def)
  then show ?thesis
    using encode_receipt_correct [of sample_receipt 1 "\<lambda>_. True"] t(2) by metis
qed

section \<open>What a bloom holds\<close>

definition bloom_bit :: "bytes \<Rightarrow> nat \<Rightarrow> bool" where
  "bloom_bit bloom b = bit (bloom ! (kBloomByteLength - 1 - b div 8)) (b mod 8)"

definition hash_bit :: "bytes32 \<Rightarrow> nat \<Rightarrow> nat" where
  "hash_bit h i = (unat (h ! (i + 1)) + unat (h ! i) * 256) mod 2048"

text \<open>The bits that an entry, and the address and topics of a log, set.\<close>

definition entry_bits :: "(bytes \<Rightarrow> bytes32) \<Rightarrow> bytes \<Rightarrow> nat set" where
  "entry_bits keccak256 x = hash_bit (keccak256 x) ` {0, 2, 4}"

definition log_bits :: "(bytes \<Rightarrow> bytes32) \<Rightarrow> log_entry \<Rightarrow> nat set" where
  "log_bits keccak256 l = (\<Union>x \<in> set (lg_address l # lg_topics l). entry_bits keccak256 x)"

lemma set_bloom_bit_length [simp]: "length (set_bloom_bit h bloom i) = length bloom"
  by (simp add: set_bloom_bit_def Let_def)

lemma set_bloom_bit_bit:
  assumes "length bloom = kBloomByteLength" "b < 2048"
  shows "bloom_bit (set_bloom_bit h bloom i) b \<longleftrightarrow> bloom_bit bloom b \<or> b = hash_bit h i"
proof -
  define c where "c = hash_bit h i"
  have c: "c < 2048" "c div 8 < 256" "b div 8 < 256"
    using assms(2) by (simp_all add: c_def hash_bit_def)
  have "set_bloom_bit h bloom i = bloom[255 - c div 8 := bloom ! (255 - c div 8) OR push_bit (c mod 8) 1]"
    by (simp add: set_bloom_bit_def c_def hash_bit_def kBloomByteLength_def Let_def)
  moreover have "255 - c div 8 = 255 - b div 8 \<longleftrightarrow> c div 8 = b div 8"
    using c by linarith
  moreover have "c = b \<longleftrightarrow> c div 8 = b div 8 \<and> c mod 8 = b mod 8"
    by (metis div_mult_mod_eq)
  moreover have "bit (push_bit (c mod 8) (1 :: byte)) (b mod 8) \<longleftrightarrow> c mod 8 = b mod 8"
    by (auto simp: bit_simps)
  ultimately show ?thesis
    using assms(1) by (auto simp: bloom_bit_def nth_list_update bit_or_iff kBloomByteLength_def c_def [symmetric])
qed

lemma m3_2048_bit:
  assumes "length bloom = kBloomByteLength" "b < 2048"
  shows "bloom_bit (m3_2048 keccak256 bloom x) b \<longleftrightarrow> bloom_bit bloom b \<or> b \<in> entry_bits keccak256 x"
    "length (m3_2048 keccak256 bloom x) = kBloomByteLength"
  using assms by (auto simp: m3_2048_def set_bloom_bit_bit entry_bits_def)

lemma m3_2048_fold:
  assumes "length bloom = kBloomByteLength" "b < 2048"
  shows "(bloom_bit (foldl (m3_2048 keccak256) bloom xs) b \<longleftrightarrow> bloom_bit bloom b \<or> (\<exists>x \<in> set xs. b \<in> entry_bits keccak256 x)) \<and>
    length (foldl (m3_2048 keccak256) bloom xs) = kBloomByteLength"
  using assms by (induction xs arbitrary: bloom) (auto simp: m3_2048_bit)

lemma logs_fold:
  assumes "length bloom = kBloomByteLength" "b < 2048"
  shows "(bloom_bit (foldl (\<lambda>bloom l. foldl (m3_2048 keccak256) (m3_2048 keccak256 bloom (lg_address l)) (lg_topics l)) bloom logs) b
      \<longleftrightarrow> bloom_bit bloom b \<or> (\<exists>l \<in> set logs. b \<in> log_bits keccak256 l)) \<and>
    length (foldl (\<lambda>bloom l. foldl (m3_2048 keccak256) (m3_2048 keccak256 bloom (lg_address l)) (lg_topics l)) bloom logs) = kBloomByteLength"
  using assms
proof (induction logs arbitrary: bloom)
  case (Cons l logs)
  define bl where "bl = foldl (m3_2048 keccak256) (m3_2048 keccak256 bloom (lg_address l)) (lg_topics l)"
  have "length bl = kBloomByteLength" "bloom_bit bl b \<longleftrightarrow> bloom_bit bloom b \<or> b \<in> log_bits keccak256 l"
    using m3_2048_fold [of "m3_2048 keccak256 bloom (lg_address l)" b keccak256 "lg_topics l"] m3_2048_bit [OF Cons.prems] Cons.prems
    by (auto simp: bl_def log_bits_def)
  then show ?case
    using Cons.IH [of bl] Cons.prems by (auto simp: bl_def)
qed simp

lemma bloom_bit_zero: "b < 2048 \<Longrightarrow> \<not> bloom_bit (replicate kBloomByteLength 0) b"
  by (simp add: bloom_bit_def kBloomByteLength_def)

lemma logs_bloom_bits:
  "b < 2048 \<Longrightarrow> bloom_bit (logs_bloom_of keccak256 logs) b \<longleftrightarrow> (\<exists>l \<in> set logs. b \<in> log_bits keccak256 l)"
  "length (logs_bloom_of keccak256 logs) = kBloomByteLength"
  using logs_fold [of "replicate kBloomByteLength 0" b keccak256 logs] logs_fold [of "replicate kBloomByteLength 0" 0 keccak256 logs]
  by (auto simp: logs_bloom_of_def bloom_bit_zero)

lemma join_bloom_bits:
  assumes "length x = kBloomByteLength" "length y = kBloomByteLength"
  shows "length (join_bloom x y) = kBloomByteLength" "b < 2048 \<Longrightarrow> bloom_bit (join_bloom x y) b \<longleftrightarrow> bloom_bit x b \<or> bloom_bit y b"
  using assms by (simp_all add: bloom_bit_def join_bloom_def bit_or_iff kBloomByteLength_def)

lemma bloom_eqI:
  assumes "length x = kBloomByteLength" "length y = kBloomByteLength" "\<And>b. b < 2048 \<Longrightarrow> bloom_bit x b = bloom_bit y b"
  shows "x = y"
proof (rule nth_equalityI)
  fix k assume "k < length x"
  then have k: "k < 256" using assms(1) by (simp add: kBloomByteLength_def)
  show "x ! k = y ! k"
  proof (rule bit_eqI)
    fix n assume "possible_bit TYPE(byte) n"
    then have "n < 8" by simp
    then have "(255 - k) * 8 + n < 2048" "255 - ((255 - k) * 8 + n) div 8 = k" "((255 - k) * 8 + n) mod 8 = n"
      using k by simp_all
    then show "bit (x ! k) n = bit (y ! k) n"
      using assms(3) [of "(255 - k) * 8 + n"] by (simp add: bloom_bit_def kBloomByteLength_def)
  qed
qed (simp add: assms)

lemma join_bloom_logs: "join_bloom (logs_bloom_of keccak256 xs) (logs_bloom_of keccak256 ys) = logs_bloom_of keccak256 (xs @ ys)"
  by (rule bloom_eqI) (auto simp: logs_bloom_bits join_bloom_bits)

lemma logs_bloom_Nil: "logs_bloom_of keccak256 [] = replicate kBloomByteLength 0"
  by (simp add: logs_bloom_of_def)

text \<open>
  C39: A bit of the bloom of a list of logs is set exactly when the address or a topic of one of the logs hashes to it, and
  joining the blooms of two lists gives the bloom of the logs of both.
\<close>

theorem logs_bloom_exact:
  "(bloom_bit (logs_bloom_of keccak256 logs) b \<longleftrightarrow> (\<exists>l \<in> set logs. \<exists>x \<in> set (lg_address l # lg_topics l). b \<in> entry_bits keccak256 x)) \<and>
   join_bloom (logs_bloom_of keccak256 logs) (logs_bloom_of keccak256 logs') = logs_bloom_of keccak256 (logs @ logs')"
  if "b < 2048"
  using logs_bloom_bits(1) [OF that, of keccak256 logs] join_bloom_logs [of keccak256 logs logs'] by (simp add: log_bits_def)

theorem logs_bloom_exact_witness:
  "bloom_bit (logs_bloom_of (\<lambda>x. x) [\<lparr>lg_address = [1, 2, 3, 4, 5, 6] @ replicate 14 0, lg_topics = [], lg_data = []\<rparr>]) 258"
  using logs_bloom_exact [of 258 "\<lambda>x. x" "[\<lparr>lg_address = [1, 2, 3, 4, 5, 6] @ replicate 14 0, lg_topics = [], lg_data = []\<rparr>]" "[]"]
  by (simp add: entry_bits_def hash_bit_def)

end
