(* ===== verification/Requests.thy ===== *)
theory Requests
  imports Receipts
begin

text \<open>
  Execution-layer requests (types/eip_7685_requests.cpp): the deposits of the logs of the deposit contract (EIP-6110) and
  the hash that commits to all the requests (EIP-7685). SHA-256 is a parameter.
\<close>

section \<open>Deposits\<close>

definition pad_to_words :: "nat \<Rightarrow> nat" where
  "pad_to_words n = (n + 31) div 32 * 32"

definition WORD :: nat where
  "WORD = 32"

definition read_word_as_size :: "bytes \<Rightarrow> nat \<Rightarrow> nat option" where
  "read_word_as_size data pos = (let v = be_nat (take 32 (drop pos data)) in if v > 0xFFFFFFFF then None else Some v)"

definition PUBKEY_OFFSET :: nat where
  "PUBKEY_OFFSET = WORD * 5"

definition PUBKEY_SIZE :: nat where
  "PUBKEY_SIZE = 48"

definition WITHDRAWAL_OFFSET :: nat where
  "WITHDRAWAL_OFFSET = PUBKEY_OFFSET + WORD + pad_to_words PUBKEY_SIZE"

definition WITHDRAWAL_SIZE :: nat where
  "WITHDRAWAL_SIZE = 32"

definition AMOUNT_OFFSET :: nat where
  "AMOUNT_OFFSET = WITHDRAWAL_OFFSET + WORD + pad_to_words WITHDRAWAL_SIZE"

definition AMOUNT_SIZE :: nat where
  "AMOUNT_SIZE = 8"

definition SIGNATURE_OFFSET :: nat where
  "SIGNATURE_OFFSET = AMOUNT_OFFSET + WORD + pad_to_words AMOUNT_SIZE"

definition SIGNATURE_SIZE :: nat where
  "SIGNATURE_SIZE = 96"

definition INDEX_OFFSET :: nat where
  "INDEX_OFFSET = SIGNATURE_OFFSET + WORD + pad_to_words SIGNATURE_SIZE"

definition INDEX_SIZE :: nat where
  "INDEX_SIZE = 8"

definition EXPECTED_OFFSETS :: "nat list" where
  "EXPECTED_OFFSETS = [PUBKEY_OFFSET, WITHDRAWAL_OFFSET, AMOUNT_OFFSET, SIGNATURE_OFFSET, INDEX_OFFSET]"

definition validate_size_at :: "bytes \<Rightarrow> nat \<Rightarrow> nat \<Rightarrow> bool" where
  "validate_size_at data pos expected_size \<longleftrightarrow> read_word_as_size data pos = Some expected_size"

fun read_offsets :: "bytes \<Rightarrow> nat list \<Rightarrow> nat list option" where
  "read_offsets data [] = Some []"
| "read_offsets data (i # is) =
     (case read_word_as_size data (i * WORD) of None \<Rightarrow> None | Some w \<Rightarrow> map_option ((#) w) (read_offsets data is))"

definition field_at :: "bytes \<Rightarrow> nat \<Rightarrow> nat \<Rightarrow> bytes" where
  "field_at data pos n = take n (drop (pos + WORD) data)"

definition extract_deposit :: "bytes \<Rightarrow> bytes option" where
  "extract_deposit data =
     (if length data \<noteq> 576 then None
      else case read_offsets data [0..<5] of
        None \<Rightarrow> None
      | Some offsets \<Rightarrow>
          if offsets \<noteq> EXPECTED_OFFSETS then None
          else if \<not> validate_size_at data PUBKEY_OFFSET PUBKEY_SIZE \<or> \<not> validate_size_at data WITHDRAWAL_OFFSET WITHDRAWAL_SIZE \<or>
                  \<not> validate_size_at data AMOUNT_OFFSET AMOUNT_SIZE \<or> \<not> validate_size_at data SIGNATURE_OFFSET SIGNATURE_SIZE \<or>
                  \<not> validate_size_at data INDEX_OFFSET INDEX_SIZE
          then None
          else Some (field_at data PUBKEY_OFFSET PUBKEY_SIZE @ field_at data WITHDRAWAL_OFFSET WITHDRAWAL_SIZE
                     @ field_at data AMOUNT_OFFSET AMOUNT_SIZE @ field_at data SIGNATURE_OFFSET SIGNATURE_SIZE
                     @ field_at data INDEX_OFFSET INDEX_SIZE))"

section \<open>Requests\<close>

datatype flat_request_type = KDepositRequest | KWithdrawalRequest | KConsolidationRequest | KBuilderDepositRequest | KBuilderExitRequest

fun enum_integer :: "flat_request_type \<Rightarrow> nat" where
  "enum_integer KDepositRequest = 0"
| "enum_integer KWithdrawalRequest = 1"
| "enum_integer KConsolidationRequest = 2"
| "enum_integer KBuilderDepositRequest = 3"
| "enum_integer KBuilderExitRequest = 4"

definition enum_values :: "flat_request_type list" where
  "enum_values = [KDepositRequest, KWithdrawalRequest, KConsolidationRequest, KBuilderDepositRequest, KBuilderExitRequest]"

type_synonym flat_requests = "bytes list"

definition no_requests :: flat_requests where
  "no_requests = replicate (length enum_values) []"

definition add_request :: "flat_request_type \<Rightarrow> bytes \<Rightarrow> flat_requests \<Rightarrow> flat_requests" where
  "add_request t data rq = rq[enum_integer t := rq ! enum_integer t @ data]"

definition kDepositContractAddress :: address where
  "kDepositContractAddress =
     [0x00, 0x00, 0x00, 0x00, 0x21, 0x9a, 0xb5, 0x40, 0x35, 0x6c, 0xbb, 0x83, 0x9c, 0xbe, 0x05, 0x30, 0x3d, 0x77, 0x05, 0xfa]"

definition kDepositEventSignatureHash :: bytes32 where
  "kDepositEventSignatureHash =
     [0x64, 0x9b, 0xbc, 0x62, 0xd0, 0xe3, 0x13, 0x42, 0xaf, 0xea, 0x4e, 0x5c, 0xd8, 0x2d, 0x40, 0x49,
      0xe7, 0xe1, 0xee, 0x91, 0x2f, 0xc0, 0x88, 0x9a, 0xa7, 0x90, 0x80, 0x3b, 0xe3, 0x90, 0x38, 0xc5]"

definition is_deposit_event :: "log_entry \<Rightarrow> bool" where
  "is_deposit_event l \<longleftrightarrow>
     lg_address l = kDepositContractAddress \<and> (case lg_topics l of [] \<Rightarrow> False | t # _ \<Rightarrow> t = kDepositEventSignatureHash)"

fun extract_deposits_from_logs :: "log_entry list \<Rightarrow> flat_requests \<Rightarrow> bool \<times> flat_requests" where
  "extract_deposits_from_logs [] rq = (True, rq)"
| "extract_deposits_from_logs (l # ls) rq =
     (if is_deposit_event l
      then case extract_deposit (lg_data l) of
             None \<Rightarrow> (False, rq)
           | Some d \<Rightarrow> extract_deposits_from_logs ls (add_request KDepositRequest d rq)
      else extract_deposits_from_logs ls rq)"

definition calculate_sha256 :: "(bytes \<Rightarrow> bytes32) \<Rightarrow> flat_requests \<Rightarrow> bytes32" where
  "calculate_sha256 sha256 rq =
     sha256 (concat (map (\<lambda>t. if rq ! enum_integer t \<noteq> [] then sha256 (of_nat (enum_integer t) # rq ! enum_integer t) else [])
       enum_values))"

section \<open>The layout of a deposit event\<close>

text \<open>The ABI encoding of the five fields; the code does not look at the bytes that pad them to whole words.\<close>

definition deposit_abi :: "bytes \<Rightarrow> bytes \<Rightarrow> bytes \<Rightarrow> bytes \<Rightarrow> bytes \<Rightarrow> bytes \<Rightarrow> bytes \<Rightarrow> bytes \<Rightarrow> bytes" where
  "deposit_abi pubkey credentials amnt sig idx pad1 pad2 pad3 =
     concat (map (be_bytes 32) [160, 256, 320, 384, 512])
     @ be_bytes 32 48 @ pubkey @ pad1 @ be_bytes 32 32 @ credentials @ be_bytes 32 8 @ amnt @ pad2
     @ be_bytes 32 96 @ sig @ be_bytes 32 8 @ idx @ pad3"

lemmas deposit_layout = PUBKEY_OFFSET_def PUBKEY_SIZE_def WITHDRAWAL_OFFSET_def WITHDRAWAL_SIZE_def AMOUNT_OFFSET_def AMOUNT_SIZE_def
  SIGNATURE_OFFSET_def SIGNATURE_SIZE_def INDEX_OFFSET_def INDEX_SIZE_def WORD_def pad_to_words_def

lemma split_by_lengths: "length xs = sum_list ns \<Longrightarrow> \<exists>yss. xs = concat yss \<and> map length yss = ns"
proof (induction ns arbitrary: xs)
  case (Cons n ns)
  then obtain yss where "drop n xs = concat yss" "map length yss = ns"
    using Cons.IH [of "drop n xs"] by fastforce
  then show ?case
    using Cons.prems by (intro exI [of _ "take n xs # yss"]) (simp flip: \<open>drop n xs = concat yss\<close>)
qed simp

lemma be_nat_word: "length w = 32 \<Longrightarrow> n < 2 ^ 32 \<Longrightarrow> be_nat w = n \<longleftrightarrow> w = be_bytes 32 n"
  by (auto simp: be_nat_be_bytes) (metis be_bytes_be_nat)

lemma read_word_eq:
  "pos + 32 \<le> length data \<Longrightarrow> n < 2 ^ 32 \<Longrightarrow> read_word_as_size data pos = Some n \<longleftrightarrow> take 32 (drop pos data) = be_bytes 32 n"
  using be_nat_word [of "take 32 (drop pos data)" n] by (auto simp: read_word_as_size_def Let_def)

lemma read_offsets_eq: "read_offsets data is = Some os \<longleftrightarrow> map (\<lambda>i. read_word_as_size data (i * WORD)) is = map Some os"
  by (induction "is" arbitrary: os) (auto split: option.splits)

lemma deposit_segments:
  assumes "length data = 576"
  obtains w0 w1 w2 w3 w4 s1 pubkey pad1 s2 credentials s3 amnt pad2 s4 sig s5 idx pad3 where
    "data = w0 @ w1 @ w2 @ w3 @ w4 @ s1 @ pubkey @ pad1 @ s2 @ credentials @ s3 @ amnt @ pad2 @ s4 @ sig @ s5 @ idx @ pad3"
    "map length [w0, w1, w2, w3, w4, s1, pubkey, pad1, s2, credentials, s3, amnt, pad2, s4, sig, s5, idx, pad3] =
       [32, 32, 32, 32, 32, 32, 48, 16, 32, 32, 32, 8, 24, 32, 96, 32, 8, 24]"
proof -
  have "length data = sum_list [32, 32, 32, 32, 32, 32, 48, 16, 32, 32, 32, 8, 24, 32, 96, 32, 8, 24]"
    by (simp add: assms)
  from split_by_lengths [OF this]
  obtain yss where "data = concat yss \<and> map length yss = [32, 32, 32, 32, 32, 32, 48, 16, 32, 32, 32, 8, 24, 32, 96, 32, 8, 24]" ..
  then have y: "data = concat yss" "map length yss = [32, 32, 32, 32, 32, 32, 48, 16, 32, 32, 32, 8, 24, 32, 96, 32, 8, 24]"
    by (rule conjunct1, rule conjunct2)
  have "length yss = 18"
    using arg_cong [OF y(2), of length] by simp
  then have "yss = [yss ! 0, yss ! 1, yss ! 2, yss ! 3, yss ! 4, yss ! 5, yss ! 6, yss ! 7, yss ! 8, yss ! 9, yss ! 10, yss ! 11,
      yss ! 12, yss ! 13, yss ! 14, yss ! 15, yss ! 16, yss ! 17]"
    using map_nth [of yss] by (simp add: upt_rec eval_nat_numeral)
  then obtain w0 w1 w2 w3 w4 s1 pk p1 s2 wc s3 am p2 s4 sg s5 ix p3 where
    e: "yss = [w0, w1, w2, w3, w4, s1, pk, p1, s2, wc, s3, am, p2, s4, sg, s5, ix, p3]" ..
  show ?thesis
    by (rule that [OF _ y(2) [unfolded e]]) (simp add: y(1) e)
qed

text \<open>What the code computes on data that is split at the positions of the layout.\<close>

lemma extract_deposit_segments:
  assumes l: "map length [w0, w1, w2, w3, w4, s1, pubkey, pad1, s2, credentials, s3, amnt, pad2, s4, sig, s5, idx, pad3] =
       [32, 32, 32, 32, 32, 32, 48, 16, 32, 32, 32, 8, 24, 32, 96, 32, 8, 24]"
    and d: "data = w0 @ w1 @ w2 @ w3 @ w4 @ s1 @ pubkey @ pad1 @ s2 @ credentials @ s3 @ amnt @ pad2 @ s4 @ sig @ s5 @ idx @ pad3"
  shows "extract_deposit data =
    (if [w0, w1, w2, w3, w4] = map (be_bytes 32) [160, 256, 320, 384, 512] \<and>
        [s1, s2, s3, s4, s5] = map (be_bytes 32) [48, 32, 8, 96, 8]
     then Some (pubkey @ credentials @ amnt @ sig @ idx) else None)"
proof -
  have n: "length data = 576"
    using l d by simp
  have o: "read_offsets data [0..<5] = Some EXPECTED_OFFSETS \<longleftrightarrow> [w0, w1, w2, w3, w4] = map (be_bytes 32) [160, 256, 320, 384, 512]"
    unfolding read_offsets_eq using l d by (simp add: upt_rec EXPECTED_OFFSETS_def deposit_layout read_word_eq)
  have s: "validate_size_at data PUBKEY_OFFSET PUBKEY_SIZE \<longleftrightarrow> s1 = be_bytes 32 48"
    "validate_size_at data WITHDRAWAL_OFFSET WITHDRAWAL_SIZE \<longleftrightarrow> s2 = be_bytes 32 32"
    "validate_size_at data AMOUNT_OFFSET AMOUNT_SIZE \<longleftrightarrow> s3 = be_bytes 32 8"
    "validate_size_at data SIGNATURE_OFFSET SIGNATURE_SIZE \<longleftrightarrow> s4 = be_bytes 32 96"
    "validate_size_at data INDEX_OFFSET INDEX_SIZE \<longleftrightarrow> s5 = be_bytes 32 8"
    using l d by (simp_all add: validate_size_at_def deposit_layout read_word_eq)
  have f: "field_at data PUBKEY_OFFSET PUBKEY_SIZE = pubkey" "field_at data WITHDRAWAL_OFFSET WITHDRAWAL_SIZE = credentials"
    "field_at data AMOUNT_OFFSET AMOUNT_SIZE = amnt" "field_at data SIGNATURE_OFFSET SIGNATURE_SIZE = sig"
    "field_at data INDEX_OFFSET INDEX_SIZE = idx"
    using l d by (simp_all add: field_at_def deposit_layout)
  show ?thesis
    unfolding extract_deposit_def s f using n o by (auto split: option.splits)
qed

text \<open>
  C40: The data of a deposit event is accepted exactly when it is the ABI encoding of a public key, credentials, an amount, a
  signature and an index of 48, 32, 8, 96 and 8 bytes, with the offsets and sizes of that layout, and what is extracted is
  the five fields one after another, without the words and the padding around them.
\<close>

theorem extract_deposit_exact:
  "extract_deposit data = Some d \<longleftrightarrow>
     (\<exists>pubkey credentials amnt sig idx pad1 pad2 pad3.
        data = deposit_abi pubkey credentials amnt sig idx pad1 pad2 pad3 \<and>
        map length [pubkey, credentials, amnt, sig, idx, pad1, pad2, pad3] = [48, 32, 8, 96, 8, 16, 24, 24] \<and>
        d = pubkey @ credentials @ amnt @ sig @ idx)"
proof
  assume a: "extract_deposit data = Some d"
  then have "length data = 576"
    by (simp add: extract_deposit_def split: if_splits)
  then obtain w0 w1 w2 w3 w4 s1 pubkey pad1 s2 credentials s3 amnt pad2 s4 sig s5 idx pad3 where
    g: "data = w0 @ w1 @ w2 @ w3 @ w4 @ s1 @ pubkey @ pad1 @ s2 @ credentials @ s3 @ amnt @ pad2 @ s4 @ sig @ s5 @ idx @ pad3"
    "map length [w0, w1, w2, w3, w4, s1, pubkey, pad1, s2, credentials, s3, amnt, pad2, s4, sig, s5, idx, pad3] =
       [32, 32, 32, 32, 32, 32, 48, 16, 32, 32, 32, 8, 24, 32, 96, 32, 8, 24]"
    by (rule deposit_segments)
  have "[w0, w1, w2, w3, w4] = map (be_bytes 32) [160, 256, 320, 384, 512]" "[s1, s2, s3, s4, s5] = map (be_bytes 32) [48, 32, 8, 96, 8]"
    "d = pubkey @ credentials @ amnt @ sig @ idx"
    using a unfolding extract_deposit_segments [OF g(2,1)] by (simp_all split: if_splits)
  then have "data = deposit_abi pubkey credentials amnt sig idx pad1 pad2 pad3" "d = pubkey @ credentials @ amnt @ sig @ idx"
    using g(1) by (simp_all add: deposit_abi_def)
  then show "\<exists>pubkey credentials amnt sig idx pad1 pad2 pad3.
        data = deposit_abi pubkey credentials amnt sig idx pad1 pad2 pad3 \<and>
        map length [pubkey, credentials, amnt, sig, idx, pad1, pad2, pad3] = [48, 32, 8, 96, 8, 16, 24, 24] \<and>
        d = pubkey @ credentials @ amnt @ sig @ idx"
    using g(2)
    by - (rule exI [of _ pubkey], rule exI [of _ credentials], rule exI [of _ amnt], rule exI [of _ sig], rule exI [of _ idx],
        rule exI [of _ pad1], rule exI [of _ pad2], rule exI [of _ pad3], simp)
next
  assume "\<exists>pubkey credentials amnt sig idx pad1 pad2 pad3.
        data = deposit_abi pubkey credentials amnt sig idx pad1 pad2 pad3 \<and>
        map length [pubkey, credentials, amnt, sig, idx, pad1, pad2, pad3] = [48, 32, 8, 96, 8, 16, 24, 24] \<and>
        d = pubkey @ credentials @ amnt @ sig @ idx"
  then obtain pubkey credentials amnt sig idx pad1 pad2 pad3 where
    g: "data = deposit_abi pubkey credentials amnt sig idx pad1 pad2 pad3"
    "map length [pubkey, credentials, amnt, sig, idx, pad1, pad2, pad3] = [48, 32, 8, 96, 8, 16, 24, 24]"
    "d = pubkey @ credentials @ amnt @ sig @ idx"
    by (elim exE conjE) (rule that)
  have l: "map length [be_bytes 32 160, be_bytes 32 256, be_bytes 32 320, be_bytes 32 384, be_bytes 32 512, be_bytes 32 48, pubkey, pad1, be_bytes 32 32, credentials, be_bytes 32 8,
      amnt, pad2, be_bytes 32 96, sig, be_bytes 32 8, idx, pad3] = [32, 32, 32, 32, 32, 32, 48, 16, 32, 32, 32, 8, 24, 32, 96, 32, 8, 24]"
    using g(2) by simp
  show "extract_deposit data = Some d"
    using extract_deposit_segments [OF l refl] by (simp add: g(1,3) deposit_abi_def)
qed

section \<open>The deposits of a block\<close>

text \<open>The deposits of a list of logs, if each event is well formed.\<close>

definition deposits_of :: "log_entry list \<Rightarrow> bytes option" where
  "deposits_of logs = map_option concat (those (map (\<lambda>l. extract_deposit (lg_data l)) (filter is_deposit_event logs)))"

lemma deposits_of_simps:
  "deposits_of [] = Some []"
  "deposits_of (l # ls) =
     (if is_deposit_event l
      then case extract_deposit (lg_data l) of None \<Rightarrow> None | Some d \<Rightarrow> map_option ((@) d) (deposits_of ls)
      else deposits_of ls)"
  by (auto simp: deposits_of_def option.map_comp comp_def split: option.splits)

lemma add_request_simps [simp]:
  "length (add_request t d rq) = length rq"
  "length rq = 5 \<Longrightarrow> add_request t d rq ! enum_integer t' = rq ! enum_integer t' @ (if t = t' then d else [])"
  by (cases t; cases t'; simp add: add_request_def)+

lemma add_request_add: "length rq = 5 \<Longrightarrow> add_request t e (add_request t d rq) = add_request t (d @ e) rq"
  by (cases t) (simp_all add: add_request_def)

lemma add_request_Nil: "add_request t [] rq = rq"
  by (simp add: add_request_def)

lemma extract_deposits_eq:
  assumes "length rq = 5"
  shows "fst (extract_deposits_from_logs logs rq) \<longleftrightarrow> deposits_of logs \<noteq> None"
    "deposits_of logs = Some d \<Longrightarrow> extract_deposits_from_logs logs rq = (True, add_request KDepositRequest d rq)"
  using assms
  by (induction logs arbitrary: rq d) (auto simp: deposits_of_simps add_request_add add_request_Nil split: option.splits if_splits)

lemma map_option_append_Nil: "map_option ((@) []) x = x"
  by (cases x) simp_all

lemma deposits_of_append:
  "deposits_of (xs @ ys) = (case deposits_of xs of None \<Rightarrow> None | Some d \<Rightarrow> map_option (\<lambda>e. d @ e) (deposits_of ys))"
  by (induction xs) (auto simp: deposits_of_simps option.map_comp comp_def map_option_append_Nil split: option.splits intro!: option.map_cong)

end
