(* ===== verification/Block_Rules.thy ===== *)
theory Block_Rules
  imports Rule_Set
begin

text \<open>
  What the block checks accept: the header rules over unbounded integers, the rules of block bodies in terms of the
  tries of transactions and withdrawals, the rewards and the difficulty formula.
\<close>

section \<open>Sequences of checks\<close>

lemma vseq_ok [simp]: "vseq r s = Some VOk \<longleftrightarrow> r = Some VOk \<and> s = Some VOk"
  by (cases r) (auto simp: vseq_def)

lemma vseq_Some_VOk [simp]: "vseq (Some VOk) s = s"
  by (simp add: vseq_def)

lemma vseq_returns: "r \<noteq> None \<Longrightarrow> s \<noteq> None \<Longrightarrow> vseq r s \<noteq> None"
  by (auto simp: vseq_def)

lemma check_field_ok [simp]: "check_field active x = VOk \<longleftrightarrow> (active \<longleftrightarrow> x \<noteq> None)"
  by (simp add: check_field_def)

section \<open>Headers\<close>

text \<open>The largest step of the gas limit, exclusive, and the limit of the parent it is measured from.\<close>

definition parent_limit :: "chain_config \<Rightarrow> block_header \<Rightarrow> block_header \<Rightarrow> int" where
  "parent_limit config h parent =
     uint (gas_limit parent) * (if london_block config = Some (number h) then 2 else 1)"

definition fork_fields :: "chain_config \<Rightarrow> evmc_revision \<Rightarrow> block_header \<Rightarrow> bool" where
  "fork_fields config revn h \<longleftrightarrow>
     (base_fee_per_gas h \<noteq> None \<longleftrightarrow> revn \<ge> EVMC_LONDON) \<and>
     (withdrawals_root h \<noteq> None \<longleftrightarrow> reached (shanghai_time config) (timestamp h)) \<and>
     (blob_gas_used h \<noteq> None \<longleftrightarrow> revn \<ge> EVMC_CANCUN) \<and> (excess_blob_gas h \<noteq> None \<longleftrightarrow> revn \<ge> EVMC_CANCUN) \<and>
     (parent_beacon_block_root h \<noteq> None \<longleftrightarrow> revn \<ge> EVMC_CANCUN) \<and>
     (requests_hash h \<noteq> None \<longleftrightarrow> revn \<ge> EVMC_PRAGUE) \<and>
     (block_access_list_hash h \<noteq> None \<longleftrightarrow> revn \<ge> EVMC_AMSTERDAM) \<and>
     (slot_number h \<noteq> None \<longleftrightarrow> revn \<ge> EVMC_AMSTERDAM)"

definition valid_successor :: "chain_config \<Rightarrow> block_header \<Rightarrow> block_header \<Rightarrow> bool" where
  "valid_successor config parent h \<longleftrightarrow>
     (let revn = revision config (number h) (timestamp h) in
      uint (gas_used h) \<le> uint (gas_limit h) \<and> 5000 \<le> uint (gas_limit h) \<and> uint (gas_limit h) < 2 ^ 63 \<and>
      length (extra_data h) \<le> 32 \<and> ommers_hash h = kEmptyListHash \<and> nonce h = replicate 8 0 \<and>
      uint (timestamp parent) < uint (timestamp h) \<and>
      \<bar>uint (gas_limit h) - parent_limit config h parent\<bar> < parent_limit config h parent div 1024 \<and>
      fork_fields config revn h \<and>
      (revn \<ge> EVMC_LONDON \<longrightarrow> base_fee_per_gas h = expected_base_fee_per_gas parent) \<and>
      (revn \<ge> EVMC_CANCUN \<longrightarrow> excess_blob_gas h = calc_excess_blob_gas h parent config))"

lemma gas_delta_exact:
  fixes a b :: u64
  shows "uint (if a > b then a - b else b - a) = \<bar>uint a - uint b\<bar>"
  by (auto simp: word_less_def uint_sub_lem [symmetric] word_le_def uint_minus_simple_alt not_less)

lemma check_gas_delta_ok:
  assumes "gas_limit parent \<le> kMaxGasLimit"
  shows "check_gas_delta config h parent = VOk \<longleftrightarrow>
    \<bar>uint (gas_limit h) - parent_limit config h parent\<bar> < parent_limit config h parent div 1024"
proof -
  define p where "p = (if london_block config = Some (number h) then gas_limit parent * kElasticityMultiplier
    else gas_limit parent)"
  have "uint (gas_limit parent) < 2 ^ 63"
    using assms by (simp add: kMaxGasLimit_def word_le_def)
  then have "uint (gas_limit parent * kElasticityMultiplier) = uint (gas_limit parent) * 2"
    by (simp add: kElasticityMultiplier_def uint_word_ariths)
  then have p: "uint p = parent_limit config h parent"
    by (simp add: p_def parent_limit_def)
  have "(if gas_limit h > p then gas_limit h - p else p - gas_limit h) < p div 1024 \<longleftrightarrow>
      \<bar>uint (gas_limit h) - uint p\<bar> < uint p div 1024"
    unfolding word_less_def [of _ "p div 1024"] gas_delta_exact by (simp add: uint_div)
  then show ?thesis
    unfolding check_gas_delta_def p_def [symmetric] Let_def by (simp add: p not_le [symmetric])
qed

lemma check_base_fee_ok:
  "check_base_fee revn h parent = Some VOk \<longleftrightarrow>
     (base_fee_per_gas h \<noteq> None \<longleftrightarrow> revn \<ge> EVMC_LONDON) \<and>
     (revn \<ge> EVMC_LONDON \<longrightarrow> base_fee_per_gas h = expected_base_fee_per_gas parent)"
  by (auto simp: check_base_fee_def not_less split: option.splits if_splits)

lemma check_blob_header_ok:
  "check_blob_header config revn h parent = Some VOk \<longleftrightarrow>
     (blob_gas_used h \<noteq> None \<longleftrightarrow> revn \<ge> EVMC_CANCUN) \<and> (excess_blob_gas h \<noteq> None \<longleftrightarrow> revn \<ge> EVMC_CANCUN) \<and>
     (parent_beacon_block_root h \<noteq> None \<longleftrightarrow> revn \<ge> EVMC_CANCUN) \<and>
     (revn \<ge> EVMC_CANCUN \<longrightarrow> excess_blob_gas h = calc_excess_blob_gas h parent config)"
  by (auto simp: check_blob_header_def not_less split: option.splits if_splits)

lemma check_access_list_fields_ok:
  "check_access_list_fields revn h = VOk \<longleftrightarrow>
     (block_access_list_hash h \<noteq> None \<longleftrightarrow> revn \<ge> EVMC_AMSTERDAM) \<and>
     (slot_number h \<noteq> None \<longleftrightarrow> revn \<ge> EVMC_AMSTERDAM)"
  by (auto simp: check_access_list_fields_def not_less)

lemma check_against_parent_ok:
  assumes "gas_limit parent \<le> kMaxGasLimit"
  shows "check_against_parent (MergeRuleSet pre config) h parent = Some VOk \<longleftrightarrow>
    (let revn = revision config (number h) (timestamp h) in
      nonce h = replicate 8 0 \<and> uint (timestamp parent) < uint (timestamp h) \<and>
      \<bar>uint (gas_limit h) - parent_limit config h parent\<bar> < parent_limit config h parent div 1024 \<and>
      fork_fields config revn h \<and>
      (revn \<ge> EVMC_LONDON \<longrightarrow> base_fee_per_gas h = expected_base_fee_per_gas parent) \<and>
      (revn \<ge> EVMC_CANCUN \<longrightarrow> excess_blob_gas h = calc_excess_blob_gas h parent config))"
proof -
  have t: "(if timestamp h \<le> timestamp parent then VInvalidTimestamp else VOk) = VOk \<longleftrightarrow>
      uint (timestamp parent) < uint (timestamp h)"
    by (simp add: word_le_def not_le)
  have n: "validate_difficulty_and_seal (MergeRuleSet pre config) h parent = VOk \<longleftrightarrow> nonce h = replicate 8 0"
    by simp
  show ?thesis
    unfolding check_against_parent_def Let_def vseq_ok rs_config.simps option.inject t n check_field_ok
      check_gas_delta_ok [OF assms] check_base_fee_ok check_blob_header_ok check_access_list_fields_ok fork_fields_def
      withdrawals_activated_def
    by blast
qed

lemma expected_base_fee_defined:
  "kMinGasLimit \<le> gas_limit parent \<Longrightarrow> expected_base_fee_per_gas parent \<noteq> None"
proof -
  assume "kMinGasLimit \<le> gas_limit parent"
  then have "gas_limit parent div kElasticityMultiplier \<noteq> 0"
    by (simp add: kMinGasLimit_def kElasticityMultiplier_def word_unat_eq_iff unat_div word_le_nat_alt div_eq_0_iff)
  then show ?thesis
    by (auto simp: expected_base_fee_per_gas_def Let_def split: option.splits)
qed

lemma check_against_parent_returns:
  assumes "kMinGasLimit \<le> gas_limit parent"
    "revision (rs_config rs) (number h) (timestamp h) \<ge> EVMC_CANCUN \<longrightarrow> calc_excess_blob_gas h parent (rs_config rs) \<noteq> None"
  shows "check_against_parent rs h parent \<noteq> None"
proof -
  have "check_base_fee revn h parent \<noteq> None" for revn
    using expected_base_fee_defined [OF assms(1)] by (auto simp: check_base_fee_def split: option.splits)
  moreover have "check_blob_header (rs_config rs) (revision (rs_config rs) (number h) (timestamp h)) h parent \<noteq> None"
    using assms(2) by (auto simp: check_blob_header_def not_less)
  ultimately show ?thesis
    unfolding check_against_parent_def Let_def by (intro vseq_returns) simp_all
qed


definition sample_parent :: block_header where
  "sample_parent = sample_header\<lparr>ommers_hash := kEmptyListHash, number := 1, timestamp := 10, gas_limit := 1000000,
     gas_used := 0, base_fee_per_gas := None, blob_gas_used := None, excess_blob_gas := None\<rparr>"

definition sample_child :: block_header where
  "sample_child = sample_parent\<lparr>number := 2, timestamp := 20, gas_limit := 1000900, parent_hash := replicate 32 1\<rparr>"


lemma difficulty_irrelevant:
  "check_gas_delta config (h\<lparr>difficulty := d\<rparr>) parent = check_gas_delta config h parent"
  "check_base_fee revn (h\<lparr>difficulty := d\<rparr>) parent = check_base_fee revn h parent"
  "check_blob_header config revn (h\<lparr>difficulty := d\<rparr>) parent = check_blob_header config revn h parent"
  "check_access_list_fields revn (h\<lparr>difficulty := d\<rparr>) = check_access_list_fields revn h"
  "validate_difficulty_and_seal (MergeRuleSet pre config) (h\<lparr>difficulty := d\<rparr>) parent =
     validate_difficulty_and_seal (MergeRuleSet pre config) h parent"
  "number (h\<lparr>difficulty := d\<rparr>) = number h" "timestamp (h\<lparr>difficulty := d\<rparr>) = timestamp h"
  "withdrawals_root (h\<lparr>difficulty := d\<rparr>) = withdrawals_root h" "requests_hash (h\<lparr>difficulty := d\<rparr>) = requests_hash h"
  by (simp_all add: check_gas_delta_def check_base_fee_def check_blob_header_def check_access_list_fields_def
      calc_excess_blob_gas_def cong: if_cong)

text \<open>
  C22: The rule set in use does not look at the difficulty of a header: the verdict on a header is the same for every
  difficulty. A block with a difficulty other than zero is then handled by the proof-of-work rules, so from Petersburg
  on its beneficiary is due a reward of two ether, which no block after the merge should have.
\<close>

theorem difficulty_unchecked:
  "validate_block_header (rule_set_factory config) (h\<lparr>difficulty := d\<rparr>) st future =
     validate_block_header (rule_set_factory config) h st future \<and>
   (d \<noteq> 0 \<and> revision config (number h) (timestamp h) \<ge> EVMC_PETERSBURG \<longrightarrow>
     compute_reward (rule_set_factory config)
         \<lparr>transactions = txns, ommers = [], withdrawals = ws, header = h\<lparr>difficulty := d\<rparr>\<rparr> =
       \<lparr>br_miner = 2 * 10 ^ 18, br_ommers = []\<rparr>)"
proof
  have p: "get_parent_header st (h\<lparr>difficulty := d\<rparr>) = get_parent_header st h"
    by (simp add: get_parent_header_def)
  have c: "check_against_parent (MergeRuleSet pre config) (h\<lparr>difficulty := d\<rparr>) parent =
      check_against_parent (MergeRuleSet pre config) h parent" for pre parent
    by (simp only: check_against_parent_def difficulty_irrelevant rs_config.simps)
  show "validate_block_header (rule_set_factory config) (h\<lparr>difficulty := d\<rparr>) st future =
      validate_block_header (rule_set_factory config) h st future"
    by (simp add: validate_block_header_def p c rule_set_factory_def base_validate_extra_data_def cong: option.case_cong)
  show "d \<noteq> 0 \<and> revision config (number h) (timestamp h) \<ge> EVMC_PETERSBURG \<longrightarrow>
      compute_reward (rule_set_factory config)
         \<lparr>transactions = txns, ommers = [], withdrawals = ws, header = h\<lparr>difficulty := d\<rparr>\<rparr> =
       \<lparr>br_miner = 2 * 10 ^ 18, br_ommers = []\<rparr>"
    by (simp add: rule_set_factory_def block_reward_base_def kBlockRewardConstantinople_def kEther_def)
qed

theorem difficulty_unchecked_witness:
  "compute_reward (rule_set_factory kMainnetConfig)
     \<lparr>transactions = [], ommers = [], withdrawals = None, header = sample_header\<lparr>difficulty := 1\<rparr>\<rparr> =
   \<lparr>br_miner = 2 * 10 ^ 18, br_ommers = []\<rparr>"
proof -
  have "revision kMainnetConfig (number sample_header) (timestamp sample_header) \<ge> EVMC_PETERSBURG"
    by (simp add: kMainnetConfig_def default_config_def revision_def sample_header_def revision_order)
  then show ?thesis
    using difficulty_unchecked [where config = kMainnetConfig and h = sample_header and d = 1] by simp
qed

section \<open>Bodies\<close>

definition blob_count :: "transaction list \<Rightarrow> nat" where
  "blob_count txns = sum_list (map (\<lambda>txn. length (tx_blob_versioned_hashes txn)) txns)"

definition valid_body ::
  "crypto \<Rightarrow> evmone_constants \<Rightarrow> chain_config \<Rightarrow> u256 option \<Rightarrow> block \<Rightarrow> bool" where
  "valid_body cr ev config price blk \<longleftrightarrow>
     (let h = header blk; revn = revision config (number h) (timestamp h) in
      transactions_root h = mpt_root (fst cr) (vector_trie (\<lambda>t. encode_transaction t False) (transactions blk)) \<and>
      (\<forall>txn \<in> set (transactions blk). statically_valid ev (fst (sender (fst cr) (snd cr) txn)) txn revn
         (cc_chain_id config) (base_fee_per_gas h) price) \<and>
      (withdrawals blk \<noteq> None \<longleftrightarrow> reached (shanghai_time config) (timestamp h)) \<and>
      withdrawals_root h = map_option (\<lambda>ws. mpt_root (fst cr) (vector_trie encode_withdrawal ws)) (withdrawals blk) \<and>
      map_option unat (blob_gas_used h) = (if revn \<ge> EVMC_CANCUN then Some (2 ^ 17 * blob_count (transactions blk)) else None) \<and>
      (revn \<ge> EVMC_CANCUN \<longrightarrow> blob_count (transactions blk) \<le> unat (bp_max (blob_params_at config (timestamp h)))) \<and>
      ommers blk = [] \<and> ommers_hash h = kEmptyListHash)"

lemma foldl_blob_gas:
  "foldl (\<lambda>sum txn. sum + total_blob_gas txn) s txns = s + kGasPerBlob * of_nat (blob_count txns)"
  by (induction txns arbitrary: s) (simp_all add: blob_count_def total_blob_gas_def algebra_simps)

lemma unat_block_blob_gas:
  assumes "blob_count txns < 2 ^ 40"
  shows "unat (block_blob_gas txns) = 2 ^ 17 * blob_count txns"
  using assms by (simp add: block_blob_gas_def foldl_blob_gas kGasPerBlob_def unat_word_ariths unat_of_nat)

lemma check_blob_gas_ok:
  assumes "blob_count (transactions blk) < 2 ^ 40"
  shows "check_blob_gas config blk = VOk \<longleftrightarrow>
    (let h = header blk; revn = revision config (number h) (timestamp h) in
      map_option unat (blob_gas_used h) = (if revn \<ge> EVMC_CANCUN then Some (2 ^ 17 * blob_count (transactions blk)) else None) \<and>
      (revn \<ge> EVMC_CANCUN \<longrightarrow> blob_count (transactions blk) \<le> unat (bp_max (blob_params_at config (timestamp h)))))"
proof -
  define m where "m = bp_max (blob_params_at config (timestamp (header blk)))"
  have u: "unat m < 2 ^ 16"
    using unsigned_less [of m] by simp
  have "unat ((ucast m :: u64) * kGasPerBlob) = unat m * 2 ^ 17"
    using u by (simp add: kGasPerBlob_def unat_word_ariths unat_ucast_up)
  then have max: "block_blob_gas (transactions blk) > ucast m * kGasPerBlob \<longleftrightarrow> \<not> blob_count (transactions blk) \<le> unat m"
    by (simp add: word_less_nat_alt unat_block_blob_gas [OF assms] not_le)
  have "blob_gas_used (header blk) = Some (block_blob_gas (transactions blk)) \<longleftrightarrow>
      map_option unat (blob_gas_used (header blk)) = Some (2 ^ 17 * blob_count (transactions blk))"
    unfolding unat_block_blob_gas [OF assms, symmetric] by (cases "blob_gas_used (header blk)") (auto simp: word_unat_eq_iff)
  then show ?thesis
    unfolding check_blob_gas_def Let_def m_def [symmetric] max by auto
qed

lemma pre_validate_transaction_blobs:
  "tx_blob_versioned_hashes (snd (pre_validate_transaction cr ev txn revn chain_id base_fee blob_price)) =
     tx_blob_versioned_hashes txn"
proof -
  have "tx_blob_versioned_hashes (snd (pre_validate_common_base cr ev t revn chain_id n)) = tx_blob_versioned_hashes t"
    "tx_blob_versioned_hashes (snd (check_set_code_and_floor cr ev t revn n)) = tx_blob_versioned_hashes t" for t n
    using pre_validate_common_base_snd [of cr ev t revn chain_id n]
      check_set_code_and_floor_snd [of cr ev t revn n] by auto
  then show ?thesis
    unfolding pre_validate_transaction_def pre_validate_common_forks_def Let_def
    by (intro vbind_keeps [where P = "\<lambda>t. tx_blob_versioned_hashes t = tx_blob_versioned_hashes txn"]) simp_all
qed

lemma blob_count_validated:
  "blob_count (map (\<lambda>txn. snd (pre_validate_transaction cr ev txn revn chain_id base_fee price)) txns) = blob_count txns"
  by (simp add: blob_count_def o_def pre_validate_transaction_blobs)

lemma check_ommers_hash_ok:
  "check_ommers_hash H (MergeRuleSet pre config) blk st = Some VOk \<longleftrightarrow>
     ommers blk = [] \<and> ommers_hash (header blk) = kEmptyListHash"
  by (simp add: check_ommers_hash_def)

text \<open>The checks after the transactions, on a block whose transactions have been validated.\<close>

lemma body_checks_ok:
  assumes "decode_block_body from mode = Inr (block_body.truncate blk, rest)" "\<forall>x. length (H x) = 32"
    "H [kEmptyListCode] = kEmptyListHash" "blob_count (transactions blk) < 2 ^ 40" "blob_count txns = blob_count (transactions blk)"
  shows "vseq (check_withdrawals H config (blk\<lparr>transactions := txns\<rparr>))
      (vseq (Some (check_blob_gas config (blk\<lparr>transactions := txns\<rparr>)))
            (check_ommers_hash H (MergeRuleSet pre config) (blk\<lparr>transactions := txns\<rparr>) st)) = Some VOk \<longleftrightarrow>
    (let h = header blk; revn = revision config (number h) (timestamp h) in
      (withdrawals blk \<noteq> None \<longleftrightarrow> reached (shanghai_time config) (timestamp h)) \<and>
      withdrawals_root h = map_option (\<lambda>ws. mpt_root H (vector_trie encode_withdrawal ws)) (withdrawals blk) \<and>
      map_option unat (blob_gas_used h) = (if revn \<ge> EVMC_CANCUN then Some (2 ^ 17 * blob_count (transactions blk)) else None) \<and>
      (revn \<ge> EVMC_CANCUN \<longrightarrow> blob_count (transactions blk) \<le> unat (bp_max (blob_params_at config (timestamp h)))) \<and>
      ommers blk = [] \<and> ommers_hash h = kEmptyListHash)"
proof -
  let ?b = "blk\<lparr>transactions := txns\<rparr>"
  have "compute_withdrawals_root H (block_body.truncate ?b) = compute_withdrawals_root H (block_body.truncate blk)"
    by (simp add: compute_withdrawals_root_def block_body.truncate_def)
  then have "compute_withdrawals_root H (block_body.truncate ?b) =
      map_option (\<lambda>ws. Some (mpt_root H (vector_trie encode_withdrawal ws))) (withdrawals blk)"
    using body_roots [OF assms(1,2,3)] by (simp add: block_body.truncate_def)
  then have w: "check_withdrawals H config ?b = Some VOk \<longleftrightarrow>
      (withdrawals blk \<noteq> None \<longleftrightarrow> reached (shanghai_time config) (timestamp (header blk))) \<and>
      withdrawals_root (header blk) = map_option (\<lambda>ws. mpt_root H (vector_trie encode_withdrawal ws)) (withdrawals blk)"
    by (cases "withdrawals blk") (auto simp: check_withdrawals_def withdrawals_activated_def)
  have "blob_count (transactions ?b) < 2 ^ 40"
    using assms(4,5) by simp
  note g = check_blob_gas_ok [OF this, of config]
  show ?thesis
    unfolding vseq_ok w option.inject g check_ommers_hash_ok using assms(5) by (auto simp: Let_def)
qed

text \<open>
  C11: Body validation after the merge. For a block whose body was decoded and whose difficulty is zero, the checks before the
  execution succeed exactly if the header commits to the trie of the transactions and to that of the withdrawals,
  every transaction is valid on its own, withdrawals are present from Shanghai on and only then, the blobs stay within
  the limit and account for the blob gas in the header, counted over unbounded integers, and there are no ommers. The block
  then has its transactions with the senders and counts the checks have cached.
\<close>

theorem pre_validate_block_body_exact:
  assumes "decode_block_body from mode = Inr (block_body.truncate blk, rest)" "\<forall>x. length (fst cr x) = 32"
    "fst cr [kEmptyListCode] = kEmptyListHash" "\<forall>txn \<in> set (transactions blk). sane_sizes txn" "sane_costs ev"
    "blob_count (transactions blk) < 2 ^ 40" "difficulty (header blk) = 0"
  shows "pre_validate_block_body cr ev (rule_set_factory config) blk st = Some (VOk, blk') \<longleftrightarrow>
    (\<exists>price. blob_gas_price (header blk) config = Some price \<and> valid_body cr ev config price blk \<and>
       blk' = blk\<lparr>transactions := map (\<lambda>txn. snd (pre_validate_transaction cr ev txn
         (revision config (number (header blk)) (timestamp (header blk))) (cc_chain_id config)
         (base_fee_per_gas (header blk)) price)) (transactions blk)\<rparr>)"
proof (cases "blob_gas_price (header blk) config")
  case None
  then show ?thesis
    using assms(7) by (auto simp: rule_set_factory_def base_pre_validate_block_body_def pre_validate_transactions_def
        bind_eq_Some_conv split: if_splits)
next
  case (Some price)
  let ?revn = "revision config (number (header blk)) (timestamp (header blk))"
  define r where "r = pre_validate_each cr ev ?revn (cc_chain_id config) (base_fee_per_gas (header blk)) price (transactions blk)"
  define txns where "txns = map (\<lambda>txn. snd (pre_validate_transaction cr ev txn ?revn (cc_chain_id config)
    (base_fee_per_gas (header blk)) price)) (transactions blk)"
  have root: "compute_transaction_root (fst cr) (block_body.truncate blk) =
      Some (mpt_root (fst cr) (vector_trie (\<lambda>t. encode_transaction t False) (transactions blk)))"
    using body_roots [OF assms(1,2,3)] by (simp add: block_body.truncate_def)
  have ok: "fst r = VOk \<longleftrightarrow> (\<forall>txn \<in> set (transactions blk). statically_valid ev (fst (sender (fst cr) (snd cr) txn)) txn
      ?revn (cc_chain_id config) (base_fee_per_gas (header blk)) price)"
    unfolding r_def pre_validate_each_ok using pre_validate_transaction_rules [OF _ assms(5)] assms(4) by blast
  have snd: "fst r = VOk \<Longrightarrow> snd r = txns"
    unfolding r_def txns_def by (rule pre_validate_each_snd)
  have "blob_count txns = blob_count (transactions blk)"
    unfolding txns_def by (rule blob_count_validated)
  note checks = body_checks_ok [OF assms(1,2,3,6) this, of config "Some (EthashRuleSet config)" st]
  let ?rs = "MergeRuleSet (Some (EthashRuleSet config)) config"
  have body: "pre_validate_block_body cr ev ?rs blk st = Some (VOk, blk') \<longleftrightarrow>
      transactions_root (header blk) = mpt_root (fst cr) (vector_trie (\<lambda>t. encode_transaction t False) (transactions blk)) \<and>
      fst r = VOk \<and> blk' = blk\<lparr>transactions := snd r\<rparr> \<and>
      vseq (check_withdrawals (fst cr) config (blk\<lparr>transactions := snd r\<rparr>))
        (vseq (Some (check_blob_gas config (blk\<lparr>transactions := snd r\<rparr>)))
              (check_ommers_hash (fst cr) ?rs (blk\<lparr>transactions := snd r\<rparr>) st)) = Some VOk"
    using assms(7) by (auto simp: base_pre_validate_block_body_def root pre_validate_transactions_def Some
        r_def [symmetric] split_def Let_def simp del: vseq_ok split: if_splits)
  have v: "valid_body cr ev config price blk \<longleftrightarrow>
      transactions_root (header blk) = mpt_root (fst cr) (vector_trie (\<lambda>t. encode_transaction t False) (transactions blk)) \<and>
      fst r = VOk \<and>
      vseq (check_withdrawals (fst cr) config (blk\<lparr>transactions := txns\<rparr>))
        (vseq (Some (check_blob_gas config (blk\<lparr>transactions := txns\<rparr>)))
              (check_ommers_hash (fst cr) ?rs (blk\<lparr>transactions := txns\<rparr>) st)) = Some VOk"
    unfolding checks ok valid_body_def Let_def by (rule refl)
  have "pre_validate_block_body cr ev ?rs blk st = Some (VOk, blk') \<longleftrightarrow>
      valid_body cr ev config price blk \<and> blk' = blk\<lparr>transactions := txns\<rparr>"
    unfolding body v by (cases "fst r = VOk") (use snd in auto)
  then show ?thesis
    unfolding rule_set_factory_def Some option.inject simp_thms txns_def .
qed

definition sample_block :: block where
  "sample_block = block_body.extend empty_body
     \<lparr>header = sample_header\<lparr>ommers_hash := kEmptyListHash, transactions_root := kEmptyRoot, withdrawals_root := Some kEmptyRoot,
        blob_gas_used := None, excess_blob_gas := None\<rparr>\<rparr>"

theorem pre_validate_block_body_exact_witness:
  "\<exists>blk'. pre_validate_block_body (\<lambda>x. kEmptyListHash, \<lambda>x. None) amsterdam_constants
     (rule_set_factory (default_config\<lparr>shanghai_time := Some 0\<rparr>)) sample_block
     \<lparr>bs_read_header = \<lambda>n h. None, bs_read_body = \<lambda>n h. None\<rparr> = Some (VOk, blk')"
proof -
  let ?c = "default_config\<lparr>shanghai_time := Some 0\<rparr>"
  have t: "block_body.truncate sample_block = empty_body"
    by (simp add: sample_block_def block_body.truncate_def block_body.extend_def empty_body_def)
  have f: "transactions sample_block = []" "withdrawals sample_block = Some []" "ommers sample_block = []"
    "header sample_block = sample_header\<lparr>ommers_hash := kEmptyListHash, transactions_root := kEmptyRoot,
       withdrawals_root := Some kEmptyRoot, blob_gas_used := None, excess_blob_gas := None\<rparr>"
    by (simp_all add: sample_block_def block_body.extend_def empty_body_def)
  have "revision ?c n (timestamp sample_header) = EVMC_SHANGHAI" for n
    by (simp add: revision_def default_config_def sample_header_def)
  then have v: "valid_body (\<lambda>x. kEmptyListHash, \<lambda>x. None) amsterdam_constants ?c None sample_block"
    by (simp add: valid_body_def f blob_count_def mpt_root_def vector_trie_def revision_order)
  have c: "sane_costs amsterdam_constants" "length kEmptyListHash = 32" "difficulty sample_header = 0"
    by (simp_all add: sane_costs_def amsterdam_constants_def kEmptyListHash_def sample_header_def)
  have "blob_gas_price (header sample_block) ?c = Some None"
    by (simp add: blob_gas_price_def f)
  then show ?thesis
    using pre_validate_block_body_exact [of "encode_block_body empty_body" KProhibit sample_block "[]" "(\<lambda>x. kEmptyListHash, \<lambda>x. None)" amsterdam_constants ?c
        "\<lparr>bs_read_header = \<lambda>n h. None, bs_read_body = \<lambda>n h. None\<rparr>"] decode_empty_body t v c
    by (simp add: f blob_count_def)
qed

section \<open>Proof-of-work rewards and difficulty\<close>

text \<open>The difficulty of the Yellow Paper, with the adjustments of EIP-2 and EIP-100, over the integers.\<close>

definition exact_adjustment :: "evmc_revision \<Rightarrow> int \<Rightarrow> bool \<Rightarrow> int" where
  "exact_adjustment revn dt uncles =
     (if revn \<ge> EVMC_BYZANTIUM then max ((if uncles then 2 else 1) - dt div 9) (- 99)
      else if revn \<ge> EVMC_HOMESTEAD then max (1 - dt div 10) (- 99)
      else if dt < 13 then 1 else - 1)"

definition exact_bomb :: "int \<Rightarrow> int" where
  "exact_bomb fake_block_num = (let n = fake_block_num div 100000 in if n \<ge> 2 then 2 ^ nat (n - 2) else 0)"

definition exact_difficulty :: "evmc_revision \<Rightarrow> int \<Rightarrow> int \<Rightarrow> bool \<Rightarrow> int \<Rightarrow> int" where
  "exact_difficulty revn parent_difficulty dt uncles fake_block_num =
     max 0x20000 (parent_difficulty + parent_difficulty div 2048 * exact_adjustment revn dt uncles + exact_bomb fake_block_num)"


lemma uint_eqI:
  fixes w :: "'a::len word"
  assumes "w = of_int e" "0 \<le> e" "e < 2 ^ LENGTH('a)"
  shows "uint w = e"
  unfolding assms(1) using assms(2,3) by (simp add: take_bit_int_eq_self unsigned_of_int)

lemma word_as_int:
  fixes w :: "'a::len word"
  shows "w = of_int (uint w)" "uint (drop_bit n w) = uint w div 2 ^ n" "drop_bit n w = of_int (uint w div 2 ^ n)"
proof -
  show "w = of_int (uint w)"
    by simp
  show "uint (drop_bit n w) = uint w div 2 ^ n"
    unfolding unsigned_drop_bit_eq by (simp add: drop_bit_eq_div take_bit_int_eq_self)
  then show "drop_bit n w = of_int (uint w div 2 ^ n)"
    by (metis word_of_int_uint)
qed

lemma uint_elapsed: "pt \<le> t \<Longrightarrow> uint ((t - pt) div k) = (uint t - uint pt) div uint k" for t :: u64
  by (simp add: uint_div uint_minus_simple_alt [THEN iffD1])

lemma uint_numeral_small: "uint (9 :: u64) = 9" "uint (10 :: u64) = 10"
  by simp_all

lemma ucast_as_int: "(ucast (w :: u64) :: u256) = of_int (uint w)"
  by (simp add: unsigned_ucast_eq)

lemma exact_adjusted_bounds:
  assumes "0 \<le> pd" "0 \<le> dt"
  shows "0 \<le> pd + pd div 2048 * exact_adjustment revn dt uncles"
    and "pd + pd div 2048 * exact_adjustment revn dt uncles \<le> pd + pd div 2048 * 2"
proof -
  let ?a = "exact_adjustment revn dt uncles"
  have a: "- 99 \<le> ?a" "?a \<le> 2"
    using assms(2) by (auto simp: exact_adjustment_def)
  have x: "0 \<le> pd div 2048" "pd div 2048 * 2048 \<le> pd"
    using assms(1) by (simp_all add: pos_imp_zdiv_nonneg_iff)
  have "pd div 2048 * (- 99) \<le> pd div 2048 * ?a" "pd div 2048 * ?a \<le> pd div 2048 * 2"
    using a x by (intro mult_left_mono; simp)+
  then show "0 \<le> pd + pd div 2048 * ?a" "pd + pd div 2048 * ?a \<le> pd + pd div 2048 * 2"
    using x by simp_all
qed

lemma adjusted_difficulty_exact:
  fixes pd :: u256 and t pt :: u64
  assumes "uint pd < 2 ^ 255" "pt \<le> t"
  shows "uint (adjusted_difficulty revn t pt pd uncles) =
      uint pd + uint pd div 2048 * exact_adjustment revn (uint t - uint pt) uncles"
proof (rule uint_eqI)
  let ?x = "uint pd div 2048"
  let ?a = "exact_adjustment revn (uint t - uint pt) uncles"
  have "0 \<le> uint t - uint pt"
    using assms(2) by (simp add: word_le_def)
  then show "0 \<le> uint pd + ?x * ?a" "uint pd + ?x * ?a < 2 ^ LENGTH(256)"
    using exact_adjusted_bounds [of "uint pd" "uint t - uint pt" revn uncles] assms(1) by simp_all
  have "(2 :: int) ^ 11 = 2048"
    by simp
  then have w: "drop_bit 11 pd = of_int ?x" "pd = of_int (uint pd)"
    using word_as_int(3) [of 11 pd] by (simp_all only: word_of_int_uint)
  have z: "uint ((t - pt) div 9) = (uint t - uint pt) div 9" "uint ((t - pt) div 10) = (uint t - uint pt) div 10"
    using uint_elapsed [OF assms(2), of 9] uint_elapsed [OF assms(2), of 10] by (simp_all only: uint_numeral_small)
  have sub: "(ucast (c - q) :: u256) = of_int (uint c - uint q)" if "q < c" for c q :: u64
    using that uint_minus_simple_alt [of q c] by (simp only: ucast_as_int order.strict_implies_order simp_thms)
  show "adjusted_difficulty revn t pt pd uncles = of_int (uint pd + ?x * ?a)"
  proof (cases "revn \<ge> EVMC_HOMESTEAD")
    case False
    then have "\<not> revn \<ge> EVMC_BYZANTIUM"
      by (auto simp: revision_order)
    moreover have "t - pt < 13 \<longleftrightarrow> uint t - uint pt < 13"
      using assms(2) uint_minus_simple_alt [of pt t] by (simp add: word_less_def)
    ultimately show ?thesis
      using False by (simp add: adjusted_difficulty_def exact_adjustment_def w(1))
  next
    case True
    have step: "(if z < c then pd - drop_bit 11 pd * 99 + ucast (c - z) * drop_bit 11 pd else pd - drop_bit 11 pd * 99) =
        of_int (uint pd + ?x * max (uint c - 99 - uint z) (- 99))" for c z :: u64
      by (subst (1 3) w(2)) (simp add: w(1) sub max_def word_less_def algebra_simps)
    have c: "uint (99 + (if uncles then 2 else 1) :: u64) = (if uncles then 101 else 100)"
      by simp
    show ?thesis
      using True step [of "(t - pt) div 9" "99 + (if uncles then 2 else 1)"] step [of "(t - pt) div 10" 100]
      unfolding c z adjusted_difficulty_def exact_adjustment_def Let_def by auto
  qed
qed

text \<open>The number of the block with the delay of the bomb taken off.\<close>

definition fake_block :: "chain_config \<Rightarrow> evmc_revision \<Rightarrow> u64 \<Rightarrow> int" where
  "fake_block config revn block_num = max 0 (uint block_num - uint (bomb_delay config revn block_num))"

lemma difficulty_exact:
  fixes pd :: u256 and t pt block_num :: u64
  assumes "uint pd < 2 ^ 255" "pt \<le> t" "uint block_num < 25000000"
  shows "uint (ethash_difficulty block_num t pd pt uncles config) =
    (let revn = revision config block_num t
     in exact_difficulty revn (uint pd) (uint t - uint pt) uncles (fake_block config revn block_num))"
proof -
  define revn where "revn = revision config block_num t"
  define d where "d = adjusted_difficulty revn t pt pd uncles"
  define e where "e = uint pd + uint pd div 2048 * exact_adjustment revn (uint t - uint pt) uncles"
  define delay where "delay = bomb_delay config revn block_num"
  define f where "f = (if block_num > delay then block_num - delay else 0)"
  define n where "n = f div 100000"
  have d: "uint d = e"
    unfolding d_def e_def by (rule adjusted_difficulty_exact [OF assms(1,2)])
  have "0 \<le> uint t - uint pt"
    using assms(2) by (simp add: word_le_def)
  note b = exact_adjusted_bounds [OF _ this, of "uint pd" revn uncles, folded e_def]
  have e: "0 \<le> e" "e < 2 ^ 255 + 2 ^ 246"
    using b assms(1) by simp_all
  have f: "uint f = fake_block config revn block_num"
    using uint_minus_simple_alt [of delay block_num]
    by (auto simp: f_def fake_block_def delay_def [symmetric] word_less_def word_le_def)
  have n: "uint n = uint f div 100000"
    by (simp add: n_def uint_div)
  have "uint f < 25000000"
    using assms(3) unsigned_greater_eq [where 'a = int, of "bomb_delay config revn block_num"] unfolding f fake_block_def by linarith
  then have n250: "uint n < 250"
    unfolding n by simp
  define bomb where "bomb = exact_bomb (uint f)"
  have "(2 :: int) ^ nat (uint n - 2) \<le> 2 ^ 247"
    using n250 by (intro power_increasing) simp_all
  then have bomb: "0 \<le> bomb" "bomb \<le> 2 ^ 247"
    unfolding bomb_def exact_bomb_def n [symmetric] Let_def by simp_all
  have s: "uint (if n \<ge> 2 then d + push_bit (unat (n - 2)) 1 else d) = e + bomb"
  proof (rule uint_eqI)
    show "0 \<le> e + bomb" "e + bomb < 2 ^ LENGTH(256)"
      using e bomb by simp_all
    have "unat (n - 2) = nat (uint n - 2)" if "2 \<le> n"
      using that uint_minus_simple_alt [of 2 n] by (simp add: unat_eq_nat_uint)
    then have "(push_bit (unat (n - 2)) 1 :: u256) = of_int bomb" if "n \<ge> 2"
      using that unfolding bomb_def exact_bomb_def n [symmetric] Let_def
      by (simp add: push_bit_eq_mult word_le_def)
    moreover have "bomb = 0" if "\<not> n \<ge> 2"
      using that unfolding bomb_def exact_bomb_def n [symmetric] Let_def by (simp add: word_le_def)
    moreover have "d = of_int e"
      unfolding d [symmetric] by simp
    ultimately show "(if n \<ge> 2 then d + push_bit (unat (n - 2)) 1 else d) = of_int (e + bomb)"
      by simp
  qed
  define w where "w = (if n \<ge> 2 then d + push_bit (unat (n - 2)) 1 else d)"
  have "ethash_difficulty block_num t pd pt uncles config = (if w < 0x20000 then 0x20000 else w)"
    unfolding ethash_difficulty_def Let_def revn_def [symmetric] d_def [symmetric] delay_def [symmetric]
      f_def [symmetric] n_def [symmetric] w_def [symmetric] by (rule refl)
  then show ?thesis
    using s unfolding Let_def exact_difficulty_def revn_def [symmetric] e_def [symmetric] f [symmetric]
      bomb_def [symmetric] w_def [symmetric]
    by (simp add: word_less_def max_def)
qed

lemma miner_reward_exact:
  fixes r :: u256
  assumes "uint r < 2 ^ 64" "length oms \<le> 2"
  shows "uint (foldl (\<lambda>x ommer. x + drop_bit 5 r) r oms) = uint r + int (length oms) * (uint r div 32)"
proof (rule uint_eqI)
  have "foldl (\<lambda>x ommer. x + drop_bit 5 r) s oms = s + of_nat (length oms) * drop_bit 5 r" for s
    by (induction oms arbitrary: s) (simp_all add: algebra_simps)
  then show "foldl (\<lambda>x ommer. x + drop_bit 5 r) r oms = of_int (uint r + int (length oms) * (uint r div 32))"
    using word_as_int(3) [of 5 r] by simp
  have "0 \<le> uint r div 32" "uint r div 32 * 32 \<le> uint r"
    by (simp_all add: pos_imp_zdiv_nonneg_iff)
  then have "0 \<le> uint r div 32" "uint r div 32 \<le> uint r"
    by linarith+
  moreover from this assms(2) have "int (length oms) * (uint r div 32) \<le> 2 * uint r"
    by (intro mult_mono) simp_all
  ultimately show "0 \<le> uint r + int (length oms) * (uint r div 32)"
    "uint r + int (length oms) * (uint r div 32) < 2 ^ LENGTH(256)"
    using assms(1) by simp_all
qed

lemma ommer_reward_exact:
  fixes r :: u256 and n m :: u64
  assumes "uint r < 2 ^ 64" "uint n < uint m" "uint m \<le> uint n + 8"
  shows "uint (ommer_reward r n m) = (8 - (uint m - uint n)) * uint r div 8"
proof -
  let ?k = "8 - (uint m - uint n)"
  have k: "0 \<le> ?k" "?k \<le> 8"
    using assms(2,3) by simp_all
  have "uint (8 + n - m) = ?k"
    by (rule uint_eqI) (use k in simp_all)
  then have u: "(ucast (8 + n - m) :: u256) = of_int ?k"
    unfolding ucast_as_int by (rule arg_cong)
  have "?k * uint r \<le> 8 * uint r"
    using k by (intro mult_right_mono) simp_all
  then have "uint (of_int ?k * r) = ?k * uint r"
    using k assms(1) by (intro uint_eqI) simp_all
  moreover have "uint (drop_bit 3 w) = uint w div 8" for w :: u256
    unfolding word_as_int(2) by simp
  ultimately show ?thesis
    unfolding ommer_reward_def u by (simp only:)
qed

lemma block_reward_base_bound: "uint (block_reward_base revn) < 2 ^ 64"
  by (simp add: block_reward_base_def kBlockRewardConstantinople_def kBlockRewardByzantium_def
      kBlockRewardFrontier_def kEther_def)

text \<open>
  Proof-of-work arithmetic. The rewards are those of the Yellow Paper, exactly and without wrap-around, for up to two
  ommers from one to eight generations back; and the difficulty is the integer formula with the time adjustment of the
  revision and the delayed bomb, for parent difficulties below \<open>2 ^ 255\<close> and blocks below 25 million.
\<close>

theorem proof_of_work_exact:
  assumes "length (ommers blk) \<le> 2"
    "\<forall>ommer \<in> set (ommers blk). uint (number ommer) < uint (number (header blk)) \<and>
       uint (number (header blk)) \<le> uint (number ommer) + 8"
    "uint parent_difficulty < 2 ^ 255" "parent_timestamp \<le> block_timestamp" "uint block_num < 25000000"
  shows "(let reward = uint (block_reward_base (revision config (number (header blk)) (timestamp (header blk))));
        r = compute_reward (EthashRuleSet config) blk in
      uint (br_miner r) = reward + int (length (ommers blk)) * (reward div 32) \<and>
      map uint (br_ommers r) =
        map (\<lambda>ommer. (8 - (uint (number (header blk)) - uint (number ommer))) * reward div 8) (ommers blk)) \<and>
    uint (ethash_difficulty block_num block_timestamp parent_difficulty parent_timestamp uncles config) =
      (let revn = revision config block_num block_timestamp
       in exact_difficulty revn (uint parent_difficulty) (uint block_timestamp - uint parent_timestamp) uncles
            (fake_block config revn block_num))"
proof
  show "let reward = uint (block_reward_base (revision config (number (header blk)) (timestamp (header blk))));
        r = compute_reward (EthashRuleSet config) blk in
      uint (br_miner r) = reward + int (length (ommers blk)) * (reward div 32) \<and>
      map uint (br_ommers r) =
        map (\<lambda>ommer. (8 - (uint (number (header blk)) - uint (number ommer))) * reward div 8) (ommers blk)"
    using miner_reward_exact [OF block_reward_base_bound assms(1)]
      ommer_reward_exact [OF block_reward_base_bound] assms(2) by (simp add: Let_def)
qed (rule difficulty_exact [OF assms(3,4,5)])

theorem proof_of_work_exact_witness:
  "uint (ethash_difficulty 200000 25 (2 ^ 40) 5 False default_config) = 2 ^ 40 - 2 ^ 29 + 1"
proof -
  have o: "ommers sample_block = []"
    by (simp add: sample_block_def block_body.extend_def empty_body_def)
  have r: "revision default_config 200000 25 = EVMC_FRONTIER"
    by (simp add: revision_def default_config_def)
  have "bomb_delay default_config EVMC_FRONTIER 200000 = 0"
    by (simp add: bomb_delay_def default_config_def revision_order)
  then have f: "fake_block default_config EVMC_FRONTIER 200000 = 200000"
    by (simp add: fake_block_def)
  have "uint (2 ^ 40 :: u256) < 2 ^ 255"
    by simp
  note pow = proof_of_work_exact [of sample_block "2 ^ 40" 5 25 200000 default_config False, OF _ _ this,
      unfolded o r f Let_def, THEN conjunct2]
  have "exact_adjustment EVMC_FRONTIER (uint (25 :: u64) - uint (5 :: u64)) False = - 1"
    by (simp add: exact_adjustment_def revision_order)
  moreover have "exact_bomb 200000 = 1"
    by (simp add: exact_bomb_def)
  ultimately show ?thesis
    using pow by (simp add: exact_difficulty_def)
qed

end
