(* ===== verification/Processor.thy ===== *)
theory Processor
  imports State_View Requests Rule_Actions "HOL-Library.Monad_Syntax"
begin

text \<open>
  Execution of a block (execution/processor.cpp). \<open>int64_t\<close> values are kept as their two's complement words, read by
  \<open>sint\<close>. The functions of evmone that the processor calls, and the builder of block access lists, are the parameter
  \<open>em\<close>: programs over the view of the state.
\<close>

section \<open>What is passed to the EVM and what it returns\<close>

record block_info =
  bi_number :: u64
  bi_timestamp :: u64
  bi_gas_limit :: u64
  bi_coinbase :: address
  bi_difficulty :: u64
  bi_prev_randao :: bytes32
  bi_parent_beacon_block_root :: bytes32
  bi_base_fee :: u64
  bi_chain_id :: u64
  bi_excess_blob_gas :: u64
  bi_blob_base_fee :: u256
  bi_slot_number :: u64
  bi_ommers :: "(address \<times> u32) list"
  bi_withdrawals :: "withdrawal list"

record evm_transaction =
  et_type :: transaction_type
  et_data :: bytes
  et_gas_limit :: u64
  et_max_gas_price :: u256
  et_max_priority_gas_price :: u256
  et_max_blob_gas_price :: u256
  et_sender :: address
  et_to :: "address option"
  et_value :: u256
  et_chain_id :: u64
  et_nonce :: u64
  et_access_list :: "access_list_entry list"
  et_blob_hashes :: "bytes32 list"
  et_authorization_list :: "authorization list"

record tx_properties =
  tp_execution_gas_limit :: u64
  tp_state_gas_limit :: u64
  tp_min_gas_cost :: u64

record transition_receipt =
  tr_success :: bool
  tr_gas_used :: u64
  tr_block_gas_used :: u64
  tr_state_gas_used :: u64
  tr_logs :: "log_entry list"
  tr_state_diff :: state_diff

record requests_result =
  rr_state_diff :: state_diff
  rr_requests :: "(flat_request_type \<times> bytes) list"

record 'bal evmone =
  MAX_TX_GAS_LIMIT :: u64
  em_transition :: "block_info \<Rightarrow> evm_transaction \<Rightarrow> evmc_revision \<Rightarrow> tx_properties \<Rightarrow> transition_receipt evm"
  em_block_start :: "block_info \<Rightarrow> evmc_revision \<Rightarrow> state_diff evm"
  em_block_end :: "block_info \<Rightarrow> evmc_revision \<Rightarrow> requests_result option evm"
  em_finalize :: "evmc_revision \<Rightarrow> address \<Rightarrow> (address \<times> u32) list \<Rightarrow> withdrawal list \<Rightarrow> state_diff evm"
  em_new_bal :: 'bal
  em_record_diff :: "u32 \<Rightarrow> state_diff \<Rightarrow> 'bal \<Rightarrow> 'bal evm"
  em_exceeds_gas_limit :: "'bal \<Rightarrow> u64 \<Rightarrow> bool"
  em_bal_hash :: "'bal \<Rightarrow> bytes32"

section \<open>The processor\<close>

record 'bal processor =
  ep_rule_set :: rule_set
  ep_block :: block
  ep_config :: chain_config
  ep_beneficiary :: address
  ep_evm1_block :: block_info
  ep_direct :: direct_state
  ep_cumulative_gas_used :: u64
  ep_sum_regular_block_gas :: u64
  ep_sum_state_block_gas :: u64
  ep_bal_builder :: 'bal
  ep_tx_index :: nat

definition block_info_of :: "block \<Rightarrow> chain_config \<Rightarrow> block_info option" where
  "block_info_of blk config =
     (let h = header blk
      in map_option (\<lambda>blob_price.
           \<lparr>bi_number = number h, bi_timestamp = timestamp h, bi_gas_limit = gas_limit h, bi_coinbase = beneficiary h,
            bi_difficulty = ucast (difficulty h),
            bi_prev_randao = (if difficulty h = 0 then prev_randao h else store_big (difficulty h)),
            bi_parent_beacon_block_root = (case parent_beacon_block_root h of None \<Rightarrow> zero32 | Some r \<Rightarrow> r),
            bi_base_fee = (case base_fee_per_gas h of None \<Rightarrow> 0 | Some f \<Rightarrow> ucast f),
            bi_chain_id = cc_chain_id config,
            bi_excess_blob_gas = (case excess_blob_gas h of None \<Rightarrow> 0 | Some g \<Rightarrow> g),
            bi_blob_base_fee = (case blob_price of None \<Rightarrow> 0 | Some f \<Rightarrow> f),
            bi_slot_number = (case slot_number h of None \<Rightarrow> 0 | Some s \<Rightarrow> s),
            bi_ommers = map (\<lambda>o'. (beneficiary o', ucast (number h - number o'))) (ommers blk),
            bi_withdrawals = (case withdrawals blk of None \<Rightarrow> [] | Some ws \<Rightarrow> ws)\<rparr>) (blob_gas_price h config))"

definition new_processor :: "'bal evmone \<Rightarrow> block \<Rightarrow> rule_set \<Rightarrow> direct_state \<Rightarrow> chain_config \<Rightarrow> 'bal processor option" where
  "new_processor em blk rs direct config =
     map_option (\<lambda>info.
       \<lparr>ep_rule_set = rs, ep_block = blk, ep_config = config, ep_beneficiary = get_beneficiary rs (header blk), ep_evm1_block = info,
        ep_direct = direct, ep_cumulative_gas_used = 0, ep_sum_regular_block_gas = 0, ep_sum_state_block_gas = 0,
        ep_bal_builder = em_new_bal em, ep_tx_index = 0\<rparr>) (block_info_of blk config)"

definition processor_revision :: "'bal processor \<Rightarrow> evmc_revision" where
  "processor_revision p = revision (ep_config p) (number (header (ep_block p))) (timestamp (header (ep_block p)))"

text \<open>A program over the view and the hashes of the ancestors of the block; \<open>apply_state_diff\<close>; \<open>BalBuilder::record_diff\<close>.\<close>

definition run_evm :: "'r evm \<Rightarrow> 'bal processor \<Rightarrow> ('r \<times> 'bal processor) option" where
  "run_evm prog p = map_option (\<lambda>(r, st). (r, p\<lparr>ep_direct := st\<rparr>)) (run (header (ep_block p)) prog (ep_direct p))"

definition apply_diff :: "(bytes \<Rightarrow> bytes32) \<Rightarrow> state_diff \<Rightarrow> 'bal processor \<Rightarrow> 'bal processor option" where
  "apply_diff keccak256 diff p = map_option (\<lambda>st. p\<lparr>ep_direct := st\<rparr>) (apply_state_diff keccak256 diff (ep_direct p))"

definition record_diff :: "'bal evmone \<Rightarrow> u32 \<Rightarrow> state_diff \<Rightarrow> 'bal processor \<Rightarrow> 'bal processor option" where
  "record_diff em idx diff p =
     (if processor_revision p \<ge> EVMC_AMSTERDAM
      then map_option (\<lambda>(bal, p). p\<lparr>ep_bal_builder := bal\<rparr>) (run_evm (em_record_diff em idx diff (ep_bal_builder p)) p)
      else Some p)"

section \<open>Transactions\<close>

definition evm_transaction_of :: "chain_config \<Rightarrow> address \<Rightarrow> transaction \<Rightarrow> evm_transaction" where
  "evm_transaction_of config sndr txn =
     \<lparr>et_type = tx_type txn, et_data = tx_data txn, et_gas_limit = tx_gas_limit txn, et_max_gas_price = tx_max_fee_per_gas txn,
      et_max_priority_gas_price = tx_max_priority_fee_per_gas txn, et_max_blob_gas_price = tx_max_fee_per_blob_gas txn,
      et_sender = sndr, et_to = tx_to txn, et_value = tx_value txn, et_chain_id = cc_chain_id config, et_nonce = tx_nonce txn,
      et_access_list = tx_access_list txn, et_blob_hashes = tx_blob_versioned_hashes txn,
      et_authorization_list = tx_authorizations txn\<rparr>"

text \<open>The code that the witness of \<open>DirectState\<close> carries need not be kept.\<close>

definition note_created_code :: "bytes \<Rightarrow> direct_state \<Rightarrow> direct_state" where
  "note_created_code code st = st"

definition note_delegations :: "authorization list \<Rightarrow> direct_state \<Rightarrow> direct_state" where
  "note_delegations auths st =
     fold (\<lambda>a st. if auth_address a = replicate 20 0 then st else note_created_code ([0xef, 0x01, 0x00] @ auth_address a) st) auths st"

definition max_i64 :: "u64 \<Rightarrow> u64 \<Rightarrow> u64" where
  "max_i64 a b = (if sint a < sint b then b else a)"

definition min_i64 :: "u64 \<Rightarrow> u64 \<Rightarrow> u64" where
  "min_i64 a b = (if sint b < sint a then b else a)"

definition tx_properties_of ::
  "evmone_constants \<Rightarrow> 'bal evmone \<Rightarrow> evmc_revision \<Rightarrow> address \<Rightarrow> transaction \<Rightarrow> tx_properties" where
  "tx_properties_of ev em revn sndr txn =
     (let non_zero_bytes = of_nat (tx_data_non_zero_bytes txn)
      in if revn \<ge> EVMC_AMSTERDAM
         then let cost = amsterdam_tx_gas_cost ev (Some sndr) txn non_zero_bytes;
                  limit = tx_gas_limit txn;
                  state_gas_limit = max_i64 (limit - MAX_TX_GAS_LIMIT em) 0
              in \<lparr>tp_execution_gas_limit = limit - gc_regular cost - state_gas_limit, tp_state_gas_limit = state_gas_limit,
                  tp_min_gas_cost = gc_floor cost\<rparr>
         else \<lparr>tp_execution_gas_limit = tx_gas_limit txn - ucast (intrinsic_gas txn revn non_zero_bytes), tp_state_gas_limit = 0,
               tp_min_gas_cost = (if revn \<ge> EVMC_PRAGUE then floor_cost txn non_zero_bytes else 0)\<rparr>)"

text \<open>
  The gas of a transaction, in the receipts and, from Amsterdam on, by dimension; the receipt. \<open>None\<close> is the access to the
  sender of a transaction that has none.
\<close>

definition add_gas :: "transition_receipt \<Rightarrow> 'bal processor \<Rightarrow> 'bal processor" where
  "add_gas evm1_receipt p =
     (let p = p\<lparr>ep_cumulative_gas_used := ep_cumulative_gas_used p + tr_gas_used evm1_receipt\<rparr>
      in if processor_revision p \<ge> EVMC_AMSTERDAM
         then p\<lparr>ep_sum_regular_block_gas := ep_sum_regular_block_gas p + (tr_block_gas_used evm1_receipt - tr_state_gas_used evm1_receipt),
                ep_sum_state_block_gas := ep_sum_state_block_gas p + tr_state_gas_used evm1_receipt\<rparr>
         else p)"

definition receipt_of :: "(bytes \<Rightarrow> bytes32) \<Rightarrow> transaction \<Rightarrow> transition_receipt \<Rightarrow> u64 \<Rightarrow> receipt" where
  "receipt_of keccak256 txn evm1_receipt cumulative =
     \<lparr>rc_type = tx_type txn, rc_success = tr_success evm1_receipt, rc_cumulative_gas_used = cumulative,
      rc_bloom = logs_bloom_of keccak256 (tr_logs evm1_receipt), rc_logs = tr_logs evm1_receipt\<rparr>"

definition execute_transaction ::
  "crypto \<Rightarrow> evmone_constants \<Rightarrow> 'bal evmone \<Rightarrow> transaction \<Rightarrow> 'bal processor \<Rightarrow> (receipt \<times> 'bal processor) option" where
  "execute_transaction cr ev em txn p = do {
     let (sndr, txn) = sender (fst cr) (snd cr) txn;
     sndr \<leftarrow> sndr;
     let p = p\<lparr>ep_direct := note_delegations (tx_authorizations txn) (ep_direct p)\<rparr>;
     let revn = processor_revision p;
     (evm1_receipt, p) \<leftarrow> run_evm (em_transition em (ep_evm1_block p) (evm_transaction_of (ep_config p) sndr txn) revn
       (tx_properties_of ev em revn sndr txn)) p;
     let p = add_gas evm1_receipt p;
     p \<leftarrow> record_diff em (of_nat (ep_tx_index p + 1)) (tr_state_diff evm1_receipt) p;
     let p = p\<lparr>ep_tx_index := ep_tx_index p + 1\<rparr>;
     p \<leftarrow> apply_diff (fst cr) (tr_state_diff evm1_receipt) p;
     Some (receipt_of (fst cr) txn evm1_receipt (ep_cumulative_gas_used p), p)
   }"

definition available_gas :: "'bal processor \<Rightarrow> u64" where
  "available_gas p =
     (if ep_sum_regular_block_gas p \<noteq> 0 \<or> ep_sum_state_block_gas p \<noteq> 0
      then gas_limit (header (ep_block p)) - max_i64 (ep_sum_regular_block_gas p) (ep_sum_state_block_gas p)
      else gas_limit (header (ep_block p)) - ep_cumulative_gas_used p)"

text \<open>\<open>validate_transaction\<close> on the state; reading the code of the sender may note that the witness lacks it.\<close>

definition direct_view :: "direct_state \<Rightarrow> state_view" where
  "direct_view st =
     \<lparr>sv_code_hash = \<lambda>a. map_option acc_code_hash (read_account st a), sv_read_code = \<lambda>a. fst (read_code a st),
      sv_get_nonce = get_nonce st, sv_get_balance = get_balance st\<rparr>"

definition validate_transaction_on ::
  "crypto \<Rightarrow> transaction \<Rightarrow> direct_state \<Rightarrow> u64 \<Rightarrow> validation_result \<times> transaction \<times> direct_state" where
  "validate_transaction_on cr txn st gas =
     (let (err, txn) = validate_transaction cr txn (direct_view st) gas;
          st = (case tx_sender txn of
                  None \<Rightarrow> st
                | Some a \<Rightarrow> (case read_account st a of
                    None \<Rightarrow> st
                  | Some pa \<Rightarrow> if acc_code_hash pa \<noteq> kEmptyHash then snd (read_code a st) else st))
      in (err, txn, st))"

definition kTxMaxGasLimit :: u64 where "kTxMaxGasLimit = 0x1000000"

definition over_block_limit :: "transaction \<Rightarrow> 'bal processor \<Rightarrow> bool" where
  "over_block_limit txn p \<longleftrightarrow>
     (let block_gas_limit = gas_limit (header (ep_block p))
      in sint (min_i64 kTxMaxGasLimit (tx_gas_limit txn)) > sint (block_gas_limit - ep_sum_regular_block_gas p) \<or>
         sint (tx_gas_limit txn) > sint (block_gas_limit - ep_sum_state_block_gas p))"

text \<open>The receipts of the result are those of the transactions that have been executed.\<close>

fun execute_transactions ::
  "crypto \<Rightarrow> evmone_constants \<Rightarrow> 'bal evmone \<Rightarrow> transaction list \<Rightarrow> 'bal processor \<Rightarrow>
   (validation_result \<times> receipt list \<times> 'bal processor) option" where
  "execute_transactions cr ev em [] p = Some (VOk, [], p)"
| "execute_transactions cr ev em (txn # txns) p =
     (let amsterdam = processor_revision p \<ge> EVMC_AMSTERDAM
      in if amsterdam \<and> over_block_limit txn p then Some (VBlockGasLimitExceeded, [], p)
         else let gas_available = (if amsterdam then gas_limit (header (ep_block p)) else available_gas p);
                  (err, txn, st) = validate_transaction_on cr txn (ep_direct p) gas_available;
                  p = p\<lparr>ep_direct := st\<rparr>
              in if err \<noteq> VOk then Some (err, [], p)
                 else do {
                   (r, p) \<leftarrow> execute_transaction cr ev em txn p;
                   (err, rs, p) \<leftarrow> execute_transactions cr ev em txns p;
                   Some (err, r # rs, p)
                 })"

section \<open>Blocks\<close>

definition sweep :: "'bal processor \<Rightarrow> 'bal processor" where
  "sweep p =
     (if processor_revision p \<ge> EVMC_SPURIOUS_DRAGON
      then p\<lparr>ep_direct := destruct_dead_among (ds_touched (ep_direct p)) (ep_direct p)\<rparr> else p)"

definition begin_block :: "(bytes \<Rightarrow> bytes32) \<Rightarrow> 'bal evmone \<Rightarrow> 'bal processor \<Rightarrow> 'bal processor option" where
  "begin_block keccak256 em p = do {
     let p = p\<lparr>ep_direct := initialize (ep_rule_set p) (ep_block p) (ep_direct p)\<rparr>;
     (diff, p) \<leftarrow> run_evm (em_block_start em (ep_evm1_block p) (processor_revision p)) p;
     p \<leftarrow> record_diff em 0 diff p;
     p \<leftarrow> apply_diff keccak256 diff p;
     Some ((sweep p)\<lparr>ep_cumulative_gas_used := 0\<rparr>)
   }"

definition clear_touched :: "direct_state \<Rightarrow> direct_state" where
  "clear_touched st = st\<lparr>ds_touched := []\<rparr>"

definition post_block_index :: "'bal processor \<Rightarrow> u32" where
  "post_block_index p = of_nat (length (transactions (ep_block p)) + 1)"

definition finalize_via_evmone :: "(bytes \<Rightarrow> bytes32) \<Rightarrow> 'bal evmone \<Rightarrow> 'bal processor \<Rightarrow> 'bal processor option" where
  "finalize_via_evmone keccak256 em p =
     (if processor_revision p \<ge> EVMC_AMSTERDAM
      then do {
        (fin_diff, p) \<leftarrow> run_evm (em_finalize em (processor_revision p) (beneficiary (header (ep_block p)))
          (bi_ommers (ep_evm1_block p)) (bi_withdrawals (ep_evm1_block p))) p;
        p \<leftarrow> record_diff em (post_block_index p) fin_diff p;
        apply_diff keccak256 fin_diff p
      }
      else Some p)"

fun collect_deposits :: "receipt list \<Rightarrow> flat_requests \<Rightarrow> bool \<times> flat_requests" where
  "collect_deposits [] rq = (True, rq)"
| "collect_deposits (r # rs) rq =
     (let (ok, rq) = extract_deposits_from_logs (rc_logs r) rq in if ok then collect_deposits rs rq else (False, rq))"

definition process_requests ::
  "(bytes \<Rightarrow> bytes32) \<Rightarrow> (bytes \<Rightarrow> bytes32) \<Rightarrow> 'bal evmone \<Rightarrow> receipt list \<Rightarrow> 'bal processor \<Rightarrow>
   (validation_result \<times> 'bal processor) option" where
  "process_requests keccak256 sha256 em receipts p =
     (if processor_revision p \<ge> EVMC_PRAGUE \<and> requests_hash (header (ep_block p)) \<noteq> None
      then let (ok, rq) = collect_deposits receipts no_requests
           in if \<not> ok then Some (VRequestsProcessingFailure, p)
              else do {
                (result, p) \<leftarrow> run_evm (em_block_end em (ep_evm1_block p) (processor_revision p)) p;
                case result of
                  None \<Rightarrow> Some (VRequestsProcessingFailure, p)
                | Some rr \<Rightarrow> do {
                    p \<leftarrow> record_diff em (post_block_index p) (rr_state_diff rr) p;
                    p \<leftarrow> apply_diff keccak256 (rr_state_diff rr) p;
                    let rq = fold (\<lambda>(t, d). add_request t d) (rr_requests rr) rq;
                    Some (if Some (calculate_sha256 sha256 rq) \<noteq> requests_hash (header (ep_block p))
                          then VRequestsRootMismatch else VOk, p)
                  }
              }
      else Some (VOk, p))"

definition finalize_block :: "'bal processor \<Rightarrow> validation_result \<times> 'bal processor" where
  "finalize_block p =
     (let (err, p) = (if processor_revision p < EVMC_AMSTERDAM
                      then let (err, st) = finalize (ep_rule_set p) (ep_block p) (ep_direct p) in (err, p\<lparr>ep_direct := st\<rparr>)
                      else (VOk, p))
      in (err, sweep p))"

text \<open>
  The commitments of the header. The receipts are encoded into buffers of unknown alignment: \<open>lay\<close> gives that of each.
\<close>

definition joined_bloom :: "receipt list \<Rightarrow> bytes" where
  "joined_bloom receipts =
     foldl (\<lambda>bloom r. if rc_logs r \<noteq> [] then join_bloom bloom (rc_bloom r) else bloom) (replicate kBloomByteLength 0) receipts"

definition expected_gas_used :: "'bal processor \<Rightarrow> u64" where
  "expected_gas_used p =
     (if processor_revision p \<ge> EVMC_AMSTERDAM then max_i64 (ep_sum_regular_block_gas p) (ep_sum_state_block_gas p)
      else ep_cumulative_gas_used p)"

definition check_access_list :: "'bal evmone \<Rightarrow> 'bal processor \<Rightarrow> validation_result" where
  "check_access_list em p =
     (let h = header (ep_block p)
      in if processor_revision p < EVMC_AMSTERDAM then VOk
         else if em_exceeds_gas_limit em (ep_bal_builder p) (gas_limit h) then VBlockAccessListGasExceeded
         else if em_bal_hash em (ep_bal_builder p) \<noteq> (case block_access_list_hash h of None \<Rightarrow> zero32 | Some x \<Rightarrow> x)
         then VBlockAccessListHashMismatch
         else VOk)"

definition check_commitments ::
  "(bytes \<Rightarrow> bytes32) \<Rightarrow> (receipt \<Rightarrow> nat \<times> (receipt_field \<Rightarrow> bool)) \<Rightarrow> 'bal evmone \<Rightarrow> receipt list \<Rightarrow> 'bal processor \<Rightarrow>
   validation_result option" where
  "check_commitments keccak256 lay em receipts p =
     (let h = header (ep_block p)
      in if expected_gas_used p \<noteq> gas_used h then Some VWrongBlockGas
         else do {
           root_ok \<leftarrow> (if processor_revision p \<ge> EVMC_BYZANTIUM
                       then map_option (\<lambda>rt. rt = receipts_root h)
                              (vector_root keccak256 (\<lambda>r. encode_receipt (fst (lay r)) (snd (lay r)) r) receipts)
                       else Some True);
           Some (if \<not> root_ok then VWrongReceiptsRoot
                 else if joined_bloom receipts \<noteq> logs_bloom h then VWrongLogsBloom
                 else check_access_list em p)
         })"

definition execute_block ::
  "crypto \<Rightarrow> (bytes \<Rightarrow> bytes32) \<Rightarrow> evmone_constants \<Rightarrow> (receipt \<Rightarrow> nat \<times> (receipt_field \<Rightarrow> bool)) \<Rightarrow> 'bal evmone \<Rightarrow> 'bal processor \<Rightarrow>
   (validation_result \<times> receipt list \<times> 'bal processor) option" where
  "execute_block cr sha256 ev lay em p = do {
     p \<leftarrow> begin_block (fst cr) em p;
     (err, receipts, p) \<leftarrow> execute_transactions cr ev em (transactions (ep_block p)) p;
     if err \<noteq> VOk then Some (err, receipts, p)
     else do {
       let p = p\<lparr>ep_direct := clear_touched (ep_direct p)\<rparr>;
       p \<leftarrow> finalize_via_evmone (fst cr) em p;
       (err, p) \<leftarrow> process_requests (fst cr) sha256 em receipts p;
       if err \<noteq> VOk then Some (err, receipts, p)
       else let (err, p) = finalize_block p
            in if err \<noteq> VOk then Some (err, receipts, p)
               else map_option (\<lambda>err. (err, receipts, p)) (check_commitments (fst cr) lay em receipts p)
     }
   }"

end
