(* ===== verification/State_Frame.thy ===== *)
theory State_Frame
  imports State_View State_Root Rule_Actions
begin

text \<open>
  What every operation on the state leaves alone: the map of the witness, the headers and the walk over them, the records that
  addresses have, and that no address has two created records. So the state stays one that lists its accounts.
\<close>

section \<open>The walk and the map of the witness\<close>

lemma fold_fields: "(\<And>x st. walk_fields (f x st) = walk_fields st) \<Longrightarrow> walk_fields (fold f xs st) = walk_fields st"
  by (induction xs arbitrary: st) simp_all

lemma update_fields [simp]:
  "walk_fields (st\<lparr>ds_overflow := ov\<rparr>) = walk_fields st" "walk_fields (st\<lparr>ds_touched := t\<rparr>) = walk_fields st"
  "walk_fields (st\<lparr>ds_wiped := w\<rparr>) = walk_fields st" "walk_fields (st\<lparr>ds_created_code := c\<rparr>) = walk_fields st"
  "walk_fields (st\<lparr>ds_code_collisions := cc\<rparr>) = walk_fields st" "walk_fields (st\<lparr>ds_changed_addresses := l\<rparr>) = walk_fields st"
  "walk_fields (st\<lparr>ds_changed_addresses := l, ds_changed_storage := l'\<rparr>) = walk_fields st" "walk_fields (st\<lparr>ds_created := cr\<rparr>) = walk_fields st"
  by (simp_all add: walk_fields_def)

lemma journal_fields [simp]:
  "walk_fields (journal_address_changed a st) = walk_fields st" "walk_fields (journal_slot_changed a k st) = walk_fields st"
  by (simp_all add: journal_address_changed_def journal_slot_changed_def Let_def)

lemma observe_fields [simp]: "walk_fields (snd (observe_account st a)) = walk_fields st"
  by (simp add: observe_account_def materialize_absent_account_def split: option.split)

lemma observe_fields_eq: "observe_account st a = (r, st') \<Longrightarrow> walk_fields st' = walk_fields st"
  using observe_fields [of st a] by simp

lemma write_fields [simp]:
  "walk_fields (revive_if_deleted r a st) = walk_fields st" "walk_fields (touch a st) = walk_fields st"
  "walk_fields (note_wiped_storage r st) = walk_fields st" "walk_fields (store_created_code h c st) = walk_fields st"
  "walk_fields (update_record r f st) = walk_fields st"
  by (auto simp: revive_if_deleted_def touch_def note_wiped_storage_def store_created_code_def update_record_def Let_def split: option.split)

lemma storage_fields [simp]:
  "walk_fields (wipe_storage r a st) = walk_fields st" "walk_fields (write_code r h c st) = walk_fields st"
  "walk_fields (set_storage_slot r a k v st) = walk_fields st"
  by (auto simp: wipe_storage_def write_code_def set_storage_slot_def Let_def split: option.split)

lemma change_account_fields [simp]: "walk_fields (change_account f ch a st) = walk_fields st"
  by (simp add: change_account_def Let_def split: prod.split) (auto dest: observe_fields_eq)

lemma balance_fields [simp]:
  "walk_fields (add_to_balance a v st) = walk_fields st" "walk_fields (set_balance a v st) = walk_fields st"
  by (simp_all add: add_to_balance_def set_balance_def)

lemma destruct_fields [simp]: "walk_fields (destruct a st) = walk_fields st"
  by (simp add: destruct_def Let_def split: option.split del: set_record.simps record_at.simps)

lemma destruct_dead_among_fields [simp]: "walk_fields (destruct_dead_among addrs st) = walk_fields st"
  unfolding destruct_dead_among_def by (rule fold_fields) simp

lemma apply_code_diff_fields: "apply_code_diff keccak256 r a code ch st = Some st' \<Longrightarrow> walk_fields st' = walk_fields st"
  by (auto simp: apply_code_diff_def Let_def split: if_splits)

lemma apply_entry_steps:
  assumes "apply_entry keccak256 m st = Some st'"
  obtains r st0 st1 where "(case de_handle m of Some r \<Rightarrow> (r, st) | None \<Rightarrow> observe_account st (de_addr m)) = (r, st0)"
    "(case de_code m of None \<Rightarrow> Some (journal_address_changed (de_addr m) (revive_if_deleted r (de_addr m) st0))
      | Some code \<Rightarrow> apply_code_diff keccak256 r (de_addr m) code (de_code_hash m) (journal_address_changed (de_addr m) (revive_if_deleted r (de_addr m) st0)))
      = Some st1"
    "st' = fold (\<lambda>(k, v) st. set_storage_slot r (de_addr m) k v (journal_slot_changed (de_addr m) k st)) (de_modified_storage m)
      (update_record r (\<lambda>pa. set_account_from_diff pa (de_nonce m) (de_balance m)) st1)"
    "de_handle m = None \<or> de_handle m = lookup_account st (de_addr m)"
proof -
  define rs where "rs = (case de_handle m of Some r \<Rightarrow> (r, st) | None \<Rightarrow> observe_account st (de_addr m))"
  obtain r st0 where rs': "rs = (r, st0)"
    by fastforce
  show ?thesis
    using assms rs' that [of r st0]
    by (auto simp: apply_entry_def rs_def [symmetric] Let_def bind_eq_Some_conv split: if_splits)
qed

lemma apply_entry_fields:
  assumes "apply_entry keccak256 m st = Some st'"
  shows "walk_fields st' = walk_fields st"
  using assms
proof (rule apply_entry_steps)
  fix r st0 st1
  assume s: "(case de_handle m of Some r \<Rightarrow> (r, st) | None \<Rightarrow> observe_account st (de_addr m)) = (r, st0)"
    "(case de_code m of None \<Rightarrow> Some (journal_address_changed (de_addr m) (revive_if_deleted r (de_addr m) st0))
      | Some code \<Rightarrow> apply_code_diff keccak256 r (de_addr m) code (de_code_hash m) (journal_address_changed (de_addr m) (revive_if_deleted r (de_addr m) st0)))
      = Some st1"
    "st' = fold (\<lambda>(k, v) st. set_storage_slot r (de_addr m) k v (journal_slot_changed (de_addr m) k st)) (de_modified_storage m)
      (update_record r (\<lambda>pa. set_account_from_diff pa (de_nonce m) (de_balance m)) st1)"
  have "walk_fields st0 = walk_fields st"
    using s(1) by (auto split: option.splits dest: observe_fields_eq)
  moreover have "walk_fields st1 = walk_fields st0"
    using s(2) by (auto split: option.splits dest: apply_code_diff_fields)
  moreover have "walk_fields st' = walk_fields st1"
    unfolding s(3) by (subst fold_fields) (auto split: prod.split)
  ultimately show ?thesis
    by simp
qed

lemma apply_entries_fields: "apply_entries keccak256 ms st = Some st' \<Longrightarrow> walk_fields st' = walk_fields st"
  by (induction ms arbitrary: st) (auto simp: bind_eq_Some_conv dest: apply_entry_fields)

lemma apply_state_diff_fields:
  assumes "apply_state_diff keccak256 diff st = Some st'"
  shows "walk_fields st' = walk_fields st"
proof -
  obtain st1 where "apply_entries keccak256 (sd_modified_accounts diff) st = Some st1"
    "st' = fold (\<lambda>a st. destruct a (journal_address_changed a st)) (sd_deleted_accounts diff) st1"
    using assms by (auto simp: apply_state_diff_def)
  then show ?thesis
    using apply_entries_fields fold_fields [of "\<lambda>a st. destruct a (journal_address_changed a st)"] by simp
qed

lemma initialize_fields [simp]: "walk_fields (initialize rs blk st) = walk_fields st"
proof (induction rs blk st rule: initialize.induct)
  case (1 config blk direct)
  have "walk_fields (transfer_dao_balances direct) = walk_fields direct"
    unfolding transfer_dao_balances_def by (rule fold_fields) (simp add: Let_def)
  then show ?case
    by simp
qed (simp split: option.split)

lemma finalize_fields: "walk_fields (snd (finalize rs blk st)) = walk_fields st"
proof -
  have "walk_fields (pay_rewards rs blk st) = walk_fields st"
    unfolding pay_rewards_def Let_def by (subst fold_fields) simp_all
  moreover have "walk_fields (fold withdraw ws st) = walk_fields st" for ws
    by (rule fold_fields) (simp add: withdraw_def Let_def)
  ultimately show ?thesis
    by (simp add: finalize_cases split: option.split)
qed

section \<open>The records of the addresses\<close>

text \<open>The operations on a record, for the record of the address.\<close>

lemma extends_update_record:
  "lookup_account st a = Some r \<Longrightarrow> (\<And>pa. acc_addr (f pa) = acc_addr pa) \<Longrightarrow> extends st (update_record r f st)"
  unfolding update_record_def by (rule extends_set_record) simp_all

lemma keep_addr [simp]: "acc_addr (mark_changed pa) = acc_addr pa" "acc_addr (revived pa) = acc_addr pa" "acc_addr (set_account_from_diff pa n b) = acc_addr pa"
  by (simp_all add: mark_changed_def revived_def set_account_from_diff_def Let_def)

lemma extends_revive:
  assumes "lookup_account st a = Some r"
  shows "extends st (revive_if_deleted r a st)"
proof -
  have "extends st (set_record r (revived (record_at st r)) st)"
    by (rule extends_set_record [OF assms]) simp
  then show ?thesis
    unfolding revive_if_deleted_def using extends_trans extends_fields(1) by auto
qed

lemma extends_note_wiped: 
  assumes "lookup_account st a = Some r"
  shows "extends st (note_wiped_storage r st)"
proof -
  have "extends (st\<lparr>ds_wiped := w\<rparr>) (set_record r ((record_at st r)\<lparr>acc_absent_reads := 0\<rparr>) (st\<lparr>ds_wiped := w\<rparr>))" for w
    using extends_lookup [OF extends_fields(3) assms] by (rule extends_set_record) (simp add: record_core)
  then have "extends st (set_record r ((record_at st r)\<lparr>acc_absent_reads := 0\<rparr>) (st\<lparr>ds_wiped := w\<rparr>))" for w
    using extends_trans [OF extends_fields(3)] by blast
  then show ?thesis
    by (simp add: note_wiped_storage_def Let_def)
qed

lemma extends_store_code: "extends st (store_created_code h code st)"
  by (auto simp: store_created_code_def split: option.split)

lemma extends_wipe:
  assumes "lookup_account st a = Some r"
  shows "extends st (wipe_storage r a st)"
proof -
  let ?st = "note_wiped_storage r st"
  have "extends st ?st"
    by (rule extends_note_wiped [OF assms])
  moreover have "extends ?st (set_record r ((record_at ?st r)\<lparr>acc_slot_count := 0, acc_storage_root := kEmptyRoot\<rparr>) ?st)"
    using extends_lookup [OF calculation assms] by (rule extends_set_record) simp
  ultimately show ?thesis
    unfolding wipe_storage_def Let_def using extends_trans extends_fields(1) by blast
qed

lemma extends_write_code:
  assumes "lookup_account st a = Some r"
  shows "extends st (write_code r h code st)"
proof -
  have "extends st (set_record r (mark_changed ((record_at st r)\<lparr>acc_code_hash := h, acc_code_store_len := n, acc_code_store_offset := off\<rparr>)) st)" for n off
    by (rule extends_set_record [OF assms]) simp
  then show ?thesis
    using extends_trans [OF _ extends_store_code] by (auto simp: write_code_def Let_def split: option.split)
qed

lemma extends_apply_code:
  assumes "lookup_account st a = Some r" "apply_code_diff keccak256 r a code ch st = Some st'"
  shows "extends st st'"
proof -
  have "extends st (set_record r (mark_changed ((record_at st r)\<lparr>acc_code_hash := kEmptyHash, acc_code_store_len := 0\<rparr>)) st)"
    by (rule extends_set_record [OF assms(1)]) simp
  moreover have "extends st (write_code r h code (wipe_storage r a st))" for h
    using extends_wipe [OF assms(1)] extends_write_code [OF extends_lookup [OF extends_wipe [OF assms(1)] assms(1)]] extends_trans by blast
  moreover have "extends st (write_code r h code st)" for h
    by (rule extends_write_code [OF assms(1)])
  ultimately show ?thesis
    using assms(2) by (auto simp: apply_code_diff_def Let_def split: if_splits)
qed

lemma extends_set_slot:
  assumes "lookup_account st a = Some r"
  shows "extends st (set_storage_slot r a k v st)"
proof -
  let ?pa = "(record_at st r)\<lparr>acc_modified := True\<rparr>" let ?st = "set_record r ?pa st"
  have e: "extends st ?st"
    by (rule extends_set_record [OF assms]) simp
  have "acc_addr (record_at ?st r) = acc_addr ?pa"
    by (cases r) (auto simp: update_conv')
  then have "extends ?st (set_record r (?pa\<lparr>acc_slots := ss\<rparr>) ?st)" for ss
    by (intro extends_set_record [OF extends_lookup [OF e assms]]) simp
  then show ?thesis
    using e extends_trans unfolding set_storage_slot_def Let_def by (auto split: option.split)
qed

lemma extends_change_account: "extends st (change_account f ch a st)" if "\<And>pa. acc_addr (f pa) = acc_addr pa"
proof -
  obtain r st1 where o: "observe_account st a = (r, st1)"
    by fastforce
  note e = extends_observe [OF o]
  have r: "extends st1 (revive_if_deleted r a st1)"
    by (rule extends_revive [OF e(2)])
  let ?st = "revive_if_deleted r a st1"
  have "extends ?st (set_record r (mark_changed (f (record_at ?st r))) ?st)"
    using extends_lookup [OF r e(2)] by (rule extends_set_record) (simp add: that)
  then have "extends ?st (if ch (record_at ?st r) then journal_address_changed a (set_record r (mark_changed (f (record_at ?st r))) ?st) else ?st)"
    using extends_trans extends_fields(6) by auto
  then show ?thesis
    unfolding change_account_def o Let_def prod.case using e(1) r extends_trans extends_fields(8) by blast
qed

lemma extends_balance [simp]: "extends st (add_to_balance a v st)" "extends st (set_balance a v st)"
  unfolding add_to_balance_def set_balance_def by (rule extends_change_account, simp)+

lemma extends_fold: "(\<And>x st. extends st (f x st)) \<Longrightarrow> extends st (fold f xs st)"
  by (induction xs arbitrary: st) (auto intro: extends_trans)

lemma extends_destruct_created:
  assumes "map_of (ds_created st) a = Some pa" "find_pre_account st a = None"
  shows "extends st (set_record (CreatedRecord a) (pa\<lparr>acc_deleted := True\<rparr>) st)"
  by (rule extends_set_record [of _ a]) (use assms in \<open>simp_all add: lookup_account_def\<close>)

lemma extends_destruct:
  assumes "state_ok st"
  shows "extends st (destruct a st)"
proof -
  define st1 where "st1 = (case find_pre_account st a of None \<Rightarrow> st
    | Some off \<Rightarrow> (let st = (if acc_deleted (record_at st (PreRecord off)) then st else note_wiped_storage (PreRecord off) st)
        in set_record (PreRecord off) ((record_at st (PreRecord off))\<lparr>acc_deleted := True\<rparr>) st))"
  define st2 where "st2 = (case map_of (ds_created st1) a of None \<Rightarrow> st1 | Some pa \<Rightarrow> set_record (CreatedRecord a) (pa\<lparr>acc_deleted := True\<rparr>) st1)"
  have e1: "extends st st1"
  proof (cases "find_pre_account st a")
    case (Some off)
    let ?st = "if acc_deleted (record_at st (PreRecord off)) then st else note_wiped_storage (PreRecord off) st"
    have "extends st ?st"
      using extends_note_wiped [OF find_pre_lookup [OF Some]] by simp
    moreover have "extends ?st (set_record (PreRecord off) ((record_at ?st (PreRecord off))\<lparr>acc_deleted := True\<rparr>) ?st)"
      using extends_lookup [OF calculation find_pre_lookup [OF Some]] by (rule extends_set_record) simp
    ultimately show ?thesis
      unfolding st1_def Let_def by (simp only: Some option.case) (rule extends_trans)
  qed (simp add: st1_def)
  have "extends st1 st2"
  proof (cases "map_of (ds_created st1) a")
    case (Some pa)
    have n: "find_pre_account st a = None"
    proof (rule ccontr)
      assume f: "find_pre_account st a \<noteq> None"
      then have "map_of (ds_created st1) a = map_of (ds_created st) a"
        by (auto simp: st1_def note_wiped_storage_def Let_def split: option.splits)
      then have "c_created (core st) a \<noteq> None"
        using Some by (metis created_core option.distinct(1))
      then show False
        using f assms by (simp add: state_ok_def core_ok_def records_ok_def find_pre_core)
    qed
    then show ?thesis
      using extends_destruct_created [OF Some] Some by (simp add: st2_def st1_def)
  qed (simp add: st2_def)
  then have e: "extends st st2"
    by (rule extends_trans [OF e1])
  have d: "destruct a st = journal_address_changed a (touch a (st2\<lparr>ds_overflow := AList.delete a (ds_overflow st2)\<rparr>))"
    unfolding destruct_def st2_def st1_def Let_def ..
  show ?thesis
    unfolding d by (rule extends_trans [OF _ extends_fields(6)], rule extends_trans [OF _ extends_fields(8)], rule extends_trans [OF e extends_fields(1)])
qed

lemma extends_destructs:
  "state_ok st \<Longrightarrow> extends st (fold (\<lambda>a st. destruct a (journal_address_changed a st)) addrs st)"
proof (induction addrs arbitrary: st)
  case (Cons a addrs)
  let ?st = "journal_address_changed a st"
  have "core ?st = core st"
    by (simp add: journal_address_changed_def)
  then have s: "state_ok ?st"
    using Cons.prems by (simp add: state_ok_def)
  have e: "extends st (destruct a ?st)"
    by (rule extends_trans [OF extends_fields(6) extends_destruct [OF s]])
  have "state_ok (destruct a ?st)"
    using destruct_ok [OF s] by simp
  from extends_trans [OF e Cons.IH [OF this]] show ?case
    by simp
qed simp

lemma extends_destruct_dead:
  "state_ok st \<Longrightarrow> extends st (destruct_dead_among addrs st)"
proof (induction addrs arbitrary: st)
  case (Cons a addrs)
  let ?st = "if is_dead st a then destruct a st else st"
  have "extends st ?st" "state_ok ?st"
    using extends_destruct destruct_ok Cons.prems by auto
  then show ?case
    using Cons.IH [of ?st] extends_trans [of st ?st] by (simp add: destruct_dead_among_def)
qed (simp add: destruct_dead_among_def)

lemma extends_set_slots:
  "lookup_account st a = Some r \<Longrightarrow> extends st (fold (\<lambda>(k, v) st. set_storage_slot r a k v (journal_slot_changed a k st)) kvs st)"
proof (induction kvs arbitrary: st)
  case (Cons kv kvs)
  obtain k v where kv: "kv = (k, v)"
    by fastforce
  let ?st = "set_storage_slot r a k v (journal_slot_changed a k st)"
  have "extends st ?st"
    using extends_set_slot [OF extends_lookup [OF extends_fields(7) Cons.prems]] extends_trans [OF extends_fields(7)] by blast
  then show ?case
    using Cons.IH [of ?st] extends_lookup [OF _ Cons.prems] extends_trans by (simp add: kv)
qed simp

lemma extends_apply_entry:
  assumes "apply_entry keccak256 m st = Some st'"
  shows "extends st st'"
  using assms
proof (rule apply_entry_steps)
  fix r st0 st2
  let ?st1 = "journal_address_changed (de_addr m) (revive_if_deleted r (de_addr m) st0)"
  let ?st3 = "update_record r (\<lambda>pa. set_account_from_diff pa (de_nonce m) (de_balance m)) st2"
  assume s: "(case de_handle m of Some r \<Rightarrow> (r, st) | None \<Rightarrow> observe_account st (de_addr m)) = (r, st0)"
    "(case de_code m of None \<Rightarrow> Some ?st1 | Some code \<Rightarrow> apply_code_diff keccak256 r (de_addr m) code (de_code_hash m) ?st1) = Some st2"
    "st' = fold (\<lambda>(k, v) st. set_storage_slot r (de_addr m) k v (journal_slot_changed (de_addr m) k st)) (de_modified_storage m) ?st3"
    "de_handle m = None \<or> de_handle m = lookup_account st (de_addr m)"
  have e0: "extends st st0" "lookup_account st0 (de_addr m) = Some r"
    using s(1,4) extends_observe [of st "de_addr m"] by (auto split: option.splits)
  have e1: "extends st0 ?st1"
    using extends_revive [OF e0(2)] extends_trans extends_fields(6) by blast
  have e2: "extends ?st1 st2"
    using s(2) extends_apply_code [OF extends_lookup [OF e1 e0(2)]] by (auto split: option.splits)
  have l2: "lookup_account st2 (de_addr m) = Some r"
    using extends_lookup [OF e2 extends_lookup [OF e1 e0(2)]] .
  have e3: "extends st2 ?st3"
    by (rule extends_update_record [OF l2]) simp
  have "extends ?st3 st'"
    unfolding s(3) by (rule extends_set_slots [OF extends_lookup [OF e3 l2]])
  then show ?thesis
    using e0(1) e1 e2 e3 extends_trans by blast
qed

lemma extends_apply_entries: "apply_entries keccak256 ms st = Some st' \<Longrightarrow> extends st st'"
  by (induction ms arbitrary: st) (auto simp: bind_eq_Some_conv dest!: extends_apply_entry intro: extends_trans)

lemma extends_initialize: "extends st (initialize rs blk st)"
proof (induction rs blk st rule: initialize.induct)
  case (1 config blk st)
  have "extends st (set_balance a 0 (add_to_balance kWithdraw b st))" for a b st
    using extends_trans extends_balance by blast
  then have "extends st (transfer_dao_balances st)" for st
    unfolding transfer_dao_balances_def Let_def by (rule extends_fold)
  then show ?case
    by simp
qed (simp split: option.split)

lemma extends_withdraws: "state_ok st \<Longrightarrow> extends st (fold withdraw ws st)"
proof (induction ws arbitrary: st)
  case (Cons w ws)
  let ?st = "add_to_balance (wd_address w) (amount_in_wei w) st"
  have "state_ok ?st"
    using add_to_balance_ok [OF Cons.prems] by blast
  then have e: "extends st (withdraw w st)" "state_ok (withdraw w st)"
    unfolding withdraw_def Let_def
    by (rule extends_trans [OF extends_balance(1) extends_destruct_dead], simp add: destruct_dead_among_ok)
  from extends_trans [OF e(1) Cons.IH [OF e(2)]] show ?case
    by simp
qed simp

lemma extends_finalize: "state_ok st \<Longrightarrow> extends st (snd (finalize rs blk st))"
proof -
  assume s: "state_ok st"
  have "extends st (pay_rewards rs blk st)"
    unfolding pay_rewards_def Let_def using extends_fold [of "\<lambda>e. add_to_balance (fst e) (snd e)"] extends_trans extends_balance(1) by blast
  then show ?thesis
    using extends_withdraws [OF s] by (auto simp: finalize_cases split: option.split)
qed

lemma extends_apply_state_diff:
  assumes "state_ok st" "\<forall>m \<in> set (sd_modified_accounts diff). entry_valid keccak256 st m" "hash32 keccak256"
    "apply_state_diff keccak256 diff st = Some st'"
  shows "extends st st'"
proof -
  obtain st1 where st1: "apply_entries keccak256 (sd_modified_accounts diff) st = Some st1" "state_ok st1"
    using apply_entries_ok [OF assms(1-3)] by blast
  then show ?thesis
    using assms(4) extends_trans [OF extends_apply_entries [OF st1(1)] extends_destructs [OF st1(2)]] by (auto simp: apply_state_diff_def)
qed

lemma listed_frame: "extends st st' \<Longrightarrow> walk_fields st' = walk_fields st \<Longrightarrow> accounts_listed st \<longrightarrow> accounts_listed st'"
  using accounts_listed_extends by (auto simp: walk_fields_def)

end
