(* ===== verification/Block_Execution.thy ===== *)
theory Block_Execution
  imports Processor State_Frame
begin

text \<open>
  The execution of blocks refines transitions of the map of accounts, in which the EVM is any program that
  gets right answers about the accounts and headers. It ends with a result on every state that keeps the invariant.
\<close>

section \<open>What is relied on of evmone\<close>

text \<open>
  Its programs use the handles they are given for their addresses, in calls and in the diffs they return; a diff that gives a code hash gives
  that of the code, and keys, addresses and topics have their sizes.
\<close>

definition diff_ok :: "(bytes \<Rightarrow> bytes32) \<Rightarrow> handles \<Rightarrow> state_diff \<Rightarrow> bool" where
  "diff_ok keccak256 H diff \<longleftrightarrow>
     (\<forall>m \<in> set (sd_modified_accounts diff).
        handle_ok H (de_handle m) (de_addr m) \<and>
        (case (de_code m, de_code_hash m) of (Some code, Some h) \<Rightarrow> h = keccak256 code | _ \<Rightarrow> True) \<and>
        list_all (\<lambda>e. length (fst e) = 32) (de_modified_storage m))"

definition evmone_ok :: "(bytes \<Rightarrow> bytes32) \<Rightarrow> 'bal evmone \<Rightarrow> bool" where
  "evmone_ok keccak256 em \<longleftrightarrow>
     (\<forall>info txn revn props. disciplined (\<lambda>H tr. diff_ok keccak256 H (tr_state_diff tr) \<and> (\<forall>l \<in> set (tr_logs tr). valid_log l)) {}
        (em_transition em info txn revn props)) \<and>
     (\<forall>info revn. disciplined (diff_ok keccak256) {} (em_block_start em info revn)) \<and>
     (\<forall>info revn. disciplined (\<lambda>H rr. \<forall>x \<in> set_option rr. diff_ok keccak256 H (rr_state_diff x)) {} (em_block_end em info revn)) \<and>
     (\<forall>revn b os ws. disciplined (diff_ok keccak256) {} (em_finalize em revn b os ws)) \<and>
     (\<forall>i diff bal. disciplined (\<lambda>H x. True) {} (em_record_diff em i diff bal))"

text \<open>What the steps of a block leave of the processor.\<close>

definition same_env :: "'bal processor \<Rightarrow> 'bal processor \<Rightarrow> bool" where
  "same_env p p' \<longleftrightarrow>
     ep_rule_set p' = ep_rule_set p \<and> ep_block p' = ep_block p \<and> ep_config p' = ep_config p \<and> ep_evm1_block p' = ep_evm1_block p \<and>
     ds_headers (ep_direct p') = ds_headers (ep_direct p) \<and> (accounts_listed (ep_direct p) \<longrightarrow> accounts_listed (ep_direct p'))"

definition same_gas :: "'bal processor \<Rightarrow> 'bal processor \<Rightarrow> bool" where
  "same_gas p p' \<longleftrightarrow>
     ep_cumulative_gas_used p' = ep_cumulative_gas_used p \<and> ep_sum_regular_block_gas p' = ep_sum_regular_block_gas p \<and>
     ep_sum_state_block_gas p' = ep_sum_state_block_gas p \<and> ep_tx_index p' = ep_tx_index p"

lemma same_env_refl [simp]: "same_env p p"
  by (simp add: same_env_def)

lemma same_env_trans: "same_env p p' \<Longrightarrow> same_env p' p'' \<Longrightarrow> same_env p p''"
  by (simp add: same_env_def)

lemma same_env_revision: "same_env p p' \<Longrightarrow> processor_revision p' = processor_revision p"
  by (simp add: same_env_def processor_revision_def)

section \<open>The steps\<close>

lemma run_evm_ok:
  assumes "view_ok (ep_direct p)" "disciplined P {} prog"
  obtains r st' H where "run_evm prog p = Some (r, p\<lparr>ep_direct := st'\<rparr>)" "P H r" "handles_ok H st'" "unchanged (ep_direct p) st'"
    "outcome (header (ep_block p)) (abs_state (ep_direct p)) (ds_headers (ep_direct p)) prog r"
proof -
  have "handles_ok {} (ep_direct p)"
    by (simp add: handles_ok_def)
  from run_ok [OF assms(1) this assms(2), of "header (ep_block p)"] show ?thesis
    using that by (auto simp: run_evm_def)
qed

lemma run_evm_result:
  assumes "view_ok (ep_direct p)" "disciplined P {} prog" "run_evm prog p = Some (r, p1)"
  shows "view_ok (ep_direct p1) \<and> same_env p p1 \<and> same_gas p p1"
proof -
  obtain r' st' H where "run_evm prog p = Some (r', p\<lparr>ep_direct := st'\<rparr>)" "P H r'" "handles_ok H st'" "unchanged (ep_direct p) st'"
    "outcome (header (ep_block p)) (abs_state (ep_direct p)) (ds_headers (ep_direct p)) prog r'"
    by (rule run_evm_ok [OF assms(1,2)])
  then show ?thesis
    using assms(3) by (auto simp: unchanged_def same_env_def same_gas_def)
qed

lemma record_diff_ok:
  assumes "view_ok (ep_direct p)" "evmone_ok keccak256 em"
  obtains p' where "record_diff em i diff p = Some p'" "unchanged (ep_direct p) (ep_direct p')" "same_env p p'" "same_gas p p'"
proof (cases "processor_revision p \<ge> EVMC_AMSTERDAM")
  case True
  have "disciplined (\<lambda>H x. True) {} (em_record_diff em i diff (ep_bal_builder p))"
    using assms(2) by (simp add: evmone_ok_def)
  from run_evm_ok [OF assms(1) this] obtain bal st' where
    "run_evm (em_record_diff em i diff (ep_bal_builder p)) p = Some (bal, p\<lparr>ep_direct := st'\<rparr>)" "unchanged (ep_direct p) st'"
    by metis
  then show ?thesis
    using True by (intro that [of "p\<lparr>ep_direct := st', ep_bal_builder := bal\<rparr>"])
      (simp_all add: record_diff_def same_env_def same_gas_def unchanged_def)
next
  case False
  then show ?thesis
    using assms(1) by (intro that [of p]) (simp_all add: record_diff_def unchanged_refl same_gas_def)
qed

lemma handle_ok_lookup: "handles_ok H st \<Longrightarrow> handle_ok H handle a \<Longrightarrow> handle = None \<or> handle = lookup_account st a"
  by (cases handle) (auto simp: handles_ok_def)

lemma apply_diff_ok:
  assumes "view_ok (ep_direct p)" "handles_ok H (ep_direct p)" "diff_ok keccak256 H diff" "hash32 keccak256"
  obtains st' where "apply_diff keccak256 diff p = Some (p\<lparr>ep_direct := st'\<rparr>)" "view_ok st'"
    "abs_state st' = diff_accounts keccak256 diff (abs_state (ep_direct p))" "ds_headers st' = ds_headers (ep_direct p)"
    "accounts_listed (ep_direct p) \<longrightarrow> accounts_listed st'"
proof -
  have e: "entry_valid keccak256 (ep_direct p) m" if "m \<in> set (sd_modified_accounts diff)" for m
    using that assms(3) handle_ok_lookup [OF assms(2), of "de_handle m" "de_addr m"] by (simp add: diff_ok_def entry_valid_def)
  then obtain st' where st': "apply_state_diff keccak256 diff (ep_direct p) = Some st'" "state_ok st'"
    "abs_state st' = diff_accounts keccak256 diff (abs_state (ep_direct p))"
    using apply_state_diff_ok [OF _ _ assms(4), of "ep_direct p" diff] assms(1) by (auto simp: view_ok_def)
  have w: "walk_fields st' = walk_fields (ep_direct p)"
    by (rule apply_state_diff_fields [OF st'(1)])
  have "extends (ep_direct p) st'"
    using extends_apply_state_diff [OF _ _ assms(4) st'(1)] e assms(1) by (simp add: view_ok_def)
  from listed_frame [OF this w] show ?thesis
    using st' assms(1) walk_ok_fields [OF w] w by (intro that [of st']) (auto simp: apply_diff_def view_ok_def walk_fields_def)
qed

section \<open>Transactions\<close>

text \<open>
  A transaction on a map of accounts: its sender has the nonce and the funds for it, and the EVM runs it with right answers.
\<close>

definition affordable :: "accounts \<Rightarrow> address \<Rightarrow> transaction \<Rightarrow> bool" where
  "affordable s a txn \<longleftrightarrow>
     a_nonce (acct_or_fresh s a) = tx_nonce txn \<and> max_cost txn + unat (tx_value txn) \<le> unat (a_balance (acct_or_fresh s a))"

definition runs ::
  "evmone_constants \<Rightarrow> 'bal evmone \<Rightarrow> 'bal processor \<Rightarrow> accounts \<Rightarrow> address \<Rightarrow> transaction \<Rightarrow> transition_receipt \<Rightarrow> bool" where
  "runs ev em p s a txn tr \<longleftrightarrow>
     outcome (header (ep_block p)) s (ds_headers (ep_direct p))
       (em_transition em (ep_evm1_block p) (evm_transaction_of (ep_config p) a txn) (processor_revision p)
          (tx_properties_of ev em (processor_revision p) a txn)) tr"

lemma runs_same_env: "same_env p p' \<Longrightarrow> runs ev em p' s a txn tr = runs ev em p s a txn tr"
  by (simp add: runs_def same_env_revision) (simp add: same_env_def)

text \<open>The caches of a transaction play no role in what is executed.\<close>

lemma sender_irrelevant:
  "evm_transaction_of config a (snd (sender k e txn)) = evm_transaction_of config a txn"
  "tx_properties_of ev em revn a (snd (sender k e txn)) = tx_properties_of ev em revn a txn"
  by (simp_all add: evm_transaction_of_def tx_properties_of_def sender_def amsterdam_tx_gas_cost_def intrinsic_gas_def floor_cost_def Let_def)

lemma note_delegations_eq [simp]: "note_delegations auths st = st"
  unfolding note_delegations_def note_created_code_def by (induction auths) simp_all

text \<open>The gas of transactions in the three counts; the two dimensions are counted from Amsterdam on.\<close>

definition regular_gas :: "'bal processor \<Rightarrow> transition_receipt \<Rightarrow> u64" where
  "regular_gas p tr = (if processor_revision p \<ge> EVMC_AMSTERDAM then tr_block_gas_used tr - tr_state_gas_used tr else 0)"

definition state_gas :: "'bal processor \<Rightarrow> transition_receipt \<Rightarrow> u64" where
  "state_gas p tr = (if processor_revision p \<ge> EVMC_AMSTERDAM then tr_state_gas_used tr else 0)"

definition gas_after :: "'bal processor \<Rightarrow> transition_receipt list \<Rightarrow> 'bal processor \<Rightarrow> bool" where
  "gas_after p trs p' \<longleftrightarrow>
     ep_cumulative_gas_used p' = ep_cumulative_gas_used p + sum_list (map tr_gas_used trs) \<and>
     ep_sum_regular_block_gas p' = ep_sum_regular_block_gas p + sum_list (map (regular_gas p) trs) \<and>
     ep_sum_state_block_gas p' = ep_sum_state_block_gas p + sum_list (map (state_gas p) trs)"

lemma gas_after_step:
  assumes "gas_after p [tr] p1" "same_env p p1" "gas_after p1 trs p'"
  shows "gas_after p (tr # trs) p'"
proof -
  have "regular_gas p1 = regular_gas p" "state_gas p1 = state_gas p"
    using assms(2) by (simp_all add: fun_eq_iff regular_gas_def state_gas_def same_env_revision)
  then show ?thesis
    using assms by (simp add: gas_after_def add.assoc)
qed

lemma add_gas_eq:
  "same_env p (add_gas tr p)" "ep_direct (add_gas tr p) = ep_direct p" "ep_tx_index (add_gas tr p) = ep_tx_index p"
  "gas_after p [tr] (add_gas tr p)"
  by (simp_all add: add_gas_def same_env_def gas_after_def regular_gas_def state_gas_def processor_revision_def Let_def)

lemma execute_transaction_ok:
  assumes "view_ok (ep_direct p)" "evmone_ok (fst cr) em" "hash32 (fst cr)" "fst (sender (fst cr) (snd cr) txn) = Some a"
  obtains tr p' where
    "execute_transaction cr ev em txn p = Some (receipt_of (fst cr) txn tr (ep_cumulative_gas_used p + tr_gas_used tr), p')"
    "view_ok (ep_direct p')" "same_env p p'" "runs ev em p (abs_state (ep_direct p)) a txn tr"
    "abs_state (ep_direct p') = diff_accounts (fst cr) (tr_state_diff tr) (abs_state (ep_direct p))"
    "gas_after p [tr] p'" "\<forall>l \<in> set (tr_logs tr). valid_log l"
proof -
  let ?prog = "em_transition em (ep_evm1_block p) (evm_transaction_of (ep_config p) a txn) (processor_revision p)
     (tx_properties_of ev em (processor_revision p) a txn)"
  have "disciplined (\<lambda>H tr. diff_ok (fst cr) H (tr_state_diff tr) \<and> (\<forall>l \<in> set (tr_logs tr). valid_log l)) {} ?prog"
    using assms(2) by (simp add: evmone_ok_def)
  then obtain tr st1 H where r: "run_evm ?prog p = Some (tr, p\<lparr>ep_direct := st1\<rparr>)"
      "diff_ok (fst cr) H (tr_state_diff tr) \<and> (\<forall>l \<in> set (tr_logs tr). valid_log l)" "handles_ok H st1" "unchanged (ep_direct p) st1"
      "outcome (header (ep_block p)) (abs_state (ep_direct p)) (ds_headers (ep_direct p)) ?prog tr"
    by (rule run_evm_ok [OF assms(1)])
  then have 1: "run_evm ?prog p = Some (tr, p\<lparr>ep_direct := st1\<rparr>)" "diff_ok (fst cr) H (tr_state_diff tr)"
      "\<forall>l \<in> set (tr_logs tr). valid_log l" "handles_ok H st1" "unchanged (ep_direct p) st1" "runs ev em p (abs_state (ep_direct p)) a txn tr"
    by (simp_all add: runs_def)
  let ?p1 = "add_gas tr (p\<lparr>ep_direct := st1\<rparr>)"
  have v1: "view_ok (ep_direct ?p1)"
    using 1(5) by (simp add: add_gas_eq unchanged_def)
  from record_diff_ok [OF v1 assms(2), of "of_nat (ep_tx_index ?p1 + 1)" "tr_state_diff tr"]
  obtain p2 where 2: "record_diff em (of_nat (ep_tx_index ?p1 + 1)) (tr_state_diff tr) ?p1 = Some p2"
    "unchanged st1 (ep_direct p2)" "same_env ?p1 p2" "same_gas ?p1 p2"
    by (auto simp: add_gas_eq)
  let ?p3 = "p2\<lparr>ep_tx_index := ep_tx_index p2 + 1\<rparr>"
  have "view_ok (ep_direct ?p3)" "handles_ok H (ep_direct ?p3)"
    using 1(4) 2(2) handles_ok_unchanged by (auto simp: unchanged_def)
  from apply_diff_ok [OF this 1(2) assms(3)] obtain st' where
    3: "apply_diff (fst cr) (tr_state_diff tr) ?p3 = Some (?p3\<lparr>ep_direct := st'\<rparr>)" "view_ok st'"
      "abs_state st' = diff_accounts (fst cr) (tr_state_diff tr) (abs_state (ep_direct p2))" "ds_headers st' = ds_headers (ep_direct p2)"
      "accounts_listed (ep_direct p2) \<longrightarrow> accounts_listed st'"
    by auto
  have sndr: "sender (fst cr) (snd cr) txn = (Some a, snd (sender (fst cr) (snd cr) txn))"
    using assms(4) by (metis prod.collapse)
  have "receipt_of (fst cr) (snd (sender (fst cr) (snd cr) txn)) tr g = receipt_of (fst cr) txn tr g" for g
    by (simp add: receipt_of_def sender_def Let_def)
  then have "execute_transaction cr ev em txn p =
      Some (receipt_of (fst cr) txn tr (ep_cumulative_gas_used ?p3), ?p3\<lparr>ep_direct := st'\<rparr>)"
    using 1(1) 2(1) 3(1)
    by (subst execute_transaction_def, subst sndr) (simp add: sender_irrelevant Let_def processor_revision_def)
  moreover have "gas_after p [tr] (?p3\<lparr>ep_direct := st'\<rparr>)"
    using 2(4) add_gas_eq(4) [of "p\<lparr>ep_direct := st1\<rparr>" tr]
    by (simp add: same_gas_def gas_after_def regular_gas_def state_gas_def processor_revision_def)
  moreover from this have "ep_cumulative_gas_used p2 = ep_cumulative_gas_used p + tr_gas_used tr"
    by (simp add: gas_after_def)
  moreover have "same_env p (?p3\<lparr>ep_direct := st'\<rparr>)"
    using 1(5) 2(2,3) 3(4,5) by (simp add: same_env_def add_gas_def Let_def unchanged_def)
  ultimately show ?thesis
    using 1(3,5,6) 2(2) 3(2,3) that by (simp add: unchanged_def)
qed

lemma validate_transaction_on_ok:
  assumes "view_ok st" "validate_transaction_on cr txn st gas = (err, txn', st')"
  shows "unchanged st st'" "txn' = snd (sender (fst cr) (snd cr) txn)"
    "err = VOk \<Longrightarrow> \<exists>a. fst (sender (fst cr) (snd cr) txn) = Some a \<and> affordable (abs_state st) a txn \<and> tx_gas_limit txn \<le> gas"
proof -
  let ?t = "snd (sender (fst cr) (snd cr) txn)"
  have v: "snd (validate_transaction cr txn (direct_view st) gas) = ?t"
    by (simp add: validate_transaction_def Let_def split: prod.split)
  then show "txn' = ?t"
    using assms(2) by (auto simp: validate_transaction_on_def Let_def split: prod.splits)
  have "st' = st \<or> (\<exists>a. st' = snd (read_code a st))"
    using assms(2) by (auto simp: validate_transaction_on_def Let_def split: prod.splits option.splits if_splits)
  then show "unchanged st st'"
    using unchanged_refl [OF assms(1)] read_code_unchanged [OF assms(1)] by (metis prod.collapse)
  assume "err = VOk"
  then have "fst (validate_transaction cr txn (direct_view st) gas) = VOk"
    using assms(2) by (auto simp: validate_transaction_on_def Let_def split: prod.splits)
  moreover have "maximum_gas_cost ?t = maximum_gas_cost txn" "tx_value ?t = tx_value txn" "tx_nonce ?t = tx_nonce txn"
    "tx_gas_limit ?t = tx_gas_limit txn"
    by (simp_all add: sender_def maximum_gas_cost_def total_blob_gas_def Let_def)
  ultimately show "\<exists>a. fst (sender (fst cr) (snd cr) txn) = Some a \<and> affordable (abs_state st) a txn \<and> tx_gas_limit txn \<le> gas"
    by (cases "sender (fst cr) (snd cr) txn")
      (auto simp: validate_transaction_def balance_compare affordable_def direct_view_def get_nonce_abs get_balance_abs not_less
        split: option.splits if_splits)
qed

lemma sender_again: "sender k e (snd (sender k e txn)) = (fst (sender k e txn), snd (sender k e txn))"
  by (simp add: sender_def Let_def)

text \<open>The transactions of a block as transitions of the map of accounts.\<close>

inductive tx_steps ::
  "crypto \<Rightarrow> evmone_constants \<Rightarrow> 'bal evmone \<Rightarrow> 'bal processor \<Rightarrow> accounts \<Rightarrow> transaction list \<Rightarrow> transition_receipt list \<Rightarrow> accounts \<Rightarrow> bool"
  for cr ev em p where
  none: "tx_steps cr ev em p s [] [] s"
| step: "fst (sender (fst cr) (snd cr) txn) = Some a \<Longrightarrow> affordable s a txn \<Longrightarrow> runs ev em p s a txn tr \<Longrightarrow>
     tx_steps cr ev em p (diff_accounts (fst cr) (tr_state_diff tr) s) txns trs s' \<Longrightarrow> tx_steps cr ev em p s (txn # txns) (tr # trs) s'"

inductive_cases tx_steps_ConsE: "tx_steps cr ev em p s (txn # txns) trs s'"

lemma tx_steps_same_env: "tx_steps cr ev em p' s txns trs s' \<Longrightarrow> same_env p p' \<Longrightarrow> tx_steps cr ev em p s txns trs s'"
  by (induction rule: tx_steps.induct) (auto intro: tx_steps.intros simp: runs_same_env)

lemma tx_steps_length: "tx_steps cr ev em p s txns trs s' \<Longrightarrow> length trs = length txns"
  by (induction rule: tx_steps.induct) simp_all

fun receipts_from :: "(bytes \<Rightarrow> bytes32) \<Rightarrow> transaction list \<Rightarrow> transition_receipt list \<Rightarrow> u64 \<Rightarrow> receipt list" where
  "receipts_from keccak256 (txn # txns) (tr # trs) g =
     receipt_of keccak256 txn tr (g + tr_gas_used tr) # receipts_from keccak256 txns trs (g + tr_gas_used tr)"
| "receipts_from keccak256 _ _ g = []"

text \<open>
  What the loop over the transactions gives: the receipts and the gas of a run of all of them, in the first of the three counts of gas.
\<close>

definition executed ::
  "crypto \<Rightarrow> evmone_constants \<Rightarrow> 'bal evmone \<Rightarrow> 'bal processor \<Rightarrow> transaction list \<Rightarrow> receipt list \<Rightarrow> 'bal processor \<Rightarrow> bool" where
  "executed cr ev em p txns rs p' \<longleftrightarrow>
     (\<exists>trs. tx_steps cr ev em p (abs_state (ep_direct p)) txns trs (abs_state (ep_direct p')) \<and>
        rs = receipts_from (fst cr) txns trs (ep_cumulative_gas_used p) \<and> (\<forall>tr \<in> set trs. \<forall>l \<in> set (tr_logs tr). valid_log l) \<and>
        gas_after p trs p')"

lemma executed_none: "executed cr ev em p [] [] p"
  by (auto simp: executed_def gas_after_def intro: tx_steps.none exI [of _ "[]"])

lemma executed_step:
  assumes "fst (sender (fst cr) (snd cr) txn) = Some a" "affordable (abs_state (ep_direct p)) a txn"
    "runs ev em p (abs_state (ep_direct p)) a txn tr" "\<forall>l \<in> set (tr_logs tr). valid_log l" "same_env p p1"
    "abs_state (ep_direct p1) = diff_accounts (fst cr) (tr_state_diff tr) (abs_state (ep_direct p))"
    "gas_after p [tr] p1" "executed cr ev em p1 txns rs p'"
  shows "executed cr ev em p (txn # txns) (receipt_of (fst cr) txn tr (ep_cumulative_gas_used p + tr_gas_used tr) # rs) p'"
proof -
  obtain trs where t: "tx_steps cr ev em p1 (abs_state (ep_direct p1)) txns trs (abs_state (ep_direct p'))"
    "rs = receipts_from (fst cr) txns trs (ep_cumulative_gas_used p1)" "\<forall>tr \<in> set trs. \<forall>l \<in> set (tr_logs tr). valid_log l"
    "gas_after p1 trs p'"
    using assms(8) unfolding executed_def by blast
  have "tx_steps cr ev em p (abs_state (ep_direct p)) (txn # txns) (tr # trs) (abs_state (ep_direct p'))"
    using tx_steps.step [OF assms(1-3)] tx_steps_same_env [OF t(1) assms(5)] assms(6) by simp
  then show ?thesis
    using t(2,3) assms(4,7) gas_after_step [OF assms(7,5) t(4)] unfolding executed_def
    by (intro exI [of _ "tr # trs"]) (simp add: gas_after_def)
qed

lemma execute_transactions_ok:
  assumes "view_ok (ep_direct p)" "evmone_ok (fst cr) em" "hash32 (fst cr)"
  shows "\<exists>err rs p'. execute_transactions cr ev em txns p = Some (err, rs, p') \<and> view_ok (ep_direct p') \<and> same_env p p' \<and>
    (err = VOk \<longrightarrow> executed cr ev em p txns rs p')"
  using assms(1)
proof (induction txns arbitrary: p)
  case Nil
  then show ?case
    by (simp add: executed_none)
next
  case (Cons txn txns)
  let ?ams = "processor_revision p \<ge> EVMC_AMSTERDAM"
  define gas where "gas = (if ?ams then gas_limit (header (ep_block p)) else available_gas p)"
  obtain err txn' st where v: "validate_transaction_on cr txn (ep_direct p) gas = (err, txn', st)"
    by (metis prod_cases3)
  note vok = validate_transaction_on_ok [OF Cons.prems v]
  let ?p = "p\<lparr>ep_direct := st\<rparr>"
  have env: "view_ok st" "same_env p ?p" "abs_state st = abs_state (ep_direct p)"
    using vok(1) by (simp_all add: unchanged_def same_env_def)
  have loop: "execute_transactions cr ev em (txn # txns) p =
      (if ?ams \<and> over_block_limit txn p then Some (VBlockGasLimitExceeded, [], p)
       else if err \<noteq> VOk then Some (err, [], ?p)
       else Option.bind (execute_transaction cr ev em txn' ?p)
         (\<lambda>(r, p). Option.bind (execute_transactions cr ev em txns p) (\<lambda>(err, rs, p). Some (err, r # rs, p))))"
    using v by (simp add: gas_def Let_def)
  show ?case
  proof (cases "?ams \<and> over_block_limit txn p \<or> err \<noteq> VOk")
    case True
    then show ?thesis
      using Cons.prems env unfolding loop by auto
  next
    case False
    then obtain a where a: "fst (sender (fst cr) (snd cr) txn) = Some a" "affordable (abs_state (ep_direct p)) a txn"
      using vok(3) by auto
    have sndr: "fst (sender (fst cr) (snd cr) txn') = Some a"
      using a(1) by (simp add: vok(2) sender_again)
    have cached: "receipt_of (fst cr) txn' tr g = receipt_of (fst cr) txn tr g" "runs ev em ?p s a txn' tr = runs ev em p s a txn tr" for tr g s
      using runs_same_env [OF env(2), of ev em s a txn tr]
      by (simp_all add: vok(2) receipt_of_def runs_def sender_irrelevant)
    obtain tr p1 where x: "execute_transaction cr ev em txn' ?p = Some (receipt_of (fst cr) txn tr (ep_cumulative_gas_used p + tr_gas_used tr), p1)"
        "view_ok (ep_direct p1)" "same_env ?p p1" "runs ev em p (abs_state (ep_direct p)) a txn tr"
        "abs_state (ep_direct p1) = diff_accounts (fst cr) (tr_state_diff tr) (abs_state (ep_direct p))"
        "gas_after p [tr] p1" "\<forall>l \<in> set (tr_logs tr). valid_log l"
      by (rule execute_transaction_ok [OF _ assms(2,3) sndr, of ?p ev])
        (use env cached in \<open>simp_all add: gas_after_def regular_gas_def state_gas_def processor_revision_def\<close>)
    have env1: "same_env p p1"
      using env(2) x(3) same_env_trans by blast
    obtain err' rs p' where y: "execute_transactions cr ev em txns p1 = Some (err', rs, p')" "view_ok (ep_direct p')" "same_env p1 p'"
      "err' = VOk \<longrightarrow> executed cr ev em p1 txns rs p'"
      using Cons.IH [OF x(2)] by blast
    have "executed cr ev em p (txn # txns) (receipt_of (fst cr) txn tr (ep_cumulative_gas_used p + tr_gas_used tr) # rs) p'" if "err' = VOk"
      using executed_step [OF a x(4,7) env1 x(5,6)] y(4) that by blast
    then show ?thesis
      using False x(1) y(1-3) same_env_trans [OF env1] Cons.prems unfolding loop by auto
  qed
qed

section \<open>The start and the end of a block\<close>

lemma initialize_ok: "state_ok st \<Longrightarrow> state_ok (initialize rs blk st)"
proof (induction rs blk st rule: initialize.induct)
  case (1 config blk st)
  then show ?case
    using transfer_dao_balances_ok by simp
qed (simp split: option.split)

lemma finalize_ok: "state_ok st \<Longrightarrow> fst (finalize rs blk st) = VOk \<and> state_ok (snd (finalize rs blk st))"
  using pay_rewards_ok withdraws_ok by (simp add: finalize_cases split: option.split)

lemma view_ok_fields: "walk_fields st' = walk_fields st \<Longrightarrow> view_ok st \<Longrightarrow> state_ok st' \<Longrightarrow> view_ok st' \<and> ds_headers st' = ds_headers st"
  using walk_ok_fields by (auto simp: view_ok_def walk_fields_def)

lemma sweep_ok:
  assumes "view_ok (ep_direct p)"
  obtains st' where "sweep p = p\<lparr>ep_direct := st'\<rparr>" "view_ok st'" "ds_headers st' = ds_headers (ep_direct p)"
    "accounts_listed (ep_direct p) \<longrightarrow> accounts_listed st'"
    "abs_state st' = (if processor_revision p \<ge> EVMC_SPURIOUS_DRAGON then remove_dead (ds_touched (ep_direct p)) (abs_state (ep_direct p))
       else abs_state (ep_direct p))"
proof (cases "processor_revision p \<ge> EVMC_SPURIOUS_DRAGON")
  case True
  let ?st = "destruct_dead_among (ds_touched (ep_direct p)) (ep_direct p)"
  have "state_ok ?st \<and> abs_state ?st = remove_dead (ds_touched (ep_direct p)) (abs_state (ep_direct p))"
    using assms by (intro destruct_dead_among_ok) (simp add: view_ok_def)
  then show ?thesis
    using True view_ok_fields [OF destruct_dead_among_fields assms] listed_frame [OF extends_destruct_dead destruct_dead_among_fields] assms
    by (intro that [of ?st]) (simp_all add: sweep_def view_ok_def)
next
  case False
  then show ?thesis
    using assms by (intro that [of "ep_direct p"]) (simp_all add: sweep_def)
qed

text \<open>A program whose result is a diff, recorded and applied.\<close>

lemma run_and_apply:
  assumes "view_ok (ep_direct p)" "disciplined P {} prog" "\<And>H r. P H r \<Longrightarrow> diff_ok keccak256 H (f r)" "evmone_ok keccak256 em" "hash32 keccak256"
  obtains r p1 p2 p3 where "run_evm prog p = Some (r, p1)" "record_diff em i (f r) p1 = Some p2" "apply_diff keccak256 (f r) p2 = Some p3"
    "view_ok (ep_direct p3)" "same_env p p3" "same_gas p p3"
    "outcome (header (ep_block p)) (abs_state (ep_direct p)) (ds_headers (ep_direct p)) prog r"
    "abs_state (ep_direct p3) = diff_accounts keccak256 (f r) (abs_state (ep_direct p))"
proof -
  obtain r st1 H where 1: "run_evm prog p = Some (r, p\<lparr>ep_direct := st1\<rparr>)" "P H r" "handles_ok H st1" "unchanged (ep_direct p) st1"
    "outcome (header (ep_block p)) (abs_state (ep_direct p)) (ds_headers (ep_direct p)) prog r"
    by (rule run_evm_ok [OF assms(1,2)])
  let ?p1 = "p\<lparr>ep_direct := st1\<rparr>"
  have "view_ok (ep_direct ?p1)"
    using 1(4) by (simp add: unchanged_def)
  then obtain p2 where 2: "record_diff em i (f r) ?p1 = Some p2" "unchanged (ep_direct ?p1) (ep_direct p2)" "same_env ?p1 p2" "same_gas ?p1 p2"
    by (rule record_diff_ok [OF _ assms(4)])
  have "view_ok (ep_direct p2)" "handles_ok H (ep_direct p2)"
    using 2(2) 1(3) handles_ok_unchanged by (auto simp: unchanged_def)
  then obtain st3 where 3: "apply_diff keccak256 (f r) p2 = Some (p2\<lparr>ep_direct := st3\<rparr>)" "view_ok st3"
    "abs_state st3 = diff_accounts keccak256 (f r) (abs_state (ep_direct p2))" "ds_headers st3 = ds_headers (ep_direct p2)"
    "accounts_listed (ep_direct p2) \<longrightarrow> accounts_listed st3"
    by (rule apply_diff_ok [OF _ _ assms(3) [OF 1(2)] assms(5)])
  show ?thesis
    using 1(1,4,5) 2 3 by (intro that [of r ?p1 p2 "p2\<lparr>ep_direct := st3\<rparr>"]) (simp_all add: same_env_def same_gas_def unchanged_def)
qed

lemma begin_block_ok:
  assumes "view_ok (ep_direct p)" "evmone_ok keccak256 em" "hash32 keccak256"
  obtains diff addrs p' where "begin_block keccak256 em p = Some p'" "view_ok (ep_direct p')" "same_env p p'" "ep_cumulative_gas_used p' = 0"
    "ep_sum_regular_block_gas p' = ep_sum_regular_block_gas p" "ep_sum_state_block_gas p' = ep_sum_state_block_gas p"
    "outcome (header (ep_block p)) (abs_state (initialize (ep_rule_set p) (ep_block p) (ep_direct p))) (ds_headers (ep_direct p))
       (em_block_start em (ep_evm1_block p) (processor_revision p)) diff"
    "abs_state (ep_direct p') = remove_dead addrs (diff_accounts keccak256 diff (abs_state (initialize (ep_rule_set p) (ep_block p) (ep_direct p))))"
proof -
  let ?p = "p\<lparr>ep_direct := initialize (ep_rule_set p) (ep_block p) (ep_direct p)\<rparr>"
  let ?prog = "em_block_start em (ep_evm1_block p) (processor_revision p)"
  have v: "view_ok (ep_direct ?p)" "ds_headers (ep_direct ?p) = ds_headers (ep_direct p)"
    using view_ok_fields [OF initialize_fields assms(1)] initialize_ok assms(1) by (simp_all add: view_ok_def)
  have "disciplined (diff_ok keccak256) {} ?prog"
    using assms(2) by (simp add: evmone_ok_def)
  then obtain diff p1 p2 p3 where 1: "run_evm ?prog ?p = Some (diff, p1)" "record_diff em 0 diff p1 = Some p2" "apply_diff keccak256 diff p2 = Some p3"
    "view_ok (ep_direct p3)" "same_env ?p p3" "same_gas ?p p3" "outcome (header (ep_block ?p)) (abs_state (ep_direct ?p)) (ds_headers (ep_direct ?p)) ?prog diff"
    "abs_state (ep_direct p3) = diff_accounts keccak256 diff (abs_state (ep_direct ?p))"
    using run_and_apply [OF v(1) _ _ assms(2,3), of "diff_ok keccak256" ?prog "\<lambda>x. x" 0] by metis
  obtain st4 where 4: "sweep p3 = p3\<lparr>ep_direct := st4\<rparr>" "view_ok st4" "ds_headers st4 = ds_headers (ep_direct p3)"
    "accounts_listed (ep_direct p3) \<longrightarrow> accounts_listed st4"
    "abs_state st4 = (if processor_revision p3 \<ge> EVMC_SPURIOUS_DRAGON then remove_dead (ds_touched (ep_direct p3)) (abs_state (ep_direct p3))
       else abs_state (ep_direct p3))"
    by (rule sweep_ok [OF 1(4)])
  have "remove_dead [] s = s" for s
    by (simp add: remove_dead_def)
  then obtain addrs where "abs_state st4 = remove_dead addrs (abs_state (ep_direct p3))"
    using 4(5) by metis
  moreover have "processor_revision ?p = processor_revision p" "ep_evm1_block ?p = ep_evm1_block p"
    by (simp_all add: processor_revision_def)
  ultimately show ?thesis
    using 1 4(1-4) v(2) listed_frame [OF extends_initialize initialize_fields, of "ep_direct p" "ep_rule_set p" "ep_block p"]
    by (intro that [of "p3\<lparr>ep_direct := st4, ep_cumulative_gas_used := 0\<rparr>" diff addrs]) (simp_all add: begin_block_def same_env_def same_gas_def Let_def)
qed

lemma finalize_via_evmone_ok:
  assumes "view_ok (ep_direct p)" "evmone_ok keccak256 em" "hash32 keccak256"
  obtains p' where "finalize_via_evmone keccak256 em p = Some p'" "view_ok (ep_direct p')" "same_env p p'" "same_gas p p'"
    "if processor_revision p \<ge> EVMC_AMSTERDAM
     then \<exists>diff. outcome (header (ep_block p)) (abs_state (ep_direct p)) (ds_headers (ep_direct p))
         (em_finalize em (processor_revision p) (beneficiary (header (ep_block p))) (bi_ommers (ep_evm1_block p)) (bi_withdrawals (ep_evm1_block p))) diff \<and>
       abs_state (ep_direct p') = diff_accounts keccak256 diff (abs_state (ep_direct p))
     else p' = p"
proof (cases "processor_revision p \<ge> EVMC_AMSTERDAM")
  case True
  let ?prog = "em_finalize em (processor_revision p) (beneficiary (header (ep_block p))) (bi_ommers (ep_evm1_block p)) (bi_withdrawals (ep_evm1_block p))"
  have d: "disciplined (diff_ok keccak256) {} ?prog"
    using assms(2) by (simp add: evmone_ok_def)
  obtain diff p1 p2 p3 where 1: "run_evm ?prog p = Some (diff, p1)" "record_diff em (post_block_index p) diff p1 = Some p2"
    "apply_diff keccak256 diff p2 = Some p3" "view_ok (ep_direct p3)" "same_env p p3" "same_gas p p3"
    "outcome (header (ep_block p)) (abs_state (ep_direct p)) (ds_headers (ep_direct p)) ?prog diff"
    "abs_state (ep_direct p3) = diff_accounts keccak256 diff (abs_state (ep_direct p))"
    by (rule run_and_apply [OF assms(1) d _ assms(2,3), of "\<lambda>x. x" "post_block_index p"]) blast
  moreover have "post_block_index p1 = post_block_index p"
    using 1(1) by (auto simp: run_evm_def post_block_index_def)
  ultimately show ?thesis
    using True by (intro that [of p3]) (auto simp: finalize_via_evmone_def)
next
  case False
  then show ?thesis
    using assms(1) by (intro that [of p]) (simp_all add: finalize_via_evmone_def same_gas_def)
qed

lemma finalize_block_ok:
  assumes "view_ok (ep_direct p)"
  obtains st' addrs where "finalize_block p = (VOk, p\<lparr>ep_direct := st'\<rparr>)" "view_ok st'" "same_env p (p\<lparr>ep_direct := st'\<rparr>)"
    "abs_state st' = remove_dead addrs (abs_state (if processor_revision p < EVMC_AMSTERDAM
       then snd (finalize (ep_rule_set p) (ep_block p) (ep_direct p)) else ep_direct p))"
proof -
  define st where "st = (if processor_revision p < EVMC_AMSTERDAM then snd (finalize (ep_rule_set p) (ep_block p) (ep_direct p)) else ep_direct p)"
  have fin: "fst (finalize (ep_rule_set p) (ep_block p) (ep_direct p)) = VOk"
    "view_ok (snd (finalize (ep_rule_set p) (ep_block p) (ep_direct p)))"
    "ds_headers (snd (finalize (ep_rule_set p) (ep_block p) (ep_direct p))) = ds_headers (ep_direct p)"
    using finalize_ok [of "ep_direct p"] view_ok_fields [OF finalize_fields assms] assms by (simp_all add: view_ok_def)
  then have st: "view_ok (ep_direct (p\<lparr>ep_direct := st\<rparr>))" "ds_headers st = ds_headers (ep_direct p)"
    using assms by (simp_all add: st_def)
  have l: "accounts_listed (ep_direct p) \<longrightarrow> accounts_listed st"
    using listed_frame [OF extends_finalize finalize_fields, of "ep_direct p" "ep_rule_set p" "ep_block p"] assms by (simp add: st_def view_ok_def)
  obtain st' where s: "sweep (p\<lparr>ep_direct := st\<rparr>) = p\<lparr>ep_direct := st, ep_direct := st'\<rparr>" "view_ok st'" "ds_headers st' = ds_headers st"
    "accounts_listed st \<longrightarrow> accounts_listed st'"
    "abs_state st' = (if processor_revision (p\<lparr>ep_direct := st\<rparr>) \<ge> EVMC_SPURIOUS_DRAGON then remove_dead (ds_touched st) (abs_state st) else abs_state st)"
    by (rule sweep_ok [OF st(1)]) simp
  have "remove_dead [] x = x" for x
    by (simp add: remove_dead_def)
  then obtain addrs where a: "abs_state st' = remove_dead addrs (abs_state st)"
    using s(5) by metis
  have "finalize_block p = (VOk, sweep (p\<lparr>ep_direct := st\<rparr>))"
    using fin(1) by (auto simp: finalize_block_def st_def split: prod.split)
  then show ?thesis
    using s(1-4) st(2) a l by (intro that [of st' addrs]) (simp_all add: st_def same_env_def)
qed

section \<open>Requests\<close>

text \<open>The requests of each type: the deposits of the logs, then those of the system contracts; and their commitment (EIP-7685).\<close>

definition request_data :: "bytes \<Rightarrow> (flat_request_type \<times> bytes) list \<Rightarrow> flat_request_type \<Rightarrow> bytes" where
  "request_data deposits reqs t = (if t = KDepositRequest then deposits else []) @ concat (map snd (filter (\<lambda>r. fst r = t) reqs))"

definition requests_commitment :: "(bytes \<Rightarrow> bytes32) \<Rightarrow> (flat_request_type \<Rightarrow> bytes) \<Rightarrow> bytes32" where
  "requests_commitment sha256 data =
     sha256 (concat (map (\<lambda>t. if data t \<noteq> [] then sha256 (of_nat (enum_integer t) # data t) else []) enum_values))"

lemma fold_add_request:
  "length rq = 5 \<Longrightarrow> length (fold (\<lambda>(t, d). add_request t d) reqs rq) = 5 \<and>
   fold (\<lambda>(t, d). add_request t d) reqs rq ! enum_integer t = rq ! enum_integer t @ concat (map snd (filter (\<lambda>r. fst r = t) reqs))"
  by (induction reqs arbitrary: rq) (auto split: prod.split)

lemma no_requests_eq: "length no_requests = 5" "no_requests ! enum_integer t = []"
  by (cases t; simp add: no_requests_def enum_values_def)+

lemma calculate_sha256_eq:
  "calculate_sha256 sha256 (fold (\<lambda>(t, d). add_request t d) reqs (add_request KDepositRequest deposits no_requests)) =
     requests_commitment sha256 (request_data deposits reqs)"
proof -
  have "fold (\<lambda>(t, d). add_request t d) reqs (add_request KDepositRequest deposits no_requests) ! enum_integer t = request_data deposits reqs t" for t
    using fold_add_request [of "add_request KDepositRequest deposits no_requests" reqs t]
    by (simp add: request_data_def no_requests_eq)
  then show ?thesis
    unfolding calculate_sha256_def requests_commitment_def by presburger
qed

lemma collect_deposits_eq:
  assumes "length rq = 5"
  shows "fst (collect_deposits rs rq) \<longleftrightarrow> deposits_of (concat (map rc_logs rs)) \<noteq> None"
    "deposits_of (concat (map rc_logs rs)) = Some d \<Longrightarrow> collect_deposits rs rq = (True, add_request KDepositRequest d rq)"
  using assms
proof (induction rs arbitrary: rq d)
  case Nil
  {
    case 1
    show ?case by (simp add: deposits_of_simps)
  next
    case 2
    then show ?case by (simp add: deposits_of_simps add_request_Nil)
  }
next
  case (Cons r rs)
  {
    case 1
    then show ?case
      using extract_deposits_eq(1) [OF 1, of "rc_logs r"] extract_deposits_eq(2) [OF 1, of "rc_logs r"] Cons.IH(1)
      by (cases "deposits_of (rc_logs r)") (auto simp: deposits_of_append Let_def split: prod.split option.split)
  next
    case 2
    then obtain d1 d2 where "deposits_of (rc_logs r) = Some d1" "deposits_of (concat (map rc_logs rs)) = Some d2" "d = d1 @ d2"
      by (auto simp: deposits_of_append split: option.splits)
    then show ?case
      using extract_deposits_eq(2) [of rq "rc_logs r" d1] Cons.IH(2) [of d2 "add_request KDepositRequest d1 rq"] 2(2)
      by (simp add: add_request_add)
  }
qed

text \<open>What the block-end system calls do to the accounts, and that the header commits to the requests.\<close>

definition requests_accepted ::
  "(bytes \<Rightarrow> bytes32) \<Rightarrow> (bytes \<Rightarrow> bytes32) \<Rightarrow> 'bal evmone \<Rightarrow> 'bal processor \<Rightarrow> receipt list \<Rightarrow> accounts \<Rightarrow> accounts \<Rightarrow> bool" where
  "requests_accepted keccak256 sha256 em p rs s s' \<longleftrightarrow>
     (if processor_revision p \<ge> EVMC_PRAGUE \<and> requests_hash (header (ep_block p)) \<noteq> None
      then \<exists>deposits rr. deposits_of (concat (map rc_logs rs)) = Some deposits \<and>
        outcome (header (ep_block p)) s (ds_headers (ep_direct p)) (em_block_end em (ep_evm1_block p) (processor_revision p)) (Some rr) \<and>
        s' = diff_accounts keccak256 (rr_state_diff rr) s \<and>
        requests_hash (header (ep_block p)) = Some (requests_commitment sha256 (request_data deposits (rr_requests rr)))
      else s' = s)"

lemma process_requests_ok:
  assumes "view_ok (ep_direct p)" "evmone_ok keccak256 em" "hash32 keccak256"
  obtains err p' where "process_requests keccak256 sha256 em rs p = Some (err, p')" "view_ok (ep_direct p')" "same_env p p'" "same_gas p p'"
    "err = VOk \<longrightarrow> requests_accepted keccak256 sha256 em p rs (abs_state (ep_direct p)) (abs_state (ep_direct p'))"
proof -
  let ?req = "processor_revision p \<ge> EVMC_PRAGUE \<and> requests_hash (header (ep_block p)) \<noteq> None"
  consider (off) "\<not> ?req" | (bad) ?req "deposits_of (concat (map rc_logs rs)) = None" | (good) d where ?req "deposits_of (concat (map rc_logs rs)) = Some d"
    by fastforce
  then show ?thesis
  proof cases
    case off
    then show ?thesis
      using assms(1) by (intro that [of VOk p]) (auto simp: process_requests_def requests_accepted_def same_gas_def)
  next
    case bad
    then have "\<not> fst (collect_deposits rs no_requests)"
      by (simp add: collect_deposits_eq no_requests_eq)
    then show ?thesis
      using bad assms(1) by (intro that [of VRequestsProcessingFailure p]) (auto simp: process_requests_def same_gas_def split: prod.split)
  next
    case (good d)
    let ?prog = "em_block_end em (ep_evm1_block p) (processor_revision p)" and ?rq = "add_request KDepositRequest d no_requests"
    have c: "collect_deposits rs no_requests = (True, ?rq)"
      using good by (simp add: collect_deposits_eq no_requests_eq)
    have dis: "disciplined (\<lambda>H rr. \<forall>x \<in> set_option rr. diff_ok keccak256 H (rr_state_diff x)) {} ?prog"
      using assms(2) by (simp add: evmone_ok_def)
    define f :: "requests_result option \<Rightarrow> state_diff"
      where "f rr = (case rr of None \<Rightarrow> \<lparr>sd_modified_accounts = [], sd_deleted_accounts = []\<rparr> | Some x \<Rightarrow> rr_state_diff x)" for rr
    have f: "diff_ok keccak256 H (f rr)" if "\<forall>x \<in> set_option rr. diff_ok keccak256 H (rr_state_diff x)" for H rr
      using that by (cases rr) (simp_all add: f_def diff_ok_def)
    obtain rr p1 p2 p3 where 1: "run_evm ?prog p = Some (rr, p1)" "record_diff em (post_block_index p) (f rr) p1 = Some p2"
      "apply_diff keccak256 (f rr) p2 = Some p3" "view_ok (ep_direct p3)" "same_env p p3" "same_gas p p3"
      "outcome (header (ep_block p)) (abs_state (ep_direct p)) (ds_headers (ep_direct p)) ?prog rr"
      "abs_state (ep_direct p3) = diff_accounts keccak256 (f rr) (abs_state (ep_direct p))"
      by (rule run_and_apply [OF assms(1) dis f assms(2,3), of "\<lambda>rr. rr" "post_block_index p"])
    have env: "view_ok (ep_direct p1) \<and> same_env p p1 \<and> same_gas p p1" "post_block_index p1 = post_block_index p"
      using run_evm_result [OF assms(1) dis 1(1)] by (auto simp: same_env_def post_block_index_def)
    have h: "header (ep_block p3) = header (ep_block p)"
      using 1(5) by (simp add: same_env_def)
    define err where "err = (case rr of None \<Rightarrow> VRequestsProcessingFailure
      | Some x \<Rightarrow> if Some (requests_commitment sha256 (request_data d (rr_requests x))) \<noteq> requests_hash (header (ep_block p))
          then VRequestsRootMismatch else VOk)"
    have "process_requests keccak256 sha256 em rs p = Some (err, if rr = None then p1 else p3)"
      using good(1) c 1(1-3) env(2) h by (cases rr) (simp_all add: process_requests_def f_def err_def calculate_sha256_eq)
    moreover have "err = VOk \<longrightarrow> requests_accepted keccak256 sha256 em p rs (abs_state (ep_direct p)) (abs_state (ep_direct (if rr = None then p1 else p3)))"
      using good 1(7,8) by (cases rr) (auto simp: err_def requests_accepted_def f_def)
    ultimately show ?thesis
      using env(1) 1(4-6) by (intro that) simp_all
  qed
qed

end
