(* ===== verification/Block_Validity.thy ===== *)
theory Block_Validity
  imports Block_Execution
begin

text \<open>
  A block that is accepted has the gas, receipts, bloom, requests and access list that its header commits to, and every
  block gets a result.
\<close>

section \<open>The commitments\<close>

lemma vector_trie_cong: "(\<And>x. x \<in> set v \<Longrightarrow> f x = g x) \<Longrightarrow> vector_trie f v = vector_trie g v"
  by (simp add: vector_trie_def)

lemma joined_bloom_logs:
  assumes "\<forall>r \<in> set rs. rc_bloom r = logs_bloom_of keccak256 (rc_logs r)"
  shows "joined_bloom rs = logs_bloom_of keccak256 (concat (map rc_logs rs))"
proof -
  have "foldl (\<lambda>bloom r. if rc_logs r \<noteq> [] then join_bloom bloom (rc_bloom r) else bloom) (logs_bloom_of keccak256 ls) rs =
      logs_bloom_of keccak256 (ls @ concat (map rc_logs rs))" for ls
    using assms
  proof (induction rs arbitrary: ls)
    case (Cons r rs)
    then show ?case
      using Cons.IH [of "ls @ rc_logs r"] Cons.IH [of ls] by (cases "rc_logs r = []") (simp_all add: join_bloom_logs)
  qed simp
  from this [of "[]"] show ?thesis
    by (simp add: joined_bloom_def logs_bloom_Nil)
qed

text \<open>What the header says of the receipts and of the gas of the transactions; \<open>lay\<close> plays no role.\<close>

definition committed :: "(bytes \<Rightarrow> bytes32) \<Rightarrow> 'bal evmone \<Rightarrow> 'bal processor \<Rightarrow> receipt list \<Rightarrow> bool" where
  "committed keccak256 em p rs \<longleftrightarrow>
     gas_used (header (ep_block p)) = expected_gas_used p \<and>
     (processor_revision p \<ge> EVMC_BYZANTIUM \<longrightarrow> receipts_root (header (ep_block p)) = mpt_root keccak256 (vector_trie receipt_rlp rs)) \<and>
     logs_bloom (header (ep_block p)) = logs_bloom_of keccak256 (concat (map rc_logs rs)) \<and>
     (processor_revision p \<ge> EVMC_AMSTERDAM \<longrightarrow>
        \<not> em_exceeds_gas_limit em (ep_bal_builder p) (gas_limit (header (ep_block p))) \<and>
        em_bal_hash em (ep_bal_builder p) = (case block_access_list_hash (header (ep_block p)) of None \<Rightarrow> zero32 | Some x \<Rightarrow> x))"

lemma check_access_list_ok:
  "check_access_list em p = VOk \<longleftrightarrow> (processor_revision p \<ge> EVMC_AMSTERDAM \<longrightarrow>
     \<not> em_exceeds_gas_limit em (ep_bal_builder p) (gas_limit (header (ep_block p))) \<and>
     em_bal_hash em (ep_bal_builder p) = (case block_access_list_hash (header (ep_block p)) of None \<Rightarrow> zero32 | Some x \<Rightarrow> x))"
  by (cases "processor_revision p < EVMC_AMSTERDAM") (auto simp: check_access_list_def Let_def not_less)

lemma check_commitments_returns:
  assumes "hash32 keccak256" "length rs \<le> 2 ^ 64"
  shows "check_commitments keccak256 lay em rs p \<noteq> None"
proof -
  have "vector_root keccak256 f rs = Some (mpt_root keccak256 (vector_trie f rs))" for f
    using vector_root_eq [OF assms(2), of keccak256] assms(1) by (simp add: hash32_def)
  then show ?thesis
    by (simp add: check_commitments_def Let_def)
qed

lemma check_commitments_ok:
  assumes "hash32 keccak256" "length rs \<le> 2 ^ 64" "\<forall>r \<in> set rs. valid_receipt r \<and> rc_bloom r = logs_bloom_of keccak256 (rc_logs r)"
  shows "check_commitments keccak256 lay em rs p = Some VOk \<longleftrightarrow> committed keccak256 em p rs"
proof -
  let ?enc = "\<lambda>r. encode_receipt (fst (lay r)) (snd (lay r)) r"
  have "vector_trie ?enc rs = vector_trie receipt_rlp rs"
    using assms(3) by (intro vector_trie_cong) (simp add: encode_receipt_eq)
  moreover have "length (keccak256 x) = 32" for x
    using assms(1) by (simp add: hash32_def)
  ultimately have "vector_root keccak256 ?enc rs = Some (mpt_root keccak256 (vector_trie receipt_rlp rs))"
    using vector_root_eq [OF assms(2)] by simp
  moreover have "joined_bloom rs = logs_bloom_of keccak256 (concat (map rc_logs rs))"
    using assms(3) by (intro joined_bloom_logs) simp
  ultimately show ?thesis
    by (auto simp: check_commitments_def committed_def check_access_list_ok Let_def)
qed

section \<open>What an accepted block means\<close>

text \<open>The receipts of a run are valid if they are not too large to be encoded.\<close>

lemma receipts_from_valid:
  assumes "\<forall>tr \<in> set trs. \<forall>l \<in> set (tr_logs tr). valid_log l" "r \<in> set (receipts_from keccak256 txns trs g)" "length (receipt_items r) < 2 ^ 64"
  shows "valid_receipt r" "rc_bloom r = logs_bloom_of keccak256 (rc_logs r)"
proof -
  have "(\<exists>txn tr g. tr \<in> set trs \<and> r = receipt_of keccak256 txn tr g)"
    using assms(2) by (induction keccak256 txns trs g rule: receipts_from.induct) auto
  then show "valid_receipt r" "rc_bloom r = logs_bloom_of keccak256 (rc_logs r)"
    using assms(1,3) by (auto simp: valid_receipt_def receipt_of_def logs_bloom_bits(2))
qed

lemma receipts_from_length: "length trs = length txns \<Longrightarrow> length (receipts_from keccak256 txns trs g) = length txns"
  by (induction keccak256 txns trs g rule: receipts_from.induct) auto

lemma finalize_balances:
  "state_ok st \<Longrightarrow> balance_of (abs_state (snd (finalize rs blk st))) a = balance_of (abs_state st) a + credited (payments rs blk) a"
  using pay_rewards_ok [of st rs blk a] withdraws_ok [of st _ a]
  by (auto simp: finalize_cases payments_def credited_def split: option.split)

definition evm_finalized :: "(bytes \<Rightarrow> bytes32) \<Rightarrow> 'bal evmone \<Rightarrow> 'bal processor \<Rightarrow> accounts \<Rightarrow> accounts \<Rightarrow> bool" where
  "evm_finalized keccak256 em p s s' \<longleftrightarrow>
     (if processor_revision p \<ge> EVMC_AMSTERDAM
      then \<exists>diff. outcome (header (ep_block p)) s (ds_headers (ep_direct p))
          (em_finalize em (processor_revision p) (beneficiary (header (ep_block p))) (bi_ommers (ep_evm1_block p)) (bi_withdrawals (ep_evm1_block p))) diff \<and>
        s' = diff_accounts keccak256 diff s
      else s' = s)"

definition block_gas :: "'bal processor \<Rightarrow> transition_receipt list \<Rightarrow> u64" where
  "block_gas p trs =
     (if processor_revision p \<ge> EVMC_AMSTERDAM then max_i64 (sum_list (map (regular_gas p) trs)) (sum_list (map (state_gas p) trs))
      else sum_list (map tr_gas_used trs))"

text \<open>
  The transitions of the accounts in a block: the rule set's own start, the system calls, the transactions, and then the block-end calls and
  the payments; twice, accounts that are empty may be removed.
\<close>

definition settled ::
  "crypto \<Rightarrow> (bytes \<Rightarrow> bytes32) \<Rightarrow> 'bal evmone \<Rightarrow> 'bal processor \<Rightarrow> receipt list \<Rightarrow> accounts \<Rightarrow> accounts \<Rightarrow> bool" where
  "settled cr sha256 em p rs s s' \<longleftrightarrow>
     (\<exists>s3 s4 s5 addrs. evm_finalized (fst cr) em p s s3 \<and> requests_accepted (fst cr) sha256 em p rs s3 s4 \<and>
        (\<forall>a. balance_of s5 a = balance_of s4 a +
           (if processor_revision p < EVMC_AMSTERDAM then credited (payments (ep_rule_set p) (ep_block p)) a else 0)) \<and>
        s' = remove_dead addrs s5)"

definition block_steps ::
  "crypto \<Rightarrow> (bytes \<Rightarrow> bytes32) \<Rightarrow> evmone_constants \<Rightarrow> 'bal evmone \<Rightarrow> 'bal processor \<Rightarrow> receipt list \<Rightarrow> transition_receipt list \<Rightarrow> accounts \<Rightarrow> bool" where
  "block_steps cr sha256 ev em p rs trs s' \<longleftrightarrow>
     (let s0 = abs_state (initialize (ep_rule_set p) (ep_block p) (ep_direct p))
      in \<exists>diff addrs s2.
        outcome (header (ep_block p)) s0 (ds_headers (ep_direct p)) (em_block_start em (ep_evm1_block p) (processor_revision p)) diff \<and>
        tx_steps cr ev em p (remove_dead addrs (diff_accounts (fst cr) diff s0)) (transactions (ep_block p)) trs s2 \<and>
        settled cr sha256 em p rs s2 s')"

text \<open>The part of the execution after the transactions.\<close>

definition after_transactions ::
  "crypto \<Rightarrow> (bytes \<Rightarrow> bytes32) \<Rightarrow> (receipt \<Rightarrow> nat \<times> (receipt_field \<Rightarrow> bool)) \<Rightarrow> 'bal evmone \<Rightarrow> receipt list \<Rightarrow> 'bal processor \<Rightarrow>
   (validation_result \<times> receipt list \<times> 'bal processor) option" where
  "after_transactions cr sha256 lay em receipts p = do {
     let p = p\<lparr>ep_direct := clear_touched (ep_direct p)\<rparr>;
     p \<leftarrow> finalize_via_evmone (fst cr) em p;
     (err, p) \<leftarrow> process_requests (fst cr) sha256 em receipts p;
     if err \<noteq> VOk then Some (err, receipts, p)
     else let (err, p) = finalize_block p
          in if err \<noteq> VOk then Some (err, receipts, p)
             else map_option (\<lambda>err. (err, receipts, p)) (check_commitments (fst cr) lay em receipts p)
   }"

lemma execute_block_split:
  "execute_block cr sha256 ev lay em p = do {
     p \<leftarrow> begin_block (fst cr) em p;
     (err, receipts, p) \<leftarrow> execute_transactions cr ev em (transactions (ep_block p)) p;
     if err \<noteq> VOk then Some (err, receipts, p) else after_transactions cr sha256 lay em receipts p
   }"
  unfolding execute_block_def after_transactions_def ..

lemma clear_touched_ok:
  "view_ok st \<Longrightarrow> view_ok (clear_touched st)" "abs_state (clear_touched st) = abs_state st" "ds_headers (clear_touched st) = ds_headers st"
  "accounts_listed st \<longrightarrow> accounts_listed (clear_touched st)"
proof -
  have f: "walk_fields (clear_touched st) = walk_fields st" "extends st (clear_touched st)" "core (clear_touched st) = core st"
    by (simp_all add: clear_touched_def)
  then show "view_ok st \<Longrightarrow> view_ok (clear_touched st)" "abs_state (clear_touched st) = abs_state st" "ds_headers (clear_touched st) = ds_headers st"
    "accounts_listed st \<longrightarrow> accounts_listed (clear_touched st)"
    using view_ok_fields [OF f(1)] listed_frame [OF f(2,1)] by (simp_all add: view_ok_def state_ok_def abs_state_def clear_touched_def)
qed

lemma settledI:
  assumes "evm_finalized (fst cr) em p s (abs_state (ep_direct p2))" "same_env p p2"
    "requests_accepted (fst cr) sha256 em p2 rs (abs_state (ep_direct p2)) (abs_state (ep_direct p3))" "same_env p p3" "state_ok (ep_direct p3)"
    "s' = remove_dead addrs (abs_state (if processor_revision p3 < EVMC_AMSTERDAM
       then snd (finalize (ep_rule_set p3) (ep_block p3) (ep_direct p3)) else ep_direct p3))"
  shows "settled cr sha256 em p rs s s'"
proof -
  define s5 where "s5 = abs_state (if processor_revision p3 < EVMC_AMSTERDAM
       then snd (finalize (ep_rule_set p3) (ep_block p3) (ep_direct p3)) else ep_direct p3)"
  have "requests_accepted (fst cr) sha256 em p rs (abs_state (ep_direct p2)) (abs_state (ep_direct p3))"
    using assms(2,3) same_env_revision [OF assms(2)] by (auto simp: requests_accepted_def same_env_def)
  moreover have "balance_of s5 a = balance_of (abs_state (ep_direct p3)) a +
      (if processor_revision p < EVMC_AMSTERDAM then credited (payments (ep_rule_set p) (ep_block p)) a else 0)" for a
    using finalize_balances [OF assms(5), of "ep_rule_set p3" "ep_block p3" a] assms(4) same_env_revision [OF assms(4)]
    by (auto simp: s5_def same_env_def)
  moreover have "s' = remove_dead addrs s5"
    by (simp add: assms(6) s5_def)
  ultimately show ?thesis
    using assms(1) unfolding settled_def by blast
qed

lemma after_transactions_ok:
  assumes "view_ok (ep_direct p)" "evmone_ok (fst cr) em" "hash32 (fst cr)" "length rs \<le> 2 ^ 64"
  obtains err p' where "after_transactions cr sha256 lay em rs p = Some (err, rs, p')" "view_ok (ep_direct p')" "same_env p p'"
    "err = VOk \<longrightarrow> same_gas p p' \<and> check_commitments (fst cr) lay em rs p' = Some VOk \<and>
       settled cr sha256 em p rs (abs_state (ep_direct p)) (abs_state (ep_direct p'))"
proof -
  let ?p1 = "p\<lparr>ep_direct := clear_touched (ep_direct p)\<rparr>"
  note c = clear_touched_ok [of "ep_direct p"]
  have v1: "view_ok (ep_direct ?p1)" "same_env p ?p1"
    using c assms(1) by (simp_all add: same_env_def)
  obtain p2 where 2: "finalize_via_evmone (fst cr) em ?p1 = Some p2" "view_ok (ep_direct p2)" "same_env ?p1 p2" "same_gas ?p1 p2"
    "if processor_revision ?p1 \<ge> EVMC_AMSTERDAM
     then \<exists>diff. outcome (header (ep_block ?p1)) (abs_state (ep_direct ?p1)) (ds_headers (ep_direct ?p1))
         (em_finalize em (processor_revision ?p1) (beneficiary (header (ep_block ?p1))) (bi_ommers (ep_evm1_block ?p1)) (bi_withdrawals (ep_evm1_block ?p1))) diff \<and>
       abs_state (ep_direct p2) = diff_accounts (fst cr) diff (abs_state (ep_direct ?p1))
     else p2 = ?p1"
    by (rule finalize_via_evmone_ok [OF v1(1) assms(2,3)])
  have f2: "evm_finalized (fst cr) em p (abs_state (ep_direct p)) (abs_state (ep_direct p2))"
    using 2(5) same_env_revision [OF v1(2)] by (auto simp: evm_finalized_def c(2,3))
  obtain err3 p3 where 3: "process_requests (fst cr) sha256 em rs p2 = Some (err3, p3)" "view_ok (ep_direct p3)" "same_env p2 p3" "same_gas p2 p3"
    "err3 = VOk \<longrightarrow> requests_accepted (fst cr) sha256 em p2 rs (abs_state (ep_direct p2)) (abs_state (ep_direct p3))"
    by (rule process_requests_ok [OF 2(2) assms(2,3)])
  have env: "same_env p p2" "same_env p p3"
    using v1(2) 2(3) 3(3) same_env_trans by blast+
  obtain st4 addrs where 4: "finalize_block p3 = (VOk, p3\<lparr>ep_direct := st4\<rparr>)" "view_ok st4" "same_env p3 (p3\<lparr>ep_direct := st4\<rparr>)"
    "abs_state st4 = remove_dead addrs (abs_state (if processor_revision p3 < EVMC_AMSTERDAM
       then snd (finalize (ep_rule_set p3) (ep_block p3) (ep_direct p3)) else ep_direct p3))"
    by (rule finalize_block_ok [OF 3(2)])
  let ?p4 = "p3\<lparr>ep_direct := st4\<rparr>"
  obtain err4 where e4: "check_commitments (fst cr) lay em rs ?p4 = Some err4"
    using check_commitments_returns [OF assms(3,4)] by blast
  have run: "after_transactions cr sha256 lay em rs p = Some (if err3 \<noteq> VOk then (err3, rs, p3) else (err4, rs, ?p4))"
    using 2(1) 3(1) 4(1) e4 by (simp add: after_transactions_def)
  show ?thesis
  proof (cases "err3 = VOk")
    case True
    then have "settled cr sha256 em p rs (abs_state (ep_direct p)) (abs_state (ep_direct ?p4))"
      using settledI [OF f2 env(1) _ env(2) _ 4(4)] 3(2,5) by (simp add: view_ok_def)
    moreover have "same_gas p ?p4"
      using 2(4) 3(4) by (simp add: same_gas_def)
    ultimately show ?thesis
      using True run e4 4(2) same_env_trans [OF env(2) 4(3)] by (intro that [of err4 ?p4]) simp_all
  next
    case False
    then show ?thesis
      using run 3(2) env(2) by (intro that [of err3 p3]) simp_all
  qed
qed

text \<open>The whole block, for a processor as it is constructed.\<close>

definition fresh :: "'bal processor \<Rightarrow> bool" where
  "fresh p \<longleftrightarrow> ep_sum_regular_block_gas p = 0 \<and> ep_sum_state_block_gas p = 0"

lemma settled_same_env:
  assumes "same_env p p2" "settled cr sha256 em p2 rs s s'"
  shows "settled cr sha256 em p rs s s'"
proof -
  have "evm_finalized (fst cr) em p2 x y = evm_finalized (fst cr) em p x y" "requests_accepted (fst cr) sha256 em p2 rs x y = requests_accepted (fst cr) sha256 em p rs x y"
    for x y
    using assms(1) same_env_revision [OF assms(1)] unfolding evm_finalized_def requests_accepted_def same_env_def by (elim conjE, simp only:)+
  then show ?thesis
    using assms(2) same_env_revision [OF assms(1)] assms(1) unfolding settled_def same_env_def by (elim conjE) (simp only:)
qed

lemma block_gas_counted:
  assumes "gas_after p1 trs p2" "same_gas p2 p3" "same_env p p1" "same_env p p3" "fresh p" "ep_cumulative_gas_used p1 = 0"
    "ep_sum_regular_block_gas p1 = ep_sum_regular_block_gas p" "ep_sum_state_block_gas p1 = ep_sum_state_block_gas p"
  shows "expected_gas_used p3 = block_gas p trs"
proof -
  have "regular_gas p1 = regular_gas p" "state_gas p1 = state_gas p"
    using same_env_revision [OF assms(3)] by (simp_all add: fun_eq_iff regular_gas_def state_gas_def)
  then show ?thesis
    using assms same_env_revision [OF assms(4)]
    by (simp add: expected_gas_used_def block_gas_def gas_after_def same_gas_def fresh_def)
qed

lemma execute_block_ok:
  assumes "view_ok (ep_direct p)" "evmone_ok (fst cr) em" "hash32 (fst cr)" "length (transactions (ep_block p)) \<le> 2 ^ 64"
  obtains err rs p' where "execute_block cr sha256 ev lay em p = Some (err, rs, p')" "view_ok (ep_direct p')" "same_env p p'"
    "err = VOk \<and> fresh p \<longrightarrow> (\<exists>trs. block_steps cr sha256 ev em p rs trs (abs_state (ep_direct p')) \<and>
       rs = receipts_from (fst cr) (transactions (ep_block p)) trs 0 \<and> length trs = length (transactions (ep_block p)) \<and>
       (\<forall>tr \<in> set trs. \<forall>l \<in> set (tr_logs tr). valid_log l) \<and>
       expected_gas_used p' = block_gas p trs \<and> check_commitments (fst cr) lay em rs p' = Some VOk)"
proof -
  obtain diff addrs p1 where 1: "begin_block (fst cr) em p = Some p1" "view_ok (ep_direct p1)" "same_env p p1" "ep_cumulative_gas_used p1 = 0"
    "ep_sum_regular_block_gas p1 = ep_sum_regular_block_gas p" "ep_sum_state_block_gas p1 = ep_sum_state_block_gas p"
    "outcome (header (ep_block p)) (abs_state (initialize (ep_rule_set p) (ep_block p) (ep_direct p))) (ds_headers (ep_direct p))
       (em_block_start em (ep_evm1_block p) (processor_revision p)) diff"
    "abs_state (ep_direct p1) = remove_dead addrs (diff_accounts (fst cr) diff (abs_state (initialize (ep_rule_set p) (ep_block p) (ep_direct p))))"
    by (rule begin_block_ok [OF assms(1-3)])
  let ?txns = "transactions (ep_block p)"
  have b1: "ep_block p1 = ep_block p"
    using 1(3) by (simp add: same_env_def)
  obtain err2 rs p2 where 2: "execute_transactions cr ev em ?txns p1 = Some (err2, rs, p2)" "view_ok (ep_direct p2)" "same_env p1 p2"
    "err2 = VOk \<longrightarrow> executed cr ev em p1 ?txns rs p2"
    using execute_transactions_ok [OF 1(2) assms(2,3)] by blast
  have env: "same_env p p2"
    by (rule same_env_trans [OF 1(3) 2(3)])
  show ?thesis
  proof (cases "err2 = VOk")
    case False
    then show ?thesis
      using 1(1) 2 env b1 by (intro that [of err2 rs p2]) (simp_all add: execute_block_split)
  next
    case True
    then obtain trs where t: "tx_steps cr ev em p1 (abs_state (ep_direct p1)) ?txns trs (abs_state (ep_direct p2))"
      "rs = receipts_from (fst cr) ?txns trs 0" "\<forall>tr \<in> set trs. \<forall>l \<in> set (tr_logs tr). valid_log l" "gas_after p1 trs p2"
      using 2(4) 1(4) unfolding executed_def by auto
    have l: "length trs = length ?txns"
      by (rule tx_steps_length [OF t(1)])
    then have "length rs \<le> 2 ^ 64"
      using assms(4) by (simp add: t(2) receipts_from_length)
    then obtain err3 p3 where 3: "after_transactions cr sha256 lay em rs p2 = Some (err3, rs, p3)" "view_ok (ep_direct p3)" "same_env p2 p3"
      "err3 = VOk \<longrightarrow> same_gas p2 p3 \<and> check_commitments (fst cr) lay em rs p3 = Some VOk \<and>
         settled cr sha256 em p2 rs (abs_state (ep_direct p2)) (abs_state (ep_direct p3))"
      by (rule after_transactions_ok [OF 2(2) assms(2,3)])
    have e: "execute_block cr sha256 ev lay em p = Some (err3, rs, p3)"
      using 1(1) 2(1) 3(1) True b1 by (simp add: execute_block_split)
    have "\<exists>trs. block_steps cr sha256 ev em p rs trs (abs_state (ep_direct p3)) \<and> rs = receipts_from (fst cr) ?txns trs 0 \<and>
        length trs = length ?txns \<and> (\<forall>tr \<in> set trs. \<forall>l \<in> set (tr_logs tr). valid_log l) \<and>
        expected_gas_used p3 = block_gas p trs \<and> check_commitments (fst cr) lay em rs p3 = Some VOk" if ok: "err3 = VOk \<and> fresh p"
    proof -
      have "settled cr sha256 em p rs (abs_state (ep_direct p2)) (abs_state (ep_direct p3))"
        using settled_same_env [OF env] 3(4) ok by blast
      moreover have "tx_steps cr ev em p (abs_state (ep_direct p1)) ?txns trs (abs_state (ep_direct p2))"
        by (rule tx_steps_same_env [OF t(1) 1(3)])
      ultimately have "block_steps cr sha256 ev em p rs trs (abs_state (ep_direct p3))"
        unfolding block_steps_def Let_def using 1(7) 1(8) by metis
      then show ?thesis
        using t(2,3) l 3(4) ok block_gas_counted [OF t(4) _ 1(3) same_env_trans [OF env 3(3)] _ 1(4-6)] by blast
    qed
    then show ?thesis
      using e 3(2) same_env_trans [OF env 3(3)] by (intro that [of err3 rs p3]) simp_all
  qed
qed

text \<open>An accepted block, whose receipts are not too large to be encoded.\<close>

lemma accepted_block:
  assumes "view_ok (ep_direct p)" "evmone_ok (fst cr) em" "hash32 (fst cr)" "length (transactions (ep_block p)) \<le> 2 ^ 64" "fresh p"
    "execute_block cr sha256 ev lay em p = Some (VOk, rs, p')" "\<forall>r \<in> set rs. length (receipt_items r) < 2 ^ 64"
  obtains trs where "view_ok (ep_direct p')" "same_env p p'" "block_steps cr sha256 ev em p rs trs (abs_state (ep_direct p'))"
    "rs = receipts_from (fst cr) (transactions (ep_block p)) trs 0" "length trs = length (transactions (ep_block p))"
    "expected_gas_used p' = block_gas p trs" "committed (fst cr) em p' rs"
proof -
  obtain err rs' p2 where "execute_block cr sha256 ev lay em p = Some (err, rs', p2)" and env: "view_ok (ep_direct p2)" "same_env p p2" and
    t: "err = VOk \<and> fresh p \<longrightarrow> (\<exists>trs. block_steps cr sha256 ev em p rs' trs (abs_state (ep_direct p2)) \<and>
       rs' = receipts_from (fst cr) (transactions (ep_block p)) trs 0 \<and> length trs = length (transactions (ep_block p)) \<and>
       (\<forall>tr \<in> set trs. \<forall>l \<in> set (tr_logs tr). valid_log l) \<and>
       expected_gas_used p2 = block_gas p trs \<and> check_commitments (fst cr) lay em rs' p2 = Some VOk)"
    by (rule execute_block_ok [OF assms(1-4)])
  then have e: "rs' = rs" "p2 = p'" "err = VOk"
    using assms(6) by simp_all
  obtain trs where trs: "block_steps cr sha256 ev em p rs trs (abs_state (ep_direct p'))" "rs = receipts_from (fst cr) (transactions (ep_block p)) trs 0"
    "length trs = length (transactions (ep_block p))" "\<forall>tr \<in> set trs. \<forall>l \<in> set (tr_logs tr). valid_log l" "expected_gas_used p' = block_gas p trs"
    "check_commitments (fst cr) lay em rs p' = Some VOk"
    using t assms(5) unfolding e by blast
  have "\<forall>r \<in> set rs. valid_receipt r \<and> rc_bloom r = logs_bloom_of (fst cr) (rc_logs r)"
    using receipts_from_valid [OF trs(4)] assms(7) trs(2) by blast
  moreover have "length rs \<le> 2 ^ 64"
    using assms(4) trs(3) by (simp add: trs(2) receipts_from_length)
  ultimately have "committed (fst cr) em p' rs"
    using check_commitments_ok [OF assms(3)] trs(6) by blast
  then show ?thesis
    using env unfolding e by (intro that [OF _ _ trs(1,2,3,5)])
qed

section \<open>Properties\<close>



section \<open>A block\<close>

text \<open>An EVM that changes nothing, and an empty block.\<close>

definition no_diff :: state_diff where
  "no_diff = \<lparr>sd_modified_accounts = [], sd_deleted_accounts = []\<rparr>"

definition idle_evmone :: "unit evmone" where
  "idle_evmone =
     \<lparr>MAX_TX_GAS_LIMIT = 0x1000000,
      em_transition = \<lambda>info txn revn props. Return \<lparr>tr_success = True, tr_gas_used = 21000, tr_block_gas_used = 21000, tr_state_gas_used = 0,
        tr_logs = [], tr_state_diff = no_diff\<rparr>,
      em_block_start = \<lambda>info revn. Return no_diff, em_block_end = \<lambda>info revn. Return None,
      em_finalize = \<lambda>revn b os ws. Return no_diff, em_new_bal = (), em_record_diff = \<lambda>i d b. Return (), em_exceeds_gas_limit = \<lambda>b g. False,
      em_bal_hash = \<lambda>b. zero32\<rparr>"

lemma idle_evmone_ok: "evmone_ok keccak256 idle_evmone"
  by (simp add: evmone_ok_def idle_evmone_def diff_ok_def no_diff_def)

definition idle_block :: block where
  "idle_block = sample_block\<lparr>header := (header sample_block)\<lparr>gas_used := 0, logs_bloom := replicate kBloomByteLength 0, excess_blob_gas := None\<rparr>\<rparr>"

definition idle_processor :: "unit processor" where
  "idle_processor = the (new_processor idle_evmone idle_block (rule_set_factory default_config) sample_state default_config)"

lemma idle_processor_eq:
  "ep_direct idle_processor = sample_state" "ep_block idle_processor = idle_block" "ep_config idle_processor = default_config"
  "ep_rule_set idle_processor = rule_set_factory default_config" "fresh idle_processor"
  by (simp_all add: idle_processor_def new_processor_def block_info_of_def blob_gas_price_def idle_block_def fresh_def Let_def)

lemma idle_block_eq:
  "transactions idle_block = []" "withdrawals idle_block = Some []" "ommers idle_block = []" "difficulty (header idle_block) = 0"
  "gas_used (header idle_block) = 0" "logs_bloom (header idle_block) = replicate kBloomByteLength 0"
  by (simp_all add: idle_block_def sample_block_def block_body.extend_def empty_body_def sample_header_def)

text \<open>A block with no transactions and no withdrawals, before every fork.\<close>

definition idle :: "'bal processor \<Rightarrow> bool" where
  "idle p \<longleftrightarrow> ep_config p = default_config \<and> ep_rule_set p = rule_set_factory default_config \<and>
     transactions (ep_block p) = [] \<and> withdrawals (ep_block p) \<in> {None, Some []} \<and> difficulty (header (ep_block p)) = 0 \<and>
     gas_used (header (ep_block p)) = 0 \<and> logs_bloom (header (ep_block p)) = replicate kBloomByteLength 0"

lemma idle_run:
  assumes "idle p"
  shows "execute_block cr sha256 ev lay idle_evmone p = Some (VOk, [], p\<lparr>ep_direct := clear_touched (ep_direct p), ep_cumulative_gas_used := 0\<rparr>)"
proof -
  have r: "processor_revision q = EVMC_FRONTIER" if "ep_config q = default_config" for q :: "unit processor"
    using that by (simp add: processor_revision_def revision_def default_config_def)
  have d: "apply_state_diff k no_diff st = Some st" for k st
    by (simp add: apply_state_diff_def no_diff_def)
  have self: "q\<lparr>ep_direct := ep_direct q\<rparr> = q" for q :: "unit processor"
    by simp
  have b: "begin_block k idle_evmone p = Some (p\<lparr>ep_cumulative_gas_used := 0\<rparr>)" for k
    using assms unfolding begin_block_def idle_evmone_def idle_def
    by (simp add: rule_set_factory_def run_evm_def apply_diff_def d record_diff_def sweep_def r revision_order self Let_def)
  show ?thesis
    using assms unfolding execute_block_def idle_def
    by (auto simp add: b finalize_via_evmone_def process_requests_def finalize_block_def rule_set_factory_def sweep_def r revision_order
        check_commitments_def expected_gas_used_def joined_bloom_def check_access_list_def Let_def)
qed

lemma idle_processor_idle: "idle idle_processor"
  by (simp add: idle_def idle_processor_eq idle_block_eq)



end
