(* ===== verification/Blockchain.thy ===== *)
theory Blockchain
  imports Block_Validity
begin

text \<open>
  \<open>Blockchain\<close> (protocol/blockchain.cpp): a block is checked against its parent, its body is checked, it is executed, and the root
  of the state that results is compared with the one in its header.
\<close>

section \<open>The code\<close>

text \<open>\<open>class Blockchain\<close>.\<close>

record blockchain =
  bc_direct :: direct_state
  bc_config :: chain_config
  bc_rule_set :: rule_set
  bc_receipts :: "receipt list"

definition prime_state_with_genesis :: "(bytes \<Rightarrow> bytes32) \<Rightarrow> block \<Rightarrow> blockchain \<Rightarrow> blockchain" where
  "prime_state_with_genesis keccak256 genesis_block bc = bc\<lparr>bc_direct := insert_header keccak256 (header genesis_block) (bc_direct bc)\<rparr>"

definition new_blockchain :: "(bytes \<Rightarrow> bytes32) \<Rightarrow> direct_state \<Rightarrow> chain_config \<Rightarrow> block \<Rightarrow> blockchain" where
  "new_blockchain keccak256 direct config genesis_block =
     prime_state_with_genesis keccak256 genesis_block
       \<lparr>bc_direct = direct, bc_config = config, bc_rule_set = rule_set_factory config, bc_receipts = []\<rparr>"

text \<open>\<open>DirectState\<close> as the \<open>BlockState\<close> of the rule sets.\<close>

definition block_state_of :: "direct_state \<Rightarrow> block_state" where
  "block_state_of st = \<lparr>bs_read_header = read_header_of st, bs_read_body = read_body_of st\<rparr>"

definition blockchain_execute_block ::
  "crypto \<Rightarrow> (bytes \<Rightarrow> bytes32) \<Rightarrow> evmone_constants \<Rightarrow> (receipt \<Rightarrow> nat \<times> (receipt_field \<Rightarrow> bool)) \<Rightarrow> 'bal evmone \<Rightarrow>
   block \<Rightarrow> bool \<Rightarrow> blockchain \<Rightarrow> (validation_result \<times> blockchain) option" where
  "blockchain_execute_block cr sha256 ev lay em blk check_state_root bc = do {
     p \<leftarrow> new_processor em blk (bc_rule_set bc) (bc_direct bc) (bc_config bc);
     (res, receipts, p) \<leftarrow> execute_block cr sha256 ev lay em p;
     let bc = bc\<lparr>bc_direct := ep_direct p, bc_receipts := receipts\<rparr>;
     if res \<noteq> VOk then Some (res, bc)
     else if check_state_root
     then do {
       root \<leftarrow> state_root_hash (fst cr) (bc_direct bc);
       Some (if root \<noteq> state_root (header blk) then VWrongStateRoot else VOk, bc)
     }
     else Some (VOk, bc)
   }"

text \<open>The block is passed by reference: its transactions keep what the checks of the body cache in them.\<close>

definition insert_block ::
  "crypto \<Rightarrow> (bytes \<Rightarrow> bytes32) \<Rightarrow> evmone_constants \<Rightarrow> (receipt \<Rightarrow> nat \<times> (receipt_field \<Rightarrow> bool)) \<Rightarrow> 'bal evmone \<Rightarrow>
   block \<Rightarrow> bool \<Rightarrow> blockchain \<Rightarrow> (validation_result \<times> block \<times> blockchain) option" where
  "insert_block cr sha256 ev lay em blk check_state_root bc = do {
     err \<leftarrow> validate_block_header (bc_rule_set bc) (header blk) (block_state_of (bc_direct bc)) False;
     if err \<noteq> VOk then Some (err, blk, bc)
     else do {
       (err, blk) \<leftarrow> pre_validate_block_body cr ev (bc_rule_set bc) blk (block_state_of (bc_direct bc));
       if err \<noteq> VOk then Some (err, blk, bc)
       else map_option (\<lambda>(err, bc). (err, blk, bc)) (blockchain_execute_block cr sha256 ev lay em blk check_state_root bc)
     }
   }"

section \<open>The checks of the body\<close>

lemma pre_validate_each_length: "pre_validate_each cr ev revn cid fee price txns = (err, txns') \<Longrightarrow> length txns' = length txns"
  by (induction txns arbitrary: txns') (auto simp: Let_def split: prod.splits if_splits)

lemma base_body_keeps:
  assumes "base_pre_validate_block_body cr ev rs blk st = Some (err, blk')"
  shows "header blk' = header blk \<and> length (transactions blk') = length (transactions blk)"
  using assms
  by (auto dest: pre_validate_each_length simp: base_pre_validate_block_body_def pre_validate_transactions_def bind_eq_Some_conv Let_def split: if_splits prod.splits)

lemma pre_validate_block_body_keeps:
  "pre_validate_block_body cr ev rs blk st = Some (err, blk') \<Longrightarrow> header blk' = header blk \<and> length (transactions blk') = length (transactions blk)"
  by (induction cr ev rs blk st rule: pre_validate_block_body.induct) (auto simp: base_body_keeps split: if_splits)

section \<open>Accepted blocks\<close>

lemma new_processor_fields:
  assumes "new_processor em blk rs st config = Some p"
  shows "ep_direct p = st" "ep_block p = blk" "ep_rule_set p = rs" "ep_config p = config" "fresh p"
  using assms by (auto simp: new_processor_def fresh_def)

lemma state_root_checked:
  assumes "view_ok st" "accounts_listed st" "hash32 H" "collision_free H (abs_state st)" "state_root_hash H st = Some r"
  shows "secure_root H (state_leaves H (abs_state st)) r"
  using state_root_ok [of st H] assms by (auto simp: view_ok_def)

text \<open>What an execution that is accepted was: the processor it ran, and the state it left.\<close>

lemma blockchain_execute_block_ok:
  assumes "blockchain_execute_block cr sha256 ev lay em blk check bc = Some (VOk, bc')"
  obtains p p' where "new_processor em blk (bc_rule_set bc) (bc_direct bc) (bc_config bc) = Some p"
    "execute_block cr sha256 ev lay em p = Some (VOk, bc_receipts bc', p')" "ep_direct p' = bc_direct bc'"
    "bc_config bc' = bc_config bc" "bc_rule_set bc' = bc_rule_set bc"
    "check \<longrightarrow> state_root_hash (fst cr) (bc_direct bc') = Some (state_root (header blk))"
  using assms by (auto simp: blockchain_execute_block_def bind_eq_Some_conv Let_def split: if_splits)

lemma insert_block_ok:
  assumes "insert_block cr sha256 ev lay em blk check bc = Some (VOk, blk', bc')"
  shows "validate_block_header (bc_rule_set bc) (header blk) (block_state_of (bc_direct bc)) False = Some VOk"
    "pre_validate_block_body cr ev (bc_rule_set bc) blk (block_state_of (bc_direct bc)) = Some (VOk, blk')"
    "blockchain_execute_block cr sha256 ev lay em blk' check bc = Some (VOk, bc')"
  using assms by (auto simp: insert_block_def bind_eq_Some_conv split: if_splits)


section \<open>A chain\<close>

text \<open>An empty block on the sample state, after a genesis block; the hash function is constant, so that its values are known.\<close>

definition sample_genesis :: block where
  "sample_genesis = idle_block\<lparr>header := sample_parent\<rparr>"

definition sample_chain :: blockchain where
  "sample_chain = new_blockchain (\<lambda>b. kEmptyListHash) sample_state default_config sample_genesis"

definition sample_next :: block where
  "sample_next = idle_block\<lparr>withdrawals := None, header := sample_child\<lparr>parent_hash := kEmptyListHash, transactions_root := kEmptyRoot,
     state_root := the (state_root_hash (\<lambda>b. kEmptyListHash) (clear_touched (bc_direct sample_chain)))\<rparr>\<rparr>"

lemma sample_listed: "accounts_listed sample_state"
proof -
  have "find_pre_account sample_state sample_address = Some 64"
    by (simp add: find_pre_account_def sample_state_def find_one_record sample_account_def absent_account_def)
  then show ?thesis
    by (simp add: accounts_listed_def sample_state_def for_each_offset_def one_record_map_def sample_account_def absent_account_def)
qed

lemma constant_collision_free: "collision_free (\<lambda>b. kEmptyListHash) (abs_state sample_state)"
proof -
  let ?ss = "[\<lparr>slot_key = sample_key, slot_initial = sample_key, slot_current = sample_key\<rparr>]"
  have "k = sample_key" if "length k = 32" "find_slot ?ss k = Some i" for k i
    using find_slot_exact [of ?ss k i] that by (auto simp: slots_sorted_def sample_key_def)
  then have "inj_on (\<lambda>b. kEmptyListHash) {k. slot_value sample_account None k \<noteq> zero32}"
    by (intro inj_onI) (auto simp: slot_value_def sample_account_def slots_for_def split: if_splits option.splits)
  then show ?thesis
    by (auto simp: collision_free_def abs_sample acct_of_def sample_account_def absent_account_def dom_def inj_on_def split: if_splits)
qed

lemma insert_header_ok:
  assumes "view_ok st"
  shows "view_ok (insert_header H h st)" "abs_state (insert_header H h st) = abs_state st" "accounts_listed (insert_header H h st) = accounts_listed st"
  using assms
  by (simp_all add: insert_header_def view_ok_def state_ok_def abs_state_def walk_ok_def core_def accounts_listed_def find_pre_account_def for_each_offset_def)

lemma sample_chain_fields:
  "bc_config sample_chain = default_config" "bc_rule_set sample_chain = rule_set_factory default_config"
  "bc_direct sample_chain = insert_header (\<lambda>b. kEmptyListHash) sample_parent sample_state"
  "read_header_of (bc_direct sample_chain) n kEmptyListHash = Some sample_parent"
  by (simp_all add: sample_chain_def new_blockchain_def prime_state_with_genesis_def sample_genesis_def insert_header_def
      block_header_hash_def read_header_of_def sample_state_def)

lemma sample_next_fields:
  "header sample_next = sample_child\<lparr>parent_hash := kEmptyListHash, transactions_root := kEmptyRoot,
     state_root := the (state_root_hash (\<lambda>b. kEmptyListHash) (clear_touched (bc_direct sample_chain)))\<rparr>"
  "transactions sample_next = []" "withdrawals sample_next = None" "ommers sample_next = []"
  by (simp_all add: sample_next_def idle_block_eq)

lemma sample_next_header:
  "validate_block_header (rule_set_factory default_config) (header sample_next) (block_state_of (bc_direct sample_chain)) False = Some VOk"
proof -
  have "revision default_config n t = EVMC_FRONTIER" for n t
    by (simp add: revision_def default_config_def)
  moreover have "get_parent_header (block_state_of (bc_direct sample_chain)) (header sample_next) = Some sample_parent"
    by (simp add: get_parent_header_def block_state_of_def sample_chain_fields(4) sample_next_fields sample_child_def)
  ultimately show ?thesis
    by (simp add: validate_block_header_def, simp add: sample_next_fields sample_child_def sample_parent_def sample_header_def check_against_parent_def vseq_def rule_set_factory_def base_validate_extra_data_def
        check_gas_delta_def check_base_fee_def check_blob_header_def check_access_list_fields_def check_field_def withdrawals_activated_def revision_order
        kMinGasLimit_def kMaxGasLimit_def kMaxExtraDataBytes_def Let_def, simp add: default_config_def)
qed

lemma sample_next_body:
  "pre_validate_block_body (\<lambda>b. kEmptyListHash, \<lambda>x. None) ev (rule_set_factory default_config) sample_next st = Some (VOk, sample_next)"
proof -
  have r: "revision default_config n t = EVMC_FRONTIER" for n t
    by (simp add: revision_def default_config_def)
  have b: "transactions (block_body.truncate sample_next) = []" "withdrawals (block_body.truncate sample_next) = None"
    by (simp_all add: block_body.truncate_def sample_next_fields)
  have h: "difficulty (header sample_next) = 0" "ommers_hash (header sample_next) = kEmptyListHash" "withdrawals_root (header sample_next) = None"
    "blob_gas_used (header sample_next) = None" "excess_blob_gas (header sample_next) = None" "transactions_root (header sample_next) = kEmptyRoot"
    by (simp_all add: sample_next_fields sample_child_def sample_parent_def sample_header_def)
  have t: "compute_transaction_root (\<lambda>b. kEmptyListHash) (block_body.truncate sample_next) = Some kEmptyRoot"
    by (simp add: compute_transaction_root_def b hb_root_hash_def hb_finalize_def hb_new_def stack_root_hash_def)
  have c: "shanghai_time default_config = None" "sample_next\<lparr>transactions := []\<rparr> = sample_next"
    using sample_next_fields(2) by (simp_all add: default_config_def)
  show ?thesis
    by (simp add: rule_set_factory_def base_pre_validate_block_body_def pre_validate_transactions_def check_withdrawals_def check_blob_gas_def
        check_ommers_hash_def t compute_withdrawals_root_def r b h c sample_next_fields(2,3,4) check_field_def
        withdrawals_activated_def blob_gas_price_def revision_order Let_def)
qed


end
