(* ===== verification/Witness_Layout.thy ===== *)
theory Witness_Layout
  imports State_View Mphf_Blob
begin

text \<open>
  The bytes of a witness (state_zz/pre_state.hpp, and the constructor of \<open>DirectState\<close> in state_zz/direct_state.cpp): the header of
  the pre-state, the layout check that runs before any field is used, the tables it hands out, and the account records as they lie in
  the data section of the address map. A read outside a buffer is \<open>None\<close>.
\<close>

section \<open>The structures\<close>

definition sizeof_PreStateMeta :: nat where "sizeof_PreStateMeta = 68"
definition sizeof_Account :: nat where "sizeof_Account = 256"
definition sizeof_Slot :: nat where "sizeof_Slot = 96"
definition sizeof_AddrHashEntry :: nat where "sizeof_AddrHashEntry = 56"
definition sizeof_BlockHashEntry :: nat where "sizeof_BlockHashEntry = 40"

lemmas sizeof_defs = sizeof_PreStateMeta_def sizeof_Account_def sizeof_Slot_def sizeof_AddrHashEntry_def sizeof_BlockHashEntry_def

definition kMagic :: u32 where "kMagic = 0x53455250"
definition kVersion :: u32 where "kVersion = 4"
definition kMphfAddrMapMagic :: u32 where "kMphfAddrMapMagic = 0x4148504D"
definition kMphfCodeStoreMagic :: u32 where "kMphfCodeStoreMagic = 0x4348504D"
definition kMphfNodeStoreMagic :: u32 where "kMphfNodeStoreMagic = 0x4E48504D"

text \<open>\<open>PreStateMeta\<close> and \<open>AddrHashEntry\<close>.\<close>

record pre_state_meta =
  pm_magic :: u32
  pm_version :: u32
  pm_n_accounts :: u32
  pm_n_block_hashes :: u32
  pm_prestate_offset :: u32
  pm_addr_hashes_offset :: u32
  pm_block_hashes_offset :: u32
  pm_code_store_offset :: u32
  pm_code_store_size :: u32

definition read_meta :: "bytes \<Rightarrow> pre_state_meta option" where
  "read_meta b = do {
     magic \<leftarrow> read_word b 0; version \<leftarrow> read_word b 4; n_accounts \<leftarrow> read_word b 8; n_block_hashes \<leftarrow> read_word b 12;
     ps \<leftarrow> read_word b 16; ah \<leftarrow> read_word b 20; bh \<leftarrow> read_word b 24; cs \<leftarrow> read_word b 28; cs_size \<leftarrow> read_word b 32;
     Some \<lparr>pm_magic = magic, pm_version = version, pm_n_accounts = n_accounts, pm_n_block_hashes = n_block_hashes, pm_prestate_offset = ps,
           pm_addr_hashes_offset = ah, pm_block_hashes_offset = bh, pm_code_store_offset = cs, pm_code_store_size = cs_size\<rparr> }"

record addr_hash_entry =
  ah_hash :: bytes32
  ah_addr :: address
  ah_offset :: u32

definition decode_addr_hash :: "bytes \<Rightarrow> addr_hash_entry" where
  "decode_addr_hash b = \<lparr>ah_hash = take 32 b, ah_addr = take 20 (drop 32 b), ah_offset = load_little (drop 52 b)\<rparr>"

fun read_addr_hashes :: "bytes \<Rightarrow> nat \<Rightarrow> nat \<Rightarrow> addr_hash_entry list option" where
  "read_addr_hashes b off 0 = Some []"
| "read_addr_hashes b off (Suc n) = do {
     e \<leftarrow> read_bytes b off sizeof_AddrHashEntry;
     es \<leftarrow> read_addr_hashes b (off + sizeof_AddrHashEntry) n;
     Some (decode_addr_hash e # es) }"

text \<open>\<open>Account\<close> and \<open>Slot\<close> as bytes. A flag is set if its byte is not zero.\<close>

definition decode_fields :: "bytes \<Rightarrow> account" where
  "decode_fields b =
     \<lparr>acc_addr = take 20 b, acc_deleted = (b ! 20 \<noteq> 0), acc_rlp_len = b ! 21, acc_rlp_sroot_off = b ! 22, acc_modified = (b ! 23 \<noteq> 0),
      acc_nonce = load_little (drop 24 b), acc_balance = load_little (drop 32 b), acc_code_hash = take 32 (drop 64 b),
      acc_storage_root = take 32 (drop 96 b), acc_code_store_offset = load_little (drop 128 b), acc_code_store_len = load_little (drop 132 b),
      acc_slot_count = load_little (drop 136 b), acc_rlp_buf = take kAccRlpBufSize (drop 140 b), acc_absent_reads = load_little (drop 252 b),
      acc_slots = []\<rparr>"

definition decode_slot :: "bytes \<Rightarrow> slot" where
  "decode_slot b = \<lparr>slot_key = take 32 b, slot_initial = take 32 (drop 32 b), slot_current = take 32 (drop 64 b)\<rparr>"

fun decode_slots :: "nat \<Rightarrow> bytes \<Rightarrow> slot list" where
  "decode_slots 0 b = []"
| "decode_slots (Suc n) b = decode_slot b # decode_slots n (drop sizeof_Slot b)"

text \<open>The record at a position, with the slots that lie right after it.\<close>

definition read_record :: "bytes \<Rightarrow> nat \<Rightarrow> account option" where
  "read_record data p = do {
     hd \<leftarrow> read_bytes data p sizeof_Account;
     let pa = decode_fields hd;
     let n = unat (acc_slot_count pa);
     ss \<leftarrow> read_bytes data (p + sizeof_Account) (n * sizeof_Slot);
     Some (pa\<lparr>acc_slots := decode_slots n ss\<rparr>) }"

definition flag_byte :: "bool \<Rightarrow> byte" where
  "flag_byte b = (if b then 1 else 0)"

definition encode_fields :: "account \<Rightarrow> bytes" where
  "encode_fields pa =
     acc_addr pa @ [flag_byte (acc_deleted pa), acc_rlp_len pa, acc_rlp_sroot_off pa, flag_byte (acc_modified pa)] @
     rev (store_big (acc_nonce pa)) @ rev (store_big (acc_balance pa)) @ acc_code_hash pa @ acc_storage_root pa @
     rev (store_big (acc_code_store_offset pa)) @ rev (store_big (acc_code_store_len pa)) @ rev (store_big (acc_slot_count pa)) @
     acc_rlp_buf pa @ rev (store_big (acc_absent_reads pa))"

definition encode_slot :: "slot \<Rightarrow> bytes" where
  "encode_slot s = slot_key s @ slot_initial s @ slot_current s"

definition encode_record :: "account \<Rightarrow> bytes" where
  "encode_record pa = encode_fields pa @ concat (map encode_slot (acc_slots pa))"

text \<open>Bytes written in place.\<close>

definition patch :: "bytes \<Rightarrow> nat \<Rightarrow> bytes \<Rightarrow> bytes" where
  "patch data p bs = take p data @ bs @ drop (p + length bs) data"

section \<open>The layout check\<close>

definition bound_bytes :: "nat \<Rightarrow> nat \<Rightarrow> nat \<Rightarrow> bool" where
  "bound_bytes blob_size off byte_count \<longleftrightarrow> \<not> (off > blob_size \<or> byte_count > blob_size \<or> off + byte_count > blob_size)"

text \<open>The product of a 32-bit count and the size of a structure does not overflow 64 bits.\<close>

definition bound_typed :: "nat \<Rightarrow> nat \<Rightarrow> nat \<Rightarrow> nat \<Rightarrow> nat \<Rightarrow> bool" where
  "bound_typed blob_size off n elem_size align \<longleftrightarrow> off mod align = 0 \<and> bound_bytes blob_size off (n * elem_size)"

definition overlap :: "nat \<times> nat \<Rightarrow> nat \<times> nat \<Rightarrow> bool" where
  "overlap a b \<longleftrightarrow> fst a < snd a \<and> fst b < snd b \<and> fst a < snd b \<and> fst b < snd a"

fun sections_disjoint :: "(nat \<times> nat) list \<Rightarrow> bool" where
  "sections_disjoint [] = True"
| "sections_disjoint (a # rest) \<longleftrightarrow> (\<forall>b \<in> set rest. \<not> overlap a b) \<and> sections_disjoint rest"

definition prestate_sections :: "pre_state_meta \<Rightarrow> (nat \<times> nat) list" where
  "prestate_sections m =
     [(0, sizeof_PreStateMeta),
      (unat (pm_prestate_offset m), if pm_n_accounts m > 0 then unat (pm_addr_hashes_offset m) else 0),
      (unat (pm_addr_hashes_offset m), unat (pm_addr_hashes_offset m) + unat (pm_n_accounts m) * sizeof_AddrHashEntry),
      (unat (pm_block_hashes_offset m), unat (pm_block_hashes_offset m) + unat (pm_n_block_hashes m) * sizeof_BlockHashEntry),
      (unat (pm_code_store_offset m), unat (pm_code_store_offset m) + unat (pm_code_store_size m))]"

definition check_entry :: "bytes \<Rightarrow> nat \<Rightarrow> bool" where
  "check_entry data off =
     (if off mod 8 \<noteq> 0 then False
      else case read_word data off of
             None \<Rightarrow> False
           | Some body_len \<Rightarrow>
               if unat (body_len :: u64) < sizeof_Account then False
               else case read_word data (off + 8 + 136) of
                      None \<Rightarrow> False
                    | Some slot_count \<Rightarrow> \<not> unat (slot_count :: u32) * sizeof_Slot > unat body_len - sizeof_Account)"

definition addr_map_region :: "bytes \<Rightarrow> pre_state_meta \<Rightarrow> bytes" where
  "addr_map_region blob m =
     take (unat (pm_addr_hashes_offset m - pm_prestate_offset m)) (drop (unat (pm_prestate_offset m)) blob)"

definition code_store_region :: "bytes \<Rightarrow> pre_state_meta \<Rightarrow> bytes" where
  "code_store_region blob m = take (unat (pm_code_store_size m)) (drop (unat (pm_code_store_offset m)) blob)"

text \<open>\<open>aligned\<close> is whether the blob starts at a multiple of 8.\<close>

definition validate_prestate_layout :: "bool \<Rightarrow> bytes \<Rightarrow> bool" where
  "validate_prestate_layout aligned blob =
     (if length blob < sizeof_PreStateMeta then False
      else if \<not> aligned then False
      else case read_meta blob of
        None \<Rightarrow> False
      | Some m \<Rightarrow>
          if pm_magic m \<noteq> kMagic then False
          else if pm_version m \<noteq> kVersion then False
          else if \<not> bound_typed (length blob) (unat (pm_addr_hashes_offset m)) (unat (pm_n_accounts m)) sizeof_AddrHashEntry 8 then False
          else if \<not> bound_typed (length blob) (unat (pm_block_hashes_offset m)) (unat (pm_n_block_hashes m)) sizeof_BlockHashEntry 8 then False
          else if pm_n_accounts m > 0 \<and>
               (pm_addr_hashes_offset m \<le> pm_prestate_offset m \<or>
                \<not> validate_mphf 20 blob (pm_prestate_offset m) (pm_addr_hashes_offset m - pm_prestate_offset m) kMphfAddrMapMagic \<or>
                (case read_header (addr_map_region blob m) of None \<Rightarrow> True | Some h \<Rightarrow> h_n_keys h = 0)) then False
          else if \<not> validate_mphf 32 blob (pm_code_store_offset m) (pm_code_store_size m) kMphfCodeStoreMagic then False
          else if \<not> sections_disjoint (prestate_sections m) then False
          else pm_n_accounts m > 0 \<longrightarrow>
            (case mphf_of (addr_map_region blob m) of
               None \<Rightarrow> False
             | Some (mp, data) \<Rightarrow>
                 list_all (\<lambda>off. off \<noteq> 0 \<longrightarrow> check_entry data (unat off)) (mp_slot_offsets mp) \<and>
                 list_all (\<lambda>c. check_entry data (unat (snd c))) (mp_collisions mp)))"

definition validate_nodestore_layout :: "bool \<Rightarrow> bytes \<Rightarrow> bool" where
  "validate_nodestore_layout aligned ns =
     (if ns = [] then True
      else if \<not> aligned then False
      else if length ns > 0xFFFFFFFF then False
      else validate_mphf 32 ns 0 (of_nat (length ns)) kMphfNodeStoreMagic)"

section \<open>Construction\<close>

text \<open>The views a \<open>DirectState\<close> has of its blob.\<close>

record witness =
  wt_meta :: pre_state_meta
  wt_blob_size :: nat
  wt_map :: mphf_map
  wt_data :: bytes
  wt_addr_hashes :: "addr_hash_entry list"
  wt_code_map :: mphf_map
  wt_code_data :: bytes

definition no_map :: mphf_map where
  "no_map = \<lparr>mp_n_keys = 0, mp_n_buckets = 0, mp_seed_factor = 0, mp_displacement = [], mp_slot_offsets = [], mp_collisions = []\<rparr>"

text \<open>\<open>DirectState::DirectState\<close>: it aborts on a blob or a node store whose layout is not valid.\<close>

definition new_witness :: "bool \<Rightarrow> bytes \<Rightarrow> bool \<Rightarrow> bytes \<Rightarrow> witness option" where
  "new_witness aligned blob ns_aligned nodestore = do {
     m \<leftarrow> (if validate_prestate_layout aligned blob then read_meta blob else None);
     (mp, data) \<leftarrow> (if pm_n_accounts m > 0 then mphf_of (addr_map_region blob m) else Some (no_map, []));
     (cmp, cdata) \<leftarrow> (if pm_code_store_size m > 0 then mphf_of (code_store_region blob m) else Some (no_map, []));
     hashes \<leftarrow> read_addr_hashes blob (unat (pm_addr_hashes_offset m)) (unat (pm_n_accounts m));
     if validate_nodestore_layout ns_aligned nodestore
     then Some \<lparr>wt_meta = m, wt_blob_size = length blob, wt_map = mp, wt_data = data, wt_addr_hashes = hashes, wt_code_map = cmp, wt_code_data = cdata\<rparr>
     else None }"

text \<open>The state that a block runs on: the records at the entries of the address map, and nothing beside the witness.\<close>

definition direct_state_of :: "witness \<Rightarrow> direct_state" where
  "direct_state_of w =
     \<lparr>ds_n_accounts = pm_n_accounts (wt_meta w), ds_map = wt_map w,
      ds_records = (\<lambda>off. if off \<in> set (for_each_offset (wt_map w)) then read_record (wt_data w) (off + 8) else None),
      ds_code_map = wt_code_map w, ds_code_data = wt_code_data w, ds_created = [], ds_overflow = [], ds_wiped = [], ds_absent_reads = [],
      ds_created_code = [], ds_code_collisions = [], ds_touched = [], ds_headers = [], ds_ancestor_missing = False, ds_ancestors = [],
      ds_ancestors_number = 0, ds_ancestors_end = False, ds_require_headers = False, ds_witness_incomplete = False, ds_multi_block = False,
      ds_changed_addresses = [], ds_changed_storage = []\<rparr>"

section \<open>Reading and writing in place\<close>

lemma length_patch [simp]: "p + length bs \<le> length data \<Longrightarrow> length (patch data p bs) = length data"
  by (simp add: patch_def)

lemma read_bytes_cong:
  "length a = length b \<Longrightarrow> (\<And>i. q \<le> i \<Longrightarrow> i < q + n \<Longrightarrow> i < length b \<Longrightarrow> a ! i = b ! i) \<Longrightarrow> read_bytes a q n = read_bytes b q n"
  by (auto simp: read_bytes_def intro: nth_equalityI)

lemma nth_patch:
  assumes "p + length bs \<le> length data" "i < length data"
  shows "patch data p bs ! i = (if p \<le> i \<and> i < p + length bs then bs ! (i - p) else data ! i)"
  using assms by (auto simp: patch_def nth_append min_def)

text \<open>Two ranges with no byte in common.\<close>

definition apart :: "nat \<Rightarrow> nat \<Rightarrow> nat \<Rightarrow> nat \<Rightarrow> bool" where
  "apart p m q n \<longleftrightarrow> p + m \<le> q \<or> q + n \<le> p"

lemma read_bytes_patch:
  assumes "p + length bs \<le> length data" "apart p (length bs) q n"
  shows "read_bytes (patch data p bs) q n = read_bytes data q n"
  using assms by (intro read_bytes_cong) (auto simp: nth_patch apart_def)

lemma read_bytes_patch_same:
  assumes "p + length bs \<le> length data" "q + n \<le> length bs"
  shows "read_bytes (patch data p bs) (p + q) n = read_bytes bs q n"
  using assms by (auto simp: read_bytes_def patch_def min_def length_0_conv [symmetric] simp del: length_0_conv)

text \<open>A record whose fields have the sizes of their arrays.\<close>

definition sized :: "account \<Rightarrow> bool" where
  "sized pa \<longleftrightarrow> length (acc_addr pa) = 20 \<and> length (acc_code_hash pa) = 32 \<and> length (acc_storage_root pa) = 32 \<and>
     length (acc_rlp_buf pa) = kAccRlpBufSize \<and> length (acc_slots pa) = unat (acc_slot_count pa) \<and>
     (\<forall>s \<in> set (acc_slots pa). length (slot_key s) = 32 \<and> length (slot_initial s) = 32 \<and> length (slot_current s) = 32)"

definition rec_span :: "account \<Rightarrow> nat" where
  "rec_span pa = sizeof_Account + unat (acc_slot_count pa) * sizeof_Slot"

lemma length_encode_fields: "sized pa \<Longrightarrow> length (encode_fields pa) = sizeof_Account"
  by (simp add: sized_def encode_fields_def kAccRlpBufSize_def sizeof_defs)

lemma length_encode_slots:
  "\<forall>s \<in> set ss. length (slot_key s) = 32 \<and> length (slot_initial s) = 32 \<and> length (slot_current s) = 32 \<Longrightarrow>
   length (concat (map encode_slot ss)) = length ss * sizeof_Slot"
  by (induction ss) (auto simp: encode_slot_def sizeof_defs)

lemma length_encode_record: "sized pa \<Longrightarrow> length (encode_record pa) = rec_span pa"
  using length_encode_fields length_encode_slots by (auto simp: encode_record_def rec_span_def sized_def)

lemma decode_encode_slots:
  "\<forall>s \<in> set ss. length (slot_key s) = 32 \<and> length (slot_initial s) = 32 \<and> length (slot_current s) = 32 \<Longrightarrow>
   decode_slots (length ss) (concat (map encode_slot ss)) = ss"
  by (induction ss) (auto simp: encode_slot_def decode_slot_def sizeof_defs)

lemma flag_byte_neq_0 [simp]: "flag_byte b \<noteq> 0 \<longleftrightarrow> b"
  by (simp add: flag_byte_def)

lemma decode_encode_fields: "sized pa \<Longrightarrow> decode_fields (encode_fields pa) = pa\<lparr>acc_slots := []\<rparr>"
  by (simp add: sized_def decode_fields_def encode_fields_def kAccRlpBufSize_def nth_append load_little_rev_store load_little_rev_store [where rest = "[]", simplified])

lemma read_record_write:
  assumes "sized pa" "p + rec_span pa \<le> length data"
  shows "read_record (patch data p (encode_record pa)) p = Some pa"
proof -
  let ?bs = "encode_record pa"
  note l = length_encode_record [OF assms(1)] length_encode_fields [OF assms(1)]
  have "read_bytes ?bs 0 sizeof_Account = Some (encode_fields pa)"
    using l by (simp add: read_bytes_def encode_record_def)
  then have h: "read_bytes (patch data p ?bs) p sizeof_Account = Some (encode_fields pa)"
    using read_bytes_patch_same [of p ?bs data 0 sizeof_Account] l assms(2) by (simp add: rec_span_def)
  have n: "length (acc_slots pa) = unat (acc_slot_count pa)" and
    s: "\<forall>s \<in> set (acc_slots pa). length (slot_key s) = 32 \<and> length (slot_initial s) = 32 \<and> length (slot_current s) = 32"
    using assms(1) by (simp_all add: sized_def)
  have "read_bytes ?bs sizeof_Account (unat (acc_slot_count pa) * sizeof_Slot) = Some (concat (map encode_slot (acc_slots pa)))"
    using l length_encode_slots [OF s] n by (simp add: read_bytes_def encode_record_def)
  then have "read_bytes (patch data p ?bs) (p + sizeof_Account) (unat (acc_slot_count pa) * sizeof_Slot) = Some (concat (map encode_slot (acc_slots pa)))"
    using read_bytes_patch_same [of p ?bs data sizeof_Account "unat (acc_slot_count pa) * sizeof_Slot"] l assms(2) by (simp add: rec_span_def)
  then show ?thesis
    using h decode_encode_slots [OF s] n by (simp add: read_record_def decode_encode_fields [OF assms(1)])
qed

lemma decode_slots_sized:
  "n * sizeof_Slot \<le> length b \<Longrightarrow> length (decode_slots n b) = n \<and>
     (\<forall>s \<in> set (decode_slots n b). length (slot_key s) = 32 \<and> length (slot_initial s) = 32 \<and> length (slot_current s) = 32)"
proof (induction n arbitrary: b)
  case (Suc n)
  then show ?case
    using Suc.IH [of "drop sizeof_Slot b"] by (auto simp: decode_slot_def sizeof_defs)
qed simp

lemma read_record_sized:
  assumes "read_record data p = Some pa"
  shows "sized pa" "p + rec_span pa \<le> length data"
proof -
  obtain h ss where r: "p + sizeof_Account \<le> length data" "h = take sizeof_Account (drop p data)"
    "p + sizeof_Account + unat (acc_slot_count (decode_fields h)) * sizeof_Slot \<le> length data"
    "ss = take (unat (acc_slot_count (decode_fields h)) * sizeof_Slot) (drop (p + sizeof_Account) data)"
    "pa = (decode_fields h)\<lparr>acc_slots := decode_slots (unat (acc_slot_count (decode_fields h))) ss\<rparr>"
    using assms by (auto simp: read_record_def bind_eq_Some_conv Let_def read_bytes_eq_Some)
  have "length h = 256"
    using r(1,2) by (simp add: sizeof_defs)
  then show "sized pa"
    using decode_slots_sized [of "unat (acc_slot_count (decode_fields h))" ss] r(3,4)
    unfolding r(5) by (simp add: sized_def decode_fields_def kAccRlpBufSize_def)
  show "p + rec_span pa \<le> length data"
    using r(3) by (simp add: r(5) rec_span_def)
qed

text \<open>A record is the same wherever its bytes are.\<close>

lemma read_record_cong:
  assumes "read_record data p = Some pa" "\<And>q n. p \<le> q \<Longrightarrow> q + n \<le> p + rec_span pa \<Longrightarrow> read_bytes data' q n = read_bytes data q n"
  shows "read_record data' p = Some pa"
proof -
  have "read_bytes data' p sizeof_Account = read_bytes data p sizeof_Account"
    using assms(2) [of p sizeof_Account] by (simp add: rec_span_def)
  moreover have "read_bytes data' (p + sizeof_Account) (unat (acc_slot_count pa) * sizeof_Slot) =
      read_bytes data (p + sizeof_Account) (unat (acc_slot_count pa) * sizeof_Slot)"
    using assms(2) [of "p + sizeof_Account" "unat (acc_slot_count pa) * sizeof_Slot"] by (simp add: rec_span_def)
  ultimately show ?thesis
    using assms(1) by (auto simp: read_record_def bind_eq_Some_conv Let_def)
qed

lemma read_record_frame:
  assumes "read_record data q = Some pa" "p + length bs \<le> length data" "apart p (length bs) q (rec_span pa)"
  shows "read_record (patch data p bs) q = Some pa"
  using assms by (intro read_record_cong [OF assms(1)] read_bytes_patch) (auto simp: apart_def)

lemma read_record_defined:
  assumes "p + sizeof_Account \<le> length data" "read_word data (p + 136) = Some (n :: u32)" "p + sizeof_Account + unat n * sizeof_Slot \<le> length data"
  shows "\<exists>pa. read_record data p = Some pa \<and> acc_slot_count pa = n"
proof -
  have "take 4 (drop 136 (take 256 (drop p data))) = take 4 (drop (p + 136) data)"
    by (simp add: drop_take add.commute)
  then have "acc_slot_count (decode_fields (take 256 (drop p data))) = n"
    using assms(2) by (auto simp: decode_fields_def read_word_def read_bytes_eq_Some load_little_def)
  then show ?thesis
    using assms(1,3) by (simp add: read_record_def read_bytes_def Let_def sizeof_defs)
qed

lemma read_record_count:
  assumes "read_record data p = Some pa"
  shows "read_word data (p + 136) = Some (acc_slot_count pa)"
proof -
  obtain h where h: "p + 256 \<le> length data" "h = take 256 (drop p data)" "acc_slot_count pa = acc_slot_count (decode_fields h)"
    using assms by (auto simp: read_record_def bind_eq_Some_conv Let_def read_bytes_eq_Some sizeof_defs)
  have "take 4 (drop 136 h) = take 4 (drop (p + 136) data)"
    by (simp add: h(2) drop_take add.commute)
  then show ?thesis
    using h(1) by (simp add: h(3) read_word_def read_bytes_def decode_fields_def load_little_def)
qed

text \<open>The address at the start of a record, and the flag that is cleared in place.\<close>

lemma read_record_addr: "read_record data p = Some pa \<Longrightarrow> read_bytes data p 20 = Some (acc_addr pa)"
  by (auto simp: read_record_def bind_eq_Some_conv Let_def read_bytes_eq_Some decode_fields_def sizeof_defs)

lemma decode_fields_flag:
  "length b = 256 \<Longrightarrow> decode_fields (b[23 := 0]) = (decode_fields b)\<lparr>acc_modified := False\<rparr>"
  by (simp add: decode_fields_def)

lemma read_record_clear:
  assumes "read_record data p = Some pa"
  shows "read_record (patch data (p + 23) [0]) p = Some (pa\<lparr>acc_modified := False\<rparr>)"
proof -
  have l: "p + 256 \<le> length data"
    using read_record_sized(2) [OF assms] by (simp add: rec_span_def sizeof_defs)
  have "take 256 (drop p (patch data (p + 23) [0])) = (take 256 (drop p data))[23 := 0]"
    using l by (intro nth_equalityI) (auto simp: nth_patch nth_list_update)
  then have "read_bytes (patch data (p + 23) [0]) p sizeof_Account = map_option (\<lambda>b. b[23 := 0]) (read_bytes data p sizeof_Account)"
    using l by (simp add: read_bytes_def sizeof_defs)
  moreover have "read_bytes (patch data (p + 23) [0]) (p + sizeof_Account) n = read_bytes data (p + sizeof_Account) n" for n
    using l by (intro read_bytes_patch) (auto simp: apart_def sizeof_defs)
  ultimately show ?thesis
    using assms l by (auto simp: read_record_def bind_eq_Some_conv Let_def read_bytes_eq_Some decode_fields_flag sizeof_defs)
qed

lemma read_record_modified: "read_record data p = Some pa \<Longrightarrow> Checked_Reads.at data (p + 23) = Some b \<Longrightarrow> acc_modified pa = (b \<noteq> 0)"
  by (auto simp: read_record_def bind_eq_Some_conv Let_def read_bytes_eq_Some decode_fields_def sizeof_defs at_eq_Some)

end
