(* ===== verification/Sanitize.thy ===== *)
theory Sanitize
  imports Witness_Layout
begin

text \<open>
  \<open>DirectState::sanitize\<close> (state_zz/direct_state.cpp): the checks that bind the witness to its hashes before a block runs on it. It runs on
  the bytes of the data sections and changes the account records in place. An access outside a section is \<open>None\<close>, a witness that is
  rejected is \<open>Some None\<close>.
\<close>

section \<open>The code\<close>

text \<open>\<open>mphf_entries_tile\<close>.\<close>

fun tile_from :: "bytes \<Rightarrow> nat list \<Rightarrow> nat \<Rightarrow> bool option" where
  "tile_from data [] expect = Some (expect = length data)"
| "tile_from data (off # offs) expect =
     (if off \<noteq> expect then Some False
      else do { body_len \<leftarrow> read_word data off; tile_from data offs (off + unat (mphf_align8 (ucast (8 + (body_len :: u64))))) })"

definition mphf_entries_tile :: "mphf_map \<Rightarrow> bytes \<Rightarrow> bool option" where
  "mphf_entries_tile m data =
     (if mp_n_keys m = 0 then Some True
      else tile_from data (sort (map (\<lambda>off. unat (of_nat off :: u32)) (for_each_offset m))) 8)"

text \<open>
  \<open>CodeStoreVerified\<close>: the entries the reader of the input has hashed already. \<open>cv_here\<close> is whether the section it was set for is this
  code store's.
\<close>

record code_store_verified =
  cv_here :: bool
  cv_bits :: "u32 list"
  cv_n_bits :: nat

definition entry_verified :: "code_store_verified \<Rightarrow> nat \<Rightarrow> bool" where
  "entry_verified v off \<longleftrightarrow>
     cv_here v \<and> off mod 8 = 0 \<and> off div 8 < cv_n_bits v \<and>
     (case Checked_Reads.at (cv_bits v) (off div 256) of None \<Rightarrow> False | Some bits \<Rightarrow> bit bits (off div 8 mod 32))"

definition entry_hashed :: "(bytes \<Rightarrow> bytes32) \<Rightarrow> code_store_verified \<Rightarrow> bytes \<Rightarrow> nat \<Rightarrow> bool option" where
  "entry_hashed keccak256 v data off =
     (if entry_verified v off then Some True
      else map_option (\<lambda>body. keccak256 (drop kPayloadOffset body) = take 32 body) (body_at data off))"

fun all_hashed :: "(bytes \<Rightarrow> bytes32) \<Rightarrow> code_store_verified \<Rightarrow> bytes \<Rightarrow> nat list \<Rightarrow> bool option" where
  "all_hashed keccak256 v data [] = Some True"
| "all_hashed keccak256 v data (off # offs) = do {
     a \<leftarrow> entry_hashed keccak256 v data off;
     b \<leftarrow> all_hashed keccak256 v data offs;
     Some (a \<and> b) }"

text \<open>\<open>handle_account_body\<close> on a record.\<close>

definition bind_code :: "(bytes32 \<Rightarrow> (nat \<times> bytes) option) \<Rightarrow> account \<Rightarrow> account option" where
  "bind_code find_code pa =
     (if acc_code_store_len pa > 0
      then case find_code (acc_code_hash pa) of
             None \<Rightarrow> None
           | Some (off, body) \<Rightarrow>
               if length body < kPayloadOffset \<or> unat (acc_code_store_len pa) > length body - kPayloadOffset then None
               else Some (pa\<lparr>acc_code_store_offset := of_nat off, acc_code_store_len := of_nat (length body - kPayloadOffset)\<rparr>)
      else Some pa)"

definition reset_slot :: "slot \<Rightarrow> slot" where
  "reset_slot s = s\<lparr>slot_current := slot_initial s\<rparr>"

definition sanitize_record :: "(bytes32 \<Rightarrow> (nat \<times> bytes) option) \<Rightarrow> account \<Rightarrow> account option" where
  "sanitize_record find_code pa = do {
     pa \<leftarrow> bind_code find_code pa;
     let pa = rlp_into_own_cache (pa\<lparr>acc_deleted := False, acc_modified := True, acc_absent_reads := 0\<rparr>);
     if successively (\<lambda>a b. lt_bytes32 (slot_key a) (slot_key b)) (acc_slots pa)
     then Some (pa\<lparr>acc_slots := map reset_slot (acc_slots pa)\<rparr>)
     else None }"

fun walk_accounts :: "(account \<Rightarrow> account option) \<Rightarrow> nat list \<Rightarrow> bytes \<Rightarrow> bytes option option" where
  "walk_accounts f [] data = Some (Some data)"
| "walk_accounts f (off # offs) data = do {
     pa \<leftarrow> read_record data (off + 8);
     case f pa of
       None \<Rightarrow> Some None
     | Some pa' \<Rightarrow> walk_accounts f offs (patch data (off + 8) (encode_record pa')) }"

text \<open>The loop over \<open>addr_hashes_\<close>, which clears the flag of each record it names, and the loop that looks for one it has not cleared.\<close>

fun bind_hashes :: "(bytes \<Rightarrow> bytes32) \<Rightarrow> bytes32 option \<Rightarrow> addr_hash_entry list \<Rightarrow> bytes \<Rightarrow> bytes option option" where
  "bind_hashes keccak256 prev_hash [] data = Some (Some data)"
| "bind_hashes keccak256 prev_hash (e # es) data =
     (if (case prev_hash of None \<Rightarrow> False | Some h \<Rightarrow> memcmp h (ah_hash e) \<ge> 0) then Some None
      else if keccak256 (ah_addr e) \<noteq> ah_hash e then Some None
      else if unat (ah_offset e) + 8 + sizeof_Account > length data then Some None
      else do {
        addr \<leftarrow> read_bytes data (unat (ah_offset e) + 8) 20;
        if addr \<noteq> ah_addr e then Some None
        else bind_hashes keccak256 (Some (ah_hash e)) es (patch data (unat (ah_offset e) + 8 + 23) [0]) })"

fun all_cleared :: "bytes \<Rightarrow> nat list \<Rightarrow> bool option" where
  "all_cleared data [] = Some True"
| "all_cleared data (off # offs) = do {
     b \<leftarrow> Checked_Reads.at data (off + 8 + 23);
     r \<leftarrow> all_cleared data offs;
     Some (b = 0 \<and> r) }"

definition in_builder_order :: "witness \<Rightarrow> bool" where
  "in_builder_order w \<longleftrightarrow>
     (let m = wt_meta w in
      \<not> (sizeof_PreStateMeta > unat (pm_prestate_offset m) \<or> pm_prestate_offset m > pm_addr_hashes_offset m \<or>
         unat (pm_addr_hashes_offset m) + unat (pm_n_accounts m) * sizeof_AddrHashEntry > unat (pm_block_hashes_offset m) \<or>
         unat (pm_block_hashes_offset m) + unat (pm_n_block_hashes m) * sizeof_BlockHashEntry > unat (pm_code_store_offset m) \<or>
         unat (pm_code_store_offset m) + unat (pm_code_store_size m) > wt_blob_size w))"

text \<open>The addresses of the records, if the header counts any.\<close>

definition walked :: "witness \<Rightarrow> nat list" where
  "walked w = (if pm_n_accounts (wt_meta w) > 0 then for_each_offset (wt_map w) else [])"

definition bind_accounts :: "(bytes \<Rightarrow> bytes32) \<Rightarrow> witness \<Rightarrow> witness option option" where
  "bind_accounts keccak256 w = do {
     r \<leftarrow> walk_accounts (sanitize_record (find_code_entry (direct_state_of w))) (walked w) (wt_data w);
     case r of
       None \<Rightarrow> Some None
     | Some data \<Rightarrow> do {
         r \<leftarrow> bind_hashes keccak256 None (wt_addr_hashes w) data;
         case r of
           None \<Rightarrow> Some None
         | Some data \<Rightarrow> do {
             ok \<leftarrow> all_cleared data (walked w);
             Some (if ok then Some (w\<lparr>wt_data := data\<rparr>) else None) } } }"

definition sanitize :: "(bytes \<Rightarrow> bytes32) \<Rightarrow> code_store_verified \<Rightarrow> witness \<Rightarrow> witness option option" where
  "sanitize keccak256 v w =
     (if \<not> in_builder_order w then Some None
      else do {
        accounts_tile \<leftarrow> mphf_entries_tile (wt_map w) (wt_data w);
        code_tiles \<leftarrow> mphf_entries_tile (wt_code_map w) (wt_code_data w);
        if \<not> (accounts_tile \<and> code_tiles) then Some None
        else do {
          code_ok \<leftarrow> all_hashed keccak256 v (wt_code_data w) (for_each_offset (wt_code_map w));
          if \<not> code_ok then Some None else bind_accounts keccak256 w } })"

section \<open>The views of a valid blob\<close>

lemma read_addr_hashes_ok:
  "off + n * sizeof_AddrHashEntry \<le> length b \<Longrightarrow>
   \<exists>es. read_addr_hashes b off n = Some es \<and> length es = n \<and> (\<forall>e \<in> set es. length (ah_hash e) = 32 \<and> length (ah_addr e) = 20)"
proof (induction n arbitrary: off)
  case (Suc n)
  have "off + sizeof_AddrHashEntry + n * sizeof_AddrHashEntry \<le> length b"
    using Suc.prems by simp
  from Suc.IH [OF this] obtain es where "read_addr_hashes b (off + sizeof_AddrHashEntry) n = Some es" "length es = n"
    "\<forall>e \<in> set es. length (ah_hash e) = 32 \<and> length (ah_addr e) = 20"
    by blast
  moreover have "off + sizeof_AddrHashEntry \<le> length b"
    using Suc.prems by simp
  ultimately show ?case
    by (auto simp: read_bytes_def decode_addr_hash_def sizeof_defs)
qed simp

text \<open>An entry whose record fits into its body.\<close>

definition entry_fits :: "bytes \<Rightarrow> nat \<Rightarrow> bool" where
  "entry_fits data off \<longleftrightarrow> (\<exists>len pa. read_word data off = Some (len :: u64) \<and> off + 8 + unat len \<le> length data \<and>
     read_record data (off + 8) = Some pa \<and> rec_span pa \<le> unat len)"

lemma entry_fitsI:
  assumes "entry_within_data 20 data off" "check_entry data off"
  shows "entry_fits data off"
proof -
  obtain len :: u64 where len: "read_word data off = Some len" "off + 8 + unat len \<le> length data"
    using assms(1) by (auto simp: entry_within_data_def split: if_splits option.splits)
  then have "sizeof_Account \<le> unat len"
    using assms(2) by (auto simp: check_entry_def split: if_splits option.splits)
  moreover obtain n :: u32 where n: "read_word data (off + 8 + 136) = Some n" "unat n * sizeof_Slot \<le> unat len - sizeof_Account"
    using assms(2) len(1) by (auto simp: check_entry_def split: if_splits option.splits)
  ultimately show ?thesis
    using read_record_defined [of "off + 8" data n] len unfolding entry_fits_def by (fastforce simp: rec_span_def)
qed

definition views_ok :: "witness \<Rightarrow> bool" where
  "views_ok w \<longleftrightarrow> tables_ok (wt_map w) \<and> (\<forall>off \<in> set (for_each_offset (wt_map w)). entry_fits (wt_data w) off) \<and> length (wt_data w) < 2 ^ 32 \<and>
     tables_ok (wt_code_map w) \<and> (\<forall>off \<in> set (for_each_offset (wt_code_map w)). entry_within_data 32 (wt_code_data w) off) \<and>
     length (wt_code_data w) < 2 ^ 32 \<and> (pm_n_accounts (wt_meta w) = 0 \<longrightarrow> wt_map w = no_map) \<and>
     (\<forall>e \<in> set (wt_addr_hashes w). length (ah_hash e) = 32 \<and> length (ah_addr e) = 20)"

lemma mphf_of_data_bound: "mphf_of b = Some (m, data) \<Longrightarrow> length data < 2 ^ 32"
proof -
  assume "mphf_of b = Some (m, data)"
  then have "length data = 0 \<or> length data \<in> range (unat :: u32 \<Rightarrow> nat)"
    by (auto simp: mphf_of_def bind_eq_Some_conv dest!: read_bytes_length split: if_splits)
  then obtain n :: u32 where "length data \<le> unat n"
    by (metis imageE le0 le_refl)
  also have "\<dots> < 2 ^ 32"
    using unsigned_less [of n] by simp
  finally show ?thesis .
qed

lemma for_each_offset_no_map [simp]: "for_each_offset no_map = []" "tables_ok no_map"
  by (simp_all add: no_map_def for_each_offset_def tables_ok_def)

lemma validated_entries:
  assumes "validate_mphf ks blob off sz magic" "mphf_of (take (unat sz) (drop (unat off) blob)) = Some (m, data)" "sz \<noteq> 0"
  shows "tables_ok m" "\<And>o'. o' \<in> set (for_each_offset m) \<Longrightarrow> entry_within_data ks data o'"
  using validate_mphf_tables [OF assms(1,3)] assms(2) by (metis option.inject prod.inject)+

lemma new_witness_views:
  assumes "new_witness aligned blob ns_aligned ns = Some w"
  shows "views_ok w"
proof -
  obtain m mp data cmp cdata hashes where w: "validate_prestate_layout aligned blob" "read_meta blob = Some m"
    "(if pm_n_accounts m > 0 then mphf_of (addr_map_region blob m) else Some (no_map, [])) = Some (mp, data)"
    "(if pm_code_store_size m > 0 then mphf_of (code_store_region blob m) else Some (no_map, [])) = Some (cmp, cdata)"
    "read_addr_hashes blob (unat (pm_addr_hashes_offset m)) (unat (pm_n_accounts m)) = Some hashes"
    "w = \<lparr>wt_meta = m, wt_blob_size = length blob, wt_map = mp, wt_data = data, wt_addr_hashes = hashes, wt_code_map = cmp, wt_code_data = cdata\<rparr>"
    using assms by (auto simp: new_witness_def bind_eq_Some_conv split: if_splits)
  have v: "bound_typed (length blob) (unat (pm_addr_hashes_offset m)) (unat (pm_n_accounts m)) sizeof_AddrHashEntry 8"
    "validate_mphf 32 blob (pm_code_store_offset m) (pm_code_store_size m) kMphfCodeStoreMagic"
    using w(1,2) by (auto simp: validate_prestate_layout_def split: if_splits)
  have "tables_ok mp \<and> (\<forall>off \<in> set (for_each_offset mp). entry_fits data off)"
  proof (cases "pm_n_accounts m > 0")
    case True
    then have mp: "mphf_of (addr_map_region blob m) = Some (mp, data)"
      using w(3) by simp
    have a: "pm_prestate_offset m < pm_addr_hashes_offset m"
      "validate_mphf 20 blob (pm_prestate_offset m) (pm_addr_hashes_offset m - pm_prestate_offset m) kMphfAddrMapMagic"
      "list_all (\<lambda>off. off \<noteq> 0 \<longrightarrow> check_entry data (unat off)) (mp_slot_offsets mp)" "list_all (\<lambda>c. check_entry data (unat (snd c))) (mp_collisions mp)"
      using w(1,2) True mp by (auto simp: validate_prestate_layout_def split: if_splits)
    have "pm_addr_hashes_offset m - pm_prestate_offset m \<noteq> 0"
      using a(1) by auto
    note e = validated_entries [OF a(2) mp [unfolded addr_map_region_def] this]
    have "check_entry data off" if "off \<in> set (for_each_offset mp)" for off
      using that a(3,4) by (auto simp: for_each_offset_def list_all_iff split: if_splits)
    then show ?thesis
      using e entry_fitsI by blast
  qed (use w(3) in simp)
  moreover have "tables_ok cmp \<and> (\<forall>off \<in> set (for_each_offset cmp). entry_within_data 32 cdata off)"
  proof (cases "pm_code_store_size m > 0")
    case True
    then show ?thesis
      using validated_entries [OF v(2)] w(4) unfolding code_store_region_def by auto
  qed (use w(4) in simp)
  moreover have "length data < 2 ^ 32" "length cdata < 2 ^ 32"
    using w(3,4) mphf_of_data_bound by (auto split: if_splits)
  moreover have "\<forall>e \<in> set hashes. length (ah_hash e) = 32 \<and> length (ah_addr e) = 20"
    using read_addr_hashes_ok [of "unat (pm_addr_hashes_offset m)" "unat (pm_n_accounts m)" blob] w(5) v(1)
    by (auto simp: bound_typed_def bound_bytes_def)
  moreover have "pm_n_accounts m = 0 \<longrightarrow> mp = no_map"
    using w(3) by auto
  ultimately show ?thesis
    by (simp add: w(6) views_ok_def)
qed

section \<open>Tiling\<close>

text \<open>The body an entry declares ends at or before the next one starts.\<close>

lemma tile_from_apart:
  assumes "tile_from data offs expect = Some True" "length data < 2 ^ 32" "8 \<le> expect"
    "\<forall>off \<in> set offs. \<exists>len. read_word data off = Some (len :: u64) \<and> off + 8 + unat len \<le> length data"
  shows "(\<forall>off \<in> set offs. expect \<le> off) \<and>
    sorted_wrt (\<lambda>a b. \<forall>len. read_word data a = Some (len :: u64) \<longrightarrow> a + 8 + unat len \<le> b) offs"
  using assms
proof (induction data offs expect rule: tile_from.induct)
  case (2 data off offs expect)
  obtain len :: u64 where len: "read_word data off = Some len" "off + 8 + unat len \<le> length data"
    using 2(5) by auto
  have off: "off = expect"
    using 2(2) by (simp split: if_splits)
  let ?n = "8 + unat len"
  have n: "?n + 7 < 2 ^ 32"
    using len(2) 2(3,4) off by linarith
  then have u: "unat (8 + len) = ?n"
    by (simp add: unat_word_ariths)
  have "(ucast (8 + len) :: u32) = of_nat (unat (8 + len))"
    by (rule of_nat_unat [symmetric])
  then have "(ucast (8 + len) :: u32) = of_nat ?n"
    by (simp only: u)
  then have "mphf_align8 (ucast (8 + len)) = of_nat ((?n + 7) div 8 * 8)"
    by (simp only: align8_of_nat [OF n])
  moreover have "unat (of_nat k :: u32) = k" if "k < 2 ^ 32" for k
    using that by (simp add: unat_of_nat)
  moreover have "(?n + 7) div 8 * 8 < 2 ^ 32"
    using n by linarith
  ultimately have a: "unat (mphf_align8 (ucast (8 + len))) = (?n + 7) div 8 * 8"
    by (simp only:)
  define e where "e = off + unat (mphf_align8 (ucast (8 + len)))"
  have e: "off + 8 + unat len \<le> e"
    unfolding e_def a by linarith
  have t: "tile_from data offs e = Some True"
    using 2(2) len(1) off by (simp add: e_def)
  have IH: "(\<forall>o' \<in> set offs. e \<le> o') \<and> sorted_wrt (\<lambda>a b. \<forall>len. read_word data a = Some (len :: u64) \<longrightarrow> a + 8 + unat len \<le> b) offs"
    using 2(1) [OF _ len(1)] t off 2(3,4,5) e unfolding e_def by auto
  then show ?case
    using off e len(1) by auto
qed simp

lemma tile_from_defined:
  "\<forall>off \<in> set offs. read_word data off \<noteq> (None :: u64 option) \<Longrightarrow> tile_from data offs expect \<noteq> None"
  by (induction data offs expect rule: tile_from.induct) (auto simp del: not_None_eq split: bind_splits)

lemma sorted_wrt_either: "sorted_wrt R xs \<Longrightarrow> a \<in> set xs \<Longrightarrow> b \<in> set xs \<Longrightarrow> a \<noteq> b \<Longrightarrow> R a b \<or> R b a"
  by (induction xs) auto

text \<open>Records at different offsets have no byte in common.\<close>

definition records_apart :: "bytes \<Rightarrow> nat list \<Rightarrow> bool" where
  "records_apart data offs \<longleftrightarrow> distinct offs \<and>
     (\<forall>a \<in> set offs. \<forall>b \<in> set offs. \<forall>pa pb. a \<noteq> b \<longrightarrow> read_record data (a + 8) = Some pa \<longrightarrow> read_record data (b + 8) = Some pb \<longrightarrow>
        apart (a + 8) (rec_span pa) (b + 8) (rec_span pb))"

lemma offsets_small:
  assumes "\<forall>off \<in> set offs. off + 8 \<le> n" "n < 2 ^ 32"
  shows "map (\<lambda>off. unat (of_nat off :: u32)) offs = offs"
  using assms by (intro map_idI) (fastforce simp: unat_of_nat)

lemma entries_tile_apart:
  assumes "\<forall>off \<in> set (for_each_offset m). entry_fits data off" "length data < 2 ^ 32" "mphf_entries_tile m data = Some True"
  shows "records_apart data (for_each_offset m)"
proof (cases "mp_n_keys m = 0")
  case True
  then show ?thesis
    by (simp add: records_apart_def for_each_offset_def)
next
  case False
  let ?fe = "for_each_offset m" and ?R = "\<lambda>a b. \<forall>len. read_word data a = Some (len :: u64) \<longrightarrow> a + 8 + unat len \<le> b"
  have len: "\<exists>len. read_word data off = Some (len :: u64) \<and> off + 8 + unat len \<le> length data" if "off \<in> set ?fe" for off
    using assms(1) that by (auto simp: entry_fits_def)
  have "map (\<lambda>off. unat (of_nat off :: u32)) ?fe = ?fe"
    using len by (intro offsets_small [OF _ assms(2)]) fastforce
  then have "tile_from data (sort ?fe) 8 = Some True"
    using assms(3) False by (simp add: mphf_entries_tile_def)
  then have s: "sorted_wrt ?R (sort ?fe)"
    using tile_from_apart [of data "sort ?fe" 8] assms(2) len by auto
  have "sorted_wrt (<) (sort ?fe)"
    using len by (intro sorted_wrt_mono_rel [OF _ s]) fastforce
  then have "distinct ?fe"
    by (simp add: strict_sorted_iff)
  moreover have "apart (a + 8) (rec_span pa) (b + 8) (rec_span pb)"
    if "a \<in> set ?fe" "b \<in> set ?fe" "a \<noteq> b" "read_record data (a + 8) = Some pa" "read_record data (b + 8) = Some pb" for a b pa pb
    using sorted_wrt_either [OF s, of a b] assms(1) that by (fastforce simp: entry_fits_def apart_def)
  ultimately show ?thesis
    by (simp add: records_apart_def)
qed

lemma entries_tile_defined:
  assumes "\<forall>off \<in> set (for_each_offset m). off + 8 \<le> length data" "length data < 2 ^ 32"
  shows "mphf_entries_tile m data \<noteq> None"
proof -
  have "read_word data off \<noteq> (None :: u64 option)" if "off \<in> set (for_each_offset m)" for off
    using assms(1) that read_word_in_range [of off data, where 'a = 64] by auto
  then show ?thesis
    unfolding mphf_entries_tile_def offsets_small [OF assms] by (simp add: tile_from_defined del: not_None_eq)
qed

section \<open>The walk over the records\<close>

lemma walk_accounts_ok:
  assumes "records_apart data offs" "\<forall>off \<in> set offs. \<exists>pa. read_record data (off + 8) = Some pa"
    "\<And>pa pa'. sized pa \<Longrightarrow> f pa = Some pa' \<Longrightarrow> sized pa' \<and> acc_slot_count pa' = acc_slot_count pa"
  shows "\<exists>r. walk_accounts f offs data = Some r \<and>
    (\<forall>data'. r = Some data' \<longrightarrow> length data' = length data \<and>
       (\<forall>off \<in> set offs. \<exists>pa pa'. read_record data (off + 8) = Some pa \<and> f pa = Some pa' \<and> read_record data' (off + 8) = Some pa') \<and>
       (\<forall>q pa. (\<forall>off \<in> set offs. \<forall>pb. read_record data (off + 8) = Some pb \<longrightarrow> apart (off + 8) (rec_span pb) q (rec_span pa)) \<longrightarrow>
          read_record data q = Some pa \<longrightarrow> read_record data' q = Some pa))"
  using assms(1,2)
proof (induction offs arbitrary: data)
  case (Cons off offs)
  obtain pa where pa: "read_record data (off + 8) = Some pa"
    using Cons.prems(2) by auto
  note sz = read_record_sized [OF pa]
  show ?case
  proof (cases "f pa")
    case None
    then show ?thesis
      using pa by simp
  next
    case (Some pa')
    then have pa': "sized pa'" "rec_span pa' = rec_span pa"
      using assms(3) [OF sz(1)] by (simp_all add: rec_span_def)
    define data1 where "data1 = patch data (off + 8) (encode_record pa')"
    have fits: "off + 8 + length (encode_record pa') \<le> length data"
      using sz(2) by (simp add: length_encode_record [OF pa'(1)] pa'(2))
    then have l1: "length data1 = length data"
      by (simp add: data1_def)
    have same: "read_record data1 (off + 8) = Some pa'"
      unfolding data1_def using sz(2) by (intro read_record_write [OF pa'(1)]) (simp add: pa'(2))
    have frame: "read_record data1 q = Some pb" if "read_record data q = Some pb" "apart (off + 8) (rec_span pa) q (rec_span pb)" for q pb
      unfolding data1_def using that fits
      by (intro read_record_frame [OF that(1)]) (simp_all add: length_encode_record [OF pa'(1)] pa'(2))
    have d: "off \<notin> set offs"
      and ap: "\<And>b pb. b \<in> set offs \<Longrightarrow> read_record data (b + 8) = Some pb \<Longrightarrow> apart (off + 8) (rec_span pa) (b + 8) (rec_span pb)"
      using Cons.prems(1) pa by (auto simp: records_apart_def)
    have rest: "read_record data1 (b + 8) = read_record data (b + 8)" if "b \<in> set offs" for b
      using Cons.prems(2) that frame ap by (metis list.set_intros(2))
    have "records_apart data1 offs" "\<forall>off \<in> set offs. \<exists>pa. read_record data1 (off + 8) = Some pa"
      using Cons.prems rest by (auto simp: records_apart_def)
    from Cons.IH [OF this] obtain r where r: "walk_accounts f offs data1 = Some r" and
      ok: "\<forall>data'. r = Some data' \<longrightarrow> length data' = length data1 \<and>
       (\<forall>off \<in> set offs. \<exists>pa pa'. read_record data1 (off + 8) = Some pa \<and> f pa = Some pa' \<and> read_record data' (off + 8) = Some pa') \<and>
       (\<forall>q pa. (\<forall>off \<in> set offs. \<forall>pb. read_record data1 (off + 8) = Some pb \<longrightarrow> apart (off + 8) (rec_span pb) q (rec_span pa)) \<longrightarrow>
          read_record data1 q = Some pa \<longrightarrow> read_record data' q = Some pa)"
      by blast
    have "walk_accounts f (off # offs) data = Some r"
      using pa Some r by (simp add: data1_def)
    moreover have "read_record data' (off + 8) = Some pa'" if "r = Some data'" for data'
    proof -
      have "apart (b + 8) (rec_span pb) (off + 8) (rec_span pa')" if "b \<in> set offs" "read_record data1 (b + 8) = Some pb" for b pb
        using ap [of b pb] rest that by (auto simp: apart_def pa'(2))
      then show ?thesis
        using ok that same by blast
    qed
    ultimately show ?thesis
      using ok pa Some rest frame by (intro exI [of _ r]) (auto simp: l1)
  qed
qed simp

section \<open>A record that passes\<close>

lemma bind_code_fields:
  assumes "bind_code find_code pa = Some pa'"
  shows "pa' = pa\<lparr>acc_code_store_offset := acc_code_store_offset pa', acc_code_store_len := acc_code_store_len pa'\<rparr>"
    "acc_code_store_len pa = 0 \<Longrightarrow> pa' = pa"
    "acc_code_store_len pa \<noteq> 0 \<Longrightarrow> \<exists>off body. find_code (acc_code_hash pa) = Some (off, body) \<and> kPayloadOffset \<le> length body \<and>
       acc_code_store_offset pa' = of_nat off \<and> acc_code_store_len pa' = of_nat (length body - kPayloadOffset)"
  using assms by (auto simp: bind_code_def word_neq_0_conv split: if_splits option.splits)

lemma sized_cache:
  assumes "sized pa"
  shows "sized (rlp_into_own_cache pa)" "leaf_ok (rlp_into_own_cache pa)"
proof -
  have h: "hashes_sized pa (acc_storage_root pa)"
    using assms by (simp add: sized_def hashes_sized_def)
  define enc where "enc = encode_account_into pa (acc_storage_root pa)"
  have "length (fst enc) \<le> 110"
    using account_leaf_length(2) [OF h] by (simp add: enc_def encode_account_into_off [OF h])
  then show "sized (rlp_into_own_cache pa)"
    using assms by (cases enc) (simp add: sized_def rlp_into_own_cache_def rlp_into_cache_def kAccRlpBufSize_def flip: enc_def)
  show "leaf_ok (rlp_into_own_cache pa)"
    using rlp_into_cache_ok [OF h] assms
    by (simp add: leaf_ok_def rlp_into_own_cache_def rlp_into_cache_def sized_def split: prod.splits)
qed

lemma cache_fields [simp]:
  "acc_addr (rlp_into_own_cache pa) = acc_addr pa" "acc_deleted (rlp_into_own_cache pa) = acc_deleted pa"
  "acc_modified (rlp_into_own_cache pa) = acc_modified pa" "acc_nonce (rlp_into_own_cache pa) = acc_nonce pa"
  "acc_balance (rlp_into_own_cache pa) = acc_balance pa" "acc_code_hash (rlp_into_own_cache pa) = acc_code_hash pa"
  "acc_storage_root (rlp_into_own_cache pa) = acc_storage_root pa" "acc_slot_count (rlp_into_own_cache pa) = acc_slot_count pa"
  "acc_slots (rlp_into_own_cache pa) = acc_slots pa" "acc_code_store_offset (rlp_into_own_cache pa) = acc_code_store_offset pa"
  "acc_code_store_len (rlp_into_own_cache pa) = acc_code_store_len pa"
  by (simp_all add: rlp_into_own_cache_def rlp_into_cache_def split: prod.splits)

lemma ascending_sorted:
  assumes "successively (\<lambda>a b. lt_bytes32 (slot_key a) (slot_key b)) ss" "\<forall>s \<in> set ss. length (slot_key s) = 32"
  shows "slots_sorted ss"
proof -
  have "successively (\<lambda>a b. be_nat (slot_key a) < be_nat (slot_key b)) ss"
  proof (rule successively_mono [OF assms(1)])
    fix a b assume "a \<in> set ss" "b \<in> set ss" "lt_bytes32 (slot_key a) (slot_key b)"
    then show "be_nat (slot_key a) < be_nat (slot_key b)"
      using assms(2) memcmp_be_nat [of "slot_key a" "slot_key b"] by (auto simp: lt_bytes32_def order_sign_def split: if_splits)
  qed
  then have "sorted_wrt (\<lambda>a b. be_nat (slot_key a) < be_nat (slot_key b)) ss"
    by (subst (asm) successively_conv_sorted_wrt) (auto intro: transpI)
  then show ?thesis
    using assms(2) by (simp add: slots_sorted_def)
qed

text \<open>What a record has in common with the one it was made from.\<close>

definition sanitized :: "account \<Rightarrow> account \<Rightarrow> bool" where
  "sanitized pa pa' \<longleftrightarrow> acc_addr pa' = acc_addr pa \<and> acc_nonce pa' = acc_nonce pa \<and> acc_balance pa' = acc_balance pa \<and>
     acc_code_hash pa' = acc_code_hash pa \<and> acc_storage_root pa' = acc_storage_root pa \<and> acc_slot_count pa' = acc_slot_count pa \<and>
     acc_slots pa' = map reset_slot (acc_slots pa) \<and> \<not> acc_deleted pa' \<and> (acc_code_store_len pa = 0 \<longrightarrow> acc_code_store_len pa' = 0)"

lemma sanitized_addr: "sanitized pa pa' \<Longrightarrow> acc_addr pa' = acc_addr pa"
  by (simp add: sanitized_def)

lemma sanitize_record_ok:
  assumes "sized pa" "sanitize_record find_code pa = Some pa'"
  shows "sized pa'" "leaf_ok pa'" "slots_sorted (acc_slots pa')" "sanitized pa pa'" "acc_modified pa'"
    "acc_code_store_len pa \<noteq> 0 \<Longrightarrow> \<exists>off body. find_code (acc_code_hash pa) = Some (off, body) \<and> kPayloadOffset \<le> length body \<and>
       acc_code_store_offset pa' = of_nat off \<and> acc_code_store_len pa' = of_nat (length body - kPayloadOffset)"
proof -
  obtain p1 where p1: "bind_code find_code pa = Some p1" and
    asc: "successively (\<lambda>a b. lt_bytes32 (slot_key a) (slot_key b)) (acc_slots p1)" and
    pa': "pa' = (rlp_into_own_cache (p1\<lparr>acc_deleted := False, acc_modified := True, acc_absent_reads := 0\<rparr>))\<lparr>acc_slots := map reset_slot (acc_slots p1)\<rparr>"
    using assms(2) by (auto simp: sanitize_record_def bind_eq_Some_conv Let_def split: if_splits)
  note b = bind_code_fields [OF p1]
  have p1_eq: "acc_addr p1 = acc_addr pa" "acc_nonce p1 = acc_nonce pa" "acc_balance p1 = acc_balance pa" "acc_code_hash p1 = acc_code_hash pa"
    "acc_storage_root p1 = acc_storage_root pa" "acc_slot_count p1 = acc_slot_count pa" "acc_slots p1 = acc_slots pa" "acc_rlp_buf p1 = acc_rlp_buf pa"
    by (subst b(1), simp)+
  have "sized (p1\<lparr>acc_deleted := False, acc_modified := True, acc_absent_reads := 0\<rparr>)"
    using assms(1) by (simp add: sized_def p1_eq)
  note c = sized_cache [OF this]
  show "sized pa'"
    using c(1) by (auto simp: pa' sized_def reset_slot_def)
  show "leaf_ok pa'"
    using c(2) by (simp add: pa')
  have "successively (\<lambda>a b. lt_bytes32 (slot_key a) (slot_key b)) (map reset_slot (acc_slots p1))"
    using asc by (simp add: successively_map reset_slot_def)
  then show "slots_sorted (acc_slots pa')"
    using assms(1) by (simp add: pa') (rule ascending_sorted, auto simp: sized_def p1_eq reset_slot_def)
  show "sanitized pa pa'" "acc_modified pa'"
    using b(2) by (auto simp: sanitized_def pa' p1_eq)
  show "\<exists>off body. find_code (acc_code_hash pa) = Some (off, body) \<and> kPayloadOffset \<le> length body \<and>
       acc_code_store_offset pa' = of_nat off \<and> acc_code_store_len pa' = of_nat (length body - kPayloadOffset)" if "acc_code_store_len pa \<noteq> 0"
    using b(3) [OF that] by (simp add: pa')
qed

section \<open>The table of address hashes\<close>

lemma bind_hashes_returns: "\<exists>r. bind_hashes H prev es data = Some r \<and> (\<forall>data'. r = Some data' \<longrightarrow> length data' = length data)"
proof (induction H prev es data rule: bind_hashes.induct)
  case (2 H prev e es data)
  show ?case
  proof (cases "(case prev of None \<Rightarrow> False | Some h \<Rightarrow> memcmp h (ah_hash e) \<ge> 0) \<or> H (ah_addr e) \<noteq> ah_hash e \<or>
      unat (ah_offset e) + 8 + sizeof_Account > length data")
    case False
    then obtain addr where a: "read_bytes data (unat (ah_offset e) + 8) 20 = Some addr"
      using read_bytes_in_range [of "unat (ah_offset e) + 8" 20 data] by (auto simp: sizeof_defs)
    show ?thesis
    proof (cases "addr = ah_addr e")
      case True
      then show ?thesis
        using 2 [OF _ _ _ a] False a by (auto simp: sizeof_defs)
    qed (use False a in auto)
  qed auto
qed simp

text \<open>The hashes are those of the addresses, and ascend.\<close>

lemma bind_hashes_table:
  assumes "bind_hashes H prev es data = Some (Some data')" "\<forall>e \<in> set es. length (ah_hash e) = 32" "\<And>h. prev = Some h \<Longrightarrow> length h = 32"
  shows "(\<forall>e \<in> set es. H (ah_addr e) = ah_hash e \<and> (\<forall>h. prev = Some h \<longrightarrow> be_nat h < be_nat (ah_hash e))) \<and>
    sorted_wrt (\<lambda>a b. be_nat (ah_hash a) < be_nat (ah_hash b)) es"
  using assms
proof (induction H prev es data rule: bind_hashes.induct)
  case (2 H prev e es data)
  let ?d = "patch data (unat (ah_offset e) + 8 + 23) [0]"
  have e: "H (ah_addr e) = ah_hash e" "\<And>h. prev = Some h \<Longrightarrow> memcmp h (ah_hash e) < 0"
    "bind_hashes H (Some (ah_hash e)) es ?d = Some (Some data')"
    using 2(2) by (auto simp: bind_eq_Some_conv not_le split: if_splits)
  have IH: "(\<forall>e' \<in> set es. H (ah_addr e') = ah_hash e' \<and> (\<forall>h. Some (ah_hash e) = Some h \<longrightarrow> be_nat h < be_nat (ah_hash e'))) \<and>
      sorted_wrt (\<lambda>a b. be_nat (ah_hash a) < be_nat (ah_hash b)) es"
    using 2 e(3) by (auto simp: bind_eq_Some_conv split: if_splits)
  moreover have "be_nat h < be_nat (ah_hash e)" if "prev = Some h" for h
    using e(2) [OF that] memcmp_be_nat [of h "ah_hash e"] 2(3,4) that by (auto simp: order_sign_def split: if_splits)
  ultimately show ?case
    using e(1) by fastforce
qed simp

text \<open>What it does to the records, if each entry is for one of them.\<close>

lemma records_apart_cong:
  assumes "records_apart data offs"
    "\<And>off pa'. off \<in> set offs \<Longrightarrow> read_record data' (off + 8) = Some pa' \<Longrightarrow> \<exists>pa. read_record data (off + 8) = Some pa \<and> rec_span pa' = rec_span pa"
  shows "records_apart data' offs"
  unfolding records_apart_def
proof (intro conjI ballI allI impI)
  fix a b pa pb
  assume "a \<in> set offs" "b \<in> set offs" "a \<noteq> b" "read_record data' (a + 8) = Some pa" "read_record data' (b + 8) = Some pb"
  with assms(2) obtain qa qb where "read_record data (a + 8) = Some qa" "rec_span pa = rec_span qa" "read_record data (b + 8) = Some qb" "rec_span pb = rec_span qb"
    by metis
  with \<open>a \<in> set offs\<close> \<open>b \<in> set offs\<close> \<open>a \<noteq> b\<close> assms(1) show "apart (a + 8) (rec_span pa) (b + 8) (rec_span pb)"
    unfolding records_apart_def by metis
qed (use assms(1) in \<open>simp add: records_apart_def\<close>)

lemma clear_record:
  assumes "records_apart data offs" "off \<in> set offs" "b \<in> set offs" "read_record data (off + 8) = Some pa" "read_record data (b + 8) = Some pb"
  shows "read_record (patch data (off + 8 + 23) [0]) (b + 8) = Some (if b = off then pb\<lparr>acc_modified := False\<rparr> else pb)"
proof (cases "b = off")
  case True
  then show ?thesis
    using read_record_clear [OF assms(5)] by simp
next
  case False
  then have "apart (off + 8) (rec_span pa) (b + 8) (rec_span pb)"
    using assms unfolding records_apart_def by metis
  then have "apart (off + 8 + 23) 1 (b + 8) (rec_span pb)"
    by (auto simp: apart_def rec_span_def sizeof_defs)
  moreover have "off + 8 + 23 + 1 \<le> length data"
    using read_record_sized(2) [OF assms(4)] by (simp add: rec_span_def sizeof_defs)
  ultimately show ?thesis
    using read_record_frame [OF assms(5), of "off + 8 + 23" "[0]"] False by simp
qed

lemma bind_hashes_records:
  assumes "bind_hashes H prev es data = Some (Some data')" "records_apart data offs" "\<forall>off \<in> set offs. \<exists>pa. read_record data (off + 8) = Some pa"
    "\<forall>e \<in> set es. unat (ah_offset e) \<in> set offs"
  shows "(\<forall>off \<in> set offs. \<forall>pa. read_record data (off + 8) = Some pa \<longrightarrow>
       read_record data' (off + 8) = Some (if \<exists>e \<in> set es. unat (ah_offset e) = off then pa\<lparr>acc_modified := False\<rparr> else pa)) \<and>
    (\<forall>e \<in> set es. \<forall>pa. read_record data (unat (ah_offset e) + 8) = Some pa \<longrightarrow> acc_addr pa = ah_addr e)"
  using assms
proof (induction H prev es data rule: bind_hashes.induct)
  case (2 H prev e es data)
  let ?o = "unat (ah_offset e)"
  let ?d = "patch data (?o + 8 + 23) [0]"
  have o: "?o \<in> set offs"
    using 2(5) by simp
  then obtain pa where pa: "read_record data (?o + 8) = Some pa"
    using 2(4) by blast
  have addr: "acc_addr pa = ah_addr e" and run: "bind_hashes H (Some (ah_hash e)) es ?d = Some (Some data')"
    using 2(2) read_record_addr [OF pa] by (auto simp: bind_eq_Some_conv split: if_splits)
  note c = clear_record [OF 2(3) o _ pa]
  have d: "\<forall>off \<in> set offs. \<exists>pa. read_record ?d (off + 8) = Some pa" "records_apart ?d offs"
  proof -
    show "\<forall>off \<in> set offs. \<exists>pa. read_record ?d (off + 8) = Some pa"
      using 2(4) c by blast
    show "records_apart ?d offs"
    proof (rule records_apart_cong [OF 2(3)])
      fix off pa' assume off: "off \<in> set offs" "read_record ?d (off + 8) = Some pa'"
      then obtain pb where pb: "read_record data (off + 8) = Some pb"
        using 2(4) by blast
      then show "\<exists>pa. read_record data (off + 8) = Some pa \<and> rec_span pa' = rec_span pa"
        using c [OF off(1) pb] off(2) by (auto simp: rec_span_def)
    qed
  qed
  have IH: "(\<forall>off \<in> set offs. \<forall>pa. read_record ?d (off + 8) = Some pa \<longrightarrow>
       read_record data' (off + 8) = Some (if \<exists>e \<in> set es. unat (ah_offset e) = off then pa\<lparr>acc_modified := False\<rparr> else pa)) \<and>
    (\<forall>e \<in> set es. \<forall>pa. read_record ?d (unat (ah_offset e) + 8) = Some pa \<longrightarrow> acc_addr pa = ah_addr e)"
    using 2(1) [of "ah_addr e"] 2(2) d run 2(5) by (auto simp: bind_eq_Some_conv split: if_splits)
  have "read_record data' (off + 8) = Some (if \<exists>e \<in> set (e # es). unat (ah_offset e) = off then pb\<lparr>acc_modified := False\<rparr> else pb)"
    if "off \<in> set offs" "read_record data (off + 8) = Some pb" for off pb
    using IH c [OF that] that(1) by (auto split: if_splits)
  moreover have "acc_addr pb = ah_addr e'" if "e' \<in> set (e # es)" "read_record data (unat (ah_offset e') + 8) = Some pb" for e' pb
  proof (cases "e' = e")
    case False
    then have "e' \<in> set es" "unat (ah_offset e') \<in> set offs"
      using that(1) 2(5) by auto
    then show ?thesis
      using IH c [OF _ that(2)] by (fastforce split: if_splits)
  qed (use addr pa that in simp)
  ultimately show ?case
    by blast
qed simp

lemma all_cleared_ok:
  assumes "\<forall>off \<in> set offs. \<exists>pa. read_record data (off + 8) = Some pa"
  shows "\<exists>r. all_cleared data offs = Some r \<and> (r \<longrightarrow> (\<forall>off \<in> set offs. \<forall>pa. read_record data (off + 8) = Some pa \<longrightarrow> \<not> acc_modified pa))"
  using assms
proof (induction offs)
  case (Cons off offs)
  then obtain pa where pa: "read_record data (off + 8) = Some pa"
    by auto
  from Cons obtain r where r: "all_cleared data offs = Some r"
    "r \<longrightarrow> (\<forall>off \<in> set offs. \<forall>pa. read_record data (off + 8) = Some pa \<longrightarrow> \<not> acc_modified pa)"
    by (meson list.set_intros(2))
  have "off + 8 + 23 < length data"
    using read_record_sized(2) [OF pa] by (simp add: rec_span_def sizeof_defs)
  then have b: "Checked_Reads.at data (off + 8 + 23) = Some (data ! (off + 8 + 23))"
    by (rule at_in_range)
  then show ?case
    using r read_record_modified [OF pa b] pa by (intro exI [of _ "data ! (off + 8 + 23) = 0 \<and> r"]) auto
qed auto

section \<open>Code\<close>

lemma all_hashed_ok:
  assumes "\<forall>off \<in> set offs. \<exists>body. body_at data off = Some body"
  shows "\<exists>r. all_hashed H v data offs = Some r \<and>
    (r \<longrightarrow> (\<forall>off \<in> set offs. entry_verified v off \<or> (\<forall>body. body_at data off = Some body \<longrightarrow> H (drop kPayloadOffset body) = take 32 body)))"
  using assms by (induction offs) (auto simp: entry_hashed_def)

text \<open>The marks of the reader stand for entries whose hash is right.\<close>

definition marks_right :: "(bytes \<Rightarrow> bytes32) \<Rightarrow> code_store_verified \<Rightarrow> witness \<Rightarrow> bool" where
  "marks_right H v w \<longleftrightarrow> (\<forall>off \<in> set (for_each_offset (wt_code_map w)). \<forall>body.
     entry_verified v off \<longrightarrow> body_at (wt_code_data w) off = Some body \<longrightarrow> H (drop kPayloadOffset body) = take 32 body)"

definition code_right :: "(bytes \<Rightarrow> bytes32) \<Rightarrow> witness \<Rightarrow> bool" where
  "code_right H w \<longleftrightarrow> (\<forall>off \<in> set (for_each_offset (wt_code_map w)). \<forall>body.
     body_at (wt_code_data w) off = Some body \<longrightarrow> H (drop kPayloadOffset body) = take 32 body)"

lemma code_entry_bound:
  assumes "views_ok w" "code_right H w" "find_code_entry (direct_state_of w) h = Some (off, body)"
    "acc_code_store_offset pa = of_nat off" "acc_code_store_len pa = of_nat (length body - kPayloadOffset)" "wt_code_data w' = wt_code_data w"
  shows "H (code_for (direct_state_of w') pa) = h"
proof -
  obtain o' where f: "mphf_find (wt_code_map w) (key_at 32 (wt_code_data w)) (hash_key8 h) h = Some (Some o')"
    and b: "body_at (wt_code_data w) o' = Some body" "off = o' + 8"
    using assms(3) by (auto simp: find_code_entry_def direct_state_of_def split: option.splits)
  note s = mphf_find_sound [OF f]
  have "entry_within_data 32 (wt_code_data w) o'"
    using assms(1) s(2) by (auto simp: views_ok_def)
  from entry_within_data_read [OF this] have e: "32 \<le> length body" "o' + 8 + length body \<le> length (wt_code_data w)" "take 32 body = h"
    using b(1) s(1) by auto
  have body: "body = take (length body) (drop (o' + 8) (wt_code_data w))"
    using b(1) e(2) by (auto simp: body_at_def bind_eq_Some_conv read_bytes_eq_Some)
  have small: "unat (of_nat off :: u32) = off" "unat (of_nat (length body - kPayloadOffset) :: u32) = length body - kPayloadOffset"
  proof -
    have "length (wt_code_data w) < 2 ^ 32"
      using assms(1) by (simp add: views_ok_def)
    then have "off < 2 ^ 32" "length body - kPayloadOffset < 2 ^ 32"
      using e(2) b(2) by linarith+
    then show "unat (of_nat off :: u32) = off" "unat (of_nat (length body - kPayloadOffset) :: u32) = length body - kPayloadOffset"
      by (simp_all add: unat_of_nat)
  qed
  have "drop kPayloadOffset body = take (length body - kPayloadOffset) (drop (off + kPayloadOffset) (wt_code_data w))"
    by (subst body) (simp add: drop_take b(2) add.commute)
  then have "code_for (direct_state_of w') pa = drop kPayloadOffset body"
    using small by (auto simp: code_for_def assms(4-6) direct_state_of_def unat_eq_0 [symmetric] kPayloadOffset_def simp del: unat_eq_0)
  then show ?thesis
    using assms(2) s(2) b(1) e(3) by (auto simp: code_right_def)
qed

section \<open>The whole check\<close>

text \<open>Each entry of \<open>addr_hashes_\<close> is for a record of the address map.\<close>

definition entries_named :: "witness \<Rightarrow> bool" where
  "entries_named w \<longleftrightarrow> (\<forall>e \<in> set (wt_addr_hashes w). unat (ah_offset e) \<in> set (for_each_offset (wt_map w)))"

lemma sanitize_record_sized: "sized pa \<Longrightarrow> sanitize_record fc pa = Some pa' \<Longrightarrow> sized pa' \<and> acc_slot_count pa' = acc_slot_count pa"
  using sanitize_record_ok(1,4) by (auto simp: sanitized_def)

lemma walked_eq: "views_ok w \<Longrightarrow> walked w = for_each_offset (wt_map w)"
  by (auto simp: walked_def views_ok_def word_neq_0_conv)

lemma bind_accounts_walk:
  assumes "views_ok w" "records_apart (wt_data w) (for_each_offset (wt_map w))"
  obtains r where "walk_accounts (sanitize_record (find_code_entry (direct_state_of w))) (walked w) (wt_data w) = Some r"
    "\<forall>data'. r = Some data' \<longrightarrow> length data' = length (wt_data w) \<and>
      (\<forall>off \<in> set (for_each_offset (wt_map w)). \<exists>pa pa'. read_record (wt_data w) (off + 8) = Some pa \<and>
         sanitize_record (find_code_entry (direct_state_of w)) pa = Some pa' \<and> read_record data' (off + 8) = Some pa')"
proof -
  let ?f = "sanitize_record (find_code_entry (direct_state_of w))" and ?fe = "for_each_offset (wt_map w)"
  have f: "sized pa \<Longrightarrow> ?f pa = Some pa' \<Longrightarrow> sized pa' \<and> acc_slot_count pa' = acc_slot_count pa" for pa pa'
    by (rule sanitize_record_sized)
  have "\<forall>off \<in> set ?fe. \<exists>pa. read_record (wt_data w) (off + 8) = Some pa"
    using assms(1) by (auto simp: views_ok_def entry_fits_def)
  from walk_accounts_ok [of "wt_data w" ?fe ?f, OF assms(2) this f]
  obtain r where r: "walk_accounts ?f ?fe (wt_data w) = Some r"
    "\<forall>data'. r = Some data' \<longrightarrow> length data' = length (wt_data w) \<and>
       (\<forall>off \<in> set ?fe. \<exists>pa pa'. read_record (wt_data w) (off + 8) = Some pa \<and> ?f pa = Some pa' \<and> read_record data' (off + 8) = Some pa')"
    by blast
  show ?thesis
    by (rule that [unfolded walked_eq [OF assms(1)], OF r])
qed

lemma bind_accounts_ok:
  assumes "views_ok w" "records_apart (wt_data w) (for_each_offset (wt_map w))" "entries_named w" "bind_accounts H w = Some (Some w')"
  shows "w' = w\<lparr>wt_data := wt_data w'\<rparr>"
    "\<forall>off \<in> set (for_each_offset (wt_map w)). \<exists>pa pa'. read_record (wt_data w) (off + 8) = Some pa \<and>
       sanitize_record (find_code_entry (direct_state_of w)) pa = Some pa' \<and> read_record (wt_data w') (off + 8) = Some (pa'\<lparr>acc_modified := False\<rparr>) \<and>
       (\<exists>e \<in> set (wt_addr_hashes w). unat (ah_offset e) = off \<and> ah_addr e = acc_addr pa \<and> ah_hash e = H (acc_addr pa))"
    "sorted_wrt (\<lambda>a b. be_nat (ah_hash a) < be_nat (ah_hash b)) (wt_addr_hashes w)"
proof -
  let ?fe = "for_each_offset (wt_map w)" and ?f = "sanitize_record (find_code_entry (direct_state_of w))"
  obtain r where "walk_accounts ?f (walked w) (wt_data w) = Some r" and r: "\<forall>data'. r = Some data' \<longrightarrow> length data' = length (wt_data w) \<and>
      (\<forall>off \<in> set ?fe. \<exists>pa pa'. read_record (wt_data w) (off + 8) = Some pa \<and> ?f pa = Some pa' \<and> read_record data' (off + 8) = Some pa')"
    by (rule bind_accounts_walk [OF assms(1,2)])
  with assms(4) obtain d1 d2 where d: "r = Some d1" "bind_hashes H None (wt_addr_hashes w) d1 = Some (Some d2)" "all_cleared d2 ?fe = Some True"
    "w' = w\<lparr>wt_data := d2\<rparr>"
    by (auto simp: bind_accounts_def walked_eq [OF assms(1)] bind_eq_Some_conv split: option.splits if_splits)
  then show "w' = w\<lparr>wt_data := wt_data w'\<rparr>"
    by simp
  have recs: "\<exists>pa pa'. read_record (wt_data w) (off + 8) = Some pa \<and> ?f pa = Some pa' \<and> read_record d1 (off + 8) = Some pa'" if "off \<in> set ?fe" for off
    using r d(1) that by blast
  have "records_apart d1 ?fe"
  proof (rule records_apart_cong [OF assms(2)])
    fix off pa' assume "off \<in> set ?fe" "read_record d1 (off + 8) = Some pa'"
    with recs obtain pa where "read_record (wt_data w) (off + 8) = Some pa" "?f pa = Some pa'"
      by force
    then show "\<exists>pa. read_record (wt_data w) (off + 8) = Some pa \<and> rec_span pa' = rec_span pa"
      using sanitize_record_sized read_record_sized(1) by (fastforce simp: rec_span_def)
  qed
  moreover have "\<forall>off \<in> set ?fe. \<exists>pa. read_record d1 (off + 8) = Some pa"
    using recs by blast
  ultimately have b: "(\<forall>off \<in> set ?fe. \<forall>pa. read_record d1 (off + 8) = Some pa \<longrightarrow>
       read_record d2 (off + 8) = Some (if \<exists>e \<in> set (wt_addr_hashes w). unat (ah_offset e) = off then pa\<lparr>acc_modified := False\<rparr> else pa)) \<and>
    (\<forall>e \<in> set (wt_addr_hashes w). \<forall>pa. read_record d1 (unat (ah_offset e) + 8) = Some pa \<longrightarrow> acc_addr pa = ah_addr e)"
    using bind_hashes_records [OF d(2)] assms(3) by (simp add: entries_named_def)
  have t: "\<forall>e \<in> set (wt_addr_hashes w). H (ah_addr e) = ah_hash e" "sorted_wrt (\<lambda>a b. be_nat (ah_hash a) < be_nat (ah_hash b)) (wt_addr_hashes w)"
    using bind_hashes_table [OF d(2)] assms(1) by (auto simp: views_ok_def)
  show "sorted_wrt (\<lambda>a b. be_nat (ah_hash a) < be_nat (ah_hash b)) (wt_addr_hashes w)"
    by (rule t(2))
  show "\<forall>off \<in> set ?fe. \<exists>pa pa'. read_record (wt_data w) (off + 8) = Some pa \<and> ?f pa = Some pa' \<and>
      read_record (wt_data w') (off + 8) = Some (pa'\<lparr>acc_modified := False\<rparr>) \<and>
      (\<exists>e \<in> set (wt_addr_hashes w). unat (ah_offset e) = off \<and> ah_addr e = acc_addr pa \<and> ah_hash e = H (acc_addr pa))"
  proof
    fix off assume off: "off \<in> set ?fe"
    then obtain pa pa' where pa: "read_record (wt_data w) (off + 8) = Some pa" "?f pa = Some pa'" "read_record d1 (off + 8) = Some pa'"
      using recs by blast
    note ok = sanitize_record_ok [OF read_record_sized(1) [OF pa(1)] pa(2)]
    have "\<exists>e \<in> set (wt_addr_hashes w). unat (ah_offset e) = off"
    proof (rule ccontr)
      assume "\<not> ?thesis"
      then have "read_record d2 (off + 8) = Some pa'"
        using b off pa(3) by auto
      moreover have "\<forall>off \<in> set ?fe. \<exists>pa. read_record d2 (off + 8) = Some pa"
        using b recs by blast
      ultimately show False
        using all_cleared_ok [of ?fe d2] d(3) off ok(5) by auto
    qed
    then obtain e where e: "e \<in> set (wt_addr_hashes w)" "unat (ah_offset e) = off"
      by blast
    then have "read_record d2 (off + 8) = Some (pa'\<lparr>acc_modified := False\<rparr>)" "acc_addr pa' = ah_addr e"
      using b off pa(3) by auto
    moreover from this have "ah_addr e = acc_addr pa" "ah_hash e = H (acc_addr pa)"
      using e(1) t(1) ok(4) by (auto simp: sanitized_def)
    moreover have "wt_data w' = d2"
      by (simp add: d(4))
    ultimately show "\<exists>pa pa'. read_record (wt_data w) (off + 8) = Some pa \<and> ?f pa = Some pa' \<and>
      read_record (wt_data w') (off + 8) = Some (pa'\<lparr>acc_modified := False\<rparr>) \<and>
      (\<exists>e \<in> set (wt_addr_hashes w). unat (ah_offset e) = off \<and> ah_addr e = acc_addr pa \<and> ah_hash e = H (acc_addr pa))"
      using pa(1,2) e by blast
  qed
qed

lemma code_bodies:
  assumes "views_ok w" "off \<in> set (for_each_offset (wt_code_map w))"
  obtains body where "body_at (wt_code_data w) off = Some body" "off + 8 \<le> length (wt_code_data w)"
  using entry_within_data_read [of 32 "wt_code_data w" off] assms by (fastforce simp: views_ok_def)

lemma record_offsets: "views_ok w \<Longrightarrow> \<forall>off \<in> set (for_each_offset (wt_map w)). off + 8 + 256 \<le> length (wt_data w)"
  by (fastforce simp: views_ok_def entry_fits_def rec_span_def sizeof_defs dest: read_record_sized(2))

lemma sanitize_stages:
  assumes "views_ok w"
  obtains "sanitize H v w = Some None"
  | "records_apart (wt_data w) (for_each_offset (wt_map w))" "marks_right H v w \<longrightarrow> code_right H w" "sanitize H v w = bind_accounts H w"
proof -
  obtain t where t: "mphf_entries_tile (wt_map w) (wt_data w) = Some t"
    using entries_tile_defined [of "wt_map w" "wt_data w"] record_offsets [OF assms] assms by (fastforce simp: views_ok_def)
  have "\<forall>off \<in> set (for_each_offset (wt_code_map w)). off + 8 \<le> length (wt_code_data w)"
    using code_bodies [OF assms] by metis
  then obtain t' where t': "mphf_entries_tile (wt_code_map w) (wt_code_data w) = Some t'"
    using entries_tile_defined [of "wt_code_map w" "wt_code_data w"] assms by (auto simp: views_ok_def)
  have "\<forall>off \<in> set (for_each_offset (wt_code_map w)). \<exists>body. body_at (wt_code_data w) off = Some body"
    using code_bodies [OF assms] by metis
  from all_hashed_ok [OF this, of H v] obtain c where c: "all_hashed H v (wt_code_data w) (for_each_offset (wt_code_map w)) = Some c"
    "c \<longrightarrow> marks_right H v w \<longrightarrow> code_right H w"
    unfolding marks_right_def code_right_def by blast
  show ?thesis
  proof (cases "in_builder_order w \<and> t \<and> t' \<and> c")
    case True
    have "records_apart (wt_data w) (for_each_offset (wt_map w))"
      using entries_tile_apart [of "wt_map w" "wt_data w"] assms t True by (simp add: views_ok_def)
    then show ?thesis
      using True t t' c by (intro that(2)) (simp_all add: sanitize_def)
  next
    case False
    then show ?thesis
      using t t' c(1) by (intro that(1)) (auto simp: sanitize_def)
  qed
qed

lemma all_cleared_defined: "\<forall>off \<in> set offs. off + 8 + 23 < length data \<Longrightarrow> \<exists>r. all_cleared data offs = Some r"
  by (induction offs) (auto simp: at_in_range)

lemma bind_accounts_returns:
  assumes "views_ok w" "records_apart (wt_data w) (for_each_offset (wt_map w))"
  shows "\<exists>r. bind_accounts H w = Some r"
proof -
  let ?fe = "for_each_offset (wt_map w)" and ?f = "sanitize_record (find_code_entry (direct_state_of w))"
  obtain r where r: "walk_accounts ?f (walked w) (wt_data w) = Some r" "\<forall>data'. r = Some data' \<longrightarrow> length data' = length (wt_data w) \<and>
      (\<forall>off \<in> set ?fe. \<exists>pa pa'. read_record (wt_data w) (off + 8) = Some pa \<and> ?f pa = Some pa' \<and> read_record data' (off + 8) = Some pa')"
    by (rule bind_accounts_walk [OF assms])
  show ?thesis
  proof (cases r)
    case (Some d1)
    obtain r2 where r2: "bind_hashes H None (wt_addr_hashes w) d1 = Some r2" "\<forall>d2. r2 = Some d2 \<longrightarrow> length d2 = length d1"
      using bind_hashes_returns by blast
    show ?thesis
    proof (cases r2)
      case (Some d2)
      then have "length d2 = length (wt_data w)"
        using r(2) \<open>r = Some d1\<close> r2(2) by simp
      then have "\<exists>ok. all_cleared d2 (walked w) = Some ok"
        using record_offsets [OF assms(1)] by (intro all_cleared_defined) (auto simp: walked_eq [OF assms(1)])
      then show ?thesis
        using r(1) r2(1) Some \<open>r = Some d1\<close> by (auto simp: bind_accounts_def)
    qed (use r(1) r2(1) Some in \<open>simp add: bind_accounts_def\<close>)
  qed (use r(1) in \<open>simp add: bind_accounts_def\<close>)
qed

text \<open>The state after the check.\<close>

lemma sanitized_state_ok:
  assumes "views_ok w" "w' = w\<lparr>wt_data := wt_data w'\<rparr>"
    "\<forall>off \<in> set (for_each_offset (wt_map w)). \<exists>pa. read_record (wt_data w') (off + 8) = Some pa \<and> slots_sorted (acc_slots pa) \<and> leaf_ok pa"
  shows "view_ok (direct_state_of w')"
proof -
  have m: "wt_map w' = wt_map w"
    by (subst assms(2)) simp
  let ?c = "core (direct_state_of w')"
  have c: "c_map ?c = wt_map w" "c_created ?c = (\<lambda>a. None)" "c_overflow ?c = (\<lambda>a. None)"
    "c_records ?c = (\<lambda>off. if off \<in> set (for_each_offset (wt_map w)) then read_record (wt_data w') (off + 8) else None)"
    by (simp_all add: core_def direct_state_of_def m map_of.simps(1))
  have "records_ok ?c"
    using assms(1,3) by (auto simp: records_ok_def c views_ok_def)
  moreover have "address_ok ?c a" for a
  proof (cases "c_find ?c a")
    case (Some off)
    then have off: "off \<in> set (for_each_offset (wt_map w))"
      using c_find_sound(2) [OF Some] by (simp add: c)
    then obtain pa where pa: "read_record (wt_data w') (off + 8) = Some pa" "slots_sorted (acc_slots pa)" "leaf_ok pa"
      using assms(3) by blast
    have "slots_for pa = acc_slots pa"
      using read_record_sized(1) [OF pa(1)] by (simp add: slots_for_def sized_def)
    then show ?thesis
      using Some off pa by (simp add: address_ok_def c_lookup_def c entry_ok_def)
  qed (simp add: address_ok_def c_lookup_def c)
  ultimately show ?thesis
    by (simp add: view_ok_def state_ok_def core_ok_def) (simp add: walk_ok_def direct_state_of_def)
qed

lemma bound_record:
  assumes "views_ok w" "records_apart (wt_data w) (for_each_offset (wt_map w))" "entries_named w" "bind_accounts H w = Some (Some w')" "code_right H w"
    "off \<in> set (for_each_offset (wt_map w))"
  shows "\<exists>pa pa' e. read_record (wt_data w) (off + 8) = Some pa \<and> read_record (wt_data w') (off + 8) = Some pa' \<and> leaf_ok pa' \<and>
      sanitized pa pa' \<and> \<not> acc_modified pa' \<and> slots_sorted (acc_slots pa') \<and>
      e \<in> set (wt_addr_hashes w) \<and> unat (ah_offset e) = off \<and> ah_addr e = acc_addr pa \<and> ah_hash e = H (acc_addr pa) \<and>
      (acc_code_store_len pa \<noteq> 0 \<longrightarrow> H (code_for (direct_state_of w') pa') = acc_code_hash pa)"
proof -
  let ?fc = "find_code_entry (direct_state_of w)"
  note b = bind_accounts_ok [OF assms(1-4)]
  have w': "wt_code_data w' = wt_code_data w"
    by (subst b(1)) simp
  obtain pa pa' e where pa: "read_record (wt_data w) (off + 8) = Some pa" "sanitize_record ?fc pa = Some pa'"
    "read_record (wt_data w') (off + 8) = Some (pa'\<lparr>acc_modified := False\<rparr>)"
    and e: "e \<in> set (wt_addr_hashes w)" "unat (ah_offset e) = off" "ah_addr e = acc_addr pa" "ah_hash e = H (acc_addr pa)"
    using b(2) assms(6) by blast
  note ok = sanitize_record_ok [OF read_record_sized(1) [OF pa(1)] pa(2)]
  have "H (code_for (direct_state_of w') (pa'\<lparr>acc_modified := False\<rparr>)) = acc_code_hash pa" if len: "acc_code_store_len pa \<noteq> 0"
  proof -
    obtain off' body where "?fc (acc_code_hash pa) = Some (off', body)" "acc_code_store_offset pa' = of_nat off'"
      "acc_code_store_len pa' = of_nat (length body - kPayloadOffset)"
      using ok(6) [OF len] by blast
    then show ?thesis
      by (intro code_entry_bound [OF assms(1,5) _ _ _ w']) simp_all
  qed
  then show ?thesis
    using pa(1,3) e ok(2,3,4) by (intro exI [of _ pa] exI [of _ "pa'\<lparr>acc_modified := False\<rparr>"] exI [of _ e]) (simp add: sanitized_def)
qed

end
