(* ===== verification/Witness_Binding.thy ===== *)
theory Witness_Binding
  imports Sanitize
begin

text \<open>
  What a witness that has been accepted is, and a witness that is accepted although it is not what it should be.
\<close>

section \<open>Properties\<close>


text \<open>
  C6: A witness that \<open>sanitize\<close> accepts is bound to its hashes and gives a state that keeps the invariant, if each entry of the table of
  address hashes is for an entry of the address map and the marks of the reader are right. Every record is then that of the blob, alive and not modified, with each slot at its initial
  value and its keys in order; the table has its address, once, under the hash of it; no two records share an address; and the code of a record hashes
  to the code hash of the record.
\<close>

theorem sanitize_binds:
  assumes "new_witness aligned blob ns_aligned nodestore = Some w" "sanitize keccak256 v w = Some (Some w')" "marks_right keccak256 v w" "entries_named w"
  shows "view_ok (direct_state_of w') \<and>
    (\<forall>off \<in> set (for_each_offset (wt_map w)). \<exists>pa pa'. read_record (wt_data w) (off + 8) = Some pa \<and> ds_records (direct_state_of w') off = Some pa' \<and>
       sanitized pa pa' \<and> \<not> acc_modified pa' \<and> slots_sorted (acc_slots pa') \<and>
       (\<exists>!e. e \<in> set (wt_addr_hashes w) \<and> ah_addr e = acc_addr pa \<and> ah_hash e = keccak256 (acc_addr pa)) \<and>
       (acc_code_store_len pa \<noteq> 0 \<longrightarrow> keccak256 (code_for (direct_state_of w') pa') = acc_code_hash pa)) \<and>
    inj_on (\<lambda>off. map_option acc_addr (ds_records (direct_state_of w') off)) (set (for_each_offset (wt_map w)))"
proof -
  let ?fe = "for_each_offset (wt_map w)"
  have views: "views_ok w"
    by (rule new_witness_views [OF assms(1)])
  have s: "records_apart (wt_data w) ?fe" "code_right keccak256 w" "bind_accounts keccak256 w = Some (Some w')"
    using sanitize_stages [OF views, of keccak256 v] assms(2,3) by (metis option.distinct(1) option.inject)+
  note b = bind_accounts_ok [OF views s(1) assms(4) s(3)]
  note rec = bound_record [OF views s(1) assms(4) s(3,2)]
  have uniq: "e = e'" if "e \<in> set (wt_addr_hashes w)" "e' \<in> set (wt_addr_hashes w)" "ah_hash e = ah_hash e'" for e e'
    using sorted_wrt_either [OF b(3) that(1,2)] that(3) by auto
  have state: "ds_records (direct_state_of w') off = read_record (wt_data w') (off + 8)" if "off \<in> set ?fe" for off
    using that by (subst b(1)) (simp add: direct_state_of_def)
  have "view_ok (direct_state_of w')"
    using rec by (intro sanitized_state_ok [OF views b(1)]) blast
  moreover have "\<exists>pa pa'. read_record (wt_data w) (off + 8) = Some pa \<and> ds_records (direct_state_of w') off = Some pa' \<and>
       sanitized pa pa' \<and> \<not> acc_modified pa' \<and> slots_sorted (acc_slots pa') \<and>
       (\<exists>!e. e \<in> set (wt_addr_hashes w) \<and> ah_addr e = acc_addr pa \<and> ah_hash e = keccak256 (acc_addr pa)) \<and>
       (acc_code_store_len pa \<noteq> 0 \<longrightarrow> keccak256 (code_for (direct_state_of w') pa') = acc_code_hash pa)" if "off \<in> set ?fe" for off
    using rec [OF that] uniq unfolding state [OF that] by metis
  moreover have "inj_on (\<lambda>off. map_option acc_addr (ds_records (direct_state_of w') off)) (set ?fe)"
  proof (rule inj_onI)
    fix a a' assume a: "a \<in> set ?fe" "a' \<in> set ?fe" "map_option acc_addr (ds_records (direct_state_of w') a) = map_option acc_addr (ds_records (direct_state_of w') a')"
    have named: "\<exists>pa e. read_record (wt_data w') (off + 8) = Some pa \<and> e \<in> set (wt_addr_hashes w) \<and> unat (ah_offset e) = off \<and>
        ah_hash e = keccak256 (acc_addr pa)" if "off \<in> set ?fe" for off
      using rec [OF that] sanitized_addr by metis
    obtain pa e where "read_record (wt_data w') (a + 8) = Some pa" "e \<in> set (wt_addr_hashes w)" "unat (ah_offset e) = a" "ah_hash e = keccak256 (acc_addr pa)"
      using named [OF a(1)] by blast
    moreover obtain pa' e' where "read_record (wt_data w') (a' + 8) = Some pa'" "e' \<in> set (wt_addr_hashes w)" "unat (ah_offset e') = a'" "ah_hash e' = keccak256 (acc_addr pa')"
      using named [OF a(2)] by blast
    ultimately show "a = a'"
      using uniq [of e e'] a(3) by (simp add: state a(1,2))
  qed
  ultimately show ?thesis
    by blast
qed

section \<open>A blob\<close>

text \<open>A pre-state with one record, of four slots, and a table of address hashes.\<close>

definition blob_data :: "account \<Rightarrow> bytes" where
  "blob_data pa = replicate 8 0 @ rev (store_big (640 :: u64)) @ encode_record pa"

definition blob_region :: "account \<Rightarrow> bytes" where
  "blob_region pa = le_words [kMphfAddrMapMagic, kMphfMapVersion, 1, 1] @ le_words [0, 0 :: u64] @ le_words [72, 0, 56, 64, 72, 656 :: u32] @
     le_words [0 :: u64] @ le_words [8, 0 :: u32] @ blob_data pa"

definition encode_addr_hash :: "addr_hash_entry \<Rightarrow> bytes" where
  "encode_addr_hash e = ah_hash e @ ah_addr e @ rev (store_big (ah_offset e))"

definition blob_meta :: "nat \<Rightarrow> pre_state_meta" where
  "blob_meta n = \<lparr>pm_magic = kMagic, pm_version = kVersion, pm_n_accounts = of_nat n, pm_n_block_hashes = 0, pm_prestate_offset = 72,
     pm_addr_hashes_offset = 800, pm_block_hashes_offset = of_nat (800 + 56 * n), pm_code_store_offset = of_nat (800 + 56 * n), pm_code_store_size = 0\<rparr>"

definition encode_meta :: "pre_state_meta \<Rightarrow> bytes" where
  "encode_meta m = le_words [pm_magic m, pm_version m, pm_n_accounts m, pm_n_block_hashes m, pm_prestate_offset m, pm_addr_hashes_offset m,
     pm_block_hashes_offset m, pm_code_store_offset m, pm_code_store_size m] @ le_words (replicate 8 (0 :: u32))"

definition blob_of :: "account \<Rightarrow> addr_hash_entry list \<Rightarrow> bytes" where
  "blob_of pa es = encode_meta (blob_meta (length es)) @ replicate 4 0 @ blob_region pa @ concat (map encode_addr_hash es)"

definition map_of_blob :: mphf_map where
  "map_of_blob = \<lparr>mp_n_keys = 1, mp_n_buckets = 1, mp_seed_factor = 0, mp_displacement = [0], mp_slot_offsets = [8], mp_collisions = []\<rparr>"

definition witness_of :: "account \<Rightarrow> addr_hash_entry list \<Rightarrow> witness" where
  "witness_of pa es = \<lparr>wt_meta = blob_meta (length es), wt_blob_size = 800 + 56 * length es, wt_map = map_of_blob, wt_data = blob_data pa,
     wt_addr_hashes = es, wt_code_map = no_map, wt_code_data = []\<rparr>"

definition hash_entry_ok :: "addr_hash_entry \<Rightarrow> bool" where
  "hash_entry_ok e \<longleftrightarrow> length (ah_hash e) = 32 \<and> length (ah_addr e) = 20"

lemma read_meta_encode: "read_meta (encode_meta m @ rest) = Some m"
  unfolding read_meta_def encode_meta_def le_words_def
  by (subst (1 2 3 4 5 6 7 8 9) read_word_drop) (simp_all add: read_word_front)

lemma read_addr_hashes_encode:
  assumes "\<forall>e \<in> set es. hash_entry_ok e"
  shows "read_addr_hashes (pre @ concat (map encode_addr_hash es)) (length pre) (length es) = Some es"
  using assms
proof (induction es arbitrary: pre)
  case (Cons e es)
  let ?e = "encode_addr_hash e"
  have l: "length ?e = 56"
    using Cons.prems by (simp add: encode_addr_hash_def hash_entry_ok_def)
  have "decode_addr_hash ?e = e"
    using Cons.prems by (simp add: decode_addr_hash_def encode_addr_hash_def hash_entry_ok_def load_little_rev_store [where rest = "[]", simplified])
  moreover have "read_addr_hashes (pre @ ?e @ concat (map encode_addr_hash es)) (length pre + 56) (length es) = Some es"
    using Cons.IH [of "pre @ ?e"] Cons.prems by (simp add: l)
  ultimately show ?case
    by (simp add: read_bytes_def l sizeof_defs)
qed simp

lemma length_encode_hashes: "\<forall>e \<in> set es. hash_entry_ok e \<Longrightarrow> length (concat (map encode_addr_hash es)) = 56 * length es"
  by (induction es) (auto simp: encode_addr_hash_def hash_entry_ok_def)

lemma blob_lengths:
  assumes "sized pa" "acc_slot_count pa = 4"
  shows "length (encode_record pa) = 640" "length (blob_data pa) = 656" "length (blob_region pa) = 728" "length (encode_meta m) = 68"
proof -
  show r: "length (encode_record pa) = 640"
    using length_encode_record [OF assms(1)] assms(2) by (simp add: rec_span_def sizeof_defs)
  then show d: "length (blob_data pa) = 656"
    by (simp add: blob_data_def)
  then show "length (blob_region pa) = 728"
    by (simp add: blob_region_def length_le_words)
  show "length (encode_meta m) = 68"
    by (simp add: encode_meta_def length_le_words)
qed

lemma mphf_of_region:
  assumes "sized pa" "acc_slot_count pa = 4"
  shows "mphf_of (blob_region pa) = Some (map_of_blob, blob_data pa)"
proof -
  note l = blob_lengths [OF assms]
  let ?h = "le_words [kMphfAddrMapMagic, kMphfMapVersion, 1, 1] @ le_words [0, 0 :: u64] @ le_words [72, 0, 56, 64, 72, 656 :: u32]"
  have "read_words (blob_region pa) 56 1 = Some [0 :: u64]"
    using read_words_at [of ?h "[0 :: u64]" "le_words [8, 0 :: u32] @ blob_data pa"] by (simp add: blob_region_def length_le_words)
  moreover have "read_words (blob_region pa) 64 1 = Some [8 :: u32]"
    using read_words_at [of "?h @ le_words [0 :: u64]" "[8 :: u32]" "le_words [0 :: u32] @ blob_data pa"]
    by (simp add: blob_region_def length_le_words) (simp add: le_words_def)
  moreover have "read_bytes (blob_region pa) 72 656 = Some (blob_data pa)"
    using l(2,3) by (simp add: read_bytes_def) (simp add: blob_region_def length_le_words)
  moreover have "read_words b off 0 = Some ([] :: u64 list)" for b off
    by simp
  ultimately show ?thesis
    unfolding mphf_of_def map_of_blob_def
    by (simp add: blob_region_def read_header_blob del: read_words.simps)
qed

lemma read_record_at:
  assumes "sized pa"
  shows "read_record (pre @ encode_record pa @ post) (length pre) = Some pa"
proof -
  have "patch (pre @ encode_record pa @ post) (length pre) (encode_record pa) = pre @ encode_record pa @ post"
    by (simp add: patch_def)
  then show ?thesis
    using read_record_write [OF assms, of "length pre" "pre @ encode_record pa @ post"] by (simp add: length_encode_record [OF assms])
qed

lemma blob_record:
  assumes "sized pa"
  shows "read_record (blob_data pa) 16 = Some pa" "read_word (blob_data pa) 8 = Some (640 :: u64)"
  using read_record_at [OF assms, of "replicate 8 0 @ rev (store_big (640 :: u64))" "[]"]
    read_word_at [of 8 "replicate 8 0" "640 :: u64" "encode_record pa"] by (simp_all add: blob_data_def)

lemma blob_entry:
  assumes "sized pa" "acc_slot_count pa = 4"
  shows "entry_within_data 20 (blob_data pa) 8" "check_entry (blob_data pa) 8"
proof -
  note l = blob_lengths [OF assms] and r = blob_record [OF assms(1)]
  show "entry_within_data 20 (blob_data pa) 8"
    using l(2) by (simp add: entry_within_data_def r(2))
  have "read_word (blob_data pa) 152 = Some (4 :: u32)"
    using read_record_count [OF r(1)] assms(2) by simp
  then show "check_entry (blob_data pa) 8"
    by (simp add: check_entry_def r(2) sizeof_defs)
qed

lemma blob_region_valid:
  assumes "sized pa" "acc_slot_count pa = 4" "length pre = 72"
  shows "validate_mphf 20 (pre @ blob_region pa @ post) 72 728 kMphfAddrMapMagic"
proof -
  note l = blob_lengths [OF assms(1,2)]
  have "take 728 (drop 72 (pre @ blob_region pa @ post)) = blob_region pa"
    using l(3) assms(3) by simp
  moreover have "read_header (blob_region pa) = Some \<lparr>h_magic = kMphfAddrMapMagic, h_version = kMphfMapVersion, h_n_keys = 1, h_n_buckets = 1, h_seed = 0,
      h_seed_factor = 0, h_collisions_offset = 72, h_collisions_size = 0, h_displacement_offset = 56, h_slot_offsets_offset = 64,
      h_data_offset = 72, h_data_size = 656\<rparr>"
    unfolding blob_region_def by (rule read_header_blob)
  ultimately show ?thesis
    using l(3) assms(3) blob_entry(1) [OF assms(1,2)] mphf_of_region [OF assms(1,2)]
    by (simp add: validate_mphf_def sections_ok_def within_def map_of_blob_def)
qed

lemma new_witness_blob:
  assumes "sized pa" "acc_slot_count pa = 4" "\<forall>e \<in> set es. hash_entry_ok e" "es \<noteq> []" "length es < 100"
  shows "new_witness True (blob_of pa es) True [] = Some (witness_of pa es)"
proof -
  note l = blob_lengths [OF assms(1,2)] and lh = length_encode_hashes [OF assms(3)]
  let ?m = "blob_meta (length es)" and ?blob = "blob_of pa es"
  have n: "unat (of_nat (length es) :: u32) = length es" "unat (of_nat (800 + 56 * length es) :: u32) = 800 + 56 * length es"
    using assms(5) by (simp_all add: unat_of_nat del: of_nat_add of_nat_mult)
  have len: "length ?blob = 800 + 56 * length es"
    by (simp add: blob_of_def l lh)
  have meta: "read_meta ?blob = Some ?m"
    unfolding blob_of_def by (rule read_meta_encode)
  have m: "unat (pm_n_accounts ?m) = length es" "unat (pm_addr_hashes_offset ?m) = 800" "unat (pm_prestate_offset ?m) = 72"
    "unat (pm_block_hashes_offset ?m) = 800 + 56 * length es" "unat (pm_code_store_offset ?m) = 800 + 56 * length es"
    "pm_addr_hashes_offset ?m - pm_prestate_offset ?m = 728" "pm_prestate_offset ?m < pm_addr_hashes_offset ?m" "pm_n_accounts ?m > 0"
    "pm_code_store_size ?m = 0" "pm_n_block_hashes ?m = 0" "pm_magic ?m = kMagic" "pm_version ?m = kVersion" "pm_prestate_offset ?m = 72"
    "pm_addr_hashes_offset ?m = 800"
    using n assms(4) by (simp_all add: blob_meta_def word_neq_0_conv [symmetric] unat_eq_0 [symmetric] del: of_nat_add of_nat_mult unat_eq_0)
  have region: "addr_map_region ?blob ?m = blob_region pa"
    unfolding addr_map_region_def m(3,6) using l by (simp add: blob_of_def)
  have v: "validate_mphf 20 ?blob 72 728 kMphfAddrMapMagic"
    using blob_region_valid [OF assms(1,2), of "encode_meta ?m @ replicate 4 0" "concat (map encode_addr_hash es)"] l
    by (simp add: blob_of_def)
  have "(case read_header (blob_region pa) of None \<Rightarrow> True | Some h \<Rightarrow> h_n_keys h = 0) = False"
    unfolding blob_region_def by (simp add: read_header_blob)
  moreover have "sections_disjoint (prestate_sections ?m)"
    by (simp add: prestate_sections_def m overlap_def sizeof_defs)
  moreover have "validate_mphf 32 ?blob (pm_code_store_offset ?m) (pm_code_store_size ?m) kMphfCodeStoreMagic"
    by (simp add: m validate_mphf_def)
  ultimately have "validate_prestate_layout True ?blob"
    using len v blob_entry(2) [OF assms(1,2)] m(7,8)
    by (simp add: validate_prestate_layout_def meta region mphf_of_region [OF assms(1,2)] map_of_blob_def bound_typed_def bound_bytes_def m sizeof_defs not_le)
  moreover have "read_addr_hashes ?blob 800 (length es) = Some es"
    using read_addr_hashes_encode [OF assms(3), of "encode_meta ?m @ replicate 4 0 @ blob_region pa"] l by (simp add: blob_of_def)
  ultimately show ?thesis
    using m(8) by (simp add: new_witness_def meta region mphf_of_region [OF assms(1,2)] m len witness_of_def validate_nodestore_layout_def)
qed

section \<open>The check on the blob\<close>

definition blob_slot :: "byte \<Rightarrow> slot" where
  "blob_slot k = \<lparr>slot_key = replicate 31 0 @ [k], slot_initial = replicate 31 0 @ [5], slot_current = replicate 31 0 @ [5]\<rparr>"

definition blob_account :: account where
  "blob_account = (absent_account sample_address)\<lparr>acc_deleted := False, acc_nonce := 1, acc_balance := 100, acc_slot_count := 4,
     acc_slots := [blob_slot 1, blob_slot 2, blob_slot 3, blob_slot 4]\<rparr>"

definition bound_account :: account where
  "bound_account = rlp_into_own_cache (blob_account\<lparr>acc_deleted := False, acc_modified := True, acc_absent_reads := 0\<rparr>)"

lemma blob_account_sized: "sized blob_account" "acc_slot_count blob_account = 4"
  by (simp_all add: blob_account_def sized_def absent_account_def blob_slot_def sample_address_def length_kEmptyHash kEmptyRoot_def)

lemma lt_last_byte: "lt_bytes32 (replicate 31 0 @ [a]) (replicate 31 0 @ [b]) \<longleftrightarrow> a < b"
  using memcmp_be_nat [of "replicate 31 0 @ [a]" "replicate 31 0 @ [b]"]
  by (auto simp: lt_bytes32_def order_sign_def be_nat_append word_less_nat_alt split: if_splits)

lemma sanitize_blob_account: "sanitize_record fc blob_account = Some bound_account" "sized bound_account" "acc_slot_count bound_account = 4"
  "acc_addr bound_account = sample_address" "acc_slots bound_account = [blob_slot 1, blob_slot 2, blob_slot 3, blob_slot 4]"
proof -
  have b: "bind_code fc blob_account = Some blob_account"
    by (simp add: bind_code_def blob_account_def absent_account_def)
  have r: "reset_slot (blob_slot k) = blob_slot k" for k
    by (simp add: reset_slot_def blob_slot_def)
  have s0: "acc_slots blob_account = [blob_slot 1, blob_slot 2, blob_slot 3, blob_slot 4]"
    by (simp add: blob_account_def)
  have s: "acc_slots bound_account = [blob_slot 1, blob_slot 2, blob_slot 3, blob_slot 4]"
    by (simp add: bound_account_def blob_account_def)
  have self: "bound_account\<lparr>acc_slots := [blob_slot 1, blob_slot 2, blob_slot 3, blob_slot 4]\<rparr> = bound_account"
    unfolding s [symmetric] by simp
  have "successively (\<lambda>a b. lt_bytes32 (slot_key a) (slot_key b)) [blob_slot 1, blob_slot 2, blob_slot 3, blob_slot 4]"
    by (simp add: blob_slot_def lt_last_byte)
  then show "sanitize_record fc blob_account = Some bound_account"
    by (simp add: sanitize_record_def b Let_def s s0 r self flip: bound_account_def)
  show "sized bound_account"
    unfolding bound_account_def using blob_account_sized(1) by (intro sized_cache) (simp add: sized_def)
  show "acc_slot_count bound_account = 4" "acc_addr bound_account = sample_address"
    by (simp_all add: bound_account_def blob_account_def absent_account_def)
  show "acc_slots bound_account = [blob_slot 1, blob_slot 2, blob_slot 3, blob_slot 4]"
    by (rule s)
qed

lemma patch_blob:
  assumes "sized pa" "acc_slot_count pa = 4" "sized pa'" "acc_slot_count pa' = 4"
  shows "patch (blob_data pa) 16 (encode_record pa') = blob_data pa'"
  using blob_lengths(1) [OF assms(1,2)] blob_lengths(1) [OF assms(3,4)] by (simp add: patch_def blob_data_def)

lemma sanitize_blob:
  assumes "\<forall>e \<in> set es. hash_entry_ok e" "es \<noteq> []" "length es < 100"
  shows "sanitize H v (witness_of blob_account es) = do {
     r \<leftarrow> bind_hashes H None es (blob_data bound_account);
     case r of None \<Rightarrow> Some None
     | Some data \<Rightarrow> do { ok \<leftarrow> all_cleared data [8]; Some (if ok then Some ((witness_of blob_account es)\<lparr>wt_data := data\<rparr>) else None) } }"
proof -
  let ?w = "witness_of blob_account es"
  have n: "unat (of_nat (length es) :: u32) = length es" "unat (of_nat (800 + 56 * length es) :: u32) = 800 + 56 * length es"
    using assms(3) by (simp_all add: unat_of_nat del: of_nat_add of_nat_mult)
  have pos: "(of_nat (length es) :: u32) > 0"
    using n(1) assms(2) by (simp add: word_neq_0_conv [symmetric] unat_eq_0 [symmetric] del: unat_eq_0)
  have "in_builder_order ?w"
    by (simp add: in_builder_order_def witness_of_def blob_meta_def n sizeof_defs Let_def del: of_nat_add of_nat_mult)
  moreover have fe: "for_each_offset map_of_blob = [8]"
    by (simp add: for_each_offset_def map_of_blob_def)
  have "mphf_align8 648 = 648"
    by (simp add: mphf_align8_def)
  then have "mphf_entries_tile map_of_blob (blob_data blob_account) = Some True"
    using blob_record(2) [OF blob_account_sized(1)] blob_lengths(2) [OF blob_account_sized]
    by (simp add: mphf_entries_tile_def fe)
  moreover have "mphf_entries_tile no_map [] = Some True"
    by (simp add: mphf_entries_tile_def no_map_def)
  moreover have "walked ?w = [8]"
    using pos by (simp add: walked_def witness_of_def blob_meta_def fe)
  moreover have "wt_map ?w = map_of_blob" "wt_data ?w = blob_data blob_account" "wt_addr_hashes ?w = es" "wt_code_map ?w = no_map" "wt_code_data ?w = []"
    by (simp_all add: witness_of_def)
  moreover have "for_each_offset no_map = []"
    by (simp add: no_map_def for_each_offset_def)
  ultimately show ?thesis
    by (simp add: sanitize_def bind_accounts_def blob_record(1) [OF blob_account_sized(1)] sanitize_blob_account(1)
        patch_blob [OF blob_account_sized sanitize_blob_account(2,3)] del: all_cleared.simps)
qed

text \<open>The table with the entry of the record alone: the check accepts the blob.\<close>

definition honest_entry :: addr_hash_entry where
  "honest_entry = \<lparr>ah_hash = sample_hash sample_address, ah_addr = sample_address, ah_offset = 8\<rparr>"

lemma honest_entry_ok: "hash_entry_ok honest_entry"
  by (simp add: hash_entry_ok_def honest_entry_def sample_hash_def sample_address_def)

lemma bind_honest:
  assumes "read_record data 16 = Some pa" "acc_addr pa = sample_address"
    "(case prev of None \<Rightarrow> False | Some h \<Rightarrow> memcmp h (sample_hash sample_address) \<ge> 0) = False"
  shows "bind_hashes sample_hash prev [honest_entry] data = Some (Some (patch data 39 [0]))"
  using read_record_sized(2) [OF assms(1)] read_record_addr [OF assms(1)] assms(2,3)
  by (auto simp: honest_entry_def rec_span_def sizeof_defs split: option.splits)

lemma cleared_honest:
  assumes "read_record data 16 = Some pa"
  shows "all_cleared (patch data 39 [0]) [8] = Some True"
  using read_record_sized(2) [OF assms] by (simp add: Checked_Reads.at_def nth_patch rec_span_def sizeof_defs)

lemma sanitize_honest:
  "sanitize sample_hash v (witness_of blob_account [honest_entry]) =
     Some (Some ((witness_of blob_account [honest_entry])\<lparr>wt_data := patch (blob_data bound_account) 39 [0]\<rparr>))"
proof -
  note r = blob_record(1) [OF sanitize_blob_account(2)]
  show ?thesis
    using bind_honest [OF r sanitize_blob_account(4), of None] cleared_honest [OF r] honest_entry_ok
    by (subst sanitize_blob) (simp_all del: bind_hashes.simps all_cleared.simps)
qed

text \<open>A second entry, for an address that no record has. Its offset is that of bytes within the first slot of the record.\<close>

definition forged_entry :: addr_hash_entry where
  "forged_entry = \<lparr>ah_hash = replicate 32 0, ah_addr = replicate 20 0, ah_offset = 336\<rparr>"

definition spoiled_account :: account where
  "spoiled_account = bound_account\<lparr>acc_slots := [(blob_slot 1)\<lparr>slot_current := replicate 32 0\<rparr>, blob_slot 2, blob_slot 3, blob_slot 4]\<rparr>"

lemma spoiled_sized: "sized spoiled_account" "acc_slot_count spoiled_account = 4" "acc_addr spoiled_account = sample_address"
  using sanitize_blob_account(2-4) by (simp_all add: spoiled_account_def sized_def blob_slot_def)

lemma blob_slots:
  assumes "sized pa" "acc_slots pa = s # ss"
  shows "blob_data pa = (replicate 8 0 @ rev (store_big (640 :: u64)) @ encode_fields pa @ slot_key s @ slot_initial s) @ slot_current s @ concat (map encode_slot ss)"
    "length (replicate 8 0 @ rev (store_big (640 :: u64)) @ encode_fields pa @ slot_key s @ slot_initial s) = 336" "length (slot_current s) = 32"
  using assms length_encode_fields [OF assms(1)] by (simp_all add: blob_data_def encode_record_def encode_slot_def sized_def sizeof_defs)

lemma spoil:
  "read_bytes (blob_data bound_account) 344 20 = Some (replicate 20 0)" "patch (blob_data bound_account) 367 [0] = blob_data spoiled_account"
proof -
  note b = blob_slots [OF sanitize_blob_account(2,5)]
  have five: "slot_current (blob_slot 1) = replicate 8 0 @ replicate 20 0 @ replicate 3 0 @ [5]"
    by (simp add: blob_slot_def numeral_eq_Suc)
  show "read_bytes (blob_data bound_account) 344 20 = Some (replicate 20 0)"
    using b(2) unfolding b(1) five by (simp add: read_bytes_def)
  let ?pre = "replicate 8 0 @ rev (store_big (640 :: u64)) @ encode_fields bound_account @ slot_key (blob_slot 1) @ slot_initial (blob_slot 1)"
  let ?post = "concat (map encode_slot [blob_slot 2, blob_slot 3, blob_slot 4])"
  have "encode_fields spoiled_account = encode_fields bound_account"
    by (simp add: spoiled_account_def encode_fields_def)
  then have "blob_data spoiled_account = ?pre @ replicate 32 0 @ ?post"
    using blob_slots(1) [OF spoiled_sized(1), of "(blob_slot 1)\<lparr>slot_current := replicate 32 0\<rparr>" "[blob_slot 2, blob_slot 3, blob_slot 4]"]
    by (simp add: spoiled_account_def)
  moreover have "(replicate 32 0 :: bytes) = replicate 31 0 @ [0]"
    by (simp add: numeral_eq_Suc)
  then have "patch (pre @ (replicate 31 0 @ [5]) @ post) 367 [0] = pre @ replicate 32 0 @ post" if "length pre = 336" for pre post :: bytes
    using that by (simp add: patch_def)
  moreover from this have "patch (?pre @ (replicate 31 0 @ [5]) @ ?post) 367 [0] = ?pre @ replicate 32 0 @ ?post"
    using b(2) by (simp only:)
  moreover have "slot_current (blob_slot 1) = replicate 31 0 @ [5]"
    by (simp add: blob_slot_def)
  ultimately show "patch (blob_data bound_account) 367 [0] = blob_data spoiled_account"
    unfolding b(1) by metis
qed

text \<open>Both entries pass the check, and the record is left with a slot that is not at its initial value.\<close>

lemma memcmp_forged: "memcmp (replicate 32 0) (sample_hash sample_address) < 0"
  by code_simp

lemma sanitize_forged:
  "sanitize sample_hash v (witness_of blob_account [forged_entry, honest_entry]) =
     Some (Some ((witness_of blob_account [forged_entry, honest_entry])\<lparr>wt_data := patch (blob_data spoiled_account) 39 [0]\<rparr>))"
proof -
  note r = blob_record(1) [OF spoiled_sized(1)]
  have "bind_hashes sample_hash (Some (replicate 32 0)) [honest_entry] (blob_data spoiled_account) = Some (Some (patch (blob_data spoiled_account) 39 [0]))"
    using bind_honest [OF r spoiled_sized(3), of "Some (replicate 32 0)"] memcmp_forged by simp
  moreover have "sample_hash (replicate 20 0) = replicate 32 0"
    by (simp add: sample_hash_def numeral_eq_Suc)
  ultimately have "bind_hashes sample_hash None [forged_entry, honest_entry] (blob_data bound_account) = Some (Some (patch (blob_data spoiled_account) 39 [0]))"
    using spoil blob_lengths(2) [OF sanitize_blob_account(2,3)] by (subst bind_hashes.simps) (simp add: forged_entry_def sizeof_defs del: bind_hashes.simps)
  moreover have "hash_entry_ok forged_entry"
    by (simp add: hash_entry_ok_def forged_entry_def)
  ultimately show ?thesis
    using cleared_honest [OF r] honest_entry_ok by (subst sanitize_blob) (simp_all del: bind_hashes.simps all_cleared.simps)
qed

section \<open>The properties on the blob\<close>

lemma honest_blob: "new_witness True (blob_of blob_account [honest_entry]) True [] = Some (witness_of blob_account [honest_entry])"
  using honest_entry_ok by (intro new_witness_blob blob_account_sized) simp_all

definition no_marks :: code_store_verified where
  "no_marks = \<lparr>cv_here = False, cv_bits = [], cv_n_bits = 0\<rparr>"


lemma sanitize_binds_witness:
  "view_ok (direct_state_of ((witness_of blob_account [honest_entry])\<lparr>wt_data := patch (blob_data bound_account) 39 [0]\<rparr>))"
proof -
  have "marks_right sample_hash no_marks (witness_of blob_account [honest_entry])"
    by (simp add: marks_right_def witness_of_def no_map_def for_each_offset_def)
  moreover have "entries_named (witness_of blob_account [honest_entry])"
    by (simp add: entries_named_def witness_of_def map_of_blob_def for_each_offset_def honest_entry_def)
  ultimately show ?thesis
    using sanitize_binds [OF honest_blob sanitize_honest] by blast
qed

lemma forged_record:
  "ds_records (direct_state_of ((witness_of blob_account [forged_entry, honest_entry])\<lparr>wt_data := patch (blob_data spoiled_account) 39 [0]\<rparr>)) 8 =
     Some (spoiled_account\<lparr>acc_modified := False\<rparr>)"
  using read_record_clear [OF blob_record(1) [OF spoiled_sized(1)]]
  by (simp add: direct_state_of_def witness_of_def map_of_blob_def for_each_offset_def)

text \<open>
  C21: The offset in an entry of the table of address hashes is checked against the end of the data section only, not to be that of a record. A table can have an
  entry, for an address that no record has, whose offset is in the middle of a record where the bytes of the address happen to be. The write that clears the flag
  of that entry then falls into a slot: the blob is accepted, and the slot of the record has another current value than its initial value, which the state root binds.
\<close>

theorem sanitize_accepts_forged_offset:
  "\<exists>w w' pa. new_witness True (blob_of blob_account [forged_entry, honest_entry]) True [] = Some w \<and>
     sanitize sample_hash no_marks w = Some (Some w') \<and> ds_records (direct_state_of w') 8 = Some pa \<and>
     slot_current (hd (acc_slots pa)) \<noteq> slot_initial (hd (acc_slots pa))"
proof -
  have "new_witness True (blob_of blob_account [forged_entry, honest_entry]) True [] = Some (witness_of blob_account [forged_entry, honest_entry])"
    using honest_entry_ok by (intro new_witness_blob blob_account_sized) (simp_all add: hash_entry_ok_def forged_entry_def)
  moreover have "slot_current (hd (acc_slots spoiled_account)) \<noteq> slot_initial (hd (acc_slots spoiled_account))"
    by (auto simp: spoiled_account_def blob_slot_def dest: arg_cong [of _ _ last])
  ultimately show ?thesis
    using sanitize_forged [of no_marks] forged_record by (intro exI conjI) (assumption | simp)+
qed

end
