(* ===== verification/Code_Stream.thy ===== *)
theory Code_Stream
  imports Sanitize
begin

text \<open>
  The reader of the input that hashes the code store on the way (state_zz/code_store_stream.hpp, and the words of the guest's input in
  prover/guest_airbender/src/include/airbender_input.hpp). It stores the words of the input as they are, whatever the headers say, and
  every mark it sets is right.
\<close>

unbundle bit_operations_syntax

section \<open>The words of the input\<close>

text \<open>The words to come, and the memory at \<open>dst\<close>. A word that is not there, or a store outside the memory, is \<open>None\<close>.\<close>

record stream =
  st_input :: "u32 list"
  st_mem :: "u32 list"

definition io_word :: "stream \<Rightarrow> (u32 \<times> stream) option" where
  "io_word st = (case st_input st of [] \<Rightarrow> None | w # ws \<Rightarrow> Some (w, st\<lparr>st_input := ws\<rparr>))"

definition store_word :: "nat \<Rightarrow> u32 \<Rightarrow> stream \<Rightarrow> stream option" where
  "store_word i w st = (if i < length (st_mem st) then Some (st\<lparr>st_mem := (st_mem st)[i := w]\<rparr>) else None)"

fun io_read :: "nat \<Rightarrow> nat \<Rightarrow> stream \<Rightarrow> stream option" where
  "io_read i 0 st = Some st"
| "io_read i (Suc n) st = do { (w, st) \<leftarrow> io_word st; st \<leftarrow> store_word i w st; io_read (Suc i) n st }"

definition mem_words :: "nat \<Rightarrow> nat \<Rightarrow> stream \<Rightarrow> u32 list option" where
  "mem_words i n st = (if i + n \<le> length (st_mem st) then Some (take n (drop i (st_mem st))) else None)"

definition word_at :: "stream \<Rightarrow> nat \<Rightarrow> u32 option" where
  "word_at st byte_off = Checked_Reads.at (st_mem st) (byte_off div 4)"

text \<open>\<open>io.verify\<close>: the next words, and whether the first \<open>len\<close> bytes of them hash to the eight words at \<open>key\<close>.\<close>

definition io_verify :: "(bytes \<Rightarrow> bytes32) \<Rightarrow> nat \<Rightarrow> u32 \<Rightarrow> nat \<Rightarrow> stream \<Rightarrow> (bool \<times> stream) option" where
  "io_verify keccak256 i len key st = do {
     let n = unat ((len + 3) div 4);
     st \<leftarrow> io_read i n st;
     ws \<leftarrow> mem_words i n st;
     k \<leftarrow> mem_words key 8 st;
     Some (keccak256 (take (unat len) (le_words ws)) = le_words k, st) }"

section \<open>The entries of the code store\<close>

definition mark_entry :: "u32 \<Rightarrow> u32 list \<Rightarrow> u32 list option" where
  "mark_entry off bits = do {
     b \<leftarrow> Checked_Reads.at bits (unat (drop_bit 8 off));
     Some (bits[unat (drop_bit 8 off) := b OR push_bit (unat (drop_bit 3 off AND 31)) 1]) }"

text \<open>The payload of an entry: hashed if it is long and there is a bit for it, and the words up to the next entry.\<close>

definition read_payload :: "(bytes \<Rightarrow> bytes32) \<Rightarrow> nat \<Rightarrow> u32 \<Rightarrow> u32 \<Rightarrow> u32 \<Rightarrow> u32 \<Rightarrow> u32 list \<Rightarrow> stream \<Rightarrow> (u32 list \<times> stream) option" where
  "read_payload keccak256 e off len padded n_bits bits st =
     (if len > 32 \<and> drop_bit 3 off < n_bits
      then do {
        (ok, st) \<leftarrow> io_verify keccak256 (e + 10) len (e + 2) st;
        bits \<leftarrow> (if ok then mark_entry off bits else Some bits);
        st \<leftarrow> io_read (e + 10 + unat ((len + 3) div 4)) (unat (padded div 4 - (len + 3) div 4)) st;
        Some (bits, st) }
      else do {
        st \<leftarrow> io_read (e + 10) (unat (padded div 4)) st;
        Some (bits, st) })"

lemma entry_progress:
  assumes "40 \<le> data_size - (off :: u32)" "\<not> data_size - off - 40 < padded"
  shows "unat (data_size - (off + (40 + padded))) + 40 + unat padded = unat (data_size - off)"
proof -
  have "unat (data_size - off - 40) = unat (data_size - off) - 40" "unat (data_size - off - 40 - padded) = unat (data_size - off - 40) - unat padded"
    using assms by (simp_all add: unat_sub not_less)
  moreover have "unat padded \<le> unat (data_size - off - 40)" "40 \<le> unat (data_size - off)"
    using assms by (simp_all add: word_le_nat_alt not_less)
  ultimately show ?thesis
    by (simp add: diff_diff_eq add.assoc)
qed

function read_entries :: "(bytes \<Rightarrow> bytes32) \<Rightarrow> nat \<Rightarrow> u32 \<Rightarrow> u32 \<Rightarrow> u32 \<Rightarrow> u32 list \<Rightarrow> stream \<Rightarrow> (u32 \<times> u32 list \<times> stream) option" where
  "read_entries keccak256 dst data_size n_bits off bits st =
     (if data_size - off \<ge> 40 then
        let e = dst + unat (off div 4) in
        do {
          (lo, st) \<leftarrow> io_word st;
          (hi, st) \<leftarrow> io_word st;
          st \<leftarrow> store_word e lo st;
          st \<leftarrow> store_word (e + 1) hi st;
          st \<leftarrow> io_read (e + 2) 8 st;
          let room = data_size - off - 40;
          let len = lo - 32;
          let padded = (len + 7) AND NOT 7;
          if hi \<noteq> 0 \<or> lo < 32 then Some (off + 40, bits, st)
          else if padded > room then Some (off + 40, bits, st)
          else do {
            (bits, st) \<leftarrow> read_payload keccak256 e off len padded n_bits bits st;
            read_entries keccak256 dst data_size n_bits (off + (40 + padded)) bits st } }
      else Some (off, bits, st))"
  by pat_completeness auto

termination
proof (relation "measure (\<lambda>(H, dst, data_size, n_bits, off, bits, st). unat (data_size - off))", goal_cases)
  case (2 H dst data_size n_bits off bits st e a lo st1 b hi st2 c d f room len padded)
  then show ?case
    using entry_progress [OF 2(1), of padded] by simp
qed simp_all

declare read_entries.simps [simp del]

definition read_code_store :: "(bytes \<Rightarrow> bytes32) \<Rightarrow> nat \<Rightarrow> u32 \<Rightarrow> u32 \<Rightarrow> u32 list \<Rightarrow> stream \<Rightarrow> (u32 \<times> u32 list \<times> stream) option" where
  "read_code_store keccak256 dst data_size n_bits bits st =
     (if data_size < 8 then Some (0, bits, st)
      else do {
        st \<leftarrow> io_read dst 2 st;
        read_entries keccak256 dst data_size n_bits 8 bits st })"

section \<open>The input\<close>

definition kInputMagicMFBD :: u32 where "kInputMagicMFBD = 0x4442464D"
definition kInputVersionMFBD :: u32 where "kInputVersionMFBD = 1"
definition kFlatBundleMagic :: u32 where "kFlatBundleMagic = 0x444E4246"
definition kFlatBundleVersion :: u32 where "kFlatBundleVersion = 14"
definition kEnvelopeSize :: nat where "kEnvelopeSize = 16"
definition kBundleHeaderEnd :: nat where "kBundleHeaderEnd = kEnvelopeSize + 56"
definition kMphfHeaderSize :: nat where "kMphfHeaderSize = 56"

lemmas stream_sizes = kEnvelopeSize_def kBundleHeaderEnd_def kMphfHeaderSize_def sizeof_PreStateMeta_def

definition read_to :: "nat \<Rightarrow> nat \<Rightarrow> stream \<Rightarrow> (nat \<times> stream) option" where
  "read_to end_bytes pos st = do {
     st \<leftarrow> (if end_bytes div 4 > pos then io_read pos (end_bytes div 4 - pos) st else Some st);
     Some (end_bytes div 4, st) }"

text \<open>
  The headers down to the code store's: where its data section lies in the input and its size, if they are the headers of one
  bundle of the known layout. The words read so far go with it.
\<close>

definition code_header :: "nat \<Rightarrow> nat \<Rightarrow> nat \<Rightarrow> nat \<Rightarrow> stream \<Rightarrow> ((nat \<times> u32) option \<times> nat \<times> stream) option" where
  "code_header limit store code_store_size pos st =
     (if store + kMphfHeaderSize > limit then Some (None, pos, st)
      else do {
        (pos, st) \<leftarrow> read_to (store + kMphfHeaderSize) pos st;
        data_off \<leftarrow> word_at st (store + 48);
        data_size \<leftarrow> word_at st (store + 52);
        magic \<leftarrow> word_at st store;
        version \<leftarrow> word_at st (store + 4);
        n_keys \<leftarrow> word_at st (store + 8);
        if magic \<noteq> kMphfCodeStoreMagic \<or> version \<noteq> kMphfMapVersion \<or> n_keys = 0 \<or> unat data_off mod 8 \<noteq> 0 \<or> unat data_off < kMphfHeaderSize \<or>
           unat data_off + unat data_size > code_store_size \<or> store + unat data_off + unat data_size > limit
        then Some (None, pos, st)
        else do {
          (pos, st) \<leftarrow> read_to (store + unat data_off) pos st;
          Some (Some (store + unat data_off, data_size), pos, st) } })"

definition pre_state_header :: "nat \<Rightarrow> nat \<Rightarrow> nat \<Rightarrow> stream \<Rightarrow> ((nat \<times> u32) option \<times> nat \<times> stream) option" where
  "pre_state_header limit meta pos st =
     (if meta + sizeof_PreStateMeta > limit then Some (None, pos, st)
      else do {
        (pos, st) \<leftarrow> read_to (meta + sizeof_PreStateMeta) pos st;
        code_store_off \<leftarrow> word_at st (meta + 28);
        code_store_size \<leftarrow> word_at st (meta + 32);
        magic \<leftarrow> word_at st meta;
        version \<leftarrow> word_at st (meta + 4);
        if magic \<noteq> kMagic \<or> version \<noteq> kVersion \<or> unat code_store_off mod 8 \<noteq> 0 \<or> unat code_store_off < sizeof_PreStateMeta \<or>
           unat code_store_size < kMphfHeaderSize
        then Some (None, pos, st)
        else code_header limit (meta + unat code_store_off) (unat code_store_size) pos st })"

definition bundle_header :: "nat \<Rightarrow> stream \<Rightarrow> ((nat \<times> u32) option \<times> nat \<times> stream) option" where
  "bundle_header limit st =
     (if limit < kBundleHeaderEnd then Some (None, 0, st)
      else do {
        (pos, st) \<leftarrow> read_to kBundleHeaderEnd 0 st;
        direct_state_off \<leftarrow> word_at st (kEnvelopeSize + 32);
        input_magic \<leftarrow> word_at st 0;
        input_version \<leftarrow> word_at st 4;
        n_bundles \<leftarrow> word_at st 8;
        reserved \<leftarrow> word_at st 12;
        magic \<leftarrow> word_at st kEnvelopeSize;
        version \<leftarrow> word_at st (kEnvelopeSize + 4);
        if input_magic \<noteq> kInputMagicMFBD \<or> input_version \<noteq> kInputVersionMFBD \<or> n_bundles \<noteq> 1 \<or> reserved \<noteq> 0 \<or>
           magic \<noteq> kFlatBundleMagic \<or> version \<noteq> kFlatBundleVersion \<or> unat direct_state_off mod 8 \<noteq> 0 \<or> unat direct_state_off < 56
        then Some (None, pos, st)
        else pre_state_header limit (kEnvelopeSize + unat direct_state_off) pos st })"

text \<open>\<open>CodeStoreVerified\<close> as the reader leaves it: the place of the data section in the input in place of a pointer to it.\<close>

record handshake =
  hs_data :: nat
  hs_size :: u32
  hs_bits :: "u32 list"
  hs_n_bits :: u32

definition read_input_words :: "(bytes \<Rightarrow> bytes32) \<Rightarrow> nat \<Rightarrow> handshake \<Rightarrow> u32 list \<Rightarrow> u32 \<Rightarrow> stream \<Rightarrow> (handshake \<times> stream) option" where
  "read_input_words keccak256 full_words hs bits n_bits st = do {
     let limit = full_words * 4;
     (r, pos, st) \<leftarrow> bundle_header limit st;
     case r of
       None \<Rightarrow> do { (pos, st) \<leftarrow> read_to limit pos st; Some (hs, st) }
     | Some (data, data_size) \<Rightarrow> do {
         (n, bits, st) \<leftarrow> read_code_store keccak256 (data div 4) data_size n_bits bits st;
         (pos, st) \<leftarrow> read_to limit (pos + unat (n div 4)) st;
         Some (if data_size \<ge> 8 then \<lparr>hs_data = data, hs_size = data_size, hs_bits = bits, hs_n_bits = n_bits\<rparr> else hs, st) } }"

text \<open>
  \<open>read_input_from_csr\<close>: the first word is the size of the input in bytes, the words of it follow, and the bytes of the last one are taken
  if the size is not a multiple of four.
\<close>

fun store_tail :: "nat \<Rightarrow> u32 \<Rightarrow> bytes" where
  "store_tail 0 w = []"
| "store_tail (Suc n) w = ucast (w AND 0xFF) # store_tail n (drop_bit 8 w)"

definition read_input_from_csr :: "(bytes \<Rightarrow> bytes32) \<Rightarrow> handshake \<Rightarrow> u32 list \<Rightarrow> u32 \<Rightarrow> u32 list \<Rightarrow> (bytes \<times> handshake) option" where
  "read_input_from_csr keccak256 hs bits n_bits words = (case words of [] \<Rightarrow> None | num_bytes # rest \<Rightarrow>
     do {
       let full_words = unat num_bytes div 4;
       (hs, st) \<leftarrow> read_input_words keccak256 full_words hs bits n_bits \<lparr>st_input = rest, st_mem = replicate full_words 0\<rparr>;
       let written = full_words * 4;
       tail \<leftarrow> (if written < unat num_bytes then map_option (store_tail (unat num_bytes - written) \<circ> fst) (io_word st) else Some []);
       Some (le_words (st_mem st) @ tail, hs) })"


section \<open>The memory is the input\<close>

text \<open>The stream when the first \<open>p\<close> words of the input \<open>W\<close> are in the memory, which was \<open>D\<close>.\<close>

definition stream_at :: "u32 list \<Rightarrow> u32 list \<Rightarrow> nat \<Rightarrow> stream" where
  "stream_at W D p = \<lparr>st_input = drop p W, st_mem = take p W @ drop p D\<rparr>"

lemma io_word_at: "p < length W \<Longrightarrow> io_word \<lparr>st_input = drop p W, st_mem = m\<rparr> = Some (W ! p, \<lparr>st_input = drop (Suc p) W, st_mem = m\<rparr>)"
  by (simp add: io_word_def Cons_nth_drop_Suc [symmetric])

lemma store_word_at:
  assumes "p < length W" "p < length D"
  shows "store_word p (W ! p) \<lparr>st_input = ws, st_mem = take p W @ drop p D\<rparr> = Some \<lparr>st_input = ws, st_mem = take (Suc p) W @ drop (Suc p) D\<rparr>"
  using assms by (simp add: store_word_def list_update_append take_Suc_conv_app_nth Cons_nth_drop_Suc [symmetric])

lemma io_read_at:
  assumes "p + n \<le> length W" "p + n \<le> length D"
  shows "io_read p n (stream_at W D p) = Some (stream_at W D (p + n))"
  using assms
proof (induction n arbitrary: p)
  case (Suc n)
  then show ?case
    using Suc.IH [of "Suc p"] by (simp add: stream_at_def io_word_at store_word_at)
qed simp

lemma two_words_at:
  assumes "p + 2 \<le> length W" "p + 2 \<le> length D"
  shows "do { (lo, st) \<leftarrow> io_word (stream_at W D p); (hi, st) \<leftarrow> io_word st; st \<leftarrow> store_word p lo st; st \<leftarrow> store_word (p + 1) hi st; f lo hi st } =
    f (W ! p) (W ! Suc p) (stream_at W D (p + 2))"
  using assms store_word_at [of "Suc p" W D] by (simp add: stream_at_def io_word_at store_word_at)

lemma mem_words_at: "i + n \<le> p \<Longrightarrow> p \<le> length W \<Longrightarrow> p \<le> length D \<Longrightarrow> mem_words i n (stream_at W D p) = Some (take n (drop i W))"
  by (auto simp: mem_words_def stream_at_def drop_take min_def)

lemma word_at_at: "b div 4 < p \<Longrightarrow> p \<le> length W \<Longrightarrow> p \<le> length D \<Longrightarrow> word_at (stream_at W D p) b = Some (W ! (b div 4))"
  by (simp add: word_at_def stream_at_def Checked_Reads.at_def nth_append)

lemma read_to_at:
  assumes "p \<le> e div 4" "e div 4 \<le> length W" "e div 4 \<le> length D"
  shows "read_to e p (stream_at W D p) = Some (e div 4, stream_at W D (e div 4))"
  using assms io_read_at [of p "e div 4 - p" W D] by (auto simp: read_to_def)

lemma io_verify_at:
  assumes "p + unat ((len + 3) div 4) \<le> length W" "p + unat ((len + 3) div 4) \<le> length D" "key + 8 \<le> p"
  shows "io_verify H p len key (stream_at W D p) =
    Some (H (take (unat len) (le_words (take (unat ((len + 3) div 4)) (drop p W)))) = le_words (take 8 (drop key W)), stream_at W D (p + unat ((len + 3) div 4)))"
  using assms by (simp add: io_verify_def io_read_at mem_words_at Let_def)

section \<open>The marks\<close>

lemma drop_le_words: "drop (4 * n) (le_words (W :: u32 list)) = le_words (drop n W)"
proof (induction n arbitrary: W)
  case (Suc n)
  then show ?case
    by (cases W) (simp_all add: le_words_def)
qed simp

lemma take_le_words: "take (4 * n) (le_words (W :: u32 list)) = le_words (take n W)"
proof (induction n arbitrary: W)
  case (Suc n)
  then show ?case
    by (cases W) (simp_all add: le_words_def)
qed (simp add: le_words_def)

text \<open>The data section, at word \<open>dst\<close> of the input, and what a mark for an entry of it stands for.\<close>

definition section_bytes :: "u32 list \<Rightarrow> nat \<Rightarrow> u32 \<Rightarrow> bytes" where
  "section_bytes W dst data_size = take (unat data_size) (drop (4 * dst) (le_words W))"

definition entry_right :: "(bytes \<Rightarrow> bytes32) \<Rightarrow> bytes \<Rightarrow> nat \<Rightarrow> bool" where
  "entry_right H data off \<longleftrightarrow> (\<forall>body. body_at data off = Some body \<longrightarrow> H (drop kPayloadOffset body) = take 32 body)"

definition marked :: "u32 list \<Rightarrow> nat \<Rightarrow> bool" where
  "marked bits k \<longleftrightarrow> k div 32 < length bits \<and> bit (bits ! (k div 32)) (k mod 32)"

lemma marked_mark_entry:
  assumes "unat off div 256 < length bits"
  shows "\<exists>bits'. mark_entry off bits = Some bits' \<and> length bits' = length bits \<and> (\<forall>k. marked bits' k \<longleftrightarrow> marked bits k \<or> k = unat off div 8)"
proof -
  have i: "unat (drop_bit 8 off) = unat off div 256" "unat (drop_bit 3 off AND 31) = unat off div 8 mod 32"
    using unat_drop_bit_div [of 8 off] unat_drop_bit_div [of 3 off] unat_and_mask [of "drop_bit 3 off" 5]
    by (simp_all add: mask_eq_exp_minus_1)
  define j where "j = unat off div 8"
  have j: "unat off div 256 = j div 32"
    by (simp add: j_def div_mult2_eq [symmetric])
  have "bit (push_bit (j mod 32) (1 :: u32)) n \<longleftrightarrow> n = j mod 32" if "n < 32" for n
    using that by (simp add: push_bit_of_1 bit_exp_iff)
  then have "marked (bits[j div 32 := (bits ! (j div 32)) OR push_bit (j mod 32) 1]) k \<longleftrightarrow> marked bits k \<or> k = j" for k
    using assms div_mult_mod_eq [of k 32] div_mult_mod_eq [of j 32] unfolding j
    by (cases "k div 32 = j div 32") (auto simp: marked_def nth_list_update bit_or_iff)
  then show ?thesis
    using assms by (simp add: mark_entry_def i at_in_range j flip: j_def)
qed

text \<open>The length and the bytes of an entry whose header is read.\<close>

lemma entry_bytes:
  assumes "off mod 8 = 0" "off + 40 \<le> unat data_size" "4 * dst + unat data_size \<le> 4 * length W" "W ! Suc (dst + off div 4) = 0" "32 \<le> unat (W ! (dst + off div 4))"
    "body_at (section_bytes W dst data_size) off = Some body"
  shows "take 32 body = le_words (take 8 (drop (dst + off div 4 + 2) W))"
    "drop 32 body = take (unat (W ! (dst + off div 4)) - 32) (le_words (drop (dst + off div 4 + 10) W))"
proof -
  let ?p = "dst + off div 4" and ?D = "section_bytes W dst data_size"
  define lo where "lo = W ! ?p"
  have off: "4 * ?p = 4 * dst + off" "4 * (?p + 2) = 4 * dst + off + 8" "4 * (?p + 10) = 4 * dst + off + 40"
    using assms(1) by presburger+
  have tail: "drop k ?D = take (unat data_size - k) (drop (4 * dst + k) (le_words W))" for k
    by (simp add: section_bytes_def drop_take add.commute)
  have l: "length ?D = unat data_size"
    using assms(3) by (simp add: section_bytes_def length_le_words)
  have "?p + 10 \<le> length W"
    using assms(2,3) off(1) by simp
  then have "drop ?p W = lo # 0 # drop (?p + 2) W"
    using assms(4) by (simp add: lo_def Cons_nth_drop_Suc [of ?p W, symmetric] Cons_nth_drop_Suc [of "Suc ?p" W, symmetric])
  then have "drop off ?D = take (unat data_size - off) (rev (store_big lo) @ rev (store_big (0 :: u32)) @ le_words (drop (?p + 2) W))"
    unfolding tail off(1) [symmetric] drop_le_words by (simp add: le_words_def)
  then have "take 8 (drop off ?D) = rev (store_big lo) @ rev (store_big (0 :: u32))"
    using assms(2) by (simp add: min_def)
  then have "le_nat (take 8 (drop off ?D)) = unat lo"
    by (simp add: le_nat_eq_be_nat_rev be_nat_append be_nat_store_big)
  then have "\<exists>len. read_word ?D off = Some (len :: u64) \<and> unat len = unat lo"
    using assms(2) l unat_load_little_u64 [of "drop off ?D"] by (simp add: read_word_def read_bytes_def load_little_def)
  then have body: "off + 8 + unat lo \<le> unat data_size" "body = take (unat lo) (drop (off + 8) ?D)"
    using assms(6) l by (auto simp: body_at_def read_bytes_eq_Some)
  have "drop (4 * dst + (off + 8)) (le_words W) = le_words (drop (?p + 2) W)"
    using drop_le_words [of "?p + 2" W] off(2) by (simp only: add.assoc)
  then have "body = take (unat lo) (le_words (drop (?p + 2) W))"
    using body(1) by (auto simp: body(2) tail min_def)
  then show "take 32 body = le_words (take 8 (drop (?p + 2) W))"
    "drop 32 body = take (unat (W ! ?p) - 32) (le_words (drop (?p + 10) W))"
    using assms(5) take_le_words [of 8 "drop (?p + 2) W"] drop_le_words [of 8 "drop (?p + 2) W"]
    by (simp_all add: drop_take add.commute del: add_2_eq_Suc' add_2_eq_Suc flip: lo_def)
qed

text \<open>The padded length of a payload.\<close>

lemma padded_length:
  assumes "unat len + 7 < 2 ^ 32"
  shows "unat ((len + 7) AND NOT 7 :: u32) = (unat len + 7) div 8 * 8" "unat ((len + 3) div 4) = (unat len + 3) div 4"
    "unat (((len + 7) AND NOT 7) div 4) = (unat len + 7) div 8 * 2"
proof -
  show p: "unat ((len + 7) AND NOT 7 :: u32) = (unat len + 7) div 8 * 8"
    using mphf_align8_nat [OF assms] by (simp add: mphf_align8_def)
  show "unat ((len + 3) div 4) = (unat len + 3) div 4"
    using assms by (simp add: unat_div unat_word_ariths)
  show "unat (((len + 7) AND NOT 7) div 4) = (unat len + 7) div 8 * 2"
    unfolding unat_div p by simp
qed

text \<open>One entry, and the rest of them.\<close>

lemma read_payload_at:
  assumes "e + 10 + unat (padded div 4) \<le> length W" "e + 10 + unat (padded div 4) \<le> length D" "unat ((len + 3) div 4) \<le> unat (padded div 4)"
    "unat n_bits \<le> 32 * length bits"
  shows "\<exists>bits'. read_payload H e off len padded n_bits bits (stream_at W D (e + 10)) = Some (bits', stream_at W D (e + 10 + unat (padded div 4))) \<and>
    length bits' = length bits \<and>
    (\<forall>k. marked bits' k \<longrightarrow> marked bits k \<or> k = unat off div 8 \<and>
       H (take (unat len) (le_words (take (unat ((len + 3) div 4)) (drop (e + 10) W)))) = le_words (take 8 (drop (e + 2) W)))"
proof (cases "len > 32 \<and> drop_bit 3 off < n_bits")
  case True
  let ?n = "unat ((len + 3) div 4)" and ?m = "unat (padded div 4)"
  let ?ok = "H (take (unat len) (le_words (take ?n (drop (e + 10) W)))) = le_words (take 8 (drop (e + 2) W))"
  have "unat off div 8 < 32 * length bits"
    using True assms(4) unat_drop_bit_div [of 3 off] by (simp add: word_less_nat_alt)
  then have "unat off div 256 < length bits"
    by (simp add: div_mult2_eq [symmetric] less_mult_imp_div_less mult.commute)
  then obtain bits' where b: "(if ?ok then mark_entry off bits else Some bits) = Some bits'" "length bits' = length bits"
    "\<forall>k. marked bits' k \<longrightarrow> marked bits k \<or> k = unat off div 8 \<and> ?ok"
    using marked_mark_entry [of off bits] by (cases ?ok) auto
  have v: "io_verify H (e + 10) len (e + 2) (stream_at W D (e + 10)) = Some (?ok, stream_at W D (e + 10 + ?n))"
    using assms(1-3) by (intro io_verify_at) auto
  have "unat (padded div 4 - (len + 3) div 4) = ?m - ?n"
    using assms(3) by (simp add: unat_sub word_le_nat_alt)
  then have "io_read (e + 10 + ?n) (unat (padded div 4 - (len + 3) div 4)) (stream_at W D (e + 10 + ?n)) = Some (stream_at W D (e + 10 + ?m))"
    using io_read_at [of "e + 10 + ?n" "?m - ?n" W D] assms(1-3) by (simp add: add.assoc)
  then show ?thesis
    using True v b by (simp add: read_payload_def)
next
  case False
  then show ?thesis
    using io_read_at [of "e + 10" "unat (padded div 4)" W D] assms(1,2) by (auto simp: read_payload_def)
qed


lemma read_entries_step:
  assumes "data_size - off \<ge> 40" "e = dst + unat off div 4" "e + 10 \<le> length W" "e + 10 \<le> length D" "padded = (W ! e - 32 + 7) AND NOT 7"
  shows "read_entries H dst data_size n_bits off bits (stream_at W D e) =
    (if W ! Suc e \<noteq> 0 \<or> W ! e < 32 \<or> padded > data_size - off - 40 then Some (off + 40, bits, stream_at W D (e + 10))
     else do { (bits, st) \<leftarrow> read_payload H e off (W ! e - 32) padded n_bits bits (stream_at W D (e + 10));
               read_entries H dst data_size n_bits (off + (40 + padded)) bits st })"
proof -
  have e: "dst + unat (off div 4) = e"
    by (simp add: unat_div assms(2))
  have r: "io_read (e + 2) 8 (stream_at W D (e + 2)) = Some (stream_at W D (e + 10))"
    using io_read_at [of "e + 2" 8 W D] assms(3,4) by (simp add: add.commute)
  have l: "e + 2 \<le> length W" "e + 2 \<le> length D"
    using assms(3,4) by simp_all
  show ?thesis
    by (subst read_entries.simps, simp only: e Let_def assms(1) if_True two_words_at [OF l] r bind.bind_lunit assms(5) [symmetric]) auto
qed

lemma read_entries_at:
  assumes "unat off mod 8 = 0" "unat off \<le> unat data_size" "4 * dst + unat data_size \<le> 4 * length W" "4 * dst + unat data_size \<le> 4 * length D"
    "unat n_bits \<le> 32 * length bits" "\<forall>k. marked bits k \<longrightarrow> entry_right H (section_bytes W dst data_size) (8 * k)"
  shows "\<exists>off' bits'. read_entries H dst data_size n_bits off bits (stream_at W D (dst + unat off div 4)) = Some (off', bits', stream_at W D (dst + unat off' div 4)) \<and>
    unat off' \<le> unat data_size \<and> length bits' = length bits \<and> (\<forall>k. marked bits' k \<longrightarrow> entry_right H (section_bytes W dst data_size) (8 * k))"
  using assms
proof (induction "unat (data_size - off)" arbitrary: off bits rule: less_induct)
  case less
  define e where "e = dst + unat off div 4"
  have u32: "unat data_size < 2 ^ 32" "unat (W ! e) < 2 ^ 32"
    using unsigned_less [where 'a = nat, of data_size] unsigned_less [where 'a = nat, of "W ! e"] by simp_all
  have le: "off \<le> data_size"
    using less.prems(2) by (simp add: word_le_nat_alt)
  show ?case
  proof (cases "data_size - off \<ge> 40")
    case True
    have room: "unat (data_size - off) = unat data_size - unat off" "40 \<le> unat (data_size - off)"
      using le True by (simp_all add: unat_sub word_le_nat_alt)
    have in_range: "e + 10 \<le> length W" "e + 10 \<le> length D"
      using room less.prems(1-4) unfolding e_def by linarith+
    define lo padded where "lo = W ! e" and "padded = (W ! e - 32 + 7) AND NOT 7"
    note step = read_entries_step [OF True e_def in_range padded_def, of H n_bits bits]
    show ?thesis
    proof (cases "W ! Suc e \<noteq> 0 \<or> W ! e < 32 \<or> padded > data_size - off - 40")
      case stop: True
      have "unat (off + 40) = unat off + 40"
        using room u32 by (simp add: unat_word_ariths)
      moreover have "(unat off + 40) div 4 = unat off div 4 + 10"
        by presburger
      ultimately show ?thesis
        unfolding e_def [symmetric] step using stop room less.prems by (simp add: e_def add.assoc)
    next
      case False
      have lo: "32 \<le> unat lo" "unat (lo - 32) = unat lo - 32"
        using False by (simp_all add: lo_def not_less word_le_nat_alt unat_sub)
      have pad: "unat padded = (unat (lo - 32) + 7) div 8 * 8" "unat ((lo - 32 + 3) div 4) = (unat (lo - 32) + 3) div 4" "unat (padded div 4) = (unat (lo - 32) + 7) div 8 * 2"
        using padded_length [of "lo - 32"] lo u32 by (simp_all add: padded_def lo_def)
      have fits: "unat (data_size - (off + (40 + padded))) + 40 + unat padded = unat (data_size - off)"
        using False by (intro entry_progress [OF True]) simp
      have next_off: "unat (off + (40 + padded)) = unat off + 40 + unat padded"
        using fits room u32 by (simp add: unat_word_ariths)
      obtain bits' where b: "read_payload H e off (lo - 32) padded n_bits bits (stream_at W D (e + 10)) = Some (bits', stream_at W D (e + 10 + unat (padded div 4)))"
        "length bits' = length bits"
        "\<forall>k. marked bits' k \<longrightarrow> marked bits k \<or> k = unat off div 8 \<and>
           H (take (unat (lo - 32)) (le_words (take (unat ((lo - 32 + 3) div 4)) (drop (e + 10) W)))) = le_words (take 8 (drop (e + 2) W))"
        using read_payload_at [of e padded W D "lo - 32" n_bits bits H off] in_range fits room less.prems(1-5) pad unfolding e_def by force
      have pos: "e + 10 + unat (padded div 4) = dst + unat (off + (40 + padded)) div 4"
        using less.prems(1) unfolding next_off e_def pad by presburger
      have right: "entry_right H (section_bytes W dst data_size) (8 * k)" if "marked bits' k" for k
      proof (cases "marked bits k")
        case False
        then have k: "8 * k = unat off" and
          h: "H (take (unat (lo - 32)) (le_words (take (unat ((lo - 32 + 3) div 4)) (drop (e + 10) W)))) = le_words (take 8 (drop (e + 2) W))"
          using b(3) that less.prems(1) by auto
        have "unat (lo - 32) \<le> 4 * unat ((lo - 32 + 3) div 4)"
          unfolding pad by linarith
        then have "take (unat (lo - 32)) (le_words (take (unat ((lo - 32 + 3) div 4)) (drop (e + 10) W))) = take (unat lo - 32) (le_words (drop (e + 10) W))"
          using lo by (simp add: take_le_words [symmetric] min_def)
        then show ?thesis
          using h entry_bytes [of "unat off" data_size dst W] \<open>\<not> (W ! Suc e \<noteq> 0 \<or> W ! e < 32 \<or> padded > data_size - off - 40)\<close> room less.prems(1,3) lo(1)
          unfolding k entry_right_def kPayloadOffset_def by (simp add: lo_def e_def)
      qed (use less.prems(6) in blast)
      have "\<exists>off' bits''. read_entries H dst data_size n_bits (off + (40 + padded)) bits' (stream_at W D (dst + unat (off + (40 + padded)) div 4)) =
          Some (off', bits'', stream_at W D (dst + unat off' div 4)) \<and> unat off' \<le> unat data_size \<and> length bits'' = length bits' \<and>
          (\<forall>k. marked bits'' k \<longrightarrow> entry_right H (section_bytes W dst data_size) (8 * k))"
        using fits room less.prems(1-5) b(2) right pad(1) by (intro less.hyps) (auto simp: next_off)
      then show ?thesis
        unfolding e_def [symmetric] step using False b(1,2) by (auto simp: pos lo_def)
    qed
  next
    case False
    then show ?thesis
      using less.prems by (simp add: read_entries.simps)
  qed
qed


lemma read_code_store_at:
  assumes "4 * dst + unat data_size \<le> 4 * length W" "4 * dst + unat data_size \<le> 4 * length D" "unat n_bits \<le> 32 * length bits" "\<forall>k. \<not> marked bits k"
  shows "\<exists>n bits'. read_code_store H dst data_size n_bits bits (stream_at W D dst) = Some (n, bits', stream_at W D (dst + unat n div 4)) \<and>
    unat n \<le> unat data_size \<and> (\<forall>k. marked bits' k \<longrightarrow> entry_right H (section_bytes W dst data_size) (8 * k))"
proof (cases "data_size < 8")
  case True
  then show ?thesis
    using assms(4) by (simp add: read_code_store_def)
next
  case False
  then have "8 \<le> unat data_size"
    by (simp add: not_less word_le_nat_alt)
  moreover have "io_read dst 2 (stream_at W D dst) = Some (stream_at W D (dst + 2))"
    using calculation assms(1,2) by (intro io_read_at) auto
  ultimately show ?thesis
    using False read_entries_at [of 8 data_size dst W D n_bits bits H] assms by (auto simp: read_code_store_def)
qed

section \<open>The headers\<close>

text \<open>After the headers the stream has read its words up to a position, which is that of the data section if there is one.\<close>

definition found_section :: "nat \<Rightarrow> u32 list \<Rightarrow> u32 list \<Rightarrow> ((nat \<times> u32) option \<times> nat \<times> stream) option \<Rightarrow> bool" where
  "found_section limit W D r \<longleftrightarrow> (\<exists>sec pos. r = Some (sec, pos, stream_at W D pos) \<and> 4 * pos \<le> limit \<and>
     (\<forall>data data_size. sec = Some (data, data_size) \<longrightarrow> data = 4 * pos \<and> data + unat data_size \<le> limit))"

lemma found_none: "4 * pos \<le> limit \<Longrightarrow> found_section limit W D (Some (None, pos, stream_at W D pos))"
  by (simp add: found_section_def)

lemma aligned_sum: "a mod 4 = 0 \<Longrightarrow> b mod 8 = 0 \<Longrightarrow> 4 * ((a + b) div 4) = (a + b :: nat)" "a mod 4 = 0 \<Longrightarrow> b mod 8 = 0 \<Longrightarrow> (a + b) mod 4 = (0 :: nat)"
  by presburger+

lemma code_header_at:
  assumes "limit \<le> 4 * length W" "limit \<le> 4 * length D" "4 * pos \<le> limit" "4 * pos \<le> store" "store mod 4 = 0"
  shows "found_section limit W D (code_header limit store code_store_size pos (stream_at W D pos))"
proof (cases "store + 56 > limit")
  case True
  then show ?thesis
    using assms by (simp add: code_header_def stream_sizes found_none)
next
  case False
  let ?p = "(store + 56) div 4"
  obtain q where q: "store = 4 * q"
    using assms(5) by (auto elim: dvdE)
  have r: "read_to (store + 56) pos (stream_at W D pos) = Some (?p, stream_at W D ?p)"
    using assms False by (intro read_to_at) auto
  have w: "word_at (stream_at W D ?p) (store + k) = Some (W ! ((store + k) div 4))" if "k < 56" for k
    using that assms False unfolding q by (intro word_at_at) auto
  let ?off = "unat (W ! ((store + 48) div 4))" and ?size = "W ! ((store + 52) div 4)"
  show ?thesis
  proof (cases "W ! (store div 4) \<noteq> kMphfCodeStoreMagic \<or> W ! ((store + 4) div 4) \<noteq> kMphfMapVersion \<or> W ! ((store + 8) div 4) = 0 \<or> ?off mod 8 \<noteq> 0 \<or> ?off < 56 \<or>
      ?off + unat ?size > code_store_size \<or> store + ?off + unat ?size > limit")
    case True
    then show ?thesis
      using assms False w [of 0] w [of 4] w [of 8] w [of 48] w [of 52]
      by (auto simp: code_header_def stream_sizes r found_section_def)
  next
    case ok: False
    then have "read_to (store + ?off) ?p (stream_at W D ?p) = Some ((store + ?off) div 4, stream_at W D ((store + ?off) div 4))"
      using assms by (intro read_to_at) auto
    moreover have "4 * ((store + ?off) div 4) = store + ?off"
      using ok by (intro aligned_sum assms(5)) simp
    ultimately show ?thesis
      using ok False w [of 0] w [of 4] w [of 8] w [of 48] w [of 52]
      by (simp add: code_header_def stream_sizes r found_section_def)
  qed
qed

lemma pre_state_header_at:
  assumes "limit \<le> 4 * length W" "limit \<le> 4 * length D" "4 * pos \<le> limit" "4 * pos \<le> meta" "meta mod 4 = 0"
  shows "found_section limit W D (pre_state_header limit meta pos (stream_at W D pos))"
proof (cases "meta + 68 > limit")
  case True
  then show ?thesis
    using assms by (simp add: pre_state_header_def stream_sizes found_none)
next
  case False
  let ?p = "(meta + 68) div 4"
  obtain q where q: "meta = 4 * q"
    using assms(5) by (auto elim: dvdE)
  have r: "read_to (meta + 68) pos (stream_at W D pos) = Some (?p, stream_at W D ?p)"
    using assms False by (intro read_to_at) auto
  have w: "word_at (stream_at W D ?p) (meta + k) = Some (W ! ((meta + k) div 4))" if "k < 68" for k
    using that assms False unfolding q by (intro word_at_at) auto
  let ?off = "unat (W ! ((meta + 28) div 4))" and ?size = "unat (W ! ((meta + 32) div 4))"
  have "found_section limit W D (code_header limit (meta + ?off) ?size ?p (stream_at W D ?p))" if "?off mod 8 = 0" "68 \<le> ?off"
    using that assms False by (intro code_header_at aligned_sum) auto
  moreover have "found_section limit W D (Some (None, ?p, stream_at W D ?p))"
    using False by (intro found_none) auto
  ultimately show ?thesis
    using False w [of 0] w [of 4] w [of 28] w [of 32] by (simp add: pre_state_header_def stream_sizes r)
qed

lemma bundle_header_at:
  assumes "limit \<le> 4 * length W" "limit \<le> 4 * length D"
  shows "found_section limit W D (bundle_header limit (stream_at W D 0))"
proof (cases "limit < 72")
  case True
  then show ?thesis
    by (simp add: bundle_header_def stream_sizes found_none)
next
  case False
  have r: "read_to 72 0 (stream_at W D 0) = Some (18, stream_at W D 18)"
    using assms False read_to_at [of 0 72 W D] by simp
  have w: "word_at (stream_at W D 18) b = Some (W ! (b div 4))" if "b < 72" for b
    using that assms False by (intro word_at_at) auto
  let ?off = "unat (W ! 12)"
  have "found_section limit W D (pre_state_header limit (16 + ?off) 18 (stream_at W D 18))" if "?off mod 8 = 0" "56 \<le> ?off"
    using that assms False by (intro pre_state_header_at aligned_sum) auto
  moreover have "found_section limit W D (Some (None, 18, stream_at W D 18))"
    using False by (intro found_none) auto
  ultimately show ?thesis
    using False by (simp add: bundle_header_def stream_sizes r w)
qed

section \<open>Properties\<close>

text \<open>The marks of a handshake, for the section it names.\<close>

definition marks_of :: "handshake \<Rightarrow> code_store_verified" where
  "marks_of hs = \<lparr>cv_here = True, cv_bits = hs_bits hs, cv_n_bits = unat (hs_n_bits hs)\<rparr>"

definition names_section :: "handshake \<Rightarrow> bytes \<Rightarrow> witness \<Rightarrow> bool" where
  "names_section hs input w \<longleftrightarrow> wt_code_data w = take (unat (hs_size hs)) (drop (hs_data hs) input)"

lemma marks_of_right:
  assumes "\<forall>k. marked bits k \<longrightarrow> entry_right H (section_bytes W (data div 4) data_size) (8 * k)" "data mod 4 = 0" "hs = \<lparr>hs_data = data, hs_size = data_size, hs_bits = bits, hs_n_bits = n\<rparr>"
    "names_section hs (le_words W) w"
  shows "marks_right H (marks_of hs) w"
  unfolding marks_right_def
proof (intro ballI allI impI)
  fix off body assume off: "entry_verified (marks_of hs) off" "body_at (wt_code_data w) off = Some body"
  have "off = 8 * (off div 8)"
    using off(1) by (auto simp: entry_verified_def elim: dvdE)
  moreover have "marked bits (off div 8)"
    using off(1) by (auto simp: entry_verified_def marks_of_def assms(3) marked_def div_mult2_eq [symmetric] at_eq_Some split: option.splits)
  moreover have "wt_code_data w = section_bytes W (data div 4) data_size"
    using assms(2,4) by (auto simp: names_section_def assms(3) section_bytes_def elim!: dvdE)
  ultimately show "H (drop kPayloadOffset body) = take 32 body"
    using assms(1) off(2) unfolding entry_right_def by metis
qed

lemma store_tail_eq: "n \<le> k \<Longrightarrow> store_tail n w = take n (rev (be_bytes k (unat w)))"
proof (induction n arbitrary: k w)
  case (Suc n)
  then obtain k' where k: "k = Suc k'" "n \<le> k'"
    by (cases k) auto
  have "(ucast (w AND 0xFF) :: byte) = of_nat (unat w mod 256)"
    using unat_and_mask [of w 8] by (simp add: mask_eq_exp_minus_1 word_unat_eq_iff unat_of_nat unsigned_ucast_eq take_bit_eq_mod)
  moreover have "unat (drop_bit 8 w) = unat w div 256"
    using unat_drop_bit_div [of 8 w] by simp
  ultimately show ?case
    using Suc.IH [OF k(2), of "drop_bit 8 w"] by (simp add: k(1) del: unsigned_drop_bit_eq)
qed simp

lemma read_input_words_at:
  assumes "n \<le> length W" "n \<le> length D" "unat n_bits \<le> 32 * length bits" "\<forall>k. \<not> marked bits k"
  shows "\<exists>hs'. read_input_words H n hs bits n_bits (stream_at W D 0) = Some (hs', stream_at W D n) \<and>
    (hs' = hs \<or> hs_data hs' + unat (hs_size hs') \<le> 4 * n \<and> (\<forall>w. names_section hs' (le_words W) w \<longrightarrow> marks_right H (marks_of hs') w))"
proof -
  obtain sec pos where h: "bundle_header (n * 4) (stream_at W D 0) = Some (sec, pos, stream_at W D pos)" "pos \<le> n"
    "\<And>data data_size. sec = Some (data, data_size) \<Longrightarrow> data = 4 * pos \<and> data + unat data_size \<le> n * 4"
    using bundle_header_at [of "n * 4" W D] assms(1,2) by (auto simp: found_section_def)
  have rest: "read_to (n * 4) p (stream_at W D p) = Some (n, stream_at W D n)" if "p \<le> n" for p
    using read_to_at [of p "n * 4" W D] that assms(1,2) by simp
  show ?thesis
  proof (cases sec)
    case None
    then show ?thesis
      using h(1) rest [OF h(2)] by (simp add: read_input_words_def)
  next
    case (Some s)
    obtain data data_size where s: "sec = Some (data, data_size)"
      using Some by (cases s) auto
    note d = h(3) [OF s]
    obtain m bits' where b: "read_code_store H pos data_size n_bits bits (stream_at W D pos) = Some (m, bits', stream_at W D (pos + unat m div 4))"
      "unat m \<le> unat data_size" "\<forall>k. marked bits' k \<longrightarrow> entry_right H (section_bytes W pos data_size) (8 * k)"
      using read_code_store_at [of pos data_size W D n_bits bits H] assms d by auto
    let ?hs = "\<lparr>hs_data = data, hs_size = data_size, hs_bits = bits', hs_n_bits = n_bits\<rparr>"
    have "marks_right H (marks_of ?hs) w" if "names_section ?hs (le_words W) w" for w
      using that d b(3) by (intro marks_of_right [where W = W and hs = ?hs, OF _ _ refl]) auto
    moreover have "pos + unat m div 4 \<le> n"
      using b(2) d by linarith
    ultimately show ?thesis
      using h(1) s b(1) rest [of "pos + unat m div 4"] d by (simp add: read_input_words_def unat_div)
  qed
qed

text \<open>
  C20: The guest's input is read exactly, whether or not it is hashed on the way: the buffer has the bytes of the input words, up to the size that the first
  word gives, whatever the headers in them say. If the reader leaves marks, then on the section that they are for they are right: each marked entry has a payload
  that hashes to the key beside it, as \<open>sanitize\<close> relies on when it skips the entry.
\<close>

theorem read_input_exact:
  assumes "unat num_bytes \<le> 4 * length rest" "unat n_bits \<le> 32 * length bits" "set bits \<subseteq> {0}"
  shows "\<exists>hs'. read_input_from_csr keccak256 hs bits n_bits (num_bytes # rest) = Some (take (unat num_bytes) (le_words rest), hs') \<and>
    (hs' = hs \<or> (\<forall>w. names_section hs' (take (unat num_bytes) (le_words rest)) w \<longrightarrow> marks_right keccak256 (marks_of hs') w))"
proof -
  let ?n = "unat num_bytes div 4"
  have none: "\<not> marked bits k" for k
  proof -
    have "bits ! i = 0" if "i < length bits" for i
      using assms(3) nth_mem [OF that] by blast
    then show ?thesis
      by (auto simp: marked_def)
  qed
  have init: "\<lparr>st_input = rest, st_mem = replicate ?n 0\<rparr> = stream_at rest (replicate ?n 0) 0"
    by (simp add: stream_at_def)
  have n: "?n \<le> length rest"
    using assms(1) by linarith
  obtain hs' where r: "read_input_words keccak256 ?n hs bits n_bits (stream_at rest (replicate ?n 0) 0) = Some (hs', stream_at rest (replicate ?n 0) ?n)"
    "hs' = hs \<or> hs_data hs' + unat (hs_size hs') \<le> 4 * ?n \<and> (\<forall>w. names_section hs' (le_words rest) w \<longrightarrow> marks_right keccak256 (marks_of hs') w)"
    using read_input_words_at [OF n, of "replicate ?n 0" n_bits bits keccak256 hs] assms(2) none by auto
  have "names_section hs' (le_words rest) w" if "hs_data hs' + unat (hs_size hs') \<le> 4 * ?n" "names_section hs' (take (unat num_bytes) (le_words rest)) w" for w
  proof -
    have "unat (hs_size hs') \<le> unat num_bytes - hs_data hs'"
      using that(1) by linarith
    then show ?thesis
      using that(2) by (simp add: names_section_def drop_take min_absorb1)
  qed
  moreover have "read_input_from_csr keccak256 hs bits n_bits (num_bytes # rest) = Some (take (unat num_bytes) (le_words rest), hs')"
  proof (cases "?n * 4 < unat num_bytes")
    case True
    then have lt: "?n < length rest"
      using assms(1) by linarith
    have "store_tail (unat num_bytes - ?n * 4) (rest ! ?n) = take (unat num_bytes - ?n * 4) (rev (store_big (rest ! ?n)))"
      using store_tail_eq [of "unat num_bytes - ?n * 4" 4 "rest ! ?n"] by (simp add: store_big_def)
    moreover have "le_words (drop ?n rest) = rev (store_big (rest ! ?n)) @ le_words (drop (Suc ?n) rest)"
      using lt by (simp add: le_words_def flip: Cons_nth_drop_Suc)
    moreover have "take (unat num_bytes) (le_words rest) = le_words (take ?n rest) @ take (unat num_bytes - ?n * 4) (le_words (drop ?n rest))"
    proof -
      have "unat num_bytes = 4 * ?n + (unat num_bytes - ?n * 4)"
        by linarith
      then show ?thesis
        by (metis take_add take_le_words drop_le_words)
    qed
    ultimately show ?thesis
      using True io_word_at [OF lt] by (simp add: read_input_from_csr_def Let_def init r(1)) (simp add: stream_at_def)
  next
    case False
    then have "unat num_bytes = 4 * ?n"
      by linarith
    then have "take (unat num_bytes) (le_words rest) = le_words (take ?n rest)"
      by (metis take_le_words)
    then show ?thesis
      using False by (simp add: read_input_from_csr_def Let_def init r(1)) (simp add: stream_at_def)
  qed
  ultimately show ?thesis
    using r(2) by blast
qed

text \<open>An input whose code store has one entry, with a payload of 40 bytes, under a hash that is the first 32 bytes.\<close>

definition sample_input :: "u32 list" where
  "sample_input =
     [kInputMagicMFBD, kInputVersionMFBD, 1, 0] @ [kFlatBundleMagic, kFlatBundleVersion, 0, 0, 0, 0, 0, 0, 56, 216, 0, 0, 0, 0] @
     [kMagic, kVersion, 0, 0, 72, 72, 72, 72, 144] @ replicate 8 0 @ [0] @
     [kMphfCodeStoreMagic, kMphfMapVersion, 1, 1, 0, 0, 0, 0, 56, 0, 56, 56, 56, 88] @ [0, 0] @ [72, 0] @ replicate 8 7 @ replicate 10 7"

definition sample_handshake :: handshake where
  "sample_handshake = \<lparr>hs_data = 0, hs_size = 0, hs_bits = [], hs_n_bits = 0\<rparr>"

lemma sample_words:
  "length sample_input = 72" "sample_input ! 0 = kInputMagicMFBD" "sample_input ! 1 = kInputVersionMFBD" "sample_input ! 2 = 1" "sample_input ! 3 = 0"
  "sample_input ! 4 = kFlatBundleMagic" "sample_input ! 5 = kFlatBundleVersion" "sample_input ! 12 = 56" "sample_input ! 18 = kMagic" "sample_input ! 19 = kVersion"
  "sample_input ! 25 = 72" "sample_input ! 26 = 144" "sample_input ! 36 = kMphfCodeStoreMagic" "sample_input ! 37 = kMphfMapVersion" "sample_input ! 38 = 1"
  "sample_input ! 48 = 56" "sample_input ! 49 = 88" "sample_input ! 52 = 72" "sample_input ! 53 = 0" "drop 54 sample_input = replicate 8 7 @ replicate 10 7"
  by (simp_all add: sample_input_def nth_append)

lemma sample_section:
  assumes "length D = 72"
  shows "bundle_header 288 (stream_at sample_input D 0) = Some (Some (200, 88), 50, stream_at sample_input D 50)"
  using sample_words assms
  by (simp add: bundle_header_def pre_state_header_def code_header_def stream_sizes read_to_at word_at_at)

lemma sample_entry:
  assumes "length D = 72"
  shows "read_code_store (take 32) 50 88 32 [0] (stream_at sample_input D 50) = Some (88, [2], stream_at sample_input D 72)"
proof -
  let ?W = sample_input
  have "drop 62 ?W = replicate 10 7"
    using arg_cong [OF sample_words(20), of "drop 8"] by simp
  then have "take 32 (take (unat (40 :: u32)) (le_words (take 10 (drop 62 ?W)))) = le_words (take 8 (drop 54 ?W))"
    using sample_words(20) take_le_words [of 8 "replicate 10 7"] by simp
  then have "io_verify (take 32) 62 40 54 (stream_at ?W D 62) = Some (True, stream_at ?W D 72)"
    using io_verify_at [of 62 40 ?W D 54 "take 32"] assms sample_words(1) by simp
  moreover have "mark_entry 8 [0] = Some [2]"
    by (simp add: mark_entry_def Checked_Reads.at_def)
  ultimately have p: "read_payload (take 32) 52 8 40 40 32 [0] (stream_at ?W D 62) = Some ([2], stream_at ?W D 72)"
    by (simp add: read_payload_def)
  have stop: "read_entries (take 32) 50 88 32 88 b st = Some (88, b, st)" for b st
    by (subst read_entries.simps) simp
  have "(40 :: u32) \<le> 88 - 8" "(52 :: nat) = 50 + unat (8 :: u32) div 4" "(40 :: u32) = (?W ! 52 - 32 + 7) AND NOT 7"
    by (simp_all add: sample_words(18))
  from read_entries_step [OF this(1,2) _ _ this(3), of D "take 32" 32 "[0]"]
  have "read_entries (take 32) 50 88 32 8 [0] (stream_at ?W D 52) = Some (88, [2], stream_at ?W D 72)"
    using sample_words(1) assms p by (simp only: sample_words(18,19)) (simp add: stop sample_words(19))
  then show ?thesis
    using io_read_at [of 50 2 ?W D] sample_words(1) assms by (simp add: read_code_store_def)
qed

lemma read_input_exact_witness:
  "\<exists>hs. read_input_from_csr (take 32) sample_handshake [0] 32 (288 # sample_input) = Some (le_words sample_input, hs) \<and> hs_bits hs = [2] \<and>
     (\<forall>w. names_section hs (le_words sample_input) w \<longrightarrow> marks_right (take 32) (marks_of hs) w)"
proof -
  have l: "take 288 (le_words sample_input) = le_words sample_input"
    by (simp add: length_le_words sample_words(1))
  obtain hs' where r: "read_input_from_csr (take 32) sample_handshake [0] 32 (288 # sample_input) = Some (le_words sample_input, hs')"
    "hs' = sample_handshake \<or> (\<forall>w. names_section hs' (le_words sample_input) w \<longrightarrow> marks_right (take 32) (marks_of hs') w)"
    using read_input_exact [of 288 sample_input 32 "[0]" "take 32" sample_handshake] l by (auto simp: sample_words(1))
  have "read_input_words (take 32) 72 sample_handshake [0] 32 (stream_at sample_input (replicate 72 0) 0) =
      Some (\<lparr>hs_data = 200, hs_size = 88, hs_bits = [2], hs_n_bits = 32\<rparr>, stream_at sample_input (replicate 72 0) 72)"
    using sample_section [of "replicate 72 0"] sample_entry [of "replicate 72 0"] by (simp add: read_input_words_def read_to_at sample_words(1))
  then have "hs' = \<lparr>hs_data = 200, hs_size = 88, hs_bits = [2], hs_n_bits = 32\<rparr>"
    using r(1) by (simp add: read_input_from_csr_def stream_at_def)
  then show ?thesis
    using r by (auto simp: sample_handshake_def)
qed

end
