(* ===== verification/Flat_Bundle.thy ===== *)
theory Flat_Bundle
  imports Code_Stream Witness_Binding
begin

text \<open>
  The input of a guest (types_zz/flat_bundle.hpp, types_zz/flat_bundle.cpp): one blob with the genesis block, the blocks, their flags and engine records, the
  ancestor headers, the witness and the node store. The loader of an untrusted blob reads inside of it only, and it gives back what the builder wrote.
  A read outside the blob, an allocation that is refused and an abort of the constructor of the state are \<open>None\<close>; \<open>std::nullopt\<close> is \<open>Some None\<close>.
\<close>

section \<open>The structures\<close>

text \<open>\<open>align8\<close> on sizes.\<close>

definition align8 :: "nat \<Rightarrow> nat" where
  "align8 v = (v + 7) div 8 * 8"

definition kBlockFlagEngineRecord :: byte where "kBlockFlagEngineRecord = 2"

definition sizeof_FlatBundleHeader :: nat where "sizeof_FlatBundleHeader = 56"

record engine_record =
  er_block_hash :: bytes32
  er_versioned_hashes :: bytes

text \<open>\<open>FlatBundleHeader\<close>: the offset and size of each section.\<close>

record flat_bundle_header =
  fh_magic :: u32
  fh_version :: u32
  fh_genesis :: "u32 \<times> u32"
  fh_blocks :: "u32 \<times> u32"
  fh_ancestors :: "u32 \<times> u32"
  fh_direct :: "u32 \<times> u32"
  fh_nodes :: "u32 \<times> u32"
  fh_network :: "u32 \<times> u32"

record flat_bundle =
  fb_blob :: bytes
  fb_genesis :: block
  fb_block_rlps :: "bytes list"
  fb_ancestors :: "block_header list"
  fb_direct :: witness
  fb_network :: bytes
  fb_block_flags :: bytes
  fb_engine_records :: "engine_record option list"
  fb_ancestor_rlps :: "bytes list"
  fb_ancestors_well_formed :: bool

section \<open>The builder\<close>

definition engine_length :: "engine_record option \<Rightarrow> nat" where
  "engine_length r = (case r of None \<Rightarrow> 0 | Some rec \<Rightarrow> 32 + 8 + length (er_versioned_hashes rec))"

fun write_blocks :: "bytes list \<Rightarrow> bytes \<Rightarrow> nat \<Rightarrow> bytes \<times> nat" where
  "write_blocks [] out cursor = (out, cursor)"
| "write_blocks (br # brs) out cursor = write_blocks brs (patch out cursor br) (cursor + align8 (length br))"

fun write_engine :: "engine_record option list \<Rightarrow> bytes \<Rightarrow> nat \<Rightarrow> bytes" where
  "write_engine [] out cursor = out"
| "write_engine (None # rs) out cursor = write_engine rs out cursor"
| "write_engine (Some rec # rs) out cursor =
     (let out = patch out cursor (er_block_hash rec);
          out = patch out (cursor + 32) (rev (store_big (of_nat (length (er_versioned_hashes rec) div 32) :: u64)));
          out = patch out (cursor + 40) (er_versioned_hashes rec)
      in write_engine rs out (cursor + 40 + length (er_versioned_hashes rec)))"

definition build_flat_bundle :: "bytes \<Rightarrow> bytes list \<Rightarrow> bytes \<Rightarrow> bytes \<Rightarrow> bytes \<Rightarrow> bytes \<Rightarrow> bytes \<Rightarrow> engine_record option list \<Rightarrow> bytes" where
  "build_flat_bundle genesis_rlp block_rlps ancestors_rlp direct_state_blob node_store_blob network block_flags engine_records =
     (let blocks_payload = sum_list (map (\<lambda>br. align8 (length br)) block_rlps);
          engine_size = sum_list (map engine_length engine_records);
          flags_end = 8 + blocks_payload + length block_flags;
          blocks_section_size = (if engine_size > 0 then align8 flags_end + engine_size else flags_end);
          genesis_off = align8 sizeof_FlatBundleHeader;
          blocks_off = align8 (genesis_off + length genesis_rlp);
          anc_off = align8 (blocks_off + blocks_section_size);
          direct_off = align8 (anc_off + length ancestors_rlp);
          node_off = align8 (direct_off + length direct_state_blob);
          network_off = align8 (node_off + length node_store_blob);
          total = align8 (network_off + length network);
          out = replicate total 0;
          out = patch out 0 (le_words [kFlatBundleMagic, kFlatBundleVersion, of_nat genesis_off, of_nat (length genesis_rlp),
                  of_nat blocks_off, of_nat blocks_section_size, of_nat anc_off, of_nat (length ancestors_rlp),
                  of_nat direct_off, of_nat (length direct_state_blob), of_nat node_off, of_nat (length node_store_blob),
                  of_nat network_off, of_nat (length network) :: u32]);
          out = patch out genesis_off genesis_rlp;
          out = patch out blocks_off (rev (store_big (of_nat (length block_rlps) :: u64)));
          (out, cursor) = write_blocks block_rlps out (blocks_off + 8);
          out = patch out cursor block_flags;
          out = (if engine_size > 0 then write_engine engine_records out (blocks_off + align8 flags_end) else out);
          out = patch out anc_off ancestors_rlp;
          out = patch out direct_off direct_state_blob;
          out = patch out node_off node_store_blob
      in patch out network_off network)"

section \<open>The loader\<close>

definition read_section :: "bytes \<Rightarrow> nat \<Rightarrow> (u32 \<times> u32) option" where
  "read_section blob p = do { off \<leftarrow> read_word blob p; n \<leftarrow> read_word blob (p + 4); Some (off, n) }"

definition read_bundle_header :: "bytes \<Rightarrow> flat_bundle_header option" where
  "read_bundle_header blob = do {
     magic \<leftarrow> read_word blob 0; version \<leftarrow> read_word blob 4;
     g \<leftarrow> read_section blob 8; b \<leftarrow> read_section blob 16; a \<leftarrow> read_section blob 24;
     d \<leftarrow> read_section blob 32; n \<leftarrow> read_section blob 40; w \<leftarrow> read_section blob 48;
     Some \<lparr>fh_magic = magic, fh_version = version, fh_genesis = g, fh_blocks = b, fh_ancestors = a, fh_direct = d, fh_nodes = n, fh_network = w\<rparr> }"

definition bundle_sections :: "flat_bundle_header \<Rightarrow> (u32 \<times> u32) list" where
  "bundle_sections h = [fh_genesis h, fh_blocks h, fh_ancestors h, fh_direct h, fh_nodes h, fh_network h]"

definition section_end :: "u32 \<times> u32 \<Rightarrow> nat" where
  "section_end s = unat (fst s) + unat (snd s)"

definition section_view :: "bytes \<Rightarrow> u32 \<times> u32 \<Rightarrow> bytes option" where
  "section_view blob s = read_bytes blob (unat (fst s)) (unat (snd s))"

definition sections_overlap :: "u32 \<times> u32 \<Rightarrow> u32 \<times> u32 \<Rightarrow> bool" where
  "sections_overlap a b \<longleftrightarrow> snd a \<noteq> 0 \<and> snd b \<noteq> 0 \<and> unat (fst a) < section_end b \<and> unat (fst b) < section_end a"

fun no_section_overlap :: "(u32 \<times> u32) list \<Rightarrow> bool" where
  "no_section_overlap [] = True"
| "no_section_overlap (a # rest) \<longleftrightarrow> (\<forall>b \<in> set rest. \<not> sections_overlap a b) \<and> no_section_overlap rest"

text \<open>The loop over the blocks: each starts with the header of an RLP list, which gives its size, and the next one is aligned.\<close>

fun load_blocks :: "bytes \<Rightarrow> nat \<Rightarrow> nat \<Rightarrow> nat \<Rightarrow> (bytes list \<times> nat) option option" where
  "load_blocks blob e 0 cursor = Some (Some ([], cursor))"
| "load_blocks blob e (Suc n) cursor =
     (if cursor \<ge> e then Some None
      else do {
        v \<leftarrow> read_bytes blob cursor (e - cursor);
        case decode_header v of
          Inl _ \<Rightarrow> Some None
        | Inr (outer, rest) \<Rightarrow>
            if \<not> is_list outer then Some None
            else
              let block_size_total = payload_length outer + (length v - length rest) in
              if cursor + block_size_total > e then Some None
              else do {
                br \<leftarrow> read_bytes blob cursor block_size_total;
                r \<leftarrow> load_blocks blob e n (align8 (cursor + block_size_total));
                Some (map_option (\<lambda>(brs, c). (br # brs, c)) r) } })"

fun load_engine :: "bytes \<Rightarrow> nat \<Rightarrow> bytes \<Rightarrow> nat \<Rightarrow> engine_record option list option option" where
  "load_engine blob e [] pos = Some (Some [])"
| "load_engine blob e (f # fs) pos =
     (if and f kBlockFlagEngineRecord = 0 then map_option (map_option (\<lambda>rs. None # rs)) (load_engine blob e fs pos)
      else if pos > e \<or> e - pos < 40 then Some None
      else do {
        h \<leftarrow> read_bytes blob pos 32;
        n \<leftarrow> read_word blob (pos + 32);
        if unat (n :: u64) > (e - (pos + 40)) div 32 then Some None
        else do {
          vh \<leftarrow> read_bytes blob (pos + 40) (unat n * 32);
          r \<leftarrow> load_engine blob e fs (pos + 40 + unat n * 32);
          Some (map_option (\<lambda>rs. Some \<lparr>er_block_hash = h, er_versioned_hashes = vh\<rparr> # rs) r) } })"

text \<open>The blocks section. \<open>max_size\<close> is what the vector of blocks can be made to reserve.\<close>

definition load_blocks_section :: "nat \<Rightarrow> bytes \<Rightarrow> u32 \<times> u32 \<Rightarrow> (bytes list \<times> bytes \<times> engine_record option list) option option" where
  "load_blocks_section max_size blob s =
     (if unat (snd s) < 8 then Some None
      else do {
        n_blocks \<leftarrow> read_word blob (unat (fst s));
        _ \<leftarrow> (if unat (n_blocks :: u64) \<le> max_size then Some () else None);
        r \<leftarrow> load_blocks blob (section_end s) (unat n_blocks) (unat (fst s) + 8);
        case r of
          None \<Rightarrow> Some None
        | Some (brs, cursor) \<Rightarrow> do {
            flags \<leftarrow> (if brs \<noteq> [] \<and> cursor + length brs \<le> section_end s then read_bytes blob cursor (length brs) else Some []);
            rs \<leftarrow> (if \<exists>f \<in> set flags. and f kBlockFlagEngineRecord \<noteq> 0
                  then load_engine blob (section_end s) flags (align8 (cursor + length flags)) else Some (Some []));
            Some (map_option (\<lambda>rs. (brs, flags, rs)) rs) } })"

text \<open>The loop over the ancestors: an entry is a header, or a byte string that has one.\<close>

lemma decode_header_progress: "decode_header lv = Inr (h, rest) \<Longrightarrow> length rest - payload_length h < length lv"
  using decode_header_cases [of lv h rest] by (auto simp: encode_header_def Let_def split: if_splits)

function load_ancestors :: "bytes \<Rightarrow> (block_header list \<times> bytes list \<times> bool) option" where
  "load_ancestors lv =
     (if lv = [] then Some ([], [], True)
      else case decode_header lv of
        Inl _ \<Rightarrow> None
      | Inr (eh, rest) \<Rightarrow>
          if payload_length eh > length rest then None
          else
            let entry_len = (length lv - length rest) + payload_length eh;
                header_rlp = (if is_list eh then take entry_len lv else take (payload_length eh) rest)
            in case load_ancestors (drop (payload_length eh) rest) of
                 None \<Rightarrow> None
               | Some (hs, rlps, ok) \<Rightarrow>
                   (case decode_block_header header_rlp KProhibit of
                      Inl _ \<Rightarrow> Some (hs, rlps, False)
                    | Inr (h, _) \<Rightarrow> Some (h # hs, header_rlp # rlps, ok)))"
  by pat_completeness auto

termination
  by (relation "measure length") (auto dest!: decode_header_progress)

declare load_ancestors.simps [simp del]

definition load_ancestors_section :: "bytes \<Rightarrow> (block_header list \<times> bytes list \<times> bool) option" where
  "load_ancestors_section v =
     (if v = [] then Some ([], [], True)
      else case decode_header v of
             Inl _ \<Rightarrow> Some ([], [], False)
           | Inr (inner, rest) \<Rightarrow> if is_list inner then load_ancestors (take (payload_length inner) rest) else Some ([], [], False))"

text \<open>\<open>bundle_size\<close>: where the last section ends.\<close>

definition bundle_size_of :: "flat_bundle_header \<Rightarrow> nat" where
  "bundle_size_of h = foldl max sizeof_FlatBundleHeader (map section_end (bundle_sections h))"

definition header_accepted :: "bytes \<Rightarrow> flat_bundle_header \<Rightarrow> bool" where
  "header_accepted blob h \<longleftrightarrow>
     \<not> (fh_magic h \<noteq> kFlatBundleMagic \<or> fh_version h \<noteq> kFlatBundleVersion \<or>
        (\<exists>s \<in> set (bundle_sections h). section_end s > length blob) \<or> unat (fst (fh_direct h)) mod 8 \<noteq> 0 \<or>
        \<not> no_section_overlap (bundle_sections h))"

text \<open>\<open>load_flat_bundle\<close>, with the address of the blob. The constructor of \<open>FlatBundle\<close> makes the state.\<close>

definition load_flat_bundle :: "nat \<Rightarrow> nat \<Rightarrow> bytes \<Rightarrow> flat_bundle option option" where
  "load_flat_bundle addr max_size blob =
     (if length blob < sizeof_FlatBundleHeader then Some None
      else do {
        h \<leftarrow> read_bundle_header blob;
        if \<not> header_accepted blob h then Some None
        else do {
          genesis_rlp \<leftarrow> section_view blob (fh_genesis h);
          case decode_block genesis_rlp KProhibit of
            Inl _ \<Rightarrow> Some None
          | Inr (genesis, _) \<Rightarrow> do {
              blocks \<leftarrow> load_blocks_section max_size blob (fh_blocks h);
              ancestors_rlp \<leftarrow> section_view blob (fh_ancestors h);
              case blocks of
                None \<Rightarrow> Some None
              | Some (block_rlps, flags, engine) \<Rightarrow>
                  (case load_ancestors_section ancestors_rlp of
                     None \<Rightarrow> Some None
                   | Some (ancestors, ancestor_rlps, well_formed) \<Rightarrow> do {
                       prestate \<leftarrow> section_view blob (fh_direct h);
                       nodestore \<leftarrow> section_view blob (fh_nodes h);
                       network \<leftarrow> section_view blob (fh_network h);
                       direct \<leftarrow> new_witness ((addr + unat (fst (fh_direct h))) mod 8 = 0) prestate ((addr + unat (fst (fh_nodes h))) mod 8 = 0) nodestore;
                       Some (Some \<lparr>fb_blob = take (bundle_size_of h) blob, fb_genesis = genesis, fb_block_rlps = block_rlps, fb_ancestors = ancestors,
                         fb_direct = direct, fb_network = network, fb_block_flags = flags, fb_engine_records = engine, fb_ancestor_rlps = ancestor_rlps,
                         fb_ancestors_well_formed = well_formed\<rparr>) }) } } })"

section \<open>Reads inside the blob\<close>

lemma bind_returns: "m \<noteq> None \<Longrightarrow> (\<And>x. m = Some x \<Longrightarrow> f x \<noteq> None) \<Longrightarrow> Option.bind m f \<noteq> None"
  by (cases m) auto

lemma load_blocks_returns: "e \<le> length blob \<Longrightarrow> load_blocks blob e n cursor \<noteq> None"
proof (induction n arbitrary: cursor)
  case (Suc n)
  show ?case
  proof (cases "cursor \<ge> e")
    case False
    then have v: "read_bytes blob cursor (e - cursor) = Some (take (e - cursor) (drop cursor blob))"
      using Suc.prems by (simp add: read_bytes_def)
    show ?thesis
      using False Suc.prems Suc.IH [OF Suc.prems] by (auto simp: v Let_def read_bytes_def split: sum.splits intro!: bind_returns [simplified])
  qed simp
qed simp

lemma load_engine_returns: "e \<le> length blob \<Longrightarrow> load_engine blob e fs pos \<noteq> None"
proof (induction fs arbitrary: pos)
  case (Cons f fs)
  note IH = Cons.IH [OF Cons.prems]
  show ?case
  proof (cases "and f kBlockFlagEngineRecord = 0 \<or> pos > e \<or> e - pos < 40")
    case True
    then show ?thesis
      using IH by auto
  next
    case False
    then have "pos + 40 \<le> length blob"
      using Cons.prems by linarith
    then have "read_bytes blob pos 32 = Some (take 32 (drop pos blob))" "\<exists>n. read_word blob (pos + 32) = Some (n :: u64)"
      using read_word_in_range [of "pos + 32" blob, where 'a = 64] by (simp_all add: read_bytes_def)
    moreover have "read_bytes blob (pos + 40) (n * 32) = Some (take (n * 32) (drop (pos + 40) blob))" if "n \<le> (e - (pos + 40)) div 32" for n
      using that Cons.prems False by (auto simp: read_bytes_def)
    ultimately show ?thesis
      using False IH by (auto simp: not_less intro!: bind_returns [simplified])
  qed
qed simp

lemma load_blocks_section_returns:
  assumes "section_end s \<le> length blob"
  shows "load_blocks_section max_size blob s \<noteq> None \<or> (\<exists>n. read_word blob (unat (fst s)) = Some (n :: u64) \<and> unat n > max_size)"
proof (cases "unat (snd s) < 8")
  case False
  then obtain n where n: "read_word blob (unat (fst s)) = Some (n :: u64)"
    using read_word_in_range [of "unat (fst s)" blob, where 'a = 64] assms by (auto simp: section_end_def)
  show ?thesis
  proof (cases "unat n \<le> max_size")
    case True
    have "\<exists>flags. read_bytes blob cursor (length brs) = Some flags" if "cursor + length brs \<le> section_end s" for cursor and brs :: "bytes list"
      using that assms by (auto simp: read_bytes_def)
    then have "(case r of None \<Rightarrow> Some None
        | Some (brs, cursor) \<Rightarrow> do {
            flags \<leftarrow> (if brs \<noteq> [] \<and> cursor + length brs \<le> section_end s then read_bytes blob cursor (length brs) else Some []);
            rs \<leftarrow> (if \<exists>f \<in> set flags. and f kBlockFlagEngineRecord \<noteq> 0
                  then load_engine blob (section_end s) flags (align8 (cursor + length flags)) else Some (Some []));
            Some (map_option (\<lambda>rs. (brs, flags, rs)) rs) }) \<noteq> None" for r :: "(bytes list \<times> nat) option"
      using load_engine_returns [OF assms] by (auto split: option.splits intro!: bind_returns [simplified])
    then show ?thesis
      using False True n load_blocks_returns [OF assms] by (simp add: load_blocks_section_def bind_returns del: not_None_eq)
  qed (use n in \<open>auto simp: not_le\<close>)
qed (simp add: load_blocks_section_def)

lemma read_bundle_header_returns:
  assumes "56 \<le> length blob"
  shows "read_bundle_header blob \<noteq> None"
proof -
  have "read_word blob off \<noteq> (None :: u32 option)" if "off + 4 \<le> 56" for off
    using read_word_in_range [where 'a = 32 and off = off and b = blob] that assms by auto
  then show ?thesis
    unfolding read_bundle_header_def read_section_def by (intro bind_returns) (simp_all del: not_None_eq)
qed

lemma section_view_returns: "section_end s \<le> length blob \<Longrightarrow> section_view blob s \<noteq> None"
  by (simp add: section_view_def section_end_def read_bytes_def)

text \<open>
  C19: The loader reads no byte outside an untrusted blob. It gives a bundle or \<open>std::nullopt\<close>, with two exceptions: the count of the blocks section, which is not
  bounded by the size of the section, is more than the vector of blocks can reserve, or the constructor of the state aborts on the witness.
\<close>

theorem load_flat_bundle_in_bounds:
  "(\<exists>r. load_flat_bundle addr max_size blob = Some r) \<or>
   (\<exists>h. read_bundle_header blob = Some h \<and> header_accepted blob h \<and>
      ((\<exists>n :: u64. read_word blob (unat (fst (fh_blocks h))) = Some n \<and> unat n > max_size) \<or>
       (\<exists>prestate nodes. section_view blob (fh_direct h) = Some prestate \<and> section_view blob (fh_nodes h) = Some nodes \<and>
          new_witness ((addr + unat (fst (fh_direct h))) mod 8 = 0) prestate ((addr + unat (fst (fh_nodes h))) mod 8 = 0) nodes = None)))"
proof (cases "load_flat_bundle addr max_size blob")
  case None
  then have "56 \<le> length blob"
    by (auto simp: load_flat_bundle_def sizeof_FlatBundleHeader_def split: if_splits)
  then obtain h where h: "read_bundle_header blob = Some h"
    using read_bundle_header_returns by blast
  have acc: "header_accepted blob h"
    using None h by (auto simp: load_flat_bundle_def split: if_splits)
  then have "section_view blob s \<noteq> None" if "s \<in> set (bundle_sections h)" for s
    using that by (intro section_view_returns) (auto simp: header_accepted_def)
  then have v: "section_view blob (fh_genesis h) \<noteq> None" "section_view blob (fh_ancestors h) \<noteq> None" "section_view blob (fh_direct h) \<noteq> None"
    "section_view blob (fh_nodes h) \<noteq> None" "section_view blob (fh_network h) \<noteq> None"
    by (simp_all add: bundle_sections_def)
  have "section_end (fh_blocks h) \<le> length blob"
    using acc by (simp add: header_accepted_def bundle_sections_def)
  from load_blocks_section_returns [OF this, of max_size] show ?thesis
    using None h acc v by (auto simp: load_flat_bundle_def bind_eq_None_conv split: if_splits sum.splits option.splits)
qed blast

section \<open>What the builder writes\<close>

text \<open>A buffer of zeros whose first bytes have been written.\<close>

definition filled :: "nat \<Rightarrow> bytes \<Rightarrow> bytes" where
  "filled tot out = out @ replicate (tot - length out) 0"

text \<open>Bytes written at a place that has not been reached, after zeros.\<close>

definition extend_to :: "nat \<Rightarrow> bytes \<Rightarrow> bytes" where
  "extend_to p out = out @ replicate (p - length out) 0"

lemma length_extend_to: "length out \<le> p \<Longrightarrow> length (extend_to p out) = p"
  by (simp add: extend_to_def)

lemma patch_filled:
  assumes "length out \<le> p" "p + length bs \<le> tot"
  shows "patch (filled tot out) p bs = filled tot (extend_to p out @ bs)"
  using assms by (simp add: patch_def filled_def extend_to_def)

lemma align8_le: "v \<le> align8 v" "align8 v < v + 8" "align8 v mod 8 = 0"
  by (simp_all add: align8_def)

lemma align8_aligned: "v mod 8 = 0 \<Longrightarrow> align8 v = v" "u mod 8 = 0 \<Longrightarrow> align8 (u + v) = u + align8 v"
  unfolding align8_def by presburger+

text \<open>The blocks, each padded, and the engine records.\<close>

definition padded_block :: "bytes \<Rightarrow> bytes" where
  "padded_block br = extend_to (align8 (length br)) br"

lemma length_padded_block: "length (padded_block br) = align8 (length br)"
  by (simp add: padded_block_def length_extend_to align8_le)

definition engine_bytes :: "engine_record option \<Rightarrow> bytes" where
  "engine_bytes r = (case r of None \<Rightarrow> []
     | Some rec \<Rightarrow> er_block_hash rec @ rev (store_big (of_nat (length (er_versioned_hashes rec) div 32) :: u64)) @ er_versioned_hashes rec)"

lemma engine_none [simp]: "engine_bytes None = []" "engine_length None = 0"
  by (simp_all add: engine_bytes_def engine_length_def)

lemma engine_some:
  "engine_bytes (Some rec) = er_block_hash rec @ rev (store_big (of_nat (length (er_versioned_hashes rec) div 32) :: u64)) @ er_versioned_hashes rec"
  "engine_length (Some rec) = 40 + length (er_versioned_hashes rec)"
  by (simp_all add: engine_bytes_def engine_length_def)

lemma filled_zeros: "length out + k \<le> tot \<Longrightarrow> filled tot (out @ replicate k 0) = filled tot out"
  by (simp add: filled_def flip: replicate_add)

lemma write_blocks_filled:
  assumes "cursor + sum_list (map (\<lambda>br. align8 (length br)) brs) \<le> tot" "length out = cursor"
  shows "write_blocks brs (filled tot out) cursor =
    (filled tot (out @ concat (map padded_block brs)), cursor + sum_list (map (\<lambda>br. align8 (length br)) brs))"
  using assms
proof (induction brs arbitrary: out cursor)
  case (Cons br brs)
  have "patch (filled tot out) cursor br = filled tot (out @ br)"
    using Cons.prems align8_le(1) [of "length br"] by (subst patch_filled) (simp_all add: extend_to_def)
  also have "\<dots> = filled tot (out @ padded_block br)"
    using Cons.prems align8_le(1) [of "length br"] filled_zeros [of "out @ br" "align8 (length br) - length br" tot]
    by (simp add: padded_block_def extend_to_def)
  finally show ?case
    using Cons.prems Cons.IH [of "cursor + align8 (length br)" "out @ padded_block br"] by (simp add: length_padded_block add.assoc)
qed simp

lemma length_engine_bytes: "(\<And>rec. r = Some rec \<Longrightarrow> length (er_block_hash rec) = 32) \<Longrightarrow> length (engine_bytes r) = engine_length r"
  by (cases r) (simp_all add: engine_bytes_def engine_length_def)

lemma write_engine_filled:
  assumes "cursor + sum_list (map engine_length rs) \<le> tot" "length out = cursor" "\<forall>rec. Some rec \<in> set rs \<longrightarrow> length (er_block_hash rec) = 32"
  shows "write_engine rs (filled tot out) cursor = filled tot (out @ concat (map engine_bytes rs))"
  using assms
proof (induction rs arbitrary: out cursor)
  case (Cons r rs)
  show ?case
  proof (cases r)
    case None
    then show ?thesis
      using Cons by simp
  next
    case (Some rec)
    have l: "length (er_block_hash rec) = 32"
      using Cons.prems(3) Some by simp
    let ?n = "rev (store_big (of_nat (length (er_versioned_hashes rec) div 32) :: u64))"
    have "patch (filled tot out) cursor (er_block_hash rec) = filled tot (out @ er_block_hash rec)"
      using Cons.prems l by (subst patch_filled) (simp_all add: extend_to_def Some engine_length_def)
    moreover have "patch (filled tot (out @ er_block_hash rec)) (cursor + 32) ?n = filled tot (out @ er_block_hash rec @ ?n)"
      using Cons.prems l by (subst patch_filled) (simp_all add: extend_to_def Some engine_length_def)
    moreover have "patch (filled tot (out @ er_block_hash rec @ ?n)) (cursor + 40) (er_versioned_hashes rec) = filled tot (out @ engine_bytes r)"
      using Cons.prems l by (subst patch_filled) (simp_all add: extend_to_def Some engine_length_def engine_bytes_def)
    ultimately show ?thesis
      using Cons.prems Cons.IH [of "cursor + engine_length r" "out @ engine_bytes r"] length_engine_bytes [of r] l
      by (simp add: Some engine_length_def Let_def add.assoc)
  qed
qed simp

text \<open>Sections one after the other, each at a multiple of 8, and where they start.\<close>

fun place :: "bytes \<Rightarrow> bytes list \<Rightarrow> bytes" where
  "place out [] = out"
| "place out (s # ss) = place (extend_to (align8 (length out)) out @ s) ss"

fun places :: "nat \<Rightarrow> nat list \<Rightarrow> nat list" where
  "places n [] = []"
| "places n (l # ls) = align8 n # places (align8 n + l) ls"

lemma place_append: "place out (ss @ ts) = place (place out ss) ts"
  by (induction ss arbitrary: out) simp_all

lemma place_prefix: "\<exists>Y. place out ss = out @ Y"
proof (induction ss arbitrary: out)
  case (Cons s ss)
  from Cons.IH [of "extend_to (align8 (length out)) out @ s"] show ?case
    by (auto simp: extend_to_def)
qed simp

lemma length_extend_align [simp]: "length (extend_to (align8 (length out)) out) = align8 (length out)"
  by (simp add: length_extend_to align8_le)

lemma place_split:
  assumes "i < length ss"
  shows "\<exists>X Y. place out ss = X @ ss ! i @ Y \<and> length X = places (length out) (map length ss) ! i"
  using assms
proof (induction ss arbitrary: out i)
  case (Cons s ss)
  let ?out = "extend_to (align8 (length out)) out @ s"
  show ?case
  proof (cases i)
    case 0
    obtain Y where "place ?out ss = ?out @ Y"
      using place_prefix by blast
    then show ?thesis
      using 0 by (intro exI [of _ "extend_to (align8 (length out)) out"] exI [of _ Y]) simp
  next
    case (Suc j)
    then show ?thesis
      using Cons.IH [of j ?out] Cons.prems by simp
  qed
qed simp

lemma length_places [simp]: "length (places n ls) = length ls"
  by (induction ls arbitrary: n) simp_all

lemma length_place: "length (place out ss) = foldl (\<lambda>n l. align8 n + l) (length out) (map length ss)"
  by (induction ss arbitrary: out) simp_all

lemma places_first: "i < length ls \<Longrightarrow> n \<le> places n ls ! i \<and> places n ls ! i mod 8 = 0"
proof (induction ls arbitrary: n i)
  case (Cons l ls)
  show ?case
  proof (cases i)
    case (Suc j)
    then show ?thesis
      using Cons.prems Cons.IH [of j "align8 n + l"] align8_le(1) [of n] by (simp add: le_trans)
  qed (use align8_le in simp)
qed simp

lemma places_before: "i < j \<Longrightarrow> j < length ls \<Longrightarrow> places n ls ! i + ls ! i \<le> places n ls ! j"
proof (induction ls arbitrary: n i j)
  case (Cons l ls)
  then show ?case
    using places_first [of "j - 1" ls "align8 n + l"] Cons.IH [of "i - 1" "j - 1" "align8 n + l"] by (cases i; cases j) auto
qed simp

lemma place_step:
  "align8 (length out) + length s \<le> tot \<Longrightarrow> patch (filled tot out) (align8 (length out)) s = filled tot (place out [s])"
  by (simp add: patch_filled align8_le)

text \<open>The section of the blocks.\<close>

definition blocks_section :: "bytes list \<Rightarrow> bytes \<Rightarrow> engine_record option list \<Rightarrow> bytes" where
  "blocks_section brs flags rs =
     (let blocks = rev (store_big (of_nat (length brs) :: u64)) @ concat (map padded_block brs) @ flags
      in if sum_list (map engine_length rs) > 0 then extend_to (align8 (length blocks)) blocks @ concat (map engine_bytes rs) else blocks)"

lemma length_padded_blocks: "length (concat (map padded_block brs)) = sum_list (map (\<lambda>br. align8 (length br)) brs)"
  by (induction brs) (simp_all add: length_padded_block)

lemma length_engine_all: "\<forall>rec. Some rec \<in> set rs \<longrightarrow> length (er_block_hash rec) = 32 \<Longrightarrow> length (concat (map engine_bytes rs)) = sum_list (map engine_length rs)"
proof (induction rs)
  case (Cons r rs)
  then show ?case
    using length_engine_bytes [of r] by simp
qed simp

lemma length_blocks_section:
  assumes "\<forall>rec. Some rec \<in> set rs \<longrightarrow> length (er_block_hash rec) = 32" "n = 8 + sum_list (map (\<lambda>br. align8 (length br)) brs) + length flags"
  shows "length (blocks_section brs flags rs) = (if sum_list (map engine_length rs) > 0 then align8 n + sum_list (map engine_length rs) else n)"
  using length_engine_all [OF assms(1)] by (simp add: blocks_section_def Let_def length_padded_blocks length_extend_to align8_le assms(2) add.assoc del: sum_list_eq_0_iff)

lemma blocks_written:
  assumes "b = align8 (length out)" "b + length (blocks_section brs flags rs) \<le> tot" "\<forall>rec. Some rec \<in> set rs \<longrightarrow> length (er_block_hash rec) = 32"
    "n = 8 + sum_list (map (\<lambda>br. align8 (length br)) brs) + length flags"
  shows "(case write_blocks brs (patch (filled tot out) b (rev (store_big (of_nat (length brs) :: u64)))) (b + 8) of (out, cursor) \<Rightarrow>
      if sum_list (map engine_length rs) > 0 then write_engine rs (patch out cursor flags) (b + align8 n) else patch out cursor flags) =
    filled tot (place out [blocks_section brs flags rs])"
proof -
  let ?n = "rev (store_big (of_nat (length brs) :: u64))" and ?out = "extend_to b out" and ?sum = "sum_list (map (\<lambda>br. align8 (length br)) brs)"
  let ?blocks = "?n @ concat (map padded_block brs) @ flags"
  note l = length_blocks_section [OF assms(3,4)]
  have b: "length ?out = b" "length out \<le> b"
    by (simp_all add: assms(1) align8_le)
  have fits: "b + n \<le> tot" "n = length ?blocks"
    using assms(2,4) l align8_le(1) [of n] by (simp_all add: length_padded_blocks split: if_splits)
  have w1: "patch (filled tot out) b ?n = filled tot (?out @ ?n)"
    using fits(1) assms(4) by (intro patch_filled [OF b(2)]) simp
  have w2: "write_blocks brs (filled tot (?out @ ?n)) (b + 8) = (filled tot ((?out @ ?n) @ concat (map padded_block brs)), b + 8 + ?sum)"
    using fits(1) assms(4) b(1) by (intro write_blocks_filled) simp_all
  have w3: "patch (filled tot ((?out @ ?n) @ concat (map padded_block brs))) (b + 8 + ?sum) flags = filled tot (?out @ ?blocks)"
    using fits(1) assms(4) b(1) by (subst patch_filled) (simp_all add: extend_to_def length_padded_blocks)
  show ?thesis
  proof (cases "sum_list (map engine_length rs) > 0")
    case True
    then have t: "b + align8 n + sum_list (map engine_length rs) \<le> tot"
      using assms(2) l by simp
    have "filled tot (?out @ ?blocks) = filled tot (?out @ extend_to (align8 n) ?blocks)"
      using filled_zeros [of "?out @ ?blocks" "align8 n - n" tot] t b(1) fits(2) align8_le(1) [of n] by (simp add: extend_to_def)
    moreover have "write_engine rs (filled tot (?out @ extend_to (align8 n) ?blocks)) (b + align8 n) =
        filled tot ((?out @ extend_to (align8 n) ?blocks) @ concat (map engine_bytes rs))"
      using t b(1) fits(2) assms(3) align8_le(1) [of n] by (intro write_engine_filled) (simp_all add: length_extend_to)
    ultimately show ?thesis
      using True w1 w2 w3 fits(2) by (simp add: blocks_section_def Let_def assms(1))
  next
    case False
    then show ?thesis
      using w1 w2 w3 by (simp add: blocks_section_def assms(1) del: sum_list_eq_0_iff neq0_conv)
  qed
qed

text \<open>The header, and the whole bundle.\<close>

definition header_bytes :: "nat list \<Rightarrow> nat list \<Rightarrow> bytes" where
  "header_bytes offs lens = le_words ([kFlatBundleMagic, kFlatBundleVersion] @ concat (map (\<lambda>(off, n). [of_nat off, of_nat n]) (zip offs lens)))"

definition bundle_bytes :: "bytes list \<Rightarrow> bytes" where
  "bundle_bytes ss = place (header_bytes (places 56 (map length ss)) (map length ss)) ss"

lemma length_place_one: "length (place out [s]) = align8 (length out) + length s"
  by simp

lemma place_one_le: "length out \<le> length (place out [s])"
  using align8_le(1) [of "length out"] by simp

lemma build_flat_bundle_eq:
  assumes "\<forall>rec. Some rec \<in> set rs \<longrightarrow> length (er_block_hash rec) = 32"
    "bundle = bundle_bytes [genesis, blocks_section brs flags rs, anc, direct, nodes, network]"
  shows "build_flat_bundle genesis brs anc direct nodes network flags rs = filled (align8 (length bundle)) bundle"
proof -
  define n where "n = 8 + sum_list (map (\<lambda>br. align8 (length br)) brs) + length flags"
  note lb = length_blocks_section [OF assms(1) n_def]
  let ?ss = "[genesis, blocks_section brs flags rs, anc, direct, nodes, network]"
  define hdr where "hdr = header_bytes (places 56 (map length ?ss)) (map length ?ss)"
  define p1 where "p1 = place hdr [genesis]"
  define p2 where "p2 = place p1 [blocks_section brs flags rs]"
  define p3 where "p3 = place p2 [anc]"
  define p4 where "p4 = place p3 [direct]"
  define p5 where "p5 = place p4 [nodes]"
  have b: "bundle = place p5 [network]"
    unfolding assms(2) bundle_bytes_def hdr_def [symmetric] by (simp only: p1_def p2_def p3_def p4_def p5_def place.simps)
  have hdr: "length hdr = 56"
    by (simp add: hdr_def header_bytes_def length_le_words)
  define tot where "tot = align8 (length bundle)"
  have le: "length p1 \<le> tot" "length p2 \<le> tot" "length p3 \<le> tot" "length p4 \<le> tot" "length p5 \<le> tot" "length bundle \<le> tot" "56 \<le> tot"
    using place_one_le [of hdr genesis] place_one_le [of p1 "blocks_section brs flags rs"] place_one_le [of p2 anc] place_one_le [of p3 direct]
      place_one_le [of p4 nodes] place_one_le [of p5 network] align8_le(1) [of "length bundle"] hdr
    unfolding tot_def b p1_def [symmetric] p2_def [symmetric] p3_def [symmetric] p4_def [symmetric] p5_def [symmetric] by linarith+
  note lp = length_place_one
  have l: "align8 56 + length genesis = length p1" "align8 (length p1) + length (blocks_section brs flags rs) = length p2" "align8 (length p2) + length anc = length p3"
    "align8 (length p3) + length direct = length p4" "align8 (length p4) + length nodes = length p5" "align8 (length p5) + length network = length bundle"
    using hdr by (simp_all only: p1_def p2_def p3_def p4_def p5_def b length_place_one)
  have h: "le_words [kFlatBundleMagic, kFlatBundleVersion, of_nat (align8 56), of_nat (length genesis), of_nat (align8 (length p1)),
      of_nat (length (blocks_section brs flags rs)), of_nat (align8 (length p2)), of_nat (length anc), of_nat (align8 (length p3)), of_nat (length direct),
      of_nat (align8 (length p4)), of_nat (length nodes), of_nat (align8 (length p5)), of_nat (length network)] = hdr"
    unfolding hdr_def header_bytes_def by (simp add: l)
  have w0: "patch (replicate tot 0) 0 hdr = filled tot hdr"
    using patch_filled [of "[]" 0 hdr tot] hdr le(7) by (simp add: filled_def extend_to_def)
  have w1: "patch (filled tot hdr) (align8 56) genesis = filled tot p1"
    using place_step [of hdr genesis tot] hdr l(1) le(1) by (simp add: p1_def)
  note w2 = blocks_written [OF refl _ assms(1) n_def, of p1 tot, unfolded l(2), OF le(2), folded p2_def]
  have w3: "patch (filled tot p2) (align8 (length p2)) anc = filled tot p3" "patch (filled tot p3) (align8 (length p3)) direct = filled tot p4"
    "patch (filled tot p4) (align8 (length p4)) nodes = filled tot p5" "patch (filled tot p5) (align8 (length p5)) network = filled tot bundle"
    using place_step [of p2 anc tot] place_step [of p3 direct tot] place_step [of p4 nodes tot] place_step [of p5 network tot] l le
    unfolding p3_def [symmetric] p4_def [symmetric] p5_def [symmetric] b [symmetric] by simp_all
  show ?thesis
    using w2 unfolding build_flat_bundle_def sizeof_FlatBundleHeader_def n_def [symmetric] lb [symmetric] Let_def l h tot_def [symmetric] w0 w1
    by (auto simp: w3 split: prod.splits if_splits simp del: sum_list_eq_0_iff)
qed

section \<open>The bundle read back\<close>

lemma read_bundle_header_bytes:
  "read_bundle_header (header_bytes [a, b, c, d, e, f] [g, h, i, j, k, l] @ rest) =
     Some \<lparr>fh_magic = kFlatBundleMagic, fh_version = kFlatBundleVersion, fh_genesis = (of_nat a, of_nat g), fh_blocks = (of_nat b, of_nat h),
       fh_ancestors = (of_nat c, of_nat i), fh_direct = (of_nat d, of_nat j), fh_nodes = (of_nat e, of_nat k), fh_network = (of_nat f, of_nat l)\<rparr>"
  unfolding read_bundle_header_def read_section_def header_bytes_def le_words_def
  by (subst (1 2 3 4 5 6 7 8 9 10 11 12 13 14) read_word_drop) (simp_all add: read_word_front)

text \<open>A block starts with the header of a list that announces the rest of it.\<close>

definition list_rlp :: "bytes \<Rightarrow> bool" where
  "list_rlp br \<longleftrightarrow> (\<exists>payload. length payload < 2 ^ 64 \<and> br = encode_header \<lparr>is_list = True, payload_length = length payload\<rparr> @ payload)"

lemma decode_list_rlp:
  assumes "list_rlp br"
  shows "\<exists>h rest. decode_header (br @ post) = Inr (h, rest) \<and> is_list h \<and> payload_length h + (length (br @ post) - length rest) = length br \<and>
    drop (payload_length h) rest = post"
proof -
  obtain payload where p: "length payload < 2 ^ 64" "br = encode_header \<lparr>is_list = True, payload_length = length payload\<rparr> @ payload"
    using assms by (auto simp: list_rlp_def)
  have "decode_header (br @ post) = Inr (\<lparr>is_list = True, payload_length = length payload\<rparr>, payload @ post)"
    unfolding p(2) append_assoc using p(1) by (intro decode_header_encode) (simp add: canonical_header_def)
  then show ?thesis
    using p(2) by (intro exI conjI) auto
qed

lemma list_rlp_nonempty: "list_rlp br \<Longrightarrow> br \<noteq> []"
  by (auto simp: list_rlp_def encode_header_def Let_def)

lemma load_blocks_written:
  assumes "blob = X @ concat (map padded_block brs) @ Y" "length X = cursor" "cursor mod 8 = 0" "\<forall>br \<in> set brs. list_rlp br"
    "cursor + sum_list (map (\<lambda>br. align8 (length br)) brs) \<le> e" "e \<le> length blob"
  shows "load_blocks blob e (length brs) cursor = Some (Some (brs, cursor + sum_list (map (\<lambda>br. align8 (length br)) brs)))"
  using assms
proof (induction brs arbitrary: X cursor)
  case (Cons br brs)
  let ?rest = "concat (map padded_block brs)"
  have br: "list_rlp br" "br \<noteq> []"
    using Cons.prems(4) list_rlp_nonempty by auto
  have "0 < align8 (length br)"
    using br(2) align8_le(1) [of "length br"] by (cases br) auto
  then have c: "cursor < e" "cursor + length br \<le> e"
    using Cons.prems(5) align8_le(1) [of "length br"] by auto
  obtain pad where pad: "padded_block br = br @ pad"
    by (simp add: padded_block_def extend_to_def)
  then have drop: "drop cursor blob = br @ pad @ ?rest @ Y"
    using Cons.prems(1,2) by simp
  then obtain post where v: "take (e - cursor) (drop cursor blob) = br @ post"
    using c(2) by (auto simp: take_append min_def)
  obtain h rest where h: "decode_header (br @ post) = Inr (h, rest)" "is_list h" "payload_length h + (length (br @ post) - length rest) = length br"
    using decode_list_rlp [OF br(1)] by blast
  have r: "read_bytes blob cursor (e - cursor) = Some (br @ post)" "read_bytes blob cursor (length br) = Some br"
    using v drop c Cons.prems(6) by (simp_all add: read_bytes_def)
  have "load_blocks blob e (length brs) (cursor + align8 (length br)) =
      Some (Some (brs, cursor + align8 (length br) + sum_list (map (\<lambda>br. align8 (length br)) brs)))"
    using Cons.prems align8_le(3) [of "length br"] by (intro Cons.IH [of "X @ padded_block br"]) (auto simp: length_padded_block mod_add_eq)
  moreover have "align8 (cursor + length br) = cursor + align8 (length br)"
    using Cons.prems(3) by (rule align8_aligned(2))
  ultimately show ?case
    using c r h by (simp add: Let_def add.assoc)
qed simp

text \<open>A flag says whether there is an engine record, whose hashes fill a multiple of 32 bytes.\<close>

definition engine_ok :: "engine_record option \<Rightarrow> bool" where
  "engine_ok r \<longleftrightarrow> (\<forall>rec. r = Some rec \<longrightarrow> length (er_block_hash rec) = 32 \<and> length (er_versioned_hashes rec) mod 32 = 0 \<and> length (er_versioned_hashes rec) < 2 ^ 32)"

lemma load_engine_written:
  assumes "list_all2 (\<lambda>f r. and f kBlockFlagEngineRecord \<noteq> 0 \<longleftrightarrow> r \<noteq> None) flags rs" "\<forall>r \<in> set rs. engine_ok r"
    "blob = X @ concat (map engine_bytes rs) @ Y" "length X = pos" "pos + sum_list (map engine_length rs) \<le> e" "e \<le> length blob"
  shows "load_engine blob e flags pos = Some (Some rs)"
  using assms
proof (induction flags rs arbitrary: X pos rule: list_all2_induct)
  case (Cons f flags r rs)
  show ?case
  proof (cases r)
    case None
    then show ?thesis
      using Cons by simp
  next
    case (Some rec)
    let ?vh = "er_versioned_hashes rec"
    have rec: "length (er_block_hash rec) = 32" "length ?vh mod 32 = 0" "length ?vh < 2 ^ 32"
      using Cons.prems(1) by (simp_all add: Some engine_ok_def)
    let ?n = "of_nat (length ?vh div 32) :: u64"
    have n: "unat ?n = length ?vh div 32" "length ?vh div 32 * 32 = length ?vh"
      using rec div_mult_mod_eq [of "length ?vh" 32] by (simp_all add: unat_of_nat)
    have blob: "blob = X @ er_block_hash rec @ rev (store_big ?n) @ ?vh @ concat (map engine_bytes rs) @ Y"
      using Cons.prems(2) by (simp add: Some engine_some)
    have "engine_length r = 40 + length ?vh"
      by (simp add: Some engine_some)
    then have fits: "pos + 40 + length ?vh + sum_list (map engine_length rs) \<le> e"
      using Cons.prems(4) by simp
    have "read_bytes blob pos 32 = Some (er_block_hash rec)" "read_bytes blob (pos + 40) (length ?vh) = Some ?vh"
      using rec(1) Cons.prems(3) by (simp_all add: read_bytes_def blob)
    moreover have "read_word blob (pos + 32) = Some ?n"
      using read_word_at [of "pos + 32" "X @ er_block_hash rec" ?n "?vh @ concat (map engine_bytes rs) @ Y"] rec(1) Cons.prems(3) by (simp add: blob)
    moreover have "load_engine blob e flags (pos + 40 + length ?vh) = Some (Some rs)"
      using Cons.prems fits rec(1) by (intro Cons.IH [of "X @ engine_bytes r"]) (simp_all add: Some engine_some)
    moreover have "length ?vh div 32 \<le> (e - (pos + 40)) div 32"
      using fits by (intro div_le_mono) simp
    moreover have "and f kBlockFlagEngineRecord \<noteq> 0"
      using Cons.hyps Some by simp
    ultimately show ?thesis
      using fits n by (simp add: Some)
  qed
qed simp

text \<open>The ancestors as a list of headers.\<close>

lemma header_list_rlp:
  assumes "valid_block_header h"
  shows "list_rlp (encode_block_header h False False)"
proof -
  obtain rest x where d: "decode_list_with decode_header_items (encode_block_header h False False) KProhibit = Inr (x, rest)"
    using rlp_block_header.round_trip [OF assms, of KProhibit] by (auto simp: decode_block_header_def)
  then show ?thesis
    using block_header_list.decode_list_with_iff [of "encode_block_header h False False" KProhibit x rest]
    by (auto simp: list_rlp_def encode_list_of_def valid_list_of_def)
qed

lemma load_ancestors_headers:
  assumes "\<forall>h \<in> set hs. valid_block_header h"
  shows "load_ancestors (encode_items (\<lambda>h. encode_block_header h False False) hs) = Some (hs, map (\<lambda>h. encode_block_header h False False) hs, True)"
  using assms
proof (induction hs)
  case (Cons h hs)
  let ?enc = "\<lambda>h. encode_block_header h False False"
  let ?rest = "encode_items ?enc hs"
  have v: "valid_block_header h"
    using Cons.prems by simp
  obtain eh rest where d: "decode_header (?enc h @ ?rest) = Inr (eh, rest)" "is_list eh" "payload_length eh + (length (?enc h @ ?rest) - length rest) = length (?enc h)"
    "drop (payload_length eh) rest = ?rest"
    using decode_list_rlp [OF header_list_rlp [OF v]] by blast
  have "payload_length eh \<le> length rest"
    using decode_header_payload [OF d(1)] by simp
  then show ?case
    using d Cons list_rlp_nonempty [OF header_list_rlp [OF v]] rlp_block_header.round_trip [OF v, of KProhibit]
    by (simp add: load_ancestors.simps [of "?enc h @ ?rest"] Let_def add.commute)
qed (simp add: load_ancestors.simps)

text \<open>Where the section of the blocks lies in the bundle, the loader gives back its parts.\<close>

lemma load_blocks_section_written:
  assumes "blob = X @ blocks_section brs flags rs @ Y" "length X = unat (fst s)" "unat (snd s) = length (blocks_section brs flags rs)" "unat (fst s) mod 8 = 0"
    "\<forall>br \<in> set brs. list_rlp br" "flags = [] \<or> length flags = length brs" "list_all2 (\<lambda>f r. and f kBlockFlagEngineRecord \<noteq> 0 \<longleftrightarrow> r \<noteq> None) flags rs"
    "\<forall>r \<in> set rs. engine_ok r" "length brs \<le> max_size" "length brs < 2 ^ 64"
  shows "load_blocks_section max_size blob s = Some (Some (brs, flags, if \<exists>f \<in> set flags. and f kBlockFlagEngineRecord \<noteq> 0 then rs else []))"
proof -
  let ?sum = "sum_list (map (\<lambda>br. align8 (length br)) brs)" and ?c = "unat (fst s) + 8" and ?n = "of_nat (length brs) :: u64"
  let ?blocks = "rev (store_big ?n) @ concat (map padded_block brs) @ flags"
  define es where "es = sum_list (map engine_length rs)"
  have h32: "\<forall>rec. Some rec \<in> set rs \<longrightarrow> length (er_block_hash rec) = 32"
    using assms(8) by (auto simp: engine_ok_def)
  note len = length_blocks_section [OF h32 refl, of brs flags, folded es_def]
  have lb: "length ?blocks = 8 + ?sum + length flags"
    by (simp add: length_padded_blocks)
  have "\<exists>Z. blocks_section brs flags rs = ?blocks @ Z"
    by (cases "sum_list (map engine_length rs) > 0") (simp_all add: blocks_section_def Let_def extend_to_def del: sum_list_eq_0_iff neq0_conv)
  then obtain Z where Z: "blocks_section brs flags rs = ?blocks @ Z" ..
  have e: "section_end s \<le> length blob" "section_end s = unat (fst s) + length (blocks_section brs flags rs)"
    using assms(1-3) by (simp_all add: section_end_def)
  have count: "read_word blob (unat (fst s)) = Some ?n" "unat ?n = length brs"
    using read_word_at [of "unat (fst s)" X ?n "concat (map padded_block brs) @ flags @ Z @ Y"] assms(1,2,10) by (simp_all add: Z unat_of_nat)
  have "?c mod 8 = 0"
    using assms(4) by presburger
  then have blocks: "load_blocks blob (section_end s) (length brs) ?c = Some (Some (brs, ?c + ?sum))"
    using assms(1,2,5) e lb by (intro load_blocks_written [of _ "X @ rev (store_big ?n)" _ "flags @ Z @ Y"]) (auto simp: Z)
  let ?flagged = "\<exists>f \<in> set flags. and f kBlockFlagEngineRecord \<noteq> 0"
  have fl: "(if brs \<noteq> [] \<and> ?c + ?sum + length brs \<le> section_end s then read_bytes blob (?c + ?sum) (length brs) else Some []) = Some flags"
  proof (cases "flags = []")
    case True
    then have "es = 0"
      using assms(7) by (simp add: es_def)
    then show ?thesis
      using True e(2) len by simp
  next
    case False
    then have f: "length flags = length brs" "brs \<noteq> []"
      using assms(6) by auto
    have "?c + ?sum + length brs \<le> section_end s"
      using e(2) lb f(1) by (simp add: Z)
    moreover have "read_bytes blob (?c + ?sum) (length brs) = Some flags"
      using assms(1,2) f(1) by (simp add: read_bytes_def Z length_padded_blocks)
    ultimately show ?thesis
      using f(2) by simp
  qed
  have en: "load_engine blob (section_end s) flags (align8 (?c + ?sum + length flags)) = Some (Some rs)" if flagged: "?flagged"
  proof -
    obtain rec where "Some rec \<in> set rs"
      using flagged assms(7) by (fastforce simp: list_all2_conv_all_nth set_conv_nth)
    then have pos: "es > 0"
      using member_le_sum_list [of "engine_length (Some rec)" "map engine_length rs"] engine_some(2) [of rec] by (force simp: es_def)
    let ?n8 = "align8 (8 + ?sum + length flags)"
    have al: "align8 (?c + ?sum + length flags) = unat (fst s) + ?n8"
      using align8_aligned(2) [OF assms(4), of "8 + ?sum + length flags"] by (simp add: add.assoc)
    have bs: "blocks_section brs flags rs = extend_to ?n8 ?blocks @ concat (map engine_bytes rs)"
      using pos lb by (simp add: blocks_section_def es_def Let_def add.assoc del: sum_list_eq_0_iff)
    show ?thesis
      unfolding al using assms(1,2,7,8) bs e len pos lb align8_le(1) [of "8 + ?sum + length flags"]
      by (intro load_engine_written [of _ _ _ "X @ extend_to ?n8 ?blocks" Y]) (auto simp: length_extend_to es_def)
  qed
  have "\<not> unat (snd s) < 8"
    using assms(3) lb by (simp add: Z)
  then show ?thesis
    using count blocks fl en assms(9) by (simp add: load_blocks_section_def)
qed

lemma no_section_overlap_sorted: "no_section_overlap ss \<longleftrightarrow> sorted_wrt (\<lambda>a b. \<not> sections_overlap a b) ss"
  by (induction ss) simp_all

text \<open>The sections of a bundle that has less than 4 GiB.\<close>

lemma section_of_bundle:
  assumes "length (bundle_bytes ss) < 2 ^ 32" "i < length ss"
    "s = (of_nat (places 56 (map length ss) ! i) :: u32, of_nat (length (ss ! i)) :: u32)"
    "blob = filled tot (bundle_bytes ss)"
    "length (header_bytes (places 56 (map length ss)) (map length ss)) = 56"
  shows "unat (fst s) = places 56 (map length ss) ! i" "unat (snd s) = length (ss ! i)"
    "\<exists>X Y. blob = X @ ss ! i @ Y \<and> length X = unat (fst s)" "section_end s \<le> length blob" "section_view blob s = Some (ss ! i)"
proof -
  obtain X Y where p: "bundle_bytes ss = X @ ss ! i @ Y" "length X = places 56 (map length ss) ! i"
    using place_split [OF assms(2), of "header_bytes (places 56 (map length ss)) (map length ss)"] assms(5) by (auto simp: bundle_bytes_def)
  then have "places 56 (map length ss) ! i + length (ss ! i) < 2 ^ 32"
    using assms(1) by simp
  then show u: "unat (fst s) = places 56 (map length ss) ! i" "unat (snd s) = length (ss ! i)"
    by (simp_all add: assms(3) unat_of_nat)
  show "\<exists>X Y. blob = X @ ss ! i @ Y \<and> length X = unat (fst s)"
    using p u(1) by (auto simp: assms(4) filled_def)
  then show "section_end s \<le> length blob" "section_view blob s = Some (ss ! i)"
    using u(2) by (auto simp: section_end_def section_view_def read_bytes_def)
qed

definition header_of :: "bytes list \<Rightarrow> flat_bundle_header" where
  "header_of ss = (let s = (\<lambda>i. (of_nat (places 56 (map length ss) ! i), of_nat (length (ss ! i)))) in
     \<lparr>fh_magic = kFlatBundleMagic, fh_version = kFlatBundleVersion, fh_genesis = s 0, fh_blocks = s 1, fh_ancestors = s 2, fh_direct = s 3, fh_nodes = s 4, fh_network = s 5\<rparr>)"

lemma bundle_header_of:
  assumes "length ss = 6"
  shows "read_bundle_header (filled tot (bundle_bytes ss)) = Some (header_of ss)" "length (header_bytes (places 56 (map length ss)) (map length ss)) = 56"
    "bundle_sections (header_of ss) = map (\<lambda>i. (of_nat (places 56 (map length ss) ! i), of_nat (length (ss ! i)))) [0..<6]"
proof -
  obtain a b c d e f where ss: "ss = [a, b, c, d, e, f]"
    using assms by (auto simp: numeral_eq_Suc length_Suc_conv)
  let ?h = "header_bytes (places 56 (map length ss)) (map length ss)"
  obtain Y where "bundle_bytes ss = ?h @ Y"
    using place_prefix by (auto simp: bundle_bytes_def)
  then have "filled tot (bundle_bytes ss) = ?h @ Y @ replicate (tot - length (bundle_bytes ss)) 0"
    by (simp add: filled_def)
  then show "read_bundle_header (filled tot (bundle_bytes ss)) = Some (header_of ss)"
    by (simp add: ss read_bundle_header_bytes header_of_def)
  show "length ?h = 56"
    by (simp add: ss header_bytes_def length_le_words)
  show "bundle_sections (header_of ss) = map (\<lambda>i. (of_nat (places 56 (map length ss) ! i), of_nat (length (ss ! i)))) [0..<6]"
    by (simp add: header_of_def bundle_sections_def upt_rec numeral_eq_Suc)
qed

lemma header_of_accepted:
  assumes "length ss = 6" "length (bundle_bytes ss) < 2 ^ 32" "blob = filled tot (bundle_bytes ss)"
  shows "header_accepted blob (header_of ss)"
proof -
  note b = bundle_header_of [OF assms(1)]
  let ?s = "\<lambda>i. (of_nat (places 56 (map length ss) ! i) :: u32, of_nat (length (ss ! i)) :: u32)"
  have sec: "unat (fst (?s i)) = places 56 (map length ss) ! i" "unat (snd (?s i)) = length (ss ! i)" "section_end (?s i) \<le> length blob" if "i < 6" for i
    using section_of_bundle [OF assms(2) _ refl assms(3) b(2), of i] that assms(1) by simp_all
  have "\<not> sections_overlap (?s i) (?s j)" if "i < j" "j < 6" for i j
    using places_before [of i j "map length ss" 56] sec [of i] sec [of j] that assms(1) by (simp add: sections_overlap_def section_end_def)
  then have "no_section_overlap (bundle_sections (header_of ss))"
    unfolding b(3) no_section_overlap_sorted sorted_wrt_iff_nth_less by simp
  moreover have "unat (fst (fh_direct (header_of ss))) mod 8 = 0"
    using sec(1) [of 3] places_first [of 3 "map length ss" 56] assms(1) by (simp add: header_of_def)
  moreover have "\<forall>s \<in> set (bundle_sections (header_of ss)). section_end s \<le> length blob"
    unfolding b(3) using sec(3) by auto
  ultimately show ?thesis
    by (auto simp: header_accepted_def header_of_def Let_def not_less)
qed

section \<open>The round trip\<close>

text \<open>Flags for all the blocks or for none, and an engine record where a flag says so.\<close>

definition records_match :: "bytes list \<Rightarrow> bytes \<Rightarrow> engine_record option list \<Rightarrow> bool" where
  "records_match brs flags rs \<longleftrightarrow> (flags = [] \<or> length flags = length brs) \<and>
     list_all2 (\<lambda>f r. and f kBlockFlagEngineRecord \<noteq> 0 \<longleftrightarrow> r \<noteq> None) flags rs \<and> (\<forall>r \<in> set rs. engine_ok r)"

lemma load_ancestors_vector:
  assumes "valid_vector valid_block_header length_block_header hs"
  shows "load_ancestors_section (encode_vector (\<lambda>h. encode_block_header h False False) length_block_header hs) =
    Some (hs, map (\<lambda>h. encode_block_header h False False) hs, True)"
proof -
  let ?enc = "\<lambda>h. encode_block_header h False False"
  have hs: "\<forall>h \<in> set hs. valid_block_header h" and n: "length_items length_block_header hs < 2 ^ 64"
    using assms by (auto simp: valid_vector_def)
  have l: "length_items length_block_header hs = length (encode_items ?enc hs)"
    using hs by (intro rlp_block_header.length_items_enc) auto
  let ?h = "\<lparr>is_list = True, payload_length = length_items length_block_header hs\<rparr>"
  have "decode_header (encode_header ?h @ encode_items ?enc hs) = Inr (?h, encode_items ?enc hs)"
    using n l by (intro decode_header_encode) (simp add: canonical_header_def)
  moreover have "encode_header ?h \<noteq> []"
    by (simp add: encode_header_def Let_def)
  ultimately show ?thesis
    using load_ancestors_headers [OF hs] l by (simp add: load_ancestors_section_def encode_vector_def)
qed

lemma block_count_bound:
  assumes "\<forall>br \<in> set brs. list_rlp br"
  shows "length brs \<le> sum_list (map (\<lambda>br. align8 (length br)) brs)"
  using assms
proof (induction brs)
  case (Cons br brs)
  then have "1 \<le> length br"
    using list_rlp_nonempty [of br] by (cases br) auto
  then show ?case
    using Cons align8_le(1) [of "length br"] by auto
qed simp

text \<open>
  C18: The loader gives back what the builder wrote: the genesis block, the blocks, their flags and engine records, the ancestor headers with their encodings, the network, and the
  state that the constructor makes of the witness and the node store, if the bundle has less than 4 GiB and lies at a multiple of 8.
\<close>

theorem flat_bundle_round_trip:
  assumes "valid_block genesis" "\<forall>br \<in> set brs. list_rlp br" "valid_vector valid_block_header length_block_header hs" "records_match brs flags rs"
    "new_witness True direct True nodes = Some w" "addr mod 8 = 0" "length brs \<le> max_size"
    "blob = build_flat_bundle (encode_block genesis) brs (encode_vector (\<lambda>h. encode_block_header h False False) length_block_header hs) direct nodes network flags rs"
    "length blob < 2 ^ 32"
  shows "\<exists>fb. load_flat_bundle addr max_size blob = Some (Some fb) \<and> fb_genesis fb = genesis \<and> fb_block_rlps fb = brs \<and> fb_block_flags fb = flags \<and>
    fb_engine_records fb = (if \<exists>f \<in> set flags. and f kBlockFlagEngineRecord \<noteq> 0 then rs else []) \<and> fb_ancestors fb = hs \<and>
    fb_ancestor_rlps fb = map (\<lambda>h. encode_block_header h False False) hs \<and> fb_ancestors_well_formed fb \<and> fb_network fb = network \<and> fb_direct fb = w"
proof -
  let ?anc = "encode_vector (\<lambda>h. encode_block_header h False False) length_block_header hs"
  define ss where "ss = [encode_block genesis, blocks_section brs flags rs, ?anc, direct, nodes, network]"
  have ss: "length ss = 6"
    by (simp add: ss_def)
  note b = bundle_header_of [OF ss]
  have h32: "\<forall>rec. Some rec \<in> set rs \<longrightarrow> length (er_block_hash rec) = 32"
    using assms(4) by (auto simp: records_match_def engine_ok_def)
  have blob: "blob = filled (align8 (length (bundle_bytes ss))) (bundle_bytes ss)"
    unfolding assms(8) ss_def by (rule build_flat_bundle_eq [OF h32 refl])
  then have small: "length (bundle_bytes ss) < 2 ^ 32"
    using assms(9) by (simp add: filled_def)
  let ?s = "\<lambda>i. (of_nat (places 56 (map length ss) ! i) :: u32, of_nat (length (ss ! i)) :: u32)"
  have sec: "unat (fst (?s i)) = places 56 (map length ss) ! i" "unat (snd (?s i)) = length (ss ! i)" "\<exists>X Y. blob = X @ ss ! i @ Y \<and> length X = unat (fst (?s i))"
    "section_view blob (?s i) = Some (ss ! i)" if "i < 6" for i
    using section_of_bundle [OF small _ refl blob b(2), of i] that ss by simp_all
  have al: "unat (fst (?s i)) mod 8 = 0" if "i < 6" for i
    using sec(1) [OF that] places_first [of i "map length ss" 56] that ss by simp
  obtain X Y where XY: "blob = X @ blocks_section brs flags rs @ Y" "length X = unat (fst (?s 1))"
    using sec(3) [of 1] by (auto simp: ss_def)
  have "length brs < 2 ^ 64"
    using block_count_bound [OF assms(2)] length_blocks_section [OF h32 refl, of brs flags] align8_le(1) [of "8 + sum_list (map (\<lambda>br. align8 (length br)) brs) + length flags"]
      XY(1) assms(9) by (simp split: if_splits)
  then have blocks: "load_blocks_section max_size blob (?s 1) = Some (Some (brs, flags, if \<exists>f \<in> set flags. and f kBlockFlagEngineRecord \<noteq> 0 then rs else []))"
    using XY sec(2) [of 1] al [of 1] assms(2,4,7) by (intro load_blocks_section_written) (simp_all add: ss_def records_match_def)
  have "56 \<le> length blob"
    using b(2) place_prefix [of "header_bytes (places 56 (map length ss)) (map length ss)" ss] by (auto simp: blob filled_def bundle_bytes_def)
  moreover have "decode_block (encode_block genesis) KProhibit = Inr (genesis, [])"
    by (rule rlp_block.round_trip [OF assms(1)])
  moreover have f: "fh_genesis (header_of ss) = ?s 0" "fh_blocks (header_of ss) = ?s 1" "fh_ancestors (header_of ss) = ?s 2" "fh_direct (header_of ss) = ?s 3"
    "fh_nodes (header_of ss) = ?s 4" "fh_network (header_of ss) = ?s 5"
    by (simp_all add: header_of_def)
  have i: "ss ! 0 = encode_block genesis" "ss ! 2 = ?anc" "ss ! 3 = direct" "ss ! 4 = nodes" "ss ! 5 = network"
    by (simp_all add: ss_def)
  have "section_view blob (fh_genesis (header_of ss)) = Some (encode_block genesis)" "section_view blob (fh_ancestors (header_of ss)) = Some ?anc"
    "section_view blob (fh_direct (header_of ss)) = Some direct" "section_view blob (fh_nodes (header_of ss)) = Some nodes"
    "section_view blob (fh_network (header_of ss)) = Some network"
    unfolding f using sec(4) [of 0] sec(4) [of 2] sec(4) [of 3] sec(4) [of 4] sec(4) [of 5] unfolding i by simp_all
  moreover have "(addr + unat (fst (fh_direct (header_of ss)))) mod 8 = 0" "(addr + unat (fst (fh_nodes (header_of ss)))) mod 8 = 0"
    unfolding f using assms(6) al [of 3] al [of 4] by presburger+
  moreover note blocks [folded f(2)]
  ultimately show ?thesis
    using header_of_accepted [OF ss small blob] b(1) [of "align8 (length (bundle_bytes ss))", folded blob] load_ancestors_vector [OF assms(3)] assms(5)
    by (simp add: load_flat_bundle_def sizeof_FlatBundleHeader_def)
qed

section \<open>A bundle\<close>

definition bundle_genesis :: block where
  "bundle_genesis = block_body.extend empty_body
     \<lparr>header = sample_header\<lparr>number := 0, gas_limit := 0, gas_used := 0, timestamp := 0, base_fee_per_gas := None, blob_gas_used := None, excess_blob_gas := None\<rparr>\<rparr>"

lemma bundle_genesis_items: "length (header_items (header bundle_genesis)) = 493"
  by (simp add: bundle_genesis_def block_body.extend_def sample_header_def header_items_def header_base_items_def header_added_items_def encode_opt_def
      encode_bytes_length encode_uint_length length_bytes_short length_bytes_def length_uint_def length_of_length_def count_significant_bytes_def)

lemma bundle_genesis_valid: "valid_block bundle_genesis" "length (encode_block bundle_genesis) = 502"
proof -
  have h: "valid_block_header (header bundle_genesis)"
    using bundle_genesis_items
    by (simp add: valid_block_header_def valid_header_base_def valid_header_added_def) (simp add: bundle_genesis_def block_body.extend_def sample_header_def)
  have e: "length (encode_block_header (header bundle_genesis) False False) = 496"
    using rlp_block_header.len_enc [OF h] block_header_rlp_header_eq [of "header bundle_genesis"] h bundle_genesis_items
    by (simp add: length_block_header_def valid_block_header_def length_of_length_def count_significant_bytes_def unat_of_nat)
  have b: "length (body_items bundle_genesis) = 3"
    by (simp add: body_items_def bundle_genesis_def block_body.extend_def empty_body_def encode_transactions_def encode_ommers_def encode_vector_def
        encode_header_def encode_opt_def length_items_def)
  have i: "length (block_items bundle_genesis) = 499"
    using e b by (simp add: block_items_def)
  have "valid_body_fields bundle_genesis"
    by (simp add: valid_body_fields_def bundle_genesis_def block_body.extend_def empty_body_def valid_vector_def length_items_def)
  then show v: "valid_block bundle_genesis"
    using h i by (simp add: valid_block_def valid_block_fields_def)
  then show "length (encode_block bundle_genesis) = 502"
    using rlp_block.len_enc [OF v] block_rlp_header_eq [of bundle_genesis] i
    by (simp add: length_block_def valid_block_def length_of_length_def count_significant_bytes_def unat_of_nat)
qed

definition bundle_engine :: engine_record where
  "bundle_engine = \<lparr>er_block_hash = replicate 32 1, er_versioned_hashes = replicate 32 2\<rparr>"

definition bundle_direct :: bytes where
  "bundle_direct = blob_of blob_account [honest_entry]"

lemma length_bundle_direct: "length bundle_direct = 856"
  using blob_lengths [OF blob_account_sized] length_encode_hashes [of "[honest_entry]"] honest_entry_ok by (simp add: bundle_direct_def blob_of_def)

lemma bundle_blocks: "list_rlp [0xC0]" "records_match [[0xC0]] [2] [Some bundle_engine]"
  "length (blocks_section [[0xC0]] [2] [Some bundle_engine]) = 96"
proof -
  show "list_rlp [0xC0]"
    by (auto simp: list_rlp_def encode_header_def kEmptyListCode_def intro!: exI [of _ "[]"])
  show "records_match [[0xC0]] [2] [Some bundle_engine]"
    by (simp add: records_match_def kBlockFlagEngineRecord_def engine_ok_def bundle_engine_def)
  show "length (blocks_section [[0xC0]] [2] [Some bundle_engine]) = 96"
    by (subst length_blocks_section [OF _ refl]) (simp_all add: engine_some bundle_engine_def align8_def)
qed

lemma flat_bundle_round_trip_witness:
  "\<exists>fb. load_flat_bundle 0 100 (build_flat_bundle (encode_block bundle_genesis) [[0xC0]] (encode_vector (\<lambda>h. encode_block_header h False False) length_block_header [])
       bundle_direct [] (replicate 7 65) [2] [Some bundle_engine]) = Some (Some fb) \<and>
     fb_genesis fb = bundle_genesis \<and> fb_block_rlps fb = [[0xC0]] \<and> fb_engine_records fb = [Some bundle_engine] \<and> fb_direct fb = witness_of blob_account [honest_entry]"
proof -
  let ?anc = "encode_vector (\<lambda>h. encode_block_header h False False) length_block_header []"
  let ?ss = "[encode_block bundle_genesis, blocks_section [[0xC0]] [2] [Some bundle_engine], ?anc, bundle_direct, [], replicate 7 65]"
  let ?blob = "build_flat_bundle (encode_block bundle_genesis) [[0xC0]] ?anc bundle_direct [] (replicate 7 65) [2] [Some bundle_engine]"
  have "length ?anc = 1"
    by (simp add: encode_vector_def encode_header_def length_items_def)
  then have "length (bundle_bytes ?ss) < 2000"
    using bundle_genesis_valid(2) bundle_blocks(3) length_bundle_direct bundle_header_of(2) [of ?ss]
    unfolding bundle_bytes_def length_place by (simp add: align8_def)
  moreover have "?blob = filled (align8 (length (bundle_bytes ?ss))) (bundle_bytes ?ss)"
    by (rule build_flat_bundle_eq [OF _ refl]) (simp add: bundle_engine_def)
  ultimately have "length ?blob < 2 ^ 32"
    using align8_le(1,2) [of "length (bundle_bytes ?ss)"] by (simp add: filled_def)
  moreover have "valid_vector valid_block_header length_block_header []"
    by (simp add: valid_vector_def length_items_def)
  moreover have "new_witness True bundle_direct True [] = Some (witness_of blob_account [honest_entry])"
    unfolding bundle_direct_def by (rule honest_blob)
  ultimately show ?thesis
    using flat_bundle_round_trip [OF bundle_genesis_valid(1) _ _ bundle_blocks(2) _ _ _ refl, of "[]" bundle_direct "[]" _ 0 100] bundle_blocks(1)
    by (auto simp: kBlockFlagEngineRecord_def)
qed

end
