(* ===== verification/Spec2Isabelle.thy ===== *)
theory Spec2Isabelle
  imports State_Root Mphf_Blob Blockchain Witness_Binding Code_Stream Flat_Bundle
begin

text \<open>
  Verification of the execution core of Zilkworm (the C++ code under src/zilk_core/core).

  \<^bold>\<open>The program.\<close> Zilkworm executes Ethereum blocks without a database, inside a prover. Its input is a witness: one blob with the accounts, storage
  slots and code that the blocks need, and the blocks as RLP. The blob is checked (\<open>DirectState\<close>, \<open>sanitize\<close>), the blocks are decoded (\<open>rlp\<close>, \<open>types\<close>),
  their headers and bodies are checked against the rules of the chain (\<open>protocol\<close>, \<open>chain\<close>), the transactions are validated and run by an EVM
  (\<open>execution/processor.cpp\<close>), each result is applied to the state as a diff, and the commitments of the header (gas, receipts, bloom, requests,
  state root) are compared with what the execution gave (\<open>protocol/blockchain.cpp\<close>, \<open>trie\<close>).

  \<^bold>\<open>Conventions.\<close> A w-bit integer is a word of its width, and arithmetic wraps as it does in the source; sizes of buffers are natural numbers. A C++ class
  or struct is a record with the names of the source, an enumeration a datatype. Errors that the source returns are values (\<open>DecodingError\<close> as
  \<open>result\<close>, \<open>ValidationResult\<close> as a datatype). A call that has no result in the source (an abort, a read outside a buffer, a division by zero) is \<open>None\<close>;
  every theorem that a function is safe states that it is not \<open>None\<close>. The names of definitions are those of the source; where one name is overloaded there,
  the type is added (\<open>encode_transaction\<close>). Code that is not in the repository is a parameter: the Keccak and SHA-256 functions, the recovery of public
  keys, the hash of the hash maps' keys, and the EVM.

  \<^bold>\<open>Encodings.\<close>
  \<^item> \<open>Prelude\<close>, \<open>Endian\<close>: machine integers, byte strings and results; common/endian.hpp and common/util.hpp.
  \<^item> \<open>Rlp_Encode\<close>, \<open>Rlp_Decode\<close>: rlp/encode.hpp, rlp/decode.hpp and the vector variants. The locales \<open>rlp_item\<close>, \<open>rlp_codec\<close> and \<open>rlp_items\<close> are the interface of
    an encoder with its length and its decoder: the decoder accepts exactly the encodings, consumes exactly their bytes and returns the encoded value. Each
    type of the source is an interpretation, and a list or structure of codecs is again one.
  \<^item> \<open>Types_Basic\<close>, \<open>Transaction\<close>, \<open>Block\<close>: types/address.cpp, withdrawal.cpp, y_parity_and_chain_id.cpp, transaction.cpp and block.cpp: exact decoders for every
    transaction type, the payloads that are hashed and signed, the sender caches, headers with the fields that forks append.
  \<^item> \<open>Account\<close>: types_zz/account.cpp, the account leaf, in its generic form and in the form of the 32-bit guests, and its cached and patched variant.
  \<^item> \<open>Receipts\<close>, \<open>Requests\<close>: types/log.cpp, bloom.cpp, receipt.cpp and eip_7685_requests.cpp: the encoder that writes a receipt in place is the RLP of the receipt; the
    bloom has exactly the bits of the logs; the deposits of a log are those of its ABI encoding.

  \<^bold>\<open>Tries.\<close>
  \<^item> \<open>Trie_Basic\<close>, \<open>Hash_Builder\<close>: trie/nibbles.cpp, node.cpp, prefix_set.cpp and hash_builder.cpp, the stack machine with its collectors.
  \<^item> \<open>Merkle_Trie\<close>: the Modified Merkle Patricia Trie of the Yellow Paper as a specification. \<open>Trie_Refinement\<close>: the stack machine computes its root.
  \<^item> \<open>Vector_Root\<close>: trie/vector_root.hpp, with the roots of transactions, withdrawals and receipts.

  \<^bold>\<open>Rules.\<close>
  \<^item> \<open>Chain_Config\<close>: chain/config.cpp, the fork schedule and the known networks. \<open>Fees\<close>, \<open>Intrinsic_Gas\<close>: the base fee, the blob gas price, the excess blob gas and the gas paid
    before execution; each equals its formula over unbounded integers, within bounds that the theorems name.
  \<^item> \<open>Validation_Result\<close>, \<open>Validation\<close>: protocol/validation.cpp; what is accepted is a predicate over the transaction.
  \<^item> \<open>Rule_Set\<close>, \<open>Block_Rules\<close>: protocol/rule_set.cpp, merge_rule_set.cpp and ethash_rule_set.cpp; the accepted headers and bodies.
  \<^item> \<open>Rule_Actions\<close>: what the rules change in the state: the DAO fork, rewards and withdrawals.

  \<^bold>\<open>The witness.\<close>
  \<^item> \<open>Checked_Reads\<close>, \<open>Mphf_Map\<close>: common_zz/mphf_map.hpp, index_key.hpp: the lookup in a minimal perfect hash map of untrusted bytes reads no byte outside of
    it once \<open>validate_mphf\<close> has accepted it. \<open>Mphf_Solve\<close>, \<open>Mphf_Builder\<close>, \<open>Mphf_Blob\<close>: mphf_builder.cpp; the map opened on the finished blob finds what was added.
  \<^item> \<open>Witness_Layout\<close>: state_zz/pre_state.hpp and the constructor of \<open>DirectState\<close>: the layout check and the records as bytes.
  \<^item> \<open>Sanitize\<close>, \<open>Witness_Binding\<close>: \<open>DirectState::sanitize\<close>. It returns on every blob that the constructor accepts; a blob that it accepts gives a state that
    keeps the invariant below, bound to its hashes, provided that the table of address hashes has the offsets of entries only, which it does not check; a
    theorem has a blob where this matters.
  \<^item> \<open>Code_Stream\<close>: state_zz/code_store_stream.hpp and the guest's reader (airbender_input.hpp), which hashes the code store while it reads: the buffer is the input, and the
    marks that \<open>sanitize\<close> trusts are right.
  \<^item> \<open>Flat_Bundle\<close>: types_zz/flat_bundle.cpp: the loader of an untrusted bundle reads inside of it, and gives back what the builder wrote.

  \<^bold>\<open>The state.\<close>
  \<^item> \<open>Slot_Search\<close>, \<open>Direct_State\<close>: state_zz/direct_state.cpp: lookups, writes, journals, state diffs, roots, in the default build (\<open>USE_HASH_KEY\<close> and
    \<open>ZILK_SEAL_CODE_STORE\<close> off). Where the source keeps a pointer to a record, the model has a reference (\<open>account_ref\<close>).
  \<^item> \<open>Account_Map\<close>: the locale \<open>account_store\<close>, what the rules of a block rely on; \<open>State_Refinement\<close> interprets it: each operation implements one on a map from
    addresses to accounts (\<open>abs_state\<close>) and keeps the invariant (\<open>state_ok\<close>).
  \<^item> \<open>State_Root\<close>: the state root is that of the trie of the alive accounts. \<open>Ancestors\<close>: the headers and the walk of \<open>get_block_hash\<close>.
  \<^item> \<open>State_View\<close>: the view that the EVM reads from. \<open>State_Frame\<close>: what operations leave alone.

  \<^bold>\<open>Execution.\<close>
  \<^item> \<open>Processor\<close>: execution/processor.cpp. The EVM (evmone) is a program that asks the view and ends with a diff, a receipt and the gas; what it is relied on
    for is \<open>evmone_ok\<close>: its diffs and logs are well formed, and it uses only handles that it was given. \<open>Block_Execution\<close>: a block runs as a sequence of transitions on the map
    of accounts. \<open>Block_Validity\<close>: every block gets a result, and an accepted block has the commitments of its header. \<open>Blockchain\<close>: protocol/blockchain.cpp, the
    insertion of a block with the comparison of the state root.

  \<^bold>\<open>Loops and bounds.\<close> The loops of the source are recursive functions with termination proofs, and no function has fuel. The Taylor series of the blob gas price
  is a loop that need not end for every argument (\<open>fake_exponential_loop\<close>, a partial function): \<open>blob_gas_price_exact\<close> shows where it ends, and with which value. Collision
  freedom of Keccak is a hypothesis only where a root has to determine its trie (\<open>collision_free\<close>), and is there restricted to the keys that occur.

  \<^bold>\<open>Not modelled.\<close>
  \<^item> evmone and the cryptographic libraries are not in the repository; the precompiles (execution/precompile.cpp) call them.
  \<^item> The incremental trie (trie_zz) and the check of the witness against the state root before a block (\<open>check_root\<close> in dev/state_transition.cpp) rest on the node store and on
    in-place operations of a grid of nodes.
  \<^item> \<open>HashState\<close> (state_zz/hash_state.cpp), the recovery from the node store and the sealing of the code store are other builds of the state.
  \<^item> The JSON of configurations and genesis files, the data in chain/genesis_*.cpp, the command line tools under dev, the guests, the prover and the bindings are input and output, data
    or glue.
\<close>

end
